(* ===== verification/UVM_Prelude.thy ===== *)
theory UVM_Prelude
  imports Main "HOL-Library.Word"
begin

unbundle bit_operations_syntax

text \<open>
  What every component of the library shares: the machine types of the register layer,
  the messages an operation reports, word lemmas about masks and shifted bit slices, and the
  generic invariant arguments for state machines. Nothing here models a function of the
  program; the enumerations and helpers of the program are in the component theories.
\<close>

section \<open>Machine types\<close>

text \<open>
  \<open>uvm_reg_data_t\<close> and \<open>uvm_reg_addr_t\<close> are \<open>sc_uint<64>\<close> in the default configuration
  (\<open>UVM_REG_DATA_WIDTH\<close> and \<open>UVM_REG_ADDR_WIDTH\<close> are 64); \<open>unsigned int\<close> is 32 bits wide and
  \<open>unsigned long\<close> 64 (the LP64 data model).
\<close>

type_synonym data = "64 word"
type_synonym addr = "64 word"
type_synonym uint = "32 word"
type_synonym ulong = "64 word"

section \<open>Reported messages\<close>

text \<open>
  The macros \<open>UVM_INFO\<close>, \<open>UVM_WARNING\<close>, \<open>UVM_ERROR\<close> and \<open>UVM_FATAL\<close> report a message and
  return. A model returns the list of the messages it reports, each as its severity and its
  id; the formatted text is left out.
\<close>

datatype uvm_severity = UVM_INFO | UVM_WARNING | UVM_ERROR | UVM_FATAL

type_synonym msg = "uvm_severity \<times> string"

definition no_error :: "msg list \<Rightarrow> bool" where
  "no_error ms \<longleftrightarrow> (\<forall>m \<in> set ms. fst m = UVM_INFO \<or> fst m = UVM_WARNING)"

lemma no_error_Nil [simp]: "no_error []"
  by (simp add: no_error_def)

lemma no_error_Cons [simp]:
  "no_error (m # ms) \<longleftrightarrow> (fst m = UVM_INFO \<or> fst m = UVM_WARNING) \<and> no_error ms"
  by (auto simp: no_error_def)

lemma no_error_append [simp]: "no_error (ms @ ns) \<longleftrightarrow> no_error ms \<and> no_error ns"
  by (auto simp: no_error_def)

section \<open>Masks and bit slices\<close>

named_theorems bit_slice "facts about masks and shifted bit slices of words"

text \<open>A value fits in \<open>n\<close> bits when masking it changes nothing.\<close>

definition fits :: "nat \<Rightarrow> data \<Rightarrow> bool" where
  "fits n v \<longleftrightarrow> v AND mask n = v"

lemma fits_bit: "fits n v \<longleftrightarrow> (\<forall>i. bit v i \<longrightarrow> i < n)"
proof -
  have "bit v i \<Longrightarrow> i < 64" for i using bit_imp_le_length [of v i] by simp
  then show ?thesis by (auto simp: fits_def bit_eq_iff bit_simps)
qed

lemma fits_zero [simp]: "fits n 0"
  by (simp add: fits_def)

lemma fits_mask [simp]: "fits n (mask n)"
  by (simp add: fits_def)

lemma fits_and_mask [simp]: "fits n (v AND mask n)"
  by (simp add: fits_def and.assoc)

lemma fits_and_1 [simp]: "fits (Suc 0) (v AND 1)"
  using fits_and_mask [of "Suc 0" v] by simp

lemma fits_and_left [intro]: "fits n v \<Longrightarrow> fits n (v AND w)"
  by (auto simp: fits_bit bit_simps)

lemma fits_or [intro]: "fits n v \<Longrightarrow> fits n w \<Longrightarrow> fits n (v OR w)"
  by (auto simp: fits_bit bit_simps)

lemma fits_xor [intro]: "fits n v \<Longrightarrow> fits n w \<Longrightarrow> fits n (v XOR w)"
  by (auto simp: fits_bit bit_simps)

lemma fits_and_mask_id: "fits n v \<Longrightarrow> v AND mask n = v"
  by (simp add: fits_def)

lemma fits_mono: "fits m v \<Longrightarrow> m \<le> n \<Longrightarrow> fits n v"
  by (auto simp: fits_bit)

lemma drop_bit_zero_iff_fits: "drop_bit n v = 0 \<longleftrightarrow> fits n (v :: data)"
proof
  assume *: "drop_bit n v = 0"
  show "fits n v"
    unfolding fits_bit
  proof (intro allI impI)
    fix i assume "bit v i"
    show "i < n"
    proof (rule ccontr)
      assume "\<not> i < n"
      then have "bit (drop_bit n v) (i - n)" using \<open>bit v i\<close> by (simp add: bit_simps)
      with * show False by simp
    qed
  qed
next
  assume "fits n v"
  then show "drop_bit n v = 0"
    by (auto simp: fits_bit bit_eq_iff bit_simps)
qed

text \<open>The slice of \<open>n\<close> bits at position \<open>l\<close>, and a field value shifted to its position.\<close>

definition slice_of :: "nat \<Rightarrow> nat \<Rightarrow> data \<Rightarrow> data" where
  "slice_of l n v = drop_bit l v AND mask n"

lemma bit_slice_of: "bit (slice_of l n v) i \<longleftrightarrow> i < n \<and> bit v (l + i)"
  by (auto simp: slice_of_def bit_simps dest: bit_imp_le_length)

lemma fits_slice_of [simp]: "fits n (slice_of l n v)"
  by (simp add: slice_of_def)

lemma slice_of_push:
  assumes "fits n v" "l + n \<le> 64"
  shows "slice_of l n (push_bit l v) = v"
proof (rule bit_eqI)
  fix i
  have "bit v i \<Longrightarrow> i < n" using assms(1) by (simp add: fits_bit)
  then show "bit (slice_of l n (push_bit l v)) i \<longleftrightarrow> bit v i"
    using assms(2) by (auto simp: bit_slice_of bit_simps)
qed

lemma slice_of_or: "slice_of l n (v OR w) = slice_of l n v OR slice_of l n w"
  by (rule bit_eqI) (auto simp: bit_slice_of bit_simps)

lemma slice_of_push_disjoint:
  assumes "fits m v" "l + n \<le> k \<or> k + m \<le> l"
  shows "slice_of l n (push_bit k v) = 0"
proof (rule bit_eqI)
  fix i
  have "bit v j \<Longrightarrow> j < m" for j using assms(1) by (simp add: fits_bit)
  from this [of "l + i - k"] assms(2)
  show "bit (slice_of l n (push_bit k v)) i \<longleftrightarrow> bit 0 i"
    by (auto simp: bit_slice_of bit_simps)
qed

lemma slice_of_zero [simp]: "slice_of l n 0 = 0"
  by (simp add: slice_of_def)

lemmas slice_rules = slice_of_or slice_of_push slice_of_push_disjoint

declare slice_rules [bit_slice] fits_and_mask_id [bit_slice] slice_of_zero [bit_slice]

section \<open>Containers of pointers\<close>

text \<open>
  A \<open>std::map\<close> whose keys are pointers and whose values do not matter is the sorted list of its
  keys, in the order in which its iterators visit them.
\<close>

definition put_key :: "nat \<Rightarrow> nat list \<Rightarrow> nat list" where
  "put_key a xs = insort_insert a xs"

definition erase_key :: "nat \<Rightarrow> nat list \<Rightarrow> nat list" where
  "erase_key a xs = filter (\<lambda>x. x \<noteq> a) xs"

lemma set_put_key [simp]: "set (put_key a xs) = insert a (set xs)"
  by (simp add: put_key_def set_insort_insert)

lemma set_erase_key [simp]: "set (erase_key a xs) = set xs - {a}"
  by (auto simp: erase_key_def)

lemma put_key_ok: "sorted xs \<Longrightarrow> distinct xs \<Longrightarrow> sorted (put_key a xs) \<and> distinct (put_key a xs)"
  by (simp add: put_key_def sorted_insort_insert distinct_insort_insert)

lemma erase_key_ok: "sorted xs \<Longrightarrow> distinct xs \<Longrightarrow> sorted (erase_key a xs) \<and> distinct (erase_key a xs)"
  by (simp add: erase_key_def sorted_filter [where f = id, simplified])

lemma set_fold_put [simp]: "set (fold put_key ys xs) = set ys \<union> set xs"
  by (induction ys arbitrary: xs) auto

lemma fold_put_ok:
  "sorted xs \<Longrightarrow> distinct xs \<Longrightarrow> sorted (fold put_key ys xs) \<and> distinct (fold put_key ys xs)"
  by (induction ys arbitrary: xs) (auto simp: put_key_ok)

text \<open>A loop whose body may fail.\<close>

fun seq_all :: "('a \<Rightarrow> 's \<Rightarrow> 's option) \<Rightarrow> 'a list \<Rightarrow> 's \<Rightarrow> 's option" where
  "seq_all f [] s = Some s"
| "seq_all f (x # xs) s = (case f x s of None \<Rightarrow> None | Some s1 \<Rightarrow> seq_all f xs s1)"

lemma seq_all_append: "seq_all f (xs @ ys) s = (case seq_all f xs s of None \<Rightarrow> None | Some t \<Rightarrow> seq_all f ys t)"
  by (induction xs arbitrary: s) (auto split: option.splits)

text \<open>Going along an edge of an acyclic relation leaves fewer elements below.\<close>

lemma below_smaller:
  assumes "finite r" "acyclic r" "(n, x) \<in> r"
  shows "card (r\<^sup>+ `` {x}) < card (r\<^sup>+ `` {n})"
proof (rule psubset_card_mono)
  show "finite (r\<^sup>+ `` {n})" using assms(1) by (simp add: finite_Image)
  have "r\<^sup>+ `` {x} \<subseteq> r\<^sup>+ `` {n}" using assms(3) by (auto intro: trancl_into_trancl2)
  moreover have "x \<in> r\<^sup>+ `` {n}" "x \<notin> r\<^sup>+ `` {x}" using assms(2,3) by (auto simp: acyclic_def)
  ultimately show "r\<^sup>+ `` {x} \<subset> r\<^sup>+ `` {n}" by blast
qed

section \<open>Invariants of state machines\<close>

text \<open>
  A component with state is a function from events to state changes. The contract: an
  invariant that every step the environment may take (\<open>ok\<close>) keeps. Then every run keeps it.
\<close>

locale guarded_machine =
  fixes step :: "'e \<Rightarrow> 's \<Rightarrow> 's"
    and ok :: "'e \<Rightarrow> 's \<Rightarrow> bool"
    and inv :: "'s \<Rightarrow> bool"
  assumes step_inv: "inv s \<Longrightarrow> ok e s \<Longrightarrow> inv (step e s)"
begin

fun run_ok :: "'e list \<Rightarrow> 's \<Rightarrow> bool" where
  "run_ok [] s = True"
| "run_ok (e # es) s = (ok e s \<and> run_ok es (step e s))"

lemma run_inv: "inv s \<Longrightarrow> run_ok es s \<Longrightarrow> inv (fold step es s)"
  by (induction es arbitrary: s) (auto intro: step_inv)

text \<open>The same with the condition on every step written over the prefixes of the run.\<close>

lemma run_ok_nth: "(\<And>k. k < length es \<Longrightarrow> ok (es ! k) (fold step (take k es) s)) \<Longrightarrow> run_ok es s"
proof (induction es arbitrary: s)
  case (Cons e es)
  from Cons.prems [of 0] have "ok e s" by simp
  moreover have "run_ok es (step e s)"
  proof (rule Cons.IH)
    fix k assume "k < length es"
    with Cons.prems [of "Suc k"] show "ok (es ! k) (fold step (take k es) (step e s))" by simp
  qed
  ultimately show ?case by simp
qed simp

lemma run_inv_nth:
  "inv s \<Longrightarrow> (\<And>k. k < length es \<Longrightarrow> ok (es ! k) (fold step (take k es) s)) \<Longrightarrow> inv (fold step es s)"
  by (rule run_inv) (simp_all add: run_ok_nth)

end

locale total_machine =
  fixes step :: "'e \<Rightarrow> 's \<Rightarrow> 's"
    and inv :: "'s \<Rightarrow> bool"
  assumes total_step_inv: "inv s \<Longrightarrow> inv (step e s)"
begin

lemma total_run_inv: "inv s \<Longrightarrow> inv (fold step es s)"
  by (induction es arbitrary: s) (auto intro: total_step_inv)

end

sublocale total_machine \<subseteq> guarded_machine step "\<lambda>_ _. True" inv
  by unfold_locales (rule total_step_inv)

end
