(* ===== verification/Reg_Model.thy ===== *)
theory Reg_Model
  imports UVM_Prelude
begin

text \<open>
  \<open>src/uvmsc/reg/uvm_reg_model.h\<close> and \<open>.cpp\<close>: the enumerations of the register layer and
  \<open>uvm_mask_size\<close>; the HDL path concatenation of \<open>uvm_hdl_path_concat.h\<close>; \<open>uvm_toupper\<close> of
  \<open>src/uvmsc/misc/uvm_misc.cpp\<close>; and the transaction item \<open>uvm_reg_item\<close>. In an item the
  handles to the element, the parent sequence and the extension are left out: the operations
  that dereference them take what they read there as arguments.
\<close>

section \<open>Enumerations\<close>

datatype uvm_status_e = UVM_IS_OK | UVM_NOT_OK | UVM_HAS_X

datatype uvm_path_e = UVM_FRONTDOOR | UVM_BACKDOOR | UVM_PREDICT | UVM_DEFAULT_PATH

datatype uvm_check_e = UVM_NO_CHECK | UVM_CHECK

datatype uvm_endianness_e =
  UVM_NO_ENDIAN | UVM_LITTLE_ENDIAN | UVM_BIG_ENDIAN | UVM_LITTLE_FIFO | UVM_BIG_FIFO

datatype uvm_elem_kind_e = UVM_REG | UVM_FIELD | UVM_MEM

datatype uvm_access_e = UVM_READ | UVM_WRITE | UVM_BURST_READ | UVM_BURST_WRITE

datatype uvm_hier_e = UVM_NO_HIER | UVM_HIER

datatype uvm_predict_e = UVM_PREDICT_DIRECT | UVM_PREDICT_READ | UVM_PREDICT_WRITE

section \<open>Transaction items\<close>

text \<open>
  Address maps are named by numbers; the singleton that stands for backdoor accesses
  (\<open>uvm_reg_map::backdoor()\<close>) is one more name. \<open>None\<close> is the null handle. \<open>it_value\<close> is
  \<open>value[0]\<close>, the only element a register or field access uses.
\<close>

datatype map_id = Backdoor_Map | Map_Id nat

record reg_item =
  it_element_kind :: uvm_elem_kind_e
  it_access_kind :: uvm_access_e
  it_value :: data
  it_status :: uvm_status_e
  it_path :: uvm_path_e
  it_bd_kind :: string
  it_map :: "map_id option"
  it_local_map :: "map_id option"

section \<open>uvm_mask_size\<close>

primrec mask_loop :: "nat \<Rightarrow> data \<Rightarrow> data" where
  "mask_loop 0 m = m"
| "mask_loop (Suc n) m = mask_loop n (push_bit 1 m + 1)"

definition uvm_mask_size :: "nat \<Rightarrow> data" where
  "uvm_mask_size sz = mask_loop sz 0"

lemma push_mask_Suc: "push_bit 1 (mask k) + 1 = (mask (Suc k) :: data)"
  by (simp add: mask_eq_exp_minus_1 push_bit_eq_mult algebra_simps)

lemma mask_loop_mask: "mask_loop n (mask k) = mask (k + n)"
proof (induction n arbitrary: k)
  case (Suc n)
  have "mask_loop (Suc n) (mask k) = mask_loop n (mask (Suc k))"
    by (simp only: mask_loop.simps push_mask_Suc)
  then show ?case by (simp only: Suc.IH) simp
qed simp

lemma uvm_mask_size_mask [simp]: "uvm_mask_size n = mask n"
  using mask_loop_mask [of n 0] by (simp add: uvm_mask_size_def)

section \<open>uvm_toupper\<close>

definition char_toupper :: "char \<Rightarrow> char" where
  "char_toupper c = (let n = (of_char c :: nat) in if 97 \<le> n \<and> n \<le> 122 then char_of (n - 32) else c)"

definition uvm_toupper :: "string \<Rightarrow> string" where
  "uvm_toupper s = map char_toupper s"

lemma char_toupper_idem [simp]: "char_toupper (char_toupper c) = char_toupper c"
proof (cases "97 \<le> (of_char c :: nat) \<and> (of_char c :: nat) \<le> 122")
  case True
  then have "(of_char c :: nat) - 32 < 256" by linarith
  with True have "(of_char (char_toupper c) :: nat) = of_char c - 32"
    by (simp add: char_toupper_def Let_def)
  moreover from True have "\<not> 97 \<le> (of_char c :: nat) - 32" by linarith
  ultimately show ?thesis by (simp add: char_toupper_def [of "char_toupper c"] Let_def)
next
  case False
  then have "char_toupper c = c" by (auto simp: char_toupper_def Let_def)
  then show ?thesis by simp
qed

lemma uvm_toupper_idem [simp]: "uvm_toupper (uvm_toupper s) = uvm_toupper s"
  by (simp add: uvm_toupper_def)

section \<open>HDL path concatenations\<close>

record hdl_path_slice =
  sl_path :: string
  sl_offset :: int
  sl_size :: int

type_synonym hdl_path_concat = "hdl_path_slice list"

definition concat_set :: "hdl_path_slice list \<Rightarrow> hdl_path_concat \<Rightarrow> hdl_path_concat" where
  "concat_set t c = t"

definition add_slice :: "hdl_path_slice \<Rightarrow> hdl_path_concat \<Rightarrow> hdl_path_concat" where
  "add_slice sl c = c @ [sl]"

text \<open>The arguments are \<open>unsigned int\<close> and the members \<open>int\<close>: the default \<open>-1\<close> comes back as \<open>-1\<close>.\<close>

definition add_path :: "string \<Rightarrow> uint \<Rightarrow> uint \<Rightarrow> hdl_path_concat \<Rightarrow> hdl_path_concat" where
  "add_path path offset sz c =
     add_slice \<lparr>sl_path = path, sl_offset = sint offset, sl_size = sint sz\<rparr> c"

end
