(* ===== verification/Reg_Field.thy ===== *)
theory Reg_Field
  imports Reg_Model
begin

text \<open>
  \<open>src/uvmsc/reg/uvm_reg_field.cpp\<close>: a register field. It keeps the mirrored value (what the
  model thinks the hardware holds), the desired value and the value member, its access policy
  (a string, as in the code), position and size, its reset values by kind, and the flags of an
  access in progress. What a field asks of its register is an argument: the rights of the
  register in the map of the access, whether that map is the backdoor map, and whether the
  register is busy. \<open>m_fname\<close> and \<open>m_lineno\<close> are debugging information and left out.

  Shifts by the field size are C++ shifts of a 64-bit value: for a field of 64 bits
  \<open>value >> m_size\<close> is undefined in C++, and the model shifts everything out.
\<close>

record reg_field =
  f_name :: string
  f_mirrored :: data
  f_desired :: data
  f_value :: data
  f_access :: string
  f_lsb :: nat
  f_size :: nat
  f_volatile :: bool
  f_reset :: "string \<rightharpoonup> data"
  f_written :: bool
  f_read_in_progress :: bool
  f_write_in_progress :: bool
  f_individually_accessible :: bool
  f_check :: uvm_check_e

text \<open>The static members: the table of defined policies and the largest field size.\<close>

record field_static =
  s_predefined :: bool
  s_policy_names :: "string \<rightharpoonup> bool"
  s_max_size :: nat

section \<open>Construction and access policies\<close>

definition new_field :: "string \<Rightarrow> reg_field" where
  "new_field name =
     \<lparr>f_name = name, f_mirrored = 0, f_desired = 0, f_value = 0, f_access = '''', f_lsb = 0,
      f_size = 0, f_volatile = False, f_reset = Map.empty, f_written = False,
      f_read_in_progress = False, f_write_in_progress = False,
      f_individually_accessible = False, f_check = UVM_NO_CHECK\<rparr>"

text \<open>\<open>define_access\<close> once the predefined policies are in the table.\<close>

definition define_access_tail :: "string \<Rightarrow> field_static \<Rightarrow> bool \<times> field_static" where
  "define_access_tail name st =
     (let name = uvm_toupper name
      in if s_policy_names st name \<noteq> None then (False, st)
         else (True, st\<lparr>s_policy_names := (s_policy_names st)(name \<mapsto> True)\<rparr>))"

definition predefined_policies :: "string list" where
  "predefined_policies =
     [''RO'', ''RW'', ''RC'', ''RS'', ''WRC'', ''WRS'', ''WC'', ''WS'', ''WSRC'', ''WCRS'',
      ''W1C'', ''W1S'', ''W1T'', ''W0C'', ''W0S'', ''W0T'', ''W1SRC'', ''W1CRS'', ''W0SRC'',
      ''W0CRS'', ''WO'', ''WOC'', ''WOS'', ''W1'', ''WO1'']"

definition m_predefine_policies :: "field_static \<Rightarrow> bool \<times> field_static" where
  "m_predefine_policies st =
     (if s_predefined st then (True, st)
      else (True, fold (\<lambda>n s. snd (define_access_tail n s)) predefined_policies
                    (st\<lparr>s_predefined := True\<rparr>)))"

definition define_access :: "string \<Rightarrow> field_static \<Rightarrow> bool \<times> field_static" where
  "define_access name st =
     (let st = (if s_predefined st then st
                else (let (b, st') = m_predefine_policies st in st'\<lparr>s_predefined := b\<rparr>))
      in define_access_tail name st)"

definition set_access :: "field_static \<Rightarrow> string \<Rightarrow> reg_field \<Rightarrow> string \<times> reg_field \<times> msg list" where
  "set_access st mode f =
     (let access = f_access f; f' = f\<lparr>f_access := uvm_toupper mode\<rparr>
      in if s_policy_names st (f_access f') = None
         then (access, f'\<lparr>f_access := access\<rparr>, [(UVM_ERROR, ''RegModel'')])
         else (access, f', []))"

definition set_reset :: "data \<Rightarrow> string \<Rightarrow> reg_field \<Rightarrow> reg_field" where
  "set_reset value kind f =
     f\<lparr>f_reset := (f_reset f)(kind \<mapsto> value AND uvm_mask_size (f_size f))\<rparr>"

text \<open>
  \<open>configure\<close>: the field's own part; adding it to the register is \<open>Reg_Register.add_field\<close>, which
  reads only the position and the size. The argument \<open>is_rand\<close> is not used after the call.
\<close>

definition configure ::
  "nat \<Rightarrow> nat \<Rightarrow> string \<Rightarrow> bool \<Rightarrow> data \<Rightarrow> bool \<Rightarrow> bool \<Rightarrow> field_static \<Rightarrow> reg_field
    \<Rightarrow> reg_field \<times> field_static \<times> msg list" where
  "configure sz lsb_pos access is_volatile reset has_reset indv st f =
     (let m0 = (if sz = 0 then [(UVM_ERROR, ''RegModel'')] else []);
          sz = (if sz = 0 then 1 else sz);
          f = f\<lparr>f_size := sz, f_volatile := is_volatile, f_access := uvm_toupper access,
                f_lsb := lsb_pos, f_written := False,
                f_check := (if is_volatile then UVM_NO_CHECK else UVM_CHECK),
                f_individually_accessible := indv\<rparr>;
          f = (if has_reset then set_reset reset ''HARD'' f else f);
          (f, m1) = (if s_policy_names st (f_access f) = None
                     then (f\<lparr>f_access := ''RW''\<rparr>, [(UVM_ERROR, ''RegModel'')]) else (f, []));
          st = (if sz > s_max_size st then st\<lparr>s_max_size := sz\<rparr> else st)
      in (f, st, m0 @ m1))"

text \<open>What a field asks about the map of an access: is it the backdoor map, and the register's rights.\<close>

type_synonym map_view = "bool \<times> string"

fun get_access :: "map_view \<Rightarrow> reg_field \<Rightarrow> string \<times> msg list" where
  "get_access (is_backdoor, rights) f =
     (let acc = f_access f
      in if is_backdoor then (acc, [])
         else if rights = ''RW'' then (acc, [])
         else if rights = ''RO'' then
           (if acc \<in> {''RW'', ''RO'', ''WC'', ''WS'', ''W1C'', ''W1S'', ''W1T'', ''W0C'', ''W0S'',
                       ''W0T'', ''W1''} then (''RO'', [])
            else if acc \<in> {''RC'', ''WRC'', ''W1SRC'', ''W0SRC'', ''WSRC''} then (''RC'', [])
            else if acc \<in> {''RS'', ''WRS'', ''W1CRS'', ''W0CRS'', ''WCRS''} then (''RS'', [])
            else if acc \<in> {''WO'', ''WOC'', ''WOS'', ''WO1''} then (acc, [(UVM_ERROR, ''RegModel'')])
            else (acc, []))
         else if rights = ''WO'' then
           (if acc \<in> {''RW'', ''WO''} then (''WO'', []) else (acc, [(UVM_ERROR, ''RegModel'')]))
         else (acc, [(UVM_ERROR, ''RegModel'')]))"

declare get_access.simps [simp del]

definition is_known_access :: "map_view \<Rightarrow> reg_field \<Rightarrow> bool" where
  "is_known_access mv f =
     (let acc = fst (get_access mv f)
      in acc \<in> {''RO'', ''RW'', ''RC'', ''RS'', ''WC'', ''WS'', ''W1C'', ''W1S'', ''W1T'', ''W0C'',
                ''W0S'', ''W0T'', ''WRC'', ''WRS'', ''W1SRC'', ''W1CRS'', ''W0SRC'', ''W0CRS'',
                ''WSRC'', ''WCRS'', ''WO'', ''WOC'', ''WOS'', ''W1'', ''WO1''})"

section \<open>Desired and mirrored values\<close>

text \<open>
  \<open>set\<close>: the cascade of policies computes a desired value, then the line after the comment
  \<open>// default:\<close> assigns \<open>value\<close> whatever the policy was. \<open>busy\<close> is \<open>m_parent->is_busy()\<close>.
\<close>

definition set_policy :: "reg_field \<Rightarrow> data \<Rightarrow> data" where
  "set_policy f v =
     (let mask = uvm_mask_size (f_size f); d = f_desired f; acc = f_access f
      in if acc = ''RW'' then v else if acc = ''WC'' then 0 else if acc = ''WS'' then mask
         else if acc = ''WRC'' then v else if acc = ''WRS'' then v
         else if acc = ''WSRC'' then mask else if acc = ''WCRS'' then 0
         else if acc = ''W1C'' then d AND NOT v else if acc = ''W1S'' then d OR v
         else if acc = ''W1T'' then d XOR v else if acc = ''W0C'' then d AND v
         else if acc = ''W0S'' then d OR (NOT v AND mask)
         else if acc = ''W0T'' then d XOR (NOT v AND mask)
         else if acc = ''W1SRC'' then d OR v else if acc = ''W1CRS'' then d AND NOT v
         else if acc = ''W0SRC'' then d OR (NOT v AND mask) else if acc = ''W0CRS'' then d AND v
         else if acc = ''WO'' then v else if acc = ''WOC'' then 0 else if acc = ''WOS'' then mask
         else if acc = ''W1'' then (if f_written f then d else v)
         else if acc = ''WO1'' then (if f_written f then d else v)
         else d)"

definition field_set :: "bool \<Rightarrow> data \<Rightarrow> reg_field \<Rightarrow> reg_field \<times> msg list" where
  "field_set busy v f =
     (let mask = uvm_mask_size (f_size f);
          (v, m0) = (if drop_bit (f_size f) v \<noteq> 0 then (v AND mask, [(UVM_WARNING, ''RegModel'')])
                     else (v, []));
          m1 = (if busy then [(UVM_WARNING, ''UVM/FLD/SET/BSY'')] else []);
          f = f\<lparr>f_desired := set_policy f v\<rparr>;
          f = f\<lparr>f_desired := v\<rparr>;
          f = f\<lparr>f_value := f_desired f\<rparr>
      in (f, m0 @ m1))"

definition field_get :: "reg_field \<Rightarrow> data" where
  "field_get f = f_desired f"

definition get_mirrored_value :: "reg_field \<Rightarrow> data" where
  "get_mirrored_value f = f_mirrored f"

definition field_reset :: "string \<Rightarrow> reg_field \<Rightarrow> reg_field" where
  "field_reset kind f =
     (case f_reset f kind of
        None \<Rightarrow> f
      | Some v \<Rightarrow>
          (let f = f\<lparr>f_mirrored := v, f_desired := v, f_value := v\<rparr>
           in if kind = ''HARD'' then f\<lparr>f_written := False\<rparr> else f))"

definition get_reset :: "string \<Rightarrow> reg_field \<Rightarrow> data" where
  "get_reset kind f = (case f_reset f kind of None \<Rightarrow> f_desired f | Some v \<Rightarrow> v)"

definition has_reset :: "string \<Rightarrow> bool \<Rightarrow> reg_field \<Rightarrow> bool \<times> reg_field" where
  "has_reset kind do_delete f =
     (if f_reset f kind = None then (False, f)
      else (True, if do_delete then f\<lparr>f_reset := (f_reset f)(kind := None)\<rparr> else f))"

definition needs_update :: "reg_field \<Rightarrow> bool" where
  "needs_update f \<longleftrightarrow> f_mirrored f \<noteq> f_desired f"

definition pre_randomize :: "reg_field \<Rightarrow> reg_field" where
  "pre_randomize f = f\<lparr>f_value := f_desired f\<rparr>"

definition post_randomize :: "reg_field \<Rightarrow> reg_field" where
  "post_randomize f = f\<lparr>f_desired := f_value f\<rparr>"

definition set_compare :: "uvm_check_e \<Rightarrow> reg_field \<Rightarrow> reg_field" where
  "set_compare check f = f\<lparr>f_check := check\<rparr>"

definition set_volatility :: "bool \<Rightarrow> reg_field \<Rightarrow> reg_field" where
  "set_volatility is_volatile f = f\<lparr>f_volatile := is_volatile\<rparr>"

section \<open>Prediction\<close>

definition m_predict :: "map_view \<Rightarrow> reg_field \<Rightarrow> data \<Rightarrow> data \<Rightarrow> data" where
  "m_predict mv f cur wr =
     (let mask = uvm_mask_size (f_size f); acc = fst (get_access mv f)
      in if acc = ''RO'' then cur else if acc = ''RW'' then wr else if acc = ''RC'' then cur
         else if acc = ''RS'' then cur else if acc = ''WC'' then 0 else if acc = ''WS'' then mask
         else if acc = ''WRC'' then wr else if acc = ''WRS'' then wr
         else if acc = ''WSRC'' then mask else if acc = ''WCRS'' then 0
         else if acc = ''W1C'' then cur AND NOT wr else if acc = ''W1S'' then cur OR wr
         else if acc = ''W1T'' then cur XOR wr else if acc = ''W0C'' then cur AND wr
         else if acc = ''W0S'' then cur OR (NOT wr AND mask)
         else if acc = ''W0T'' then cur XOR (NOT wr AND mask)
         else if acc = ''W1SRC'' then cur OR wr else if acc = ''W1CRS'' then cur AND NOT wr
         else if acc = ''W0SRC'' then cur OR (NOT wr AND mask) else if acc = ''W0CRS'' then cur AND wr
         else if acc = ''WO'' then wr else if acc = ''WOC'' then 0 else if acc = ''WOS'' then mask
         else if acc = ''W1'' then (if f_written f then cur else wr)
         else if acc = ''WO1'' then (if f_written f then cur else wr)
         else wr)"

text \<open>\<open>m_update\<close>: the cascade again ends in an unconditional assignment.\<close>

definition update_policy :: "reg_field \<Rightarrow> data" where
  "update_policy f =
     (let d = f_desired f; m = f_mirrored f; acc = f_access f
      in if acc = ''W1C'' then NOT d else if acc = ''W1T'' then d XOR m
         else if acc = ''W0S'' then NOT d else if acc = ''W0T'' then NOT (d XOR m)
         else if acc = ''W1CRS'' then NOT d else if acc = ''W0SRC'' then NOT d
         else if acc \<in> {''RO'', ''RW'', ''RC'', ''RS'', ''WRC'', ''WRS'', ''WC'', ''WS'', ''WSRC'',
                        ''WCRS'', ''W1S'', ''W0C'', ''W1SRC'', ''W0CRS'', ''WO'', ''WOC'', ''WOS'',
                        ''W1'', ''WO1''} then d
         else 0)"

definition m_update :: "reg_field \<Rightarrow> data" where
  "m_update f =
     (let upd = update_policy f; upd = f_desired f in upd AND uvm_mask_size (f_size f))"

definition put_mirror :: "data \<Rightarrow> reg_field \<Rightarrow> reg_field" where
  "put_mirror v f = f\<lparr>f_mirrored := v, f_desired := v, f_value := v\<rparr>"

definition clears_on_read :: "string \<Rightarrow> bool" where
  "clears_on_read acc \<longleftrightarrow> acc \<in> {''RC'', ''WRC'', ''WSRC'', ''W1SRC'', ''W0SRC''}"

definition sets_on_read :: "string \<Rightarrow> bool" where
  "sets_on_read acc \<longleftrightarrow> acc \<in> {''RS'', ''WRS'', ''WCRS'', ''W1CRS'', ''W0CRS''}"

definition no_read :: "string \<Rightarrow> bool" where
  "no_read acc \<longleftrightarrow> acc \<in> {''WO'', ''WOC'', ''WOS'', ''WO1''}"

text \<open>
  \<open>do_predict\<close>. \<open>be0\<close> is bit 0 of the byte enables, \<open>busy\<close> is \<open>m_parent->is_busy()\<close>. The
  callbacks \<open>post_predict\<close> take the values by copy, so they do not change the prediction.
\<close>

definition do_predict ::
  "map_view \<Rightarrow> bool \<Rightarrow> uvm_predict_e \<Rightarrow> bool \<Rightarrow> reg_item \<Rightarrow> reg_field
    \<Rightarrow> reg_field \<times> reg_item \<times> msg list" where
  "do_predict mv busy kind be0 rw f =
     (let mask = uvm_mask_size (f_size f);
          v = it_value rw AND mask;
          rw = (if it_status rw \<noteq> UVM_NOT_OK then rw\<lparr>it_status := UVM_IS_OK\<rparr> else rw);
          front = (it_path rw = UVM_FRONTDOOR \<or> it_path rw = UVM_PREDICT)
      in if \<not> be0 then (f, rw, [])
         else (case kind of
           UVM_PREDICT_WRITE \<Rightarrow>
             (let (v, ms) = (if front then (m_predict mv f (f_mirrored f) v, snd (get_access mv f))
                             else (v, []));
                  f = f\<lparr>f_written := True\<rparr>
              in (put_mirror (v AND mask) f, rw, ms))
         | UVM_PREDICT_READ \<Rightarrow>
             (if front then
                (let (acc, ms) = get_access mv f
                 in if clears_on_read acc then (put_mirror (0 AND mask) f, rw, ms)
                    else if sets_on_read acc then (put_mirror (mask AND mask) f, rw, ms)
                    else if no_read acc then (f, rw, ms)
                    else (put_mirror (v AND mask) f, rw, ms))
              else (put_mirror (v AND mask) f, rw, []))
         | UVM_PREDICT_DIRECT \<Rightarrow>
             (let (rw, ms) = (if busy then (rw\<lparr>it_status := UVM_NOT_OK\<rparr>, [(UVM_WARNING, ''RegModel'')])
                              else (rw, []))
              in (put_mirror v f, rw, ms))))"

text \<open>\<open>predict\<close>: the item is created with status \<open>UVM_NOT_OK\<close>.\<close>

definition predict_item :: "data \<Rightarrow> uvm_path_e \<Rightarrow> uvm_status_e \<Rightarrow> reg_item" where
  "predict_item val path st =
     \<lparr>it_element_kind = UVM_REG, it_access_kind = UVM_READ, it_value = val,
      it_status = st, it_path = path, it_bd_kind = '''',
      it_map = None, it_local_map = None\<rparr>"

definition predict ::
  "map_view \<Rightarrow> bool \<Rightarrow> data \<Rightarrow> bool \<Rightarrow> uvm_predict_e \<Rightarrow> uvm_path_e \<Rightarrow> reg_field
    \<Rightarrow> reg_field \<times> bool \<times> msg list" where
  "predict mv busy val be0 kind path f =
     (let (f', rw, ms) = do_predict mv busy kind be0 (predict_item val path UVM_NOT_OK) f
      in (f', it_status rw \<noteq> UVM_NOT_OK, ms))"

section \<open>The documented effect of a write and of a read\<close>

text \<open>
  The table in the documentation of \<open>set_access\<close>, as data: what writing a 1 and what writing a
  0 does to the bit it is written to. \<open>AsIs\<close> stores the written bit.
\<close>

datatype bit_effect = AsIs | Keep | Clear | SetBit | Toggle

fun apply_effect :: "bit_effect \<Rightarrow> bool \<Rightarrow> bool \<Rightarrow> bool" where
  "apply_effect AsIs wr old = wr"
| "apply_effect Keep wr old = old"
| "apply_effect Clear wr old = False"
| "apply_effect SetBit wr old = True"
| "apply_effect Toggle wr old = (\<not> old)"

definition write_once :: "bool \<Rightarrow> bit_effect \<times> bit_effect" where
  "write_once written = (if written then (Keep, Keep) else (AsIs, AsIs))"

definition write_table :: "bool \<Rightarrow> (string \<times> bit_effect \<times> bit_effect) list" where
  "write_table written =
     [(''RO'', Keep, Keep), (''RW'', AsIs, AsIs), (''RC'', Keep, Keep), (''RS'', Keep, Keep),
      (''WRC'', AsIs, AsIs), (''WRS'', AsIs, AsIs), (''WC'', Clear, Clear), (''WS'', SetBit, SetBit),
      (''WSRC'', SetBit, SetBit), (''WCRS'', Clear, Clear), (''W1C'', Clear, Keep),
      (''W1S'', SetBit, Keep), (''W1T'', Toggle, Keep), (''W0C'', Keep, Clear),
      (''W0S'', Keep, SetBit), (''W0T'', Keep, Toggle), (''W1SRC'', SetBit, Keep),
      (''W1CRS'', Clear, Keep), (''W0SRC'', Keep, SetBit), (''W0CRS'', Keep, Clear),
      (''WO'', AsIs, AsIs), (''WOC'', Clear, Clear), (''WOS'', SetBit, SetBit),
      (''W1'', write_once written), (''WO1'', write_once written)]"

definition write_effect :: "string \<Rightarrow> bool \<Rightarrow> bool \<Rightarrow> bit_effect" where
  "write_effect acc written wr_bit =
     (case map_of (write_table written) acc of
        None \<Rightarrow> AsIs
      | Some (one, zero) \<Rightarrow> if wr_bit then one else zero)"

text \<open>The function a policy computes, bit by bit.\<close>

definition spec_write :: "string \<Rightarrow> bool \<Rightarrow> nat \<Rightarrow> data \<Rightarrow> data \<Rightarrow> nat \<Rightarrow> bool" where
  "spec_write acc written n cur wr i \<longleftrightarrow>
     i < n \<and> apply_effect (write_effect acc written (bit wr i)) (bit wr i) (bit cur i)"

lemma dom_write_table: "dom (map_of (write_table w)) = set predefined_policies"
  by (simp add: write_table_def predefined_policies_def dom_map_of_conv_image_fst)

lemma m_predict_known:
  assumes "fst (get_access mv f) \<in> set predefined_policies"
    and "fits (f_size f) cur" "fits (f_size f) wr" "i < f_size f" "i < 64"
  shows "bit (m_predict mv f cur wr) i \<longleftrightarrow>
    apply_effect (write_effect (fst (get_access mv f)) (f_written f) (bit wr i)) (bit wr i) (bit cur i)"
  using assms(1,4,5)
  by (auto simp: predefined_policies_def m_predict_def write_effect_def write_table_def
        write_once_def bit_simps)

lemma m_predict_unknown:
  assumes "fst (get_access mv f) \<notin> set predefined_policies"
  shows "m_predict mv f cur wr = wr"
  using assms by (simp add: predefined_policies_def m_predict_def Let_def)

lemma write_effect_unknown:
  assumes "acc \<notin> set predefined_policies"
  shows "write_effect acc w b = AsIs"
proof -
  have "map_of (write_table w) acc = None" using assms dom_write_table [of w] by blast
  then show ?thesis by (simp add: write_effect_def)
qed

lemma m_predict_bit:
  assumes "fits (f_size f) cur" "fits (f_size f) wr" "i < f_size f" "i < 64"
  shows "bit (m_predict mv f cur wr) i \<longleftrightarrow>
    apply_effect (write_effect (fst (get_access mv f)) (f_written f) (bit wr i)) (bit wr i) (bit cur i)"
  using assms m_predict_known [OF _ assms]
  by (cases "fst (get_access mv f) \<in> set predefined_policies")
    (simp_all add: m_predict_unknown write_effect_unknown)

lemma bit_data_less: "bit (v :: data) i \<Longrightarrow> i < 64"
  using bit_imp_le_length [of v i] by simp

lemma m_predict_spec:
  assumes "fits (f_size f) cur" "fits (f_size f) wr" "i < 64"
  shows "bit (m_predict mv f cur wr AND mask (f_size f)) i \<longleftrightarrow>
    spec_write (fst (get_access mv f)) (f_written f) (f_size f) cur wr i"
  using assms m_predict_bit [OF assms(1,2) _ assms(3), where mv = mv]
  by (auto simp: spec_write_def bit_simps)

section \<open>Well-formed fields\<close>

text \<open>
  All three values and every reset value of a well-formed field fit in its bits. Every
  operation of the public interface keeps this.
\<close>

definition field_wf :: "reg_field \<Rightarrow> bool" where
  "field_wf f \<longleftrightarrow> 0 < f_size f \<and> fits (f_size f) (f_mirrored f) \<and> fits (f_size f) (f_desired f)
     \<and> fits (f_size f) (f_value f) \<and> (\<forall>k v. f_reset f k = Some v \<longrightarrow> fits (f_size f) v)"

named_theorems field_defs "definitions of the operations of a field"

declare set_access_def [field_defs] set_reset_def [field_defs] field_set_def [field_defs]
  field_reset_def [field_defs] has_reset_def [field_defs] put_mirror_def [field_defs]
  do_predict_def [field_defs] predict_def [field_defs] pre_randomize_def [field_defs]
  post_randomize_def [field_defs] set_compare_def [field_defs] set_volatility_def [field_defs]

lemma field_wf_put_mirror [simp]: "field_wf f \<Longrightarrow> fits (f_size f) v \<Longrightarrow> field_wf (put_mirror v f)"
  by (simp add: field_wf_def put_mirror_def)

lemma field_wf_written [simp]: "field_wf (f\<lparr>f_written := b\<rparr>) = field_wf f"
  by (simp add: field_wf_def)

lemma field_size_updates [simp]:
  "f_size (put_mirror v f) = f_size f" "f_lsb (put_mirror v f) = f_lsb f"
  "f_access (put_mirror v f) = f_access f" "f_mirrored (put_mirror v f) = v"
  "f_desired (put_mirror v f) = v" "f_value (put_mirror v f) = v"
  by (simp_all add: put_mirror_def)

lemma field_wf_configure:
  "field_wf (fst (configure sz lsb acc vol rst has indv st (new_field name)))"
  by (auto simp: configure_def new_field_def field_wf_def set_reset_def Let_def
      split: if_splits prod.splits)

lemma field_set_desired: "f_desired (fst (field_set busy v f)) = v AND mask (f_size f)"
  by (auto simp: field_set_def drop_bit_zero_iff_fits fits_def)

lemma field_set_value: "f_value (fst (field_set busy v f)) = v AND mask (f_size f)"
  by (auto simp: field_set_def drop_bit_zero_iff_fits fits_def)

lemma field_set_frame [simp]:
  "f_mirrored (fst (field_set busy v f)) = f_mirrored f"
  "f_size (fst (field_set busy v f)) = f_size f"
  "f_lsb (fst (field_set busy v f)) = f_lsb f"
  "f_access (fst (field_set busy v f)) = f_access f"
  "f_written (fst (field_set busy v f)) = f_written f"
  "f_reset (fst (field_set busy v f)) = f_reset f"
  by (simp_all add: field_set_def split: prod.splits)

lemma field_wf_set: "field_wf f \<Longrightarrow> field_wf (fst (field_set busy v f))"
  by (simp add: field_wf_def field_set_desired field_set_value)

lemma field_wf_reset: "field_wf f \<Longrightarrow> field_wf (field_reset k f)"
  by (auto simp: field_wf_def field_reset_def Let_def split: option.splits)

lemma field_wf_set_reset: "field_wf f \<Longrightarrow> field_wf (set_reset v k f)"
  by (auto simp: field_wf_def set_reset_def)

lemma field_wf_has_reset: "field_wf f \<Longrightarrow> field_wf (snd (has_reset k d f))"
  by (auto simp: field_wf_def has_reset_def)

lemma field_wf_set_access: "field_wf f \<Longrightarrow> field_wf (fst (snd (set_access st m f)))"
  by (auto simp: field_wf_def set_access_def Let_def)

lemma field_wf_do_predict: "field_wf f \<Longrightarrow> field_wf (fst (do_predict mv busy kind be0 rw f))"
  by (auto simp: do_predict_def Let_def split: prod.splits uvm_predict_e.splits)

lemma do_predict_frame [simp]:
  "f_size (fst (do_predict mv busy kind be0 rw f)) = f_size f"
  "f_lsb (fst (do_predict mv busy kind be0 rw f)) = f_lsb f"
  "f_access (fst (do_predict mv busy kind be0 rw f)) = f_access f"
  by (auto simp: do_predict_def Let_def split: prod.splits uvm_predict_e.splits)

lemma field_wf_pre_randomize: "field_wf f \<Longrightarrow> field_wf (pre_randomize f)"
  by (simp add: field_wf_def pre_randomize_def)

lemma field_wf_flags: "field_wf f \<Longrightarrow> field_wf (set_compare c f)"
  "field_wf f \<Longrightarrow> field_wf (set_volatility b f)"
  by (simp_all add: field_wf_def set_compare_def set_volatility_def)

lemmas field_wf_intros = field_wf_set field_wf_reset field_wf_set_reset field_wf_has_reset
  field_wf_set_access field_wf_do_predict field_wf_pre_randomize field_wf_flags

lemma fst_predict: "fst (predict mv busy v be0 kind path f) =
    fst (do_predict mv busy kind be0 (predict_item v path UVM_NOT_OK) f)"
  by (simp add: predict_def split: prod.splits)

text \<open>The operations of the public interface as the events of a machine.\<close>

datatype field_op =
    FSet bool data
  | FReset string
  | FSetReset data string
  | FHasReset string bool
  | FSetAccess field_static string
  | FPredict map_view bool data bool uvm_predict_e uvm_path_e
  | FDoPredict map_view bool uvm_predict_e bool reg_item
  | FPreRandomize
  | FSetCompare uvm_check_e
  | FSetVolatility bool

fun field_step :: "field_op \<Rightarrow> reg_field \<Rightarrow> reg_field" where
  "field_step (FSet busy v) f = fst (field_set busy v f)"
| "field_step (FReset k) f = field_reset k f"
| "field_step (FSetReset v k) f = set_reset v k f"
| "field_step (FHasReset k d) f = snd (has_reset k d f)"
| "field_step (FSetAccess st m) f = fst (snd (set_access st m f))"
| "field_step (FPredict mv busy v be0 kind path) f = fst (predict mv busy v be0 kind path f)"
| "field_step (FDoPredict mv busy kind be0 rw) f = fst (do_predict mv busy kind be0 rw f)"
| "field_step FPreRandomize f = pre_randomize f"
| "field_step (FSetCompare c) f = set_compare c f"
| "field_step (FSetVolatility b) f = set_volatility b f"

lemma field_step_wf: "field_wf f \<Longrightarrow> field_wf (field_step e f)"
  by (cases e) (simp_all add: fst_predict field_wf_intros)

interpretation field_machine: total_machine field_step field_wf
  by unfold_locales (rule field_step_wf)

section \<open>Properties\<close>

lemma do_predict_write_front:
  assumes "it_path rw = UVM_FRONTDOOR \<or> it_path rw = UVM_PREDICT"
  shows "fst (do_predict mv busy UVM_PREDICT_WRITE True rw f) =
    put_mirror (m_predict mv f (f_mirrored f) (it_value rw AND mask (f_size f)) AND mask (f_size f))
      (f\<lparr>f_written := True\<rparr>)"
  using assms by (auto simp: do_predict_def Let_def split: prod.splits)

text \<open>C25. After a frontdoor write prediction, every bit of the mirrored value of a field is what
  the documented table of the field access policies says for the written bit (1 and 0 columns),
  the old bit and the write-once state, for every policy and every restriction by the map's
  rights; user-defined policies store the written bit. Desired value and mirror agree afterwards,
  and the field counts as written.\<close>

theorem predict_write_table:
  assumes "field_wf f" and "it_path rw = UVM_FRONTDOOR \<or> it_path rw = UVM_PREDICT" and "i < 64"
    and "f' = fst (do_predict mv busy UVM_PREDICT_WRITE True rw f)"
  shows "(bit (f_mirrored f') i \<longleftrightarrow>
      spec_write (fst (get_access mv f)) (f_written f) (f_size f) (f_mirrored f)
        (it_value rw AND mask (f_size f)) i)
    \<and> f_desired f' = f_mirrored f' \<and> f_written f'"
  using assms m_predict_spec [of f "f_mirrored f" "it_value rw AND mask (f_size f)" i mv]
  by (simp add: do_predict_write_front field_wf_def) (simp add: put_mirror_def)

definition sample_field :: "string \<Rightarrow> reg_field" where
  "sample_field acc =
     (new_field ''f'')\<lparr>f_access := acc, f_size := 4, f_lsb := 4, f_mirrored := 12, f_desired := 12,
       f_value := 12\<rparr>"

theorem predict_write_table_witness:
  "let f' = fst (do_predict (False, ''RW'') False UVM_PREDICT_WRITE True
              (predict_item 10 UVM_FRONTDOOR UVM_IS_OK) (sample_field ''W1C''))
   in f_mirrored f' = 4 \<and> f_desired f' = 4 \<and> f_written f'"
proof -
  let ?rw = "predict_item 10 UVM_FRONTDOOR UVM_IS_OK"
  have wf: "field_wf (sample_field ''W1C'')"
    by (simp add: field_wf_def sample_field_def new_field_def fits_def mask_numeral)
  have path: "it_path ?rw = UVM_FRONTDOOR \<or> it_path ?rw = UVM_PREDICT"
    by (simp add: predict_item_def)
  have val: "fst (do_predict (False, ''RW'') False UVM_PREDICT_WRITE True ?rw (sample_field ''W1C'')) =
      put_mirror 4 ((sample_field ''W1C'')\<lparr>f_written := True\<rparr>)"
    by (subst do_predict_write_front [OF path]) (simp add: predict_item_def m_predict_def get_access.simps
        sample_field_def new_field_def mask_numeral)
  have "(0::nat) < 64" by simp
  from predict_write_table [OF wf path this refl, of "(False, ''RW'')" False] val
  show ?thesis by (simp add: put_mirror_def)
qed

text \<open>Well-formedness is an invariant of a field: from a configured field, every sequence of
  operations of its interface (set, reset, set_reset, has_reset with deletion, set_access,
  predict, do_predict, randomization and comparison settings) keeps the mirrored value, the desired
  value, the value member and all reset values within the field's bits.\<close>

theorem field_run_wf:
  "field_wf (fold field_step ops (fst (configure sz lsb acc vol rst has indv st (new_field name))))"
  by (rule field_machine.total_run_inv) (rule field_wf_configure)

text \<open>Restricting a register to RO in a map protects its fields: if \<open>get_access\<close> through such
  a map reports no error for a field with a predefined policy, then a write through this map is
  predicted to leave the field unchanged, and the policy it reports is RO, RC or RS.\<close>

theorem ro_rights_protect:
  assumes "f_access f \<in> set predefined_policies" and "snd (get_access (False, ''RO'') f) = []"
  shows "m_predict (False, ''RO'') f cur wr = cur
    \<and> fst (get_access (False, ''RO'') f) \<in> {''RO'', ''RC'', ''RS''}"
  using assms by (auto simp: predefined_policies_def get_access.simps m_predict_def)

theorem ro_rights_protect_witness:
  "snd (get_access (False, ''RO'') (sample_field ''W1SRC'')) = []
   \<and> m_predict (False, ''RO'') (sample_field ''W1SRC'') 5 9 = 5"
proof -
  have a: "f_access (sample_field ''W1SRC'') \<in> set predefined_policies"
    by (simp add: sample_field_def new_field_def predefined_policies_def)
  have s: "snd (get_access (False, ''RO'') (sample_field ''W1SRC'')) = []"
    by (simp add: sample_field_def new_field_def get_access.simps)
  from ro_rights_protect [OF a s, of 5 9] s show ?thesis by simp
qed

text \<open>\<open>set\<close> ignores the access policy: whatever the policy, the desired value becomes the
  given value reduced to the size of the field. For a read-only field this differs from the
  documented behaviour (the desired value of a read-only field is not modified).\<close>

theorem set_ignores_policy:
  "f_desired (fst (field_set busy v f)) = v AND mask (f_size f)
   \<and> (\<exists>g w. f_access g = ''RO'' \<and> set_policy g w = f_desired g
          \<and> f_desired (fst (field_set busy w g)) \<noteq> f_desired g)"
proof
  show "f_desired (fst (field_set busy v f)) = v AND mask (f_size f)"
    by (rule field_set_desired)
  show "\<exists>g w. f_access g = ''RO'' \<and> set_policy g w = f_desired g
          \<and> f_desired (fst (field_set busy w g)) \<noteq> f_desired g"
    by (rule exI [of _ "sample_field ''RO''"], rule exI [of _ 3])
      (simp add: sample_field_def new_field_def set_policy_def field_set_desired mask_numeral)
qed

text \<open>\<open>predict\<close> always reports failure: the item starts with status \<open>UVM_NOT_OK\<close>, which
  \<open>do_predict\<close> never turns into \<open>UVM_IS_OK\<close>. The mirror is updated all the same; for a direct
  prediction of an idle field it then holds the predicted value.\<close>

theorem predict_always_fails:
  "fst (snd (predict mv busy v be0 kind path f)) = False
   \<and> f_mirrored (fst (predict mv busy v True UVM_PREDICT_DIRECT path f)) = v AND mask (f_size f)"
  by (auto simp: predict_def do_predict_def predict_item_def put_mirror_def Let_def
      split: prod.splits uvm_predict_e.splits if_splits)

end
