(* ===== verification/Bit_Layout.thy ===== *)
theory Bit_Layout
  imports UVM_Prelude
begin

text \<open>
  Values made of parts at bit positions: a loop that ORs the value of each part at its position
  (\<open>compose\<close>, the loop of \<open>get\<close>, \<open>get_mirrored_value\<close>, \<open>get_reset\<close>, \<open>update\<close> of registers) and the
  loop that gives each part its slice of a value. The contract between a register and its
  fields is a locale: what a part returns after it was given a value. Its consequence, that
  composing after distributing gives the value back on the bits in use, is proved once.
\<close>

definition compose :: "('f \<Rightarrow> nat) \<Rightarrow> ('f \<Rightarrow> data) \<Rightarrow> 'f list \<Rightarrow> data" where
  "compose lsb h fs = fold (\<lambda>f acc. acc OR push_bit (lsb f) (h f)) fs 0"

lemma bit_compose_fold:
  "bit (fold (\<lambda>f acc. acc OR push_bit (lsb f) (h f)) fs a) i \<longleftrightarrow>
     bit a i \<or> (\<exists>f \<in> set fs. i < 64 \<and> lsb f \<le> i \<and> bit (h f :: data) (i - lsb f))"
  by (induction fs arbitrary: a) (auto simp: bit_simps)

lemma bit_compose:
  "bit (compose lsb h fs) i \<longleftrightarrow> (\<exists>f \<in> set fs. i < 64 \<and> lsb f \<le> i \<and> bit (h f) (i - lsb f))"
  by (simp add: compose_def bit_compose_fold)

lemma compose_Nil [simp]: "compose lsb h [] = 0"
  by (simp add: compose_def)

lemma compose_cong: "(\<And>f. f \<in> set fs \<Longrightarrow> h f = h' f) \<Longrightarrow> compose lsb h fs = compose lsb h' fs"
  by (rule bit_eqI) (auto simp: bit_compose)

lemma compose_map:
  "(\<And>f. f \<in> set fs \<Longrightarrow> lsb (g f) = lsb f) \<Longrightarrow> compose lsb h (map g fs) = compose lsb (h \<circ> g) fs"
  by (rule bit_eqI) (auto simp: bit_compose)

text \<open>The bits in use.\<close>

definition layout_mask :: "('f \<Rightarrow> nat) \<Rightarrow> ('f \<Rightarrow> nat) \<Rightarrow> 'f list \<Rightarrow> data" where
  "layout_mask lsb sz fs = compose lsb (\<lambda>f. mask (sz f)) fs"

lemma bit_layout_mask:
  "bit (layout_mask lsb sz fs) i \<longleftrightarrow> i < 64 \<and> (\<exists>f \<in> set fs. lsb f \<le> i \<and> i < lsb f + sz f)"
  by (auto simp: layout_mask_def bit_compose bit_simps)

text \<open>Parts that do not overlap, in order of their positions, inside 64 bits.\<close>

definition layout_ok :: "('f \<Rightarrow> nat) \<Rightarrow> ('f \<Rightarrow> nat) \<Rightarrow> 'f list \<Rightarrow> bool" where
  "layout_ok lsb sz fs \<longleftrightarrow> sorted_wrt (\<lambda>f g. lsb f + sz f \<le> lsb g) fs \<and> (\<forall>f \<in> set fs. lsb f + sz f \<le> 64)"

lemma layout_ok_disjoint:
  assumes "layout_ok lsb sz fs" "f \<in> set fs" "g \<in> set fs"
  shows "f = g \<or> lsb f + sz f \<le> lsb g \<or> lsb g + sz g \<le> lsb f"
proof -
  have "sorted_wrt (\<lambda>f g. lsb f + sz f \<le> lsb g) fs \<Longrightarrow> ?thesis"
    using assms(2,3) by (induction fs) auto
  then show ?thesis using assms(1) by (simp add: layout_ok_def)
qed

text \<open>The slice of one part in a composed value is that part's value.\<close>

lemma slice_compose:
  assumes ok: "layout_ok lsb sz fs" and f: "f \<in> set fs"
    and fits: "\<And>g. g \<in> set fs \<Longrightarrow> fits (sz g) (h g)"
  shows "slice_of (lsb f) (sz f) (compose lsb h fs) = h f"
proof (rule bit_eqI)
  fix i
  have len: "lsb f + sz f \<le> 64" using ok f by (simp add: layout_ok_def)
  have other: "g = f" if "g \<in> set fs" "lsb g \<le> lsb f + i" "bit (h g) (lsb f + i - lsb g)" "i < sz f" for g
  proof -
    have "lsb f + i - lsb g < sz g" using fits [OF that(1)] that(3) by (simp add: fits_bit)
    then show ?thesis using layout_ok_disjoint [OF ok f that(1)] that(2,4) by auto
  qed
  have "bit (h f) i \<Longrightarrow> i < sz f" using fits [OF f] by (simp add: fits_bit)
  moreover have "(\<exists>g \<in> set fs. lsb g \<le> lsb f + i \<and> bit (h g) (lsb f + i - lsb g)) \<longleftrightarrow> bit (h f) i"
    if "i < sz f"
    using other [OF _ _ _ that] f by (force intro: bexI [of _ f])
  ultimately show "bit (slice_of (lsb f) (sz f) (compose lsb h fs)) i \<longleftrightarrow> bit (h f) i"
    using len by (auto simp: bit_slice_of bit_compose)
qed

text \<open>The contract of a part: it keeps its place and holds the value it is given, cut to its size.\<close>

locale bit_parts =
  fixes lsb :: "'f \<Rightarrow> nat" and sz :: "'f \<Rightarrow> nat"
    and get :: "'f \<Rightarrow> data" and put :: "data \<Rightarrow> 'f \<Rightarrow> 'f"
  assumes lsb_put: "lsb (put v f) = lsb f"
    and sz_put: "sz (put v f) = sz f"
    and get_put: "get (put v f) = v AND mask (sz f)"
begin

lemma compose_distribute:
  "compose lsb get (map (\<lambda>f. put (drop_bit (lsb f) v) f) fs) = v AND layout_mask lsb sz fs"
  by (rule bit_eqI) (auto simp: compose_map lsb_put bit_compose get_put bit_layout_mask bit_simps)

lemma compose_distribute_masked:
  "compose lsb get (map (\<lambda>f. put (drop_bit (lsb f) v AND mask (sz f)) f) fs) = v AND layout_mask lsb sz fs"
  by (rule bit_eqI) (auto simp: compose_map lsb_put bit_compose get_put bit_layout_mask bit_simps)

end

end
