(* ===== verification/Reg_Register.thy ===== *)
theory Reg_Register
  imports Reg_Field Bit_Layout
begin

text \<open>
  \<open>src/uvmsc/reg/uvm_reg.cpp\<close>, state and value operations: a register and its fields, the
  lookup of the address map an access goes through, the values of the register composed from
  its fields, prediction, the check of a read value, and the lock that serialises accesses.

  \<open>r_maps\<close> is \<open>m_maps\<close> with the information the map keeps about the register: \<open>add_reg\<close> of a
  map puts both in place together. The chain of parent maps that the code follows with
  \<open>get_parent_map()\<close> is an argument (\<open>me_ancestors\<close>, nearest first), so is the default map of
  the block of a map. \<open>m_fname\<close>, \<open>m_lineno\<close> and coverage are left out, and so are messages of
  severity \<open>UVM_INFO\<close>.
\<close>

record reg_map_info =
  mi_offset :: addr
  mi_rights :: string
  mi_unmapped :: bool
  mi_addr :: "addr list"
  mi_frontdoor :: bool
  mi_initialized :: bool

record map_env =
  me_ancestors :: "map_id \<Rightarrow> map_id list"
  me_blk_default :: "map_id \<Rightarrow> map_id option"

record uvm_reg =
  r_name :: string
  r_n_bits :: nat
  r_n_used_bits :: nat
  r_fields :: "reg_field list"
  r_maps :: "(map_id \<times> reg_map_info) list"
  r_locked :: bool
  r_is_busy :: bool
  r_is_locked_by_field :: bool
  r_read_in_progress :: bool
  r_write_in_progress :: bool
  r_atomic :: bool
  r_process :: "nat option"
  r_process_valid :: bool

section \<open>Construction\<close>

definition new_reg :: "string \<Rightarrow> nat \<Rightarrow> uvm_reg \<times> msg list" where
  "new_reg name n_bits =
     (let ms = (if n_bits = 0 then [(UVM_ERROR, ''RegModel'')] else []);
          n_bits = (if n_bits = 0 then 1 else n_bits)
      in (\<lparr>r_name = name, r_n_bits = n_bits, r_n_used_bits = 0, r_fields = [], r_maps = [],
           r_locked = False, r_is_busy = False, r_is_locked_by_field = False,
           r_read_in_progress = False, r_write_in_progress = False, r_atomic = False,
           r_process = None, r_process_valid = False\<rparr>, ms))"

definition get_n_bytes :: "uvm_reg \<Rightarrow> nat" where
  "get_n_bytes r = (r_n_bits r - 1) div 8 + 1"

text \<open>
  \<open>add_field\<close> inserts before the first field whose position is larger, then checks the number
  of used bits and the two neighbours. The loop returns the list and the index of the field.
\<close>

primrec insert_field :: "reg_field \<Rightarrow> reg_field list \<Rightarrow> reg_field list \<times> nat" where
  "insert_field f [] = ([f], 0)"
| "insert_field f (g # gs) =
     (if f_lsb f < f_lsb g then (f # g # gs, 0)
      else (let (gs', i) = insert_field f gs in (g # gs', Suc i)))"

definition add_field :: "reg_field \<Rightarrow> uvm_reg \<Rightarrow> uvm_reg \<times> msg list" where
  "add_field f r =
     (if r_locked r then (r, [(UVM_ERROR, ''RegModel'')])
      else
        (let (fs, i) = insert_field f (r_fields r);
             used = r_n_used_bits r + f_size f;
             e1 = (if used > r_n_bits r then [(UVM_ERROR, ''RegModel'')] else []);
             e2 = (if i > 0 \<and> f_lsb (fs ! (i - 1)) + f_size (fs ! (i - 1)) > f_lsb f
                   then [(UVM_ERROR, ''RegModel'')] else []);
             e3 = (if i < length fs - 1 \<and> f_lsb f + f_size f > f_lsb (fs ! (i + 1))
                   then [(UVM_ERROR, ''RegModel'')] else [])
         in (r\<lparr>r_fields := fs, r_n_used_bits := used\<rparr>, e1 @ e2 @ e3)))"

definition m_lock_model :: "uvm_reg \<Rightarrow> uvm_reg" where
  "m_lock_model r = (if r_locked r then r else r\<lparr>r_locked := True\<rparr>)"

definition m_set_busy :: "bool \<Rightarrow> uvm_reg \<Rightarrow> uvm_reg" where
  "m_set_busy busy r = r\<lparr>r_is_busy := busy\<rparr>"

text \<open>\<open>find_if\<close> in the fields by name.\<close>

primrec find_field :: "string \<Rightarrow> reg_field list \<Rightarrow> reg_field option" where
  "find_field name [] = None"
| "find_field name (f # fs) = (if f_name f = name then Some f else find_field name fs)"

definition get_field_by_name :: "string \<Rightarrow> uvm_reg \<Rightarrow> reg_field option \<times> msg list" where
  "get_field_by_name name r =
     (case find_field name (r_fields r) of
        Some f \<Rightarrow> (Some f, [])
      | None \<Rightarrow> (None, [(UVM_WARNING, ''RegModel'')]))"

section \<open>Which map an access goes through\<close>

primrec find_submap :: "map_env \<Rightarrow> map_id \<Rightarrow> map_id list \<Rightarrow> map_id option" where
  "find_submap env m [] = None"
| "find_submap env m (l # ls) = (if m \<in> set (me_ancestors env l) then Some l else find_submap env m ls)"

definition is_in_map :: "map_env \<Rightarrow> map_id \<Rightarrow> uvm_reg \<Rightarrow> bool" where
  "is_in_map env m r \<longleftrightarrow>
     m \<in> set (map fst (r_maps r)) \<or> find_submap env m (map fst (r_maps r)) \<noteq> None"

text \<open>\<open>get_local_map\<close> of a non-null map.\<close>

definition get_local_map_of :: "map_env \<Rightarrow> uvm_reg \<Rightarrow> map_id \<Rightarrow> map_id option \<times> msg list" where
  "get_local_map_of env r m =
     (if m \<in> set (map fst (r_maps r)) then (Some m, [])
      else case find_submap env m (map fst (r_maps r)) of
          Some l \<Rightarrow> (Some l, [])
        | None \<Rightarrow> (None, [(UVM_WARNING, ''RegModel'')]))"

primrec default_map_loop :: "map_env \<Rightarrow> uvm_reg \<Rightarrow> map_id list \<Rightarrow> map_id option \<times> msg list" where
  "default_map_loop env r [] = (None, [])"
| "default_map_loop env r (m # ms) =
     (case me_blk_default env m of
        None \<Rightarrow> default_map_loop env r ms
      | Some d \<Rightarrow>
          (case get_local_map_of env r d of
             (Some l, ws) \<Rightarrow> (Some l, ws)
           | (None, ws) \<Rightarrow> (let (res, ws') = default_map_loop env r ms in (res, ws @ ws'))))"

definition get_default_map :: "map_env \<Rightarrow> uvm_reg \<Rightarrow> map_id option \<times> msg list" where
  "get_default_map env r =
     (case map fst (r_maps r) of
        [] \<Rightarrow> (None, [(UVM_WARNING, ''RegModel'')])
      | [m] \<Rightarrow> (Some m, [])
      | m # ms \<Rightarrow>
          (case default_map_loop env r (m # ms) of
             (Some l, ws) \<Rightarrow> (Some l, ws)
           | (None, ws) \<Rightarrow> (Some m, ws)))"

definition get_local_map :: "map_env \<Rightarrow> uvm_reg \<Rightarrow> map_id option \<Rightarrow> map_id option \<times> msg list" where
  "get_local_map env r mp =
     (case mp of None \<Rightarrow> get_default_map env r | Some m \<Rightarrow> get_local_map_of env r m)"

text \<open>
  \<open>get_reg_map_info\<close>: an error for a register that is not in the map, a warning when the map is
  not initialised. The callers pass a map that \<open>get_local_map\<close> returned, which is one of
  \<open>r_maps\<close> (\<open>get_local_map_mem\<close> below): they never see \<open>None\<close>, where the code would
  dereference a null pointer.
\<close>

definition reg_info :: "uvm_reg \<Rightarrow> map_id \<Rightarrow> reg_map_info option \<times> msg list" where
  "reg_info r m =
     (case map_of (r_maps r) m of
        None \<Rightarrow> (None, [(UVM_ERROR, ''REG_NO_MAP'')])
      | Some i \<Rightarrow> (Some i, if mi_initialized i then [] else [(UVM_WARNING, ''RegModel'')]))"

definition get_rights :: "map_env \<Rightarrow> uvm_reg \<Rightarrow> map_id option \<Rightarrow> string \<times> msg list" where
  "get_rights env r mp =
     (let (lm, ws) = get_local_map env r mp
      in case lm of
           None \<Rightarrow> (''RW'', ws)
         | Some m \<Rightarrow>
             (let (i, ws') = reg_info r m
              in (case i of None \<Rightarrow> ''RW'' | Some i \<Rightarrow> mi_rights i, ws @ ws')))"

definition get_offset :: "map_env \<Rightarrow> uvm_reg \<Rightarrow> map_id option \<Rightarrow> addr \<times> msg list" where
  "get_offset env r mp =
     (let (lm, ws) = get_local_map env r mp
      in case lm of
           None \<Rightarrow> (-1, ws)
         | Some m \<Rightarrow>
             (case reg_info r m of
                (None, ws') \<Rightarrow> (-1, ws @ ws')
              | (Some i, ws') \<Rightarrow>
                  if mi_unmapped i then (-1, ws @ ws' @ [(UVM_WARNING, ''RegModel'')])
                  else (mi_offset i, ws @ ws')))"

text \<open>What a field of the register sees of a map: \<open>get_access\<close> asks for the rights first.\<close>

definition field_view :: "map_env \<Rightarrow> uvm_reg \<Rightarrow> map_id option \<Rightarrow> map_view \<times> msg list" where
  "field_view env r mp =
     (let (rights, ws) = get_rights env r mp in ((mp = Some Backdoor_Map, rights), ws))"

definition reg_field_access ::
  "map_env \<Rightarrow> uvm_reg \<Rightarrow> map_id option \<Rightarrow> reg_field \<Rightarrow> string \<times> msg list" where
  "reg_field_access env r mp f =
     (let (mv, ws) = field_view env r mp; (acc, ws') = get_access mv f in (acc, ws @ ws'))"

text \<open>\<open>m_get_fields_access\<close>: one policy for the whole register, \<open>RO\<close>, \<open>WO\<close> or \<open>RW\<close>.\<close>

primrec fields_access_loop :: "(reg_field \<Rightarrow> string) \<Rightarrow> bool \<Rightarrow> bool \<Rightarrow> reg_field list \<Rightarrow> string" where
  "fields_access_loop acc is_R is_W [] =
     (if \<not> is_R \<and> is_W then ''WO'' else if is_R \<and> \<not> is_W then ''RO'' else ''RW'')"
| "fields_access_loop acc is_R is_W (f # fs) =
     (let row = acc f;
          r = (row \<in> {''RO'', ''RC'', ''RS''}); w = (row \<in> {''WO'', ''WOC'', ''WOS'', ''WO1''})
      in if \<not> r \<and> \<not> w then ''RW''
         else if (is_R \<or> r) \<and> (is_W \<or> w) then ''RW''
         else fields_access_loop acc (is_R \<or> r) (is_W \<or> w) fs)"

definition m_get_fields_access :: "map_env \<Rightarrow> uvm_reg \<Rightarrow> map_id option \<Rightarrow> string" where
  "m_get_fields_access env r mp =
     fields_access_loop (\<lambda>f. fst (reg_field_access env r mp f)) False False (r_fields r)"

lemma find_submap_mem: "find_submap env m ls = Some l \<Longrightarrow> l \<in> set ls"
  by (induction ls) (auto split: if_splits)

lemma get_local_map_of_mem: "fst (get_local_map_of env r m) = Some l \<Longrightarrow> l \<in> fst ` set (r_maps r)"
  by (auto simp: get_local_map_of_def split: if_splits option.splits dest!: find_submap_mem)

lemma default_map_loop_mem:
  "fst (default_map_loop env r ms) = Some l \<Longrightarrow> l \<in> fst ` set (r_maps r)"
  by (induction ms)
    (auto split: option.splits prod.splits dest: get_local_map_of_mem [unfolded fst_def]
      simp: Let_def, (metis fst_conv get_local_map_of_mem)+)

lemma get_local_map_mem:
  assumes "fst (get_local_map env r mp) = Some l"
  shows "l \<in> fst ` set (r_maps r)"
proof (cases mp)
  case None
  with assms show ?thesis
    using default_map_loop_mem [of env r "map fst (r_maps r)" l]
    by (cases "r_maps r") (auto simp: get_local_map_def get_default_map_def
        split: list.splits option.splits prod.splits)
next
  case (Some m)
  with assms show ?thesis by (simp add: get_local_map_def get_local_map_of_mem)
qed

section \<open>The value of a register\<close>

definition reg_get :: "uvm_reg \<Rightarrow> data" where
  "reg_get r = compose f_lsb field_get (r_fields r)"

definition reg_get_mirrored_value :: "uvm_reg \<Rightarrow> data" where
  "reg_get_mirrored_value r = compose f_lsb get_mirrored_value (r_fields r)"

definition reg_get_reset :: "string \<Rightarrow> uvm_reg \<Rightarrow> data" where
  "reg_get_reset kind r = compose f_lsb (get_reset kind) (r_fields r)"

definition reg_set :: "data \<Rightarrow> uvm_reg \<Rightarrow> uvm_reg \<times> msg list" where
  "reg_set v r =
     (let res = map (\<lambda>f. field_set (r_is_busy r)
                  (drop_bit (f_lsb f) v AND uvm_mask_size (f_size f)) f) (r_fields r)
      in (r\<lparr>r_fields := map fst res\<rparr>, concat (map snd res)))"

definition reg_needs_update :: "uvm_reg \<Rightarrow> bool" where
  "reg_needs_update r \<longleftrightarrow> list_ex needs_update (r_fields r)"

text \<open>\<open>reset\<close> also releases the lock: \<open>trylock\<close> then \<open>unlock\<close>.\<close>

definition reg_reset :: "string \<Rightarrow> uvm_reg \<Rightarrow> uvm_reg" where
  "reg_reset kind r =
     r\<lparr>r_fields := map (field_reset kind) (r_fields r), r_atomic := False, r_process_valid := False\<rparr>"

primrec has_reset_loop :: "string \<Rightarrow> bool \<Rightarrow> bool \<Rightarrow> reg_field list \<Rightarrow> bool \<times> reg_field list" where
  "has_reset_loop kind do_delete acc [] = (acc, [])"
| "has_reset_loop kind do_delete acc (f # fs) =
     (let (b, f') = has_reset kind do_delete f; acc = (acc \<or> b)
      in if \<not> do_delete \<and> acc then (True, f' # fs)
         else (let (res, fs') = has_reset_loop kind do_delete acc fs in (res, f' # fs')))"

definition reg_has_reset :: "string \<Rightarrow> bool \<Rightarrow> uvm_reg \<Rightarrow> bool \<times> uvm_reg" where
  "reg_has_reset kind do_delete r =
     (let (b, fs) = has_reset_loop kind do_delete False (r_fields r) in (b, r\<lparr>r_fields := fs\<rparr>))"

definition reg_set_reset :: "data \<Rightarrow> string \<Rightarrow> uvm_reg \<Rightarrow> uvm_reg" where
  "reg_set_reset v kind r =
     r\<lparr>r_fields := map (\<lambda>f. set_reset (drop_bit (f_lsb f) v) kind f) (r_fields r)\<rparr>"

text \<open>The value \<open>update\<close> writes.\<close>

definition reg_update_value :: "uvm_reg \<Rightarrow> data" where
  "reg_update_value r = compose f_lsb m_update (r_fields r)"

section \<open>Prediction and checking\<close>

text \<open>
  \<open>do_predict\<close> runs over the fields with the item's value replaced by the field's slice and the
  byte enables shifted to the field's first byte; the item (its status) is threaded through.
  The warnings that the lookup of the rights gives for each field are left out.
\<close>

definition be_bit :: "8 word \<Rightarrow> nat \<Rightarrow> bool" where
  "be_bit be l \<longleftrightarrow> bit (drop_bit (l div 8) be) 0"

primrec predict_loop ::
  "map_view \<Rightarrow> bool \<Rightarrow> uvm_predict_e \<Rightarrow> 8 word \<Rightarrow> data \<Rightarrow> reg_item \<Rightarrow> reg_field list
    \<Rightarrow> reg_field list \<times> reg_item \<times> msg list" where
  "predict_loop mv busy kind be v rw [] = ([], rw, [])"
| "predict_loop mv busy kind be v rw (f # fs) =
     (let rw = rw\<lparr>it_value := drop_bit (f_lsb f) v AND uvm_mask_size (f_size f)\<rparr>;
          (f', rw, ms) = do_predict mv busy kind (be_bit be (f_lsb f)) rw f;
          (fs', rw, ms') = predict_loop mv busy kind be v rw fs
      in (f' # fs', rw, ms @ ms'))"

definition reg_do_predict ::
  "map_env \<Rightarrow> uvm_predict_e \<Rightarrow> 8 word \<Rightarrow> reg_item \<Rightarrow> uvm_reg \<Rightarrow> uvm_reg \<times> reg_item \<times> msg list" where
  "reg_do_predict env kind be rw r =
     (let v = it_value rw; rw = rw\<lparr>it_status := UVM_IS_OK\<rparr>
      in if r_is_busy r \<and> kind = UVM_PREDICT_DIRECT
         then (r, rw\<lparr>it_status := UVM_NOT_OK\<rparr>, [(UVM_WARNING, ''RegModel'')])
         else
           (let (mv, _) = field_view env r (it_map rw);
                (fs, rw, ms) = predict_loop mv (r_is_busy r) kind be v rw (r_fields r)
            in (r\<lparr>r_fields := fs\<rparr>, rw\<lparr>it_value := v\<rparr>, ms)))"

definition reg_predict ::
  "map_env \<Rightarrow> data \<Rightarrow> 8 word \<Rightarrow> uvm_predict_e \<Rightarrow> uvm_path_e \<Rightarrow> map_id option \<Rightarrow> uvm_reg
    \<Rightarrow> uvm_reg \<times> bool \<times> msg list" where
  "reg_predict env v be kind path mp r =
     (let (r', rw, ms) = reg_do_predict env kind be
            ((predict_item v path UVM_IS_OK)\<lparr>it_map := mp\<rparr>) r
      in (r', it_status rw \<noteq> UVM_NOT_OK, ms))"

text \<open>
  \<open>do_check\<close>. The don't-care mask leaves out the fields with \<open>UVM_NO_CHECK\<close>; the second test
  compares the first character of the access policy with \<open>WO\<close>.
\<close>

definition dont_care :: "map_env \<Rightarrow> uvm_reg \<Rightarrow> map_id option \<Rightarrow> reg_field \<Rightarrow> bool" where
  "dont_care env r mp f \<longleftrightarrow>
     f_check f = UVM_NO_CHECK \<or> take 1 (fst (reg_field_access env r mp f)) = ''WO''"

definition dc_mask :: "map_env \<Rightarrow> uvm_reg \<Rightarrow> map_id option \<Rightarrow> data" where
  "dc_mask env r mp = compose f_lsb (\<lambda>f. uvm_mask_size (f_size f)) (filter (dont_care env r mp) (r_fields r))"

definition do_check :: "map_env \<Rightarrow> data \<Rightarrow> data \<Rightarrow> map_id option \<Rightarrow> uvm_reg \<Rightarrow> bool \<times> msg list" where
  "do_check env expected actual mp r =
     (let dc = dc_mask env r mp
      in if actual OR dc = expected OR dc then (True, []) else (False, [(UVM_ERROR, ''RegModel'')]))"

section \<open>The lock of a register\<close>

text \<open>
  \<open>m_atomic_check_lock\<close>: \<open>cur\<close> is the current process handle, \<open>None\<close> when it is not valid. The
  mutex is a \<open>std::mutex\<close> and all processes of the simulation run on one thread of the host:
  locking it while it is held never returns, which is the result \<open>None\<close>. Releasing is
  \<open>trylock\<close> then \<open>unlock\<close>, which leaves the mutex free in either case.
\<close>

definition m_atomic_check_lock :: "nat option \<Rightarrow> bool \<Rightarrow> uvm_reg \<Rightarrow> uvm_reg option" where
  "m_atomic_check_lock cur on r =
     (let r = r\<lparr>r_process_valid := (cur \<noteq> None)\<rparr>
      in if on then
           (if cur = None then Some r
            else if cur = r_process r then Some r
            else if r_atomic r then None
            else Some (r\<lparr>r_atomic := True, r_process := cur\<rparr>))
         else Some (r\<lparr>r_atomic := False, r_process_valid := False\<rparr>))"

section \<open>Fields as the parts of a register\<close>

abbreviation "regs_layout_ok \<equiv> layout_ok f_lsb f_size"
abbreviation "used_mask r \<equiv> layout_mask f_lsb f_size (r_fields r)"

interpretation desired_parts: bit_parts f_lsb f_size field_get "\<lambda>v f. fst (field_set busy v f)"
  by unfold_locales (simp_all add: field_get_def field_set_desired)

interpretation reset_parts: bit_parts f_lsb f_size "get_reset kind" "\<lambda>v f. set_reset v kind f"
  by unfold_locales (simp_all add: set_reset_def get_reset_def)

interpretation mirror_parts: bit_parts f_lsb f_size get_mirrored_value
    "\<lambda>v f. put_mirror (v AND mask (f_size f)) f"
  by unfold_locales (simp_all add: get_mirrored_value_def)

definition reg_wf :: "uvm_reg \<Rightarrow> bool" where
  "reg_wf r \<longleftrightarrow> (\<forall>f \<in> set (r_fields r). field_wf f) \<and> regs_layout_ok (r_fields r)"

lemma do_predict_direct:
  "do_predict mv False UVM_PREDICT_DIRECT True rw f =
     (put_mirror (it_value rw AND mask (f_size f)) f,
      if it_status rw \<noteq> UVM_NOT_OK then rw\<lparr>it_status := UVM_IS_OK\<rparr> else rw, [])"
  by (simp add: do_predict_def Let_def)

lemma predict_loop_direct:
  assumes "\<And>f. f \<in> set fs \<Longrightarrow> be_bit be (f_lsb f)" and "it_status rw \<noteq> UVM_NOT_OK"
  shows "\<exists>rw'. predict_loop mv False UVM_PREDICT_DIRECT be v rw fs =
      (map (\<lambda>f. put_mirror (drop_bit (f_lsb f) v AND mask (f_size f)) f) fs, rw', [])
    \<and> it_status rw' \<noteq> UVM_NOT_OK"
  using assms
proof (induction fs arbitrary: rw)
  case (Cons f fs)
  let ?rw = "rw\<lparr>it_value := drop_bit (f_lsb f) v AND mask (f_size f), it_status := UVM_IS_OK\<rparr>"
  have "it_status ?rw \<noteq> UVM_NOT_OK" by simp
  from Cons.IH [OF _ this] Cons.prems show ?case
    by (auto simp: Let_def do_predict_direct)
qed simp

lemma field_get_eq [simp]: "field_get = f_desired" "get_mirrored_value = f_mirrored"
  by (auto simp: field_get_def get_mirrored_value_def)

lemma be_bit_all: "l < 64 \<Longrightarrow> be_bit (- 1) l"
  by (auto simp: be_bit_def bit_simps)

section \<open>Properties\<close>

text \<open>Setting a register distributes the value over its fields and getting it collects the
  desired values again: \<open>get\<close> after \<open>set\<close> returns the value on the bits that fields implement
  and 0 elsewhere, whatever the layout and the policies of the fields; the mirrored value is
  unchanged.\<close>

theorem reg_get_after_set:
  "reg_get (fst (reg_set v r)) = v AND used_mask r
   \<and> reg_get_mirrored_value (fst (reg_set v r)) = reg_get_mirrored_value r"
  using desired_parts.compose_distribute_masked [of "r_is_busy r" v "r_fields r"]
  by (simp add: reg_get_def reg_set_def reg_get_mirrored_value_def comp_def compose_map)

text \<open>Reset values round-trip through the fields: after \<open>set_reset\<close> and \<open>reset\<close> of the same
  kind the register's mirrored and desired values are the given value on the implemented bits,
  no field needs an update, and the lock is free.\<close>

theorem reg_reset_roundtrip:
  "reg_get_mirrored_value (reg_reset k (reg_set_reset v k r)) = v AND used_mask r
   \<and> reg_get (reg_reset k (reg_set_reset v k r)) = v AND used_mask r
   \<and> \<not> reg_needs_update (reg_reset k (reg_set_reset v k r))
   \<and> \<not> r_atomic (reg_reset k (reg_set_reset v k r))"
proof -
  have eq: "f_mirrored (field_reset k (set_reset w k f)) = get_reset k (set_reset w k f)"
    "f_desired (field_reset k (set_reset w k f)) = get_reset k (set_reset w k f)"
    "f_lsb (field_reset k (set_reset w k f)) = f_lsb f" for w f
    by (simp_all add: field_reset_def set_reset_def get_reset_def Let_def)
  have "compose f_lsb (get_reset k) (map (\<lambda>f. set_reset (drop_bit (f_lsb f) v) k f) (r_fields r)) =
      v AND used_mask r"
    by (rule reset_parts.compose_distribute)
  then have *: "compose f_lsb (\<lambda>f. get_reset k (set_reset (drop_bit (f_lsb f) v) k f)) (r_fields r) =
      v AND used_mask r"
    by (simp add: compose_map comp_def set_reset_def)
  have "\<not> reg_needs_update (reg_reset k (reg_set_reset v k r))"
    by (auto simp: reg_needs_update_def reg_reset_def reg_set_reset_def list_ex_iff needs_update_def eq)
  with * show ?thesis
    by (simp add: reg_get_mirrored_value_def reg_get_def reg_reset_def reg_set_reset_def compose_map
        comp_def eq)
qed

text \<open>A direct prediction of an idle register succeeds without messages and sets mirrored and
  desired value to the predicted value on the implemented bits; while the register is busy it
  fails and changes nothing.\<close>

theorem reg_predict_direct:
  assumes "\<forall>f \<in> set (r_fields r). f_lsb f < 64"
  shows "(\<not> r_is_busy r \<longrightarrow>
      (\<exists>r'. reg_predict env v (- 1) UVM_PREDICT_DIRECT path mp r = (r', True, [])
         \<and> reg_get_mirrored_value r' = v AND used_mask r \<and> reg_get r' = v AND used_mask r))
    \<and> (r_is_busy r \<longrightarrow>
      reg_predict env v (- 1) UVM_PREDICT_DIRECT path mp r = (r, False, [(UVM_WARNING, ''RegModel'')]))"
proof (intro conjI impI)
  assume idle: "\<not> r_is_busy r"
  obtain mv ws where mv: "field_view env r mp = (mv, ws)" by fastforce
  have be: "be_bit (- 1) (f_lsb f)" if "f \<in> set (r_fields r)" for f
    using assms that by (simp add: be_bit_all)
  let ?rw = "(predict_item v path UVM_IS_OK)\<lparr>it_map := mp, it_status := UVM_IS_OK\<rparr>"
  obtain rw' where loop: "predict_loop mv False UVM_PREDICT_DIRECT (- 1) v ?rw (r_fields r) =
      (map (\<lambda>f. put_mirror (drop_bit (f_lsb f) v AND mask (f_size f)) f) (r_fields r), rw', [])"
    and st: "it_status rw' \<noteq> UVM_NOT_OK"
    using predict_loop_direct [OF be, of "r_fields r" ?rw mv v] by auto
  have "compose f_lsb f_mirrored (map (\<lambda>f. put_mirror (drop_bit (f_lsb f) v AND mask (f_size f)) f)
      (r_fields r)) = v AND used_mask r"
    using mirror_parts.compose_distribute [of v "r_fields r"] by simp
  then show "\<exists>r'. reg_predict env v (- 1) UVM_PREDICT_DIRECT path mp r = (r', True, [])
         \<and> reg_get_mirrored_value r' = v AND used_mask r \<and> reg_get r' = v AND used_mask r"
    using idle loop st mv
    by (auto simp: reg_predict_def reg_do_predict_def Let_def predict_item_def reg_get_def
        reg_get_mirrored_value_def compose_map comp_def)
qed (simp add: reg_predict_def reg_do_predict_def predict_item_def)

definition sample_reg :: uvm_reg where
  "sample_reg =
     (fst (new_reg ''r'' 8))\<lparr>r_fields :=
        [(new_field ''lo'')\<lparr>f_access := ''RW'', f_size := 4, f_lsb := 0, f_check := UVM_CHECK\<rparr>,
         (new_field ''hi'')\<lparr>f_access := ''WO'', f_size := 4, f_lsb := 4, f_check := UVM_CHECK\<rparr>],
       r_n_used_bits := 8\<rparr>"

definition no_maps :: map_env where
  "no_maps = \<lparr>me_ancestors = (\<lambda>_. []), me_blk_default = (\<lambda>_. None)\<rparr>"

theorem reg_predict_direct_witness:
  "\<exists>r'. reg_predict no_maps 90 (- 1) UVM_PREDICT_DIRECT UVM_FRONTDOOR None sample_reg = (r', True, [])
     \<and> reg_get_mirrored_value r' = 90 AND used_mask sample_reg"
proof -
  have "\<forall>f \<in> set (r_fields sample_reg). f_lsb f < 64"
    by (simp add: sample_reg_def new_field_def new_reg_def)
  from reg_predict_direct [OF this, of no_maps 90 UVM_FRONTDOOR None]
  show ?thesis by (auto simp: sample_reg_def new_reg_def Let_def)
qed

text \<open>Inserting a field: where it goes, and what the neighbour checks establish.\<close>

lemma insert_field_split:
  "insert_field f fs = (take i fs @ f # drop i fs, i) \<Longrightarrow> i \<le> length fs \<Longrightarrow>
   insert_field f (g # fs) = (if f_lsb f < f_lsb g then (f # g # fs, 0)
     else (take (Suc i) (g # fs) @ f # drop (Suc i) (g # fs), Suc i))"
  by simp

lemma insert_field_spec:
  "\<exists>i. insert_field f fs = (take i fs @ f # drop i fs, i) \<and> i \<le> length fs
     \<and> (\<forall>g \<in> set (take i fs). f_lsb g \<le> f_lsb f) \<and> (i < length fs \<longrightarrow> f_lsb f < f_lsb (fs ! i))"
proof (induction fs)
  case (Cons g gs)
  then obtain i where i: "insert_field f gs = (take i gs @ f # drop i gs, i)" "i \<le> length gs"
    "\<forall>g \<in> set (take i gs). f_lsb g \<le> f_lsb f" "i < length gs \<longrightarrow> f_lsb f < f_lsb (gs ! i)"
    by blast
  show ?case
  proof (cases "f_lsb f < f_lsb g")
    case True
    then show ?thesis by (intro exI [of _ 0]) simp
  next
    case False
    with i show ?thesis by (intro exI [of _ "Suc i"]) simp
  qed
qed simp

lemma sorted_ends:
  assumes "sorted_wrt (\<lambda>f g. f_lsb f + f_size f \<le> f_lsb g) fs" "i < length fs" "j \<le> i"
  shows "f_lsb (fs ! j) + f_size (fs ! j) \<le> f_lsb (fs ! i) + f_size (fs ! i)"
  using assms sorted_wrt_nth_less [of "\<lambda>f g. f_lsb f + f_size f \<le> f_lsb g" fs j i]
  by (cases "j = i") (auto dest: le_neq_implies_less)

lemma sorted_wrt_insert_between:
  assumes "sorted_wrt P (xs @ ys)" "\<forall>x \<in> set xs. P x z" "\<forall>y \<in> set ys. P z y"
  shows "sorted_wrt P (xs @ z # ys)"
  using assms by (auto simp: sorted_wrt_append)

lemma add_field_keeps_order:
  assumes ord: "sorted_wrt (\<lambda>f g. f_lsb f + f_size f \<le> f_lsb g) (r_fields r)"
    and unlocked: "\<not> r_locked r" and ok: "snd (add_field f r) = []"
  shows "sorted_wrt (\<lambda>f g. f_lsb f + f_size f \<le> f_lsb g) (r_fields (fst (add_field f r)))
    \<and> set (r_fields (fst (add_field f r))) = insert f (set (r_fields r))
    \<and> r_n_used_bits (fst (add_field f r)) = r_n_used_bits r + f_size f
    \<and> r_n_used_bits (fst (add_field f r)) \<le> r_n_bits r"
proof -
  let ?fs = "r_fields r" and ?P = "\<lambda>f g. f_lsb f + f_size f \<le> f_lsb g"
  obtain i where ins: "insert_field f ?fs = (take i ?fs @ f # drop i ?fs, i)" and i: "i \<le> length ?fs"
    using insert_field_spec by blast
  have res: "r_fields (fst (add_field f r)) = take i ?fs @ f # drop i ?fs"
    using unlocked ins by (simp add: add_field_def Let_def)
  have left: "f_lsb (?fs ! (i - 1)) + f_size (?fs ! (i - 1)) \<le> f_lsb f" if "i > 0"
    using ok unlocked ins i that
    by (auto simp: add_field_def Let_def nth_append split: if_splits)
  have right: "f_lsb f + f_size f \<le> f_lsb (?fs ! i)" if "i < length ?fs"
    using ok unlocked ins i that
    by (auto simp: add_field_def Let_def nth_append split: if_splits)
  have "\<forall>g \<in> set (take i ?fs). ?P g f"
  proof
    fix g assume "g \<in> set (take i ?fs)"
    then obtain j where j: "j < i" "g = ?fs ! j" using i by (auto simp: in_set_conv_nth)
    with left sorted_ends [OF ord, of "i - 1" j] i show "?P g f" by fastforce
  qed
  moreover have "\<forall>g \<in> set (drop i ?fs). ?P f g"
  proof
    fix g assume "g \<in> set (drop i ?fs)"
    then obtain k where k: "k < length ?fs - i" "g = ?fs ! (i + k)"
      using i by (auto simp: in_set_conv_nth)
    then have len: "i + k < length ?fs" by simp
    with right have "?P f (?fs ! i)" by simp
    with k len sorted_wrt_nth_less [OF ord, of i "i + k"] show "?P f g" by (cases "k = 0") simp_all
  qed
  ultimately have "sorted_wrt ?P (take i ?fs @ f # drop i ?fs)"
    using ord by (intro sorted_wrt_insert_between) simp_all
  moreover have "set (take i ?fs) \<union> set (drop i ?fs) = set ?fs"
    by (simp add: set_append [symmetric] del: set_append)
  moreover have "r_n_used_bits (fst (add_field f r)) = r_n_used_bits r + f_size f"
    using unlocked ins by (simp add: add_field_def Let_def)
  moreover have "r_n_used_bits r + f_size f \<le> r_n_bits r"
    using ok unlocked ins by (auto simp: add_field_def Let_def split: if_splits)
  ultimately show ?thesis using res by auto
qed

text \<open>C37. Adding a field to an unlocked register whose fields are in order and do not overlap: if
  no error is reported, the fields are again in order and do not overlap, the field was added,
  and the count of used bits stays within the width. A locked register is left unchanged with
  an error.\<close>

theorem add_field_layout:
  assumes "sorted_wrt (\<lambda>f g. f_lsb f + f_size f \<le> f_lsb g) (r_fields r)"
    and "snd (add_field f r) = []"
  shows "sorted_wrt (\<lambda>f g. f_lsb f + f_size f \<le> f_lsb g) (r_fields (fst (add_field f r)))
    \<and> set (r_fields (fst (add_field f r))) = insert f (set (r_fields r))
    \<and> r_n_used_bits (fst (add_field f r)) \<le> r_n_bits r \<and> \<not> r_locked r"
proof -
  have "\<not> r_locked r" using assms(2) by (auto simp: add_field_def)
  with add_field_keeps_order [OF assms(1) this assms(2)] show ?thesis by simp
qed

theorem add_field_layout_witness:
  "let f = (new_field ''x'')\<lparr>f_size := 2, f_lsb := 8\<rparr>; r = sample_reg\<lparr>r_n_bits := 16\<rparr>
   in map f_name (r_fields (fst (add_field f r))) = [''lo'', ''hi'', ''x'']
      \<and> sorted_wrt (\<lambda>f g. f_lsb f + f_size f \<le> f_lsb g) (r_fields (fst (add_field f r)))"
proof -
  let ?f = "(new_field ''x'')\<lparr>f_size := 2, f_lsb := 8\<rparr>" and ?r = "sample_reg\<lparr>r_n_bits := 16\<rparr>"
  have a: "sorted_wrt (\<lambda>f g. f_lsb f + f_size f \<le> f_lsb g) (r_fields ?r)"
    by (simp add: sample_reg_def new_field_def new_reg_def)
  have b: "snd (add_field ?f ?r) = []" and
    c: "map f_name (r_fields (fst (add_field ?f ?r))) = [''lo'', ''hi'', ''x'']"
    by (simp_all add: add_field_def sample_reg_def new_field_def new_reg_def)
  from add_field_layout [OF a b] c show ?thesis unfolding Let_def by simp
qed

text \<open>\<open>do_check\<close> passes exactly when the read value agrees with the mirror on every bit that
  is not in a field with comparison switched off. The intended exemption of write-only fields
  never applies: the code compares one character of the policy with the two of \<open>WO\<close>.\<close>

theorem do_check_exact:
  "fst (do_check env expected actual mp r) =
     (let unchecked = layout_mask f_lsb f_size (filter (\<lambda>f. f_check f = UVM_NO_CHECK) (r_fields r))
      in actual AND NOT unchecked = expected AND NOT unchecked)"
proof -
  have "take 1 acc \<noteq> ''WO''" for acc :: string
    by (cases acc) auto
  then have "dont_care env r mp = (\<lambda>f. f_check f = UVM_NO_CHECK)"
    by (simp add: dont_care_def fun_eq_iff)
  then have dc: "dc_mask env r mp = layout_mask f_lsb f_size (filter (\<lambda>f. f_check f = UVM_NO_CHECK) (r_fields r))"
    by (simp add: dc_mask_def layout_mask_def)
  have "(a OR m = b OR m) = (a AND NOT m = b AND NOT m)" for a b m :: data
    by (auto simp: bit_eq_iff bit_simps)
  then show ?thesis by (simp add: do_check_def Let_def dc)
qed

text \<open>The lock of a register is not mutually exclusive once its last owner returns: after
  process \<open>a\<close> locked and released, its next \<open>m_atomic_check_lock(true)\<close> returns without taking the
  mutex (the remembered process is not cleared on release), so another process \<open>b\<close> acquires the
  mutex while \<open>a\<close> is inside. During a's first access b's request would not have returned.\<close>

theorem lock_not_exclusive:
  assumes "\<not> r_atomic r" and "r_process r \<noteq> Some a" and "a \<noteq> b"
  shows "\<exists>r1 r2 r3 r4. m_atomic_check_lock (Some a) True r = Some r1
    \<and> r_atomic r1 \<and> m_atomic_check_lock (Some b) True r1 = None
    \<and> m_atomic_check_lock (Some a) False r1 = Some r2
    \<and> m_atomic_check_lock (Some a) True r2 = Some r3 \<and> \<not> r_atomic r3
    \<and> m_atomic_check_lock (Some b) True r3 = Some r4 \<and> r_atomic r4"
  using assms by (auto simp: m_atomic_check_lock_def Let_def)

theorem lock_not_exclusive_witness:
  "\<exists>r1 r2 r3 r4. m_atomic_check_lock (Some 1) True sample_reg = Some r1
    \<and> m_atomic_check_lock (Some 1) False r1 = Some r2
    \<and> m_atomic_check_lock (Some 1) True r2 = Some r3 \<and> \<not> r_atomic r3
    \<and> m_atomic_check_lock (Some 2) True r3 = Some r4"
proof -
  have "\<not> r_atomic sample_reg" "r_process sample_reg \<noteq> Some (1::nat)" "(1::nat) \<noteq> 2"
    by (simp_all add: sample_reg_def new_reg_def)
  from lock_not_exclusive [OF this] show ?thesis by blast
qed

end
