(* ===== verification/Reg_Access.thy ===== *)
theory Reg_Access
  imports Reg_Register "HOL-Library.Monad_Syntax"
begin

text \<open>
  \<open>src/uvmsc/reg/uvm_reg.cpp\<close> and \<open>uvm_reg_field.cpp\<close>, accesses: write, read, poke, peek, update
  and mirror of a register, and write and read of a field. What an access reaches outside the
  register is the record \<open>access_env\<close>: the bus behind the local map (\<open>ae_map_write\<close>,
  \<open>ae_map_read\<close>), a user-defined frontdoor, the backdoor, the user's hooks and callbacks (for a
  field its \<open>pre_write\<close> method followed by its callbacks, as one function), and the settings of
  the maps (\<open>ae_byte_enable\<close>: the adapter of a root map supports byte enables). The type variable is the state of the hardware. Coverage sampling is left out. The
  result \<open>None\<close> is an access that never returns because its thread waits for a mutex it holds.
\<close>

record 'h access_env =
  ae_maps :: map_env
  ae_cur :: "nat option"
  ae_default_path :: uvm_path_e
  ae_has_backdoor :: bool
  ae_has_hdl_path :: "string \<Rightarrow> bool"
  ae_user_frontdoor :: "reg_item \<Rightarrow> 'h \<Rightarrow> reg_item \<times> 'h"
  ae_map_write :: "reg_item \<Rightarrow> 'h \<Rightarrow> reg_item \<times> 'h"
  ae_map_read :: "reg_item \<Rightarrow> 'h \<Rightarrow> reg_item \<times> 'h"
  ae_back_write :: "reg_item \<Rightarrow> 'h \<Rightarrow> reg_item \<times> 'h"
  ae_back_read :: "reg_item \<Rightarrow> 'h \<Rightarrow> reg_item \<times> 'h"
  ae_auto_predict :: "map_id \<Rightarrow> bool"
  ae_check_on_read :: "map_id \<Rightarrow> bool"
  ae_byte_enable :: "map_id \<Rightarrow> bool"
  ae_n_bytes :: "map_id \<Rightarrow> nat"
  ae_field_pre_write :: "nat \<Rightarrow> reg_item \<Rightarrow> reg_item"
  ae_field_post_write :: "nat \<Rightarrow> reg_item \<Rightarrow> reg_item"
  ae_field_pre_read :: "nat \<Rightarrow> reg_item \<Rightarrow> reg_item"
  ae_field_post_read :: "nat \<Rightarrow> reg_item \<Rightarrow> reg_item"
  ae_pre_write :: "reg_item \<Rightarrow> reg_item"
  ae_post_write :: "reg_item \<Rightarrow> reg_item"
  ae_pre_read :: "reg_item \<Rightarrow> reg_item"
  ae_post_read :: "reg_item \<Rightarrow> reg_item"

section \<open>Path and map of an access\<close>

definition resolve_path :: "'h access_env \<Rightarrow> reg_item \<Rightarrow> reg_item \<times> msg list" where
  "resolve_path env rw =
     (let rw = (if it_path rw = UVM_DEFAULT_PATH then rw\<lparr>it_path := ae_default_path env\<rparr> else rw)
      in if it_path rw = UVM_BACKDOOR then
           (if \<not> ae_has_backdoor env \<and> \<not> ae_has_hdl_path env ''''
            then (rw\<lparr>it_path := UVM_FRONTDOOR\<rparr>, [(UVM_WARNING, ''RegModel'')])
            else (rw\<lparr>it_map := Some Backdoor_Map\<rparr>, []))
         else (rw, []))"

definition m_check_access ::
  "'h access_env \<Rightarrow> reg_item \<Rightarrow> uvm_reg \<Rightarrow> bool \<times> reg_item \<times> reg_map_info option \<times> msg list" where
  "m_check_access env rw r =
     (let (rw, w0) = resolve_path env rw
      in if it_path rw = UVM_BACKDOOR then (True, rw, None, w0)
         else
           (let (lm, w1) = get_local_map (ae_maps env) r (it_map rw);
                rw = rw\<lparr>it_local_map := lm\<rparr>
            in case lm of
                 None \<Rightarrow> (False, rw\<lparr>it_status := UVM_NOT_OK\<rparr>, None, w0 @ w1 @ [(UVM_ERROR, ''uvm::uvm_reg'')])
               | Some m \<Rightarrow>
                   (case reg_info r m of
                      (None, w2) \<Rightarrow> (False, rw\<lparr>it_status := UVM_NOT_OK\<rparr>, None, w0 @ w1 @ w2)
                    | (Some i, w2) \<Rightarrow>
                        if \<not> mi_frontdoor i \<and> mi_unmapped i
                        then (False, rw\<lparr>it_status := UVM_NOT_OK\<rparr>, Some i,
                              w0 @ w1 @ w2 @ [(UVM_ERROR, ''RegModel'')])
                        else (True, if it_map rw = None then rw\<lparr>it_map := Some m\<rparr> else rw, Some i,
                              w0 @ w1 @ w2))))"

section \<open>Writing a register\<close>

text \<open>Before the write every field's hook may change its slice of the value.\<close>

primrec pre_write_loop ::
  "(nat \<Rightarrow> reg_item \<Rightarrow> reg_item) \<Rightarrow> nat \<Rightarrow> reg_field list \<Rightarrow> data \<Rightarrow> reg_item \<Rightarrow> data \<times> reg_item" where
  "pre_write_loop hook n [] v rw = (v, rw)"
| "pre_write_loop hook n (f # fs) v rw =
     (let msk = push_bit (f_lsb f) (uvm_mask_size (f_size f));
          rw = rw\<lparr>it_value := drop_bit (f_lsb f) (v AND msk)\<rparr>;
          rw = hook n rw
      in pre_write_loop hook (Suc n) fs ((v AND NOT msk) OR push_bit (f_lsb f) (it_value rw)) rw)"

text \<open>After an access every field's hook sees its slice; the value is restored afterwards.\<close>

primrec post_loop ::
  "(nat \<Rightarrow> reg_item \<Rightarrow> reg_item) \<Rightarrow> nat \<Rightarrow> reg_field list \<Rightarrow> data \<Rightarrow> reg_item \<Rightarrow> reg_item" where
  "post_loop hook n [] v rw = rw"
| "post_loop hook n (f # fs) v rw =
     post_loop hook (Suc n) fs v
       (hook n (rw\<lparr>it_value := drop_bit (f_lsb f) v AND uvm_mask_size (f_size f)\<rparr>))"

text \<open>The frontdoor case: the access itself while the register is busy, then the prediction.\<close>

definition front_access ::
  "'h access_env \<Rightarrow> (reg_item \<Rightarrow> 'h \<Rightarrow> reg_item \<times> 'h) \<Rightarrow> reg_map_info option \<Rightarrow> reg_item \<Rightarrow> 'h \<Rightarrow> reg_item \<times> 'h"
where
  "front_access env bus info rw h =
     (case info of
        Some i \<Rightarrow> if mi_frontdoor i then ae_user_frontdoor env rw h else bus rw h
      | None \<Rightarrow> bus rw h)"

definition root_map :: "map_env \<Rightarrow> map_id \<Rightarrow> map_id" where
  "root_map env m = (case me_ancestors env m of [] \<Rightarrow> m | as \<Rightarrow> last as)"

definition auto_predict :: "'h access_env \<Rightarrow> reg_item \<Rightarrow> bool" where
  "auto_predict env rw =
     (case it_local_map rw of None \<Rightarrow> False | Some m \<Rightarrow> ae_auto_predict env (root_map (ae_maps env) m))"

definition predict_keeping_status ::
  "'h access_env \<Rightarrow> uvm_predict_e \<Rightarrow> reg_item \<Rightarrow> uvm_reg \<Rightarrow> uvm_reg \<times> reg_item \<times> msg list" where
  "predict_keeping_status env kind rw r =
     (if auto_predict env rw then
        (let st = it_status rw; (r, rw, ms) = reg_do_predict (ae_maps env) kind (- 1) rw r
         in (r, rw\<lparr>it_status := st\<rparr>, ms))
      else (r, rw, []))"

definition write_frontdoor ::
  "'h access_env \<Rightarrow> reg_map_info option \<Rightarrow> reg_item \<Rightarrow> uvm_reg \<Rightarrow> 'h \<Rightarrow> uvm_reg \<times> reg_item \<times> 'h \<times> msg list"
where
  "write_frontdoor env info rw r h =
     (let (rw, h) = front_access env (ae_map_write env) info rw h;
          (r, rw, ms) = predict_keeping_status env UVM_PREDICT_WRITE rw (r\<lparr>r_is_busy := False\<rparr>)
      in (r, rw, h, ms))"

text \<open>
  The backdoor case: read the current value, compute what the policies make of the write, write
  that. The first component is false when the code returns right after the failed read.
\<close>

definition write_backdoor ::
  "'h access_env \<Rightarrow> reg_item \<Rightarrow> uvm_reg \<Rightarrow> 'h \<Rightarrow> bool \<times> uvm_reg \<times> reg_item \<times> 'h \<times> msg list" where
  "write_backdoor env rw r h =
     (let v = it_value rw;
          (rw, h) = ae_back_read env (rw\<lparr>it_access_kind := UVM_READ\<rparr>) h
      in if it_status rw = UVM_NOT_OK then (False, r, rw, h, [])
         else
           (let cur = it_value rw;
                (mv, ws) = field_view (ae_maps env) r (it_local_map rw);
                final_val = compose f_lsb
                  (\<lambda>f. m_predict mv f (drop_bit (f_lsb f) cur AND uvm_mask_size (f_size f))
                         (drop_bit (f_lsb f) v AND uvm_mask_size (f_size f))) (r_fields r);
                rw = rw\<lparr>it_access_kind := UVM_WRITE, it_value := final_val\<rparr>;
                (rw, h) = ae_back_write env rw h;
                (r, rw, ms) = reg_do_predict (ae_maps env) UVM_PREDICT_WRITE (- 1) rw r
            in (True, r, rw, h, ms)))"

definition reg_do_write ::
  "'h access_env \<Rightarrow> reg_item \<Rightarrow> uvm_reg \<Rightarrow> 'h \<Rightarrow> (uvm_reg \<times> reg_item \<times> 'h \<times> msg list) option" where
  "reg_do_write env rw r h =
     (let (ok, rw, info, w0) = m_check_access env rw r
      in if \<not> ok then Some (r, rw, h, w0)
         else do {
           r \<leftarrow> m_atomic_check_lock (ae_cur env) True r;
           let r = r\<lparr>r_write_in_progress := True\<rparr>;
           let v = it_value rw AND uvm_mask_size (r_n_bits r);
           let rw = rw\<lparr>it_value := v, it_status := UVM_IS_OK\<rparr>;
           let (v, rw) = pre_write_loop (ae_field_pre_write env) 0 (r_fields r) v rw;
           let rw = ae_pre_write env (rw\<lparr>it_element_kind := UVM_REG, it_value := v\<rparr>);
           if it_status rw \<noteq> UVM_IS_OK then do {
             r \<leftarrow> m_atomic_check_lock (ae_cur env) False (r\<lparr>r_write_in_progress := False\<rparr>);
             Some (r, rw, h, w0)
           } else do {
             let (go, r, rw, h, w1) =
               (case it_path rw of
                  UVM_BACKDOOR \<Rightarrow> write_backdoor env rw r h
                | UVM_FRONTDOOR \<Rightarrow> (True, write_frontdoor env info rw r h)
                | _ \<Rightarrow> (True, r, rw, h, []));
             if \<not> go then Some (r\<lparr>r_write_in_progress := False\<rparr>, rw, h, w0 @ w1)
             else do {
               let v = it_value rw;
               let rw = ae_post_write env rw;
               let rw = post_loop (ae_field_post_write env) 0 (r_fields r) v rw;
               let rw = rw\<lparr>it_value := v, it_element_kind := UVM_REG\<rparr>;
               r \<leftarrow> m_atomic_check_lock (ae_cur env) False (r\<lparr>r_write_in_progress := False\<rparr>);
               Some (r, rw, h, w0 @ w1)
             }
           }
         })"

definition new_item :: "uvm_elem_kind_e \<Rightarrow> uvm_access_e \<Rightarrow> data \<Rightarrow> uvm_path_e \<Rightarrow> map_id option \<Rightarrow> reg_item" where
  "new_item ek ak v path mp =
     \<lparr>it_element_kind = ek, it_access_kind = ak, it_value = v, it_status = UVM_IS_OK, it_path = path,
      it_bd_kind = '''', it_map = mp, it_local_map = None\<rparr>"

definition reg_write ::
  "'h access_env \<Rightarrow> data \<Rightarrow> uvm_path_e \<Rightarrow> map_id option \<Rightarrow> uvm_reg \<Rightarrow> 'h
    \<Rightarrow> (uvm_reg \<times> uvm_status_e \<times> 'h \<times> msg list) option" where
  "reg_write env v path mp r h = do {
     r \<leftarrow> m_atomic_check_lock (ae_cur env) True r;
     let (r, w0) = reg_set v r;
     (r, rw, h, w1) \<leftarrow> reg_do_write env (new_item UVM_REG UVM_WRITE v path mp) r h;
     r \<leftarrow> m_atomic_check_lock (ae_cur env) False r;
     Some (r, it_status rw, h, w0 @ w1)
   }"

definition reg_update ::
  "'h access_env \<Rightarrow> uvm_path_e \<Rightarrow> map_id option \<Rightarrow> uvm_reg \<Rightarrow> 'h
    \<Rightarrow> (uvm_reg \<times> uvm_status_e \<times> 'h \<times> msg list) option" where
  "reg_update env path mp r h =
     (if \<not> reg_needs_update r then Some (r, UVM_IS_OK, h, [])
      else reg_write env (reg_update_value r) path mp r h)"

section \<open>Reading a register\<close>

text \<open>Before a read every field's hook sees the item; the register's own hook comes last.\<close>

primrec pre_read_loop :: "(nat \<Rightarrow> reg_item \<Rightarrow> reg_item) \<Rightarrow> nat \<Rightarrow> reg_field list \<Rightarrow> reg_item \<Rightarrow> reg_item" where
  "pre_read_loop hook n [] rw = rw"
| "pre_read_loop hook n (f # fs) rw =
     pre_read_loop hook (Suc n) fs (hook n (rw\<lparr>it_element_kind := UVM_FIELD\<rparr>))"

text \<open>
  What a backdoor read does to the fields the hardware would change on a read: the value to
  write back, and the mask of the write-only bits.
\<close>

definition rc_policies :: "string set" where
  "rc_policies = {''RC'', ''WRC'', ''WSRC'', ''W1SRC'', ''W0SRC''}"

definition rs_policies :: "string set" where
  "rs_policies = {''RS'', ''WRS'', ''WCRS'', ''W1CRS'', ''W0CRS''}"

definition wo_policies :: "string set" where
  "wo_policies = {''WO'', ''WOC'', ''WOS'', ''WO1''}"

definition field_mask :: "reg_field \<Rightarrow> data" where
  "field_mask f = push_bit (f_lsb f) (uvm_mask_size (f_size f))"

primrec read_effect_loop :: "(reg_field \<Rightarrow> string) \<Rightarrow> reg_field list \<Rightarrow> data \<Rightarrow> data \<Rightarrow> data \<times> data" where
  "read_effect_loop acc [] v wo = (v, wo)"
| "read_effect_loop acc (f # fs) v wo =
     (if acc f \<in> rc_policies then read_effect_loop acc fs (v AND NOT (field_mask f)) wo
      else if acc f \<in> rs_policies then read_effect_loop acc fs (v OR field_mask f) wo
      else if acc f \<in> wo_policies then read_effect_loop acc fs v (wo OR field_mask f)
      else read_effect_loop acc fs v wo)"

definition read_backdoor ::
  "'h access_env \<Rightarrow> reg_item \<Rightarrow> uvm_reg \<Rightarrow> 'h \<Rightarrow> uvm_reg \<times> reg_item \<times> 'h \<times> msg list" where
  "read_backdoor env rw r h =
     (let expd = reg_get r; (rw, h) = ae_back_read env rw h
      in if it_status rw = UVM_NOT_OK then (r, rw, h, [])
         else
           (let (v, wo) = read_effect_loop (\<lambda>f. fst (reg_field_access (ae_maps env) r (Some Backdoor_Map) f))
                  (r_fields r) (it_value rw) 0;
                (rw, h) = (if v \<noteq> it_value rw
                   then (let (rw', h) = ae_back_write env (rw\<lparr>it_value := v\<rparr>) h
                         in (rw'\<lparr>it_value := it_value rw\<rparr>, h))
                   else (rw, h));
                rw = rw\<lparr>it_value := it_value rw AND NOT wo\<rparr>;
                ms = (if ae_check_on_read env Backdoor_Map \<and> it_status rw \<noteq> UVM_NOT_OK
                      then snd (do_check (ae_maps env) expd (it_value rw) (Some Backdoor_Map) r) else []);
                (r, rw, ms') = reg_do_predict (ae_maps env) UVM_PREDICT_READ (- 1) rw r
            in (r, rw, h, ms @ ms')))"

text \<open>The check against the mirror is part of the automatic prediction, as in the code.\<close>

definition read_frontdoor ::
  "'h access_env \<Rightarrow> reg_map_info option \<Rightarrow> reg_item \<Rightarrow> uvm_reg \<Rightarrow> 'h \<Rightarrow> uvm_reg \<times> reg_item \<times> 'h \<times> msg list"
where
  "read_frontdoor env info rw r h =
     (let expd = reg_get r;
          (rw, h) = front_access env (ae_map_read env) info rw h;
          r = r\<lparr>r_is_busy := False\<rparr>;
          ms = (case it_local_map rw of None \<Rightarrow> [] | Some m \<Rightarrow>
                  if auto_predict env rw \<and> ae_check_on_read env m \<and> it_status rw \<noteq> UVM_NOT_OK
                  then snd (do_check (ae_maps env) expd (it_value rw)
                              (Some (root_map (ae_maps env) m)) r)
                  else []);
          (r, rw, ms') = predict_keeping_status env UVM_PREDICT_READ rw r
      in (r, rw, h, ms @ ms'))"

definition reg_do_read ::
  "'h access_env \<Rightarrow> reg_item \<Rightarrow> uvm_reg \<Rightarrow> 'h \<Rightarrow> uvm_reg \<times> reg_item \<times> 'h \<times> msg list" where
  "reg_do_read env rw r h =
     (let (ok, rw, info, w0) = m_check_access env rw r
      in if \<not> ok then (r, rw, h, w0)
         else
           (let r = r\<lparr>r_read_in_progress := True\<rparr>;
                rw = rw\<lparr>it_status := UVM_IS_OK\<rparr>;
                rw = pre_read_loop (ae_field_pre_read env) 0 (r_fields r) rw;
                rw = ae_pre_read env (rw\<lparr>it_element_kind := UVM_REG\<rparr>)
            in if it_status rw \<noteq> UVM_IS_OK then (r\<lparr>r_read_in_progress := False\<rparr>, rw, h, w0)
               else
                 (let (r, rw, h, w1) =
                    (case it_path rw of
                       UVM_BACKDOOR \<Rightarrow> read_backdoor env rw r h
                     | UVM_FRONTDOOR \<Rightarrow> read_frontdoor env info rw r h
                     | _ \<Rightarrow> (r, rw, h, []));
                      v = it_value rw;
                      rw = ae_post_read env rw;
                      rw = post_loop (ae_field_post_read env) 0 (r_fields r) v rw;
                      rw = rw\<lparr>it_value := v, it_element_kind := UVM_REG\<rparr>
                  in (r\<lparr>r_read_in_progress := False\<rparr>, rw, h, w0 @ w1))))"

definition m_read ::
  "'h access_env \<Rightarrow> uvm_path_e \<Rightarrow> map_id option \<Rightarrow> uvm_reg \<Rightarrow> 'h
    \<Rightarrow> uvm_reg \<times> uvm_status_e \<times> data \<times> 'h \<times> msg list" where
  "m_read env path mp r h =
     (let (r, rw, h, ws) = reg_do_read env (new_item UVM_REG UVM_READ 0 path mp) r h
      in (r, it_status rw, it_value rw, h, ws))"

definition reg_read ::
  "'h access_env \<Rightarrow> uvm_path_e \<Rightarrow> map_id option \<Rightarrow> uvm_reg \<Rightarrow> 'h
    \<Rightarrow> (uvm_reg \<times> uvm_status_e \<times> data \<times> 'h \<times> msg list) option" where
  "reg_read env path mp r h = do {
     r \<leftarrow> m_atomic_check_lock (ae_cur env) True r;
     let (r, st, v, h, ws) = m_read env path mp r h;
     r \<leftarrow> m_atomic_check_lock (ae_cur env) False r;
     Some (r, st, v, h, ws)
   }"

section \<open>Poke, peek and mirror\<close>

definition backdoor_item :: "uvm_access_e \<Rightarrow> data \<Rightarrow> string \<Rightarrow> reg_item" where
  "backdoor_item ak v kind = (new_item UVM_REG ak v UVM_BACKDOOR None)\<lparr>it_bd_kind := kind\<rparr>"

text \<open>The lock is taken by the caller when a field pokes or peeks.\<close>

definition unless_locked_by_field :: "'h access_env \<Rightarrow> bool \<Rightarrow> uvm_reg \<Rightarrow> uvm_reg option" where
  "unless_locked_by_field env on r =
     (if r_is_locked_by_field r then Some r else m_atomic_check_lock (ae_cur env) on r)"

definition reg_poke ::
  "'h access_env \<Rightarrow> data \<Rightarrow> string \<Rightarrow> uvm_reg \<Rightarrow> 'h \<Rightarrow> (uvm_reg \<times> uvm_status_e \<times> 'h \<times> msg list) option" where
  "reg_poke env v kind r h =
     (if \<not> ae_has_backdoor env \<and> \<not> ae_has_hdl_path env kind
      then Some (r, UVM_NOT_OK, h, [(UVM_ERROR, ''RegModel'')])
      else do {
        r \<leftarrow> unless_locked_by_field env True r;
        let (rw, h) = ae_back_write env (backdoor_item UVM_WRITE (v AND uvm_mask_size (r_n_bits r)) kind) h;
        let (r, _, ms) = reg_do_predict (ae_maps env) UVM_PREDICT_WRITE (- 1) rw r;
        r \<leftarrow> unless_locked_by_field env False r;
        Some (r, it_status rw, h, ms)
      })"

definition reg_peek ::
  "'h access_env \<Rightarrow> string \<Rightarrow> uvm_reg \<Rightarrow> 'h
    \<Rightarrow> (uvm_reg \<times> uvm_status_e \<times> data option \<times> 'h \<times> msg list) option" where
  "reg_peek env kind r h =
     (if \<not> ae_has_backdoor env \<and> \<not> ae_has_hdl_path env kind
      then Some (r, UVM_NOT_OK, None, h, [(UVM_ERROR, ''RegModel'')])
      else do {
        r \<leftarrow> unless_locked_by_field env True r;
        let (rw, h) = ae_back_read env (backdoor_item UVM_READ 0 kind) h;
        let (r, _, ms) = reg_do_predict (ae_maps env) UVM_PREDICT_READ (- 1) rw r;
        r \<leftarrow> unless_locked_by_field env False r;
        Some (r, it_status rw, Some (it_value rw), h, ms)
      })"

text \<open>\<open>st\<close> is the caller's status variable, which \<open>mirror\<close> leaves alone when it finds no map.\<close>

definition reg_mirror ::
  "'h access_env \<Rightarrow> uvm_check_e \<Rightarrow> uvm_path_e \<Rightarrow> map_id option \<Rightarrow> uvm_status_e \<Rightarrow> uvm_reg \<Rightarrow> 'h
    \<Rightarrow> (uvm_reg \<times> uvm_status_e \<times> 'h \<times> msg list) option" where
  "reg_mirror env check path mp st r h = do {
     r \<leftarrow> m_atomic_check_lock (ae_cur env) True r;
     let path = (if path = UVM_DEFAULT_PATH then ae_default_path env else path);
     let (mp, w0) = (if path = UVM_BACKDOOR \<and> (ae_has_backdoor env \<or> ae_has_hdl_path env '''')
                     then (Some Backdoor_Map, []) else get_local_map (ae_maps env) r mp);
     if mp = None then Some (r, st, h, w0)
     else do {
       let expd = reg_get_mirrored_value r;
       let (r, st, v, h, w1) = m_read env path mp r h;
       if st = UVM_NOT_OK then do {
         r \<leftarrow> m_atomic_check_lock (ae_cur env) False r;
         Some (r, st, h, w0 @ w1)
       } else do {
         let w2 = (if check = UVM_CHECK then snd (do_check (ae_maps env) expd v mp r) else []);
         r \<leftarrow> m_atomic_check_lock (ae_cur env) False r;
         Some (r, st, h, w0 @ w1 @ w2)
       }
     }
   }"

section \<open>Access to one field\<close>

text \<open>
  A field is named by its index in the register. \<open>field_check_access\<close> repeats the register's
  check; its null pointer dereferences (a message that names the null map) are the same errors.
\<close>

definition field_check_access ::
  "'h access_env \<Rightarrow> reg_item \<Rightarrow> uvm_reg \<Rightarrow> bool \<times> reg_item \<times> msg list" where
  "field_check_access env rw r = (let (ok, rw, _, ms) = m_check_access env rw r in (ok, rw, ms))"

text \<open>The value written to the whole register, and whether a neighbour suffers a side effect.\<close>

definition keeps_on_zero :: "string set" where
  "keeps_on_zero = {''RO'', ''RC'', ''RS'', ''W1C'', ''W1S'', ''W1T'', ''W1SRC'', ''W1CRC''}"

definition keeps_on_one :: "string set" where
  "keeps_on_one = {''W0C'', ''W0S'', ''W0T'', ''W0SRC'', ''W0CRS''}"

definition never_keeps :: "string set" where
  "never_keeps = {''WC'', ''WS'', ''WCRS'', ''WSRC'', ''WOC'', ''WOS''}"

primrec adjust_loop ::
  "(reg_field \<Rightarrow> string) \<Rightarrow> nat \<Rightarrow> data \<Rightarrow> nat \<Rightarrow> reg_field list \<Rightarrow> data \<Rightarrow> bool \<Rightarrow> data \<times> bool" where
  "adjust_loop acc idx w n [] va bad = (va, bad)"
| "adjust_loop acc idx w n (f # fs) va bad =
     (if n = idx then adjust_loop acc idx w (Suc n) fs (va OR push_bit (f_lsb f) w) bad
      else
        (let va = (if acc f \<in> keeps_on_zero then va OR 0 else va);
             va = (if acc f \<in> keeps_on_one then va OR field_mask f else va);
             bad = (bad \<or> acc f \<in> never_keeps)
         in adjust_loop acc idx w (Suc n) fs (va OR push_bit (f_lsb f) (f_mirrored f)) bad))"

definition field_write_value ::
  "map_env \<Rightarrow> map_id option \<Rightarrow> nat \<Rightarrow> data \<Rightarrow> uvm_reg \<Rightarrow> data \<times> bool" where
  "field_write_value env lm idx w r =
     adjust_loop (\<lambda>f. fst (reg_field_access env r lm f)) idx w 0 (r_fields r) 0 False"

definition get_frontdoor :: "uvm_reg \<Rightarrow> map_id \<Rightarrow> bool" where
  "get_frontdoor r m = (case fst (reg_info r m) of None \<Rightarrow> False | Some i \<Rightarrow> mi_frontdoor i)"

text \<open>The layout test: the neighbours of the field leave the rest of its bus words free.\<close>

definition alone_in_bus_words :: "nat \<Rightarrow> nat \<Rightarrow> reg_field list \<Rightarrow> bool" where
  "alone_in_bus_words bus_width idx fs =
     (let bus_sz = int bus_width * 8;
          this_lsb = int (f_lsb (fs ! idx)); this_sz = int (f_size (fs ! idx));
          prev_lsb = (if idx > 0 then int (f_lsb (fs ! (idx - 1))) else this_lsb);
          prev_sz = (if idx > 0 then int (f_size (fs ! (idx - 1))) else this_sz);
          next_lsb = (if idx < length fs - 1 then int (f_lsb (fs ! (idx + 1))) else this_lsb)
      in if idx = 0 \<and> (next_lsb mod bus_sz = 0 \<or> next_lsb - this_sz > next_lsb mod bus_sz) then True
         else if idx = length fs - 1 \<and>
            (this_lsb mod bus_sz = 0 \<or> this_lsb - (prev_lsb + prev_sz) \<ge> this_lsb mod bus_sz) then True
         else if this_lsb mod bus_sz = 0
         then next_lsb mod bus_sz = 0 \<or> next_lsb - (this_lsb + this_sz) \<ge> next_lsb mod bus_sz
         else next_lsb - (this_lsb + this_sz) \<ge> next_lsb mod bus_sz
           \<and> this_lsb - (prev_lsb + prev_sz) \<ge> this_lsb mod bus_sz)"

definition is_indv_accessible ::
  "'h access_env \<Rightarrow> uvm_path_e \<Rightarrow> map_id option \<Rightarrow> nat \<Rightarrow> uvm_reg \<Rightarrow> bool \<times> msg list" where
  "is_indv_accessible env path lm idx r =
     (let no = (False, [(UVM_WARNING, ''RegModel'')])
      in if path = UVM_BACKDOOR then no
         else if \<not> f_individually_accessible (r_fields r ! idx) then no
         else (case lm of
           None \<Rightarrow> no
         | Some m \<Rightarrow>
             if get_frontdoor r m then no
             else if ae_byte_enable env (root_map (ae_maps env) m) then (True, [])
             else if length (r_fields r) \<noteq> 1 \<and> alone_in_bus_words (ae_n_bytes env m) idx (r_fields r)
             then (True, []) else no))"

text \<open>The access of the field alone, with its own prediction; the register is marked busy.\<close>

definition update_field :: "nat \<Rightarrow> (reg_field \<Rightarrow> reg_field) \<Rightarrow> uvm_reg \<Rightarrow> uvm_reg" where
  "update_field idx g r = r\<lparr>r_fields := (r_fields r)[idx := g (r_fields r ! idx)]\<rparr>"

definition field_predict_auto ::
  "'h access_env \<Rightarrow> uvm_predict_e \<Rightarrow> nat \<Rightarrow> reg_item \<Rightarrow> uvm_reg \<Rightarrow> uvm_reg \<times> reg_item \<times> msg list" where
  "field_predict_auto env kind idx rw r =
     (if auto_predict env rw then
        (let (mv, _) = field_view (ae_maps env) r (it_map rw);
             (f, rw, ms) = do_predict mv (r_is_busy r) kind True rw (r_fields r ! idx)
         in (r\<lparr>r_fields := (r_fields r)[idx := f]\<rparr>, rw, ms))
      else (r, rw, []))"

definition field_indv_access ::
  "'h access_env \<Rightarrow> (reg_item \<Rightarrow> 'h \<Rightarrow> reg_item \<times> 'h) \<Rightarrow> (nat \<Rightarrow> reg_item \<Rightarrow> reg_item)
    \<Rightarrow> (nat \<Rightarrow> reg_item \<Rightarrow> reg_item) \<Rightarrow> uvm_predict_e \<Rightarrow> nat \<Rightarrow> reg_item \<Rightarrow> uvm_reg \<Rightarrow> 'h
    \<Rightarrow> uvm_reg \<times> reg_item \<times> 'h \<times> msg list" where
  "field_indv_access env bus pre post kind idx rw r h =
     (let r = m_set_busy True r;
          rw = pre idx (rw\<lparr>it_status := UVM_IS_OK\<rparr>)
      in if it_status rw \<noteq> UVM_IS_OK then (m_set_busy False r, rw, h, [])
         else
           (let (rw, h) = bus rw h;
                (r, rw, ms) = field_predict_auto env kind idx rw r
            in (m_set_busy False r, post idx rw, h, ms)))"

definition field_do_write ::
  "'h access_env \<Rightarrow> nat \<Rightarrow> reg_item \<Rightarrow> uvm_reg \<Rightarrow> 'h \<Rightarrow> (uvm_reg \<times> reg_item \<times> 'h \<times> msg list) option" where
  "field_do_write env idx rw r h = do {
     r \<leftarrow> m_atomic_check_lock (ae_cur env) True r;
     let (ok, rw, w0) = field_check_access env rw r;
     if \<not> ok then Some (r, rw, h, w0)
     else do {
       let r = update_field idx (\<lambda>f. f\<lparr>f_write_in_progress := True\<rparr>) r;
       let sz = f_size (r_fields r ! idx);
       let (rw, w1) = (if drop_bit sz (it_value rw) \<noteq> 0
                       then (rw\<lparr>it_value := it_value rw AND uvm_mask_size sz\<rparr>, [(UVM_WARNING, ''RegModel'')])
                       else (rw, []));
       let (va, bad) = field_write_value (ae_maps env) (it_local_map rw) idx (it_value rw) r;
       let (indv, w2) = is_indv_accessible env (it_path rw) (it_local_map rw) idx r;
       (r, rw, h, w3) \<leftarrow>
         (if \<not> indv then do {
            (r, rw, h, w) \<leftarrow> reg_do_write env (rw\<lparr>it_element_kind := UVM_REG, it_value := va\<rparr>) r h;
            Some (r, rw, h, w @ (if bad then [(UVM_WARNING, ''RegModel'')] else []))
          } else Some (field_indv_access env (ae_map_write env) (ae_field_pre_write env)
                        (ae_field_post_write env) UVM_PREDICT_WRITE idx rw r h));
       let r = update_field idx (\<lambda>f. f\<lparr>f_write_in_progress := False\<rparr>) r;
       r \<leftarrow> m_atomic_check_lock (ae_cur env) False r;
       Some (r, rw, h, w0 @ w1 @ w2 @ w3)
     }
   }"

text \<open>The warning for every neighbour that a read of the register changes: \<open>get_access()\<close>, no map.\<close>

definition read_side_effects :: "map_env \<Rightarrow> nat \<Rightarrow> uvm_reg \<Rightarrow> msg list" where
  "read_side_effects env idx r =
     concat (map (\<lambda>j. if j \<noteq> idx \<and> fst (reg_field_access env r None (r_fields r ! j)) \<in> rc_policies \<union> rs_policies
                      then [(UVM_WARNING, ''RegModel'')] else []) [0..<length (r_fields r)])"

definition field_do_read ::
  "'h access_env \<Rightarrow> nat \<Rightarrow> reg_item \<Rightarrow> uvm_reg \<Rightarrow> 'h \<Rightarrow> (uvm_reg \<times> reg_item \<times> 'h \<times> msg list) option" where
  "field_do_read env idx rw r h = do {
     r \<leftarrow> m_atomic_check_lock (ae_cur env) True r;
     let r = update_field idx (\<lambda>f. f\<lparr>f_read_in_progress := True\<rparr>) r;
     let (ok, rw, w0) = field_check_access env rw r;
     if \<not> ok then Some (r, rw, h, w0)
     else do {
       let (indv, w1) = is_indv_accessible env (it_path rw) (it_local_map rw) idx r;
       let (r, rw, h, w2) =
         (if \<not> indv then
            (let (r, rw, h, w) = reg_do_read env (rw\<lparr>it_element_kind := UVM_REG\<rparr>) r h;
                 f = r_fields r ! idx
             in (r, rw\<lparr>it_value := drop_bit (f_lsb f) (it_value rw) AND uvm_mask_size (f_size f)\<rparr>, h, w))
          else field_indv_access env (ae_map_read env) (ae_field_pre_read env)
                 (ae_field_post_read env) UVM_PREDICT_READ idx rw r h);
       let r = update_field idx (\<lambda>f. f\<lparr>f_read_in_progress := False\<rparr>) r;
       r \<leftarrow> m_atomic_check_lock (ae_cur env) False r;
       Some (r, rw, h, w0 @ w1 @ w2 @ (if indv then [] else read_side_effects (ae_maps env) idx r))
     }
   }"

definition field_write ::
  "'h access_env \<Rightarrow> nat \<Rightarrow> data \<Rightarrow> uvm_path_e \<Rightarrow> map_id option \<Rightarrow> uvm_reg \<Rightarrow> 'h
    \<Rightarrow> (uvm_reg \<times> uvm_status_e \<times> 'h \<times> msg list) option" where
  "field_write env idx v path mp r h = do {
     (r, rw, h, ms) \<leftarrow> field_do_write env idx (new_item UVM_FIELD UVM_WRITE v path mp) r h;
     Some (r, it_status rw, h, ms)
   }"

definition field_read ::
  "'h access_env \<Rightarrow> nat \<Rightarrow> uvm_path_e \<Rightarrow> map_id option \<Rightarrow> uvm_reg \<Rightarrow> 'h
    \<Rightarrow> (uvm_reg \<times> uvm_status_e \<times> data \<times> 'h \<times> msg list) option" where
  "field_read env idx path mp r h = do {
     (r, rw, h, ms) \<leftarrow> field_do_read env idx (new_item UVM_FIELD UVM_READ 0 path mp) r h;
     Some (r, it_status rw, it_value rw, h, ms)
   }"

definition field_poke ::
  "'h access_env \<Rightarrow> nat \<Rightarrow> data \<Rightarrow> string \<Rightarrow> uvm_reg \<Rightarrow> 'h \<Rightarrow> (uvm_reg \<times> uvm_status_e \<times> 'h \<times> msg list) option" where
  "field_poke env idx v kind r h = do {
     let f = r_fields r ! idx;
     let (v, w0) = (if drop_bit (f_size f) v \<noteq> 0
                    then (v AND uvm_mask_size (f_size f), [(UVM_WARNING, ''RegModel'')]) else (v, []));
     r \<leftarrow> m_atomic_check_lock (ae_cur env) True r;
     let r = r\<lparr>r_is_locked_by_field := True\<rparr>;
     (r, st, tmp, h, w1) \<leftarrow> reg_peek env kind r h;
     let tmp = (case tmp of None \<Rightarrow> 0 | Some t \<Rightarrow> t);
     if st = UVM_NOT_OK then do {
       r \<leftarrow> m_atomic_check_lock (ae_cur env) False r;
       Some (r\<lparr>r_is_locked_by_field := False\<rparr>, st, h, w0 @ w1 @ [(UVM_ERROR, ''RegModel'')])
     } else do {
       let tmp = (tmp AND NOT (field_mask f)) OR push_bit (f_lsb f) v;
       (r, st, h, w2) \<leftarrow> reg_poke env tmp kind r h;
       r \<leftarrow> m_atomic_check_lock (ae_cur env) False r;
       Some (r\<lparr>r_is_locked_by_field := False\<rparr>, st, h, w0 @ w1 @ w2)
     }
   }"

definition field_peek ::
  "'h access_env \<Rightarrow> nat \<Rightarrow> string \<Rightarrow> uvm_reg \<Rightarrow> 'h
    \<Rightarrow> (uvm_reg \<times> uvm_status_e \<times> data \<times> 'h \<times> msg list) option" where
  "field_peek env idx kind r h = do {
     (r, st, v, h, ms) \<leftarrow> reg_peek env kind r h;
     let f = r_fields r ! idx;
     let v = (case v of None \<Rightarrow> 0 | Some v \<Rightarrow> v);
     Some (r, st, drop_bit (f_lsb f) v AND uvm_mask_size (f_size f), h, ms)
   }"

definition field_mirror ::
  "'h access_env \<Rightarrow> uvm_check_e \<Rightarrow> uvm_path_e \<Rightarrow> map_id option \<Rightarrow> uvm_status_e \<Rightarrow> uvm_reg \<Rightarrow> 'h
    \<Rightarrow> (uvm_reg \<times> uvm_status_e \<times> 'h \<times> msg list) option" where
  "field_mirror env check path mp st r h = reg_mirror env check path mp st r h"

section \<open>Lemmas\<close>

text \<open>Taking and releasing the lock changes nothing else.\<close>

definition can_lock :: "nat option \<Rightarrow> uvm_reg \<Rightarrow> bool" where
  "can_lock cur r \<longleftrightarrow> cur = None \<or> cur = r_process r \<or> \<not> r_atomic r"

lemma lock_take:
  assumes "can_lock cur r"
  obtains a p q where "m_atomic_check_lock cur True r =
      Some (r\<lparr>r_atomic := a, r_process := p, r_process_valid := q\<rparr>)"
    and "cur = None \<or> cur = p"
proof (cases "cur = None \<or> cur = r_process r")
  case True
  then have "m_atomic_check_lock cur True r =
      Some (r\<lparr>r_atomic := r_atomic r, r_process := r_process r, r_process_valid := (cur \<noteq> None)\<rparr>)"
    by (auto simp: m_atomic_check_lock_def Let_def)
  with that True show ?thesis by blast
next
  case False
  with assms have "m_atomic_check_lock cur True r =
      Some (r\<lparr>r_atomic := True, r_process := cur, r_process_valid := (cur \<noteq> None)\<rparr>)"
    by (auto simp: m_atomic_check_lock_def Let_def can_lock_def)
  with that show ?thesis by blast
qed

lemma lock_again:
  "cur = None \<or> cur = r_process r \<Longrightarrow>
   m_atomic_check_lock cur True r = Some (r\<lparr>r_process_valid := (cur \<noteq> None)\<rparr>)"
  by (auto simp: m_atomic_check_lock_def Let_def)

lemma lock_release [simp]:
  "m_atomic_check_lock cur False r = Some (r\<lparr>r_atomic := False, r_process_valid := False\<rparr>)"
  by (simp add: m_atomic_check_lock_def Let_def)

text \<open>The lookups read nothing of the register but its maps.\<close>

lemma get_local_map_of_cong:
  "r_maps r = r_maps r' \<Longrightarrow> get_local_map_of env r = get_local_map_of env r'"
  by (rule ext) (simp add: get_local_map_of_def)

lemma default_map_loop_cong:
  "r_maps r = r_maps r' \<Longrightarrow> default_map_loop env r ms = default_map_loop env r' ms"
  by (induction ms) (simp_all add: get_local_map_of_cong [of r r'] cong: option.case_cong prod.case_cong)

lemma get_local_map_cong:
  assumes "r_maps r = r_maps r'"
  shows "get_local_map env r mp = get_local_map env r' mp"
proof -
  have loop: "default_map_loop env r = default_map_loop env r'"
    using default_map_loop_cong [OF assms] by (rule ext)
  show ?thesis
    by (simp only: get_local_map_def get_default_map_def loop get_local_map_of_cong [OF assms] assms)
qed

lemma reg_info_cong: "r_maps r = r_maps r' \<Longrightarrow> reg_info r = reg_info r'"
  by (rule ext) (simp add: reg_info_def)

lemma field_view_cong: "r_maps r = r_maps r' \<Longrightarrow> field_view env r mp = field_view env r' mp"
  by (simp add: field_view_def get_rights_def get_local_map_cong [of r r'] reg_info_cong [of r r']
      split: prod.splits option.splits)

lemma m_check_access_cong: "r_maps r = r_maps r' \<Longrightarrow> m_check_access env rw r = m_check_access env rw r'"
  by (simp add: m_check_access_def Let_def get_local_map_cong [of r r'] reg_info_cong [of r r']
      split: prod.splits option.splits)

lemma reg_set_maps [simp]: "r_maps (fst (reg_set v r)) = r_maps r"
  by (simp add: reg_set_def)

text \<open>Hooks that do nothing leave the value alone.\<close>

lemma push_drop_masked: "push_bit l (drop_bit l (v AND push_bit l m)) = v AND push_bit l (m :: data)"
  by (rule bit_eqI) (auto simp: bit_simps)

lemma pre_write_loop_id: "fst (pre_write_loop (\<lambda>_ rw. rw) n fs v rw) = v"
proof (induction fs arbitrary: n rw)
  case (Cons f fs)
  have "(v AND NOT m) OR (v AND m) = v" for m :: data
    by (rule bit_eqI) (auto simp: bit_simps)
  with Cons show ?case by (simp add: Let_def push_drop_masked del: drop_bit_and push_bit_and)
qed simp

lemma pre_write_loop_frame:
  "snd (pre_write_loop (\<lambda>_ rw. rw) n fs v rw) = rw\<lparr>it_value := it_value (snd (pre_write_loop (\<lambda>_ rw. rw) n fs v rw))\<rparr>"
proof (induction fs arbitrary: n rw v)
  case (Cons f fs)
  show ?case
    by (simp add: Let_def) (subst Cons, simp)
qed simp

lemma post_loop_frame:
  "post_loop (\<lambda>_ rw. rw) n fs v rw = rw\<lparr>it_value := it_value (post_loop (\<lambda>_ rw. rw) n fs v rw)\<rparr>"
proof (induction fs arbitrary: n rw)
  case (Cons f fs)
  show ?case by simp (subst Cons, simp)
qed simp

section \<open>The hardware a register model mirrors\<close>

text \<open>
  The abstract register: a value whose fields change on a write as the table of the access
  policies says, each bit by itself.
\<close>

definition hw_field :: "string \<Rightarrow> bool \<Rightarrow> nat \<Rightarrow> data \<Rightarrow> data \<Rightarrow> data" where
  "hw_field acc written n cur wr = horner_sum of_bool 2 (map (spec_write acc written n cur wr) [0..<64])"

definition hw_write :: "map_view \<Rightarrow> reg_field list \<Rightarrow> data \<Rightarrow> data \<Rightarrow> data" where
  "hw_write mv fs v h = compose f_lsb (\<lambda>f. hw_field (fst (get_access mv f)) (f_written f) (f_size f)
     (slice_of (f_lsb f) (f_size f) h) (slice_of (f_lsb f) (f_size f) v)) fs"

lemma bit_hw_field: "bit (hw_field acc written n cur wr) i \<longleftrightarrow> i < 64 \<and> spec_write acc written n cur wr i"
  by (auto simp: hw_field_def bit_horner_sum_bit_word_iff)

lemma m_predict_hw:
  assumes "fits (f_size f) cur" "fits (f_size f) wr"
  shows "m_predict mv f cur wr AND mask (f_size f) =
    hw_field (fst (get_access mv f)) (f_written f) (f_size f) cur wr"
  using m_predict_spec [OF assms]
  by (intro bit_eqI) (auto simp: bit_hw_field dest: bit_data_less)

text \<open>The item an access leaves when the checks pass, and the prediction of a write.\<close>

lemma do_predict_item:
  "kind \<noteq> UVM_PREDICT_DIRECT \<Longrightarrow> fst (snd (do_predict mv busy kind be rw f)) =
    (if it_status rw \<noteq> UVM_NOT_OK then rw\<lparr>it_status := UVM_IS_OK\<rparr> else rw)"
  by (cases kind) (auto simp: do_predict_def Let_def split: prod.splits)

lemma predict_loop_write:
  assumes "\<And>f. f \<in> set fs \<Longrightarrow> be_bit be (f_lsb f)"
    and "it_path rw = UVM_FRONTDOOR" and "it_status rw = UVM_IS_OK"
  shows "\<exists>w ms. predict_loop mv busy UVM_PREDICT_WRITE be v rw fs =
      (map (\<lambda>f. put_mirror (m_predict mv f (f_mirrored f) (slice_of (f_lsb f) (f_size f) v)
         AND mask (f_size f)) (f\<lparr>f_written := True\<rparr>)) fs, rw\<lparr>it_value := w\<rparr>, ms)"
  using assms
proof (induction fs arbitrary: rw)
  case Nil
  show ?case by (intro exI [of _ "it_value rw"]) simp
next
  case (Cons f fs)
  let ?rw = "rw\<lparr>it_value := drop_bit (f_lsb f) v AND mask (f_size f)\<rparr>"
  have be: "be_bit be (f_lsb f) = True" using Cons.prems(1) by simp
  obtain ms where one: "do_predict mv busy UVM_PREDICT_WRITE (be_bit be (f_lsb f)) ?rw f =
      (put_mirror (m_predict mv f (f_mirrored f) (slice_of (f_lsb f) (f_size f) v) AND mask (f_size f))
        (f\<lparr>f_written := True\<rparr>), ?rw, ms)"
    using do_predict_write_front [of ?rw mv busy f] do_predict_item [of UVM_PREDICT_WRITE mv busy True ?rw f]
      Cons.prems(2,3) be
    by (cases "do_predict mv busy UVM_PREDICT_WRITE True ?rw f")
      (auto simp: slice_of_def and.assoc)
  from Cons.IH [of ?rw] Cons.prems obtain w ms' where
    "predict_loop mv busy UVM_PREDICT_WRITE be v ?rw fs =
      (map (\<lambda>f. put_mirror (m_predict mv f (f_mirrored f) (slice_of (f_lsb f) (f_size f) v)
         AND mask (f_size f)) (f\<lparr>f_written := True\<rparr>)) fs, ?rw\<lparr>it_value := w\<rparr>, ms')"
    by auto
  with one show ?case by (auto simp: Let_def)
qed

text \<open>Hooks and callbacks that the user did not define.\<close>

definition no_hooks :: "'h access_env \<Rightarrow> bool" where
  "no_hooks env \<longleftrightarrow>
     ae_field_pre_write env = (\<lambda>_ rw. rw) \<and> ae_field_post_write env = (\<lambda>_ rw. rw)
     \<and> ae_field_pre_read env = (\<lambda>_ rw. rw) \<and> ae_field_post_read env = (\<lambda>_ rw. rw)
     \<and> ae_pre_write env = (\<lambda>rw. rw) \<and> ae_post_write env = (\<lambda>rw. rw)
     \<and> ae_pre_read env = (\<lambda>rw. rw) \<and> ae_post_read env = (\<lambda>rw. rw)"

text \<open>A map through which the bus reaches the register.\<close>

definition reachable :: "'h access_env \<Rightarrow> uvm_reg \<Rightarrow> map_id option \<Rightarrow> map_id \<Rightarrow> bool" where
  "reachable env r mp m \<longleftrightarrow> fst (get_local_map (ae_maps env) r mp) = Some m
     \<and> (\<exists>i. map_of (r_maps r) m = Some i \<and> \<not> mi_frontdoor i \<and> \<not> mi_unmapped i)"

definition item_map :: "map_id option \<Rightarrow> map_id \<Rightarrow> map_id option" where
  "item_map mp m = (if mp = None then Some m else mp)"

lemma m_check_access_front:
  assumes "reachable env r mp m" "it_path rw = UVM_FRONTDOOR" "it_map rw = mp"
  shows "\<exists>i ms. \<not> mi_frontdoor i \<and> m_check_access env rw r =
    (True, rw\<lparr>it_map := item_map mp m, it_local_map := Some m\<rparr>, Some i, ms)"
proof -
  obtain i where i: "map_of (r_maps r) m = Some i" "\<not> mi_frontdoor i" "\<not> mi_unmapped i"
    and l: "fst (get_local_map (ae_maps env) r mp) = Some m"
    using assms(1) by (auto simp: reachable_def)
  then obtain ws where "get_local_map (ae_maps env) r mp = (Some m, ws)" by (metis prod.collapse)
  with i assms(2,3) show ?thesis
    by (auto simp: m_check_access_def resolve_path_def reg_info_def item_map_def Let_def)
qed

text \<open>What a write prediction makes of the fields, and the value composed from them.\<close>

definition written_fields :: "map_view \<Rightarrow> data \<Rightarrow> reg_field list \<Rightarrow> reg_field list" where
  "written_fields mv v fs = map (\<lambda>f. put_mirror (m_predict mv f (f_mirrored f)
     (slice_of (f_lsb f) (f_size f) v) AND mask (f_size f)) (f\<lparr>f_written := True\<rparr>)) fs"

lemma write_frontdoor_hw:
  assumes item: "it_path rw = UVM_FRONTDOOR" "it_local_map rw = Some m"
    and auto: "ae_auto_predict env (root_map (ae_maps env) m)" and i: "\<not> mi_frontdoor i"
    and be: "\<forall>f \<in> set (r_fields r). f_lsb f < 64"
    and bus: "ae_map_write env = (\<lambda>rw h. (rw\<lparr>it_status := UVM_IS_OK\<rparr>, hw (it_value rw) h))"
    and mv: "mv = fst (field_view (ae_maps env) r (it_map rw))"
  shows "\<exists>ms. write_frontdoor env (Some i) rw r h =
    (r\<lparr>r_fields := written_fields mv (it_value rw) (r_fields r), r_is_busy := False\<rparr>,
     rw\<lparr>it_status := UVM_IS_OK\<rparr>, hw (it_value rw) h, ms)"
proof -
  let ?r = "r\<lparr>r_is_busy := False\<rparr>" and ?rw = "rw\<lparr>it_status := UVM_IS_OK\<rparr>"
  have fv: "fst (field_view (ae_maps env) ?r (it_map rw)) = mv"
    unfolding mv by (simp add: field_view_cong [of ?r r])
  have "\<And>f. f \<in> set (r_fields r) \<Longrightarrow> be_bit (- 1) (f_lsb f)" using be by (simp add: be_bit_all)
  then obtain w' ms1 where "predict_loop mv False UVM_PREDICT_WRITE (- 1) (it_value rw) ?rw (r_fields r) =
      (written_fields mv (it_value rw) (r_fields r), ?rw\<lparr>it_value := w'\<rparr>, ms1)"
    using predict_loop_write [of "r_fields r" "- 1" ?rw mv False "it_value rw"] item
    by (auto simp: written_fields_def)
  with fv item auto i show ?thesis
    by (cases "field_view (ae_maps env) ?r (it_map rw)")
      (simp add: write_frontdoor_def front_access_def bus predict_keeping_status_def auto_predict_def
        reg_do_predict_def Let_def)
qed

lemma reg_do_write_front:
  assumes hooks: "no_hooks env" and lock: "ae_cur env = None \<or> ae_cur env = r_process r"
    and map: "reachable env r mp m" and auto: "ae_auto_predict env (root_map (ae_maps env) m)"
    and be: "\<forall>f \<in> set (r_fields r). f_lsb f < 64"
    and bus: "ae_map_write env = (\<lambda>rw h. (rw\<lparr>it_status := UVM_IS_OK\<rparr>, hw (it_value rw) h))"
    and mv: "mv = fst (field_view (ae_maps env) r (item_map mp m))"
    and w: "w = v AND mask (r_n_bits r)"
  shows "\<exists>rw ms. it_status rw = UVM_IS_OK \<and>
    reg_do_write env (new_item UVM_REG UVM_WRITE v UVM_FRONTDOOR mp) r h =
     Some (r\<lparr>r_fields := written_fields mv w (r_fields r), r_is_busy := False,
             r_write_in_progress := False, r_atomic := False, r_process_valid := False\<rparr>, rw, hw w h, ms)"
proof -
  let ?rw = "new_item UVM_REG UVM_WRITE v UVM_FRONTDOOR mp"
  let ?r = "r\<lparr>r_process_valid := ae_cur env \<noteq> None, r_write_in_progress := True\<rparr>"
  obtain i ms0 where chk: "\<not> mi_frontdoor i" "m_check_access env ?rw r =
      (True, ?rw\<lparr>it_map := item_map mp m, it_local_map := Some m\<rparr>, Some i, ms0)"
    using m_check_access_front [OF map, of ?rw] by (auto simp: new_item_def)
  let ?rw2 = "?rw\<lparr>it_map := item_map mp m, it_local_map := Some m, it_value := w, it_status := UVM_IS_OK\<rparr>"
  have fv: "mv = fst (field_view (ae_maps env) ?r (it_map ?rw2))"
    unfolding mv by (subst field_view_cong [of ?r r]) (simp_all add: new_item_def)
  obtain ms1 where front: "write_frontdoor env (Some i) ?rw2 ?r h =
    (?r\<lparr>r_fields := written_fields mv w (r_fields r), r_is_busy := False\<rparr>, ?rw2, hw w h, ms1)"
    using write_frontdoor_hw [OF _ _ auto chk(1) _ bus fv, of h] be by (auto simp: new_item_def)
  obtain x where pre: "pre_write_loop (\<lambda>_ rw. rw) 0 (r_fields r) w ?rw2 = (w, ?rw2\<lparr>it_value := x\<rparr>)"
    using pre_write_loop_id [of 0 "r_fields r" w ?rw2] pre_write_loop_frame [of 0 "r_fields r" w ?rw2]
    by (metis prod.collapse)
  have post: "(post_loop (\<lambda>_ rw. rw) 0 fs u rw)\<lparr>it_value := z, it_element_kind := UVM_REG\<rparr> =
      rw\<lparr>it_value := z, it_element_kind := UVM_REG\<rparr>" for fs u rw z
    by (subst post_loop_frame) simp
  have st: "it_status (post_loop (\<lambda>_ rw. rw) 0 fs u rw) = it_status rw" for fs u rw
    by (subst post_loop_frame) simp
  show ?thesis
    using chk front pre lock w
    by (simp add: reg_do_write_def lock_again Let_def hooks [unfolded no_hooks_def] post st new_item_def)
qed

lemma written_fields_mirror:
  assumes "regs_layout_ok fs" and "\<forall>f \<in> set fs. field_wf f"
  shows "compose f_lsb f_mirrored (written_fields mv v fs) = hw_write mv fs v (compose f_lsb f_mirrored fs)"
proof -
  have "m_predict mv f (f_mirrored f) (slice_of (f_lsb f) (f_size f) v) AND mask (f_size f) =
      hw_field (fst (get_access mv f)) (f_written f) (f_size f)
        (slice_of (f_lsb f) (f_size f) (compose f_lsb f_mirrored fs)) (slice_of (f_lsb f) (f_size f) v)"
    if "f \<in> set fs" for f
    using slice_compose [OF assms(1) that, of f_mirrored] assms(2) that
    by (simp add: field_wf_def m_predict_hw)
  then show ?thesis
    unfolding hw_write_def written_fields_def
    by (subst compose_map) (auto simp: comp_def intro!: compose_cong)
qed

text \<open>\<open>set\<close> changes nothing that the write prediction depends on.\<close>

lemma get_access_cong: "f_access f = f_access g \<Longrightarrow> get_access mv f = get_access mv g"
  by (cases mv) (simp add: get_access.simps)

lemma hw_write_set: "hw_write mv (r_fields (fst (reg_set x r))) v h = hw_write mv (r_fields r) v h"
proof -
  have "get_access mv (fst (field_set busy y f)) = get_access mv f" for busy y f
    by (rule get_access_cong) simp
  then show ?thesis
    unfolding hw_write_def reg_set_def Let_def
    by (simp add: comp_def) (subst compose_map, auto simp: comp_def)
qed

lemma reg_set_wf: "reg_wf r \<Longrightarrow> reg_wf (fst (reg_set v r))"
  by (auto simp: reg_wf_def reg_set_def Let_def comp_def layout_ok_def sorted_wrt_map field_wf_set)

lemma layout_ok_lsb: "regs_layout_ok fs \<Longrightarrow> \<forall>f \<in> set fs. field_wf f \<Longrightarrow> \<forall>f \<in> set fs. f_lsb f < 64"
  by (fastforce simp: layout_ok_def field_wf_def)

lemma reg_mirror_set: "reg_get_mirrored_value (fst (reg_set x r)) = reg_get_mirrored_value r"
  by (simp add: reg_get_mirrored_value_def reg_set_def comp_def compose_map)

text \<open>C1. A frontdoor write keeps the model in step with the hardware: let the bus apply the
  table of the access policies to the register, and let the register mirror the hardware. Then
  \<open>write\<close> through a map that reaches the register, with automatic prediction and no user hooks,
  returns (also when the caller already owns the lock), reports success, leaves mirror and desired value equal to
  the new hardware value, and leaves the lock free and the register idle.\<close>

theorem write_tracks_hardware:
  assumes wf: "reg_wf r" and hooks: "no_hooks env" and lock: "can_lock (ae_cur env) r"
    and map: "reachable env r mp m" and auto: "ae_auto_predict env (root_map (ae_maps env) m)"
    and mv: "mv = fst (field_view (ae_maps env) r (item_map mp m))"
    and bus: "ae_map_write env = (\<lambda>rw h. (rw\<lparr>it_status := UVM_IS_OK\<rparr>, hw_write mv (r_fields r) (it_value rw) h))"
  shows "\<exists>r' ms. reg_write env v UVM_FRONTDOOR mp r (reg_get_mirrored_value r) =
      Some (r', UVM_IS_OK, reg_get_mirrored_value r', ms)
    \<and> reg_get_mirrored_value r' =
        hw_write mv (r_fields r) (v AND mask (r_n_bits r)) (reg_get_mirrored_value r)
    \<and> reg_get r' = reg_get_mirrored_value r' \<and> \<not> r_atomic r' \<and> \<not> r_is_busy r'"
proof -
  let ?w = "v AND mask (r_n_bits r)" and ?h = "reg_get_mirrored_value r"
  obtain a p q where lk: "m_atomic_check_lock (ae_cur env) True r =
      Some (r\<lparr>r_atomic := a, r_process := p, r_process_valid := q\<rparr>)" "ae_cur env = None \<or> ae_cur env = p"
    using lock_take [OF lock] by blast
  let ?r0 = "r\<lparr>r_atomic := a, r_process := p, r_process_valid := q\<rparr>"
  obtain r1 ws where set: "reg_set v ?r0 = (r1, ws)" by fastforce
  then have r1: "r1 = fst (reg_set v ?r0)" by simp
  have frame: "r_maps r1 = r_maps r" "r_process r1 = p" "r_n_bits r1 = r_n_bits r"
    by (simp_all add: r1 reg_set_def)
  have wf1: "reg_wf r1" unfolding r1 by (rule reg_set_wf) (use wf in \<open>simp add: reg_wf_def\<close>)
  have reach: "reachable env r1 mp m"
    using map frame by (simp add: reachable_def get_local_map_cong [of r1 r])
  have view: "mv = fst (field_view (ae_maps env) r1 (item_map mp m))"
    unfolding mv by (subst field_view_cong [of r1 r]) (simp_all add: frame)
  have lsb: "\<forall>f \<in> set (r_fields r1). f_lsb f < 64"
    using layout_ok_lsb [of "r_fields r1"] wf1 by (simp add: reg_wf_def)
  have own: "ae_cur env = None \<or> ae_cur env = r_process r1" using lk(2) frame by simp
  obtain rw ms where wr: "it_status rw = UVM_IS_OK"
    "reg_do_write env (new_item UVM_REG UVM_WRITE v UVM_FRONTDOOR mp) r1 ?h =
     Some (r1\<lparr>r_fields := written_fields mv ?w (r_fields r1), r_is_busy := False,
             r_write_in_progress := False, r_atomic := False, r_process_valid := False\<rparr>, rw,
        hw_write mv (r_fields r) ?w ?h, ms)"
    using reg_do_write_front [OF hooks own reach auto lsb bus view, of ?w v ?h] frame by auto
  have "compose f_lsb f_mirrored (written_fields mv ?w (r_fields r1)) = hw_write mv (r_fields r1) ?w ?h"
    using written_fields_mirror [of "r_fields r1" mv ?w] wf1 reg_mirror_set [of v ?r0]
    by (simp add: reg_wf_def reg_get_mirrored_value_def r1)
  also have "\<dots> = hw_write mv (r_fields r) ?w ?h" unfolding r1 by (simp add: hw_write_set)
  finally have mirror: "compose f_lsb f_mirrored (written_fields mv ?w (r_fields r1)) =
      hw_write mv (r_fields r) ?w ?h" .
  have desired: "compose f_lsb f_desired (written_fields mv ?w fs) = compose f_lsb f_mirrored (written_fields mv ?w fs)" for fs
    unfolding written_fields_def by (simp add: compose_map comp_def)
  show ?thesis
    using lk set wr mirror
    by (simp add: reg_write_def reg_get_mirrored_value_def reg_get_def desired)
qed
section \<open>Reading, poking and field writes\<close>

definition hw_read :: "map_view \<Rightarrow> reg_field list \<Rightarrow> data \<Rightarrow> data" where
  "hw_read mv fs h = compose f_lsb (\<lambda>f.
     let acc = fst (get_access mv f)
     in if clears_on_read acc then 0 else if sets_on_read acc then mask (f_size f)
        else slice_of (f_lsb f) (f_size f) h) fs"

definition hw_value :: "map_view \<Rightarrow> reg_field list \<Rightarrow> data \<Rightarrow> data" where
  "hw_value mv fs h = compose f_lsb (\<lambda>f.
     if no_read (fst (get_access mv f)) then 0 else slice_of (f_lsb f) (f_size f) h) fs"

text \<open>What a read prediction of the value \<open>v\<close> makes of one field.\<close>

definition read_field :: "map_view \<Rightarrow> data \<Rightarrow> reg_field \<Rightarrow> reg_field" where
  "read_field mv v f =
     (let acc = fst (get_access mv f)
      in if clears_on_read acc then put_mirror 0 f
         else if sets_on_read acc then put_mirror (mask (f_size f)) f
         else if no_read acc then f else put_mirror (slice_of (f_lsb f) (f_size f) v) f)"

lemma do_predict_read_front:
  assumes "it_path rw = UVM_FRONTDOOR" "it_value rw = slice_of (f_lsb f) (f_size f) v"
  shows "fst (do_predict mv busy UVM_PREDICT_READ True rw f) = read_field mv v f"
  using assms by (auto simp: do_predict_def read_field_def Let_def slice_of_def and.assoc split: prod.splits)

text \<open>One proof for every kind of prediction: what happens to a field, lifted to the loop.\<close>

lemma predict_loop_map:
  assumes step: "\<And>f w. f \<in> set fs \<Longrightarrow> be_bit be (f_lsb f) \<and>
      fst (do_predict mv busy kind True (rw\<lparr>it_value := slice_of (f_lsb f) (f_size f) v\<rparr>) f) = g f"
    and kind: "kind \<noteq> UVM_PREDICT_DIRECT" and st: "it_status rw = UVM_IS_OK"
  shows "\<exists>w ms. predict_loop mv busy kind be v rw fs = (map g fs, rw\<lparr>it_value := w\<rparr>, ms)"
  using step st
proof (induction fs arbitrary: rw)
  case Nil
  show ?case by (intro exI [of _ "it_value rw"]) simp
next
  case (Cons f fs)
  let ?rw = "rw\<lparr>it_value := drop_bit (f_lsb f) v AND mask (f_size f)\<rparr>"
  have "be_bit be (f_lsb f) = True" "fst (do_predict mv busy kind True ?rw f) = g f"
    using Cons.prems(1) [of f] by (auto simp: slice_of_def)
  then obtain ms where one: "do_predict mv busy kind (be_bit be (f_lsb f)) ?rw f = (g f, ?rw, ms)"
    using do_predict_item [OF kind, of mv busy True ?rw f] Cons.prems(2)
    by (cases "do_predict mv busy kind True ?rw f") auto
  from Cons.IH [of ?rw] Cons.prems obtain w ms' where
    "predict_loop mv busy kind be v ?rw fs = (map g fs, ?rw\<lparr>it_value := w\<rparr>, ms')"
    by auto
  with one show ?case by (auto simp: Let_def)
qed

lemma reg_do_predict_map:
  assumes step: "\<And>f. f \<in> set (r_fields r) \<Longrightarrow> f_lsb f < 64 \<and>
      fst (do_predict (fst (field_view env r (it_map rw))) (r_is_busy r) kind True
        (rw\<lparr>it_status := UVM_IS_OK, it_value := slice_of (f_lsb f) (f_size f) (it_value rw)\<rparr>) f) = g f"
    and kind: "kind \<noteq> UVM_PREDICT_DIRECT"
  shows "\<exists>ms. reg_do_predict env kind (- 1) rw r =
    (r\<lparr>r_fields := map g (r_fields r)\<rparr>, rw\<lparr>it_status := UVM_IS_OK\<rparr>, ms)"
proof -
  let ?rw = "rw\<lparr>it_status := UVM_IS_OK\<rparr>"
  obtain w ms where "predict_loop (fst (field_view env r (it_map rw))) (r_is_busy r) kind (- 1) (it_value rw) ?rw
      (r_fields r) = (map g (r_fields r), ?rw\<lparr>it_value := w\<rparr>, ms)"
    using predict_loop_map [of "r_fields r" "- 1" "fst (field_view env r (it_map rw))" "r_is_busy r" kind
        "it_value rw" ?rw g] step kind by (auto simp: be_bit_all)
  then show ?thesis using kind
    by (cases "field_view env r (it_map rw)") (simp add: reg_do_predict_def Let_def)
qed

lemma do_predict_backdoor:
  assumes "it_path rw = UVM_BACKDOOR" "kind \<noteq> UVM_PREDICT_DIRECT"
  shows "fst (do_predict mv busy kind True rw f) =
    put_mirror (it_value rw AND mask (f_size f)) (if kind = UVM_PREDICT_WRITE then f\<lparr>f_written := True\<rparr> else f)"
  using assms by (cases kind) (auto simp: do_predict_def Let_def and.assoc)

text \<open>The fields after the backdoor was seen to hold \<open>v\<close>.\<close>

definition seen_fields :: "uvm_predict_e \<Rightarrow> data \<Rightarrow> reg_field list \<Rightarrow> reg_field list" where
  "seen_fields kind v fs = map (\<lambda>f. put_mirror (slice_of (f_lsb f) (f_size f) v)
     (if kind = UVM_PREDICT_WRITE then f\<lparr>f_written := True\<rparr> else f)) fs"

lemma reg_do_predict_backdoor:
  assumes "it_path rw = UVM_BACKDOOR" "kind \<noteq> UVM_PREDICT_DIRECT" "\<forall>f \<in> set (r_fields r). f_lsb f < 64"
  shows "\<exists>ms. reg_do_predict env kind (- 1) rw r =
    (r\<lparr>r_fields := seen_fields kind (it_value rw) (r_fields r)\<rparr>, rw\<lparr>it_status := UVM_IS_OK\<rparr>, ms)"
  unfolding seen_fields_def
  by (rule reg_do_predict_map)
    (use assms in \<open>auto simp: do_predict_backdoor slice_of_def and.assoc\<close>)

lemma seen_fields_mirror: "compose f_lsb f_mirrored (seen_fields kind v fs) = v AND layout_mask f_lsb f_size fs"
  unfolding seen_fields_def
  by (rule bit_eqI) (auto simp: bit_compose bit_layout_mask bit_simps slice_of_def)


lemma read_frontdoor_hw:
  assumes item: "it_path rw = UVM_FRONTDOOR" "it_local_map rw = Some m"
    and auto: "ae_auto_predict env (root_map (ae_maps env) m)" and i: "\<not> mi_frontdoor i"
    and lsb: "\<forall>f \<in> set (r_fields r). f_lsb f < 64"
    and bus: "ae_map_read env = (\<lambda>rw h. (rw\<lparr>it_status := UVM_IS_OK, it_value := val h\<rparr>, hw h))"
    and mv: "mv = fst (field_view (ae_maps env) r (it_map rw))"
  shows "\<exists>ms. read_frontdoor env (Some i) rw r h =
    (r\<lparr>r_fields := map (read_field mv (val h)) (r_fields r), r_is_busy := False\<rparr>,
     rw\<lparr>it_status := UVM_IS_OK, it_value := val h\<rparr>, hw h, ms)"
proof -
  let ?r = "r\<lparr>r_is_busy := False\<rparr>" and ?rw = "rw\<lparr>it_status := UVM_IS_OK, it_value := val h\<rparr>"
  have fv: "fst (field_view (ae_maps env) ?r (it_map ?rw)) = mv"
    unfolding mv by (simp add: field_view_cong [of ?r r])
  obtain ms where "reg_do_predict (ae_maps env) UVM_PREDICT_READ (- 1) ?rw ?r =
      (?r\<lparr>r_fields := map (read_field mv (val h)) (r_fields ?r)\<rparr>, ?rw\<lparr>it_status := UVM_IS_OK\<rparr>, ms)"
    using reg_do_predict_map [of ?r "ae_maps env" ?rw UVM_PREDICT_READ "read_field mv (val h)", unfolded fv] lsb item
    by (auto simp: do_predict_read_front)
  with item auto i show ?thesis
    by (auto simp: read_frontdoor_def front_access_def bus predict_keeping_status_def auto_predict_def Let_def)
qed

lemma pre_read_loop_frame:
  "\<exists>k. pre_read_loop (\<lambda>_ rw. rw) n fs rw = rw\<lparr>it_element_kind := k\<rparr>"
proof (induction fs arbitrary: n rw)
  case Nil
  show ?case by (intro exI [of _ "it_element_kind rw"]) simp
next
  case (Cons f fs)
  from Cons [of "Suc n" "rw\<lparr>it_element_kind := UVM_FIELD\<rparr>"] show ?case by auto
qed

lemma reg_do_read_front:
  assumes hooks: "no_hooks env"
    and map: "reachable env r mp m" and auto: "ae_auto_predict env (root_map (ae_maps env) m)"
    and lsb: "\<forall>f \<in> set (r_fields r). f_lsb f < 64"
    and bus: "ae_map_read env = (\<lambda>rw h. (rw\<lparr>it_status := UVM_IS_OK, it_value := val h\<rparr>, hw h))"
    and mv: "mv = fst (field_view (ae_maps env) r (item_map mp m))"
  shows "\<exists>rw ms. it_status rw = UVM_IS_OK \<and> it_value rw = val h \<and>
    reg_do_read env (new_item UVM_REG UVM_READ v UVM_FRONTDOOR mp) r h =
     (r\<lparr>r_fields := map (read_field mv (val h)) (r_fields r), r_is_busy := False,
        r_read_in_progress := False\<rparr>, rw, hw h, ms)"
proof -
  let ?rw = "new_item UVM_REG UVM_READ v UVM_FRONTDOOR mp"
  let ?r = "r\<lparr>r_read_in_progress := True\<rparr>"
  obtain i ms0 where chk: "\<not> mi_frontdoor i" "m_check_access env ?rw r =
      (True, ?rw\<lparr>it_map := item_map mp m, it_local_map := Some m\<rparr>, Some i, ms0)"
    using m_check_access_front [OF map, of ?rw] by (auto simp: new_item_def)
  let ?rw2 = "?rw\<lparr>it_map := item_map mp m, it_local_map := Some m, it_status := UVM_IS_OK\<rparr>"
  have fv: "mv = fst (field_view (ae_maps env) ?r (it_map ?rw2))"
    unfolding mv by (subst field_view_cong [of ?r r]) (simp_all add: new_item_def)
  obtain ms1 where front: "read_frontdoor env (Some i) ?rw2 ?r h =
    (?r\<lparr>r_fields := map (read_field mv (val h)) (r_fields r), r_is_busy := False\<rparr>,
     ?rw2\<lparr>it_value := val h\<rparr>, hw h, ms1)"
    using read_frontdoor_hw [OF _ _ auto chk(1) _ bus fv, of h] lsb by (auto simp: new_item_def)
  obtain k where pre: "pre_read_loop (\<lambda>_ rw. rw) 0 (r_fields r) ?rw2 = ?rw2\<lparr>it_element_kind := k\<rparr>"
    using pre_read_loop_frame by blast
  have st: "it_status (post_loop (\<lambda>_ rw. rw) 0 fs u rw) = it_status rw" for fs u rw
    by (subst post_loop_frame) simp
  show ?thesis
    using chk front pre
    by (simp add: reg_do_read_def Let_def hooks [unfolded no_hooks_def] st new_item_def)
qed

lemma read_field_frame [simp]: "f_lsb (read_field mv v f) = f_lsb f" "f_size (read_field mv v f) = f_size f"
  by (simp_all add: read_field_def Let_def)

lemma fits_hw_value_part:
  "fits (f_size f) (if no_read (fst (get_access mv f)) then 0 else slice_of (f_lsb f) (f_size f) h)"
  by simp

lemma read_mirror:
  assumes ok: "regs_layout_ok fs" and wf: "\<forall>f \<in> set fs. field_wf f"
    and h: "h = compose f_lsb f_mirrored fs"
  shows "compose f_lsb f_mirrored (map (read_field mv (hw_value mv fs h)) fs) = hw_read mv fs h"
proof -
  have "f_mirrored (read_field mv (hw_value mv fs h) f) =
      (let acc = fst (get_access mv f)
       in if clears_on_read acc then 0 else if sets_on_read acc then mask (f_size f)
          else slice_of (f_lsb f) (f_size f) h)" if f: "f \<in> set fs" for f
  proof -
    have "slice_of (f_lsb f) (f_size f) h = f_mirrored f"
      unfolding h using slice_compose [OF ok f, of f_mirrored] wf by (simp add: field_wf_def)
    moreover have "slice_of (f_lsb f) (f_size f) (hw_value mv fs h) =
        (if no_read (fst (get_access mv f)) then 0 else slice_of (f_lsb f) (f_size f) h)"
      unfolding hw_value_def by (rule slice_compose [OF ok f fits_hw_value_part])
    ultimately show ?thesis by (simp add: read_field_def Let_def)
  qed
  then show ?thesis
    unfolding hw_read_def by (subst compose_map) (auto simp: comp_def intro!: compose_cong)
qed

text \<open>C2. A frontdoor read keeps the model in step with the hardware: let the bus return the value
  with the write-only fields read as 0 and let the hardware clear or set its read-sensitive
  fields; then \<open>read\<close> returns that value with success, the mirror equals the new hardware value,
  and the lock is free.\<close>

theorem read_tracks_hardware:
  assumes wf: "reg_wf r" and hooks: "no_hooks env" and lock: "can_lock (ae_cur env) r"
    and map: "reachable env r mp m" and auto: "ae_auto_predict env (root_map (ae_maps env) m)"
    and mv: "mv = fst (field_view (ae_maps env) r (item_map mp m))"
    and bus: "ae_map_read env = (\<lambda>rw h. (rw\<lparr>it_status := UVM_IS_OK, it_value := hw_value mv (r_fields r) h\<rparr>,
      hw_read mv (r_fields r) h))"
    and h: "h = reg_get_mirrored_value r"
  shows "\<exists>r' ms. reg_read env UVM_FRONTDOOR mp r h =
      Some (r', UVM_IS_OK, hw_value mv (r_fields r) h, hw_read mv (r_fields r) h, ms)
    \<and> reg_get_mirrored_value r' = hw_read mv (r_fields r) h \<and> \<not> r_atomic r' \<and> \<not> r_is_busy r'"
proof -
  obtain a p q where lk: "m_atomic_check_lock (ae_cur env) True r =
      Some (r\<lparr>r_atomic := a, r_process := p, r_process_valid := q\<rparr>)"
    using lock_take [OF lock] by blast
  let ?r = "r\<lparr>r_atomic := a, r_process := p, r_process_valid := q\<rparr>"
  have reach: "reachable env ?r mp m"
    using map by (simp add: reachable_def get_local_map_cong [of ?r r])
  have view: "mv = fst (field_view (ae_maps env) ?r (item_map mp m))"
    unfolding mv by (subst field_view_cong [of ?r r]) simp_all
  have "\<forall>f \<in> set (r_fields ?r). f_lsb f < 64"
    using layout_ok_lsb [of "r_fields r"] wf by (simp add: reg_wf_def)
  from reg_do_read_front [OF hooks reach auto this bus view, where v = 0 and h = h]
  obtain rw ms where rd: "it_status rw = UVM_IS_OK" "it_value rw = hw_value mv (r_fields r) h"
    "reg_do_read env (new_item UVM_REG UVM_READ 0 UVM_FRONTDOOR mp) ?r h =
     (?r\<lparr>r_fields := map (read_field mv (hw_value mv (r_fields r) h)) (r_fields r), r_is_busy := False,
        r_read_in_progress := False\<rparr>, rw, hw_read mv (r_fields r) h, ms)"
    by auto
  have "compose f_lsb f_mirrored (map (read_field mv (hw_value mv (r_fields r) h)) (r_fields r)) =
      hw_read mv (r_fields r) h"
    by (rule read_mirror) (use wf h in \<open>simp_all add: reg_wf_def reg_get_mirrored_value_def\<close>)
  with rd lk show ?thesis
    by (simp add: reg_read_def m_read_def reg_get_mirrored_value_def)
qed

text \<open>A map, a register in it, and hardware that follows the policies.\<close>

definition sample_info :: reg_map_info where
  "sample_info = \<lparr>mi_offset = 0, mi_rights = ''RW'', mi_unmapped = False, mi_addr = [0],
     mi_frontdoor = False, mi_initialized = True\<rparr>"

definition mapped_reg :: uvm_reg where
  "mapped_reg = sample_reg\<lparr>r_fields :=
     [(new_field ''lo'')\<lparr>f_access := ''RW'', f_size := 4, f_lsb := 0, f_mirrored := 3, f_desired := 3\<rparr>,
      (new_field ''hi'')\<lparr>f_access := ''W1C'', f_size := 4, f_lsb := 4, f_mirrored := 12, f_desired := 12\<rparr>],
     r_maps := [(Map_Id 0, sample_info)]\<rparr>"

definition sample_env :: "data access_env" where
  "sample_env = \<lparr>ae_maps = no_maps, ae_cur = Some 1, ae_default_path = UVM_FRONTDOOR,
     ae_has_backdoor = True, ae_has_hdl_path = (\<lambda>_. True), ae_user_frontdoor = Pair,
     ae_map_write = (\<lambda>rw h. (rw\<lparr>it_status := UVM_IS_OK\<rparr>,
        hw_write (False, ''RW'') (r_fields mapped_reg) (it_value rw) h)),
     ae_map_read = (\<lambda>rw h. (rw\<lparr>it_status := UVM_IS_OK, it_value := hw_value (False, ''RW'') (r_fields mapped_reg) h\<rparr>,
        hw_read (False, ''RW'') (r_fields mapped_reg) h)),
     ae_back_write = (\<lambda>rw h. (rw, it_value rw)), ae_back_read = (\<lambda>rw h. (rw\<lparr>it_value := h\<rparr>, h)),
     ae_auto_predict = (\<lambda>_. True), ae_check_on_read = (\<lambda>_. False), ae_byte_enable = (\<lambda>_. False),
     ae_n_bytes = (\<lambda>_. 1),
     ae_field_pre_write = (\<lambda>_ rw. rw), ae_field_post_write = (\<lambda>_ rw. rw),
     ae_field_pre_read = (\<lambda>_ rw. rw), ae_field_post_read = (\<lambda>_ rw. rw),
     ae_pre_write = (\<lambda>rw. rw), ae_post_write = (\<lambda>rw. rw), ae_pre_read = (\<lambda>rw. rw), ae_post_read = (\<lambda>rw. rw)\<rparr>"

lemma sample_env_ok:
  "reg_wf mapped_reg" "no_hooks sample_env" "can_lock (ae_cur sample_env) mapped_reg"
  "reachable sample_env mapped_reg None (Map_Id 0)"
  "ae_auto_predict sample_env (root_map (ae_maps sample_env) (Map_Id 0))"
  "(False, ''RW'') = fst (field_view (ae_maps sample_env) mapped_reg (item_map None (Map_Id 0)))"
  by (simp_all add: sample_env_def no_hooks_def mapped_reg_def reg_wf_def field_wf_def new_field_def
      layout_ok_def fits_def mask_numeral can_lock_def sample_reg_def new_reg_def reachable_def
      get_local_map_def get_default_map_def sample_info_def field_view_def get_rights_def reg_info_def
      item_map_def get_local_map_of_def)

lemma sample_env_bus:
  "ae_map_write sample_env = (\<lambda>rw h. (rw\<lparr>it_status := UVM_IS_OK\<rparr>,
     hw_write (False, ''RW'') (r_fields mapped_reg) (it_value rw) h))"
  "ae_map_read sample_env = (\<lambda>rw h. (rw\<lparr>it_status := UVM_IS_OK,
     it_value := hw_value (False, ''RW'') (r_fields mapped_reg) h\<rparr>,
     hw_read (False, ''RW'') (r_fields mapped_reg) h))"
  by (simp_all add: sample_env_def)

lemma mapped_reg_values: "reg_get_mirrored_value mapped_reg = 195"
  by (simp add: mapped_reg_def reg_get_mirrored_value_def compose_def new_field_def)

theorem write_tracks_hardware_witness:
  "\<exists>r' ms. reg_write sample_env 0x4A UVM_FRONTDOOR None mapped_reg 0xC3 = Some (r', UVM_IS_OK, 0x8A, ms)
     \<and> reg_get_mirrored_value r' = 0x8A"
proof -
  have hw: "hw_write (False, ''RW'') (r_fields mapped_reg) (0x4A AND mask (r_n_bits mapped_reg)) 195 = 0x8A"
    by (simp add: hw_write_def hw_field_def mapped_reg_def new_field_def sample_reg_def new_reg_def compose_def
        slice_of_def get_access.simps spec_write_def write_effect_def write_table_def mask_numeral
        upt_rec [of _ "64::nat"])
  show ?thesis
    using write_tracks_hardware [OF sample_env_ok sample_env_bus(1), of "0x4A"] hw
    by (auto simp: mapped_reg_values)
qed

theorem read_tracks_hardware_witness:
  "\<exists>r' ms. reg_read sample_env UVM_FRONTDOOR None mapped_reg 195 = Some (r', UVM_IS_OK, 195, 195, ms)
     \<and> reg_get_mirrored_value r' = 195"
proof -
  have hw: "hw_value (False, ''RW'') (r_fields mapped_reg) 195 = 195"
    "hw_read (False, ''RW'') (r_fields mapped_reg) 195 = 195"
    by (simp_all add: hw_value_def hw_read_def mapped_reg_def new_field_def compose_def
        slice_of_def get_access.simps mask_numeral no_read_def clears_on_read_def sets_on_read_def)
  show ?thesis
    using read_tracks_hardware [OF sample_env_ok sample_env_bus(2) mapped_reg_values [symmetric]] hw
    by auto
qed
text \<open>The value that the write of one field sends to the whole register.\<close>

definition part_written ::
  "(reg_field \<Rightarrow> string) \<Rightarrow> nat \<Rightarrow> data \<Rightarrow> nat \<Rightarrow> reg_field \<Rightarrow> data" where
  "part_written acc idx w j f =
     (if j = idx then w
      else (if acc f \<in> keeps_on_one then mask (f_size f) OR f_mirrored f else f_mirrored f))"

lemma bit_adjust_loop:
  "bit (fst (adjust_loop acc idx w n fs va bad)) i \<longleftrightarrow>
     bit va i \<or> (\<exists>j < length fs. i < 64 \<and> f_lsb (fs ! j) \<le> i
        \<and> bit (part_written acc idx w (n + j) (fs ! j)) (i - f_lsb (fs ! j)))"
proof (induction fs arbitrary: n va bad)
  case (Cons f fs)
  have "(\<exists>j < length (f # fs). P ((f # fs) ! j) (n + j)) \<longleftrightarrow>
      P f n \<or> (\<exists>j < length fs. P (fs ! j) (Suc n + j))" for P :: "reg_field \<Rightarrow> nat \<Rightarrow> bool"
    by (auto simp: less_Suc_eq_0_disj)
  from this [of "\<lambda>g j. i < 64 \<and> f_lsb g \<le> i \<and> bit (part_written acc idx w j g) (i - f_lsb g)"]
  show ?case
    by (auto simp: Cons part_written_def Let_def field_mask_def bit_simps)
qed simp

lemma slice_field_write_value:
  assumes ok: "regs_layout_ok (r_fields r)" and wf: "\<forall>f \<in> set (r_fields r). field_wf f"
    and w: "fits (f_size (r_fields r ! idx)) w" and idx: "idx < length (r_fields r)"
    and j: "j < length (r_fields r)"
  shows "slice_of (f_lsb (r_fields r ! j)) (f_size (r_fields r ! j)) (fst (field_write_value env lm idx w r)) =
    part_written (\<lambda>f. fst (reg_field_access env r lm f)) idx w j (r_fields r ! j)"
proof -
  let ?fs = "r_fields r" and ?p = "part_written (\<lambda>f. fst (reg_field_access env r lm f)) idx w"
  have fits: "fits (f_size (?fs ! k)) (?p k (?fs ! k))" if "k < length ?fs" for k
    using that wf w nth_mem [OF that] by (auto simp: part_written_def field_wf_def)
  have off: "\<not> bit (?p k (?fs ! k)) (f_lsb (?fs ! j) + i - f_lsb (?fs ! k))"
    if k: "k < length ?fs" "k \<noteq> j" "i < f_size (?fs ! j)" "f_lsb (?fs ! k) \<le> f_lsb (?fs ! j) + i" for k i
  proof -
    have "f_lsb (?fs ! k) + f_size (?fs ! k) \<le> f_lsb (?fs ! j)
        \<or> f_lsb (?fs ! j) + f_size (?fs ! j) \<le> f_lsb (?fs ! k)"
      using ok k(1,2) j by (auto simp: layout_ok_def sorted_wrt_iff_nth_less intro: linorder_cases [of k j])
    then have "f_size (?fs ! k) \<le> f_lsb (?fs ! j) + i - f_lsb (?fs ! k)" using k by auto
    then show ?thesis using fits [OF k(1)] by (auto simp: fits_bit)
  qed
  have len: "f_lsb (?fs ! j) + f_size (?fs ! j) \<le> 64" using ok j by (simp add: layout_ok_def)
  show ?thesis
  proof (rule bit_eqI)
    fix i
    have "bit (?p j (?fs ! j)) i \<Longrightarrow> i < f_size (?fs ! j)" using fits [OF j] by (simp add: fits_bit)
    moreover have "(\<exists>k < length ?fs. f_lsb (?fs ! k) \<le> f_lsb (?fs ! j) + i
        \<and> bit (?p k (?fs ! k)) (f_lsb (?fs ! j) + i - f_lsb (?fs ! k))) \<longleftrightarrow> bit (?p j (?fs ! j)) i"
      if "i < f_size (?fs ! j)"
    proof
      assume "bit (?p j (?fs ! j)) i"
      then show "\<exists>k < length ?fs. f_lsb (?fs ! k) \<le> f_lsb (?fs ! j) + i
        \<and> bit (?p k (?fs ! k)) (f_lsb (?fs ! j) + i - f_lsb (?fs ! k))" using j by auto
    next
      assume "\<exists>k < length ?fs. f_lsb (?fs ! k) \<le> f_lsb (?fs ! j) + i
        \<and> bit (?p k (?fs ! k)) (f_lsb (?fs ! j) + i - f_lsb (?fs ! k))"
      then show "bit (?p j (?fs ! j)) i" using off [OF _ _ that] by (metis add_diff_cancel_left')
    qed
    ultimately show "bit (slice_of (f_lsb (?fs ! j)) (f_size (?fs ! j)) (fst (field_write_value env lm idx w r))) i
        \<longleftrightarrow> bit (?p j (?fs ! j)) i"
      using len by (auto simp: bit_slice_of field_write_value_def bit_adjust_loop)
  qed
qed

text \<open>Writing one field through the whole register. The value sent holds the written value in the
  field and in every other field the mirrored value, or all ones for a write-zero policy. So a
  neighbour with policy RW, RO or a write-zero-to-clear/set/toggle policy keeps its value, but a
  W1C or W1T neighbour is cleared or toggled to 0: the code ORs the mirrored value for every
  policy, also where it means to send zeros.\<close>

theorem field_write_neighbours:
  assumes "reg_wf r" "idx < length (r_fields r)" "j < length (r_fields r)" "idx \<noteq> j"
    and "fits (f_size (r_fields r ! idx)) w"
    and "va = fst (field_write_value env lm idx w r)" "g = r_fields r ! j"
    and "mv = fst (field_view env r lm)"
    and "new = m_predict mv g (f_mirrored g) (slice_of (f_lsb g) (f_size g) va)"
  shows "slice_of (f_lsb (r_fields r ! idx)) (f_size (r_fields r ! idx)) va = w
    \<and> (fst (get_access mv g) \<in> {''RW'', ''RO'', ''RC'', ''RS'', ''W0C'', ''W0S'', ''W0T'', ''W1S''} \<longrightarrow>
         new = f_mirrored g)
    \<and> (fst (get_access mv g) \<in> {''W1C'', ''W1T''} \<longrightarrow> new = 0)"
proof -
  have acc: "fst (reg_field_access env r lm g) = fst (get_access mv g)"
    by (simp add: reg_field_access_def assms(8) split: prod.splits)
  have wf: "regs_layout_ok (r_fields r)" "\<forall>f \<in> set (r_fields r). field_wf f"
    using assms(1) by (simp_all add: reg_wf_def)
  have own: "slice_of (f_lsb (r_fields r ! idx)) (f_size (r_fields r ! idx)) va = w"
    using slice_field_write_value [OF wf assms(5,2,2)] by (simp add: assms(6) part_written_def)
  have "slice_of (f_lsb g) (f_size g) va =
      (if fst (get_access mv g) \<in> keeps_on_one then mask (f_size g) OR f_mirrored g else f_mirrored g)"
    using slice_field_write_value [OF wf assms(5,2,3), of env lm] assms(4) acc
    by (simp add: assms(6,7) part_written_def)
  moreover have fit: "f_mirrored g AND mask (f_size g) = f_mirrored g"
    using wf(2) assms(3,7) by (simp add: field_wf_def fits_and_mask_id)
  ultimately show ?thesis using own fit
    by (auto simp: assms(9) m_predict_def keeps_on_one_def bit_eq_iff bit_simps)
qed


theorem field_write_neighbours_witness:
  "m_predict (False, ''RW'') (r_fields mapped_reg ! 1) 12
     (slice_of 4 4 (fst (field_write_value no_maps (Some (Map_Id 0)) 0 5 mapped_reg))) = 0"
proof -
  let ?g = "r_fields mapped_reg ! 1"
  have a: "0 < length (r_fields mapped_reg)" "1 < length (r_fields mapped_reg)" "(0::nat) \<noteq> 1"
    "fits (f_size (r_fields mapped_reg ! 0)) 5"
    by (simp_all add: mapped_reg_def new_field_def fits_def mask_numeral)
  have v: "(False, ''RW'') = fst (field_view no_maps mapped_reg (Some (Map_Id 0)))"
    by (simp add: mapped_reg_def field_view_def get_rights_def get_local_map_def get_local_map_of_def
        reg_info_def sample_info_def)
  have g: "f_mirrored ?g = 12" "f_lsb ?g = 4" "f_size ?g = 4" "fst (get_access (False, ''RW'') ?g) = ''W1C''"
    by (simp_all add: mapped_reg_def new_field_def get_access.simps)
  show ?thesis
    using field_write_neighbours [OF sample_env_ok(1) a refl refl v refl] g by simp
qed

text \<open>A field access that finds no map keeps the lock of its register: \<open>write\<close> of a field
  through a map the register is not in reports \<open>UVM_NOT_OK\<close>, but returns before it releases the
  mutex, so the next access by any other process never returns. The same write of the whole
  register releases it.\<close>

theorem field_write_leaks_lock:
  assumes "ae_cur env = Some a" "\<not> r_atomic r" "r_process r \<noteq> Some a"
    and "fst (get_local_map (ae_maps env) r (Some k)) = None" "b \<noteq> a"
  shows "(\<exists>r' ms. field_write env idx v UVM_FRONTDOOR (Some k) r h = Some (r', UVM_NOT_OK, h, ms)
      \<and> m_atomic_check_lock (Some b) True r' = None)
    \<and> (\<exists>r' ms. reg_write env v UVM_FRONTDOOR (Some k) r h = Some (r', UVM_NOT_OK, h, ms)
      \<and> m_atomic_check_lock (Some b) True r' \<noteq> None)"
proof -
  let ?r = "r\<lparr>r_process_valid := True, r_atomic := True, r_process := Some a\<rparr>"
  have lk: "m_atomic_check_lock (ae_cur env) True r = Some ?r"
    using assms by (simp add: m_atomic_check_lock_def Let_def)
  have none: "fst (get_local_map (ae_maps env) r' (Some k)) = None" if "r_maps r' = r_maps r" for r'
    using assms(4) get_local_map_cong [OF that] by simp
  have chk: "\<exists>rw' ms. m_check_access env (new_item ek UVM_WRITE v UVM_FRONTDOOR (Some k)) r' =
      (False, rw', None, ms) \<and> it_status rw' = UVM_NOT_OK" if "r_maps r' = r_maps r" for r' ek
    using none [OF that]
    by (cases "get_local_map (ae_maps env) r' (Some k)")
      (auto simp: m_check_access_def resolve_path_def new_item_def Let_def)
  have blocked: "m_atomic_check_lock (Some b) True ?r = None"
    using assms(5) by (simp add: m_atomic_check_lock_def Let_def)
  obtain rw' ms where c: "it_status rw' = UVM_NOT_OK"
    "m_check_access env (new_item UVM_FIELD UVM_WRITE v UVM_FRONTDOOR (Some k)) ?r = (False, rw', None, ms)"
    using chk [of ?r UVM_FIELD] by auto
  have "field_write env idx v UVM_FRONTDOOR (Some k) r h = Some (?r, UVM_NOT_OK, h, ms)"
    using c lk by (simp add: field_write_def field_do_write_def field_check_access_def Let_def)
  then have one: "\<exists>r' ms. field_write env idx v UVM_FRONTDOOR (Some k) r h = Some (r', UVM_NOT_OK, h, ms)
      \<and> m_atomic_check_lock (Some b) True r' = None" using blocked by blast
  obtain r1 ws where set: "reg_set v ?r = (r1, ws)" by fastforce
  then have "r_maps r1 = r_maps r" using reg_set_maps [of v ?r] by simp
  from chk [OF this, of UVM_REG] obtain rw2 ms2 where c2: "it_status rw2 = UVM_NOT_OK"
    "m_check_access env (new_item UVM_REG UVM_WRITE v UVM_FRONTDOOR (Some k)) r1 = (False, rw2, None, ms2)"
    by auto
  have "reg_write env v UVM_FRONTDOOR (Some k) r h =
      Some (r1\<lparr>r_atomic := False, r_process_valid := False\<rparr>, UVM_NOT_OK, h, ws @ ms2)"
    using c2 lk set by (simp add: reg_write_def reg_do_write_def Let_def)
  moreover have "m_atomic_check_lock (Some b) True (r1\<lparr>r_atomic := False, r_process_valid := False\<rparr>) \<noteq> None"
    by (simp add: m_atomic_check_lock_def Let_def)
  ultimately show ?thesis using one by blast
qed

theorem field_write_leaks_lock_witness:
  "\<exists>r' ms. field_write sample_env 0 5 UVM_FRONTDOOR (Some (Map_Id 7)) mapped_reg 0 = Some (r', UVM_NOT_OK, 0, ms)
      \<and> m_atomic_check_lock (Some 2) True r' = None"
proof -
  have "ae_cur sample_env = Some 1" "\<not> r_atomic mapped_reg" "r_process mapped_reg \<noteq> Some 1"
    "fst (get_local_map (ae_maps sample_env) mapped_reg (Some (Map_Id 7))) = None" "(2::nat) \<noteq> 1"
    by (simp_all add: sample_env_def mapped_reg_def sample_reg_def new_reg_def get_local_map_def
        get_local_map_of_def no_maps_def)
  from field_write_leaks_lock [OF this, of 0 5 0] show ?thesis by blast
qed

text \<open>Poking a field replaces its bits and no others, for a backdoor that stores the value: the
  other bits of the register (within its width) keep their value in the hardware, the mirror
  shows the new hardware value on the implemented bits, and the lock is free again.\<close>

theorem field_poke_replaces:
  assumes wf: "reg_wf r" and idx: "idx < length (r_fields r)" and f: "f = r_fields r ! idx"
    and lock: "can_lock (ae_cur env) r" "ae_has_backdoor env" "\<not> r_is_locked_by_field r"
    and rd: "ae_back_read env = (\<lambda>rw h. (rw\<lparr>it_value := h\<rparr>, h))"
    and wr: "ae_back_write env = (\<lambda>rw h. (rw, it_value rw))"
    and h': "h' = ((h AND NOT (field_mask f)) OR push_bit (f_lsb f) (v AND mask (f_size f))) AND mask (r_n_bits r)"
  shows "\<exists>r' ms. field_poke env idx v kind r h = Some (r', UVM_IS_OK, h', ms)
    \<and> reg_get_mirrored_value r' = h' AND used_mask r \<and> \<not> r_atomic r' \<and> \<not> r_is_locked_by_field r'"
proof -
  obtain a p q where lk: "m_atomic_check_lock (ae_cur env) True r =
      Some (r\<lparr>r_atomic := a, r_process := p, r_process_valid := q\<rparr>)"
    using lock_take [OF lock(1)] by blast
  let ?r = "r\<lparr>r_atomic := a, r_process := p, r_process_valid := q, r_is_locked_by_field := True\<rparr>"
  have lsb: "\<forall>f \<in> set (r_fields r). f_lsb f < 64"
    using layout_ok_lsb [of "r_fields r"] wf by (simp add: reg_wf_def)
  obtain ms1 where p1: "reg_do_predict (ae_maps env) UVM_PREDICT_READ (- 1) ((backdoor_item UVM_READ 0 kind)\<lparr>it_value := h\<rparr>) ?r =
      (?r\<lparr>r_fields := seen_fields UVM_PREDICT_READ h (r_fields r)\<rparr>,
       (backdoor_item UVM_READ 0 kind)\<lparr>it_value := h, it_status := UVM_IS_OK\<rparr>, ms1)"
    using reg_do_predict_backdoor [of "(backdoor_item UVM_READ 0 kind)\<lparr>it_value := h\<rparr>" UVM_PREDICT_READ ?r "ae_maps env"] lsb
    by (auto simp: backdoor_item_def new_item_def)
  let ?r1 = "?r\<lparr>r_fields := seen_fields UVM_PREDICT_READ h (r_fields r)\<rparr>"
  have lsb1: "\<forall>f \<in> set (seen_fields k x (r_fields r)). f_lsb f < 64" for k x
    using lsb by (auto simp: seen_fields_def)
  obtain ms2 where p2: "reg_do_predict (ae_maps env) UVM_PREDICT_WRITE (- 1) (backdoor_item UVM_WRITE h' kind) ?r1 =
      (?r1\<lparr>r_fields := seen_fields UVM_PREDICT_WRITE h' (seen_fields UVM_PREDICT_READ h (r_fields r))\<rparr>,
       (backdoor_item UVM_WRITE h' kind)\<lparr>it_status := UVM_IS_OK\<rparr>, ms2)"
    using reg_do_predict_backdoor [of "backdoor_item UVM_WRITE h' kind" UVM_PREDICT_WRITE ?r1 "ae_maps env"] lsb1
    by (auto simp: backdoor_item_def new_item_def)
  have lay: "layout_mask f_lsb f_size (seen_fields k x (r_fields r)) = used_mask r" for k x
    by (rule bit_eqI) (auto simp: bit_layout_mask seen_fields_def)
  let ?r2 = "?r1\<lparr>r_fields := seen_fields UVM_PREDICT_WRITE h' (seen_fields UVM_PREDICT_READ h (r_fields r))\<rparr>"
  let ?x = "(h AND NOT (field_mask f)) OR push_bit (f_lsb f) (v AND mask (f_size f))"
  have peek: "reg_peek env kind ?r h = Some (?r1, UVM_IS_OK, Some h, h, ms1)"
    using p1 lock(2) by (simp add: reg_peek_def unless_locked_by_field_def rd) (simp add: backdoor_item_def new_item_def)
  have x: "backdoor_item UVM_WRITE (?x AND mask (r_n_bits r)) kind = backdoor_item UVM_WRITE h' kind"
    by (simp only: h')
  have poke: "reg_poke env ?x kind ?r1 h = Some (?r2, UVM_IS_OK, h', ms2)"
    using p2 lock(2)
    by (simp add: reg_poke_def unless_locked_by_field_def wr Let_def x del: push_bit_and)
      (simp add: backdoor_item_def new_item_def)
  obtain ws where val: "(if drop_bit (f_size f) v \<noteq> 0
      then (v AND uvm_mask_size (f_size f), [(UVM_WARNING, ''RegModel'')]) else (v, [])) = (v AND mask (f_size f), ws)"
    using drop_bit_zero_iff_fits [of "f_size f" v] by (auto simp: fits_and_mask_id)
  have "field_poke env idx v kind r h =
      Some (?r2\<lparr>r_atomic := False, r_process_valid := False, r_is_locked_by_field := False\<rparr>, UVM_IS_OK, h', ws @ ms1 @ ms2)"
    unfolding field_poke_def Let_def f [symmetric] val
    using lk peek poke by (simp del: push_bit_and)
  then show ?thesis
    by (simp add: reg_get_mirrored_value_def seen_fields_mirror lay)
qed

theorem field_poke_replaces_witness:
  "\<exists>r' ms. field_poke sample_env 0 5 '''' mapped_reg 0xC3 = Some (r', UVM_IS_OK, 0xC5, ms)
     \<and> reg_get_mirrored_value r' = 0xC5"
proof -
  have a: "0 < length (r_fields mapped_reg)" "ae_has_backdoor sample_env" "\<not> r_is_locked_by_field mapped_reg"
    "ae_back_read sample_env = (\<lambda>rw h. (rw\<lparr>it_value := h\<rparr>, h))"
    "ae_back_write sample_env = (\<lambda>rw h. (rw, it_value rw))"
    by (simp_all add: mapped_reg_def sample_reg_def new_reg_def sample_env_def)
  have h: "0xC5 = ((0xC3 AND NOT (field_mask (r_fields mapped_reg ! 0))) OR
      push_bit (f_lsb (r_fields mapped_reg ! 0)) (5 AND mask (f_size (r_fields mapped_reg ! 0))))
      AND mask (r_n_bits mapped_reg)"
    "0xC5 AND used_mask mapped_reg = 0xC5"
    by (simp_all add: mapped_reg_def sample_reg_def new_reg_def new_field_def field_mask_def mask_numeral
        layout_mask_def compose_def)
  show ?thesis
    using field_poke_replaces [OF sample_env_ok(1) a(1) refl sample_env_ok(3) a(2-5) h(1), of "''''"] h(2) by auto
qed

end
