(* ===== verification/Reg_Map.thy ===== *)
theory Reg_Map
  imports Reg_Register
begin

text \<open>
  \<open>src/uvmsc/reg/uvm_reg_map.cpp\<close>, addresses: address maps, how they are nested, the physical
  addresses of a register or memory, and the tables that lead from an address back to a register
  or memory. Maps, registers, memories and blocks are named by numbers; what the code asks of a
  register, memory or block is an argument (\<open>map_elems\<close>). The standard containers keyed by
  pointers are association lists in the order of the pointers; the tables keyed by addresses
  are association lists sorted by address. Climbing to the root and descending to the submaps
  take a bound on their depth: \<open>None\<close> means that the bound is not enough (the code does not
  return when the parents form a cycle), that the code divides by zero (a map of width 0, which
  \<open>create_map\<close> and \<open>configure\<close> accept, or a memory of one element) or that it goes on with an
  iterator it has erased. Sequencers, adapters, virtual registers and printing are left out;
  transfers are in \<open>Reg_Bus\<close>.
\<close>

section \<open>State\<close>

record mem_map_info =
  mm_offset :: addr
  mm_rights :: string
  mm_unmapped :: bool
  mm_addr :: "addr list"
  mm_frontdoor :: bool
  mm_min :: addr
  mm_max :: addr
  mm_stride :: uint

text \<open>\<open>uvm_reg_map_addr_range\<close>: the smallest and largest address of a memory and its stride.\<close>

type_synonym addr_range = "addr \<times> addr \<times> uint"

record reg_map =
  rm_block :: "nat option"
  rm_base_addr :: addr
  rm_n_bytes :: nat
  rm_system_n_bytes :: nat
  rm_endian :: uvm_endianness_e
  rm_byte_addressing :: bool
  rm_parent_map :: "nat option"
  rm_submaps :: "(nat \<times> addr) list"
  rm_regs :: "(nat \<times> reg_map_info) list"
  rm_mems :: "(nat \<times> mem_map_info) list"
  rm_regs_by_offset :: "(addr \<times> nat) list"
  rm_regs_by_offset_wo :: "(addr \<times> nat) list"
  rm_mems_by_offset :: "(addr_range \<times> nat) list"
  rm_auto_predict :: bool
  rm_check_on_read :: bool

text \<open>All maps, and the registers that carry the read-only and write-only callbacks.\<close>

record reg_maps =
  mp_map :: "nat \<Rightarrow> reg_map"
  mp_read_only :: "nat set"
  mp_write_only :: "nat set"

record map_elems =
  el_reg_bytes :: "nat \<Rightarrow> nat"
  el_reg_access :: "nat \<Rightarrow> nat \<Rightarrow> string"
  el_reg_block :: "nat \<Rightarrow> nat option"
  el_mem_bytes :: "nat \<Rightarrow> nat"
  el_mem_size :: "nat \<Rightarrow> nat"
  el_mem_block :: "nat \<Rightarrow> nat option"
  el_block_parent :: "nat \<Rightarrow> nat option"
  el_locked :: "nat option \<Rightarrow> bool"

definition set_map :: "nat \<Rightarrow> (reg_map \<Rightarrow> reg_map) \<Rightarrow> reg_maps \<Rightarrow> reg_maps" where
  "set_map m f st = st\<lparr>mp_map := (mp_map st)(m := f (mp_map st m))\<rparr>"

text \<open>\<open>operator[]\<close> of a map: by pointer (a new key goes last) and by address (sorted).\<close>

primrec put_ptr :: "nat \<Rightarrow> 'v \<Rightarrow> (nat \<times> 'v) list \<Rightarrow> (nat \<times> 'v) list" where
  "put_ptr k v [] = [(k, v)]"
| "put_ptr k v (x # xs) = (if fst x = k then (k, v) # xs else x # put_ptr k v xs)"

primrec put_addr :: "addr \<Rightarrow> 'v \<Rightarrow> (addr \<times> 'v) list \<Rightarrow> (addr \<times> 'v) list" where
  "put_addr k v [] = [(k, v)]"
| "put_addr k v (x # xs) =
     (if fst x = k then (k, v) # xs else if k < fst x then (k, v) # x # xs else x # put_addr k v xs)"

definition del_key :: "'k \<Rightarrow> ('k \<times> 'v) list \<Rightarrow> ('k \<times> 'v) list" where
  "del_key k xs = filter (\<lambda>x. fst x \<noteq> k) xs"

section \<open>Construction\<close>

definition new_map :: reg_map where
  "new_map = \<lparr>rm_block = None, rm_base_addr = 0, rm_n_bytes = 0, rm_system_n_bytes = 0,
     rm_endian = UVM_NO_ENDIAN, rm_byte_addressing = False, rm_parent_map = None, rm_submaps = [],
     rm_regs = [], rm_mems = [], rm_regs_by_offset = [], rm_regs_by_offset_wo = [],
     rm_mems_by_offset = [], rm_auto_predict = False, rm_check_on_read = False\<rparr>"

definition map_configure ::
  "nat option \<Rightarrow> addr \<Rightarrow> nat \<Rightarrow> uvm_endianness_e \<Rightarrow> bool \<Rightarrow> reg_map \<Rightarrow> reg_map" where
  "map_configure parent base n_bytes endian byte_addressing m =
     m\<lparr>rm_block := parent, rm_n_bytes := n_bytes, rm_endian := endian, rm_base_addr := base,
       rm_byte_addressing := byte_addressing\<rparr>"

definition map_add_reg ::
  "map_elems \<Rightarrow> nat \<Rightarrow> nat \<Rightarrow> addr \<Rightarrow> string \<Rightarrow> bool \<Rightarrow> bool \<Rightarrow> reg_maps \<Rightarrow> reg_maps \<times> msg list" where
  "map_add_reg el m rg offset rights unmapped frontdoor st =
     (if map_of (rm_regs (mp_map st m)) rg \<noteq> None then (st, [(UVM_ERROR, ''RegModel'')])
      else if el_reg_block el rg \<noteq> rm_block (mp_map st m) then (st, [(UVM_ERROR, ''RegModel'')])
      else
        (let info = \<lparr>mi_offset = offset, mi_rights = rights, mi_unmapped = unmapped, mi_addr = [],
                     mi_frontdoor = frontdoor, mi_initialized = False\<rparr>
         in (set_map m (\<lambda>x. x\<lparr>rm_regs := put_ptr rg info (rm_regs x)\<rparr>) st, [])))"

definition map_add_mem ::
  "map_elems \<Rightarrow> nat \<Rightarrow> nat \<Rightarrow> addr \<Rightarrow> string \<Rightarrow> bool \<Rightarrow> bool \<Rightarrow> reg_maps \<Rightarrow> reg_maps \<times> msg list" where
  "map_add_mem el m mem offset rights unmapped frontdoor st =
     (if map_of (rm_mems (mp_map st m)) mem \<noteq> None then (st, [(UVM_ERROR, ''RegModel'')])
      else if el_mem_block el mem \<noteq> rm_block (mp_map st m) then (st, [(UVM_ERROR, ''RegModel'')])
      else
        (let info = \<lparr>mm_offset = offset, mm_rights = rights, mm_unmapped = unmapped, mm_addr = [],
                     mm_frontdoor = frontdoor, mm_min = 0, mm_max = 0, mm_stride = 0\<rparr>
         in (set_map m (\<lambda>x. x\<lparr>rm_mems := put_ptr mem info (rm_mems x)\<rparr>) st, [])))"

section \<open>The hierarchy of maps\<close>

text \<open>A map and its ancestors, the root last.\<close>

primrec up_chain :: "nat \<Rightarrow> reg_maps \<Rightarrow> nat \<Rightarrow> nat list option" where
  "up_chain 0 st m = None"
| "up_chain (Suc d) st m =
     (case rm_parent_map (mp_map st m) of
        None \<Rightarrow> Some [m]
      | Some p \<Rightarrow> map_option (\<lambda>c. m # c) (up_chain d st p))"

definition get_root_map :: "nat \<Rightarrow> reg_maps \<Rightarrow> nat \<Rightarrow> nat option" where
  "get_root_map d st m = map_option last (up_chain d st m)"

definition get_submap_offset :: "reg_maps \<Rightarrow> nat \<Rightarrow> nat option \<Rightarrow> addr \<times> msg list" where
  "get_submap_offset st m submap =
     (case submap of
        None \<Rightarrow> (- 1, [(UVM_ERROR, ''REG/NULL'')])
      | Some s \<Rightarrow>
          (case map_of (rm_submaps (mp_map st m)) s of
             None \<Rightarrow> (- 1, [(UVM_ERROR, ''RegModel'')])
           | Some offset \<Rightarrow> (offset, [])))"


definition map_n_bytes :: "reg_maps \<Rightarrow> uvm_hier_e \<Rightarrow> nat \<Rightarrow> nat" where
  "map_n_bytes st hier m =
     (if hier = UVM_NO_HIER then rm_n_bytes (mp_map st m) else rm_system_n_bytes (mp_map st m))"

definition get_addr_unit_bytes :: "reg_maps \<Rightarrow> nat \<Rightarrow> nat" where
  "get_addr_unit_bytes st m = (if rm_byte_addressing (mp_map st m) then 1 else rm_n_bytes (mp_map st m))"

text \<open>\<open>get_endian\<close>: the recursion with \<open>UVM_HIER\<close> ends at the root map.\<close>

definition get_endian :: "nat \<Rightarrow> reg_maps \<Rightarrow> uvm_hier_e \<Rightarrow> nat \<Rightarrow> uvm_endianness_e option" where
  "get_endian d st hier m =
     (if hier = UVM_NO_HIER \<or> rm_parent_map (mp_map st m) = None then Some (rm_endian (mp_map st m))
      else map_option (\<lambda>r. rm_endian (mp_map st r)) (get_root_map d st m))"

text \<open>\<open>get_submaps\<close> and \<open>get_registers\<close> of a map and, with \<open>UVM_HIER\<close>, of all maps below it.\<close>

primrec get_submaps :: "nat \<Rightarrow> reg_maps \<Rightarrow> uvm_hier_e \<Rightarrow> nat \<Rightarrow> nat list" where
  "get_submaps 0 st hier m = []"
| "get_submaps (Suc d) st hier m =
     (let subs = map fst (rm_submaps (mp_map st m))
      in subs @ (if hier = UVM_HIER then concat (map (get_submaps d st UVM_HIER) subs) else []))"

primrec get_registers :: "nat \<Rightarrow> reg_maps \<Rightarrow> uvm_hier_e \<Rightarrow> nat \<Rightarrow> nat list" where
  "get_registers 0 st hier m = []"
| "get_registers (Suc d) st hier m =
     (map fst (rm_regs (mp_map st m))
      @ (if hier = UVM_HIER then concat (map (get_registers d st UVM_HIER) (map fst (rm_submaps (mp_map st m)))) else []))"

definition set_auto_predict :: "bool \<Rightarrow> reg_map \<Rightarrow> reg_map" where
  "set_auto_predict on m = m\<lparr>rm_auto_predict := on\<rparr>"

primrec set_check_on_read :: "nat \<Rightarrow> bool \<Rightarrow> nat \<Rightarrow> reg_maps \<Rightarrow> reg_maps" where
  "set_check_on_read 0 on m st = st"
| "set_check_on_read (Suc d) on m st =
     fold (set_check_on_read d on) (map fst (rm_submaps (mp_map st m)))
       (set_map m (\<lambda>x. x\<lparr>rm_check_on_read := on\<rparr>) st)"

section \<open>Physical addresses\<close>

text \<open>
  \<open>get_physical_addresses\<close>. First the addresses in the map itself: \<open>k\<close> words of \<open>bw\<close> bytes from
  the word that holds element \<open>off\<close>, in the order of the endianness. Then each of them is the
  base of an access of \<open>bw\<close> bytes in the parent map. The result is the number of bytes per
  transfer and the addresses. A map is given with its ancestors. \<open>positive_widths\<close> says that no division
  by a width of zero is met on the way: an access of no bytes returns before the first one; any other
  divides by the width of the map or stays within one word of it, and then divides by the width of the parent.
\<close>

definition positive_widths :: "reg_maps \<Rightarrow> nat list \<Rightarrow> nat \<Rightarrow> bool" where
  "positive_widths st chain n \<longleftrightarrow> n = 0 \<or> list_all (\<lambda>m. 0 < rm_n_bytes (mp_map st m)) chain"

definition local_addrs ::
  "uvm_endianness_e \<Rightarrow> nat \<Rightarrow> nat \<Rightarrow> addr \<Rightarrow> addr \<Rightarrow> nat \<Rightarrow> addr list \<times> msg list" where
  "local_addrs endian bw mult base off n =
     (if n \<le> bw then ([base + off * of_nat mult], [])
      else
        (let k = (n - 1) div bw + 1; base = base + off * of_nat (k * mult)
         in case endian of
              UVM_LITTLE_ENDIAN \<Rightarrow> (map (\<lambda>i. base + of_nat (i * mult)) [0..<k], [])
            | UVM_BIG_ENDIAN \<Rightarrow> (map (\<lambda>i. base + of_nat (i * mult)) (rev [0..<k]), [])
            | UVM_LITTLE_FIFO \<Rightarrow> (replicate k base, [])
            | UVM_BIG_FIFO \<Rightarrow> (replicate k base, [])
            | UVM_NO_ENDIAN \<Rightarrow> (replicate k 0, [(UVM_ERROR, ''RegModel'')])))"

primrec phys_addrs :: "reg_maps \<Rightarrow> nat list \<Rightarrow> addr \<Rightarrow> addr \<Rightarrow> nat \<Rightarrow> nat \<times> addr list \<times> msg list" where
  "phys_addrs st [] base off n = (0, [], [])"
| "phys_addrs st (m # ups) base off n =
     (let x = mp_map st m; bw = rm_n_bytes x
      in if n = 0 then (0, [], [(UVM_FATAL, ''RegModel'')])
         else
           (let (loc, ms) = local_addrs (rm_endian x) bw (if rm_byte_addressing x then bw else 1) base off n
            in case ups of
                 [] \<Rightarrow> (bw, map (\<lambda>a. a + rm_base_addr x) loc, ms)
               | u # _ \<Rightarrow>
                   (let ub = rm_n_bytes (mp_map st u); k = (if bw \<ge> ub then (bw - 1) div ub + 1 else 1);
                        (b, ms') = get_submap_offset st u (Some m);
                        rs = map (\<lambda>a. phys_addrs st ups (b + a * of_nat k) 0 bw) loc
                    in (min bw (fst (last rs)), concat (map (\<lambda>r. fst (snd r)) rs),
                        ms @ ms' @ concat (map (\<lambda>r. snd (snd r)) rs)))))"

definition get_physical_addresses ::
  "nat \<Rightarrow> reg_maps \<Rightarrow> nat \<Rightarrow> addr \<Rightarrow> addr \<Rightarrow> nat \<Rightarrow> (nat \<times> addr list \<times> msg list) option" where
  "get_physical_addresses d st m base off n =
     (case up_chain d st m of
        None \<Rightarrow> None
      | Some c \<Rightarrow> if positive_widths st c n then Some (phys_addrs st c base off n) else None)"

section \<open>The address tables\<close>

text \<open>
  One address of a register is entered in the table of the top map. Two registers may share an
  address when one is read-only and the other write-only; else the later one is not entered.
\<close>

definition enter_reg :: "map_elems \<Rightarrow> nat \<Rightarrow> nat \<Rightarrow> nat \<Rightarrow> addr \<Rightarrow> reg_maps \<Rightarrow> reg_maps \<times> msg list" where
  "enter_reg el m tm rg a st =
     (case map_of (rm_regs_by_offset (mp_map st tm)) a of
        None \<Rightarrow> (set_map tm (\<lambda>x. x\<lparr>rm_regs_by_offset := put_addr a rg (rm_regs_by_offset x)\<rparr>) st, [])
      | Some rg2 \<Rightarrow>
          (if el_reg_access el rg m = ''RO'' \<and> el_reg_access el rg2 m = ''WO'' then
             (set_map tm (\<lambda>x. x\<lparr>rm_regs_by_offset := put_addr a rg (rm_regs_by_offset x),
                                 rm_regs_by_offset_wo := put_addr a rg2 (rm_regs_by_offset_wo x)\<rparr>)
                (st\<lparr>mp_read_only := insert rg (mp_read_only st), mp_write_only := insert rg2 (mp_write_only st)\<rparr>), [])
           else if el_reg_access el rg m = ''WO'' \<and> el_reg_access el rg2 m = ''RO'' then
             (set_map tm (\<lambda>x. x\<lparr>rm_regs_by_offset_wo := put_addr a rg (rm_regs_by_offset_wo x)\<rparr>)
                (st\<lparr>mp_write_only := insert rg (mp_write_only st), mp_read_only := insert rg2 (mp_read_only st)\<rparr>), [])
           else (st, [(UVM_WARNING, ''RegModel'')])))"

definition in_range :: "addr \<Rightarrow> addr_range \<Rightarrow> bool" where
  "in_range a r \<longleftrightarrow> (case r of (mn, mx, _) \<Rightarrow> mn \<le> a \<and> a \<le> mx)"

text \<open>A warning for each memory of the table \<open>ms\<close> that covers the address.\<close>

definition mem_clashes :: "(addr_range \<times> nat) list \<Rightarrow> addr \<Rightarrow> msg list" where
  "mem_clashes ms a = replicate (length (filter (\<lambda>x. in_range a (fst x)) ms)) (UVM_WARNING, ''RegModel'')"

primrec enter_reg_loop ::
  "map_elems \<Rightarrow> nat \<Rightarrow> nat \<Rightarrow> nat \<Rightarrow> nat \<Rightarrow> addr list \<Rightarrow> reg_maps \<Rightarrow> reg_maps \<times> msg list" where
  "enter_reg_loop el m tm mems rg [] st = (st, [])"
| "enter_reg_loop el m tm mems rg (a # as) st =
     (let (st, ms) = enter_reg el m tm rg a st;
          ms' = mem_clashes (rm_mems_by_offset (mp_map st mems)) a;
          (st, ms'') = enter_reg_loop el m tm mems rg as st
      in (st, ms @ ms' @ ms''))"

definition set_reg_info :: "nat \<Rightarrow> nat \<Rightarrow> reg_map_info \<Rightarrow> reg_maps \<Rightarrow> reg_maps" where
  "set_reg_info m rg info st = set_map m (\<lambda>x. x\<lparr>rm_regs := put_ptr rg info (rm_regs x)\<rparr>) st"

text \<open>
  \<open>m_init_address_map\<close> for one register of the map \<open>m\<close> (\<open>chain\<close> is the map with its ancestors).
  The clashes with memories are looked up in the table of \<open>m\<close>, which only the top map fills.
  \<open>bw\<close> is the bus width found last.
\<close>

definition init_reg ::
  "map_elems \<Rightarrow> nat list \<Rightarrow> nat \<times> reg_map_info \<Rightarrow> reg_maps \<times> nat \<times> msg list \<Rightarrow> reg_maps \<times> nat \<times> msg list" where
  "init_reg el chain e acc =
     (let (st, bw, ms) = acc; m = hd chain; (rg, info) = e; info = info\<lparr>mi_initialized := True\<rparr>
      in if mi_unmapped info then (set_reg_info m rg info st, bw, ms)
         else
           (let (bw, as, ms1) = phys_addrs st chain (mi_offset info) 0 (el_reg_bytes el rg);
                (st, ms2) = enter_reg_loop el m (last chain) m rg as st
            in (set_reg_info m rg (info\<lparr>mi_addr := as\<rparr>) st, bw, ms @ ms1 @ ms2)))"

definition mem_overlaps :: "addr \<Rightarrow> addr \<Rightarrow> addr_range \<Rightarrow> bool" where
  "mem_overlaps mn mx r \<longleftrightarrow>
     (case r of (rmin, rmax, _) \<Rightarrow>
        (mn \<le> rmax \<and> mx \<ge> rmax) \<or> (mn \<le> rmin \<and> mx \<ge> rmin) \<or> (mn \<ge> rmin \<and> mx \<le> rmax))"

text \<open>
  The range of a memory: the addresses of the first and of the last element. The stride is
  divided by the number of elements minus one: \<open>None\<close> for a memory of one element, and also where
  the computation of the addresses divides by zero or gives none. The stride is kept
  in an \<open>unsigned int\<close>. \<open>min2\<close> is the first address of the first element; \<open>m_set_mem_offset\<close> subtracts
  \<open>max\<close> instead (the argument \<open>moved\<close>).
\<close>

definition mem_range_of ::
  "map_elems \<Rightarrow> bool \<Rightarrow> nat list \<Rightarrow> nat \<Rightarrow> addr \<Rightarrow> reg_maps \<Rightarrow> (nat \<times> addr list \<times> addr_range \<times> msg list) option" where
  "mem_range_of el moved chain mem offset st =
     (let (bw, as, ms1) = phys_addrs st chain offset 0 (el_mem_bytes el mem);
          mn = (if hd as < last as then hd as else last as);
          n = of_nat (el_mem_size el mem) - 1;
          (_, bs, ms2) = phys_addrs st chain offset n (el_mem_bytes el mem);
          mx = (if hd bs > last bs then hd bs else last bs)
      in if \<not> positive_widths st chain (el_mem_bytes el mem) \<or> as = [] \<or> n = 0 then None
         else Some (bw, as, (mn, mx, ucast ((hd bs - (if moved then mx else hd as)) div n)), ms1 @ ms2))"

definition set_mem_info :: "nat \<Rightarrow> nat \<Rightarrow> mem_map_info \<Rightarrow> reg_maps \<Rightarrow> reg_maps" where
  "set_mem_info m mem info st = set_map m (\<lambda>x. x\<lparr>rm_mems := put_ptr mem info (rm_mems x)\<rparr>) st"

text \<open>
  Entering a memory: warnings for the registers in its range and for the memories of the
  table of the map \<open>mems\<close> that overlap; then the range goes to the table of the top map.
\<close>

definition enter_mem ::
  "nat \<Rightarrow> nat \<Rightarrow> nat \<Rightarrow> addr_range \<Rightarrow> reg_maps \<Rightarrow> reg_maps \<times> msg list" where
  "enter_mem tm mems mem r st =
     (let rs = filter (\<lambda>x. in_range (fst x) r) (rm_regs_by_offset (mp_map st tm));
          os = filter (\<lambda>x. mem_overlaps (fst r) (fst (snd r)) (fst x)) (rm_mems_by_offset (mp_map st mems))
      in (set_map tm (\<lambda>x. x\<lparr>rm_mems_by_offset := rm_mems_by_offset x @ [(r, mem)]\<rparr>) st,
          replicate (length rs + length os) (UVM_WARNING, ''RegModel'')))"

definition init_mem ::
  "map_elems \<Rightarrow> nat list \<Rightarrow> nat \<times> mem_map_info \<Rightarrow> (reg_maps \<times> nat \<times> msg list) option \<Rightarrow> (reg_maps \<times> nat \<times> msg list) option"
where
  "init_mem el chain e acc =
     (case acc of
        None \<Rightarrow> None
      | Some (st, bw, ms) \<Rightarrow>
          (let (mem, info) = e; m = hd chain
           in if mm_unmapped info then Some (st, bw, ms)
              else
                (case mem_range_of el False chain mem (mm_offset info) st of
                   None \<Rightarrow> None
                 | Some (bw, as, r, ms1) \<Rightarrow>
                     (let (st, ms2) = enter_mem (last chain) m mem r st;
                          (mn, mx, stride) = r
                      in Some (set_mem_info m mem
                           (info\<lparr>mm_addr := as, mm_min := mn, mm_max := mx, mm_stride := stride\<rparr>) st,
                           bw, ms @ ms1 @ ms2)))))"

definition clear_tables :: "reg_map \<Rightarrow> reg_map" where
  "clear_tables x = x\<lparr>rm_regs_by_offset := [], rm_regs_by_offset_wo := [], rm_mems_by_offset := []\<rparr>"

text \<open>
  The elements of one map, and the bus width that follows from the last of them; \<open>None\<close> when the addresses
  of a mapped register cannot be computed.
\<close>

definition init_own :: "map_elems \<Rightarrow> nat list \<Rightarrow> reg_maps \<Rightarrow> (reg_maps \<times> msg list) option" where
  "init_own el chain st =
     (let m = hd chain; acc = fold (init_reg el chain) (rm_regs (mp_map st m)) (st, 0, [])
      in if list_all (\<lambda>(rg, info). mi_unmapped info \<or> positive_widths st chain (el_reg_bytes el rg)) (rm_regs (mp_map st m))
         then map_option (\<lambda>(st, bw, ms).
                (set_map m (\<lambda>x. x\<lparr>rm_system_n_bytes := (if bw = 0 then rm_n_bytes x else bw)\<rparr>) st, ms))
              (fold (init_mem el chain) (rm_mems (mp_map st m)) (Some acc))
         else None)"

text \<open>
  \<open>m_init_address_map\<close>: the top map clears the tables, the submaps come first. \<open>d\<close> bounds the
  climb to the root, the first argument the descent.
\<close>

primrec m_init_address_map :: "nat \<Rightarrow> nat \<Rightarrow> map_elems \<Rightarrow> nat \<Rightarrow> reg_maps \<Rightarrow> (reg_maps \<times> msg list) option" where
  "m_init_address_map 0 d el m st = None"
| "m_init_address_map (Suc n) d el m st =
     (case up_chain d st m of
        None \<Rightarrow> None
      | Some chain \<Rightarrow>
          (let st = (if rm_parent_map (mp_map st m) = None then set_map m clear_tables st else st)
           in case fold (\<lambda>s acc. case acc of
                           None \<Rightarrow> None
                         | Some (st, ms) \<Rightarrow>
                             map_option (\<lambda>(st, ms'). (st, ms @ ms')) (m_init_address_map n d el s st))
                     (map fst (rm_submaps (mp_map st m))) (Some (st, [])) of
                None \<Rightarrow> None
              | Some (st, ms) \<Rightarrow> map_option (\<lambda>(st, ms'). (st, ms @ ms')) (init_own el chain st)))"

definition get_reg_by_offset :: "map_elems \<Rightarrow> reg_maps \<Rightarrow> nat \<Rightarrow> addr \<Rightarrow> bool \<Rightarrow> nat option \<times> msg list" where
  "get_reg_by_offset el st m offset rd =
     (let x = mp_map st m
      in if \<not> el_locked el (rm_block x) then (None, [(UVM_ERROR, ''RegModel'')])
         else if \<not> rd \<and> map_of (rm_regs_by_offset_wo x) offset \<noteq> None
              then (map_of (rm_regs_by_offset_wo x) offset, [])
         else (map_of (rm_regs_by_offset x) offset, []))"

definition get_mem_by_offset :: "map_elems \<Rightarrow> reg_maps \<Rightarrow> nat \<Rightarrow> addr \<Rightarrow> nat option \<times> msg list" where
  "get_mem_by_offset el st m offset =
     (if \<not> el_locked el (rm_block (mp_map st m)) then (None, [(UVM_ERROR, ''RegModel'')])
      else (map_option snd (find (\<lambda>x. in_range offset (fst x)) (rm_mems_by_offset (mp_map st m))), []))"

section \<open>Nesting and moving\<close>

text \<open>A change of the offsets of a locked model computes the tables of the root anew.\<close>

definition reinit :: "nat \<Rightarrow> map_elems \<Rightarrow> nat \<Rightarrow> reg_maps \<Rightarrow> (reg_maps \<times> msg list) option" where
  "reinit d el m st =
     (if el_locked el (rm_block (mp_map st m)) then
        Option.bind (get_root_map d st m) (\<lambda>r. m_init_address_map d d el r st)
      else Some (st, []))"

definition set_submap_offset ::
  "nat \<Rightarrow> map_elems \<Rightarrow> nat \<Rightarrow> nat option \<Rightarrow> addr \<Rightarrow> reg_maps \<Rightarrow> (reg_maps \<times> msg list) option" where
  "set_submap_offset d el m submap offset st =
     (case submap of
        None \<Rightarrow> Some (st, [(UVM_ERROR, ''REG/NULL'')])
      | Some s \<Rightarrow> reinit d el m (set_map m (\<lambda>x. x\<lparr>rm_submaps := put_ptr s offset (rm_submaps x)\<rparr>) st))"

definition set_base_addr ::
  "nat \<Rightarrow> map_elems \<Rightarrow> nat \<Rightarrow> addr \<Rightarrow> reg_maps \<Rightarrow> (reg_maps \<times> msg list) option" where
  "set_base_addr d el m offset st =
     (case rm_parent_map (mp_map st m) of
        Some p \<Rightarrow> set_submap_offset d el p (Some m) offset st
      | None \<Rightarrow> reinit d el m (set_map m (\<lambda>x. x\<lparr>rm_base_addr := offset\<rparr>) st))"

definition add_parent_map :: "nat \<Rightarrow> nat option \<Rightarrow> addr \<Rightarrow> reg_maps \<Rightarrow> reg_maps \<times> msg list" where
  "add_parent_map m parent offset st =
     (case parent of
        None \<Rightarrow> (st, [(UVM_ERROR, ''RegModel'')])
      | Some p \<Rightarrow>
          if rm_parent_map (mp_map st m) \<noteq> None then (st, [(UVM_ERROR, ''RegModel'')])
          else (set_map p (\<lambda>x. x\<lparr>rm_submaps := put_ptr m offset (rm_submaps x)\<rparr>)
                 (set_map m (\<lambda>x. x\<lparr>rm_parent_map := Some p\<rparr>) st), []))"

definition add_submap ::
  "nat \<Rightarrow> map_elems \<Rightarrow> nat \<Rightarrow> nat option \<Rightarrow> addr \<Rightarrow> reg_maps \<Rightarrow> (reg_maps \<times> msg list) option" where
  "add_submap d el m child offset st =
     (case child of
        None \<Rightarrow> Some (st, [(UVM_ERROR, ''RegModel'')])
      | Some c \<Rightarrow>
          if rm_parent_map (mp_map st c) \<noteq> None then Some (st, [(UVM_ERROR, ''RegModel'')])
          else (case rm_block (mp_map st c) of
                  None \<Rightarrow> Some (st, [(UVM_ERROR, ''RegModel'')])
                | Some b \<Rightarrow>
                    if rm_block (mp_map st m) \<noteq> el_block_parent el b then Some (st, [(UVM_ERROR, ''RegModel'')])
                    else
                      (let ws = (if rm_n_bytes (mp_map st m) > rm_n_bytes (mp_map st c)
                                 then [(UVM_WARNING, ''RegModel'')] else []);
                           (st, ms) = add_parent_map c (Some m) offset st
                       in map_option (\<lambda>(st, ms'). (st, ws @ ms @ ms'))
                            (set_submap_offset d el m (Some c) offset st))))"

text \<open>\<open>m_set_reg_offset\<close> and \<open>m_set_mem_offset\<close>: first the old addresses leave the tables.\<close>

definition leave_reg :: "nat \<Rightarrow> nat \<Rightarrow> addr \<Rightarrow> reg_maps \<Rightarrow> reg_maps" where
  "leave_reg tm rg a st =
     (let x = mp_map st tm
      in case map_of (rm_regs_by_offset_wo x) a of
           None \<Rightarrow> set_map tm (\<lambda>x. x\<lparr>rm_regs_by_offset := del_key a (rm_regs_by_offset x)\<rparr>) st
         | Some w \<Rightarrow>
             (let st = (if map_of (rm_regs_by_offset x) a = Some rg then
                          (set_map tm (\<lambda>x. x\<lparr>rm_regs_by_offset := put_addr a w (rm_regs_by_offset x)\<rparr>) st)
                            \<lparr>mp_read_only := mp_read_only st - {rg}, mp_write_only := mp_write_only st - {w}\<rparr>
                        else st\<lparr>mp_write_only := mp_write_only st - {rg},
                                mp_read_only := mp_read_only st - set_option (map_of (rm_regs_by_offset x) a)\<rparr>)
              in set_map tm (\<lambda>x. x\<lparr>rm_regs_by_offset_wo := del_key a (rm_regs_by_offset_wo x)\<rparr>) st))"

definition m_set_reg_offset ::
  "nat \<Rightarrow> map_elems \<Rightarrow> nat \<Rightarrow> nat \<Rightarrow> addr \<Rightarrow> bool \<Rightarrow> reg_maps \<Rightarrow> (reg_maps \<times> msg list) option" where
  "m_set_reg_offset d el m rg offset unmapped st =
     (case map_of (rm_regs (mp_map st m)) rg of
        None \<Rightarrow> Some (st, [(UVM_ERROR, ''RegModel'')])
      | Some info \<Rightarrow>
          (case up_chain d st m of
             None \<Rightarrow> None
           | Some chain \<Rightarrow>
               if el_locked el (rm_block (mp_map st m)) \<and> \<not> unmapped \<and> \<not> positive_widths st chain (el_reg_bytes el rg)
               then None
               else
                 (let tm = last chain; locked = el_locked el (rm_block (mp_map st m));
                    st = (if locked \<and> \<not> mi_unmapped info then fold (leave_reg tm rg) (mi_addr info) st else st);
                    (st, info, ms) =
                      (if locked \<and> \<not> unmapped then
                         (let (bw, as, ms1) = phys_addrs st chain offset 0 (el_reg_bytes el rg);
                              (st, ms2) = enter_reg_loop el m tm tm rg as st
                          in (st, info\<lparr>mi_addr := as\<rparr>, ms1 @ ms2))
                       else (st, info, []));
                    info = (if unmapped then info\<lparr>mi_offset := - 1, mi_unmapped := True\<rparr>
                            else info\<lparr>mi_offset := offset, mi_unmapped := False\<rparr>)
                in Some (set_reg_info m rg info st, ms))))"

text \<open>
  The loop over the ranges of the top map: when it meets a range of the memory, it erases it from the map and then
  increments the iterator that pointed to it, which is undefined: \<open>None\<close>. It changes nothing otherwise.
\<close>

definition leave_mem :: "nat \<Rightarrow> nat \<Rightarrow> reg_maps \<Rightarrow> reg_maps option" where
  "leave_mem tm mem st =
     (if list_ex (\<lambda>y. snd y = mem) (rm_mems_by_offset (mp_map st tm)) then None else Some st)"

definition m_set_mem_offset ::
  "nat \<Rightarrow> map_elems \<Rightarrow> nat \<Rightarrow> nat \<Rightarrow> addr \<Rightarrow> bool \<Rightarrow> reg_maps \<Rightarrow> (reg_maps \<times> msg list) option" where
  "m_set_mem_offset d el m mem offset unmapped st =
     (case map_of (rm_mems (mp_map st m)) mem of
        None \<Rightarrow> Some (st, [(UVM_ERROR, ''RegModel'')])
      | Some info \<Rightarrow>
          (case up_chain d st m of
             None \<Rightarrow> None
           | Some chain \<Rightarrow>
               (let tm = last chain; locked = el_locked el (rm_block (mp_map st m));
                    place = (\<lambda>info. if unmapped then info\<lparr>mm_offset := - 1, mm_unmapped := True\<rparr>
                                    else info\<lparr>mm_offset := offset, mm_unmapped := False\<rparr>)
                in case (if locked \<and> \<not> mm_unmapped info then leave_mem tm mem st else Some st) of
                     None \<Rightarrow> None
                   | Some st \<Rightarrow>
                       if locked \<and> \<not> unmapped then
                         (case mem_range_of el True chain mem offset st of
                            None \<Rightarrow> None
                          | Some (bw, as, r, ms1) \<Rightarrow>
                              (let (st, ms2) = enter_mem tm tm mem r st; (mn, mx, stride) = r
                               in Some (set_mem_info m mem (place
                                    (info\<lparr>mm_addr := as, mm_min := mn, mm_max := mx, mm_stride := stride\<rparr>)) st,
                                    ms1 @ ms2)))
                       else Some (set_mem_info m mem (place info) st, []))))"

text \<open>
  \<open>get_size\<close>, with \<open>unsigned int\<close> arithmetic, by the bound on the depth. Registers and memories of a
  map of width 0 are a division by zero.
\<close>

primrec get_map_size :: "nat \<Rightarrow> map_elems \<Rightarrow> reg_maps \<Rightarrow> nat \<Rightarrow> uint option" where
  "get_map_size 0 el st m = None"
| "get_map_size (Suc d) el st m =
     (let x = mp_map st m; n = rm_n_bytes x;
          regs = map (\<lambda>(rg, i). ucast (mi_offset i + of_nat ((el_reg_bytes el rg - 1) div n))) (rm_regs x);
          mems = map (\<lambda>(mem, i). ucast (mm_offset i
                   + of_nat (el_mem_size el mem * ((el_mem_bytes el mem - 1) div n + 1)) - 1)) (rm_mems x)
      in if n = 0 \<and> (rm_regs x \<noteq> [] \<or> rm_mems x \<noteq> []) then None
         else map_option (\<lambda>subs. fold max (regs @ mems @ subs) 0 + 1)
                (those (map (\<lambda>(s, o'). map_option (\<lambda>k. ucast o' + k) (get_map_size d el st s)) (rm_submaps x))))"

section \<open>Lookups in the containers\<close>

named_theorems reg_map_simps

lemma map_of_put_ptr [reg_map_simps]: "map_of (put_ptr k v xs) = (map_of xs)(k \<mapsto> v)"
  by (induction xs) (auto simp: fun_eq_iff)

lemma map_of_put_addr [reg_map_simps]: "map_of (put_addr k v xs) = (map_of xs)(k \<mapsto> v)"
  by (induction xs) (auto simp: fun_eq_iff)

lemma map_of_del_key [reg_map_simps]: "map_of (del_key k xs) = (map_of xs)(k := None)"
  by (induction xs) (auto simp: fun_eq_iff del_key_def)

lemma mp_map_set_map [reg_map_simps]: "mp_map (set_map m f st) = (mp_map st)(m := f (mp_map st m))"
  by (simp add: set_map_def)


lemma put_ptr_same: "map_of xs k \<noteq> None \<Longrightarrow> map fst (put_ptr k v xs) = map fst xs"
  by (induction xs) (auto split: if_splits)

section \<open>How many addresses\<close>

lemma local_addrs_length:
  assumes "0 < bw" "0 < n"
  shows "length (fst (local_addrs endian bw mult base off n)) = (n - 1) div bw + 1"
  using assms by (auto simp: local_addrs_def Let_def not_le split: uvm_endianness_e.splits)

lemma local_addrs_ne: "0 < bw \<Longrightarrow> 0 < n \<Longrightarrow> fst (local_addrs endian bw mult base off n) \<noteq> []"
  using local_addrs_length [of bw n endian mult base off] by fastforce

text \<open>
  In a chain of maps of positive width, every access has as many addresses as any other of the
  same size, the width is that of the narrowest map, and the addresses cover all bytes.
\<close>

definition words_of :: "nat \<Rightarrow> nat \<Rightarrow> nat" where
  "words_of bw n = (n - 1) div bw + 1"

primrec chain_words :: "reg_maps \<Rightarrow> nat list \<Rightarrow> nat \<Rightarrow> nat" where
  "chain_words st [] n = 1"
| "chain_words st (m # ups) n =
     words_of (rm_n_bytes (mp_map st m)) n * chain_words st ups (rm_n_bytes (mp_map st m))"

lemma words_of_cover: "0 < bw \<Longrightarrow> n \<le> words_of bw n * bw"
proof -
  assume "0 < bw"
  then have "n - 1 < ((n - 1) div bw + 1) * bw" using dividend_less_div_times [of bw "n - 1"] by simp
  then show ?thesis by (simp add: words_of_def)
qed

lemma chain_words_pos: "0 < chain_words st c n"
  by (induction c arbitrary: n) (simp_all add: words_of_def)

lemma length_concat_const: "(\<And>x. x \<in> set xs \<Longrightarrow> length (f x) = k) \<Longrightarrow> length (concat (map f xs)) = length xs * k"
  by (induction xs) auto

lemma phys_addrs_width:
  assumes "c \<noteq> []" "\<forall>m \<in> set c. 0 < rm_n_bytes (mp_map st m)" "0 < n"
  shows "fst (phys_addrs st c base off n) = Min ((\<lambda>m. rm_n_bytes (mp_map st m)) ` set c)
    \<and> length (fst (snd (phys_addrs st c base off n))) = chain_words st c n"
  using assms
proof (induction c arbitrary: base off n)
  case (Cons m ups)
  let ?bw = "rm_n_bytes (mp_map st m)"
  let ?loc = "local_addrs (rm_endian (mp_map st m)) ?bw (if rm_byte_addressing (mp_map st m) then ?bw else 1) base off n"
  obtain loc ms where loc: "?loc = (loc, ms)" by fastforce
  have len: "length loc = words_of ?bw n" "loc \<noteq> []"
    using local_addrs_length [of ?bw n] local_addrs_ne [of ?bw n] Cons.prems loc by (auto simp: words_of_def) (metis fst_conv)+
  show ?case
  proof (cases ups)
    case Nil
    with loc len Cons.prems show ?thesis by (simp add: Let_def)
  next
    case (Cons u us)
    have IH: "fst (phys_addrs st ups b 0 ?bw) = Min ((\<lambda>m. rm_n_bytes (mp_map st m)) ` set ups)"
        "length (fst (snd (phys_addrs st ups b 0 ?bw))) = chain_words st ups ?bw" for b
      using Cons.IH [of ?bw b 0] Cons.prems Cons by simp_all
    let ?res = "\<lambda>a. phys_addrs st ups (fst (get_submap_offset st u (Some m)) + a *
      of_nat (if ?bw \<ge> rm_n_bytes (mp_map st u) then (?bw - 1) div rm_n_bytes (mp_map st u) + 1 else 1)) 0 ?bw"
    have eq: "fst (phys_addrs st (m # ups) base off n) = min ?bw (fst (last (map ?res loc)))"
        "fst (snd (phys_addrs st (m # ups) base off n)) = concat (map (\<lambda>a. fst (snd (?res a))) loc)"
      using loc Cons Cons.prems(3) by (simp_all add: Let_def split_beta comp_def)
    have "fst (last (map ?res loc)) = Min ((\<lambda>m. rm_n_bytes (mp_map st m)) ` set ups)"
      using len(2) by (simp add: last_map IH)
    then have "fst (phys_addrs st (m # ups) base off n) = Min ((\<lambda>m. rm_n_bytes (mp_map st m)) ` set (m # ups))"
      unfolding eq using Cons by simp
    moreover have "length (fst (snd (phys_addrs st (m # ups) base off n))) = chain_words st (m # ups) n"
      unfolding eq by (subst length_concat_const [of _ _ "chain_words st ups ?bw"]) (simp_all add: IH len)
    ultimately show ?thesis by blast
  qed
qed simp

lemma chain_words_cover:
  assumes "c \<noteq> []" "\<forall>m \<in> set c. 0 < rm_n_bytes (mp_map st m)"
  shows "n \<le> chain_words st c n * Min ((\<lambda>m. rm_n_bytes (mp_map st m)) ` set c)"
  using assms
proof (induction c arbitrary: n)
  case (Cons m ups)
  let ?bw = "rm_n_bytes (mp_map st m)" and ?w = "\<lambda>c. Min ((\<lambda>m. rm_n_bytes (mp_map st m)) ` set c)"
  have own: "n \<le> words_of ?bw n * ?bw" using words_of_cover Cons.prems by simp
  show ?case
  proof (cases ups)
    case Nil
    with own show ?thesis by simp
  next
    case (Cons u us)
    have up: "?bw \<le> chain_words st ups ?bw * ?w ups" using Cons.IH [of ?bw] Cons.prems Cons by simp
    have "?bw \<le> chain_words st ups ?bw * min ?bw (?w ups)"
      using up chain_words_pos [of st ups ?bw] by (cases "?bw \<le> ?w ups") (simp_all add: min_def)
    then have "words_of ?bw n * ?bw \<le> words_of ?bw n * (chain_words st ups ?bw * min ?bw (?w ups))"
      by (rule mult_le_mono2)
    also have "\<dots> = chain_words st (m # ups) n * ?w (m # ups)" using Cons by simp
    finally show ?thesis using own by linarith
  qed
qed simp

section \<open>What address computation reads\<close>

definition shape_of :: "reg_map \<Rightarrow> nat option \<times> addr \<times> nat \<times> uvm_endianness_e \<times> bool \<times> nat option \<times> (nat \<times> addr) list" where
  "shape_of x = (rm_block x, rm_base_addr x, rm_n_bytes x, rm_endian x, rm_byte_addressing x, rm_parent_map x, rm_submaps x)"

definition elems_of :: "reg_map \<Rightarrow> (nat \<times> addr \<times> bool) list \<times> (nat \<times> addr \<times> bool) list" where
  "elems_of x = (map (\<lambda>(k, i). (k, mi_offset i, mi_unmapped i)) (rm_regs x),
                 map (\<lambda>(k, i). (k, mm_offset i, mm_unmapped i)) (rm_mems x))"

definition same_shape :: "reg_maps \<Rightarrow> reg_maps \<Rightarrow> bool" where
  "same_shape st st' \<longleftrightarrow> (\<forall>m. shape_of (mp_map st m) = shape_of (mp_map st' m))"

lemma same_shape_refl [simp]: "same_shape st st"
  by (simp add: same_shape_def)

lemma same_shape_sym: "same_shape st st' \<Longrightarrow> same_shape st' st"
  by (simp add: same_shape_def)

lemma same_shape_trans: "same_shape st st' \<Longrightarrow> same_shape st' st'' \<Longrightarrow> same_shape st st''"
  by (simp add: same_shape_def)

lemma same_shape_fields:
  assumes "same_shape st st'"
  shows "rm_block (mp_map st' m) = rm_block (mp_map st m)" "rm_base_addr (mp_map st' m) = rm_base_addr (mp_map st m)"
    "rm_n_bytes (mp_map st' m) = rm_n_bytes (mp_map st m)" "rm_endian (mp_map st' m) = rm_endian (mp_map st m)"
    "rm_byte_addressing (mp_map st' m) = rm_byte_addressing (mp_map st m)"
    "rm_parent_map (mp_map st' m) = rm_parent_map (mp_map st m)" "rm_submaps (mp_map st' m) = rm_submaps (mp_map st m)"
  using assms by (simp_all add: same_shape_def shape_of_def)

lemma up_chain_cong: "same_shape st st' \<Longrightarrow> up_chain d st' m = up_chain d st m"
  by (induction d arbitrary: m) (simp_all add: same_shape_fields split: option.splits)

lemma phys_addrs_cong:
  assumes "same_shape st st'"
  shows "phys_addrs st' c base off n = phys_addrs st c base off n"
proof (induction c arbitrary: base off n)
  case (Cons m ups)
  note F = same_shape_fields [OF assms]
  show ?case
  proof (cases ups)
    case (Cons u us)
    note IH = Cons.IH [unfolded Cons]
    show ?thesis
      unfolding Cons phys_addrs.simps(2) [of _ m] get_submap_offset_def
      by (simp add: F IH Let_def split_beta del: phys_addrs.simps)
  qed (simp add: F Let_def)
qed simp

lemma same_shape_set_map [intro]:
  "shape_of (f (mp_map st m)) = shape_of (mp_map st m) \<Longrightarrow> same_shape st (set_map m f st)"
  by (simp add: same_shape_def set_map_def)

lemma shape_updates [simp]:
  "shape_of (x\<lparr>rm_regs := a\<rparr>) = shape_of x" "shape_of (x\<lparr>rm_mems := b\<rparr>) = shape_of x"
  "shape_of (x\<lparr>rm_regs_by_offset := c\<rparr>) = shape_of x" "shape_of (x\<lparr>rm_regs_by_offset_wo := c\<rparr>) = shape_of x"
  "shape_of (x\<lparr>rm_mems_by_offset := e\<rparr>) = shape_of x" "shape_of (x\<lparr>rm_system_n_bytes := k\<rparr>) = shape_of x"
  "shape_of (clear_tables x) = shape_of x"
  by (simp_all add: shape_of_def clear_tables_def)

lemma same_shape_callbacks [simp]: "same_shape st (st\<lparr>mp_read_only := r, mp_write_only := w\<rparr>)"
  by (simp add: same_shape_def)

lemma mp_map_callbacks [simp]: "mp_map (st\<lparr>mp_read_only := r, mp_write_only := w\<rparr>) = mp_map st"
  by simp

lemma shape_enter_reg: "same_shape st (fst (enter_reg el m tm rg a st))"
  by (auto simp: enter_reg_def same_shape_def set_map_def split: option.splits)

lemma shape_enter_reg_loop: "same_shape st (fst (enter_reg_loop el m tm mems rg as st))"
proof (induction as arbitrary: st)
  case (Cons a as)
  show ?case
    using same_shape_trans [OF shape_enter_reg Cons.IH] by (simp add: split_beta Let_def)
qed simp

lemma shape_set_info [simp]: "same_shape st (set_reg_info m rg i st)" "same_shape st (set_mem_info m mem j st)"
  by (auto simp: set_reg_info_def set_mem_info_def)

lemma shape_init_reg: "same_shape st (fst (init_reg el chain e (st, bw, ms)))"
proof -
  have "same_shape st (set_reg_info (hd chain) (fst e) i (fst (enter_reg_loop el m tm mems rg as st)))" for i m tm mems rg as
    by (rule same_shape_trans [rotated], rule shape_set_info, rule shape_enter_reg_loop)
  then show ?thesis by (simp add: init_reg_def split_beta Let_def)
qed

lemma shape_fold_init_reg: "same_shape st (fst (fold (init_reg el chain) es (st, bw, ms)))"
proof (induction es arbitrary: st bw ms)
  case (Cons e es)
  obtain st' bw' ms' where e: "init_reg el chain e (st, bw, ms) = (st', bw', ms')" by (metis surj_pair)
  with shape_init_reg [of st el chain e bw ms] Cons.IH [of st' bw' ms'] show ?case
    by (simp add: e same_shape_trans)
qed simp

lemma shape_enter_mem: "same_shape st (fst (enter_mem tm mems mem r st))"
  by (auto simp: enter_mem_def Let_def)

lemma shape_init_mem:
  assumes "init_mem el chain e (Some (st, bw, ms)) = Some (st', bw', ms')"
  shows "same_shape st st'"
proof -
  have "same_shape st (set_mem_info m mem i (fst (enter_mem tm mems mem r st)))" for i m tm mems mem r
    by (rule same_shape_trans [rotated], rule shape_set_info, rule shape_enter_mem)
  then show ?thesis using assms
    by (auto simp: init_mem_def split_beta Let_def split: if_splits option.splits)
qed

lemma fold_init_mem_None [simp]: "fold (init_mem el chain) es None = None"
  by (induction es) (simp_all add: init_mem_def)

lemma shape_fold_init_mem:
  "fold (init_mem el chain) es (Some (st, bw, ms)) = Some (st', bw', ms') \<Longrightarrow> same_shape st st'"
proof (induction es arbitrary: st bw ms)
  case (Cons e es)
  then obtain s b m where e: "init_mem el chain e (Some (st, bw, ms)) = Some (s, b, m)"
    by (cases "init_mem el chain e (Some (st, bw, ms))") auto
  with Cons show ?case using same_shape_trans [OF shape_init_mem [OF e]] by simp
qed simp

lemma shape_init_own:
  assumes "init_own el chain st = Some (st', ms)"
  shows "same_shape st st'"
proof -
  obtain s b w where r: "fold (init_reg el chain) (rm_regs (mp_map st (hd chain))) (st, 0, []) = (s, b, w)" by (metis surj_pair)
  with assms obtain s' b' w' where m: "fold (init_mem el chain) (rm_mems (mp_map st (hd chain))) (Some (s, b, w)) = Some (s', b', w')"
      and st': "st' = set_map (hd chain) (\<lambda>x. x\<lparr>rm_system_n_bytes := (if b' = 0 then rm_n_bytes x else b')\<rparr>) s'"
    by (auto simp: init_own_def Let_def split: if_splits)
  have "same_shape st s" using shape_fold_init_reg [of st el chain _ 0 "[]"] r by (metis fst_conv)
  moreover have "same_shape s' st'" unfolding st' by auto
  ultimately show ?thesis using shape_fold_init_mem [OF m] by (blast intro: same_shape_trans)
qed

text \<open>The loop over the submaps of \<open>m_init_address_map\<close>.\<close>

definition init_subs ::
  "nat \<Rightarrow> nat \<Rightarrow> map_elems \<Rightarrow> nat list \<Rightarrow> (reg_maps \<times> msg list) option \<Rightarrow> (reg_maps \<times> msg list) option" where
  "init_subs n d el ss acc =
     fold (\<lambda>s acc. case acc of
             None \<Rightarrow> None
           | Some (st, ms) \<Rightarrow> map_option (\<lambda>(st, ms'). (st, ms @ ms')) (m_init_address_map n d el s st)) ss acc"

lemma init_subs_None [simp]: "init_subs n d el ss None = None"
  by (induction ss) (simp_all add: init_subs_def)

lemma init_subs_Nil [simp]: "init_subs n d el [] acc = acc"
  by (simp add: init_subs_def)

lemma init_subs_Cons: "init_subs n d el (s # ss) (Some (st, ms)) =
    (case m_init_address_map n d el s st of None \<Rightarrow> None
     | Some (st', ms') \<Rightarrow> init_subs n d el ss (Some (st', ms @ ms')))"
  using init_subs_None [of n d el ss] by (simp add: init_subs_def split: option.splits)

lemma m_init_Suc: "m_init_address_map (Suc n) d el m st =
    (case up_chain d st m of
       None \<Rightarrow> None
     | Some chain \<Rightarrow>
         Option.bind (init_subs n d el (map fst (rm_submaps (mp_map st m)))
             (Some (if rm_parent_map (mp_map st m) = None then set_map m clear_tables st else st, [])))
           (\<lambda>(st', ms). map_option (\<lambda>(st'', ms'). (st'', ms @ ms')) (init_own el chain st')))"
proof -
  have "rm_submaps (mp_map (set_map m clear_tables st) m) = rm_submaps (mp_map st m)"
    by (simp add: mp_map_set_map clear_tables_def)
  then show ?thesis
    by (simp add: init_subs_def Let_def Option.bind_def case_prod_unfold split: option.splits)
qed

lemma shape_m_init:
  "m_init_address_map n d el m st = Some (st', ms) \<Longrightarrow> same_shape st st'"
proof (induction n arbitrary: m st st' ms)
  case (Suc n)
  have subs: "init_subs n d el ss (Some (s, w)) = Some (s', w') \<Longrightarrow> same_shape s s'" for ss s w s' w'
  proof (induction ss arbitrary: s w)
    case (Cons x xs)
    then obtain s1 w1 where 1: "m_init_address_map n d el x s = Some (s1, w1)" by (auto simp: init_subs_Cons split: option.splits)
    with Cons Suc.IH [OF 1] show ?case by (auto simp: init_subs_Cons intro: same_shape_trans)
  qed simp
  let ?s = "if rm_parent_map (mp_map st m) = None then set_map m clear_tables st else st"
  have 0: "same_shape st ?s" by auto
  from Suc.prems obtain chain s' w' ms' where "init_subs n d el (map fst (rm_submaps (mp_map st m))) (Some (?s, [])) = Some (s', w')"
      "init_own el chain s' = Some (st', ms')"
    unfolding m_init_Suc by (auto split: option.splits simp: bind_eq_Some_conv)
  with subs shape_init_own 0 show ?case by (blast intro: same_shape_trans)
qed simp

lemma shape_init_subs: "init_subs n d el ss (Some (s, w)) = Some (s', w') \<Longrightarrow> same_shape s s'"
proof (induction ss arbitrary: s w)
  case (Cons x xs)
  then obtain s1 w1 where 1: "m_init_address_map n d el x s = Some (s1, w1)" by (auto simp: init_subs_Cons split: option.splits)
  with Cons shape_m_init [OF 1] show ?case by (auto simp: init_subs_Cons intro: same_shape_trans)
qed simp

declare m_init_address_map.simps(2) [simp del]

section \<open>Climbing and descending end\<close>

text \<open>
  The maps follow the hierarchy of blocks: the parent of a map belongs to the parent of its block. So a
  rank of the blocks (a number that is smaller for the parent block) ranks the maps.
\<close>

definition map_tree :: "map_elems \<Rightarrow> reg_maps \<Rightarrow> bool" where
  "map_tree el st \<longleftrightarrow>
     (\<forall>m p. rm_parent_map (mp_map st m) = Some p \<longrightarrow>
        (\<exists>b. rm_block (mp_map st m) = Some b \<and> rm_block (mp_map st p) = el_block_parent el b))
     \<and> (\<forall>m. \<forall>s \<in> fst ` set (rm_submaps (mp_map st m)). rm_parent_map (mp_map st s) = Some m)"

definition block_ranks :: "map_elems \<Rightarrow> (nat \<Rightarrow> nat) \<Rightarrow> nat \<Rightarrow> bool" where
  "block_ranks el br d \<longleftrightarrow> (\<forall>b. Suc (br b) < d) \<and> (\<forall>b p. el_block_parent el b = Some p \<longrightarrow> br p < br b)"

definition map_rank :: "(nat \<Rightarrow> nat) \<Rightarrow> reg_maps \<Rightarrow> nat \<Rightarrow> nat" where
  "map_rank br st m = (case rm_block (mp_map st m) of None \<Rightarrow> 0 | Some b \<Rightarrow> Suc (br b))"

lemma map_tree_cong: "same_shape st st' \<Longrightarrow> map_tree el st' = map_tree el st"
  by (simp add: map_tree_def same_shape_fields)

lemma map_rank_cong: "same_shape st st' \<Longrightarrow> map_rank br st' m = map_rank br st m"
  by (simp add: map_rank_def same_shape_fields)

lemma map_rank_parent:
  assumes "map_tree el st" "block_ranks el br d" "rm_parent_map (mp_map st m) = Some p"
  shows "map_rank br st p < map_rank br st m"
proof -
  obtain b where "rm_block (mp_map st m) = Some b" "rm_block (mp_map st p) = el_block_parent el b"
    using assms(1,3) unfolding map_tree_def by blast
  then show ?thesis using assms(2) by (cases "el_block_parent el b") (auto simp: map_rank_def block_ranks_def)
qed

lemma map_rank_bound: "block_ranks el br d \<Longrightarrow> 0 < d \<Longrightarrow> map_rank br st m < d"
  by (auto simp: map_rank_def block_ranks_def split: option.splits)

lemma up_chain_some:
  assumes "map_tree el st" "block_ranks el br d"
  shows "map_rank br st m < k \<Longrightarrow> \<exists>c. up_chain k st m = Some c"
proof (induction k arbitrary: m)
  case (Suc k)
  show ?case
  proof (cases "rm_parent_map (mp_map st m)")
    case (Some p)
    then obtain c where "up_chain k st p = Some c"
      using Suc.IH [of p] map_rank_parent [OF assms Some] Suc.prems by auto
    with Some show ?thesis by simp
  qed simp
qed simp


text \<open>No memory has one element only, or elements of no bytes; all maps have a positive width.\<close>

definition mems_divisible :: "map_elems \<Rightarrow> bool" where
  "mems_divisible el \<longleftrightarrow> (\<forall>mem. of_nat (el_mem_size el mem) - 1 \<noteq> (0 :: addr) \<and> 0 < el_mem_bytes el mem)"

definition maps_wide :: "reg_maps \<Rightarrow> bool" where
  "maps_wide st \<longleftrightarrow> (\<forall>m. 0 < rm_n_bytes (mp_map st m))"

lemma maps_wide_cong: "same_shape st st' \<Longrightarrow> maps_wide st' = maps_wide st"
  by (simp add: maps_wide_def same_shape_fields)

lemma maps_wide_positive: "maps_wide st \<Longrightarrow> positive_widths st c n"
  by (simp add: maps_wide_def positive_widths_def list_all_iff)

lemma mem_range_some:
  assumes "mems_divisible el" "maps_wide st" "chain \<noteq> []"
  shows "\<exists>r. mem_range_of el moved chain mem offset st = Some r"
proof -
  let ?as = "fst (snd (phys_addrs st chain offset 0 (el_mem_bytes el mem)))"
  have "length ?as = chain_words st chain (el_mem_bytes el mem)"
    using phys_addrs_width [of chain st "el_mem_bytes el mem" offset 0] assms by (simp add: maps_wide_def mems_divisible_def)
  with chain_words_pos have "?as \<noteq> []" by (metis length_greater_0_conv)
  with assms show ?thesis by (simp add: mem_range_of_def mems_divisible_def maps_wide_positive Let_def split_beta)
qed

lemma init_mem_some:
  assumes "mems_divisible el" "maps_wide st" "chain \<noteq> []"
  shows "\<exists>st' bw' ms'. init_mem el chain e (Some (st, bw, ms)) = Some (st', bw', ms')"
proof -
  obtain mem info where e: "e = (mem, info)" by (cases e)
  obtain b as r w where "mem_range_of el False chain mem (mm_offset info) st = Some (b, as, r, w)"
    using mem_range_some [OF assms] by (metis surj_pair)
  then show ?thesis by (simp add: e init_mem_def Let_def split_beta)
qed

lemma init_own_some:
  assumes "mems_divisible el" "maps_wide st" "chain \<noteq> []"
  shows "\<exists>r. init_own el chain st = Some r"
proof -
  have mems: "fold (init_mem el chain) es (Some (s, b, w)) \<noteq> None" if "maps_wide s" for es s b w
    using that
  proof (induction es arbitrary: s b w)
    case (Cons e es)
    obtain s' b' w' where i: "init_mem el chain e (Some (s, b, w)) = Some (s', b', w')"
      using init_mem_some [OF assms(1) Cons.prems assms(3)] by blast
    with Cons.IH [of s'] Cons.prems maps_wide_cong [OF shape_init_mem [OF i]] show ?case by simp
  qed simp
  obtain s b w where f: "fold (init_reg el chain) (rm_regs (mp_map st (hd chain))) (st, 0, []) = (s, b, w)" by (metis surj_pair)
  then have "same_shape st s" using shape_fold_init_reg by (metis fst_conv)
  then have "maps_wide s" using assms(2) by (simp add: maps_wide_cong)
  from mems [OF this] obtain s' b' w' where "fold (init_mem el chain) (rm_mems (mp_map st (hd chain))) (Some (s, b, w)) = Some (s', b', w')"
    by (metis not_None_eq surj_pair)
  with f maps_wide_positive [OF assms(2)] show ?thesis by (simp add: init_own_def Let_def case_prod_unfold list_all_iff)
qed

lemma m_init_some:
  assumes "block_ranks el br d" "mems_divisible el" "0 < d"
  shows "map_tree el st \<Longrightarrow> maps_wide st \<Longrightarrow> d - map_rank br st m \<le> n \<Longrightarrow> \<exists>r. m_init_address_map n d el m st = Some r"
proof (induction n arbitrary: m st)
  case 0
  then show ?case using map_rank_bound [OF assms(1,3), of st m] by simp
next
  case (Suc n)
  have subs: "\<exists>r. init_subs n d el ss (Some (s, w)) = Some r"
    if "map_tree el s" "maps_wide s" "\<forall>x \<in> set ss. d - map_rank br s x \<le> n" for ss s w
    using that
  proof (induction ss arbitrary: s w)
    case (Cons x xs)
    then obtain s1 w1 where 1: "m_init_address_map n d el x s = Some (s1, w1)"
      using Suc.IH [of s x] by fastforce
    from shape_m_init [OF 1] Cons.prems Cons.IH [of s1 "w @ w1"] 1 show ?case
      by (simp add: init_subs_Cons map_tree_cong map_rank_cong maps_wide_cong)
  qed simp
  obtain chain where chain: "up_chain d st m = Some chain"
    using up_chain_some [OF Suc.prems(1) assms(1)] map_rank_bound [OF assms(1,3)] by blast
  let ?s = "if rm_parent_map (mp_map st m) = None then set_map m clear_tables st else st"
  have 0: "same_shape st ?s" by auto
  have "d - map_rank br st x \<le> n" if "x \<in> fst ` set (rm_submaps (mp_map st m))" for x
  proof -
    have "rm_parent_map (mp_map st x) = Some m" using Suc.prems(1) that by (auto simp: map_tree_def)
    from map_rank_parent [OF Suc.prems(1) assms(1) this] map_rank_bound [OF assms(1,3), of st m] Suc.prems(3)
    show ?thesis by linarith
  qed
  then obtain s' w' where i: "init_subs n d el (map fst (rm_submaps (mp_map st m))) (Some (?s, [])) = Some (s', w')"
    using subs [of ?s "map fst (rm_submaps (mp_map st m))" "[]"] Suc.prems(1,2) 0
    by (force simp: map_tree_cong [OF 0] map_rank_cong [OF 0] maps_wide_cong [OF 0])
  have "same_shape ?s s'" using i by (rule shape_init_subs)
  then have "maps_wide s'" using Suc.prems(2) maps_wide_cong [OF 0] by (simp add: maps_wide_cong)
  moreover have "chain \<noteq> []" using chain by (cases d) (auto split: option.splits)
  ultimately obtain x where "init_own el chain s' = Some x" using init_own_some [OF assms(2)] by blast
  with i chain show ?case by (auto simp: m_init_Suc)
qed

section \<open>Every run of the map operations\<close>

datatype map_op =
    MAddReg nat nat addr string bool bool | MAddMem nat nat addr string bool bool
  | MAddSubmap nat "nat option" addr | MSetSubmapOffset nat "nat option" addr | MSetBase nat addr
  | MMoveReg nat nat addr bool | MMoveMem nat nat addr bool | MInit nat

fun run_map_op :: "nat \<Rightarrow> map_elems \<Rightarrow> map_op \<Rightarrow> reg_maps \<Rightarrow> (reg_maps \<times> msg list) option" where
  "run_map_op d el (MAddReg m rg offset rights unmapped fd) st = Some (map_add_reg el m rg offset rights unmapped fd st)"
| "run_map_op d el (MAddMem m mem offset rights unmapped fd) st = Some (map_add_mem el m mem offset rights unmapped fd st)"
| "run_map_op d el (MAddSubmap m c offset) st = add_submap d el m c offset st"
| "run_map_op d el (MSetSubmapOffset m c offset) st = set_submap_offset d el m c offset st"
| "run_map_op d el (MSetBase m offset) st = set_base_addr d el m offset st"
| "run_map_op d el (MMoveReg m rg offset unmapped) st = m_set_reg_offset d el m rg offset unmapped st"
| "run_map_op d el (MMoveMem m mem offset unmapped) st = m_set_mem_offset d el m mem offset unmapped st"
| "run_map_op d el (MInit m) st = m_init_address_map d d el m st"

definition map_step :: "nat \<Rightarrow> map_elems \<Rightarrow> map_op \<Rightarrow> reg_maps \<Rightarrow> reg_maps" where
  "map_step d el e st = (case run_map_op d el e st of None \<Rightarrow> st | Some (st', _) \<Rightarrow> st')"





lemma maps_wide_set_map [simp]:
  "maps_wide (set_map m (\<lambda>x. x\<lparr>rm_submaps := f x\<rparr>) st) = maps_wide st"
  "maps_wide (set_map m (\<lambda>x. x\<lparr>rm_parent_map := g x\<rparr>) st) = maps_wide st"
  "maps_wide (set_map m (\<lambda>x. x\<lparr>rm_base_addr := h x\<rparr>) st) = maps_wide st"
  by (auto simp: maps_wide_def mp_map_set_map)









text \<open>
  In a locked block the code cannot move a memory that the table of the top map holds, as every mapped
  memory of an initialised model is: the loop of \<open>m_set_mem_offset\<close> uses the iterator it has erased.
\<close>

lemma moving_held_memory_undefined:
  assumes "map_of (rm_mems (mp_map st m)) mem = Some info" "\<not> mm_unmapped info" "el_locked el (rm_block (mp_map st m))"
    "up_chain d st m = Some chain" "(r, mem) \<in> set (rm_mems_by_offset (mp_map st (last chain)))"
  shows "m_set_mem_offset d el m mem offset unmapped st = None"
proof -
  have "leave_mem (last chain) mem st = None" using assms(5) by (force simp: leave_mem_def list_ex_iff)
  with assms(1-4) show ?thesis by (simp add: m_set_mem_offset_def Let_def)
qed




text \<open>A map of four bytes on top of a map of one byte: block 1 is a child of block 0.\<close>

definition sample_elems :: map_elems where
  "sample_elems = \<lparr>el_reg_bytes = (\<lambda>rg. if rg = 0 then 8 else 4), el_reg_access = (\<lambda>_ _. ''RW''),
     el_reg_block = (\<lambda>_. Some 1), el_mem_bytes = (\<lambda>_. 4), el_mem_size = (\<lambda>_. 16),
     el_mem_block = (\<lambda>_. Some 1), el_block_parent = (\<lambda>b. if b = 1 then Some 0 else None), el_locked = (\<lambda>_. False)\<rparr>"

definition sample_maps :: reg_maps where
  "sample_maps = \<lparr>mp_map = (\<lambda>m. map_configure (if m = 0 then Some 0 else Some 1) 0
       (if m = 0 then 1 else 4) UVM_LITTLE_ENDIAN True new_map),
     mp_read_only = {}, mp_write_only = {}\<rparr>"

definition sample_map_run :: "map_op list" where
  "sample_map_run = [MAddReg 1 0 0 ''RW'' False False, MAddReg 1 1 8 ''RW'' False False,
     MAddMem 1 0 0x100 ''RW'' False False, MAddSubmap 0 (Some 1) 0x1000, MSetBase 0 0x10, MMoveMem 1 0 0x200 False]"



lemma phys_cover:
  assumes "up_chain d st m = Some c" "\<forall>x \<in> set c. 0 < rm_n_bytes (mp_map st x)" "0 < n"
  shows "\<exists>bw addrs ms. get_physical_addresses d st m base off n = Some (bw, addrs, ms)
    \<and> bw = Min ((\<lambda>x. rm_n_bytes (mp_map st x)) ` set c) \<and> n \<le> length addrs * bw"
proof -
  have "c \<noteq> []" using assms(1) by (cases d) (auto split: option.splits)
  moreover have "positive_widths st c n" using assms(2) by (simp add: positive_widths_def list_all_iff)
  ultimately show ?thesis
    using phys_addrs_width [OF _ assms(2,3), of base off] chain_words_cover [OF _ assms(2), of n] assms(1)
    by (cases "phys_addrs st c base off n") (auto simp: get_physical_addresses_def)
qed

text \<open>C38. The physical addresses cover the element. Through a hierarchy of maps of positive width, an
  access of \<open>n\<close> bytes is made of transfers as wide as the narrowest map on the way to the root,
  and there are enough of them for all \<open>n\<close> bytes.\<close>

theorem phys_addrs_cover:
  assumes "up_chain d st m = Some c" "\<forall>x \<in> set c. 0 < rm_n_bytes (mp_map st x)" "0 < n"
  shows "\<exists>bw addrs ms. get_physical_addresses d st m base off n = Some (bw, addrs, ms)
    \<and> bw = Min ((\<lambda>x. rm_n_bytes (mp_map st x)) ` set c) \<and> n \<le> length addrs * bw"
  using assms by (rule phys_cover)

theorem phys_addrs_cover_witness:
  "\<exists>addrs ms. get_physical_addresses 3 (fold (map_step 3 sample_elems) sample_map_run sample_maps) 1 8 0 6
     = Some (1, addrs, ms) \<and> 6 \<le> length addrs * 1"
proof -
  let ?st = "fold (map_step 3 sample_elems) sample_map_run sample_maps"
  have "up_chain 3 ?st 1 = Some [1, 0]" by code_simp
  moreover have "rm_n_bytes (mp_map ?st 1) = 4" "rm_n_bytes (mp_map ?st 0) = 1" by code_simp+
  ultimately show ?thesis using phys_addrs_cover [of 3 ?st 1 "[1, 0]" 6 8 0] by simp
qed

section \<open>The tables are the entries of all registers\<close>

text \<open>
  What an initialisation has to enter: for each map below \<open>m\<close>, submaps first, and each mapped
  register of it, its physical addresses. The tables as functions, and the entry of one address.
\<close>

definition reg_statics :: "reg_map \<Rightarrow> (nat \<times> addr \<times> bool) list" where
  "reg_statics x = map (\<lambda>(rg, i). (rg, mi_offset i, mi_unmapped i)) (rm_regs x)"

definition own_entries :: "nat list \<Rightarrow> map_elems \<Rightarrow> reg_maps \<Rightarrow> (nat \<times> addr \<times> bool) list \<Rightarrow> (nat \<times> nat \<times> addr) list" where
  "own_entries chain el st rs = concat (map (\<lambda>(rg, offset, unmapped). if unmapped then []
     else map (\<lambda>a. (hd chain, rg, a)) (fst (snd (phys_addrs st chain offset 0 (el_reg_bytes el rg))))) rs)"

primrec reg_entries :: "nat \<Rightarrow> nat \<Rightarrow> map_elems \<Rightarrow> reg_maps \<Rightarrow> nat \<Rightarrow> (nat \<times> nat \<times> addr) list" where
  "reg_entries 0 d el st m = []"
| "reg_entries (Suc n) d el st m =
     concat (map (reg_entries n d el st) (map fst (rm_submaps (mp_map st m))))
     @ own_entries (the (up_chain d st m)) el st (reg_statics (mp_map st m))"

type_synonym reg_tables = "(addr \<rightharpoonup> nat) \<times> (addr \<rightharpoonup> nat)"

definition abs_tables :: "nat \<Rightarrow> reg_maps \<Rightarrow> reg_tables" where
  "abs_tables t st = (map_of (rm_regs_by_offset (mp_map st t)), map_of (rm_regs_by_offset_wo (mp_map st t)))"

definition enter1 :: "map_elems \<Rightarrow> nat \<times> nat \<times> addr \<Rightarrow> reg_tables \<Rightarrow> reg_tables" where
  "enter1 el e t =
     (case (e, t) of ((m, rg, a), (ro, wo)) \<Rightarrow>
        (case ro a of
           None \<Rightarrow> (ro(a \<mapsto> rg), wo)
         | Some rg2 \<Rightarrow>
             if el_reg_access el rg m = ''RO'' \<and> el_reg_access el rg2 m = ''WO'' then (ro(a \<mapsto> rg), wo(a \<mapsto> rg2))
             else if el_reg_access el rg m = ''WO'' \<and> el_reg_access el rg2 m = ''RO'' then (ro, wo(a \<mapsto> rg))
             else (ro, wo)))"

definition same_static :: "reg_maps \<Rightarrow> reg_maps \<Rightarrow> bool" where
  "same_static st st' \<longleftrightarrow> same_shape st st' \<and> (\<forall>m. reg_statics (mp_map st' m) = reg_statics (mp_map st m))"

lemma same_static_refl [simp]: "same_static st st"
  by (simp add: same_static_def)

lemma same_static_trans: "same_static st st' \<Longrightarrow> same_static st' st'' \<Longrightarrow> same_static st st''"
  by (auto simp: same_static_def intro: same_shape_trans)

lemma own_entries_cong:
  assumes "same_shape st st'"
  shows "own_entries c el st' rs = own_entries c el st rs"
proof -
  have "phys_addrs st' = phys_addrs st" using phys_addrs_cong [OF assms] by (intro ext)
  then show ?thesis by (simp only: own_entries_def)
qed

lemma reg_entries_cong: "same_static st st' \<Longrightarrow> reg_entries n d el st' m = reg_entries n d el st m"
proof (induction n arbitrary: m)
  case (Suc n)
  then have "same_shape st st'" by (simp add: same_static_def)
  moreover have "reg_entries n d el st' = reg_entries n d el st" using Suc by (intro ext) simp
  ultimately show ?case using Suc.prems
    by (simp add: same_shape_fields up_chain_cong own_entries_cong same_static_def)
qed simp

lemma put_ptr_static:
  "distinct (map fst xs) \<Longrightarrow> (k, i0) \<in> set xs \<Longrightarrow> g i = g i0 \<Longrightarrow>
   map (\<lambda>(k, i). (k, g i)) (put_ptr k i xs) = map (\<lambda>(k, i). (k, g i)) xs"
  by (induction xs) (auto simp: image_iff)

lemma statics_keys: "map fst (reg_statics x) = map fst (rm_regs x)"
  by (auto simp: reg_statics_def)

lemma statics_set_info:
  assumes "distinct (map fst (rm_regs (mp_map st m)))"
    "(rg, mi_offset i, mi_unmapped i) \<in> set (reg_statics (mp_map st m))"
  shows "same_static st (set_reg_info m rg i st)"
proof -
  obtain i0 where "(rg, i0) \<in> set (rm_regs (mp_map st m))" "mi_offset i = mi_offset i0" "mi_unmapped i = mi_unmapped i0"
    using assms(2) by (auto simp: reg_statics_def)
  then have "reg_statics (mp_map (set_reg_info m rg i st) m) = reg_statics (mp_map st m)"
    using put_ptr_static [OF assms(1), of rg i0 "\<lambda>i. (mi_offset i, mi_unmapped i)" i]
    by (simp add: reg_statics_def set_reg_info_def mp_map_set_map)
  then show ?thesis by (simp add: same_static_def) (simp add: set_reg_info_def mp_map_set_map)
qed

lemma static_set_map:
  "shape_of (f (mp_map st m)) = shape_of (mp_map st m) \<Longrightarrow> rm_regs (f (mp_map st m)) = rm_regs (mp_map st m)
   \<Longrightarrow> same_static st (set_map m f st)"
  by (auto simp: same_static_def mp_map_set_map reg_statics_def)

lemma static_enter_reg: "same_static st (fst (enter_reg el m tm rg a st))"
  by (auto simp: same_static_def shape_enter_reg) (auto simp: enter_reg_def mp_map_set_map reg_statics_def split: option.splits)

lemma abs_enter_reg: "abs_tables tm (fst (enter_reg el m tm rg a st)) = enter1 el (m, rg, a) (abs_tables tm st)"
  by (auto simp: enter_reg_def abs_tables_def enter1_def reg_map_simps split: option.splits)

lemma abs_enter_reg_loop:
  "same_static st (fst (enter_reg_loop el m tm mems rg as st)) \<and>
   abs_tables tm (fst (enter_reg_loop el m tm mems rg as st)) = fold (enter1 el) (map (\<lambda>a. (m, rg, a)) as) (abs_tables tm st)"
proof (induction as arbitrary: st)
  case (Cons a as)
  show ?case
    using same_static_trans [OF static_enter_reg, of el m tm rg a st] Cons.IH [of "fst (enter_reg el m tm rg a st)"]
    by (simp add: split_beta Let_def abs_enter_reg)
qed simp

lemma abs_set_info [simp]:
  "abs_tables t (set_reg_info m rg i st) = abs_tables t st" "abs_tables t (set_mem_info m mem j st) = abs_tables t st"
  by (simp_all add: abs_tables_def set_reg_info_def set_mem_info_def mp_map_set_map)

lemma abs_init_reg:
  assumes "distinct (map fst (rm_regs (mp_map st (hd chain))))"
    "(rg, mi_offset info, mi_unmapped info) \<in> set (reg_statics (mp_map st (hd chain)))"
    "init_reg el chain (rg, info) (st, bw, ms) = (st', bw', ms')"
  shows "same_static st st' \<and> abs_tables (last chain) st' =
    fold (enter1 el) (own_entries chain el st [(rg, mi_offset info, mi_unmapped info)]) (abs_tables (last chain) st)"
proof (cases "mi_unmapped info")
  case True
  then have "st' = set_reg_info (hd chain) rg (info\<lparr>mi_initialized := True\<rparr>) st"
    using assms(3) by (simp add: init_reg_def Let_def)
  with True assms(1,2) statics_set_info [of st "hd chain" rg "info\<lparr>mi_initialized := True\<rparr>"]
  show ?thesis by (simp add: own_entries_def)
next
  case False
  define as where "as = fst (snd (phys_addrs st chain (mi_offset info) 0 (el_reg_bytes el rg)))"
  define s where "s = fst (enter_reg_loop el (hd chain) (last chain) (hd chain) rg as st)"
  have st': "st' = set_reg_info (hd chain) rg (info\<lparr>mi_initialized := True, mi_addr := as\<rparr>) s"
    using False assms(3) by (auto simp: init_reg_def Let_def split_beta s_def as_def)
  have s: "same_static st s" "abs_tables (last chain) s =
      fold (enter1 el) (map (\<lambda>a. (hd chain, rg, a)) as) (abs_tables (last chain) st)"
    using abs_enter_reg_loop [of st el "hd chain" "last chain" "hd chain" rg as] by (simp_all add: s_def)
  have "distinct (map fst (rm_regs (mp_map s (hd chain))))"
    using assms(1) s(1) unfolding same_static_def statics_keys [symmetric] by simp
  moreover have "(rg, mi_offset info, mi_unmapped info) \<in> set (reg_statics (mp_map s (hd chain)))"
    using assms(2) s(1) by (simp add: same_static_def)
  ultimately have "same_static s st'" unfolding st' by (intro statics_set_info) simp_all
  with s False show ?thesis
    by (auto simp: st' own_entries_def as_def intro: same_static_trans)
qed

lemma abs_fold_init_reg:
  assumes "distinct (map fst (rm_regs (mp_map st (hd chain))))"
    "(\<lambda>(rg, i). (rg, mi_offset i, mi_unmapped i)) ` set es \<subseteq> set (reg_statics (mp_map st (hd chain)))"
    "fold (init_reg el chain) es (st, bw, ms) = (st', bw', ms')"
  shows "same_static st st' \<and> abs_tables (last chain) st' =
    fold (enter1 el) (own_entries chain el st (map (\<lambda>(rg, i). (rg, mi_offset i, mi_unmapped i)) es)) (abs_tables (last chain) st)"
  using assms
proof (induction es arbitrary: st bw ms)
  case (Cons e es)
  obtain rg info where e: "e = (rg, info)" by (cases e)
  obtain s b w where i: "init_reg el chain e (st, bw, ms) = (s, b, w)" by (metis surj_pair)
  have 1: "same_static st s" "abs_tables (last chain) s =
      fold (enter1 el) (own_entries chain el st [(rg, mi_offset info, mi_unmapped info)]) (abs_tables (last chain) st)"
    using abs_init_reg [of st chain rg info el bw ms s b w] Cons.prems i e by auto
  have d: "distinct (map fst (rm_regs (mp_map s (hd chain))))"
    "(\<lambda>(rg, i). (rg, mi_offset i, mi_unmapped i)) ` set es \<subseteq> set (reg_statics (mp_map s (hd chain)))"
    using Cons.prems(1,2) 1(1) unfolding same_static_def statics_keys [symmetric] by auto
  from Cons.IH [OF d, of b w] i Cons.prems(3) have 2: "same_static s st'" "abs_tables (last chain) st' =
      fold (enter1 el) (own_entries chain el s (map (\<lambda>(rg, i). (rg, mi_offset i, mi_unmapped i)) es)) (abs_tables (last chain) s)"
    by simp_all
  have "own_entries chain el s rs = own_entries chain el st rs" for rs
    using 1(1) by (simp add: same_static_def own_entries_cong)
  note own = this
  have app: "own_entries chain el st (x # rs) = own_entries chain el st [x] @ own_entries chain el st rs" for x rs
    by (simp add: own_entries_def)
  have "abs_tables (last chain) st' = fold (enter1 el) (own_entries chain el st ((rg, mi_offset info, mi_unmapped info)
      # map (\<lambda>(rg, i). (rg, mi_offset i, mi_unmapped i)) es)) (abs_tables (last chain) st)"
    by (subst app) (simp only: fold_append comp_apply 2(2) 1(2) own)
  then show ?case using same_static_trans [OF 1(1) 2(1)] by (simp add: e)
qed (simp add: own_entries_def)

lemma static_set_mem_info: "same_static st (set_mem_info m mem j st)"
  by (auto simp: set_mem_info_def intro!: static_set_map)

lemma abs_init_mem:
  assumes "init_mem el chain e (Some (st, bw, ms)) = Some (st', bw', ms')"
  shows "same_static st st' \<and> abs_tables t st' = abs_tables t st"
proof -
  have 1: "same_static st (fst (enter_mem tm mems mem r st))"
      "abs_tables t (fst (enter_mem tm mems mem r st)) = abs_tables t st" for tm mems mem r
    by (auto simp: enter_mem_def Let_def abs_tables_def mp_map_set_map intro!: static_set_map)
  have "same_static st (set_mem_info m mem i (fst (enter_mem tm mems mem r st)))" for i m tm mems mem r
    by (rule same_static_trans [OF 1(1) static_set_mem_info])
  with 1(2) assms show ?thesis
    by (auto simp: init_mem_def split_beta Let_def split: if_splits option.splits)
qed

lemma abs_fold_init_mem:
  "fold (init_mem el chain) es (Some (st, bw, ms)) = Some (st', bw', ms') \<Longrightarrow>
   same_static st st' \<and> abs_tables t st' = abs_tables t st"
proof (induction es arbitrary: st bw ms)
  case (Cons e es)
  then obtain s b m where e: "init_mem el chain e (Some (st, bw, ms)) = Some (s, b, m)"
    by (cases "init_mem el chain e (Some (st, bw, ms))") auto
  with Cons show ?case using abs_init_mem [OF e, of t] by (auto intro: same_static_trans)
qed simp

definition keys_distinct :: "reg_maps \<Rightarrow> bool" where
  "keys_distinct st \<longleftrightarrow> (\<forall>m. distinct (map fst (rm_regs (mp_map st m))))"

lemma keys_distinct_cong: "same_static st st' \<Longrightarrow> keys_distinct st' = keys_distinct st"
  unfolding keys_distinct_def statics_keys [symmetric] by (simp add: same_static_def)

lemma abs_init_own:
  assumes "init_own el chain st = Some (st', ms)" "keys_distinct st"
  shows "same_static st st' \<and> abs_tables (last chain) st' =
    fold (enter1 el) (own_entries chain el st (reg_statics (mp_map st (hd chain)))) (abs_tables (last chain) st)"
proof -
  obtain s b w where r: "fold (init_reg el chain) (rm_regs (mp_map st (hd chain))) (st, 0, []) = (s, b, w)" by (metis surj_pair)
  with assms obtain s' b' w' where m: "fold (init_mem el chain) (rm_mems (mp_map st (hd chain))) (Some (s, b, w)) = Some (s', b', w')"
      and st': "st' = set_map (hd chain) (\<lambda>x. x\<lparr>rm_system_n_bytes := (if b' = 0 then rm_n_bytes x else b')\<rparr>) s'"
    by (auto simp: init_own_def Let_def split: if_splits)
  have d: "distinct (map fst (rm_regs (mp_map st (hd chain))))" using assms(2) by (simp add: keys_distinct_def)
  have "same_static s' st'" "abs_tables (last chain) st' = abs_tables (last chain) s'"
    unfolding st' by (auto simp: abs_tables_def mp_map_set_map intro!: static_set_map)
  moreover note abs_fold_init_reg [OF d _ r] abs_fold_init_mem [OF m, of "last chain"]
  ultimately show ?thesis by (auto simp: reg_statics_def intro: same_static_trans)
qed

lemma up_chain_Suc: "up_chain d st m = Some c \<Longrightarrow> up_chain (Suc d) st m = Some c"
proof (induction d arbitrary: m c)
  case (Suc d)
  show ?case
  proof (cases "rm_parent_map (mp_map st m)")
    case (Some p)
    with Suc.prems obtain c' where "up_chain d st p = Some c'" "c = m # c'" by auto
    with Suc.IH [OF this(1)] Some show ?thesis by (simp only: up_chain.simps(2) [of "Suc d"] option.case option.map)
  qed (use Suc.prems in simp)
qed simp

lemma up_chain_child:
  assumes "up_chain d st s = Some c'" "rm_parent_map (mp_map st s) = Some m" "up_chain d st m = Some c"
  shows "c' = s # c"
proof (cases d)
  case (Suc e)
  with assms(1,2) obtain c'' where "c' = s # c''" "up_chain e st m = Some c''" by auto
  with up_chain_Suc [OF this(2)] Suc assms(3) show ?thesis by simp
qed (use assms in simp)

lemma up_chain_hd: "up_chain d st m = Some c \<Longrightarrow> hd c = m \<and> c \<noteq> []"
  by (cases d) (auto split: option.splits)

lemma static_clear: "same_static st (if b then set_map m clear_tables st else st)"
  by (auto intro!: static_set_map simp: clear_tables_def)

lemma abs_m_init:
  "m_init_address_map n d el m st = Some (st', ms) \<Longrightarrow> keys_distinct st \<Longrightarrow> map_tree el st \<Longrightarrow> up_chain d st m = Some c \<Longrightarrow>
   same_static st st' \<and> abs_tables (last c) st' = fold (enter1 el) (reg_entries n d el st m)
     (if rm_parent_map (mp_map st m) = None then (Map.empty, Map.empty) else abs_tables (last c) st)"
proof (induction n arbitrary: m st st' ms c)
  case (Suc n)
  note c = up_chain_hd [OF Suc.prems(4)]
  have subs: "same_static s s' \<and> abs_tables (last c) s' =
      fold (enter1 el) (concat (map (reg_entries n d el s) ss)) (abs_tables (last c) s)"
    if "init_subs n d el ss (Some (s, w)) = Some (s', w')" "same_static st s"
       "set ss \<subseteq> fst ` set (rm_submaps (mp_map st m))" for ss s w s' w'
    using that
  proof (induction ss arbitrary: s w)
    case (Cons x xs)
    from Cons.prems(1) obtain s1 w1 where 1: "m_init_address_map n d el x s = Some (s1, w1)"
        and rest: "init_subs n d el xs (Some (s1, w @ w1)) = Some (s', w')"
      by (auto simp: init_subs_Cons split: option.splits)
    have sh: "same_shape st s" using Cons.prems(2) by (simp add: same_static_def)
    have p: "rm_parent_map (mp_map s x) = Some m"
      using Cons.prems(3) Suc.prems(3) by (auto simp: map_tree_def same_shape_fields [OF sh])
    have t: "keys_distinct s" "map_tree el s"
      using Suc.prems(2,3) Cons.prems(2) sh by (simp_all add: keys_distinct_cong map_tree_cong)
    obtain cx where cx: "up_chain d s x = Some cx" using 1 by (cases n) (auto simp: m_init_Suc split: option.splits)
    then have lc: "last cx = last c"
      using up_chain_child [of d s x cx m c] p Suc.prems(4) sh c by (simp add: up_chain_cong)
    from Suc.IH [OF 1 t cx] p lc have 2: "same_static s s1"
        "abs_tables (last c) s1 = fold (enter1 el) (reg_entries n d el s x) (abs_tables (last c) s)" by simp_all
    from Cons.IH [OF rest same_static_trans [OF Cons.prems(2) 2(1)]] Cons.prems(3) 2(2)
    have "same_static s1 s'" "abs_tables (last c) s' = fold (enter1 el) (concat (map (reg_entries n d el s1) xs))
        (fold (enter1 el) (reg_entries n d el s x) (abs_tables (last c) s))" by simp_all
    moreover have "reg_entries n d el s1 = reg_entries n d el s" using reg_entries_cong [OF 2(1)] by (intro ext)
    ultimately show ?case using same_static_trans [OF 2(1)] by simp
  qed simp
  let ?s = "if rm_parent_map (mp_map st m) = None then set_map m clear_tables st else st"
  have 0: "same_static st ?s" by (rule static_clear)
  from Suc.prems obtain s' w' ms' where 1: "init_subs n d el (map fst (rm_submaps (mp_map st m))) (Some (?s, [])) = Some (s', w')"
      and 2: "init_own el c s' = Some (st', ms')"
    unfolding m_init_Suc by (auto split: option.splits simp: bind_eq_Some_conv)
  from subs [OF 1 0] have 3: "same_static ?s s'" "abs_tables (last c) s' =
      fold (enter1 el) (concat (map (reg_entries n d el ?s) (map fst (rm_submaps (mp_map st m))))) (abs_tables (last c) ?s)"
    by simp_all
  have st_s': "same_static st s'" by (rule same_static_trans [OF 0 3(1)])
  then have sh: "same_shape st s'" by (simp add: same_static_def)
  have e: "reg_entries n d el ?s = reg_entries n d el st" using reg_entries_cong [OF 0] by (intro ext)
  have "abs_tables (last c) ?s = (if rm_parent_map (mp_map st m) = None then (Map.empty, Map.empty) else abs_tables (last c) st)"
    using Suc.prems(4) by (cases d) (auto simp: abs_tables_def clear_tables_def mp_map_set_map)
  moreover from abs_init_own [OF 2] Suc.prems(2) st_s' c have "same_static s' st'" "abs_tables (last c) st' =
      fold (enter1 el) (own_entries c el st (reg_statics (mp_map st m))) (abs_tables (last c) s')"
    by (simp_all add: keys_distinct_cong own_entries_cong [OF sh]) (simp add: same_static_def)
  ultimately show ?case using same_static_trans [OF st_s'] Suc.prems(4)
    by (simp add: 3(2) e del: static_clear)
qed simp

section \<open>Decoding an address\<close>

text \<open>What happens at one address: the register of the table and the one of the write table.\<close>

definition enter_at :: "map_elems \<Rightarrow> nat \<times> nat \<times> addr \<Rightarrow> nat option \<times> nat option \<Rightarrow> nat option \<times> nat option" where
  "enter_at el e t =
     (case (e, t) of ((m, rg, _), (ro, wo)) \<Rightarrow>
        (case ro of
           None \<Rightarrow> (Some rg, wo)
         | Some rg2 \<Rightarrow>
             if el_reg_access el rg m = ''RO'' \<and> el_reg_access el rg2 m = ''WO'' then (Some rg, Some rg2)
             else if el_reg_access el rg m = ''WO'' \<and> el_reg_access el rg2 m = ''RO'' then (ro, Some rg)
             else (ro, wo)))"

definition entries_at :: "addr \<Rightarrow> (nat \<times> nat \<times> addr) list \<Rightarrow> (nat \<times> nat \<times> addr) list" where
  "entries_at a es = filter (\<lambda>e. snd (snd e) = a) es"

lemma fold_enter_at:
  "(fst (fold (enter1 el) es t) a, snd (fold (enter1 el) es t) a) =
   fold (enter_at el) (entries_at a es) (fst t a, snd t a)"
proof (induction es arbitrary: t)
  case (Cons e es)
  have "(fst (enter1 el e t) a, snd (enter1 el e t) a) =
      (if snd (snd e) = a then enter_at el e (fst t a, snd t a) else (fst t a, snd t a))"
    by (cases e; cases t) (auto simp: enter1_def enter_at_def split: option.splits)
  with Cons.IH [of "enter1 el e t"] show ?case by (simp add: entries_at_def)
qed (simp add: entries_at_def)

text \<open>The register that a read or a write at an address is for, from the entries of the address.\<close>

fun decode_spec :: "map_elems \<Rightarrow> bool \<Rightarrow> (nat \<times> nat \<times> addr) list \<Rightarrow> nat option" where
  "decode_spec el rd [] = None"
| "decode_spec el rd [(_, r, _)] = Some r"
| "decode_spec el rd ((_, r1, _) # (m, r2, _) # _) =
     (if el_reg_access el r1 m = ''RO'' \<and> el_reg_access el r2 m = ''WO'' then Some (if rd then r1 else r2)
      else if el_reg_access el r1 m = ''WO'' \<and> el_reg_access el r2 m = ''RO'' then Some (if rd then r2 else r1)
      else Some r1)"

lemma decode_fold:
  assumes "length es \<le> 2" "fold (enter_at el) es (None, None) = (ro, wo)"
  shows "(if \<not> rd \<and> wo \<noteq> None then wo else ro) = decode_spec el rd es"
proof -
  consider "es = []" | e where "es = [e]" | e f where "es = [e, f]"
    using assms(1) by (cases es; cases "tl es") auto
  then show ?thesis using assms(2)
    by cases (auto simp: enter_at_def split: if_splits prod.splits)
qed

lemma tables_after_init:
  assumes "m_init_address_map n d el m st = Some (st', ms)" "keys_distinct st" "map_tree el st"
    "rm_parent_map (mp_map st m) = None"
  shows "(map_of (rm_regs_by_offset (mp_map st' m)) a, map_of (rm_regs_by_offset_wo (mp_map st' m)) a)
    = fold (enter_at el) (entries_at a (reg_entries n d el st m)) (None, None)
    \<and> rm_block (mp_map st' m) = rm_block (mp_map st m)"
proof -
  obtain c where c: "up_chain d st m = Some c" using assms(1) by (cases n) (auto simp: m_init_Suc split: option.splits)
  with assms(4) have "last c = m" by (cases d) auto
  with abs_m_init [OF assms(1-3) c] assms(4) have sh: "same_shape st st'"
    and t: "abs_tables m st' = fold (enter1 el) (reg_entries n d el st m) (Map.empty, Map.empty)"
    by (simp_all add: same_static_def)
  have "(map_of (rm_regs_by_offset (mp_map st' m)) a, map_of (rm_regs_by_offset_wo (mp_map st' m)) a)
      = (fst (abs_tables m st') a, snd (abs_tables m st') a)" by (simp add: abs_tables_def)
  also have "\<dots> = fold (enter_at el) (entries_at a (reg_entries n d el st m)) (None, None)"
    unfolding t fold_enter_at by simp
  finally show ?thesis by (simp add: same_shape_fields [OF sh])
qed

lemma get_reg_by_offset_locked:
  "el_locked el (rm_block (mp_map st m)) \<Longrightarrow> get_reg_by_offset el st m a rd =
   (if \<not> rd \<and> map_of (rm_regs_by_offset_wo (mp_map st m)) a \<noteq> None
    then map_of (rm_regs_by_offset_wo (mp_map st m)) a else map_of (rm_regs_by_offset (mp_map st m)) a, [])"
  by (simp add: get_reg_by_offset_def Let_def)

text \<open>C18. Address decoding is the inverse of address computation. After the tables of a root map
  are computed, the register looked up at an address is decided by the registers of the whole
  hierarchy one of whose physical addresses it is: none, when there is none; the register,
  when there is one; of a read-only and a write-only register the former for reads and the
  latter for writes; of two others the one met first, submaps first.\<close>

theorem decode_equiv:
  assumes "m_init_address_map n d el m st = Some (st', ms)"
    and "keys_distinct st" "map_tree el st" "rm_parent_map (mp_map st m) = None"
    and "el_locked el (rm_block (mp_map st m))"
    and "length (entries_at a (reg_entries n d el st m)) \<le> 2"
  shows "get_reg_by_offset el st' m a rd = (decode_spec el rd (entries_at a (reg_entries n d el st m)), [])"
proof -
  note t = tables_after_init [OF assms(1-4), of a]
  with assms(5) have "el_locked el (rm_block (mp_map st' m))" by simp
  from get_reg_by_offset_locked [OF this] decode_fold [OF assms(6) conjunct1 [OF t, symmetric]]
  show ?thesis by simp
qed

text \<open>A read-only and a write-only register share the address 16; the map of register 2 lies at 32.\<close>

definition shared_elems :: map_elems where
  "shared_elems = sample_elems\<lparr>el_reg_bytes := (\<lambda>_. 1),
     el_reg_access := (\<lambda>rg _. if rg = 0 then ''RO'' else ''WO''),
     el_reg_block := (\<lambda>rg. if rg < 2 then Some 0 else Some 1), el_locked := (\<lambda>_. True)\<rparr>"

definition shared_maps :: reg_maps where
  "shared_maps = \<lparr>mp_map = (\<lambda>m. (map_configure (if m = 0 then Some 0 else Some 1) 0 1 UVM_LITTLE_ENDIAN True new_map)
       \<lparr>rm_parent_map := (if m = 1 then Some 0 else None),
        rm_submaps := (if m = 0 then [(1, 0x20)] else []),
        rm_regs := (if m = 0 then [(0, \<lparr>mi_offset = 0x10, mi_rights = ''RW'', mi_unmapped = False, mi_addr = [], mi_frontdoor = False, mi_initialized = False\<rparr>),
                                    (1, \<lparr>mi_offset = 0x10, mi_rights = ''RW'', mi_unmapped = False, mi_addr = [], mi_frontdoor = False, mi_initialized = False\<rparr>)]
                    else if m = 1 then [(2, \<lparr>mi_offset = 0, mi_rights = ''RW'', mi_unmapped = False, mi_addr = [], mi_frontdoor = False, mi_initialized = False\<rparr>)]
                    else [])\<rparr>),
     mp_read_only = {}, mp_write_only = {}\<rparr>"

lemma shared_entries: "reg_entries 3 3 shared_elems shared_maps 0 = [(1, 2, 0x20), (0, 0, 0x10), (0, 1, 0x10)]"
  by code_simp

theorem decode_equiv_witness:
  "\<exists>st' ms. m_init_address_map 3 3 shared_elems 0 shared_maps = Some (st', ms) \<and>
     get_reg_by_offset shared_elems st' 0 0x10 True = (Some 0, []) \<and>
     get_reg_by_offset shared_elems st' 0 0x10 False = (Some 1, []) \<and>
     get_reg_by_offset shared_elems st' 0 0x20 False = (Some 2, []) \<and>
     get_reg_by_offset shared_elems st' 0 0x30 True = (None, [])"
proof -
  have t: "map_tree shared_elems shared_maps"
    by (auto simp: map_tree_def shared_maps_def map_configure_def new_map_def shared_elems_def sample_elems_def split: if_splits)
  have r: "block_ranks shared_elems (\<lambda>b. if b = 1 then 1 else 0) 3" "mems_divisible shared_elems"
    by (auto simp: block_ranks_def shared_elems_def sample_elems_def mems_divisible_def)
  have w: "maps_wide shared_maps"
    by (simp add: maps_wide_def shared_maps_def map_configure_def)
  have k: "keys_distinct shared_maps"
    by (auto simp: keys_distinct_def shared_maps_def map_configure_def new_map_def)
  obtain st' ms where i: "m_init_address_map 3 3 shared_elems 0 shared_maps = Some (st', ms)"
    using m_init_some [of shared_elems _ 3 shared_maps 0 3] t r w by fastforce
  have l: "rm_parent_map (mp_map shared_maps 0) = None" "el_locked shared_elems (rm_block (mp_map shared_maps 0))"
    by code_simp+
  note D = decode_equiv [OF i k t l, unfolded shared_entries]
  have acc: "el_reg_access shared_elems 0 x = ''RO''" "el_reg_access shared_elems (Suc 0) x = ''WO''" for x
    by (simp_all add: shared_elems_def)
  from i D [of "0x10" True] D [of "0x10" False] D [of "0x20" False] D [of "0x30" True] show ?thesis
    by (simp add: entries_at_def acc)
qed

text \<open>A second write-only register at a shared address takes the place of the first one: no lookup
  finds the first one any more.\<close>

lemma second_write_only_hides:
  assumes "m_init_address_map n d el m st = Some (st', ms)" "keys_distinct st" "map_tree el st"
    "rm_parent_map (mp_map st m) = None" "el_locked el (rm_block (mp_map st m))"
    "entries_at a (reg_entries n d el st m) = [(m1, r1, a), (m2, r2, a), (m3, r3, a)]"
    "\<forall>x. el_reg_access el r1 x = ''RO''" "\<forall>x. el_reg_access el r2 x = ''WO''" "\<forall>x. el_reg_access el r3 x = ''WO''"
  shows "get_reg_by_offset el st' m a True = (Some r1, [])" "get_reg_by_offset el st' m a False = (Some r3, [])"
proof -
  note t = tables_after_init [OF assms(1-4), of a]
  with assms(5) have l: "el_locked el (rm_block (mp_map st' m))" by simp
  from t assms(6-9) show "get_reg_by_offset el st' m a True = (Some r1, [])"
      "get_reg_by_offset el st' m a False = (Some r3, [])"
    by (simp_all add: get_reg_by_offset_locked [OF l] enter_at_def)
qed

text \<open>Moving a memory whose elements take one bus word records the stride zero.\<close>

lemma moved_stride_zero:
  assumes "mem_range_of el True chain mem offset st = Some (bw, as, (mn, mx, stride), ms)"
    "fst (snd (phys_addrs st chain offset (of_nat (el_mem_size el mem) - 1) (el_mem_bytes el mem))) = [b]"
  shows "stride = 0"
  using assms by (auto simp: mem_range_of_def Let_def split_beta split: if_splits)

end
