(* ===== verification/Reg_Bus.thy ===== *)
theory Reg_Bus
  imports Reg_Map
begin

text \<open>
  \<open>src/uvmsc/reg/uvm_reg_map.cpp\<close>, transfers: how a write or read of a register, field or memory
  is cut into bus cycles, and what is put together from them. One bus cycle (the adapter, the
  sequencer, the driver and the design) is not part of the code: it is an argument \<open>bus\<close> that
  takes the bus operation and a state of the design to the data and status that \<open>bus2reg\<close>
  reports and a new state. The hooks of the parent sequence around a cycle are left out.
  \<open>None\<close> is a run that C++ leaves undefined or that SystemC stops: no entry in the map, a bus of no bytes,
  a shift by 64 or more, a byte enable beyond the eighth, the removal of an address that is not there.
\<close>

unbundle bit_operations_syntax

section \<open>Bus operations\<close>

type_synonym byte_en = "8 word"

record bus_op =
  bo_kind :: uvm_access_e
  bo_addr :: addr
  bo_data :: data
  bo_n_bits :: uint
  bo_byte_en :: byte_en

type_synonym 'h bus = "bus_op \<Rightarrow> 'h \<Rightarrow> (data \<times> uvm_status_e) \<times> 'h"

text \<open>What the transfer reads of the item: the element (the register of a field), its size and the position of a field.\<close>

record bus_item =
  bi_element_kind :: uvm_elem_kind_e
  bi_element :: nat
  bi_n_bits :: nat
  bi_lsb :: nat
  bi_access_kind :: uvm_access_e
  bi_offset :: addr
  bi_value :: "data list"

text \<open>Addresses, stride, size, lowest bit and the number of words before the field.\<close>

definition m_get_bus_info :: "reg_maps \<Rightarrow> nat \<Rightarrow> bus_item \<Rightarrow> (addr list \<times> uint \<times> nat \<times> nat \<times> nat) option" where
  "m_get_bus_info st m rw =
     (case bi_element_kind rw of
        UVM_MEM \<Rightarrow>
          map_option (\<lambda>i. (mm_addr i, mm_stride i, bi_n_bits rw, 0, 0)) (map_of (rm_mems (mp_map st m)) (bi_element rw))
      | UVM_REG \<Rightarrow>
          map_option (\<lambda>i. (mi_addr i, 0, bi_n_bits rw, 0, 0)) (map_of (rm_regs (mp_map st m)) (bi_element rw))
      | UVM_FIELD \<Rightarrow>
          (let bw = map_n_bytes st UVM_HIER m
           in if bw = 0 then None
              else map_option (\<lambda>i. (mi_addr i, 0, bi_n_bits rw, bi_lsb rw, bi_lsb rw div (bw * 8)))
                     (map_of (rm_regs (mp_map st m)) (bi_element rw))))"

section \<open>Fields\<close>

text \<open>The two loops over the byte enables, and the words that are left.\<close>

fun skip_lanes :: "nat \<Rightarrow> nat \<Rightarrow> byte_en \<Rightarrow> (nat \<times> nat \<times> byte_en) option" where
  "skip_lanes temp idx be =
     (if 8 \<le> temp then if idx < 8 then skip_lanes (temp - 8) (idx + 1) (unset_bit idx be) else None
      else Some (temp, idx, be))"

fun take_lanes :: "nat \<Rightarrow> nat \<Rightarrow> byte_en \<Rightarrow> (nat \<times> byte_en) option" where
  "take_lanes temp idx be =
     (if 0 < temp then if idx < 8 then take_lanes (temp - 8) (idx + 1) (set_bit idx be) else None
      else Some (idx, be))"

declare skip_lanes.simps [simp del] take_lanes.simps [simp del]

definition field_lanes :: "nat \<Rightarrow> nat \<Rightarrow> byte_en \<Rightarrow> byte_en option" where
  "field_lanes extra n be =
     (case skip_lanes extra 0 be of
        None \<Rightarrow> None
      | Some (temp, idx, be) \<Rightarrow>
          map_option (\<lambda>(idx, be). be AND ucast (uvm_mask_size idx)) (take_lanes (temp + n) idx be))"

definition field_words :: "nat \<Rightarrow> nat \<Rightarrow> nat \<Rightarrow> addr list \<Rightarrow> addr list option" where
  "field_words bw skip n as = (if length as < skip then None else Some (take (n div (bw * 8) + 1) (drop skip as)))"

text \<open>The shift, byte enables and addresses of a field access; other elements keep all byte enables.\<close>

definition prepare :: "nat \<Rightarrow> bool \<Rightarrow> nat \<Rightarrow> nat \<Rightarrow> nat \<Rightarrow> byte_en \<Rightarrow> addr list \<Rightarrow> (nat \<times> byte_en \<times> addr list) option" where
  "prepare bw fld n lsb skip be as =
     (if \<not> fld then Some (0, be, as)
      else if bw = 0 \<or> 64 \<le> lsb mod (bw * 8) then None
      else
        (case (field_lanes (lsb mod (bw * 8)) n be, field_words bw skip n as) of
           (Some be, Some as) \<Rightarrow> Some (lsb mod (bw * 8), be, as)
         | _ \<Rightarrow> None))"

section \<open>do_bus_write\<close>

text \<open>
  The cycles of one value. The code computes the byte enables of the cycle for a field and then
  overwrites them with those of the whole access. The number of bits left is unsigned.
\<close>

primrec write_cycles ::
  "'h bus \<Rightarrow> nat \<Rightarrow> bool \<Rightarrow> uvm_access_e \<Rightarrow> byte_en \<Rightarrow> data \<Rightarrow> addr list \<Rightarrow> nat \<Rightarrow> uint \<Rightarrow> uvm_status_e \<Rightarrow> 'h
   \<Rightarrow> (uvm_status_e \<times> 'h) option" where
  "write_cycles bus bw fld kind be v [] cur n s h = Some (s, h)"
| "write_cycles bus bw fld kind be v (a # as) cur n s h =
     (if 64 \<le> cur * 8 \<or> (fld \<and> 8 < cur + bw) then None
      else
        (let data = drop_bit (cur * 8) v AND uvm_mask_size (bw * 8);
             w = of_nat (bw * 8);
             ((_, s), h) = bus \<lparr>bo_kind = kind, bo_addr = a, bo_data = data,
                                bo_n_bits = (if n > w then w else n), bo_byte_en = be\<rparr> h
         in if s = UVM_NOT_OK then Some (s, h)
            else write_cycles bus bw fld kind be v as (cur + bw) (n - w) s h))"

primrec write_values ::
  "'h bus \<Rightarrow> nat \<Rightarrow> bool \<Rightarrow> uvm_access_e \<Rightarrow> uint \<Rightarrow> nat \<Rightarrow> nat \<Rightarrow> nat \<Rightarrow> data list \<Rightarrow> byte_en \<Rightarrow> addr list
   \<Rightarrow> uvm_status_e \<Rightarrow> 'h \<Rightarrow> (uvm_status_e \<times> 'h) option" where
  "write_values bus bw fld kind stride n lsb skip [] be as s h = Some (s, h)"
| "write_values bus bw fld kind stride n lsb skip (v # vs) be as s h =
     (case prepare bw fld n lsb skip be as of
        None \<Rightarrow> None
      | Some (extra, be, as) \<Rightarrow>
          (case write_cycles bus bw fld kind be (push_bit extra v) as 0 (of_nat n) s h of
             None \<Rightarrow> None
           | Some (s, h) \<Rightarrow>
               write_values bus bw fld kind stride n lsb skip vs be (map (\<lambda>a. a + ucast stride) as) s h))"

text \<open>The addresses of an element of a memory.\<close>

definition element_addrs :: "bus_item \<Rightarrow> uint \<Rightarrow> addr list \<Rightarrow> addr list" where
  "element_addrs rw stride as =
     (if bi_element_kind rw = UVM_MEM then map (\<lambda>a. a + ucast stride * bi_offset rw) as else as)"

definition do_bus_write ::
  "'h bus \<Rightarrow> reg_maps \<Rightarrow> nat \<Rightarrow> bus_item \<Rightarrow> uvm_status_e \<Rightarrow> 'h \<Rightarrow> (uvm_status_e \<times> 'h) option" where
  "do_bus_write bus st m rw s h =
     (case m_get_bus_info st m rw of
        None \<Rightarrow> None
      | Some (as, stride, n, lsb, skip) \<Rightarrow>
          write_values bus (map_n_bytes st UVM_HIER m) (bi_element_kind rw = UVM_FIELD) (bi_access_kind rw) stride
            n lsb skip (bi_value rw) (- 1) (element_addrs rw stride as) s h)"

section \<open>do_bus_read\<close>

text \<open>
  The cycles of one value. The number of bits left is not set anew for the next value. The test
  for unknown bits never holds: the data of a bus operation has two values per bit.
\<close>

primrec read_cycles ::
  "'h bus \<Rightarrow> nat \<Rightarrow> bool \<Rightarrow> uvm_access_e \<Rightarrow> byte_en \<Rightarrow> addr list \<Rightarrow> nat \<Rightarrow> uint \<Rightarrow> data \<Rightarrow> uvm_status_e \<Rightarrow> 'h
   \<Rightarrow> (data \<times> uint \<times> uvm_status_e \<times> 'h) option" where
  "read_cycles bus bw fld kind be [] cur n v s h = Some (v, n, s, h)"
| "read_cycles bus bw fld kind be (a # as) cur n v s h =
     (if fld \<and> 8 < cur + bw then None
      else
        (let w = of_nat (bw * 8);
             ((d, s), h) = bus \<lparr>bo_kind = kind, bo_addr = a, bo_data = 0,
                                bo_n_bits = (if n > w then w else n), bo_byte_en = be\<rparr> h
         in if s = UVM_NOT_OK then Some (v, n, s, h)
            else read_cycles bus bw fld kind be as (cur + bw) (n - w)
                   (v OR push_bit (cur * 8) (d AND uvm_mask_size (bw * 8))) s h))"

primrec read_values ::
  "'h bus \<Rightarrow> nat \<Rightarrow> bool \<Rightarrow> uvm_access_e \<Rightarrow> uint \<Rightarrow> nat \<Rightarrow> nat \<Rightarrow> nat \<Rightarrow> data list \<Rightarrow> byte_en \<Rightarrow> addr list \<Rightarrow> uint
   \<Rightarrow> uvm_status_e \<Rightarrow> 'h \<Rightarrow> (data list \<times> uvm_status_e \<times> 'h) option" where
  "read_values bus bw fld kind stride sz lsb skip [] be as n s h = Some ([], s, h)"
| "read_values bus bw fld kind stride sz lsb skip (v # vs) be as n s h =
     (case prepare bw fld (unat n) lsb skip be as of
        None \<Rightarrow> None
      | Some (extra, be, as) \<Rightarrow>
          (case read_cycles bus bw fld kind be as 0 n 0 s h of
             None \<Rightarrow> None
           | Some (d, n, s, h) \<Rightarrow>
               (let d = (if fld then drop_bit extra d AND uvm_mask_size sz else d)
                in map_option (\<lambda>(ds, s, h). (d # ds, s, h))
                     (read_values bus bw fld kind stride sz lsb skip vs be (map (\<lambda>a. a + ucast stride) as) n s h))))"

definition do_bus_read ::
  "'h bus \<Rightarrow> reg_maps \<Rightarrow> nat \<Rightarrow> bus_item \<Rightarrow> uvm_status_e \<Rightarrow> 'h \<Rightarrow> (data list \<times> uvm_status_e \<times> 'h) option" where
  "do_bus_read bus st m rw s h =
     (case m_get_bus_info st m rw of
        None \<Rightarrow> None
      | Some (as, stride, n, lsb, skip) \<Rightarrow>
          read_values bus (map_n_bytes st UVM_HIER m) (bi_element_kind rw = UVM_FIELD) (bi_access_kind rw) stride
            n lsb skip (bi_value rw) (- 1) (element_addrs rw stride as) (of_nat n) s h)"

section \<open>A bus that stores\<close>

text \<open>
  The bits that the byte enables select, and what is assumed of the design behind the bus where
  a property needs it: a write replaces the enabled bytes of one address, a read returns
  what is stored; both succeed. \<open>view\<close> reads the stored words off the state of the design.
\<close>

definition lane_mask :: "byte_en \<Rightarrow> data" where
  "lane_mask be = foldr (\<lambda>i m. (if bit be i then push_bit (8 * i) 255 else 0) OR m) [0..<8] 0"

definition merge_lanes :: "byte_en \<Rightarrow> data \<Rightarrow> data \<Rightarrow> data" where
  "merge_lanes be new old = (new AND lane_mask be) OR (old AND NOT (lane_mask be))"

definition bus_stores :: "'h bus \<Rightarrow> ('h \<Rightarrow> addr \<Rightarrow> data) \<Rightarrow> bool" where
  "bus_stores bus view \<longleftrightarrow>
     (\<forall>bop h. if bo_kind bop \<in> {UVM_WRITE, UVM_BURST_WRITE}
        then snd (fst (bus bop h)) = UVM_IS_OK
          \<and> view (snd (bus bop h)) = (view h)(bo_addr bop := merge_lanes (bo_byte_en bop) (bo_data bop) (view h (bo_addr bop)))
        else fst (bus bop h) = (view h (bo_addr bop), UVM_IS_OK) \<and> view (snd (bus bop h)) = view h)"

text \<open>An instance: the state is the store.\<close>

definition store_bus :: "(addr \<Rightarrow> data) bus" where
  "store_bus bop h =
     (if bo_kind bop \<in> {UVM_WRITE, UVM_BURST_WRITE}
      then ((0, UVM_IS_OK), h(bo_addr bop := merge_lanes (bo_byte_en bop) (bo_data bop) (h (bo_addr bop))))
      else ((h (bo_addr bop), UVM_IS_OK), h))"

lemma store_bus_stores: "bus_stores store_bus (\<lambda>h. h)"
  by (simp add: bus_stores_def store_bus_def)

lemma bit_push_mask: "bit (push_bit j (mask n :: data)) k \<longleftrightarrow> k < 64 \<and> j \<le> k \<and> k - j < n"
  by (auto simp: bit_simps)

lemma bit_lane: "bit (push_bit (8 * i) (255 :: data)) k \<longleftrightarrow> k < 64 \<and> k div 8 = i"
proof -
  have m: "(255 :: data) = mask 8" by (simp add: mask_eq_exp_minus_1)
  have "8 * i \<le> k \<and> k - 8 * i < 8 \<longleftrightarrow> k div 8 = i"
    by (auto intro!: div_nat_eqI simp: less_diff_conv2 minus_mult_div_eq_mod)
  then show ?thesis by (simp only: m bit_push_mask)
qed

lemma bit_lane_mask: "bit (lane_mask be) k \<longleftrightarrow> k < 64 \<and> bit be (k div 8)"
proof -
  have "bit (foldr (\<lambda>i m. (if bit be i then push_bit (8 * i) 255 else 0) OR m) is (0 :: data)) k
      \<longleftrightarrow> k < 64 \<and> k div 8 \<in> set is \<and> bit be (k div 8)" for "is"
    by (induction "is") (auto simp: bit_or_iff bit_lane)
  then show ?thesis unfolding lane_mask_def by auto
qed

lemma bit_merge: "bit (merge_lanes be new old) k \<longleftrightarrow> (if bit be (k div 8) then bit new k else bit old k)"
  by (auto simp: merge_lanes_def bit_simps bit_lane_mask dest: bit_imp_le_length)

lemma merge_all [simp]: "merge_lanes (- 1) new old = new"
  by (rule bit_word_eqI) (auto simp: bit_merge bit_simps)

lemma bus_stores_write:
  assumes "bus_stores bus view" "bo_kind bop \<in> {UVM_WRITE, UVM_BURST_WRITE}"
  shows "\<exists>d h'. bus bop h = ((d, UVM_IS_OK), h')
    \<and> view h' = (view h)(bo_addr bop := merge_lanes (bo_byte_en bop) (bo_data bop) (view h (bo_addr bop)))"
proof -
  from assms(1) have "\<forall>bop h. bo_kind bop \<in> {UVM_WRITE, UVM_BURST_WRITE} \<longrightarrow> snd (fst (bus bop h)) = UVM_IS_OK
      \<and> view (snd (bus bop h)) = (view h)(bo_addr bop := merge_lanes (bo_byte_en bop) (bo_data bop) (view h (bo_addr bop)))"
    by (simp add: bus_stores_def)
  with assms(2) show ?thesis by (metis prod.collapse)
qed

lemma bus_stores_read:
  assumes "bus_stores bus view" "bo_kind bop \<in> {UVM_READ, UVM_BURST_READ}"
  shows "\<exists>h'. bus bop h = ((view h (bo_addr bop), UVM_IS_OK), h') \<and> view h' = view h"
proof -
  have "bo_kind bop \<notin> {UVM_WRITE, UVM_BURST_WRITE}" using assms(2) by auto
  with assms(1) have "fst (bus bop h) = (view h (bo_addr bop), UVM_IS_OK) \<and> view (snd (bus bop h)) = view h"
    unfolding bus_stores_def by presburger
  then show ?thesis by (metis prod.collapse)
qed

text \<open>What the cycles of one value store, and what they put together.\<close>

primrec written :: "byte_en \<Rightarrow> nat \<Rightarrow> data \<Rightarrow> addr list \<Rightarrow> nat \<Rightarrow> (addr \<Rightarrow> data) \<Rightarrow> addr \<Rightarrow> data" where
  "written be bw v [] cur f = f"
| "written be bw v (a # as) cur f =
     written be bw v as (cur + bw) (f(a := merge_lanes be (drop_bit (cur * 8) v AND mask (bw * 8)) (f a)))"

primrec assembled :: "nat \<Rightarrow> (addr \<Rightarrow> data) \<Rightarrow> addr list \<Rightarrow> nat \<Rightarrow> data" where
  "assembled bw f [] cur = 0"
| "assembled bw f (a # as) cur = push_bit (cur * 8) (f a AND mask (bw * 8)) OR assembled bw f as (cur + bw)"

lemma write_cycles_store:
  assumes "bus_stores bus view" "kind \<in> {UVM_WRITE, UVM_BURST_WRITE}"
  shows "as = [] \<or> cur + (length as - 1) * bw < 8 \<Longrightarrow> fld \<longrightarrow> cur + length as * bw \<le> 8 \<Longrightarrow>
    \<exists>h'. write_cycles bus bw fld kind be v as cur n s h = Some (if as = [] then s else UVM_IS_OK, h')
      \<and> view h' = written be bw v as cur (view h)"
proof (induction as arbitrary: cur n s h)
  case (Cons a as)
  define bop where "bop = \<lparr>bo_kind = kind, bo_addr = a, bo_data = drop_bit (cur * 8) v AND mask (bw * 8),
    bo_n_bits = (if n > of_nat (bw * 8) then of_nat (bw * 8) else n), bo_byte_en = be\<rparr>"
  obtain d h1 where b: "bus bop h = ((d, UVM_IS_OK), h1)"
      "view h1 = (view h)(a := merge_lanes be (drop_bit (cur * 8) v AND mask (bw * 8)) (view h a))"
    using bus_stores_write [OF assms(1), of bop h] assms(2) by (auto simp: bop_def)
  have g: "\<not> (64 \<le> cur * 8 \<or> (fld \<and> 8 < cur + bw))" using Cons.prems by (cases as) auto
  have "as = [] \<or> (cur + bw) + (length as - 1) * bw < 8" "fld \<longrightarrow> (cur + bw) + length as * bw \<le> 8"
    using Cons.prems by (cases as; auto)+
  from Cons.IH [OF this, of "n - of_nat (bw * 8)" UVM_IS_OK h1] b g show ?case
    by (auto simp: bop_def Let_def simp del: fun_upd_apply)
qed simp

lemma read_cycles_store:
  assumes "bus_stores bus view" "kind \<in> {UVM_READ, UVM_BURST_READ}"
  shows "fld \<longrightarrow> cur + length as * bw \<le> 8 \<Longrightarrow>
    \<exists>n' h'. read_cycles bus bw fld kind be as cur n v s h =
      Some (v OR assembled bw (view h) as cur, n', if as = [] then s else UVM_IS_OK, h') \<and> view h' = view h"
proof (induction as arbitrary: cur n v s h)
  case (Cons a as)
  define bop where "bop = \<lparr>bo_kind = kind, bo_addr = a, bo_data = 0,
    bo_n_bits = (if n > of_nat (bw * 8) then of_nat (bw * 8) else n), bo_byte_en = be\<rparr>"
  obtain h1 where b: "bus bop h = ((view h a, UVM_IS_OK), h1)" "view h1 = view h"
    using bus_stores_read [OF assms(1), of bop h] assms(2) by (auto simp: bop_def)
  have g: "\<not> (fld \<and> 8 < cur + bw)" using Cons.prems by auto
  have "fld \<longrightarrow> (cur + bw) + length as * bw \<le> 8" using Cons.prems by auto
  from Cons.IH [OF this, of "n - of_nat (bw * 8)" "v OR push_bit (cur * 8) (view h a AND mask (bw * 8))" UVM_IS_OK h1] b g
  show ?case by (auto simp: bop_def Let_def or.assoc)
qed simp

lemma written_other: "a \<notin> set as \<Longrightarrow> written be bw v as cur f a = f a"
  by (induction as arbitrary: cur f) auto

lemma assembled_cong: "(\<And>a. a \<in> set as \<Longrightarrow> f a = g a) \<Longrightarrow> assembled bw f as cur = assembled bw g as cur"
  by (induction as arbitrary: cur) auto

lemma assembled_written:
  "distinct as \<Longrightarrow>
   assembled bw (written (- 1) bw v as cur f) as cur = v AND mask ((cur + length as * bw) * 8) AND NOT (mask (cur * 8))"
proof (induction as arbitrary: cur f)
  case (Cons a as)
  define f' where "f' = f(a := drop_bit (cur * 8) v AND mask (bw * 8))"
  have "written (- 1) bw v as (cur + bw) f' a = drop_bit (cur * 8) v AND mask (bw * 8)"
    using Cons.prems by (simp add: written_other f'_def)
  with Cons.IH [of "cur + bw" f'] Cons.prems
  have "assembled bw (written (- 1) bw v (a # as) cur f) (a # as) cur =
      push_bit (cur * 8) (drop_bit (cur * 8) v AND mask (bw * 8)) OR
      (v AND mask ((cur + bw + length as * bw) * 8) AND NOT (mask ((cur + bw) * 8)))"
    by (simp add: f'_def [symmetric])
  also have "\<dots> = v AND mask ((cur + length (a # as) * bw) * 8) AND NOT (mask (cur * 8))"
    by (rule bit_word_eqI) (auto simp: bit_simps algebra_simps)
  finally show ?case .
qed (rule bit_word_eqI, simp add: bit_simps)

section \<open>Registers over the bus\<close>

lemma reg_write_store:
  assumes "bus_stores bus view" "map_of (rm_regs (mp_map st m)) (bi_element rw) = Some info"
    "bi_element_kind rw = UVM_REG" "bi_access_kind rw = UVM_WRITE" "bi_value rw = [v]"
    "mi_addr info \<noteq> []" "(length (mi_addr info) - 1) * map_n_bytes st UVM_HIER m < 8"
  shows "\<exists>h'. do_bus_write bus st m rw s h = Some (UVM_IS_OK, h')
    \<and> view h' = written (- 1) (map_n_bytes st UVM_HIER m) v (mi_addr info) 0 (view h)"
  using write_cycles_store [OF assms(1), of UVM_WRITE "mi_addr info" 0 "map_n_bytes st UVM_HIER m" False "- 1" v
      "of_nat (bi_n_bits rw)" s h] assms(2-)
  by (auto simp: do_bus_write_def m_get_bus_info_def prepare_def element_addrs_def)

lemma reg_read_store:
  assumes "bus_stores bus view" "map_of (rm_regs (mp_map st m)) (bi_element rw) = Some info"
    "bi_element_kind rw = UVM_REG" "bi_access_kind rw = UVM_READ" "bi_value rw = [v]" "mi_addr info \<noteq> []"
  shows "\<exists>h'. do_bus_read bus st m rw s h
    = Some ([assembled (map_n_bytes st UVM_HIER m) (view h) (mi_addr info) 0], UVM_IS_OK, h') \<and> view h' = view h"
  using read_cycles_store [OF assms(1), of UVM_READ False 0 "mi_addr info" "map_n_bytes st UVM_HIER m" "- 1"
      "of_nat (bi_n_bits rw)" 0 s h] assms(2-)
  by (auto simp: do_bus_read_def m_get_bus_info_def prepare_def element_addrs_def)

text \<open>C8. A register is read back through the bus. Let the register's entry in the map hold the
  physical addresses that the map computed for its \<open>n\<close> bytes, all different, through maps of
  positive width, and let the design store what the bus writes. Then a write of a value of \<open>n\<close>
  bytes succeeds, leaves all other addresses alone, and a read returns the value.\<close>

theorem bus_reg_roundtrip:
  assumes "bus_stores bus view"
    and "map_of (rm_regs (mp_map st m)) rg = Some info" "distinct (mi_addr info)"
    and "get_physical_addresses d st m offset 0 n = Some (map_n_bytes st UVM_HIER m, mi_addr info, ms)"
    and "up_chain d st m = Some c" "\<forall>x \<in> set c. 0 < rm_n_bytes (mp_map st x)" "0 < n"
    and "(length (mi_addr info) - 1) * map_n_bytes st UVM_HIER m < 8" "fits (8 * n) v"
    and "bi_element_kind rw = UVM_REG" "bi_element rw = rg"
  shows "\<exists>h1 h2. do_bus_write bus st m (rw\<lparr>bi_access_kind := UVM_WRITE, bi_value := [v]\<rparr>) s h = Some (UVM_IS_OK, h1)
    \<and> (\<forall>a. a \<notin> set (mi_addr info) \<longrightarrow> view h1 a = view h a)
    \<and> do_bus_read bus st m (rw\<lparr>bi_access_kind := UVM_READ, bi_value := [0]\<rparr>) s' h1 = Some ([v], UVM_IS_OK, h2)
    \<and> view h2 = view h1"
proof -
  let ?bw = "map_n_bytes st UVM_HIER m"
  have "n \<le> length (mi_addr info) * ?bw"
    using phys_cover [OF assms(5-7), of offset 0] assms(4) by auto
  moreover from this assms(7) have ne: "mi_addr info \<noteq> []" by auto
  ultimately have fit: "v AND mask (length (mi_addr info) * ?bw * 8) = v"
    using fits_mono [OF assms(9)] by (simp add: fits_def)
  from reg_write_store [OF assms(1), of st m "rw\<lparr>bi_access_kind := UVM_WRITE, bi_value := [v]\<rparr>" info v s h] assms ne
  obtain h1 where h1: "do_bus_write bus st m (rw\<lparr>bi_access_kind := UVM_WRITE, bi_value := [v]\<rparr>) s h = Some (UVM_IS_OK, h1)"
      "view h1 = written (- 1) ?bw v (mi_addr info) 0 (view h)" by auto
  from reg_read_store [OF assms(1), of st m "rw\<lparr>bi_access_kind := UVM_READ, bi_value := [0]\<rparr>" info 0 s' h1] assms ne
  obtain h2 where h2: "do_bus_read bus st m (rw\<lparr>bi_access_kind := UVM_READ, bi_value := [0]\<rparr>) s' h1
      = Some ([assembled ?bw (view h1) (mi_addr info) 0], UVM_IS_OK, h2)" "view h2 = view h1" by auto
  have "assembled ?bw (view h1) (mi_addr info) 0 = v"
    unfolding h1(2) assembled_written [OF assms(3)] using fit by simp
  with h1 h2 show ?thesis by (auto simp: written_other)
qed

text \<open>A register of eight bytes on a bus of four, big-endian: the high word lies at the low address.\<close>

definition bus_info :: reg_map_info where
  "bus_info = \<lparr>mi_offset = 0x20, mi_rights = ''RW'', mi_unmapped = False, mi_addr = [0x24, 0x20],
     mi_frontdoor = False, mi_initialized = True\<rparr>"

definition bus_maps :: reg_maps where
  "bus_maps = \<lparr>mp_map = (\<lambda>m. (map_configure (Some 0) 0 4 UVM_BIG_ENDIAN True new_map)
       \<lparr>rm_system_n_bytes := 4, rm_regs := [(7, bus_info)]\<rparr>),
     mp_read_only = {}, mp_write_only = {}\<rparr>"

definition bus_rw :: bus_item where
  "bus_rw = \<lparr>bi_element_kind = UVM_REG, bi_element = 7, bi_n_bits = 64, bi_lsb = 0, bi_access_kind = UVM_READ,
     bi_offset = 0, bi_value = []\<rparr>"

lemma bus_maps_facts:
  "map_of (rm_regs (mp_map bus_maps 0)) 7 = Some bus_info" "map_n_bytes bus_maps UVM_HIER 0 = 4"
  "get_physical_addresses 1 bus_maps 0 0x20 0 8 = Some (4, mi_addr bus_info, [])"
  "up_chain 1 bus_maps 0 = Some [0]" "rm_n_bytes (mp_map bus_maps 0) = 4"
  by code_simp+

theorem bus_reg_roundtrip_witness:
  "\<exists>h1 h2. do_bus_write store_bus bus_maps 0 (bus_rw\<lparr>bi_access_kind := UVM_WRITE, bi_value := [0x1122334455667788]\<rparr>)
       UVM_NOT_OK (\<lambda>_. 0) = Some (UVM_IS_OK, h1)
     \<and> do_bus_read store_bus bus_maps 0 (bus_rw\<lparr>bi_access_kind := UVM_READ, bi_value := [0]\<rparr>)
       UVM_NOT_OK h1 = Some ([0x1122334455667788], UVM_IS_OK, h2)"
proof -
  have "fits (8 * 8) (0x1122334455667788 :: data)" by (simp add: fits_bit)
  moreover have "distinct (mi_addr bus_info)" "length (mi_addr bus_info) = 2" by (simp_all add: bus_info_def)
  ultimately show ?thesis
    using bus_reg_roundtrip [OF store_bus_stores, where st = bus_maps and m = 0 and rg = 7 and info = bus_info and d = 1
      and offset = "0x20" and n = 8 and ms = "[]" and c = "[0]" and v = "0x1122334455667788" and rw = bus_rw
      and s = UVM_NOT_OK and s' = UVM_NOT_OK and h = "\<lambda>_. 0"] bus_maps_facts
    by (fastforce simp: bus_rw_def)
qed

section \<open>Fields over the bus\<close>

lemma skip_lanes_some:
  "idx + temp div 8 \<le> 8 \<Longrightarrow> \<exists>be'. skip_lanes temp idx be = Some (temp mod 8, idx + temp div 8, be')"
proof (induction temp idx be rule: skip_lanes.induct)
  case (1 temp idx be)
  show ?case
  proof (cases "8 \<le> temp")
    case True
    then have d: "temp div 8 = Suc ((temp - 8) div 8)" "(temp - 8) mod 8 = temp mod 8"
      by (simp_all add: le_div_geq le_mod_geq)
    with 1 True show ?thesis by (simp add: skip_lanes.simps [of temp])
  qed (simp add: skip_lanes.simps [of temp])
qed

lemma take_lanes_some:
  "idx + (temp + 7) div 8 \<le> 8 \<Longrightarrow> \<exists>be'. take_lanes temp idx be = Some (idx + (temp + 7) div 8, be')
    \<and> (\<forall>k. bit be' k \<longleftrightarrow> bit be k \<or> (idx \<le> k \<and> k < idx + (temp + 7) div 8))"
proof (induction temp idx be rule: take_lanes.induct)
  case (1 temp idx be)
  show ?case
  proof (cases "0 < temp")
    case True
    then have d: "(temp + 7) div 8 = Suc ((temp - 8 + 7) div 8)" 
    proof (cases "8 \<le> temp")
      case True
      then have "temp + 7 = (temp - 8 + 7) + 8" by simp
      then show ?thesis by (simp add: le_div_geq)
    next
      case False
      then have "temp - 8 + 7 = 7" "8 \<le> temp + 7" "temp + 7 - 8 < 8" using \<open>0 < temp\<close> by simp_all
      then show ?thesis by (simp add: le_div_geq)
    qed
    with 1 True obtain be' where b: "take_lanes (temp - 8) (idx + 1) (set_bit idx be) = Some (idx + 1 + (temp - 8 + 7) div 8, be')"
        "\<forall>k. bit be' k \<longleftrightarrow> bit (set_bit idx be) k \<or> (idx + 1 \<le> k \<and> k < idx + 1 + (temp - 8 + 7) div 8)"
      by auto
    have "take_lanes temp idx be = Some (idx + (temp + 7) div 8, be')"
      using b(1) d True 1(2) by (simp add: take_lanes.simps [of temp])
    moreover have "idx < 8" using 1(2) d by simp
    then have "bit be' k \<longleftrightarrow> bit be k \<or> (idx \<le> k \<and> k < idx + (temp + 7) div 8)" for k
    proof -
      define q where "q = (temp - 8 + 7) div 8"
      have "bit be' k \<longleftrightarrow> bit be k \<or> idx = k \<or> (idx + 1 \<le> k \<and> k < idx + 1 + q)"
        using b(2) \<open>idx < 8\<close> by (auto simp: bit_set_bit_iff q_def [symmetric])
      then show ?thesis unfolding d q_def [symmetric] by auto
    qed
    ultimately show ?thesis by blast
  next
    case False
    then have "take_lanes temp idx be = Some (idx, be)" "(temp + 7) div 8 = 0"
      by (simp_all add: take_lanes.simps [of 0])
    then show ?thesis by auto
  qed
qed

lemma skip_lanes_clears:
  "skip_lanes temp idx be = Some (t, i, be') \<Longrightarrow> bit be' k \<longleftrightarrow> bit be k \<and> \<not> (idx \<le> k \<and> k < i)"
proof (induction temp idx be rule: skip_lanes.induct)
  case (1 temp idx be)
  show ?case
  proof (cases "8 \<le> temp")
    case True
    with 1(2) have n: "idx < 8" "skip_lanes (temp - 8) (idx + 1) (unset_bit idx be) = Some (t, i, be')"
      by (simp_all add: skip_lanes.simps [of temp] split: if_splits)
    have "i' \<le> i2" if "skip_lanes tt i' b = Some (t2, i2, b2)" for tt i' b t2 i2 b2
      using that by (induction tt i' b rule: skip_lanes.induct) (subst (asm) (2) skip_lanes.simps, fastforce split: if_splits)
    with n(2) have "idx + 1 \<le> i" by blast
    with 1(1) [OF True n] show ?thesis by (auto simp: bit_unset_bit_iff)
  next
    case False
    with 1(2) show ?thesis by (auto simp: skip_lanes.simps [of temp])
  qed
qed

text \<open>For a field within 64 bits the byte enables are those of the bytes that hold the field.\<close>

lemma field_lanes_exact:
  assumes "extra + n \<le> 64" "0 < n"
  shows "\<exists>be. field_lanes extra n (- 1) = Some be
    \<and> (\<forall>k. bit be k \<longleftrightarrow> extra div 8 \<le> k \<and> k \<le> (extra + n - 1) div 8)"
proof -
  have "extra div 8 \<le> 8" using assms by linarith
  then obtain b where b: "skip_lanes extra 0 (- 1) = Some (extra mod 8, extra div 8, b)"
    using skip_lanes_some [of 0 extra "- 1"] by auto
  have e: "extra div 8 + (extra mod 8 + n + 7) div 8 = Suc ((extra + n - 1) div 8)"
  proof -
    obtain m where n: "n = Suc m" using assms(2) by (cases n) auto
    have "8 * (extra div 8) + (extra mod 8 + m) = extra + m" by simp
    then have "(extra + m) div 8 = extra div 8 + (extra mod 8 + m) div 8"
      using div_mult_self4 [of 8 "extra div 8" "extra mod 8 + m"] by simp
    moreover have "(8 + (extra mod 8 + m)) div 8 = Suc ((extra mod 8 + m) div 8)" by (simp add: le_div_geq)
    ultimately show ?thesis by (simp add: n)
  qed
  have le: "(extra + n - 1) div 8 < 8" using assms by linarith
  with e have "extra div 8 + (extra mod 8 + n + 7) div 8 \<le> 8" by simp
  from take_lanes_some [OF this, of b] e obtain b' where b': "take_lanes (extra mod 8 + n) (extra div 8) b
      = Some (Suc ((extra + n - 1) div 8), b')"
      "\<forall>k. bit b' k \<longleftrightarrow> bit b k \<or> (extra div 8 \<le> k \<and> k < Suc ((extra + n - 1) div 8))" by auto
  define s e where "s = extra div 8" and "e = (extra + n - 1) div 8"
  let ?be = "b' AND ucast (mask (Suc e) :: data)"
  have "field_lanes extra n (- 1) = Some ?be" by (simp add: field_lanes_def b b' e_def del: mask_Suc_double)
  moreover have "bit ?be k \<longleftrightarrow> s \<le> k \<and> k \<le> e" for k
  proof -
    have "bit (ucast (mask (Suc e) :: data) :: byte_en) k \<longleftrightarrow> k < 8 \<and> k < Suc e"
      by (auto simp: bit_ucast_iff bit_mask_iff simp del: mask_Suc_double)
    moreover have "bit b k \<longleftrightarrow> k < 8 \<and> \<not> k < s"
      using skip_lanes_clears [OF b, of k] by (simp add: bit_minus_1_iff s_def)
    moreover have "bit b' k \<longleftrightarrow> bit b k \<or> (s \<le> k \<and> k < Suc e)" using b'(2) by (simp add: s_def e_def)
    moreover have "e < 8" using le by (simp add: e_def)
    ultimately show ?thesis by (auto simp: bit_and_iff)
  qed
  ultimately show ?thesis unfolding s_def e_def by blast
qed

lemma field_words_one:
  assumes "skip < length as" "n < bw * 8 \<or> length as = Suc skip"
  shows "field_words bw skip n as = Some [as ! skip]"
proof -
  have d: "drop skip as = as ! skip # drop (Suc skip) as" using assms(1) by (rule Cons_nth_drop_Suc [symmetric])
  from assms(2) have "take (n div (bw * 8)) (drop (Suc skip) as) = []"
    by (cases "n < bw * 8") auto
  with assms(1) show ?thesis by (simp add: field_words_def d)
qed

text \<open>The transfer of a field with the words \<open>as\<close> that are left for it.\<close>

lemma field_write_store:
  assumes "bus_stores bus view" "map_of (rm_regs (mp_map st m)) (bi_element rw) = Some info"
    and "bw = map_n_bytes st UVM_HIER m" "0 < bw" "extra = bi_lsb rw mod (bw * 8)" "extra < 64"
    and "bi_element_kind rw = UVM_FIELD" "bi_access_kind rw = UVM_WRITE" "bi_value rw = [v]"
    and "field_lanes extra (bi_n_bits rw) (- 1) = Some be"
    and "field_words bw (bi_lsb rw div (bw * 8)) (bi_n_bits rw) (mi_addr info) = Some as" "as \<noteq> []"
    and "length as * bw \<le> 8"
  shows "\<exists>h'. do_bus_write bus st m rw s h = Some (UVM_IS_OK, h') \<and> view h' = written be bw (push_bit extra v) as 0 (view h)"
proof -
  have "(length as - 1) * bw < 8" using assms(4,12,13) by (cases as) auto
  with write_cycles_store [OF assms(1), of UVM_WRITE as 0 bw True be "push_bit extra v" "of_nat (bi_n_bits rw)" s h] assms(12,13)
  obtain h' where "write_cycles bus bw True UVM_WRITE be (push_bit extra v) as 0 (of_nat (bi_n_bits rw)) s h = Some (UVM_IS_OK, h')"
      "view h' = written be bw (push_bit extra v) as 0 (view h)" by auto
  with assms show ?thesis
    by (simp add: do_bus_write_def m_get_bus_info_def Let_def prepare_def element_addrs_def)
qed

lemma field_read_store:
  assumes "bus_stores bus view" "map_of (rm_regs (mp_map st m)) (bi_element rw) = Some info"
    and "bw = map_n_bytes st UVM_HIER m" "0 < bw" "extra = bi_lsb rw mod (bw * 8)" "extra < 64"
    and "bi_element_kind rw = UVM_FIELD" "bi_access_kind rw = UVM_READ" "bi_value rw = [v]"
    and "field_lanes extra (bi_n_bits rw) (- 1) = Some be" "bi_n_bits rw < 2 ^ 32"
    and "field_words bw (bi_lsb rw div (bw * 8)) (bi_n_bits rw) (mi_addr info) = Some as" "as \<noteq> []"
    and "length as * bw \<le> 8"
  shows "\<exists>h'. do_bus_read bus st m rw s h
    = Some ([drop_bit extra (assembled bw (view h) as 0) AND mask (bi_n_bits rw)], UVM_IS_OK, h') \<and> view h' = view h"
proof -
  have u: "unat (of_nat (bi_n_bits rw) :: uint) = bi_n_bits rw" using assms(11) by (simp add: unat_of_nat)
  from read_cycles_store [OF assms(1), of UVM_READ True 0 as bw be "of_nat (bi_n_bits rw)" 0 s h] assms(13,14)
  obtain n' h' where "read_cycles bus bw True UVM_READ be as 0 (of_nat (bi_n_bits rw)) 0 s h
      = Some (assembled bw (view h) as 0, n', UVM_IS_OK, h')" "view h' = view h" by auto
  with assms u show ?thesis
    by (simp add: do_bus_read_def m_get_bus_info_def Let_def prepare_def element_addrs_def)
qed

text \<open>C34. A field that lies within one bus word, and is narrower than it, or that is in the last
  word of its register, is written exactly: over a bus that stores, one address changes, and there only
  the bytes that hold the field; reading the field returns the written value.\<close>

theorem bus_field_exact:
  assumes "bus_stores bus view"
    and "map_of (rm_regs (mp_map st m)) (bi_element rw) = Some info" "bi_element_kind rw = UVM_FIELD"
    and "w = 8 * map_n_bytes st UVM_HIER m" "w \<le> 64" "0 < n" "n = bi_n_bits rw" "l = bi_lsb rw"
    and "l mod w + n \<le> w" "l div w < length (mi_addr info)" "n < w \<or> length (mi_addr info) = Suc (l div w)"
    and "a = mi_addr info ! (l div w)"
  shows "\<exists>h1 h2. do_bus_write bus st m (rw\<lparr>bi_access_kind := UVM_WRITE, bi_value := [v]\<rparr>) s h = Some (UVM_IS_OK, h1)
    \<and> (\<forall>x. x \<noteq> a \<longrightarrow> view h1 x = view h x)
    \<and> (\<forall>k. k div 8 < l mod w div 8 \<or> (l mod w + n - 1) div 8 < k div 8 \<longrightarrow> bit (view h1 a) k = bit (view h a) k)
    \<and> do_bus_read bus st m (rw\<lparr>bi_access_kind := UVM_READ, bi_value := [0]\<rparr>) s' h1 = Some ([v AND mask n], UVM_IS_OK, h2)
    \<and> view h2 = view h1"
proof -
  let ?bw = "map_n_bytes st UVM_HIER m" and ?e = "l mod w"
  have bw: "0 < ?bw" "?bw * 8 = w" "length [a] * ?bw \<le> 8" using assms(4,5,6,9) by auto
  have e: "?e < 64" "?e + n \<le> 64" "n < 2 ^ 32" using assms(5,6,9) by auto
  obtain be where be: "field_lanes ?e n (- 1) = Some be" "\<forall>k. bit be k \<longleftrightarrow> ?e div 8 \<le> k \<and> k \<le> (?e + n - 1) div 8"
    using field_lanes_exact [OF e(2) assms(6)] by blast
  have fw: "field_words ?bw (l div w) n (mi_addr info) = Some [a]"
    using field_words_one [OF assms(10), of n ?bw] assms(11,12) bw(2) by simp
  note A = assms(2,3,7,8)
  obtain h1 where h1: "do_bus_write bus st m (rw\<lparr>bi_access_kind := UVM_WRITE, bi_value := [v]\<rparr>) s h = Some (UVM_IS_OK, h1)"
      "view h1 = written be ?bw (push_bit ?e v) [a] 0 (view h)"
    using field_write_store [OF assms(1), of st m "rw\<lparr>bi_access_kind := UVM_WRITE, bi_value := [v]\<rparr>" info ?bw ?e v be "[a]" s h]
      A bw e be(1) fw by auto
  obtain h2 where h2: "do_bus_read bus st m (rw\<lparr>bi_access_kind := UVM_READ, bi_value := [0]\<rparr>) s' h1
      = Some ([drop_bit ?e (assembled ?bw (view h1) [a] 0) AND mask n], UVM_IS_OK, h2)" "view h2 = view h1"
    using field_read_store [OF assms(1), of st m "rw\<lparr>bi_access_kind := UVM_READ, bi_value := [0]\<rparr>" info ?bw ?e 0 be "[a]" s' h1]
      A bw e be(1) fw by auto
  have a: "bit (view h1 a) k = (if bit be (k div 8) then bit (push_bit ?e v AND mask w) k else bit (view h a) k)" for k
    using bw(2) by (simp add: h1(2) bit_merge)
  have "bit be ((?e + k) div 8)" if "k < n" for k
    using that be(2) div_le_mono [of ?e "?e + k" 8] div_le_mono [of "?e + k" "?e + n - 1" 8] by simp
  then have "drop_bit ?e (assembled ?bw (view h1) [a] 0) AND mask n = v AND mask n"
    using e(2) assms(9) bw(2) by (intro bit_word_eqI) (auto simp: bit_simps a)
  moreover have "bit (view h1 a) k = bit (view h a) k"
    if "k div 8 < ?e div 8 \<or> (?e + n - 1) div 8 < k div 8" for k
  proof -
    have "\<not> bit be (k div 8)" using that be(2) by auto
    then show ?thesis by (simp add: a)
  qed
  ultimately show ?thesis using h1 h2 by auto
qed

text \<open>Bits 8 to 19 of the register above: they lie in the low word, at address 0x24.\<close>

definition field_rw :: bus_item where
  "field_rw = bus_rw\<lparr>bi_element_kind := UVM_FIELD, bi_n_bits := 12, bi_lsb := 8\<rparr>"

theorem bus_field_exact_witness:
  "\<exists>h1 h2. do_bus_write store_bus bus_maps 0 (field_rw\<lparr>bi_access_kind := UVM_WRITE, bi_value := [0xABC]\<rparr>)
       UVM_NOT_OK (\<lambda>_. - 1) = Some (UVM_IS_OK, h1)
     \<and> h1 0x20 = - 1
     \<and> do_bus_read store_bus bus_maps 0 (field_rw\<lparr>bi_access_kind := UVM_READ, bi_value := [0]\<rparr>)
       UVM_NOT_OK h1 = Some ([0xABC AND mask 12], UVM_IS_OK, h2)"
  using bus_field_exact [OF store_bus_stores, where st = bus_maps and m = 0 and rw = field_rw and info = bus_info
      and w = 32 and n = 12 and l = 8 and a = "0x24" and v = "0xABC" and s = UVM_NOT_OK and s' = UVM_NOT_OK and h = "\<lambda>_. - 1"]
    bus_maps_facts
  by (fastforce simp: bus_rw_def field_rw_def bus_info_def)

text \<open>The cycles of a field are one too many when the field fills its bus word and its register
  has a further word: over a bus that stores, writing the field also sets that word to zero.\<close>

theorem bus_field_clobbers:
  assumes "bus_stores bus view"
    and "map_of (rm_regs (mp_map st m)) (bi_element rw) = Some info" "bi_element_kind rw = UVM_FIELD"
    and "w = 8 * map_n_bytes st UVM_HIER m" "0 < w" "w \<le> 32" "bi_n_bits rw = w" "bi_lsb rw mod w = 0"
    and "mi_addr info = us @ a # b # ds" "length us = bi_lsb rw div w" "a \<noteq> b" "fits w v"
  shows "\<exists>h1. do_bus_write bus st m (rw\<lparr>bi_access_kind := UVM_WRITE, bi_value := [v]\<rparr>) s h = Some (UVM_IS_OK, h1)
    \<and> slice_of 0 w (view h1 a) = v \<and> slice_of 0 w (view h1 b) = 0"
proof -
  let ?bw = "map_n_bytes st UVM_HIER m"
  have bw: "0 < ?bw" "?bw * 8 = w" "length [a, b] * ?bw \<le> 8" using assms(4,5,6) by auto
  obtain be where be: "field_lanes 0 w (- 1) = Some be" "\<forall>k. bit be k \<longleftrightarrow> k \<le> (w - 1) div 8"
    using field_lanes_exact [of 0 w] assms(5,6) by auto
  have lanes: "bit be (k div 8)" if "k < w" for k
    using that be(2) assms(5) by (auto intro: div_le_mono)
  have fw: "field_words ?bw (bi_lsb rw div w) w (mi_addr info) = Some [a, b]"
    using assms(5,9,10) bw(2) by (simp add: field_words_def)
  obtain h1 where h1: "do_bus_write bus st m (rw\<lparr>bi_access_kind := UVM_WRITE, bi_value := [v]\<rparr>) s h = Some (UVM_IS_OK, h1)"
      "view h1 = written be ?bw v [a, b] 0 (view h)"
    using field_write_store [OF assms(1), of st m "rw\<lparr>bi_access_kind := UVM_WRITE, bi_value := [v]\<rparr>" info ?bw 0 v be "[a, b]" s h]
      assms(2,3,7,8) bw be(1) fw by auto
  have "slice_of 0 w (view h1 a) = v"
    using assms(11,12) bw(2) lanes
    by (intro bit_word_eqI) (auto simp: h1(2) bit_slice_of bit_merge bit_simps fits_bit)
  moreover have "slice_of 0 w (view h1 b) = 0"
    using assms(11,12) bw(2) lanes
    by (intro bit_word_eqI) (auto simp: h1(2) bit_slice_of bit_merge bit_simps fits_bit)
  ultimately show ?thesis using h1(1) by blast
qed

theorem bus_field_clobbers_witness:
  "\<exists>h1. do_bus_write store_bus bus_maps 0 (field_rw\<lparr>bi_n_bits := 32, bi_lsb := 0, bi_access_kind := UVM_WRITE, bi_value := [5]\<rparr>)
       UVM_NOT_OK (\<lambda>_. - 1) = Some (UVM_IS_OK, h1)
     \<and> slice_of 0 32 (h1 0x24) = 5 \<and> slice_of 0 32 (h1 0x20) = 0"
proof -
  let ?rw = "field_rw\<lparr>bi_n_bits := 32, bi_lsb := 0\<rparr>"
  have f: "fits 32 (5 :: data)" unfolding fits_def by code_simp
  have r: "map_of (rm_regs (mp_map bus_maps 0)) (bi_element ?rw) = Some bus_info" "bi_element_kind ?rw = UVM_FIELD"
      "32 = 8 * map_n_bytes bus_maps UVM_HIER 0" "bi_n_bits ?rw = 32" "bi_lsb ?rw mod 32 = 0" "length [] = bi_lsb ?rw div 32"
      "mi_addr bus_info = [] @ 0x24 # 0x20 # []"
    using bus_maps_facts by (simp_all add: bus_rw_def field_rw_def bus_info_def)
  show ?thesis
    using bus_field_clobbers [OF store_bus_stores r(1-3) _ _ r(4,5,7,6) _ f, where s = UVM_NOT_OK and h = "\<lambda>_. - 1"]
    by simp
qed

end
