(* ===== verification/Mem_Mam.thy ===== *)
theory Mem_Mam
  imports Reg_Model
begin

text \<open>
  \<open>src/uvmsc/reg/uvm_mem_mam.cpp\<close> with \<open>uvm_mem_mam_cfg.h\<close>, \<open>uvm_mem_mam_policy.h\<close> and
  \<open>uvm_mem_region.cpp\<close>: the memory allocation manager. It keeps the regions in use in a vector;
  a region is an object with an identity (\<open>rg_id\<close>, the pointer) and its first and last offset.
  Offsets are \<open>unsigned long\<close> (64 bits), sizes are \<open>unsigned int\<close> (32 bits), both wrap. An
  operation that divides by \<open>n_bytes\<close> of the configuration stops the program when that is 0:
  its result is \<open>None\<close>. \<open>m_fname\<close>, \<open>m_lineno\<close> and the text output are left out.
\<close>

section \<open>State\<close>

datatype alloc_mode_e = GREEDY | THRIFTY

datatype locality_e = BROAD | NEARBY

record mem_mam_cfg =
  cf_n_bytes :: uint
  cf_start :: ulong
  cf_end :: ulong
  cf_mode :: alloc_mode_e
  cf_locality :: locality_e

definition new_mam_cfg :: mem_mam_cfg where
  "new_mam_cfg = \<lparr>cf_n_bytes = 0, cf_start = 0, cf_end = 0, cf_mode = GREEDY, cf_locality = BROAD\<rparr>"

record mem_region =
  rg_id :: nat
  rg_start :: ulong
  rg_end :: ulong
  rg_len :: uint
  rg_n_bytes :: uint

record mam_policy =
  mp_len :: uint
  mp_start :: ulong
  mp_min :: ulong
  mp_max :: ulong
  mp_in_use :: "mem_region list"

definition new_mam_policy :: mam_policy where
  "new_mam_policy = \<lparr>mp_len = 0, mp_start = 0, mp_min = 0, mp_max = 0, mp_in_use = []\<rparr>"

record mem_mam =
  mm_cfg :: mem_mam_cfg
  mm_has_memory :: bool
  mm_in_use :: "mem_region list"
  mm_default_alloc :: mam_policy
  mm_for_each_idx :: int
  mm_next :: nat

definition new_mem_mam :: "mem_mam_cfg \<Rightarrow> bool \<Rightarrow> mem_mam" where
  "new_mem_mam cfg has_mem =
     \<lparr>mm_cfg = cfg, mm_has_memory = has_mem, mm_in_use = [], mm_default_alloc = new_mam_policy,
      mm_for_each_idx = - 1, mm_next = 0\<rparr>"

section \<open>Operations\<close>

primrec reconfigure_check :: "mem_mam_cfg \<Rightarrow> mem_region list \<Rightarrow> bool" where
  "reconfigure_check cfg [] = True"
| "reconfigure_check cfg (r # rs) =
     (if rg_start r < cf_start cfg \<or> rg_end r > cf_end cfg then False else reconfigure_check cfg rs)"

definition reconfigure :: "mem_mam_cfg option \<Rightarrow> mem_mam \<Rightarrow> mem_mam_cfg \<times> mem_mam \<times> msg list" where
  "reconfigure cfg m =
     (case cfg of
        None \<Rightarrow> (mm_cfg m, m, [])
      | Some c \<Rightarrow>
          if cf_n_bytes c \<noteq> cf_n_bytes (mm_cfg m) then (mm_cfg m, m, [(UVM_ERROR, ''uvm_mem_mam'')])
          else if \<not> reconfigure_check c (mm_in_use m) then (mm_cfg m, m, [(UVM_ERROR, ''uvm_mem_mam'')])
          else (mm_cfg m, m\<lparr>mm_cfg := c\<rparr>, []))"

text \<open>
  The loop of \<open>reserve_region\<close>: it fails on an overlap and inserts before the first region that
  starts below the new one.
\<close>

primrec reserve_loop :: "mem_region \<Rightarrow> mem_region list \<Rightarrow> mem_region list option" where
  "reserve_loop new [] = Some [new]"
| "reserve_loop new (r # rs) =
     (if rg_start new \<le> rg_end r \<and> rg_end new \<ge> rg_start r then None
      else if rg_start new > rg_start r then Some (new # r # rs)
      else map_option (\<lambda>rs'. r # rs') (reserve_loop new rs))"

definition region_of :: "nat \<Rightarrow> ulong \<Rightarrow> ulong \<Rightarrow> uint \<Rightarrow> mem_region" where
  "region_of i start fin n_bytes =
     \<lparr>rg_id = i, rg_start = start, rg_end = fin, rg_len = ucast (fin - start + 1), rg_n_bytes = n_bytes\<rparr>"

definition end_offset :: "mem_mam_cfg \<Rightarrow> ulong \<Rightarrow> uint \<Rightarrow> ulong" where
  "end_offset cfg start n_bytes = start + ucast ((n_bytes - 1) div cf_n_bytes cfg)"

definition new_region :: "mem_mam \<Rightarrow> ulong \<Rightarrow> uint \<Rightarrow> mem_region" where
  "new_region m start n_bytes =
     (let fin = end_offset (mm_cfg m) start n_bytes;
          n_bytes = ucast ((fin - start + 1) * ucast (cf_n_bytes (mm_cfg m)))
      in region_of (mm_next m) start fin n_bytes)"

definition reserve_region ::
  "ulong \<Rightarrow> uint \<Rightarrow> mem_mam \<Rightarrow> (mem_region option \<times> mem_mam \<times> msg list) option" where
  "reserve_region start n_bytes m =
     (let fail = Some (None, m, [(UVM_ERROR, ''RegModel'')])
      in if n_bytes = 0 then fail
         else if start < cf_start (mm_cfg m) then fail
         else if cf_n_bytes (mm_cfg m) = 0 then None
         else
           (let new = new_region m start n_bytes
            in if rg_end new > cf_end (mm_cfg m) then fail
               else (case reserve_loop new (mm_in_use m) of
                       None \<Rightarrow> fail
                     | Some rs \<Rightarrow> Some (Some new, m\<lparr>mm_in_use := rs, mm_next := Suc (mm_next m)\<rparr>, []))))"

text \<open>\<open>request_region\<close>: the fields of the policy are filled in, but it is not randomised.\<close>

definition fill_policy :: "mem_mam \<Rightarrow> uint \<Rightarrow> mam_policy \<Rightarrow> mam_policy" where
  "fill_policy m n_bytes alloc =
     alloc\<lparr>mp_len := (n_bytes - 1) div cf_n_bytes (mm_cfg m) + 1, mp_min := cf_start (mm_cfg m),
           mp_max := cf_end (mm_cfg m), mp_in_use := mm_in_use m\<rparr>"

definition request_region ::
  "uint \<Rightarrow> mam_policy option \<Rightarrow> mem_mam
    \<Rightarrow> (mem_region option \<times> mam_policy \<times> mem_mam \<times> msg list) option" where
  "request_region n_bytes alloc m =
     (if cf_n_bytes (mm_cfg m) = 0 then None
      else
        (let (a, m) = (case alloc of
               None \<Rightarrow> (let a = fill_policy m n_bytes (mm_default_alloc m) in (a, m\<lparr>mm_default_alloc := a\<rparr>))
             | Some a \<Rightarrow> (fill_policy m n_bytes a, m))
         in map_option (\<lambda>(r, m, ms). (r, a, m, ms)) (reserve_region (mp_start a) n_bytes m)))"

primrec erase_region :: "nat \<Rightarrow> mem_region list \<Rightarrow> mem_region list option" where
  "erase_region i [] = None"
| "erase_region i (r # rs) =
     (if rg_id r = i then Some rs else map_option (\<lambda>rs'. r # rs') (erase_region i rs))"

definition release_region :: "nat option \<Rightarrow> mem_mam \<Rightarrow> mem_mam \<times> msg list" where
  "release_region region m =
     (case region of
        None \<Rightarrow> (m, [])
      | Some i \<Rightarrow>
          (case erase_region i (mm_in_use m) of
             Some rs \<Rightarrow> (m\<lparr>mm_in_use := rs\<rparr>, [])
           | None \<Rightarrow> (m, [(UVM_ERROR, ''RegModel'')])))"

definition release_all_regions :: "mem_mam \<Rightarrow> mem_mam" where
  "release_all_regions m = m\<lparr>mm_in_use := []\<rparr>"

definition for_each :: "bool \<Rightarrow> mem_mam \<Rightarrow> mem_region option \<times> mem_mam" where
  "for_each reset m =
     (let idx = (if reset then - 1 else mm_for_each_idx m) + 1; m = m\<lparr>mm_for_each_idx := idx\<rparr>
      in if idx \<ge> int (length (mm_in_use m)) then (None, m) else (Some (mm_in_use m ! nat idx), m))"

section \<open>Access through a region\<close>

text \<open>
  The memory behind the manager is a parameter: what its \<open>write\<close>, \<open>read\<close>, \<open>burst_write\<close>,
  \<open>burst_read\<close>, \<open>poke\<close> and \<open>peek\<close> do at an offset. \<open>region_guard\<close> is the check that all
  single-location operations share, \<open>burst_guard\<close> the one of the bursts.
\<close>

definition region_guard :: "bool \<Rightarrow> addr \<Rightarrow> mem_region \<Rightarrow> bool" where
  "region_guard has_mem offset rg \<longleftrightarrow> has_mem \<and> \<not> offset > ucast (rg_len rg)"

definition region_access ::
  "(addr \<Rightarrow> 'h \<Rightarrow> uvm_status_e \<times> 'r \<times> 'h) \<Rightarrow> bool \<Rightarrow> addr \<Rightarrow> mem_region \<Rightarrow> 'h
    \<Rightarrow> uvm_status_e \<times> 'r option \<times> 'h \<times> msg list" where
  "region_access mem has_mem offset rg h =
     (if region_guard has_mem offset rg
      then (let (st, v, h) = mem (offset + rg_start rg) h in (st, Some v, h, []))
      else (UVM_NOT_OK, None, h, [(UVM_ERROR, ''RegModel'')]))"

definition region_write where
  "region_write mem_write has_mem offset value rg h =
     region_access (\<lambda>a. mem_write a value) has_mem offset rg h"

definition region_read where
  "region_read mem_read has_mem offset rg h = region_access mem_read has_mem offset rg h"

definition region_poke where
  "region_poke mem_poke has_mem offset value rg h =
     region_access (\<lambda>a. mem_poke a value) has_mem offset rg h"

definition region_peek where
  "region_peek mem_peek has_mem offset rg h = region_access mem_peek has_mem offset rg h"

definition burst_guard :: "bool \<Rightarrow> addr \<Rightarrow> nat \<Rightarrow> mem_region \<Rightarrow> bool" where
  "burst_guard has_mem offset n rg \<longleftrightarrow> has_mem \<and> \<not> offset + of_nat n > ucast (rg_len rg)"

definition region_burst_write ::
  "(addr \<Rightarrow> data list \<Rightarrow> 'h \<Rightarrow> uvm_status_e \<times> 'h) \<Rightarrow> bool \<Rightarrow> addr \<Rightarrow> data list \<Rightarrow> mem_region \<Rightarrow> 'h
    \<Rightarrow> uvm_status_e \<times> 'h \<times> msg list" where
  "region_burst_write mem has_mem offset vs rg h =
     (if burst_guard has_mem offset (length vs) rg
      then (let (st, h) = mem (offset + rg_start rg) vs h in (st, h, []))
      else (UVM_NOT_OK, h, [(UVM_ERROR, ''RegModel'')]))"

text \<open>The vector passed to \<open>burst_read\<close> gives the number of locations.\<close>

definition region_burst_read ::
  "(addr \<Rightarrow> data list \<Rightarrow> 'h \<Rightarrow> uvm_status_e \<times> data list \<times> 'h) \<Rightarrow> bool \<Rightarrow> addr \<Rightarrow> data list \<Rightarrow> mem_region
    \<Rightarrow> 'h \<Rightarrow> uvm_status_e \<times> data list \<times> 'h \<times> msg list" where
  "region_burst_read mem has_mem offset vs rg h =
     (if burst_guard has_mem offset (length vs) rg
      then (let (st, vs, h) = mem (offset + rg_start rg) vs h in (st, vs, h, []))
      else (UVM_NOT_OK, vs, h, [(UVM_ERROR, ''RegModel'')]))"

section \<open>The regions in use\<close>

definition covers :: "mem_region \<Rightarrow> ulong set" where
  "covers r = {rg_start r .. rg_end r}"

text \<open>
  Invariant: the regions are not empty, kept in decreasing order without overlap, lie in the
  managed space, and their identities are those of live objects.
\<close>

definition regions_ok :: "mem_region list \<Rightarrow> bool" where
  "regions_ok rs \<longleftrightarrow> sorted_wrt (\<lambda>a b. rg_end b < rg_start a) rs \<and> (\<forall>r \<in> set rs. rg_start r \<le> rg_end r)
     \<and> distinct (map rg_id rs)"

definition mam_inv :: "mem_mam \<Rightarrow> bool" where
  "mam_inv m \<longleftrightarrow> regions_ok (mm_in_use m)
     \<and> (\<forall>r \<in> set (mm_in_use m). cf_start (mm_cfg m) \<le> rg_start r \<and> rg_end r \<le> cf_end (mm_cfg m)
          \<and> rg_id r < mm_next m)"

lemma regions_ok_Cons:
  "regions_ok (r # rs) \<longleftrightarrow> (\<forall>x \<in> set rs. rg_end x < rg_start r) \<and> rg_start r \<le> rg_end r
     \<and> rg_id r \<notin> rg_id ` set rs \<and> regions_ok rs"
  by (auto simp: regions_ok_def)

lemma reserve_loop_None:
  assumes "regions_ok rs" "rg_start new \<le> rg_end new"
  shows "reserve_loop new rs = None \<longleftrightarrow>
    (\<exists>r \<in> set rs. rg_start new \<le> rg_end r \<and> rg_end new \<ge> rg_start r)"
  using assms
proof (induction rs)
  case (Cons r rs)
  show ?case
  proof (cases "rg_start new > rg_start r")
    case True
    have "rg_end x < rg_start new" if "x \<in> set rs" for x
      using Cons.prems(1) that True by (auto simp: regions_ok_Cons dest: less_trans)
    with True show ?thesis by force
  next
    case False
    with Cons show ?thesis by (auto simp: regions_ok_Cons)
  qed
qed simp

lemma reserve_loop_Some:
  assumes "regions_ok rs" "rg_start new \<le> rg_end new" "rg_id new \<notin> rg_id ` set rs"
    and "reserve_loop new rs = Some rs'"
  shows "regions_ok rs' \<and> set rs' = insert new (set rs)"
  using assms
proof (induction rs arbitrary: rs')
  case Nil
  then show ?case by (auto simp: regions_ok_def)
next
  case (Cons r rs)
  show ?case
  proof (cases "rg_start new > rg_start r")
    case True
    with Cons.prems have "rs' = new # r # rs" "rg_end r < rg_start new"
      by (auto split: if_splits)
    with Cons.prems True show ?thesis by (force simp: regions_ok_Cons)
  next
    case False
    with Cons.prems obtain rs2 where rs2: "reserve_loop new rs = Some rs2" "rs' = r # rs2"
      "\<not> (rg_start new \<le> rg_end r \<and> rg_end new \<ge> rg_start r)"
      by (auto split: if_splits)
    have ih: "regions_ok rs2 \<and> set rs2 = insert new (set rs)"
      by (rule Cons.IH [OF _ Cons.prems(2) _ rs2(1)]) (use Cons.prems in \<open>simp_all add: regions_ok_Cons\<close>)
    have "rg_start r \<le> rg_end r" using Cons.prems(1) by (simp add: regions_ok_Cons)
    with False rs2(3) have "rg_end new < rg_start r" by fastforce
    with ih rs2(2) Cons.prems show ?thesis by (auto simp: regions_ok_Cons)
  qed
qed

lemma erase_region_Some:
  "regions_ok rs \<Longrightarrow> erase_region i rs = Some rs' \<Longrightarrow>
   regions_ok rs' \<and> set rs' = {r \<in> set rs. rg_id r \<noteq> i} \<and> (\<exists>r \<in> set rs. rg_id r = i)"
proof (induction rs arbitrary: rs')
  case (Cons r rs)
  then show ?case by (fastforce simp: regions_ok_Cons split: if_splits)
qed simp

lemma erase_region_None: "erase_region i rs = None \<longleftrightarrow> i \<notin> rg_id ` set rs"
  by (induction rs) auto

lemma reconfigure_check_all:
  "reconfigure_check cfg rs \<longleftrightarrow> (\<forall>r \<in> set rs. cf_start cfg \<le> rg_start r \<and> rg_end r \<le> cf_end cfg)"
  by (induction rs) (auto simp: not_less)

text \<open>The requested range does not wrap around the 64-bit offset space.\<close>

definition no_wrap :: "mem_mam \<Rightarrow> ulong \<Rightarrow> uint \<Rightarrow> bool" where
  "no_wrap m start n_bytes \<longleftrightarrow> start \<le> end_offset (mm_cfg m) start n_bytes"

lemma new_region_simps [simp]:
  "rg_start (new_region m start n) = start"
  "rg_end (new_region m start n) = end_offset (mm_cfg m) start n"
  "rg_id (new_region m start n) = mm_next m"
  by (simp_all add: new_region_def region_of_def Let_def)

lemma reserve_region_result:
  "reserve_region start n m = Some (res, m', ms) \<Longrightarrow>
   (res = None \<and> m' = m \<and> ms = [(UVM_ERROR, ''RegModel'')])
   \<or> (\<exists>rs. reserve_loop (new_region m start n) (mm_in_use m) = Some rs \<and> res = Some (new_region m start n)
        \<and> ms = [] \<and> m' = m\<lparr>mm_in_use := rs, mm_next := Suc (mm_next m)\<rparr> \<and> cf_start (mm_cfg m) \<le> start
        \<and> end_offset (mm_cfg m) start n \<le> cf_end (mm_cfg m))"
  by (simp add: reserve_region_def Let_def not_less split: if_split_asm option.split_asm)

lemma reserve_region_cases:
  assumes "mam_inv m" "no_wrap m start n" "reserve_region start n m = Some (res, m', ms)"
  shows "mam_inv m' \<and> (case res of
      None \<Rightarrow> m' = m \<and> ms = [(UVM_ERROR, ''RegModel'')]
    | Some r \<Rightarrow> r = new_region m start n \<and> ms = [] \<and> r \<notin> set (mm_in_use m)
        \<and> set (mm_in_use m') = insert r (set (mm_in_use m))
        \<and> mm_cfg m' = mm_cfg m \<and> mm_default_alloc m' = mm_default_alloc m)"
proof -
  let ?new = "new_region m start n"
  have fresh: "rg_id ?new \<notin> rg_id ` set (mm_in_use m)"
    using assms(1) by (auto simp: mam_inv_def)
  have ne: "rg_start ?new \<le> rg_end ?new" using assms(2) by (simp add: no_wrap_def)
  have ok: "regions_ok (mm_in_use m)" using assms(1) by (simp add: mam_inv_def)
  consider (fail) "res = None" "m' = m" "ms = [(UVM_ERROR, ''RegModel'')]"
    | (new) rs where "reserve_loop ?new (mm_in_use m) = Some rs" "res = Some ?new" "ms = []"
        "m' = m\<lparr>mm_in_use := rs, mm_next := Suc (mm_next m)\<rparr>" "cf_start (mm_cfg m) \<le> start"
        "end_offset (mm_cfg m) start n \<le> cf_end (mm_cfg m)"
    using reserve_region_result [OF assms(3)] by blast
  then show ?thesis
  proof cases
    case new
    have "?new \<notin> set (mm_in_use m)" using fresh by blast
    with new reserve_loop_Some [OF ok ne fresh new(1)] assms(1) show ?thesis
      by (auto simp: mam_inv_def less_Suc_eq)
  qed (use assms(1) in simp)
qed

section \<open>The manager as a machine\<close>

datatype mam_op =
    MReserve ulong uint
  | MRequest uint "mam_policy option"
  | MRelease "nat option"
  | MReleaseAll
  | MReconfigure "mem_mam_cfg option"
  | MForEach bool

text \<open>A call that stops the program leaves no state behind: the state stays as it was.\<close>

fun mam_step :: "mam_op \<Rightarrow> mem_mam \<Rightarrow> mem_mam" where
  "mam_step (MReserve start n) m = (case reserve_region start n m of None \<Rightarrow> m | Some (_, m', _) \<Rightarrow> m')"
| "mam_step (MRequest n a) m = (case request_region n a m of None \<Rightarrow> m | Some (_, _, m', _) \<Rightarrow> m')"
| "mam_step (MRelease i) m = fst (release_region i m)"
| "mam_step MReleaseAll m = release_all_regions m"
| "mam_step (MReconfigure c) m = fst (snd (reconfigure c m))"
| "mam_step (MForEach b) m = snd (for_each b m)"

definition policy_start :: "mam_policy option \<Rightarrow> mem_mam \<Rightarrow> ulong" where
  "policy_start alloc m = mp_start (case alloc of None \<Rightarrow> mm_default_alloc m | Some a \<Rightarrow> a)"

fun mam_ok :: "mam_op \<Rightarrow> mem_mam \<Rightarrow> bool" where
  "mam_ok (MReserve start n) m = no_wrap m start n"
| "mam_ok (MRequest n a) m = no_wrap m (policy_start a m) n"
| "mam_ok _ m = True"

lemma mam_inv_release: "mam_inv m \<Longrightarrow> mam_inv (fst (release_region i m))"
  using erase_region_Some [of "mm_in_use m"]
  by (simp add: release_region_def mam_inv_def split: option.split)

lemma mam_inv_reconfigure: "mam_inv m \<Longrightarrow> mam_inv (fst (snd (reconfigure c m)))"
  by (auto simp: reconfigure_def mam_inv_def reconfigure_check_all split: option.splits)

lemma mam_inv_default_alloc [simp]: "mam_inv (m\<lparr>mm_default_alloc := a\<rparr>) = mam_inv m"
  by (simp add: mam_inv_def)

lemma request_region_reserve:
  assumes "request_region n alloc m = Some (res, a, m', ms)"
  obtains d where "reserve_region (policy_start alloc m) n (m\<lparr>mm_default_alloc := d\<rparr>) = Some (res, m', ms)"
proof (cases alloc)
  case None
  with assms that show ?thesis
    by (auto simp: request_region_def fill_policy_def policy_start_def Let_def split: if_splits)
next
  case (Some b)
  have "m\<lparr>mm_default_alloc := mm_default_alloc m\<rparr> = m" by simp
  with Some assms that [of "mm_default_alloc m"] show ?thesis
    by (auto simp: request_region_def fill_policy_def policy_start_def Let_def split: if_splits)
qed

lemma mam_step_reserve: "mam_inv m \<Longrightarrow> no_wrap m start n \<Longrightarrow> mam_inv (mam_step (MReserve start n) m)"
  using reserve_region_cases [of m start n] by (auto split: option.splits)

lemma mam_step_request:
  assumes "mam_inv m" "no_wrap m (policy_start alloc m) n"
  shows "mam_inv (mam_step (MRequest n alloc) m)"
proof (cases "request_region n alloc m")
  case (Some res)
  obtain r b m' ms where res: "res = (r, b, m', ms)" by (cases res) auto
  obtain d where "reserve_region (policy_start alloc m) n (m\<lparr>mm_default_alloc := d\<rparr>) = Some (r, m', ms)"
    using request_region_reserve [OF Some [unfolded res]] .
  then have "mam_inv m'"
    using reserve_region_cases [of "m\<lparr>mm_default_alloc := d\<rparr>"] assms by (simp add: no_wrap_def)
  with Some res show ?thesis by simp
qed (use assms in simp)

lemma mam_inv_release_all: "mam_inv (release_all_regions m)"
  by (simp add: release_all_regions_def mam_inv_def regions_ok_def)

lemma mam_inv_for_each: "mam_inv m \<Longrightarrow> mam_inv (snd (for_each b m))"
  by (simp add: for_each_def Let_def mam_inv_def)

lemma mam_step_inv: "mam_inv m \<Longrightarrow> mam_ok e m \<Longrightarrow> mam_inv (mam_step e m)"
  by (cases e) (simp_all add: mam_step_reserve mam_step_request mam_inv_release mam_inv_reconfigure
    mam_inv_release_all mam_inv_for_each del: mam_step.simps(1,2))

interpretation mam_machine: guarded_machine mam_step mam_ok mam_inv
  by unfold_locales (rule mam_step_inv)

section \<open>Properties\<close>

lemma mam_inv_new: "mam_inv (new_mem_mam cfg b)"
  by (simp add: mam_inv_def new_mem_mam_def regions_ok_def)

lemma regions_disjoint:
  assumes "regions_ok rs" "r \<in> set rs" "r' \<in> set rs" "r \<noteq> r'"
  shows "covers r \<inter> covers r' = {}"
proof -
  have "regions_ok rs \<Longrightarrow> rg_end r < rg_start r' \<or> rg_end r' < rg_start r"
    using assms(2-4) by (induction rs) (auto simp: regions_ok_Cons)
  with assms(1) show ?thesis by (auto simp: covers_def dest: less_le_trans le_less_trans)
qed

text \<open>C5. The regions of the manager never overlap and stay inside the managed space: from a new
  manager, every sequence of reservations, requests, releases, reconfigurations and iterations in
  which no reserved or requested range wraps around the 64-bit offset space keeps any two regions
  in use disjoint and inside the configured range. (A range that wraps may be accepted outside the
  managed space, lemma \<open>reserve_accepts_wrapped\<close>.)\<close>

theorem mam_regions_disjoint:
  assumes "\<forall>k < length es. mam_ok (es ! k) (fold mam_step (take k es) (new_mem_mam cfg b))"
    and "m = fold mam_step es (new_mem_mam cfg b)" and "r \<in> set (mm_in_use m)"
  shows "(\<forall>r' \<in> set (mm_in_use m). r' \<noteq> r \<longrightarrow> covers r \<inter> covers r' = {})
    \<and> covers r \<noteq> {} \<and> covers r \<subseteq> {cf_start (mm_cfg m) .. cf_end (mm_cfg m)}"
proof -
  have "mam_inv m"
    unfolding assms(2) by (rule mam_machine.run_inv_nth) (use assms(1) mam_inv_new in auto)
  then have ok: "regions_ok (mm_in_use m)" and
    "cf_start (mm_cfg m) \<le> rg_start r" "rg_end r \<le> cf_end (mm_cfg m)" "rg_start r \<le> rg_end r"
    using assms(3) by (auto simp: mam_inv_def regions_ok_def)
  moreover have "covers r \<inter> covers r' = {}" if "r' \<in> set (mm_in_use m)" "r' \<noteq> r" for r'
    using regions_disjoint [OF ok assms(3) that(1)] that(2) by blast
  ultimately show ?thesis by (auto simp: covers_def)
qed

definition sample_cfg :: mem_mam_cfg where
  "sample_cfg = \<lparr>cf_n_bytes = 4, cf_start = 16, cf_end = 255, cf_mode = GREEDY, cf_locality = BROAD\<rparr>"

definition sample_mam :: mem_mam where
  "sample_mam = fold mam_step [MReserve 32 64, MReserve 16 8, MReserve 40 4] (new_mem_mam sample_cfg True)"

lemma sample_mam_in_use: "mm_in_use sample_mam = [region_of 0 32 47 64, region_of 1 16 17 8]"
  by (simp add: sample_mam_def new_mem_mam_def sample_cfg_def reserve_region_def new_region_def end_offset_def
      region_of_def Let_def)

theorem mam_regions_disjoint_witness:
  "covers (region_of 1 16 17 8) \<inter> covers (region_of 0 32 47 64) = {} \<and> covers (region_of 1 16 17 8) \<noteq> {}"
proof -
  let ?es = "[MReserve 32 64, MReserve 16 8, MReserve 40 4]"
  have "\<forall>k < length ?es. mam_ok (?es ! k) (fold mam_step (take k ?es) (new_mem_mam sample_cfg True))"
    by (simp add: All_less_Suc no_wrap_def new_mem_mam_def sample_cfg_def reserve_region_def new_region_def
        end_offset_def region_of_def Let_def)
  moreover have "region_of 1 16 17 8 \<in> set (mm_in_use sample_mam)" "region_of 0 32 47 64 \<in> set (mm_in_use sample_mam)"
    "region_of 0 32 47 64 \<noteq> region_of 1 16 17 8"
    by (simp_all add: sample_mam_in_use region_of_def)
  ultimately show ?thesis
    using mam_regions_disjoint [OF _ sample_mam_def] by blast
qed

lemma reserve_region_exact:
  assumes "mam_inv m" "cf_n_bytes (mm_cfg m) \<noteq> 0" "no_wrap m start n"
    and "rng = {start .. end_offset (mm_cfg m) start n}"
  shows "\<exists>res m' ms. reserve_region start n m = Some (res, m', ms)
    \<and> (res \<noteq> None \<longleftrightarrow> n \<noteq> 0 \<and> rng \<subseteq> {cf_start (mm_cfg m) .. cf_end (mm_cfg m)}
          \<and> (\<forall>r \<in> set (mm_in_use m). covers r \<inter> rng = {}))
    \<and> (case res of None \<Rightarrow> m' = m
         | Some r \<Rightarrow> covers r = rng \<and> set (mm_in_use m') = insert r (set (mm_in_use m)))"
proof -
  let ?new = "new_region m start n" and ?fin = "end_offset (mm_cfg m) start n"
  have ok: "regions_ok (mm_in_use m)" using assms(1) by (simp add: mam_inv_def)
  have ne: "rg_start ?new \<le> rg_end ?new" using assms(3) by (simp add: no_wrap_def)
  have "reserve_region start n m \<noteq> None"
    using assms(2) by (simp add: reserve_region_def Let_def split: option.split)
  then obtain res m' ms where res: "reserve_region start n m = Some (res, m', ms)"
    by (cases "reserve_region start n m") auto
  have "rg_start r \<le> rg_end r" if "r \<in> set (mm_in_use m)" for r
    using ok that by (simp add: regions_ok_def)
  then have free: "(\<forall>r \<in> set (mm_in_use m). covers r \<inter> rng = {}) \<longleftrightarrow> reserve_loop ?new (mm_in_use m) \<noteq> None"
    using reserve_loop_None [OF ok ne] ne
    by (fastforce simp: covers_def assms(4) not_le)
  have space: "rng \<subseteq> {cf_start (mm_cfg m) .. cf_end (mm_cfg m)} \<longleftrightarrow>
      \<not> start < cf_start (mm_cfg m) \<and> \<not> ?fin > cf_end (mm_cfg m)"
    using ne by (auto simp: assms(4) not_less)
  have "res \<noteq> None \<longleftrightarrow> n \<noteq> 0 \<and> rng \<subseteq> {cf_start (mm_cfg m) .. cf_end (mm_cfg m)}
      \<and> (\<forall>r \<in> set (mm_in_use m). covers r \<inter> rng = {})"
    unfolding free space using res assms(2)
    by (auto simp: reserve_region_def Let_def split: if_split_asm option.split_asm)
  with res reserve_region_cases [OF assms(1,3) res] show ?thesis
    by (cases res) (auto simp: covers_def assms(4))
qed

text \<open>C9. In a manager whose regions are disjoint and inside the managed space (\<open>mam_inv\<close>, which every
  sequence of operations without wrap-around keeps), a reservation of a range that does not wrap
  around the 64-bit offset space succeeds exactly when its range is free: it is not empty, lies in the
  managed space and shares no offset with a region in use. The early exit of the search loses
  nothing. On success one region with exactly that range is added and the invariant still holds; on
  failure nothing changes.\<close>

theorem reserve_exactly_when_free:
  assumes "mam_inv m" "cf_n_bytes (mm_cfg m) \<noteq> 0" "no_wrap m start n"
    and "rng = {start .. end_offset (mm_cfg m) start n}"
  shows "\<exists>res m' ms. reserve_region start n m = Some (res, m', ms)
    \<and> (res \<noteq> None \<longleftrightarrow> n \<noteq> 0 \<and> rng \<subseteq> {cf_start (mm_cfg m) .. cf_end (mm_cfg m)}
          \<and> (\<forall>r \<in> set (mm_in_use m). covers r \<inter> rng = {}))
    \<and> (case res of None \<Rightarrow> m' = m
         | Some r \<Rightarrow> covers r = rng \<and> set (mm_in_use m') = insert r (set (mm_in_use m)) \<and> mam_inv m')"
proof -
  obtain res m' ms where r: "reserve_region start n m = Some (res, m', ms)"
    using reserve_region_exact [OF assms] by blast
  have "mam_inv m'" if "res = Some x" for x
    using reserve_region_cases [OF assms(1,3) r] that by auto
  with r reserve_region_exact [OF assms] show ?thesis by (cases res) auto
qed

theorem reserve_exactly_when_free_witness:
  "\<exists>r m' ms. reserve_region 64 10 sample_mam = Some (Some r, m', ms) \<and> covers r = {64 .. 66}"
proof -
  have inv: "mam_inv sample_mam"
    by (simp add: sample_mam_def mam_inv_def new_mem_mam_def sample_cfg_def reserve_region_def new_region_def
        end_offset_def region_of_def Let_def regions_ok_def)
  have cfg: "mm_cfg sample_mam = sample_cfg"
    by (simp add: sample_mam_def new_mem_mam_def reserve_region_def Let_def sample_cfg_def new_region_def
        end_offset_def region_of_def)
  have a: "cf_n_bytes (mm_cfg sample_mam) \<noteq> 0" "no_wrap sample_mam 64 10"
    "{64 .. 66} = {64 .. end_offset (mm_cfg sample_mam) 64 10}"
    by (simp_all add: cfg sample_cfg_def no_wrap_def end_offset_def)
  have "{64 .. 66} \<subseteq> {cf_start (mm_cfg sample_mam) .. cf_end (mm_cfg sample_mam)}"
    "\<forall>r \<in> set (mm_in_use sample_mam). covers r \<inter> {64 .. 66} = {}"
    by (auto simp: cfg sample_cfg_def sample_mam_in_use covers_def region_of_def)
  with reserve_exactly_when_free [OF inv a] show ?thesis by auto
qed

text \<open>A region answers for one offset too many: an access at offset \<open>len\<close>, one past the last
  location of the region, passes the check and reaches the location after the region, while a
  burst of one word at the same offset is refused.\<close>

theorem region_guard_off_by_one:
  assumes "rg_len rg = ucast (rg_end rg - rg_start rg + 1)" "unat (rg_end rg - rg_start rg) < 2 ^ 32 - 1"
  shows "region_guard True (ucast (rg_len rg)) rg
   \<and> \<not> burst_guard True (ucast (rg_len rg)) 1 rg
   \<and> fst (region_write mem_write True (ucast (rg_len rg)) v rg h) = fst (mem_write (rg_end rg + 1) v h)"
proof -
  have len: "ucast (rg_len rg) = rg_end rg - rg_start rg + 1"
  proof (rule word_unat_eq_iff [THEN iffD2])
    show "unat (ucast (rg_len rg) :: ulong) = unat (rg_end rg - rg_start rg + 1)"
      using assms(2) by (simp add: assms(1) unsigned_ucast_eq take_bit_eq_mod unat_word_ariths)
  qed
  have "unat (rg_len rg) < 2 ^ LENGTH(32)" by (rule unsigned_less)
  then have "unat (ucast (rg_len rg) :: ulong) < 2 ^ 32"
    by (simp add: unsigned_ucast_eq take_bit_eq_mod)
  then have "unat (ucast (rg_len rg) :: ulong) < unat (ucast (rg_len rg) + 1 :: ulong)"
    by (simp add: unat_word_ariths)
  then have "(ucast (rg_len rg) :: ulong) < ucast (rg_len rg) + 1" by (simp add: word_less_nat_alt)
  moreover have "ucast (rg_len rg) + rg_start rg = rg_end rg + 1" by (simp add: len)
  ultimately show ?thesis
    by (simp add: region_guard_def burst_guard_def region_write_def region_access_def split: prod.split)
qed

theorem region_guard_off_by_one_witness:
  "fst (region_write (\<lambda>a v h. (UVM_IS_OK, (), h(a := v))) True 16 (7 :: data) (region_of 0 32 47 64) (\<lambda>_ :: addr. 0))
     = UVM_IS_OK"
  using region_guard_off_by_one [of "region_of 0 32 47 64" "\<lambda>a v h. (UVM_IS_OK, (), h(a := v))" "7 :: data" "\<lambda>_. 0"]
  by (simp add: region_of_def)

text \<open>\<open>request_region\<close> does not look for a free range: it reserves at the start offset of the policy,
  which nothing randomises, so after a successful request with the default policy the next one
  with the default policy fails, whatever its size, also when most of the space is free.\<close>

theorem second_request_fails:
  assumes "mam_inv m" "no_wrap m (mp_start (mm_default_alloc m)) n" "no_wrap m (mp_start (mm_default_alloc m)) n'"
    and "request_region n None m = Some (Some r, a, m', ms)"
  shows "\<exists>a' m'' ms'. request_region n' None m' = Some (None, a', m'', ms')"
proof -
  let ?s = "mp_start (mm_default_alloc m)" and ?m = "m\<lparr>mm_default_alloc := fill_policy m n (mm_default_alloc m)\<rparr>"
  have b: "cf_n_bytes (mm_cfg m) \<noteq> 0" and r1: "reserve_region ?s n ?m = Some (Some r, m', ms)"
    using assms(4) by (auto simp: request_region_def fill_policy_def Let_def split: if_splits)
  have s: "mp_start (mm_default_alloc ?m) = ?s" by (simp add: fill_policy_def)
  from reserve_region_cases [OF _ _ r1] assms(1,2) have m': "mam_inv m'" "mm_cfg m' = mm_cfg m"
    "r \<in> set (mm_in_use m')" "mm_default_alloc m' = mm_default_alloc ?m" "r = new_region ?m ?s n"
    by (auto simp: no_wrap_def)
  let ?m2 = "m'\<lparr>mm_default_alloc := fill_policy m' n' (mm_default_alloc m')\<rparr>"
  have s2: "mp_start (mm_default_alloc ?m2) = ?s" using m'(4) s by (simp add: fill_policy_def)
  have inv2: "mam_inv ?m2" and nw2: "no_wrap ?m2 ?s n'" and b2: "cf_n_bytes (mm_cfg ?m2) \<noteq> 0"
    using m' assms(3) b by (simp_all add: no_wrap_def)
  have "rg_start r = ?s" using m'(5) by simp
  moreover have "?s \<le> rg_end r" using m'(5) assms(2) by (simp add: no_wrap_def)
  ultimately have hit: "\<exists>x \<in> set (mm_in_use ?m2). covers x \<inter> {?s .. end_offset (mm_cfg ?m2) ?s n'} \<noteq> {}"
    using m'(3) nw2 by (intro bexI [of _ r]) (auto simp: covers_def no_wrap_def)
  from reserve_region_exact [OF inv2 b2 nw2 refl] obtain res m3 ms3 where
    r2: "reserve_region ?s n' ?m2 = Some (res, m3, ms3)" and "res = None" using hit by blast
  then show ?thesis
    using b2 s2 by (simp add: request_region_def Let_def)
qed

theorem second_request_fails_witness:
  "\<exists>r a m' ms a' m'' ms'. request_region 8 None (new_mem_mam (sample_cfg\<lparr>cf_start := 0\<rparr>) True) = Some (Some r, a, m', ms)
     \<and> request_region 4 None m' = Some (None, a', m'', ms')"
proof -
  let ?m = "new_mem_mam (sample_cfg\<lparr>cf_start := 0\<rparr>) True"
  have w: "no_wrap ?m (mp_start (mm_default_alloc ?m)) 8" "no_wrap ?m (mp_start (mm_default_alloc ?m)) 4"
    by (simp_all add: no_wrap_def end_offset_def new_mem_mam_def new_mam_policy_def sample_cfg_def)
  have "\<exists>r a m' ms. request_region 8 None ?m = Some (Some r, a, m', ms)"
    by (simp add: request_region_def fill_policy_def reserve_region_def new_region_def end_offset_def
        region_of_def new_mem_mam_def new_mam_policy_def sample_cfg_def Let_def)
  then obtain r a m' ms where first: "request_region 8 None ?m = Some (Some r, a, m', ms)" by blast
  with second_request_fails [OF mam_inv_new w first] show ?thesis by blast
qed

text \<open>
  The sum in \<open>reserve_region\<close> may wrap around, and the start offset is not compared with the end of the
  space: a range that starts beyond the space and wraps is accepted.
\<close>

lemma reserve_accepts_wrapped:
  "\<exists>r m' ms. reserve_region (- 1) 8 (new_mem_mam sample_cfg True) = Some (Some r, m', ms)
     \<and> rg_start r > cf_end sample_cfg \<and> rg_end r = 0"
  by (simp add: reserve_region_def new_region_def end_offset_def region_of_def new_mem_mam_def sample_cfg_def
      Let_def)

end
