(* ===== verification/HDL_Backdoor.thy ===== *)
theory HDL_Backdoor
  imports Reg_Model
begin

text \<open>
  HDL paths and the default backdoor of memories. The pools of paths of blocks, register files,
  registers and memories (\<open>clear_hdl_path\<close>, \<open>add_hdl_path\<close>, \<open>add_hdl_path_slice\<close>, \<open>get_hdl_path\<close>,
  \<open>get_full_hdl_path\<close> in src/uvmsc/reg), and \<open>uvm_mem::backdoor_write\<close> and \<open>backdoor_read_func\<close>.
  \<open>uvm_hdl_deposit\<close> and \<open>uvm_hdl_read\<close> reach the SystemC objects of the design; they are the
  arguments \<open>dep\<close> and \<open>rd\<close>. The value read is collected in a variable of \<open>hw\<close> bits, the default
  length of \<open>sc_uint_base\<close>; setting a bit beyond is an error of SystemC, here \<open>None\<close>, as is a null
  pointer.
\<close>

unbundle bit_operations_syntax

section \<open>Pools of paths\<close>

type_synonym 'p path_pool = "string \<rightharpoonup> 'p list"

definition pool_clear :: "string \<Rightarrow> string \<Rightarrow> 'p path_pool \<Rightarrow> 'p path_pool \<times> msg list" where
  "pool_clear deflt kind p =
     (if kind = ''ALL'' then (Map.empty, [])
      else let k = (if kind = [] then deflt else kind)
           in if p k = None then (p, [(UVM_WARNING, ''RegModel'')]) else (p(k := None), []))"

definition pool_add :: "'p \<Rightarrow> string \<Rightarrow> 'p path_pool \<Rightarrow> 'p path_pool" where
  "pool_add path kind p = p(kind \<mapsto> (case p kind of None \<Rightarrow> [] | Some xs \<Rightarrow> xs) @ [path])"

definition pool_has :: "string \<Rightarrow> string \<Rightarrow> 'p path_pool \<Rightarrow> bool" where
  "pool_has deflt kind p \<longleftrightarrow> p (if kind = [] then deflt else kind) \<noteq> None"

definition pool_get :: "string \<Rightarrow> string \<Rightarrow> 'p path_pool \<Rightarrow> 'p list \<times> msg list" where
  "pool_get deflt kind p =
     (case p (if kind = [] then deflt else kind) of
        None \<Rightarrow> ([], [(UVM_ERROR, ''RegModel'')])
      | Some xs \<Rightarrow> (xs, []))"

text \<open>Registers and memories: concatenations of slices.\<close>

definition add_hdl_path :: "hdl_path_slice list \<Rightarrow> string \<Rightarrow> hdl_path_concat path_pool \<Rightarrow> hdl_path_concat path_pool" where
  "add_hdl_path slices kind p = pool_add (concat_set slices []) kind p"

definition add_hdl_path_slice ::
    "string \<Rightarrow> int \<Rightarrow> int \<Rightarrow> bool \<Rightarrow> string \<Rightarrow> hdl_path_concat path_pool \<Rightarrow> hdl_path_concat path_pool" where
  "add_hdl_path_slice nm offset sz first kind p =
     (let xs = (case p kind of None \<Rightarrow> [] | Some xs \<Rightarrow> xs)
      in if first \<or> xs = [] then p(kind \<mapsto> xs @ [add_path nm (of_int offset) (of_int sz) []])
         else p(kind \<mapsto> butlast xs @ [add_path nm (of_int offset) (of_int sz) (last xs)]))"

text \<open>\<open>uvm_mem::clear_hdl_path\<close> does not look at its argument.\<close>

definition mem_clear_hdl_path :: "string \<Rightarrow> string \<Rightarrow> 'p path_pool \<Rightarrow> 'p path_pool \<times> msg list" where
  "mem_clear_hdl_path deflt kind p = pool_clear deflt [] p"

section \<open>Full paths\<close>

text \<open>
  A scope is a block or a register file; the parent of a file is the file or else the block that
  holds it. \<open>d\<close> bounds the number of ancestors.
\<close>

record scope =
  sc_file :: bool
  sc_parent :: "nat option"
  sc_default :: string
  sc_pool :: "string path_pool"
  sc_roots :: "string \<rightharpoonup> string"

primrec default_hdl_path :: "nat \<Rightarrow> (nat \<Rightarrow> scope) \<Rightarrow> nat \<Rightarrow> string option" where
  "default_hdl_path 0 sc s = None"
| "default_hdl_path (Suc d) sc s =
     (if sc_default (sc s) \<noteq> [] then Some (sc_default (sc s))
      else case sc_parent (sc s) of
             None \<Rightarrow> if sc_file (sc s) then None else Some []
           | Some p \<Rightarrow> default_hdl_path d sc p)"

definition set_default_hdl_path :: "nat \<Rightarrow> (nat \<Rightarrow> scope) \<Rightarrow> string \<Rightarrow> nat \<Rightarrow> (scope \<times> msg list) option" where
  "set_default_hdl_path d sc kind s =
     (if kind \<noteq> [] then Some ((sc s)\<lparr>sc_default := kind\<rparr>, [])
      else case sc_parent (sc s) of
             Some p \<Rightarrow> map_option (\<lambda>k. ((sc s)\<lparr>sc_default := k\<rparr>, [])) (default_hdl_path d sc p)
           | None \<Rightarrow> if sc_file (sc s) then Some (sc s, [(UVM_ERROR, ''RegModel'')]) else None)"

definition set_hdl_path_root :: "string \<Rightarrow> string \<Rightarrow> string \<Rightarrow> scope \<Rightarrow> scope" where
  "set_hdl_path_root deflt path kind s =
     s\<lparr>sc_roots := (sc_roots s)((if kind = [] then deflt else kind) \<mapsto> path)\<rparr>"

definition is_hdl_path_root :: "string \<Rightarrow> string \<Rightarrow> scope \<Rightarrow> bool" where
  "is_hdl_path_root deflt kind s \<longleftrightarrow> sc_roots s (if kind = [] then deflt else kind) \<noteq> None"

definition join_paths :: "string list \<Rightarrow> string \<Rightarrow> string list \<Rightarrow> string list" where
  "join_paths parents sep paths =
     concat (map (\<lambda>p. if parents = [] then (if p = [] then [] else [p])
                      else map (\<lambda>q. if p = [] then q else q @ sep @ p) parents) paths)"

primrec full_hdl_path ::
    "nat \<Rightarrow> (nat \<Rightarrow> scope) \<Rightarrow> string \<Rightarrow> string \<Rightarrow> nat \<Rightarrow> (string list \<times> msg list) option" where
  "full_hdl_path 0 sc kind sep s = None"
| "full_hdl_path (Suc d) sc kind sep s =
     (case (if kind = [] then default_hdl_path (Suc d) sc s else Some kind) of
        None \<Rightarrow> None
      | Some k \<Rightarrow>
          if \<not> sc_file (sc s) \<and> sc_roots (sc s) k \<noteq> None
          then Some (case sc_roots (sc s) k of Some r \<Rightarrow> if r = [] then [] else [r] | None \<Rightarrow> [], [])
          else case sc_pool (sc s) k of
                 None \<Rightarrow> Some ([], [(UVM_ERROR, ''RegModel'')])
               | Some own \<Rightarrow>
                   (case sc_parent (sc s) of
                      None \<Rightarrow> Some (join_paths [] sep own, [])
                    | Some p \<Rightarrow>
                        map_option (\<lambda>(ps, ms). (join_paths ps sep own, ms)) (full_hdl_path d sc k sep p)))"

text \<open>The full paths of a register or memory; a slice without a path loses its position.\<close>

definition full_concat :: "string \<Rightarrow> string \<Rightarrow> hdl_path_concat \<Rightarrow> hdl_path_concat" where
  "full_concat parent sep c =
     map (\<lambda>sl. if sl_path sl = [] then \<lparr>sl_path = parent, sl_offset = - 1, sl_size = - 1\<rparr>
               else sl\<lparr>sl_path := parent @ sep @ sl_path sl\<rparr>) c"

definition elem_full_hdl_path ::
    "string \<Rightarrow> string \<Rightarrow> string \<Rightarrow> (string \<Rightarrow> string list) \<Rightarrow> hdl_path_concat path_pool \<Rightarrow> hdl_path_concat list \<times> msg list" where
  "elem_full_hdl_path deflt kind sep parents p =
     (let k = (if kind = [] then deflt else kind)
      in case p k of
           None \<Rightarrow> ([], [(UVM_ERROR, ''RegModel'')])
         | Some cs \<Rightarrow> (concat (map (\<lambda>c. map (\<lambda>q. full_concat q sep c) (parents k)) cs), []))"

section \<open>The default backdoor\<close>

text \<open>The decimal digits that index the elements of a memory.\<close>

fun decimal :: "nat \<Rightarrow> string" where
  "decimal n = (if n < 10 then [char_of (48 + n)] else decimal (n div 10) @ [char_of (48 + n mod 10)])"

definition elem_path :: "string \<Rightarrow> addr \<Rightarrow> string" where
  "elem_path p i = p @ ''['' @ decimal (unat i) @ '']''"

type_synonym 'h deposit = "string \<Rightarrow> data \<Rightarrow> 'h \<Rightarrow> bool \<times> 'h"
type_synonym 'h hdl_read = "string \<Rightarrow> 'h \<Rightarrow> bool \<times> data"

primrec deposit_slices :: "'h deposit \<Rightarrow> addr \<Rightarrow> data \<Rightarrow> hdl_path_slice list \<Rightarrow> bool \<Rightarrow> 'h \<Rightarrow> bool \<times> 'h" where
  "deposit_slices dep i v [] ok h = (ok, h)"
| "deposit_slices dep i v (sl # sls) ok h =
     (let x = (if sl_offset sl < 0 then v
               else drop_bit (nat (sl_offset sl)) v AND uvm_mask_size (unat (of_int (sl_size sl) :: uint)));
          (b, h1) = dep (elem_path (sl_path sl) i) x h
      in deposit_slices dep i v sls (ok \<and> b) h1)"

primrec deposit_paths :: "'h deposit \<Rightarrow> addr \<Rightarrow> data \<Rightarrow> hdl_path_concat list \<Rightarrow> bool \<Rightarrow> 'h \<Rightarrow> bool \<times> 'h" where
  "deposit_paths dep i v [] ok h = (ok, h)"
| "deposit_paths dep i v (c # cs) ok h =
     (let (ok, h) = deposit_slices dep i v c ok h in deposit_paths dep i v cs ok h)"

primrec deposit_values ::
    "'h deposit \<Rightarrow> hdl_path_concat list \<Rightarrow> addr \<Rightarrow> data list \<Rightarrow> bool \<Rightarrow> 'h \<Rightarrow> bool \<times> 'h" where
  "deposit_values dep ps i [] ok h = (ok, h)"
| "deposit_values dep ps i (v # vs) ok h =
     (let (ok, h) = deposit_paths dep i v ps ok h in deposit_values dep ps (i + 1) vs ok h)"

definition mem_backdoor_write ::
    "'h deposit \<Rightarrow> hdl_path_concat list \<Rightarrow> addr \<Rightarrow> data list \<Rightarrow> 'h \<Rightarrow> uvm_status_e \<times> 'h" where
  "mem_backdoor_write dep ps offset vs h =
     (let (ok, h) = deposit_values dep ps offset vs True h in (if ok then UVM_IS_OK else UVM_NOT_OK, h))"

text \<open>Setting the bits of a slice one by one.\<close>

primrec set_bits_loop :: "nat \<Rightarrow> nat \<Rightarrow> data \<Rightarrow> nat \<Rightarrow> data \<Rightarrow> data option" where
  "set_bits_loop hw k x 0 val = Some val"
| "set_bits_loop hw k x (Suc r) val =
     (if hw \<le> k then None
      else set_bits_loop hw (Suc k) (drop_bit 1 x) r (if bit x 0 then set_bit k val else unset_bit k val))"

primrec read_slices ::
    "'h hdl_read \<Rightarrow> nat \<Rightarrow> addr \<Rightarrow> hdl_path_slice list \<Rightarrow> bool \<Rightarrow> data \<Rightarrow> 'h \<Rightarrow> (bool \<times> data) option" where
  "read_slices rd hw i [] ok val h = Some (ok, val)"
| "read_slices rd hw i (sl # sls) ok val h =
     (let (b, x) = rd (elem_path (sl_path sl) i) h
      in if sl_offset sl < 0 then read_slices rd hw i sls (ok \<and> b) (x AND mask hw) h
         else case set_bits_loop hw (nat (sl_offset sl)) x (nat (sl_size sl)) val of
                None \<Rightarrow> None
              | Some val1 \<Rightarrow> read_slices rd hw i sls (ok \<and> b) val1 h)"

text \<open>
  All copies of one element; the first gives the value and the others must agree. The result tells
  whether the loop goes on.
\<close>

primrec read_copies ::
    "'h hdl_read \<Rightarrow> nat \<Rightarrow> nat \<Rightarrow> addr \<Rightarrow> hdl_path_concat list \<Rightarrow> data option \<Rightarrow> bool \<Rightarrow> 'h
     \<Rightarrow> (bool \<times> bool \<times> data option) option" where
  "read_copies rd hw n i [] v ok h = Some (True, ok, v)"
| "read_copies rd hw n i (c # cs) v ok h =
     (case read_slices rd hw i c ok 0 h of
        None \<Rightarrow> None
      | Some (ok, val) \<Rightarrow>
          let val = val AND uvm_mask_size n
          in case v of
               None \<Rightarrow> read_copies rd hw n i cs (Some val) ok h
             | Some w \<Rightarrow> if val \<noteq> w then Some (False, ok, v) else read_copies rd hw n i cs v ok h)"

primrec read_elems ::
    "'h hdl_read \<Rightarrow> nat \<Rightarrow> nat \<Rightarrow> hdl_path_concat list \<Rightarrow> addr \<Rightarrow> data list \<Rightarrow> bool \<Rightarrow> 'h
     \<Rightarrow> (uvm_status_e \<times> data list \<times> msg list) option" where
  "read_elems rd hw n ps i [] ok h = Some (if ok then UVM_IS_OK else UVM_NOT_OK, [], [])"
| "read_elems rd hw n ps i (old # vs) ok h =
     (case read_copies rd hw n i ps None ok h of
        None \<Rightarrow> None
      | Some (go, ok, v) \<Rightarrow>
          let x = (case v of None \<Rightarrow> old | Some w \<Rightarrow> w)
          in if \<not> go then Some (UVM_NOT_OK, x # vs, [(UVM_ERROR, ''RegModel'')])
             else map_option (\<lambda>(s, xs, ms). (s, x # xs, ms)) (read_elems rd hw n ps (i + 1) vs ok h))"

definition mem_backdoor_read ::
    "'h hdl_read \<Rightarrow> nat \<Rightarrow> nat \<Rightarrow> hdl_path_concat list \<Rightarrow> addr \<Rightarrow> data list \<Rightarrow> 'h
     \<Rightarrow> (uvm_status_e \<times> data list \<times> msg list) option" where
  "mem_backdoor_read rd hw n ps offset vs h = read_elems rd hw n ps offset vs True h"

section \<open>Names of elements are distinct\<close>

declare decimal.simps [simp del]

fun read_decimal :: "string \<Rightarrow> nat" where
  "read_decimal s = fold (\<lambda>c n. n * 10 + (of_char c - 48)) s 0"

lemma of_char_digit: "k < 10 \<Longrightarrow> of_char (char_of (48 + k :: nat) :: char) = (48 + k :: nat)"
  by simp

lemma read_decimal: "read_decimal (decimal n) = n"
proof (induction n rule: decimal.induct)
  case (1 n)
  show ?case
  proof (cases "n < 10")
    case True
    then show ?thesis by (simp add: decimal.simps [of n])
  next
    case False
    then have "read_decimal (decimal n) = read_decimal (decimal (n div 10)) * 10 + n mod 10"
      by (simp add: decimal.simps [of n])
    with 1 False show ?thesis by simp
  qed
qed

lemma decimal_digits: "c \<in> set (decimal n) \<Longrightarrow> c \<noteq> CHR ''[''"
proof (induction n rule: decimal.induct)
  case (1 n)
  have "char_of (48 + k :: nat) \<noteq> CHR ''[''" if "k < 10" for k
  proof
    assume "char_of (48 + k :: nat) = CHR ''[''"
    then have "of_char (char_of (48 + k :: nat) :: char) = (of_char (CHR ''['') :: nat)" by simp
    then show False using that by (simp add: of_char_digit)
  qed
  then have d: "k < 10 \<Longrightarrow> CHR ''['' \<noteq> char_of (48 + k :: nat)" for k by metis
  show ?case
  proof (cases "n < 10")
    case True
    with 1 d [of n] show ?thesis by (simp add: decimal.simps [of n])
  next
    case False
    with 1 d [of "n mod 10"] show ?thesis by (auto simp: decimal.simps [of n] simp del: char_of_eq_iff)
  qed
qed

lemma split_at_last:
  assumes "xs @ a # us = ys @ a # vs" "a \<notin> set us" "a \<notin> set vs"
  shows "xs = ys \<and> us = vs"
proof -
  have "takeWhile (\<lambda>c. c \<noteq> a) (rev us @ a # rev xs) = takeWhile (\<lambda>c. c \<noteq> a) (rev vs @ a # rev ys)"
    using assms(1) by (metis append_Cons append_Nil append_assoc rev.simps(2) rev_append)
  moreover have "takeWhile (\<lambda>c. c \<noteq> a) (rev ws @ a # zs) = rev ws" if "a \<notin> set ws" for ws zs
    using that by (subst takeWhile_append2) auto
  ultimately have "rev us = rev vs" using assms(2,3) by metis
  then show ?thesis using assms(1) by simp
qed

lemma elem_path_eq: "elem_path p i = elem_path q j \<longleftrightarrow> p = q \<and> i = j"
proof
  assume "elem_path p i = elem_path q j"
  then have "p @ CHR ''['' # (decimal (unat i) @ '']'') = q @ CHR ''['' # (decimal (unat j) @ '']'')"
    by (simp add: elem_path_def)
  from split_at_last [OF this] have "p = q" "decimal (unat i) = decimal (unat j)"
    by (auto dest: decimal_digits)
  then show "p = q \<and> i = j" by (metis read_decimal unsigned_word_eqI)
qed simp

section \<open>What is deposited is read\<close>

text \<open>What is assumed of the design: a deposit replaces the object's value, a read returns it.\<close>

definition hdl_stores :: "'h deposit \<Rightarrow> 'h hdl_read \<Rightarrow> ('h \<Rightarrow> string \<Rightarrow> data) \<Rightarrow> bool" where
  "hdl_stores dep rd view \<longleftrightarrow>
     (\<forall>p v h. fst (dep p v h) \<and> view (snd (dep p v h)) = (view h)(p := v)) \<and> (\<forall>p h. rd p h = (True, view h p))"

definition slice_val :: "data \<Rightarrow> hdl_path_slice \<Rightarrow> data" where
  "slice_val v sl = drop_bit (nat (sl_offset sl)) v AND mask (nat (sl_size sl))"

text \<open>The slices lie within \<open>hw\<close> bits and cover the \<open>n\<close> bits of an element.\<close>

definition slices_fit :: "nat \<Rightarrow> hdl_path_concat \<Rightarrow> bool" where
  "slices_fit hw c \<longleftrightarrow> (\<forall>sl \<in> set c. 0 \<le> sl_offset sl \<and> 0 \<le> sl_size sl \<and> sl_offset sl + sl_size sl \<le> int hw)"

definition slice_has :: "hdl_path_slice \<Rightarrow> nat \<Rightarrow> bool" where
  "slice_has sl b \<longleftrightarrow> nat (sl_offset sl) \<le> b \<and> b < nat (sl_offset sl) + nat (sl_size sl)"

definition slices_cover :: "nat \<Rightarrow> hdl_path_concat \<Rightarrow> bool" where
  "slices_cover n c \<longleftrightarrow> (\<forall>b < n. \<exists>sl \<in> set c. slice_has sl b)"

definition slice_paths :: "hdl_path_concat list \<Rightarrow> string list" where
  "slice_paths ps = concat (map (map sl_path) ps)"

definition holds_elem :: "(string \<Rightarrow> data) \<Rightarrow> addr \<Rightarrow> data \<Rightarrow> hdl_path_concat list \<Rightarrow> bool" where
  "holds_elem f i v ps \<longleftrightarrow> (\<forall>c \<in> set ps. \<forall>sl \<in> set c. f (elem_path (sl_path sl) i) = slice_val v sl)"

lemma size_unat: "0 \<le> sl_size sl \<Longrightarrow> sl_size sl \<le> 64 \<Longrightarrow> unat (of_int (sl_size sl) :: uint) = nat (sl_size sl)"
  by (cases "sl_size sl") (auto simp: unsigned_of_nat take_bit_nat_eq_self)

lemma deposit_slices_store:
  assumes "hdl_stores dep rd view" "slices_fit 64 sls" "distinct (map sl_path sls)"
  shows "fst (deposit_slices dep i v sls ok h) = ok \<and>
    (\<forall>sl \<in> set sls. view (snd (deposit_slices dep i v sls ok h)) (elem_path (sl_path sl) i) = slice_val v sl) \<and>
    (\<forall>q. q \<notin> (\<lambda>sl. elem_path (sl_path sl) i) ` set sls \<longrightarrow> view (snd (deposit_slices dep i v sls ok h)) q = view h q)"
  using assms(2,3)
proof (induction sls arbitrary: ok h)
  case (Cons sl sls)
  let ?x = "slice_val v sl" and ?p = "elem_path (sl_path sl) i"
  obtain b h1 where d: "dep ?p ?x h = (b, h1)" by fastforce
  with assms(1) have h1: "b" "view h1 = (view h)(?p := ?x)" unfolding hdl_stores_def by (metis fst_conv, metis snd_conv)
  have sl: "0 \<le> sl_offset sl" "0 \<le> sl_size sl" "sl_size sl \<le> 64" using Cons.prems(1) by (auto simp: slices_fit_def)
  have "deposit_slices dep i v (sl # sls) ok h = deposit_slices dep i v sls ok h1"
    using sl d h1(1) by (simp add: size_unat slice_val_def)
  moreover have "slices_fit 64 sls" "distinct (map sl_path sls)" using Cons.prems by (auto simp: slices_fit_def)
  moreover have "?p \<notin> (\<lambda>sl. elem_path (sl_path sl) i) ` set sls"
    using Cons.prems(2) by (auto simp: elem_path_eq)
  ultimately show ?case using Cons.IH [of ok h1] h1(2) by auto
qed simp

lemma deposit_paths_store:
  assumes "hdl_stores dep rd view" "\<forall>c \<in> set ps. slices_fit 64 c" "distinct (slice_paths ps)"
  shows "fst (deposit_paths dep i v ps ok h) = ok \<and>
    holds_elem (view (snd (deposit_paths dep i v ps ok h))) i v ps \<and>
    (\<forall>q. q \<notin> (\<lambda>p. elem_path p i) ` set (slice_paths ps) \<longrightarrow> view (snd (deposit_paths dep i v ps ok h)) q = view h q)"
  using assms(2,3)
proof (induction ps arbitrary: ok h)
  case (Cons c ps)
  obtain ok1 h1 where d: "deposit_slices dep i v c ok h = (ok1, h1)" by fastforce
  have c: "ok1 = ok" "\<forall>sl \<in> set c. view h1 (elem_path (sl_path sl) i) = slice_val v sl"
    "\<forall>q. q \<notin> (\<lambda>sl. elem_path (sl_path sl) i) ` set c \<longrightarrow> view h1 q = view h q"
    using deposit_slices_store [OF assms(1), of c i v ok h] Cons.prems d by (simp_all add: slice_paths_def)
  let ?r = "deposit_paths dep i v ps ok h1"
  have IH: "fst ?r = ok" "holds_elem (view (snd ?r)) i v ps"
    "\<forall>q. q \<notin> (\<lambda>p. elem_path p i) ` set (slice_paths ps) \<longrightarrow> view (snd ?r) q = view h1 q"
    using Cons.IH [of ok h1] Cons.prems by (simp_all add: slice_paths_def)
  have "elem_path (sl_path sl) i \<notin> (\<lambda>p. elem_path p i) ` set (slice_paths ps)" if "sl \<in> set c" for sl
  proof -
    have "sl_path ` set c \<inter> set (slice_paths ps) = {}" using Cons.prems(2) by (simp add: slice_paths_def)
    with that have "sl_path sl \<notin> set (slice_paths ps)" by blast
    then show ?thesis by (auto simp: elem_path_eq)
  qed
  with c(2) IH(3) have "\<forall>sl \<in> set c. view (snd ?r) (elem_path (sl_path sl) i) = slice_val v sl" by simp
  then show ?case
    using IH c(1,3) d by (simp add: holds_elem_def slice_paths_def image_Un image_UN image_image)
qed (simp add: holds_elem_def)

definition holds_elems :: "(string \<Rightarrow> data) \<Rightarrow> addr \<Rightarrow> data list \<Rightarrow> hdl_path_concat list \<Rightarrow> bool" where
  "holds_elems f i vs ps \<longleftrightarrow> (\<forall>k < length vs. holds_elem f (i + of_nat k) (vs ! k) ps)"

lemma next_elem: "i + 1 + of_nat k = i + of_nat (Suc k)" for i :: addr
  by simp

lemma holds_elem_cong:
  assumes "holds_elem f i v ps" "\<forall>p \<in> set (slice_paths ps). g (elem_path p i) = f (elem_path p i)"
  shows "holds_elem g i v ps"
  using assms by (auto simp: holds_elem_def slice_paths_def)

lemma deposit_values_store:
  assumes "hdl_stores dep rd view" "\<forall>c \<in> set ps. slices_fit 64 c" "distinct (slice_paths ps)"
  shows "length vs \<le> 2 ^ 64 \<Longrightarrow> fst (deposit_values dep ps i vs ok h) = ok \<and>
    holds_elems (view (snd (deposit_values dep ps i vs ok h))) i vs ps \<and>
    (\<forall>j p. (\<forall>k < length vs. j \<noteq> i + of_nat k) \<longrightarrow>
       view (snd (deposit_values dep ps i vs ok h)) (elem_path p j) = view h (elem_path p j))"
proof (induction vs arbitrary: i ok h)
  case (Cons v vs)
  obtain ok1 h1 where d: "deposit_paths dep i v ps ok h = (ok1, h1)" by fastforce
  have c: "ok1 = ok" "holds_elem (view h1) i v ps"
    "\<forall>q. q \<notin> (\<lambda>p. elem_path p i) ` set (slice_paths ps) \<longrightarrow> view h1 q = view h q"
    using deposit_paths_store [OF assms, of i v ok h] d by simp_all
  let ?r = "deposit_values dep ps (i + 1) vs ok h1"
  have IH: "fst ?r = ok" "holds_elems (view (snd ?r)) (i + 1) vs ps"
    "\<And>j p. (\<forall>k < length vs. j \<noteq> i + 1 + of_nat k) \<Longrightarrow> view (snd ?r) (elem_path p j) = view h1 (elem_path p j)"
    using Cons.IH [of "i + 1" ok h1] Cons.prems by simp_all
  have ne: "i \<noteq> i + 1 + of_nat k" if "k < length vs" for k
  proof
    assume "i = i + 1 + of_nat k"
    then have "(of_nat (Suc k) :: addr) = 0" by (metis add.right_neutral add_left_cancel next_elem)
    then have "2 ^ 64 dvd Suc k" by (simp only: word_of_nat_eq_0_iff) simp
    then show False using that Cons.prems by (auto dest: dvd_imp_le)
  qed
  have own: "holds_elem (view (snd ?r)) i v ps"
    by (rule holds_elem_cong [OF c(2)]) (use IH(3) ne in blast)
  have "holds_elems (view (snd ?r)) i (v # vs) ps"
    unfolding holds_elems_def
  proof (intro allI impI)
    fix k assume k: "k < length (v # vs)"
    show "holds_elem (view (snd ?r)) (i + of_nat k) ((v # vs) ! k) ps"
      using own IH(2) k by (cases k) (auto simp: holds_elems_def add.assoc)
  qed
  moreover have "view (snd ?r) (elem_path p j) = view h (elem_path p j)"
    if "\<forall>k < length (v # vs). j \<noteq> i + of_nat k" for j p
  proof -
    have "j \<noteq> i + 1 + of_nat k" if "k < length vs" for k
      using \<open>\<forall>k < length (v # vs). j \<noteq> i + of_nat k\<close> [rule_format, of "Suc k"] that by (simp add: add.assoc)
    then have "view (snd ?r) (elem_path p j) = view h1 (elem_path p j)" by (intro IH(3)) blast
    moreover have "j \<noteq> i" using that [rule_format, of 0] by simp
    then have "elem_path p j \<notin> (\<lambda>p. elem_path p i) ` set (slice_paths ps)" by (auto simp: elem_path_eq)
    ultimately show ?thesis using c(3) by simp
  qed
  ultimately show ?case using IH(1) c(1) d by (simp del: of_nat_Suc)
qed (simp add: holds_elems_def)

lemma set_bits_loop_exact:
  "k + r \<le> hw \<Longrightarrow> hw \<le> 64 \<Longrightarrow> \<exists>w. set_bits_loop hw k x r val = Some w \<and>
     (\<forall>b < 64. bit w b \<longleftrightarrow> (if k \<le> b \<and> b < k + r then bit x (b - k) else bit val b))"
proof (induction r arbitrary: k x val)
  case (Suc r)
  let ?v = "if bit x 0 then set_bit k val else unset_bit k val"
  obtain w where w: "set_bits_loop hw (Suc k) (drop_bit 1 x) r ?v = Some w"
    "\<forall>b < 64. bit w b \<longleftrightarrow> (if Suc k \<le> b \<and> b < Suc k + r then bit (drop_bit 1 x) (b - Suc k) else bit ?v b)"
    using Suc.IH [of "Suc k" "drop_bit 1 x" ?v] Suc.prems by auto
  have "bit w b \<longleftrightarrow> (if k \<le> b \<and> b < k + Suc r then bit x (b - k) else bit val b)" if "b < 64" for b
    using w(2) that Suc.prems
    by (cases "b = k") (auto simp: bit_drop_bit_eq bit_set_bit_iff bit_unset_bit_iff Suc_diff_Suc)
  then show ?case using w(1) Suc.prems by auto
qed auto

lemma read_slices_exact:
  assumes "hdl_stores dep rd view" "hw \<le> 64"
  shows "slices_fit hw sls \<Longrightarrow> \<forall>sl \<in> set sls. view h (elem_path (sl_path sl) i) = slice_val v sl \<Longrightarrow>
    \<exists>w. read_slices rd hw i sls ok val h = Some (ok, w) \<and>
      (\<forall>b < 64. bit w b \<longleftrightarrow> (if \<exists>sl \<in> set sls. slice_has sl b then bit v b else bit val b))"
proof (induction sls arbitrary: val)
  case (Cons sl sls)
  let ?k = "nat (sl_offset sl)" and ?r = "nat (sl_size sl)"
  have sl: "0 \<le> sl_offset sl" "?k + ?r \<le> hw" using Cons.prems(1) by (auto simp: slices_fit_def)
  obtain val1 where v1: "set_bits_loop hw ?k (slice_val v sl) ?r val = Some val1"
    "\<forall>b < 64. bit val1 b \<longleftrightarrow> (if ?k \<le> b \<and> b < ?k + ?r then bit (slice_val v sl) (b - ?k) else bit val b)"
    using set_bits_loop_exact [OF sl(2) assms(2)] by blast
  obtain w where w: "read_slices rd hw i sls ok val1 h = Some (ok, w)"
    "\<forall>b < 64. bit w b \<longleftrightarrow> (if \<exists>sl \<in> set sls. slice_has sl b then bit v b else bit val1 b)"
    using Cons.IH [of val1] Cons.prems by (auto simp: slices_fit_def)
  have "rd (elem_path (sl_path sl) i) h = (True, slice_val v sl)"
    using assms(1) Cons.prems(2) by (simp add: hdl_stores_def)
  then have "read_slices rd hw i (sl # sls) ok val h = Some (ok, w)" using sl v1(1) w(1) by simp
  moreover have "bit w b \<longleftrightarrow> (if \<exists>s \<in> set (sl # sls). slice_has s b then bit v b else bit val b)" if "b < 64" for b
    using w(2) v1(2) that by (auto simp: slice_has_def slice_val_def bit_simps)
  ultimately show ?case by blast
qed simp

lemma covered_value:
  assumes "slices_cover n c" "n \<le> 64"
    and "\<forall>b < 64. bit w b \<longleftrightarrow> (if \<exists>sl \<in> set c. slice_has sl b then bit v b else bit (0 :: data) b)"
  shows "w AND mask n = (v :: data) AND mask n"
  by (rule bit_word_eqI) (use assms in \<open>auto simp: bit_simps slices_cover_def\<close>)

lemma read_copies_exact:
  assumes "hdl_stores dep rd view" "hw \<le> 64" "n \<le> hw"
  shows "\<forall>c \<in> set ps. slices_fit hw c \<and> slices_cover n c \<Longrightarrow> holds_elem (view h) i v ps \<Longrightarrow>
    u = None \<or> u = Some (v AND mask n) \<Longrightarrow>
    read_copies rd hw n i ps u ok h = Some (True, ok, if ps = [] then u else Some (v AND mask n))"
proof (induction ps arbitrary: u)
  case (Cons c ps)
  obtain w where w: "read_slices rd hw i c ok 0 h = Some (ok, w)"
    "\<forall>b < 64. bit w b \<longleftrightarrow> (if \<exists>sl \<in> set c. slice_has sl b then bit v b else bit (0 :: data) b)"
    using read_slices_exact [OF assms(1,2), of c h i v ok 0] Cons.prems by (auto simp: holds_elem_def)
  have "w AND mask n = v AND mask n"
    using covered_value [OF _ _ w(2)] Cons.prems(1) assms(2,3) by simp
  then show ?case
    using Cons.IH [of "Some (v AND mask n)"] Cons.prems w(1) by (auto simp: holds_elem_def)
qed simp

lemma read_elems_exact:
  assumes "hdl_stores dep rd view" "hw \<le> 64" "n \<le> hw" "ps \<noteq> []"
    and "\<forall>c \<in> set ps. slices_fit hw c \<and> slices_cover n c"
  shows "length us = length vs \<Longrightarrow> holds_elems (view h) i vs ps \<Longrightarrow>
    read_elems rd hw n ps i us ok h =
      Some (if ok then UVM_IS_OK else UVM_NOT_OK, map (\<lambda>v. v AND mask n) vs, [])"
proof (induction us vs arbitrary: i rule: list_induct2)
  case (Cons u us v vs)
  have v: "holds_elem (view h) i v ps" using Cons.prems [unfolded holds_elems_def, rule_format, of 0] by simp
  have "holds_elems (view h) (i + 1) vs ps"
    unfolding holds_elems_def
  proof (intro allI impI)
    fix k assume "k < length vs"
    then show "holds_elem (view h) (i + 1 + of_nat k) (vs ! k) ps"
      using Cons.prems [unfolded holds_elems_def, rule_format, of "Suc k"] by (simp add: add.assoc)
  qed
  then show ?case
    using Cons.IH read_copies_exact [OF assms(1-3) assms(5) v] assms(4) by simp
qed simp

text \<open>What the default backdoor writes into the HDL copies of a memory, the default backdoor reads
  back, cut to the width of the memory: for all elements of a burst, any number of copies and any
  slices that cover the width.\<close>

lemma backdoor_values_roundtrip:
  assumes store: "hdl_stores dep rd view" and hw: "hw \<le> 64" "n \<le> hw"
    and ps: "ps \<noteq> []" "\<forall>c \<in> set ps. slices_fit hw c \<and> slices_cover n c" "distinct (slice_paths ps)"
    and vs: "length vs \<le> 2 ^ 64" "length us = length vs"
  shows "fst (mem_backdoor_write dep ps offset vs h) = UVM_IS_OK \<and>
    mem_backdoor_read rd hw n ps offset us (snd (mem_backdoor_write dep ps offset vs h)) =
      Some (UVM_IS_OK, map (\<lambda>v. v AND mask n) vs, [])"
proof -
  have "\<forall>c \<in> set ps. slices_fit 64 c" using ps(2) hw(1) by (force simp: slices_fit_def)
  from deposit_values_store [OF store this ps(3) vs(1), of offset True h]
  have w: "fst (deposit_values dep ps offset vs True h)"
    "holds_elems (view (snd (deposit_values dep ps offset vs True h))) offset vs ps" by simp_all
  have "mem_backdoor_write dep ps offset vs h = (UVM_IS_OK, snd (deposit_values dep ps offset vs True h))"
    using w(1) by (simp add: mem_backdoor_write_def split_beta)
  then show ?thesis
    using read_elems_exact [OF store hw ps(1,2) vs(2) w(2), of True] by (simp add: mem_backdoor_read_def)
qed

section \<open>What the code does not do\<close>

lemma mem_clear_all_ignored: "p deflt \<noteq> None \<Longrightarrow> k \<noteq> deflt \<Longrightarrow> p k \<noteq> None \<Longrightarrow>
    fst (mem_clear_hdl_path deflt ''ALL'' p) k \<noteq> None"
  by (simp add: mem_clear_hdl_path_def pool_clear_def Let_def)

text \<open>A slice that reaches beyond the collecting variable stops the read.\<close>

lemma set_bits_beyond: "hw < k + r \<Longrightarrow> 0 < r \<Longrightarrow> set_bits_loop hw k x r val = None"
proof (induction r arbitrary: k x val)
  case (Suc r)
  show ?case
  proof (cases "hw \<le> k")
    case False
    then have "0 < r" "hw < Suc k + r" using Suc.prems(1) by (auto intro: Suc_lessI)
    then show ?thesis using Suc.IH by simp
  qed simp
qed simp

lemma wide_slice_fails:
  "0 \<le> sl_offset sl \<Longrightarrow> 0 < sl_size sl \<Longrightarrow> int hw < sl_offset sl + sl_size sl \<Longrightarrow>
    read_slices rd hw i (sl # sls) ok val h = None"
  by (simp add: split_beta set_bits_beyond)

end
