(* ===== verification/Reg_Memory.thy ===== *)
theory Reg_Memory
  imports Reg_Bus HDL_Backdoor Mem_Mam
begin

text \<open>
  \<open>src/uvmsc/reg/uvm_mem.cpp\<close>: memories. The map entry of a memory (\<open>mem_map_info\<close>) belongs to its
  map; what an access reaches outside the memory is the record \<open>mem_env\<close>: the maps, the block that
  holds the memory, the bus behind the local map, a user-defined frontdoor, the backdoor, the
  objects of the design, and the user's hooks and callbacks (each as one function: the method
  followed by the callbacks). The status of a new item is not set by its constructor: it is
  \<open>ve_status\<close>. Text output and the names of the callers are left out. \<open>None\<close> is following a null
  pointer or an error of SystemC.
\<close>

section \<open>State\<close>

record uvm_mem =
  me_name :: string
  me_locked :: bool
  me_reading :: bool
  me_writing :: bool
  me_access :: string
  me_size :: ulong
  me_n_bits :: uint
  me_maps :: "map_id list"
  me_has_block :: bool
  me_has_cover :: uint
  me_cover_on :: uint
  me_backdoor :: bool
  me_vregs :: "nat list"
  me_hdl :: "hdl_path_concat path_pool"
  me_mam_cfg :: "mem_mam_cfg option"

record mem_item =
  mt_access_kind :: uvm_access_e
  mt_offset :: addr
  mt_values :: "data list"
  mt_status :: uvm_status_e
  mt_path :: uvm_path_e
  mt_bd_kind :: string
  mt_map :: "map_id option"
  mt_local_map :: "map_id option"

record 'h mem_env =
  ve_maps :: map_env
  ve_info :: "map_id \<Rightarrow> mem_map_info option"
  ve_n_bytes :: "map_id \<Rightarrow> nat"
  ve_status :: uvm_status_e
  ve_block_path :: uvm_path_e
  ve_block_hdl :: string
  ve_block_full :: "string \<Rightarrow> string list"
  ve_block_backdoor :: bool
  ve_map_write :: "mem_item \<Rightarrow> 'h \<Rightarrow> (mem_item \<times> 'h) option"
  ve_map_read :: "mem_item \<Rightarrow> 'h \<Rightarrow> (mem_item \<times> 'h) option"
  ve_frontdoor :: "mem_item \<Rightarrow> 'h \<Rightarrow> mem_item \<times> 'h"
  ve_back_write :: "mem_item \<Rightarrow> 'h \<Rightarrow> mem_item \<times> 'h"
  ve_back_read :: "mem_item \<Rightarrow> 'h \<Rightarrow> mem_item \<times> 'h"
  ve_deposit :: "'h deposit"
  ve_hdl_read :: "'h hdl_read"
  ve_hdl_width :: nat
  ve_pre_write :: "mem_item \<Rightarrow> mem_item"
  ve_post_write :: "mem_item \<Rightarrow> mem_item"
  ve_pre_read :: "mem_item \<Rightarrow> mem_item"
  ve_post_read :: "mem_item \<Rightarrow> mem_item"

section \<open>Construction\<close>

text \<open>A width of zero is reported; only the argument, not the member, is then set to one. The constructor does
  not set \<open>m_cover_on\<close>; here it starts at zero.\<close>

definition new_mem :: "string \<Rightarrow> ulong \<Rightarrow> uint \<Rightarrow> string \<Rightarrow> uint \<Rightarrow> uint \<Rightarrow> uvm_mem \<times> uint \<times> msg list" where
  "new_mem nm sz n_bits acc cover max_size =
     (\<lparr>me_name = nm, me_locked = False, me_reading = False, me_writing = False, me_access = uvm_toupper acc,
       me_size = sz, me_n_bits = n_bits, me_maps = [], me_has_block = False, me_has_cover = cover,
       me_cover_on = 0, me_backdoor = False, me_vregs = [], me_hdl = Map.empty, me_mam_cfg = None\<rparr>,
      if n_bits > max_size then n_bits else max_size,
      if n_bits = 0 then [(UVM_ERROR, ''RegModel'')] else [])"

definition mem_n_bytes :: "uvm_mem \<Rightarrow> uint" where
  "mem_n_bytes m = (me_n_bits m - 1) div 8 + 1"

definition mem_configure :: "string \<Rightarrow> uvm_mem \<Rightarrow> uvm_mem \<times> msg list" where
  "mem_configure hdl_path m =
     (let bad = me_access m \<noteq> ''RW'' \<and> me_access m \<noteq> ''RO'';
          cfg = \<lparr>cf_n_bytes = mem_n_bytes m, cf_start = 0, cf_end = me_size m - 1, cf_mode = GREEDY,
                 cf_locality = BROAD\<rparr>;
          m1 = m\<lparr>me_has_block := True, me_access := (if bad then ''RW'' else me_access m), me_mam_cfg := Some cfg\<rparr>
      in (if hdl_path = [] then m1
          else m1\<lparr>me_hdl := add_hdl_path_slice hdl_path (- 1) (- 1) False ''RTL'' (me_hdl m1)\<rparr>,
          if bad then [(UVM_ERROR, ''RegModel'')] else []))"

text \<open>The maps of a memory are visited in the order of their addresses in memory, like its virtual registers.\<close>

primrec map_key :: "map_id \<Rightarrow> nat" where
  "map_key Backdoor_Map = 0"
| "map_key (Map_Id n) = Suc n"

definition mem_add_map :: "map_id \<Rightarrow> uvm_mem \<Rightarrow> uvm_mem" where
  "mem_add_map k m = (if k \<in> set (me_maps m) then m else m\<lparr>me_maps := insort_key map_key k (me_maps m)\<rparr>)"

definition mem_lock_model :: "uvm_mem \<Rightarrow> uvm_mem" where
  "mem_lock_model m = m\<lparr>me_locked := True\<rparr>"

definition m_add_vreg :: "nat \<Rightarrow> uvm_mem \<Rightarrow> uvm_mem" where
  "m_add_vreg v m = (if v \<in> set (me_vregs m) then m else m\<lparr>me_vregs := insort v (me_vregs m)\<rparr>)"

definition m_delete_vreg :: "nat \<Rightarrow> uvm_mem \<Rightarrow> uvm_mem" where
  "m_delete_vreg v m = m\<lparr>me_vregs := filter (\<lambda>w. w \<noteq> v) (me_vregs m)\<rparr>"

definition mem_add_coverage :: "uint \<Rightarrow> uvm_mem \<Rightarrow> uvm_mem" where
  "mem_add_coverage models m = m\<lparr>me_has_cover := me_has_cover m OR models\<rparr>"

definition mem_has_coverage :: "uint \<Rightarrow> uvm_mem \<Rightarrow> bool" where
  "mem_has_coverage models m \<longleftrightarrow> me_has_cover m AND models = models"

definition mem_set_coverage :: "uint \<Rightarrow> uvm_mem \<Rightarrow> uvm_mem" where
  "mem_set_coverage is_on m = m\<lparr>me_cover_on := (if is_on = 0 then is_on else me_has_cover m AND is_on)\<rparr>"

definition mem_get_coverage :: "uint \<Rightarrow> uvm_mem \<Rightarrow> bool" where
  "mem_get_coverage is_on m \<longleftrightarrow> mem_has_coverage is_on m \<and> me_cover_on m AND is_on = is_on"

section \<open>Maps, rights and addresses\<close>

definition mem_is_in_map :: "map_env \<Rightarrow> map_id \<Rightarrow> uvm_mem \<Rightarrow> bool" where
  "mem_is_in_map env k m \<longleftrightarrow> k \<in> set (me_maps m) \<or> find_submap env k (me_maps m) \<noteq> None"

definition mem_local_map_of :: "map_env \<Rightarrow> uvm_mem \<Rightarrow> map_id \<Rightarrow> map_id option \<times> msg list" where
  "mem_local_map_of env m k =
     (if k \<in> set (me_maps m) then (Some k, [])
      else case find_submap env k (me_maps m) of
          Some l \<Rightarrow> (Some l, [])
        | None \<Rightarrow> (None, [(UVM_WARNING, ''RegModel'')]))"

primrec mem_default_loop :: "map_env \<Rightarrow> uvm_mem \<Rightarrow> map_id list \<Rightarrow> map_id option \<times> msg list" where
  "mem_default_loop env m [] = (None, [])"
| "mem_default_loop env m (k # ks) =
     (case me_blk_default env k of
        None \<Rightarrow> mem_default_loop env m ks
      | Some d \<Rightarrow>
          (case mem_local_map_of env m d of
             (Some l, ws) \<Rightarrow> (Some l, ws)
           | (None, ws) \<Rightarrow> (let (res, ws') = mem_default_loop env m ks in (res, ws @ ws'))))"

definition mem_default_map :: "map_env \<Rightarrow> uvm_mem \<Rightarrow> map_id option \<times> msg list" where
  "mem_default_map env m =
     (case me_maps m of
        [] \<Rightarrow> (None, [(UVM_WARNING, ''RegModel'')])
      | k # ks \<Rightarrow>
          (case mem_default_loop env m (k # ks) of
             (Some l, ws) \<Rightarrow> (Some l, ws)
           | (None, ws) \<Rightarrow> (Some k, ws)))"

definition mem_local_map :: "map_env \<Rightarrow> uvm_mem \<Rightarrow> map_id option \<Rightarrow> map_id option \<times> msg list" where
  "mem_local_map env m mp =
     (case mp of None \<Rightarrow> mem_default_map env m | Some k \<Rightarrow> mem_local_map_of env m k)"

text \<open>The entry in a local map, which is one of \<open>me_maps\<close>; a missing one is reported, then followed.\<close>

definition mem_get_rights :: "'h mem_env \<Rightarrow> uvm_mem \<Rightarrow> map_id option \<Rightarrow> (string \<times> msg list) option" where
  "mem_get_rights env m mp =
     (if length (me_maps m) \<le> 1 then Some (''RW'', [])
      else let (lm, ws) = mem_local_map (ve_maps env) m mp
           in case lm of
                None \<Rightarrow> Some (''RW'', ws)
              | Some k \<Rightarrow> map_option (\<lambda>i. (mm_rights i, ws)) (ve_info env k))"

definition mem_get_access :: "'h mem_env \<Rightarrow> uvm_mem \<Rightarrow> map_id option \<Rightarrow> (string \<times> msg list) option" where
  "mem_get_access env m mp =
     (if length (me_maps m) = 1 then Some (me_access m, [])
      else let (lm, ws) = mem_local_map (ve_maps env) m mp
           in case lm of
                None \<Rightarrow> Some (me_access m, ws)
              | Some k \<Rightarrow>
                  map_option (\<lambda>(rights, ws').
                      let acc = me_access m; err = ws @ ws' @ [(UVM_ERROR, ''RegModel'')]
                      in if rights = ''RW'' then (acc, ws @ ws')
                         else if rights = ''RO'' then
                           (if acc = ''RW'' \<or> acc = ''RO'' then (''RO'', ws @ ws') else (acc, err))
                         else if rights = ''WO'' then
                           (if acc = ''RW'' \<or> acc = ''WO'' then (''WO'', ws @ ws') else (acc, err))
                         else (acc, err))
                    (mem_get_rights env m (Some k)))"

definition mem_get_offset :: "'h mem_env \<Rightarrow> uvm_mem \<Rightarrow> map_id option \<Rightarrow> (addr \<times> msg list) option" where
  "mem_get_offset env m mp =
     (let (lm, ws) = mem_local_map (ve_maps env) m mp
      in case lm of
           None \<Rightarrow> Some (- 1, ws)
         | Some k \<Rightarrow>
             map_option (\<lambda>i. if mm_unmapped i then (- 1, ws @ [(UVM_WARNING, ''RegModel'')]) else (mm_offset i, ws))
               (ve_info env k))"

definition get_addresses ::
    "'h mem_env \<Rightarrow> uvm_mem \<Rightarrow> map_id option \<Rightarrow> addr \<Rightarrow> (nat \<times> addr list \<times> msg list) option" where
  "get_addresses env m mp offset =
     (let (lm, ws) = mem_local_map (ve_maps env) m mp
      in case lm of
           None \<Rightarrow> Some (0, [], ws)
         | Some k \<Rightarrow>
             map_option (\<lambda>i. if mm_unmapped i then (0, [], ws @ [(UVM_WARNING, ''RegModel'')])
                 else (ve_n_bytes env k, map (\<lambda>a. a + ucast (mm_stride i) * offset) (mm_addr i), ws))
               (ve_info env k))"

text \<open>\<open>get_address\<close> takes the first address, also when there is none.\<close>

definition mem_get_address :: "'h mem_env \<Rightarrow> uvm_mem \<Rightarrow> map_id option \<Rightarrow> addr \<Rightarrow> addr option" where
  "mem_get_address env m mp offset =
     (case get_addresses env m mp offset of
        Some (_, a # _, _) \<Rightarrow> Some a
      | _ \<Rightarrow> None)"

section \<open>Backdoor\<close>

text \<open>The backdoor of an enclosing block is remembered.\<close>

definition mem_get_backdoor :: "'h mem_env \<Rightarrow> uvm_mem \<Rightarrow> bool \<times> uvm_mem" where
  "mem_get_backdoor env m =
     (let b = me_backdoor m \<or> ve_block_backdoor env in (b, m\<lparr>me_backdoor := b\<rparr>))"

definition mem_hdl_paths :: "'h mem_env \<Rightarrow> uvm_mem \<Rightarrow> string \<Rightarrow> hdl_path_concat list \<times> msg list" where
  "mem_hdl_paths env m kind = elem_full_hdl_path (ve_block_hdl env) kind ''.'' (ve_block_full env) (me_hdl m)"

definition mem_backdoor_access ::
    "'h mem_env \<Rightarrow> bool \<Rightarrow> uvm_mem \<Rightarrow> mem_item \<Rightarrow> 'h \<Rightarrow> (mem_item \<times> 'h \<times> msg list) option" where
  "mem_backdoor_access env wr m rw h =
     (let (ps, ms) = mem_hdl_paths env m (mt_bd_kind rw)
      in if wr then let (s, h1) = mem_backdoor_write (ve_deposit env) ps (mt_offset rw) (mt_values rw) h
                    in Some (rw\<lparr>mt_status := s\<rparr>, h1, ms)
         else map_option (\<lambda>(s, vs, ms'). (rw\<lparr>mt_status := s, mt_values := vs\<rparr>, h, ms @ ms'))
                (mem_backdoor_read (ve_hdl_read env) (ve_hdl_width env) (unat (me_n_bits m)) ps (mt_offset rw)
                   (mt_values rw) h))"

definition use_backdoor ::
    "'h mem_env \<Rightarrow> bool \<Rightarrow> uvm_mem \<Rightarrow> mem_item \<Rightarrow> 'h \<Rightarrow> (uvm_mem \<times> mem_item \<times> 'h \<times> msg list) option" where
  "use_backdoor env wr m rw h =
     (let (b, m1) = mem_get_backdoor env m
      in if b then let (rw1, h1) = (if wr then ve_back_write env rw h else ve_back_read env rw h)
                   in Some (m1, rw1, h1, [])
         else map_option (\<lambda>(rw1, h1, ms). (m1, rw1, h1, ms)) (mem_backdoor_access env wr m1 rw h))"

section \<open>Accesses\<close>

text \<open>
  \<open>m_check_access\<close>. Two of its error messages name the map of the item, which may be null. The
  last check does not set the status.
\<close>

definition mem_check_access ::
    "'h mem_env \<Rightarrow> mem_item \<Rightarrow> uvm_mem \<Rightarrow> (bool \<times> mem_item \<times> mem_map_info option \<times> uvm_mem \<times> msg list) option" where
  "mem_check_access env rw m =
     (if mt_offset rw \<ge> me_size m
      then Some (False, rw\<lparr>mt_status := UVM_NOT_OK\<rparr>, None, m, [(UVM_ERROR, ''uvm::uvm_mem'')])
      else
        let rw1 = (if mt_path rw = UVM_DEFAULT_PATH then rw\<lparr>mt_path := ve_block_path env\<rparr> else rw);
            back = (mt_path rw1 = UVM_BACKDOOR);
            (b, m1) = (if back then mem_get_backdoor env m else (False, m));
            none = (back \<and> \<not> b \<and> \<not> pool_has (ve_block_hdl env) [] (me_hdl m));
            w0 = (if none then [(UVM_WARNING, ''RegModel'')] else [])
        in if back \<and> \<not> none then Some (True, rw1\<lparr>mt_map := Some Backdoor_Map\<rparr>, None, m1, [])
           else
             let rw2 = (if none then rw1\<lparr>mt_path := UVM_FRONTDOOR\<rparr> else rw1);
                 (lm, w1) = mem_local_map (ve_maps env) m1 (mt_map rw2);
                 rw3 = rw2\<lparr>mt_local_map := lm\<rparr>;
                 fail = (\<lambda>i e. Some (False, rw3\<lparr>mt_status := UVM_NOT_OK\<rparr>, i, m1, w0 @ w1 @ [(UVM_ERROR, e)]))
             in case lm of
                  None \<Rightarrow> if mt_map rw3 = None then None else fail None ''uvm::uvm_mem''
                | Some k \<Rightarrow>
                    (case ve_info env k of
                       None \<Rightarrow> None
                     | Some i \<Rightarrow>
                         let ok = Some (True, if mt_map rw3 = None then rw3\<lparr>mt_map := Some k\<rparr> else rw3,
                                        Some i, m1, w0 @ w1)
                         in if mm_frontdoor i then ok
                            else if mm_unmapped i then (if mt_map rw3 = None then None else fail (Some i) ''RegModel'')
                            else if length (mt_values rw3) > 1 then
                              (if unat (me_n_bits m) > ve_n_bytes env k * 8 then fail (Some i) ''RegModel''
                               else if mt_offset rw3 + of_nat (length (mt_values rw3)) > me_size m
                               then Some (False, rw3, Some i, m1, w0 @ w1 @ [(UVM_ERROR, ''RegModel'')])
                               else ok)
                            else ok))"

definition mem_front ::
    "'h mem_env \<Rightarrow> bool \<Rightarrow> mem_map_info option \<Rightarrow> mem_item \<Rightarrow> 'h \<Rightarrow> (mem_item \<times> 'h) option" where
  "mem_front env wr info rw h =
     (if (case info of None \<Rightarrow> False | Some i \<Rightarrow> mm_frontdoor i) then Some (ve_frontdoor env rw h)
      else if wr then ve_map_write env rw h else ve_map_read env rw h)"

text \<open>The offsets reported to the coverage models after an access by the frontdoor.\<close>

definition sampled_offsets :: "mem_item \<Rightarrow> mem_map_info \<Rightarrow> addr list" where
  "sampled_offsets rw i =
     (if mt_status rw = UVM_NOT_OK then []
      else map (\<lambda>k. ucast (mm_stride i) * (mt_offset rw + of_nat k)) [0..<length (mt_values rw) + 1])"

definition mem_do_write ::
    "'h mem_env \<Rightarrow> mem_item \<Rightarrow> uvm_mem \<Rightarrow> 'h \<Rightarrow> (uvm_mem \<times> mem_item \<times> 'h \<times> msg list) option" where
  "mem_do_write env rw m h =
     (case mem_check_access env rw m of
        None \<Rightarrow> None
      | Some (False, rw1, _, m1, w0) \<Rightarrow> Some (m1, rw1, h, w0)
      | Some (True, rw1, info, m1, w0) \<Rightarrow>
          let rw2 = ve_pre_write env (rw1\<lparr>mt_status := UVM_IS_OK\<rparr>)
          in if mt_status rw2 \<noteq> UVM_IS_OK then Some (m1\<lparr>me_writing := False\<rparr>, rw2, h, w0)
             else
               let rw3 = rw2\<lparr>mt_status := UVM_NOT_OK\<rparr>; m2 = m1\<lparr>me_writing := True\<rparr>
               in case (if mt_path rw3 = UVM_FRONTDOOR
                        then map_option (\<lambda>(rw4, h1). (m2, rw4, h1, [])) (mem_front env True info rw3 h)
                        else case mem_get_access env m2 (mt_map rw3) of
                               None \<Rightarrow> None
                             | Some (acc, w1) \<Rightarrow>
                                 if acc = ''RW''
                                 then map_option (\<lambda>(m3, rw4, h1, w2). (m3, rw4, h1, w1 @ w2)) (use_backdoor env True m2 rw3 h)
                                 else Some (m2, rw3\<lparr>mt_status := UVM_IS_OK\<rparr>, h, w1)) of
                    None \<Rightarrow> None
                  | Some (m3, rw4, h1, w1) \<Rightarrow>
                      Some (m3\<lparr>me_writing := False\<rparr>, ve_post_write env rw4, h1, w0 @ w1))"

definition mem_do_read ::
    "'h mem_env \<Rightarrow> mem_item \<Rightarrow> uvm_mem \<Rightarrow> 'h \<Rightarrow> (uvm_mem \<times> mem_item \<times> 'h \<times> msg list) option" where
  "mem_do_read env rw m h =
     (case mem_check_access env rw m of
        None \<Rightarrow> None
      | Some (False, rw1, _, m1, w0) \<Rightarrow> Some (m1, rw1, h, w0)
      | Some (True, rw1, info, m1, w0) \<Rightarrow>
          let rw2 = ve_pre_read env (rw1\<lparr>mt_status := UVM_IS_OK\<rparr>)
          in if mt_status rw2 \<noteq> UVM_IS_OK then Some (m1\<lparr>me_reading := False\<rparr>, rw2, h, w0)
             else
               let rw3 = rw2\<lparr>mt_status := UVM_NOT_OK\<rparr>; m2 = m1\<lparr>me_reading := True\<rparr>
               in case (if mt_path rw3 = UVM_FRONTDOOR
                        then map_option (\<lambda>(rw4, h1). (m2, rw4, h1, [])) (mem_front env False info rw3 h)
                        else use_backdoor env False m2 rw3 h) of
                    None \<Rightarrow> None
                  | Some (m3, rw4, h1, w1) \<Rightarrow>
                      Some (m3\<lparr>me_reading := False\<rparr>, ve_post_read env rw4, h1, w0 @ w1))"

section \<open>The operations of the user\<close>

definition new_mem_item ::
    "'h mem_env \<Rightarrow> uvm_access_e \<Rightarrow> addr \<Rightarrow> data list \<Rightarrow> uvm_path_e \<Rightarrow> string \<Rightarrow> map_id option \<Rightarrow> mem_item" where
  "new_mem_item env kind offset vs path bd mp =
     \<lparr>mt_access_kind = kind, mt_offset = offset, mt_values = vs, mt_status = ve_status env, mt_path = path,
      mt_bd_kind = bd, mt_map = mp, mt_local_map = None\<rparr>"

definition mem_write ::
    "'h mem_env \<Rightarrow> addr \<Rightarrow> data \<Rightarrow> uvm_path_e \<Rightarrow> map_id option \<Rightarrow> uvm_mem \<Rightarrow> 'h \<Rightarrow> (uvm_status_e \<times> uvm_mem \<times> 'h \<times> msg list) option"
where
  "mem_write env offset v path mp m h =
     map_option (\<lambda>(m1, rw, h1, ms). (mt_status rw, m1, h1, ms))
       (mem_do_write env (new_mem_item env UVM_WRITE offset [v] path [] mp) m h)"

text \<open>The read value is the first one of the item, which has at least one when nobody else touches it.\<close>

definition mem_read ::
    "'h mem_env \<Rightarrow> addr \<Rightarrow> uvm_path_e \<Rightarrow> map_id option \<Rightarrow> uvm_mem \<Rightarrow> 'h
     \<Rightarrow> (uvm_status_e \<times> data \<times> uvm_mem \<times> 'h \<times> msg list) option" where
  "mem_read env offset path mp m h =
     (case mem_do_read env (new_mem_item env UVM_READ offset [0] path [] mp) m h of
        None \<Rightarrow> None
      | Some (m1, rw, h1, ms) \<Rightarrow>
          (case mt_values rw of [] \<Rightarrow> None | v # _ \<Rightarrow> Some (mt_status rw, v, m1, h1, ms)))"

definition mem_burst_write ::
    "'h mem_env \<Rightarrow> addr \<Rightarrow> data list \<Rightarrow> uvm_path_e \<Rightarrow> map_id option \<Rightarrow> uvm_mem \<Rightarrow> 'h
     \<Rightarrow> (uvm_status_e \<times> uvm_mem \<times> 'h \<times> msg list) option" where
  "mem_burst_write env offset vs path mp m h =
     map_option (\<lambda>(m1, rw, h1, ms). (mt_status rw, m1, h1, ms))
       (mem_do_write env (new_mem_item env UVM_BURST_WRITE offset vs path [] mp) m h)"

text \<open>A burst reads as many elements as the vector passed in has.\<close>

definition mem_burst_read ::
    "'h mem_env \<Rightarrow> addr \<Rightarrow> data list \<Rightarrow> uvm_path_e \<Rightarrow> map_id option \<Rightarrow> uvm_mem \<Rightarrow> 'h
     \<Rightarrow> (uvm_status_e \<times> data list \<times> uvm_mem \<times> 'h \<times> msg list) option" where
  "mem_burst_read env offset us path mp m h =
     map_option (\<lambda>(m1, rw, h1, ms). (mt_status rw, mt_values rw, m1, h1, ms))
       (mem_do_read env (new_mem_item env UVM_BURST_READ offset us path [] mp) m h)"

text \<open>
  \<open>poke\<close> and \<open>peek\<close>. The item has no map; of the values of a failed peek the caller sees what the item
  holds. Without a backdoor only the status is set.
\<close>

definition mem_poke ::
    "'h mem_env \<Rightarrow> addr \<Rightarrow> data \<Rightarrow> string \<Rightarrow> uvm_mem \<Rightarrow> 'h \<Rightarrow> (uvm_status_e \<times> uvm_mem \<times> 'h \<times> msg list) option" where
  "mem_poke env offset v kind m h =
     (let (b, m1) = mem_get_backdoor env m
      in if \<not> b \<and> \<not> pool_has (ve_block_hdl env) kind (me_hdl m1) then Some (UVM_NOT_OK, m1, h, [(UVM_ERROR, ''RegModel'')])
         else
           let rw = new_mem_item env UVM_WRITE offset [v AND uvm_mask_size (unat (me_n_bits m1))] UVM_BACKDOOR kind None
           in if b then let (rw1, h1) = ve_back_write env rw h in Some (mt_status rw1, m1, h1, [])
              else map_option (\<lambda>(rw1, h1, ms). (mt_status rw1, m1, h1, ms)) (mem_backdoor_access env True m1 rw h))"

definition mem_peek ::
    "'h mem_env \<Rightarrow> addr \<Rightarrow> data \<Rightarrow> string \<Rightarrow> uvm_mem \<Rightarrow> 'h
     \<Rightarrow> (uvm_status_e \<times> data \<times> uvm_mem \<times> 'h \<times> msg list) option" where
  "mem_peek env offset out kind m h =
     (let (b, m1) = mem_get_backdoor env m
      in if \<not> b \<and> \<not> pool_has (ve_block_hdl env) kind (me_hdl m1)
         then Some (UVM_NOT_OK, out, m1, h, [(UVM_ERROR, ''RegModel'')])
         else
           let rw = new_mem_item env UVM_READ offset [0] UVM_BACKDOOR kind None
           in case (if b then let (rw1, h1) = ve_back_read env rw h in Some (rw1, h1, [])
                    else mem_backdoor_access env False m1 rw h) of
                None \<Rightarrow> None
              | Some (rw1, h1, ms) \<Rightarrow>
                  (case mt_values rw1 of [] \<Rightarrow> None | v # _ \<Rightarrow> Some (mt_status rw1, v, m1, h1, ms)))"

text \<open>\<open>set_frontdoor\<close> and \<open>get_frontdoor\<close>: the error for a memory outside the map names the map.\<close>

definition mem_set_frontdoor ::
    "bool \<Rightarrow> map_id option \<Rightarrow> uvm_mem \<Rightarrow> 'h mem_env \<Rightarrow> ('h mem_env \<times> msg list) option" where
  "mem_set_frontdoor on mp m env =
     (let (lm, ws) = mem_local_map (ve_maps env) m mp
      in case lm of
           None \<Rightarrow> if mp = None then None else Some (env, ws @ [(UVM_ERROR, ''RegModel'')])
         | Some k \<Rightarrow>
             map_option (\<lambda>i. (env\<lparr>ve_info := (ve_info env)(k := Some (i\<lparr>mm_frontdoor := on\<rparr>))\<rparr>, ws)) (ve_info env k))"

definition mem_get_frontdoor :: "'h mem_env \<Rightarrow> map_id option \<Rightarrow> uvm_mem \<Rightarrow> (bool \<times> msg list) option" where
  "mem_get_frontdoor env mp m =
     (let (lm, ws) = mem_local_map (ve_maps env) m mp
      in case lm of
           None \<Rightarrow> if mp = None then None else Some (False, ws @ [(UVM_ERROR, ''RegModel'')])
         | Some k \<Rightarrow> map_option (\<lambda>i. (mm_frontdoor i, ws)) (ve_info env k))"

definition mem_set_backdoor :: "bool \<Rightarrow> uvm_mem \<Rightarrow> uvm_mem" where
  "mem_set_backdoor on m = m\<lparr>me_backdoor := on\<rparr>"

text \<open>\<open>set_offset\<close>: \<open>move\<close> is \<open>m_set_mem_offset\<close> of a map for this memory, on the state of the maps.\<close>

definition mem_set_offset ::
    "(map_id \<Rightarrow> 's \<Rightarrow> ('s \<times> msg list) option) \<Rightarrow> map_env \<Rightarrow> map_id option \<Rightarrow> uvm_mem \<Rightarrow> 's \<Rightarrow> ('s \<times> msg list) option" where
  "mem_set_offset move env mp m st =
     (if length (me_maps m) > 1 \<and> mp = None then Some (st, [(UVM_ERROR, ''RegModel'')])
      else let (lm, ws) = mem_local_map env m mp
           in case lm of
                None \<Rightarrow> Some (st, ws)
              | Some k \<Rightarrow> map_option (\<lambda>(st1, ms). (st1, ws @ ms)) (move k st))"

text \<open>Virtual registers and their fields are searched by name in the order of \<open>me_vregs\<close>.\<close>

definition get_vreg_by_name :: "(nat \<Rightarrow> string) \<Rightarrow> string \<Rightarrow> uvm_mem \<Rightarrow> nat option \<times> msg list" where
  "get_vreg_by_name names nm m =
     (case find (\<lambda>v. names v = nm) (me_vregs m) of
        Some v \<Rightarrow> (Some v, [])
      | None \<Rightarrow> (None, [(UVM_WARNING, ''RegModel'')]))"

definition get_virtual_fields :: "(nat \<Rightarrow> 'f list) \<Rightarrow> uvm_mem \<Rightarrow> 'f list" where
  "get_virtual_fields flds m = concat (map flds (me_vregs m))"

definition get_vfield_by_name :: "(nat \<Rightarrow> 'f list) \<Rightarrow> ('f \<Rightarrow> string) \<Rightarrow> string \<Rightarrow> uvm_mem \<Rightarrow> 'f option \<times> msg list" where
  "get_vfield_by_name flds names nm m =
     (case find (\<lambda>f. names f = nm) (get_virtual_fields flds m) of
        Some f \<Rightarrow> (Some f, [])
      | None \<Rightarrow> (None, [(UVM_WARNING, ''RegModel'')]))"

section \<open>Memories on the bus\<close>

text \<open>
  \<open>uvm_reg_map::do_write\<close> and \<open>do_read\<close> for a memory: with an adapter the item is cut into bus cycles
  by the local map, without one \<open>item_seq\<close> sends it to the sequencer.
\<close>

definition mem_bus_item :: "nat \<Rightarrow> uint \<Rightarrow> mem_item \<Rightarrow> bus_item" where
  "mem_bus_item mem n_bits rw =
     \<lparr>bi_element_kind = UVM_MEM, bi_element = mem, bi_n_bits = unat n_bits, bi_lsb = 0,
      bi_access_kind = mt_access_kind rw, bi_offset = mt_offset rw, bi_value = mt_values rw\<rparr>"

definition mem_map_write ::
    "'h bus \<Rightarrow> (mem_item \<Rightarrow> 'h \<Rightarrow> mem_item \<times> 'h) \<Rightarrow> bool \<Rightarrow> reg_maps \<Rightarrow> nat \<Rightarrow> uint \<Rightarrow> mem_item \<Rightarrow> 'h \<Rightarrow> (mem_item \<times> 'h) option"
where
  "mem_map_write bus item_seq adapter st mem n_bits rw h =
     (case mt_local_map rw of
        Some (Map_Id k) \<Rightarrow>
          (if \<not> adapter then Some (item_seq rw h)
           else map_option (\<lambda>(s, h1). (rw\<lparr>mt_status := s\<rparr>, h1))
                  (do_bus_write bus st k (mem_bus_item mem n_bits rw) (mt_status rw) h))
      | _ \<Rightarrow> None)"

definition mem_map_read ::
    "'h bus \<Rightarrow> (mem_item \<Rightarrow> 'h \<Rightarrow> mem_item \<times> 'h) \<Rightarrow> bool \<Rightarrow> reg_maps \<Rightarrow> nat \<Rightarrow> uint \<Rightarrow> mem_item \<Rightarrow> 'h \<Rightarrow> (mem_item \<times> 'h) option"
where
  "mem_map_read bus item_seq adapter st mem n_bits rw h =
     (case mt_local_map rw of
        Some (Map_Id k) \<Rightarrow>
          (if \<not> adapter then Some (item_seq rw h)
           else map_option (\<lambda>(vs, s, h1). (rw\<lparr>mt_status := s, mt_values := vs\<rparr>, h1))
                  (do_bus_read bus st k (mem_bus_item mem n_bits rw) (mt_status rw) h))
      | _ \<Rightarrow> None)"

text \<open>Transfers of several elements: the addresses move by the stride after each.\<close>

definition element_at :: "uint \<Rightarrow> addr list \<Rightarrow> nat \<Rightarrow> addr list" where
  "element_at stride as k = map (\<lambda>a. a + of_nat k * ucast stride) as"

primrec written_elems :: "nat \<Rightarrow> uint \<Rightarrow> data list \<Rightarrow> addr list \<Rightarrow> (addr \<Rightarrow> data) \<Rightarrow> addr \<Rightarrow> data" where
  "written_elems bw stride [] as f = f"
| "written_elems bw stride (v # vs) as f =
     written_elems bw stride vs (map (\<lambda>a. a + ucast stride) as) (written (- 1) bw v as 0 f)"

lemma element_at_next: "element_at stride (map (\<lambda>a. a + ucast stride) as) k = element_at stride as (Suc k)"
  by (simp add: element_at_def algebra_simps)

lemma element_at_0 [simp]: "element_at stride as 0 = as"
  by (simp add: element_at_def)

lemma write_values_store:
  assumes "bus_stores bus view" "kind \<in> {UVM_WRITE, UVM_BURST_WRITE}"
  shows "as \<noteq> [] \<Longrightarrow> (length as - 1) * bw < 8 \<Longrightarrow>
    \<exists>h'. write_values bus bw False kind stride n lsb skip vs (- 1) as s h = Some (if vs = [] then s else UVM_IS_OK, h')
      \<and> view h' = written_elems bw stride vs as (view h)"
proof (induction vs arbitrary: as s h)
  case (Cons v vs)
  obtain h1 where h1: "write_cycles bus bw False kind (- 1) v as 0 (of_nat n) s h = Some (UVM_IS_OK, h1)"
      "view h1 = written (- 1) bw v as 0 (view h)"
    using write_cycles_store [OF assms, of as 0 bw False "- 1" v "of_nat n" s h] Cons.prems by auto
  have "map (\<lambda>a. a + ucast stride) as \<noteq> []" "(length (map (\<lambda>a. a + ucast stride) as) - 1) * bw < 8"
    using Cons.prems by simp_all
  from Cons.IH [OF this, of UVM_IS_OK h1] h1 show ?case by (auto simp: prepare_def)
qed simp

lemma read_values_store:
  assumes "bus_stores bus view" "kind \<in> {UVM_READ, UVM_BURST_READ}"
  shows "as \<noteq> [] \<Longrightarrow>
    \<exists>h'. read_values bus bw False kind stride sz lsb skip us (- 1) as n s h =
        Some (map (\<lambda>k. assembled bw (view h) (element_at stride as k) 0) [0..<length us],
              if us = [] then s else UVM_IS_OK, h') \<and> view h' = view h"
proof (induction us arbitrary: as n s h)
  case (Cons u us)
  obtain n' h1 where h1: "read_cycles bus bw False kind (- 1) as 0 n 0 s h =
      Some (assembled bw (view h) as 0, n', UVM_IS_OK, h1)" "view h1 = view h"
    using read_cycles_store [OF assms, of False 0 as bw "- 1" n 0 s h] Cons.prems by auto
  have ne: "map (\<lambda>a. a + ucast stride) as \<noteq> []" using Cons.prems by simp
  have m: "map (\<lambda>k. assembled bw (view h) (element_at stride as k) 0) [0..<length (u # us)] =
      assembled bw (view h) as 0 # map (\<lambda>k. assembled bw (view h) (element_at stride as (Suc k)) 0) [0..<length us]"
    by (simp add: upt_conv_Cons map_Suc_upt [symmetric] del: upt_Suc)
  from Cons.IH [OF ne, of n' UVM_IS_OK h1] h1 show ?case
    unfolding m by (auto simp: prepare_def element_at_next)
qed simp

lemma written_elems_other:
  "(\<And>k. k < length vs \<Longrightarrow> a \<notin> set (element_at stride as k)) \<Longrightarrow> written_elems bw stride vs as f a = f a"
proof (induction vs arbitrary: as f)
  case (Cons v vs)
  have "a \<notin> set (element_at stride (map (\<lambda>a. a + ucast stride) as) k)" if "k < length vs" for k
    using Cons.prems [of "Suc k"] that by (simp add: element_at_next)
  then show ?case using Cons.IH Cons.prems [of 0] by (simp add: written_other)
qed simp

text \<open>No two of the addresses of \<open>n\<close> elements coincide.\<close>

definition elems_apart :: "uint \<Rightarrow> addr list \<Rightarrow> nat \<Rightarrow> bool" where
  "elems_apart stride as n \<longleftrightarrow> distinct as \<and>
     (\<forall>i < n. \<forall>j < n. i \<noteq> j \<longrightarrow> set (element_at stride as i) \<inter> set (element_at stride as j) = {})"

lemma elems_apart_next:
  assumes "elems_apart stride as (Suc n)"
  shows "elems_apart stride (map (\<lambda>a. a + ucast stride) as) n"
  using assms by (auto simp: elems_apart_def element_at_next distinct_map inj_on_def)

lemma assembled_elems:
  "elems_apart stride as (length vs) \<Longrightarrow> k < length vs \<Longrightarrow>
    assembled bw (written_elems bw stride vs as f) (element_at stride as k) 0 = (vs ! k) AND mask (length as * bw * 8)"
proof (induction vs arbitrary: as f k)
  case (Cons v vs)
  let ?as = "map (\<lambda>a. a + ucast stride) as"
  have apart: "elems_apart stride ?as (length vs)" using elems_apart_next Cons.prems(1) by simp
  show ?case
  proof (cases k)
    case 0
    have "a \<notin> set (element_at stride ?as j)" if "a \<in> set as" "j < length vs" for a j
      using Cons.prems(1) that unfolding elems_apart_def element_at_next
      by (metis element_at_0 disjoint_iff length_Cons nat.distinct(1) not_less_eq zero_less_Suc)
    then have "assembled bw (written_elems bw stride vs ?as (written (- 1) bw v as 0 f)) as 0 =
        assembled bw (written (- 1) bw v as 0 f) as 0"
      by (intro assembled_cong written_elems_other) blast
    also have "\<dots> = v AND mask (length as * bw * 8)"
      using Cons.prems(1) by (simp add: assembled_written elems_apart_def)
    finally show ?thesis using 0 by simp
  next
    case (Suc j)
    then show ?thesis using Cons.IH [OF apart] Cons.prems(2) by (simp add: element_at_next)
  qed
qed simp

lemma mem_write_store:
  assumes "bus_stores bus view" "map_of (rm_mems (mp_map st k)) mem = Some i"
    and "mt_access_kind rw \<in> {UVM_WRITE, UVM_BURST_WRITE}" "mt_local_map rw = Some (Map_Id k)" "mt_values rw \<noteq> []"
    and "mm_addr i \<noteq> []" "(length (mm_addr i) - 1) * map_n_bytes st UVM_HIER k < 8"
  shows "\<exists>h'. mem_map_write bus sq True st mem n rw h = Some (rw\<lparr>mt_status := UVM_IS_OK\<rparr>, h') \<and>
    view h' = written_elems (map_n_bytes st UVM_HIER k) (mm_stride i) (mt_values rw)
      (map (\<lambda>a. a + ucast (mm_stride i) * mt_offset rw) (mm_addr i)) (view h)"
  using write_values_store [OF assms(1,3), where s = "mt_status rw" and h = h and vs = "mt_values rw"
      and as = "map (\<lambda>a. a + ucast (mm_stride i) * mt_offset rw) (mm_addr i)" and bw = "map_n_bytes st UVM_HIER k"
      and stride = "mm_stride i" and n = "unat n" and lsb = 0 and skip = 0] assms(2-)
  by (auto simp: mem_map_write_def do_bus_write_def m_get_bus_info_def mem_bus_item_def element_addrs_def)

lemma mem_read_store:
  assumes "bus_stores bus view" "map_of (rm_mems (mp_map st k)) mem = Some i"
    and "mt_access_kind rw \<in> {UVM_READ, UVM_BURST_READ}" "mt_local_map rw = Some (Map_Id k)" "mt_values rw \<noteq> []"
    and "mm_addr i \<noteq> []"
  shows "\<exists>h'. mem_map_read bus sq True st mem n rw h =
      Some (rw\<lparr>mt_status := UVM_IS_OK, mt_values := map (\<lambda>j. assembled (map_n_bytes st UVM_HIER k) (view h)
        (element_at (mm_stride i) (map (\<lambda>a. a + ucast (mm_stride i) * mt_offset rw) (mm_addr i)) j) 0)
          [0..<length (mt_values rw)]\<rparr>, h') \<and> view h' = view h"
  using read_values_store [OF assms(1,3), where s = "mt_status rw" and h = h and us = "mt_values rw"
      and as = "map (\<lambda>a. a + ucast (mm_stride i) * mt_offset rw) (mm_addr i)" and bw = "map_n_bytes st UVM_HIER k"
      and stride = "mm_stride i" and sz = "unat n" and lsb = 0 and skip = 0 and n = "of_nat (unat n)"] assms(2-)
  by (auto simp: mem_map_read_def do_bus_read_def m_get_bus_info_def mem_bus_item_def element_addrs_def)

lemma mem_local_map_writing: "mem_local_map env (m\<lparr>me_writing := b\<rparr>) mp = mem_local_map env m mp"
proof -
  have o: "mem_local_map_of env (m\<lparr>me_writing := b\<rparr>) k = mem_local_map_of env m k" for k
    by (simp add: mem_local_map_of_def)
  have "mem_default_loop env (m\<lparr>me_writing := b\<rparr>) ks = mem_default_loop env m ks" for ks
    by (induction ks) (auto simp: o split: option.splits prod.splits)
  then have "mem_default_map env (m\<lparr>me_writing := b\<rparr>) = mem_default_map env m"
    by (cases "me_maps m") (simp_all add: mem_default_map_def del: mem_default_loop.simps)
  then show ?thesis by (cases mp) (simp_all add: mem_local_map_def o)
qed

text \<open>An access by the frontdoor that passes the checks, and an environment without hooks over the bus.\<close>

definition mem_no_hooks :: "'h mem_env \<Rightarrow> bool" where
  "mem_no_hooks env \<longleftrightarrow> (\<forall>rw. ve_pre_write env rw = rw \<and> ve_post_write env rw = rw \<and>
     ve_pre_read env rw = rw \<and> ve_post_read env rw = rw)"

definition front_ready ::
    "'h mem_env \<Rightarrow> map_id option \<Rightarrow> uvm_mem \<Rightarrow> nat \<Rightarrow> mem_map_info \<Rightarrow> addr \<Rightarrow> nat \<Rightarrow> bool" where
  "front_ready env mp m k i offset len \<longleftrightarrow>
     mp \<noteq> None \<and> mem_local_map (ve_maps env) m mp = (Some (Map_Id k), []) \<and>
     ve_info env (Map_Id k) = Some i \<and> \<not> mm_frontdoor i \<and> \<not> mm_unmapped i \<and> offset < me_size m \<and>
     (1 < len \<longrightarrow> unat (me_n_bits m) \<le> ve_n_bytes env (Map_Id k) * 8 \<and> offset + of_nat len \<le> me_size m)"

lemma check_access_front:
  assumes "front_ready env mp m k i (mt_offset rw) (length (mt_values rw))" "mt_path rw = UVM_FRONTDOOR" "mt_map rw = mp"
  shows "mem_check_access env rw m = Some (True, rw\<lparr>mt_local_map := Some (Map_Id k)\<rparr>, Some i, m, [])"
proof -
  obtain x where "mp = Some x" using assms(1) by (auto simp: front_ready_def)
  then show ?thesis using assms
    by (auto simp: mem_check_access_def front_ready_def Let_def not_le not_less)
qed

lemma do_write_front:
  assumes "front_ready env mp m k i (mt_offset rw) (length (mt_values rw))" "mt_path rw = UVM_FRONTDOOR" "mt_map rw = mp"
    and "mem_no_hooks env"
    and "ve_map_write env (rw\<lparr>mt_status := UVM_NOT_OK, mt_local_map := Some (Map_Id k)\<rparr>) h = Some (rw', h')"
  shows "mem_do_write env rw m h = Some (m\<lparr>me_writing := False\<rparr>, rw', h', [])"
proof -
  have f: "\<not> mm_frontdoor i" using assms(1) by (simp add: front_ready_def)
  have e: "rw\<lparr>mt_local_map := l, mt_status := s\<rparr> = rw\<lparr>mt_status := s, mt_local_map := l\<rparr>" for l s by simp
  show ?thesis using assms f
    by (simp add: mem_do_write_def check_access_front [OF assms(1-3)] mem_no_hooks_def mem_front_def e)
qed

lemma do_read_front:
  assumes "front_ready env mp m k i (mt_offset rw) (length (mt_values rw))" "mt_path rw = UVM_FRONTDOOR" "mt_map rw = mp"
    and "mem_no_hooks env"
    and "ve_map_read env (rw\<lparr>mt_status := UVM_NOT_OK, mt_local_map := Some (Map_Id k)\<rparr>) h = Some (rw', h')"
  shows "mem_do_read env rw m h = Some (m\<lparr>me_reading := False\<rparr>, rw', h', [])"
proof -
  have f: "\<not> mm_frontdoor i" using assms(1) by (simp add: front_ready_def)
  have e: "rw\<lparr>mt_local_map := l, mt_status := s\<rparr> = rw\<lparr>mt_status := s, mt_local_map := l\<rparr>" for l s by simp
  show ?thesis using assms f
    by (simp add: mem_do_read_def check_access_front [OF assms(1-3)] mem_no_hooks_def mem_front_def e)
qed

text \<open>C10. Memory over the bus: let a memory be mapped in a map whose bus stores, and let the
  addresses of the elements of a burst not coincide. Then a burst write through \<open>uvm_mem\<close>, its map and the
  bus cycles succeeds, changes no address of other elements, and the burst read at the same offset
  returns the values, cut to the bytes of an element.\<close>

theorem mem_burst_roundtrip:
  assumes store: "bus_stores bus view" and i: "map_of (rm_mems (mp_map st k)) mem = Some i"
    and env: "mem_no_hooks env" "ve_map_write env = mem_map_write bus sq True st mem (me_n_bits m)"
      "ve_map_read env = mem_map_read bus sq True st mem (me_n_bits m)"
    and ready: "front_ready env mp m k i offset (length vs)" "length us = length vs" "vs \<noteq> []"
    and addr: "as = map (\<lambda>a. a + ucast (mm_stride i) * offset) (mm_addr i)" "as \<noteq> []"
      "elems_apart (mm_stride i) as (length vs)" "(length as - 1) * map_n_bytes st UVM_HIER k < 8"
  shows "\<exists>m1 m2 h1 h2. mem_burst_write env offset vs UVM_FRONTDOOR mp m h = Some (UVM_IS_OK, m1, h1, []) \<and>
    (\<forall>a. (\<forall>j < length vs. a \<notin> set (element_at (mm_stride i) as j)) \<longrightarrow> view h1 a = view h a) \<and>
    mem_burst_read env offset us UVM_FRONTDOOR mp m1 h1 =
      Some (UVM_IS_OK, map (\<lambda>v. v AND mask (length as * map_n_bytes st UVM_HIER k * 8)) vs, m2, h2, []) \<and>
    view h2 = view h1"
proof -
  let ?bw = "map_n_bytes st UVM_HIER k"
  let ?w = "new_mem_item env UVM_BURST_WRITE offset vs UVM_FRONTDOOR [] mp"
  let ?r = "new_mem_item env UVM_BURST_READ offset us UVM_FRONTDOOR [] mp"
  let ?l = "\<lambda>rw. rw\<lparr>mt_status := UVM_NOT_OK, mt_local_map := Some (Map_Id k)\<rparr>"
  have a: "mm_addr i \<noteq> []" "(length (mm_addr i) - 1) * ?bw < 8" using addr by simp_all
  obtain h1 where h1: "ve_map_write env (?l ?w) h = Some ((?l ?w)\<lparr>mt_status := UVM_IS_OK\<rparr>, h1)"
      "view h1 = written_elems ?bw (mm_stride i) vs as (view h)"
    using mem_write_store [OF store i _ _ _ a, of "?l ?w" sq "me_n_bits m" h] ready(3)
    by (auto simp: env(2) new_mem_item_def addr(1))
  let ?m1 = "m\<lparr>me_writing := False\<rparr>"
  have "us \<noteq> []" using ready by auto
  then obtain h2 where h2: "ve_map_read env (?l ?r) h1 = Some ((?l ?r)\<lparr>mt_status := UVM_IS_OK,
      mt_values := map (\<lambda>j. assembled ?bw (view h1) (element_at (mm_stride i) as j) 0) [0..<length us]\<rparr>, h2)"
      "view h2 = view h1"
    using mem_read_store [OF store i _ _ _ a(1), of "?l ?r" sq "me_n_bits m" h1]
    by (auto simp: env(3) new_mem_item_def addr(1))
  have "map (\<lambda>j. assembled ?bw (view h1) (element_at (mm_stride i) as j) 0) [0..<length us] =
      map (\<lambda>v. v AND mask (length as * ?bw * 8)) vs"
    using assembled_elems [OF addr(3)] ready(2) by (intro nth_equalityI) (simp_all add: h1(2))
  moreover have "mem_do_write env ?w m h = Some (?m1, (?l ?w)\<lparr>mt_status := UVM_IS_OK\<rparr>, h1, [])"
    using ready(1) by (intro do_write_front [OF _ _ _ env(1) h1(1)]) (simp_all add: new_mem_item_def)
  moreover have "front_ready env mp ?m1 k i offset (length us)"
    using ready by (simp add: front_ready_def mem_local_map_writing)
  then have "mem_do_read env ?r ?m1 h1 = Some (?m1\<lparr>me_reading := False\<rparr>, (?l ?r)\<lparr>mt_status := UVM_IS_OK,
      mt_values := map (\<lambda>j. assembled ?bw (view h1) (element_at (mm_stride i) as j) 0) [0..<length us]\<rparr>, h2, [])"
    by (intro do_read_front [OF _ _ _ env(1) h2(1)]) (simp_all add: new_mem_item_def)
  ultimately show ?thesis
    using h1(2) h2(2) written_elems_other [where vs = vs]
    by (simp add: mem_burst_write_def mem_burst_read_def)
qed

text \<open>A memory of 16 words at 0x1000 on the bus of four bytes.\<close>

definition word_info :: mem_map_info where
  "word_info = \<lparr>mm_offset = 0x1000, mm_rights = ''RW'', mm_unmapped = False, mm_addr = [0x1000], mm_frontdoor = False,
     mm_min = 0x1000, mm_max = 0x103C, mm_stride = 4\<rparr>"

definition word_maps :: reg_maps where
  "word_maps = \<lparr>mp_map = (\<lambda>m. (map_configure (Some 0) 0 4 UVM_LITTLE_ENDIAN True new_map)
       \<lparr>rm_system_n_bytes := 4, rm_mems := [(9, word_info)]\<rparr>), mp_read_only = {}, mp_write_only = {}\<rparr>"

definition word_mem :: uvm_mem where
  "word_mem = mem_add_map (Map_Id 0) (fst (mem_configure [] (fst (new_mem ''ram'' 16 32 ''RW'' 0 0))))"

definition word_env :: "(addr \<Rightarrow> data) mem_env" where
  "word_env = \<lparr>ve_maps = \<lparr>me_ancestors = (\<lambda>_. []), me_blk_default = (\<lambda>_. None)\<rparr>,
     ve_info = (\<lambda>k. if k = Map_Id 0 then Some word_info else None), ve_n_bytes = (\<lambda>_. 4), ve_status = UVM_HAS_X,
     ve_block_path = UVM_FRONTDOOR, ve_block_hdl = ''RTL'', ve_block_full = (\<lambda>_. []), ve_block_backdoor = False,
     ve_map_write = mem_map_write store_bus (\<lambda>rw h. (rw, h)) True word_maps 9 32,
     ve_map_read = mem_map_read store_bus (\<lambda>rw h. (rw, h)) True word_maps 9 32,
     ve_frontdoor = (\<lambda>rw h. (rw, h)), ve_back_write = (\<lambda>rw h. (rw, h)), ve_back_read = (\<lambda>rw h. (rw, h)),
     ve_deposit = (\<lambda>_ _ h. (False, h)), ve_hdl_read = (\<lambda>_ _. (False, 0)), ve_hdl_width = 32,
     ve_pre_write = (\<lambda>rw. rw), ve_post_write = (\<lambda>rw. rw), ve_pre_read = (\<lambda>rw. rw), ve_post_read = (\<lambda>rw. rw)\<rparr>"

lemma word_facts:
  "map_of (rm_mems (mp_map word_maps 0)) 9 = Some word_info" "map_n_bytes word_maps UVM_HIER 0 = 4"
  "me_size word_mem = 16" "me_n_bits word_mem = 32" "mem_local_map (ve_maps word_env) word_mem (Some (Map_Id 0)) = (Some (Map_Id 0), [])"
  by code_simp+

lemma word_ready: "offset < 16 \<Longrightarrow> offset + of_nat n \<le> 16 \<Longrightarrow> front_ready word_env (Some (Map_Id 0)) word_mem 0 word_info offset n"
  using word_facts by (simp add: front_ready_def word_env_def word_info_def)

theorem mem_burst_roundtrip_witness:
  "\<exists>m1 m2 h1 h2.
     mem_burst_write word_env 3 [0xDEADBEEF, 0x100000002] UVM_FRONTDOOR (Some (Map_Id 0)) word_mem (\<lambda>_. 7) =
       Some (UVM_IS_OK, m1, h1, [])
     \<and> h1 0x1008 = 7
     \<and> mem_burst_read word_env 3 [0, 0] UVM_FRONTDOOR (Some (Map_Id 0)) m1 h1 =
         Some (UVM_IS_OK, [0xDEADBEEF, 2], m2, h2, [])"
proof -
  have r: "front_ready word_env (Some (Map_Id 0)) word_mem 0 word_info 3 (length [0xDEADBEEF, 0x100000002 :: data])"
    by (rule word_ready) simp_all
  have a: "elems_apart (mm_stride word_info) [0x100C] (length [0xDEADBEEF, 0x100000002 :: data])"
  proof -
    have "i = 0 \<and> j = 1 \<or> i = 1 \<and> j = 0" if "i < 2" "j < 2" "i \<noteq> j" for i j :: nat using that by arith
    then have "set (element_at 4 [0x100C] i) \<inter> set (element_at 4 [0x100C] j) = {}" if "i < 2" "j < 2" "i \<noteq> j" for i j
      using that by (fastforce simp: element_at_def)
    then show ?thesis by (simp add: elems_apart_def word_info_def)
  qed
  have env: "mem_no_hooks word_env" "ve_map_write word_env = mem_map_write store_bus (\<lambda>rw h. (rw, h)) True word_maps 9 (me_n_bits word_mem)"
    "ve_map_read word_env = mem_map_read store_bus (\<lambda>rw h. (rw, h)) True word_maps 9 (me_n_bits word_mem)"
    unfolding word_facts by (simp_all add: word_env_def mem_no_hooks_def)
  have l: "[0x100C] = map (\<lambda>a. a + ucast (mm_stride word_info) * 3) (mm_addr word_info)"
    "(length [0x100C :: addr] - 1) * map_n_bytes word_maps UVM_HIER 0 < 8"
    by (simp_all add: word_info_def)
  have v: "map (\<lambda>v. v AND mask (length [0x100C :: addr] * map_n_bytes word_maps UVM_HIER 0 * 8)) [0xDEADBEEF, 0x100000002] =
      [0xDEADBEEF, 2 :: data]"
    by (simp add: word_facts mask_eq_exp_minus_1)
  have n: "\<forall>j < length [0xDEADBEEF, 0x100000002 :: data]. (0x1008 :: addr) \<notin> set (element_at (mm_stride word_info) [0x100C] j)"
  proof -
    have "j = 0 \<or> j = 1" if "j < length [0xDEADBEEF, 0x100000002 :: data]" for j using that by auto
    then show ?thesis by (fastforce simp: element_at_def word_info_def)
  qed
  have p: "length [0, 0 :: data] = length [0xDEADBEEF, 0x100000002 :: data]" "[0xDEADBEEF, 0x100000002 :: data] \<noteq> []"
    "[0x100C :: addr] \<noteq> []" by simp_all
  obtain m1 m2 h1 h2 where b:
      "mem_burst_write word_env 3 [0xDEADBEEF, 0x100000002] UVM_FRONTDOOR (Some (Map_Id 0)) word_mem (\<lambda>_. 7) = Some (UVM_IS_OK, m1, h1, [])"
      "\<forall>a. (\<forall>j < length [0xDEADBEEF, 0x100000002 :: data]. a \<notin> set (element_at (mm_stride word_info) [0x100C] j)) \<longrightarrow> h1 a = 7"
      "mem_burst_read word_env 3 [0, 0] UVM_FRONTDOOR (Some (Map_Id 0)) m1 h1 = Some (UVM_IS_OK, [0xDEADBEEF, 2], m2, h2, [])"
    using mem_burst_roundtrip [OF store_bus_stores word_facts(1) env r p(1,2) l(1) p(3) a l(2), of "\<lambda>_. 7"] unfolding v
    by blast
  from b(2) n have "h1 0x1008 = 7" by blast
  with b(1,3) show ?thesis by (intro exI conjI)
qed

section \<open>Addresses of elements\<close>

text \<open>How far apart the elements of a memory lie: the words of an element, through the maps above.\<close>

primrec chain_scale :: "reg_maps \<Rightarrow> nat list \<Rightarrow> addr" where
  "chain_scale st [] = 1"
| "chain_scale st (m # ups) =
     (case ups of
        [] \<Rightarrow> 1
      | u # _ \<Rightarrow>
          (let bw = rm_n_bytes (mp_map st m); ub = rm_n_bytes (mp_map st u)
           in of_nat (if bw \<ge> ub then (bw - 1) div ub + 1 else 1) * chain_scale st ups))"

definition elem_step :: "reg_maps \<Rightarrow> nat list \<Rightarrow> nat \<Rightarrow> addr" where
  "elem_step st c n =
     (let x = mp_map st (hd c); bw = rm_n_bytes x
      in of_nat ((if n \<le> bw then 1 else (n - 1) div bw + 1) * (if rm_byte_addressing x then bw else 1)) * chain_scale st c)"

lemma local_addrs_shift:
  assumes "e \<noteq> UVM_NO_ENDIAN"
  shows "fst (local_addrs e bw mult (base + d) off n) =
    map (\<lambda>a. a + (d + off * of_nat ((if n \<le> bw then 1 else (n - 1) div bw + 1) * mult))) (fst (local_addrs e bw mult base 0 n))"
  using assms by (cases e) (simp_all add: local_addrs_def Let_def algebra_simps)

lemma phys_addrs_shift:
  assumes "\<forall>x \<in> set c. rm_endian (mp_map st x) \<noteq> UVM_NO_ENDIAN" "c \<noteq> []"
  shows "fst (snd (phys_addrs st c (base + d) off n)) =
    map (\<lambda>a. a + (d * chain_scale st c + off * elem_step st c n)) (fst (snd (phys_addrs st c base 0 n)))"
  using assms
proof (induction c arbitrary: base d off n)
  case (Cons m ups)
  let ?x = "mp_map st m"
  let ?bw = "rm_n_bytes ?x" and ?mult = "if rm_byte_addressing ?x then rm_n_bytes ?x else 1"
  let ?s = "of_nat ((if n \<le> ?bw then 1 else (n - 1) div ?bw + 1) * ?mult) :: addr"
  have e: "rm_endian ?x \<noteq> UVM_NO_ENDIAN" using Cons.prems by simp
  obtain loc ms where l0: "local_addrs (rm_endian ?x) ?bw ?mult base 0 n = (loc, ms)" by fastforce
  obtain loc' ms' where l1: "local_addrs (rm_endian ?x) ?bw ?mult (base + d) off n = (loc', ms')" by fastforce
  have loc: "loc' = map (\<lambda>a. a + (d + off * ?s)) loc" using local_addrs_shift [OF e] l0 l1 by (metis fst_conv)
  show ?case
  proof (cases ups)
    case Nil
    then show ?thesis using l0 l1 loc by (simp add: Let_def elem_step_def algebra_simps)
  next
    case (Cons u us)
    let ?k = "of_nat (if rm_n_bytes (mp_map st u) \<le> ?bw then (?bw - 1) div rm_n_bytes (mp_map st u) + 1 else 1) :: addr"
    let ?b = "fst (get_submap_offset st u (Some m))"
    have IH: "fst (snd (phys_addrs st ups (b + z) 0 ?bw)) =
        map (\<lambda>a. a + z * chain_scale st ups) (fst (snd (phys_addrs st ups b 0 ?bw)))" for b z
      using Cons.IH [of b z 0 ?bw] Cons.prems Cons by simp
    have "fst (snd (phys_addrs st ups (?b + (a + (d + off * ?s)) * ?k) 0 ?bw)) =
        map (\<lambda>y. y + (d + off * ?s) * (?k * chain_scale st ups)) (fst (snd (phys_addrs st ups (?b + a * ?k) 0 ?bw)))" for a
      using IH [of "?b + a * ?k" "(d + off * ?s) * ?k"] by (simp add: algebra_simps)
    then have up: "map (\<lambda>a. fst (snd (phys_addrs st ups (?b + a * ?k) 0 ?bw))) loc' =
        map (map (\<lambda>y. y + (d + off * ?s) * (?k * chain_scale st ups)))
          (map (\<lambda>a. fst (snd (phys_addrs st ups (?b + a * ?k) 0 ?bw))) loc)"
      unfolding loc by simp
    have eq: "fst (snd (phys_addrs st (m # ups) B off' n)) = (if n = 0 then [] else
        concat (map (\<lambda>a. fst (snd (phys_addrs st ups (?b + a * ?k) 0 ?bw))) (fst (local_addrs (rm_endian ?x) ?bw ?mult B off' n))))"
      for B off' unfolding phys_addrs.simps(2) Cons list.case Let_def by (simp add: split_beta o_def Cons del: phys_addrs.simps)
    have sc: "chain_scale st (m # ups) = ?k * chain_scale st ups"
      "elem_step st (m # ups) n = ?s * (?k * chain_scale st ups)"
      by (simp_all add: Cons elem_step_def Let_def)
    have "d * (?k * chain_scale st ups) + off * (?s * (?k * chain_scale st ups)) = (d + off * ?s) * (?k * chain_scale st ups)"
      by (simp add: algebra_simps)
    then show ?thesis
      unfolding eq sc l0 l1 fst_conv up by (simp only: map_concat if_distrib [where f = "map f" for f] list.map if_cancel split: if_split)
  qed
qed simp

text \<open>C22. The addresses that a memory computes for one of its elements (\<open>get_addresses\<close>: the addresses of the
  first element plus the offset times the stride of its map entry) are the physical addresses that the
  maps give for that element, in every tree of maps, when the entry was computed by the map for a
  memory of two elements or more whose extent fits the address space and a stride of 32 bits.\<close>

theorem mem_addresses_exact:
  assumes range: "mem_range_of el False c mem offset st = Some (bw, as, (mn, mx, stride), ms)"
    and info: "mem_local_map (ve_maps env) m mp = (Some k, ws)" "ve_info env k = Some i" "\<not> mm_unmapped i"
      "mm_addr i = as" "mm_stride i = stride"
    and maps: "c \<noteq> []" "\<forall>x \<in> set c. 0 < rm_n_bytes (mp_map st x) \<and> rm_endian (mp_map st x) \<noteq> UVM_NO_ENDIAN"
    and mem: "0 < el_mem_bytes el mem" "N = (of_nat (el_mem_size el mem) :: addr) - 1" "N \<noteq> 0"
    and fit: "unat N * unat (elem_step st c (el_mem_bytes el mem)) < 2 ^ 64"
      "unat (elem_step st c (el_mem_bytes el mem)) < 2 ^ 32"
  shows "get_addresses env m mp e =
    Some (ve_n_bytes env k, fst (snd (phys_addrs st c offset e (el_mem_bytes el mem))), ws)"
proof -
  let ?n = "el_mem_bytes el mem" and ?D = "elem_step st c (el_mem_bytes el mem)"
  let ?p = "\<lambda>off. fst (snd (phys_addrs st c offset off ?n))"
  have shift: "?p off = map (\<lambda>a. a + off * ?D) (?p 0)" for off
    using phys_addrs_shift [of c st offset 0 off ?n] maps by simp
  have "length (?p 0) = chain_words st c ?n" using phys_addrs_width [of c st ?n offset 0] maps mem(1) by auto
  moreover have "?n \<le> chain_words st c ?n * Min ((\<lambda>m. rm_n_bytes (mp_map st m)) ` set c)"
    using chain_words_cover [of c st ?n] maps by auto
  ultimately have ne: "?p 0 \<noteq> []" using mem(1) by auto
  have as: "as = ?p 0" and str: "stride = ucast ((hd (?p N) - hd (?p 0)) div N)"
    using range mem(2) by (auto simp: mem_range_of_def Let_def split_beta split: if_splits)
  have "hd (?p N) - hd (?p 0) = N * ?D" using ne by (simp add: shift [of N] hd_map)
  moreover have "(N * ?D) div N = ?D"
  proof -
    have "unat (N * ?D) = unat N * unat ?D" using fit(1) by (intro iffD1 [OF unat_mult_lem]) simp
    then have "unat ((N * ?D) div N) = unat ?D" using mem(3) by (simp add: unat_div unat_gt_0)
    then show ?thesis by (rule word_unat_eq_iff [THEN iffD2])
  qed
  ultimately have "stride = ucast ?D" using str by simp
  moreover have "ucast (ucast ?D :: uint) = ?D"
    using fit(2) by (intro word_unat_eq_iff [THEN iffD2]) (simp add: unsigned_ucast_eq unsigned_take_bit_eq take_bit_nat_eq_self)
  ultimately show ?thesis
    using info by (simp add: get_addresses_def as shift [of e] mult.commute)
qed

text \<open>A memory of four elements of six bytes in a big-endian map of four bytes inside a map of two bytes.\<close>

definition step_maps :: reg_maps where
  "step_maps = \<lparr>mp_map = (\<lambda>m. if m = 1 then map_configure (Some 0) 0 4 UVM_BIG_ENDIAN True new_map
       else (map_configure (Some 0) 0 2 UVM_LITTLE_ENDIAN True new_map)\<lparr>rm_submaps := [(1, 0x100)]\<rparr>),
     mp_read_only = {}, mp_write_only = {}\<rparr>"

definition step_elems :: map_elems where
  "step_elems = \<lparr>el_reg_bytes = (\<lambda>_. 4), el_reg_access = (\<lambda>_ _. ''RW''), el_reg_block = (\<lambda>_. None), el_mem_bytes = (\<lambda>_. 6),
     el_mem_size = (\<lambda>_. 4), el_mem_block = (\<lambda>_. None), el_block_parent = (\<lambda>_. None), el_locked = (\<lambda>_. False)\<rparr>"

definition step_env :: "(addr \<Rightarrow> data) mem_env" where
  "step_env = word_env\<lparr>ve_info := (\<lambda>_. Some (word_info\<lparr>mm_addr := [0x118, 0x11A, 0x110, 0x112], mm_stride := 16\<rparr>))\<rparr>"

theorem mem_addresses_exact_witness:
  "get_addresses step_env word_mem (Some (Map_Id 0)) 3 = Some (4, [0x148, 0x14A, 0x140, 0x142], [])"
proof -
  let ?i = "word_info\<lparr>mm_addr := [0x118, 0x11A, 0x110, 0x112], mm_stride := 16\<rparr>"
  have range: "mem_range_of step_elems False [1, 0] 9 8 step_maps =
      Some (2, [0x118, 0x11A, 0x110, 0x112], (0x112, 0x148, 16), [])" by code_simp
  have i: "mem_local_map (ve_maps step_env) word_mem (Some (Map_Id 0)) = (Some (Map_Id 0), [])"
      "ve_info step_env (Map_Id 0) = Some ?i" "\<not> mm_unmapped ?i" "mm_addr ?i = [0x118, 0x11A, 0x110, 0x112]" "mm_stride ?i = 16"
      "ve_n_bytes step_env (Map_Id 0) = 4" using word_facts by (simp_all add: step_env_def word_env_def word_info_def)
  have e: "elem_step step_maps [1, 0] 6 = 16" "el_mem_bytes step_elems 9 = 6" "el_mem_size step_elems 9 = 4"
      "fst (snd (phys_addrs step_maps [1, 0] 8 3 6)) = [0x148, 0x14A, 0x140, 0x142]" by code_simp+
  have m: "\<forall>x \<in> set [1, 0]. 0 < rm_n_bytes (mp_map step_maps x) \<and> rm_endian (mp_map step_maps x) \<noteq> UVM_NO_ENDIAN"
    by (simp add: step_maps_def map_configure_def)
  show ?thesis
    using mem_addresses_exact [OF range i(1-5) _ m _ refl, of 3] unfolding i(6) e by simp
qed

section \<open>Memories by the backdoor\<close>

lemma mem_hdl_paths_writing [simp]:
  "mem_hdl_paths env (m\<lparr>me_writing := b\<rparr>) kind = mem_hdl_paths env m kind"
  "mem_hdl_paths env (m\<lparr>me_reading := b\<rparr>) kind = mem_hdl_paths env m kind"
  "mem_hdl_paths env (m\<lparr>me_backdoor := b\<rparr>) kind = mem_hdl_paths env m kind"
  by (simp_all add: mem_hdl_paths_def)

lemma mem_hdl_paths_quiet: "pool_has (ve_block_hdl env) kind (me_hdl m) \<Longrightarrow> snd (mem_hdl_paths env m kind) = []"
  by (auto simp: mem_hdl_paths_def elem_full_hdl_path_def pool_has_def)

text \<open>A memory without a user-defined backdoor whose HDL copies are known.\<close>

definition back_ready :: "'h mem_env \<Rightarrow> string \<Rightarrow> uvm_mem \<Rightarrow> hdl_path_concat list \<Rightarrow> bool" where
  "back_ready env kind m ps \<longleftrightarrow> \<not> me_backdoor m \<and> \<not> ve_block_backdoor env \<and>
     pool_has (ve_block_hdl env) kind (me_hdl m) \<and> mem_hdl_paths env m kind = (ps, [])"

definition paths_ok :: "'h mem_env \<Rightarrow> nat \<Rightarrow> hdl_path_concat list \<Rightarrow> bool" where
  "paths_ok env n ps \<longleftrightarrow> ve_hdl_width env \<le> 64 \<and> n \<le> ve_hdl_width env \<and> ps \<noteq> [] \<and>
     (\<forall>c \<in> set ps. slices_fit (ve_hdl_width env) c \<and> slices_cover n c) \<and> distinct (slice_paths ps)"

lemma back_ready_flags [simp]:
  "back_ready env kind (m\<lparr>me_writing := b\<rparr>) ps = back_ready env kind m ps"
  "back_ready env kind (m\<lparr>me_reading := b\<rparr>) ps = back_ready env kind m ps"
  by (simp_all add: back_ready_def)

lemma no_backdoor: "back_ready env kind m ps \<Longrightarrow> mem_get_backdoor env m = (False, m)"
  by (simp add: back_ready_def mem_get_backdoor_def)

lemma check_access_back:
  assumes "back_ready env [] m ps" "mt_path rw = UVM_BACKDOOR" "mt_offset rw < me_size m"
  shows "mem_check_access env rw m = Some (True, rw\<lparr>mt_map := Some Backdoor_Map\<rparr>, None, m, [])"
  using assms no_backdoor [OF assms(1)] by (auto simp: mem_check_access_def back_ready_def Let_def not_le)

lemma do_write_back:
  assumes "back_ready env [] m ps" "mt_path rw = UVM_BACKDOOR" "mt_offset rw < me_size m" "mem_no_hooks env"
    and "mt_bd_kind rw = []" "length (me_maps m) = 1" "me_access m = ''RW''"
    and "mem_backdoor_write (ve_deposit env) ps (mt_offset rw) (mt_values rw) h = (s, h1)"
  shows "mem_do_write env rw m h =
    Some (m\<lparr>me_writing := False\<rparr>, rw\<lparr>mt_map := Some Backdoor_Map, mt_status := s\<rparr>, h1, [])"
proof -
  have b: "mem_hdl_paths env m [] = (ps, [])" using assms(1) by (simp add: back_ready_def)
  have "mem_get_backdoor env (m\<lparr>me_writing := True\<rparr>) = (False, m\<lparr>me_writing := True\<rparr>)"
    using assms(1) by (intro no_backdoor [where ps = ps and kind = "[]"]) simp
  then show ?thesis using assms b
    by (simp add: mem_do_write_def check_access_back [OF assms(1-3)] mem_no_hooks_def mem_get_access_def use_backdoor_def
        mem_backdoor_access_def)
qed

lemma do_read_back:
  assumes "back_ready env [] m ps" "mt_path rw = UVM_BACKDOOR" "mt_offset rw < me_size m" "mem_no_hooks env"
    and "mt_bd_kind rw = []"
    and "mem_backdoor_read (ve_hdl_read env) (ve_hdl_width env) (unat (me_n_bits m)) ps (mt_offset rw) (mt_values rw) h =
      Some (s, vs, [])"
  shows "mem_do_read env rw m h =
    Some (m\<lparr>me_reading := False\<rparr>, rw\<lparr>mt_map := Some Backdoor_Map, mt_status := s, mt_values := vs\<rparr>, h, [])"
proof -
  have b: "mem_hdl_paths env m [] = (ps, [])" using assms(1) by (simp add: back_ready_def)
  have "mem_get_backdoor env (m\<lparr>me_reading := True\<rparr>) = (False, m\<lparr>me_reading := True\<rparr>)"
    using assms(1) by (intro no_backdoor [where ps = ps and kind = "[]"]) simp
  then show ?thesis using assms b
    by (simp add: mem_do_read_def check_access_back [OF assms(1-3)] mem_no_hooks_def use_backdoor_def mem_backdoor_access_def)
qed

lemma backdoor_run:
  assumes "hdl_stores (ve_deposit env) (ve_hdl_read env) view" "paths_ok env n ps"
    and "length vs \<le> 2 ^ 64" "length us = length vs"
  shows "\<exists>h1. mem_backdoor_write (ve_deposit env) ps offset vs h = (UVM_IS_OK, h1) \<and>
    mem_backdoor_read (ve_hdl_read env) (ve_hdl_width env) n ps offset us h1 = Some (UVM_IS_OK, map (\<lambda>v. v AND mask n) vs, [])"
  using backdoor_values_roundtrip [OF assms(1) _ _ _ _ _ assms(3,4), of "ve_hdl_width env" n ps offset h] assms(2)
  by (cases "mem_backdoor_write (ve_deposit env) ps offset vs h") (simp add: paths_ok_def)

text \<open>A memory that may be written, lies in one map and has no user-defined backdoor is read back by
  the backdoor: a burst write deposits every element into every HDL copy slice by slice, a burst read
  at the same offset collects the slices and returns the values cut to the width of the memory. Both
  report success and nothing else.\<close>

theorem mem_backdoor_roundtrip:
  assumes "hdl_stores (ve_deposit env) (ve_hdl_read env) view" "mem_no_hooks env"
    and "back_ready env [] m ps" "paths_ok env (unat (me_n_bits m)) ps"
    and "length (me_maps m) = 1" "me_access m = ''RW''" "offset < me_size m"
    and "length vs \<le> 2 ^ 64" "length us = length vs"
  shows "\<exists>m1 m2 h1. mem_burst_write env offset vs UVM_BACKDOOR mp m h = Some (UVM_IS_OK, m1, h1, []) \<and>
    mem_burst_read env offset us UVM_BACKDOOR mp m1 h1 =
      Some (UVM_IS_OK, map (\<lambda>v. v AND mask (unat (me_n_bits m))) vs, m2, h1, [])"
proof -
  let ?w = "new_mem_item env UVM_BURST_WRITE offset vs UVM_BACKDOOR [] mp"
  let ?r = "new_mem_item env UVM_BURST_READ offset us UVM_BACKDOOR [] mp"
  let ?m1 = "m\<lparr>me_writing := False\<rparr>"
  obtain h1 where h1: "mem_backdoor_write (ve_deposit env) ps offset vs h = (UVM_IS_OK, h1)"
      "mem_backdoor_read (ve_hdl_read env) (ve_hdl_width env) (unat (me_n_bits m)) ps offset us h1 =
        Some (UVM_IS_OK, map (\<lambda>v. v AND mask (unat (me_n_bits m))) vs, [])"
    using backdoor_run [OF assms(1,4,8,9), of offset h] by blast
  have "mem_do_write env ?w m h = Some (?m1, ?w\<lparr>mt_map := Some Backdoor_Map, mt_status := UVM_IS_OK\<rparr>, h1, [])"
    using assms h1(1) by (intro do_write_back) (simp_all add: new_mem_item_def)
  moreover have "mem_do_read env ?r ?m1 h1 = Some (?m1\<lparr>me_reading := False\<rparr>, ?r\<lparr>mt_map := Some Backdoor_Map,
      mt_status := UVM_IS_OK, mt_values := map (\<lambda>v. v AND mask (unat (me_n_bits m))) vs\<rparr>, h1, [])"
    using assms h1(2) by (intro do_read_back [where ps = ps]) (simp_all add: new_mem_item_def)
  ultimately show ?thesis by (simp add: mem_burst_write_def mem_burst_read_def)
qed

text \<open>\<open>poke\<close> and \<open>peek\<close>, by any kind of design.\<close>

lemma mem_poke_peek:
  assumes "hdl_stores (ve_deposit env) (ve_hdl_read env) view" "back_ready env kind m ps" "paths_ok env (unat (me_n_bits m)) ps"
  shows "\<exists>h1. mem_poke env offset v kind m h = Some (UVM_IS_OK, m, h1, []) \<and>
    mem_peek env offset out kind m h1 = Some (UVM_IS_OK, v AND mask (unat (me_n_bits m)), m, h1, [])"
proof -
  let ?n = "unat (me_n_bits m)"
  obtain h1 where h1: "mem_backdoor_write (ve_deposit env) ps offset [v AND mask ?n] h = (UVM_IS_OK, h1)"
      "mem_backdoor_read (ve_hdl_read env) (ve_hdl_width env) ?n ps offset [0] h1 = Some (UVM_IS_OK, [v AND mask ?n], [])"
    using backdoor_run [OF assms(1,3), of "[v AND mask ?n]" "[0]" offset h] by (auto simp: and.assoc)
  have "mem_hdl_paths env m kind = (ps, [])" "pool_has (ve_block_hdl env) kind (me_hdl m)"
    using assms(2) by (simp_all add: back_ready_def)
  then show ?thesis using h1
    by (simp add: mem_poke_def mem_peek_def no_backdoor [OF assms(2)] new_mem_item_def mem_backdoor_access_def)
qed

text \<open>A memory of bytes with two HDL copies, one of them split into nibbles, which is written through both.\<close>

definition store_deposit :: "(string \<Rightarrow> data) deposit" where
  "store_deposit p v h = (True, h(p := v))"

definition store_read :: "(string \<Rightarrow> data) hdl_read" where
  "store_read p h = (True, h p)"

definition byte_mem :: uvm_mem where
  "byte_mem = (mem_add_map (Map_Id 0) (fst (mem_configure [] (fst (new_mem ''rom'' 16 8 ''rw'' 0 0)))))
     \<lparr>me_hdl := add_hdl_path [\<lparr>sl_path = ''all'', sl_offset = 0, sl_size = 8\<rparr>] ''RTL''
       (add_hdl_path [\<lparr>sl_path = ''lo'', sl_offset = 0, sl_size = 4\<rparr>, \<lparr>sl_path = ''hi'', sl_offset = 4, sl_size = 4\<rparr>] ''RTL''
         Map.empty)\<rparr>"

definition hdl_env :: "(string \<Rightarrow> data) mem_env" where
  "hdl_env = \<lparr>ve_maps = \<lparr>me_ancestors = (\<lambda>_. []), me_blk_default = (\<lambda>_. None)\<rparr>,
     ve_info = (\<lambda>_. None), ve_n_bytes = (\<lambda>_. 4), ve_status = UVM_HAS_X,
     ve_block_path = UVM_FRONTDOOR, ve_block_hdl = ''RTL'', ve_block_full = (\<lambda>_. [''top'']), ve_block_backdoor = False,
     ve_map_write = (\<lambda>_ _. None), ve_map_read = (\<lambda>_ _. None),
     ve_frontdoor = (\<lambda>rw h. (rw, h)), ve_back_write = (\<lambda>rw h. (rw, h)), ve_back_read = (\<lambda>rw h. (rw, h)),
     ve_deposit = store_deposit, ve_hdl_read = store_read, ve_hdl_width = 32,
     ve_pre_write = (\<lambda>rw. rw), ve_post_write = (\<lambda>rw. rw), ve_pre_read = (\<lambda>rw. rw), ve_post_read = (\<lambda>rw. rw)\<rparr>"

definition byte_paths :: "hdl_path_concat list" where
  "byte_paths = [[\<lparr>sl_path = ''top.lo'', sl_offset = 0, sl_size = 4\<rparr>, \<lparr>sl_path = ''top.hi'', sl_offset = 4, sl_size = 4\<rparr>],
     [\<lparr>sl_path = ''top.all'', sl_offset = 0, sl_size = 8\<rparr>]]"

lemma byte_facts:
  "me_backdoor byte_mem = False" "me_maps byte_mem = [Map_Id 0]" "me_access byte_mem = ''RW''" "me_size byte_mem = 16"
  "me_n_bits byte_mem = 8" "pool_has ''RTL'' [] (me_hdl byte_mem)"
  "elem_full_hdl_path ''RTL'' [] ''.'' (\<lambda>_. [''top'']) (me_hdl byte_mem) = (byte_paths, [])"
  by code_simp+

lemma byte_back:
  "hdl_stores (ve_deposit hdl_env) (ve_hdl_read hdl_env) (\<lambda>h. h)" "paths_ok hdl_env 8 byte_paths"
  "back_ready hdl_env [] byte_mem byte_paths"
proof -
  show "hdl_stores (ve_deposit hdl_env) (ve_hdl_read hdl_env) (\<lambda>h. h)"
    by (simp add: hdl_stores_def hdl_env_def store_deposit_def store_read_def)
  have "slices_cover 8 c" "slices_fit 32 c" if "c \<in> set byte_paths" for c
    using that by (auto simp: byte_paths_def slices_cover_def slice_has_def slices_fit_def)
  moreover have "distinct (slice_paths byte_paths)" by (simp add: byte_paths_def slice_paths_def)
  ultimately show "paths_ok hdl_env 8 byte_paths" by (simp add: paths_ok_def hdl_env_def byte_paths_def)
  show "back_ready hdl_env [] byte_mem byte_paths"
    using byte_facts by (simp add: back_ready_def mem_hdl_paths_def hdl_env_def)
qed

theorem mem_backdoor_roundtrip_witness:
  "\<exists>m1 m2 h1. mem_burst_write hdl_env 5 [0x1A7, 0x3C] UVM_BACKDOOR None byte_mem (\<lambda>_. 0) = Some (UVM_IS_OK, m1, h1, []) \<and>
    mem_burst_read hdl_env 5 [0, 0] UVM_BACKDOOR None m1 h1 = Some (UVM_IS_OK, [0xA7, 0x3C], m2, h1, [])"
proof -
  have env: "mem_no_hooks hdl_env" by (simp add: mem_no_hooks_def hdl_env_def)
  have ok: "paths_ok hdl_env (unat (me_n_bits byte_mem)) byte_paths" using byte_back(2) by (simp add: byte_facts)
  have v: "map (\<lambda>v. v AND mask (unat (me_n_bits byte_mem))) [0x1A7, 0x3C] = [0xA7, 0x3C :: data]"
    unfolding byte_facts by (simp add: mask_eq_exp_minus_1)
  show ?thesis
    using mem_backdoor_roundtrip [OF byte_back(1) env byte_back(3) ok, of 5 "[0x1A7, 0x3C]" "[0, 0]" None "\<lambda>_. 0"] unfolding v
    by (simp add: byte_facts)
qed

text \<open>A burst that runs beyond the end of a memory on the bus is reported, does nothing to the
  design or the memory, and leaves the status of the item as its constructor left it: unset.\<close>

theorem mem_burst_overrun:
  assumes "mp \<noteq> None" "mem_local_map (ve_maps env) m mp = (Some k, ws)" "ve_info env k = Some i"
    and "\<not> mm_frontdoor i" "\<not> mm_unmapped i" "offset < me_size m" "1 < length vs"
    and "unat (me_n_bits m) \<le> ve_n_bytes env k * 8" "me_size m < offset + of_nat (length vs)"
  shows "mem_burst_write env offset vs UVM_FRONTDOOR mp m h = Some (ve_status env, m, h, ws @ [(UVM_ERROR, ''RegModel'')]) \<and>
    mem_burst_read env offset vs UVM_FRONTDOOR mp m h = Some (ve_status env, vs, m, h, ws @ [(UVM_ERROR, ''RegModel'')])"
proof -
  have "mem_check_access env (new_mem_item env kind offset vs UVM_FRONTDOOR [] mp) m =
      Some (False, (new_mem_item env kind offset vs UVM_FRONTDOOR [] mp)\<lparr>mt_local_map := Some k\<rparr>, Some i, m,
        ws @ [(UVM_ERROR, ''RegModel'')])" for kind
    using assms by (simp add: mem_check_access_def new_mem_item_def not_le not_less)
  then show ?thesis
    by (simp add: mem_burst_write_def mem_burst_read_def mem_do_write_def mem_do_read_def new_mem_item_def)
qed

theorem mem_burst_overrun_witness:
  "mem_burst_write word_env 14 [1, 2, 3] UVM_FRONTDOOR (Some (Map_Id 0)) word_mem (\<lambda>_. 7) =
    Some (UVM_HAS_X, word_mem, \<lambda>_. 7, [(UVM_ERROR, ''RegModel'')])"
proof -
  have "ve_info word_env (Map_Id 0) = Some word_info" "ve_n_bytes word_env (Map_Id 0) = 4" "ve_status word_env = UVM_HAS_X"
    "\<not> mm_frontdoor word_info" "\<not> mm_unmapped word_info"
    by (simp_all add: word_env_def word_info_def)
  then show ?thesis
    using mem_burst_overrun [OF _ word_facts(5), of word_info 14 "[1, 2, 3]" "\<lambda>_. 7"] word_facts(3,4) by simp
qed

text \<open>A memory that may only be read ignores writes by the backdoor, with success.\<close>

lemma backdoor_write_ignored:
  assumes "back_ready env [] m ps" "mem_no_hooks env" "length (me_maps m) = 1" "me_access m \<noteq> ''RW''" "offset < me_size m"
  shows "mem_burst_write env offset vs UVM_BACKDOOR mp m h = Some (UVM_IS_OK, m\<lparr>me_writing := False\<rparr>, h, [])"
proof -
  let ?w = "new_mem_item env UVM_BURST_WRITE offset vs UVM_BACKDOOR [] mp"
  have "mem_check_access env ?w m = Some (True, ?w\<lparr>mt_map := Some Backdoor_Map\<rparr>, None, m, [])"
    using assms by (intro check_access_back) (simp_all add: new_mem_item_def)
  then show ?thesis
    using assms by (simp add: mem_burst_write_def mem_do_write_def mem_no_hooks_def mem_get_access_def new_mem_item_def)
qed

text \<open>The offsets sampled after an access are one more than its elements.\<close>

lemma sampled_one_more: "mt_status rw \<noteq> UVM_NOT_OK \<Longrightarrow> length (sampled_offsets rw i) = length (mt_values rw) + 1"
  by (simp add: sampled_offsets_def)

end
