(* ===== verification/Reg_Block.thy ===== *)
theory Reg_Block
  imports Reg_Access Reg_Memory
begin

text \<open>
  \<open>src/uvmsc/reg/uvm_reg_block.cpp\<close>: register blocks. A register model is the store of its blocks,
  registers and memories, each identified by its address, a natural; the maps \<open>m_blks\<close>, \<open>m_regs\<close>,
  \<open>m_vregs\<close>, \<open>m_mems\<close>, \<open>m_maps\<close> and \<open>m_roots\<close> are the sorted lists of their keys (the serial numbers
  they hold are never read). The states of the maps and of the design are other arguments. \<open>d\<close>
  bounds the depth of the recursion through sub-blocks. Text output, the resources set for
  \<open>find_blocks\<close>, and the hooks that sample coverage are left out. \<open>None\<close> is following a null pointer, or
  an operation that did not return within \<open>d\<close>.
\<close>

section \<open>State\<close>

record reg_block =
  bk_name :: string
  bk_parent :: "nat option"
  bk_blks :: "nat list"
  bk_regs :: "nat list"
  bk_vregs :: "nat list"
  bk_mems :: "nat list"
  bk_maps :: "nat list"
  bk_default_map :: "nat option"
  bk_default_path :: uvm_path_e
  bk_default_hdl :: string
  bk_hdl_pool :: "string path_pool"
  bk_hdl_roots :: "string \<rightharpoonup> string"
  bk_backdoor :: "nat option"
  bk_locked :: bool
  bk_has_cover :: uint
  bk_cover_on :: uint

record reg_cover =
  rc_has :: uint
  rc_on :: uint

record reg_model =
  md_blk :: "nat \<Rightarrow> reg_block"
  md_reg :: "nat \<Rightarrow> uvm_reg"
  md_cover :: "nat \<Rightarrow> reg_cover"
  md_mem :: "nat \<Rightarrow> uvm_mem"
  md_roots :: "nat list"
  md_named :: "nat set"

definition set_blk :: "nat \<Rightarrow> (reg_block \<Rightarrow> reg_block) \<Rightarrow> reg_model \<Rightarrow> reg_model" where
  "set_blk b f md = md\<lparr>md_blk := (md_blk md)(b := f (md_blk md b))\<rparr>"

definition set_reg :: "nat \<Rightarrow> (uvm_reg \<Rightarrow> uvm_reg) \<Rightarrow> reg_model \<Rightarrow> reg_model" where
  "set_reg r f md = md\<lparr>md_reg := (md_reg md)(r := f (md_reg md r))\<rparr>"

definition set_mem :: "nat \<Rightarrow> (uvm_mem \<Rightarrow> uvm_mem) \<Rightarrow> reg_model \<Rightarrow> reg_model" where
  "set_mem m f md = md\<lparr>md_mem := (md_mem md)(m := f (md_mem md m))\<rparr>"

section \<open>Construction\<close>

text \<open>
  The constructor sets the coverage models and then clears them; it does not set the default map,
  here none. The flag of a new root is false: its name has not been checked.
\<close>

definition new_block :: "nat \<Rightarrow> string \<Rightarrow> uint \<Rightarrow> reg_model \<Rightarrow> reg_model" where
  "new_block a nm cover md =
     (let b = \<lparr>bk_name = nm, bk_parent = None, bk_blks = [], bk_regs = [], bk_vregs = [], bk_mems = [], bk_maps = [],
               bk_default_map = None, bk_default_path = UVM_DEFAULT_PATH, bk_default_hdl = ''RTL'',
               bk_hdl_pool = Map.empty, bk_hdl_roots = Map.empty, bk_backdoor = None, bk_locked = False,
               bk_has_cover = cover, bk_cover_on = 0\<rparr>
      in md\<lparr>md_blk := (md_blk md)(a := b\<lparr>bk_has_cover := 0\<rparr>), md_roots := put_key a (md_roots md),
            md_named := md_named md - {a}\<rparr>)"

definition add_block :: "nat \<Rightarrow> nat \<Rightarrow> reg_model \<Rightarrow> reg_model \<times> msg list" where
  "add_block p b md =
     (if bk_locked (md_blk md p) \<or> b \<in> set (bk_blks (md_blk md p)) then (md, [(UVM_ERROR, ''RegModel'')])
      else ((set_blk p (\<lambda>x. x\<lparr>bk_blks := put_key b (bk_blks x)\<rparr>) md)
              \<lparr>md_roots := erase_key b (md_roots md), md_named := md_named md - {b}\<rparr>, []))"

definition configure_block :: "nat \<Rightarrow> nat option \<Rightarrow> string \<Rightarrow> reg_model \<Rightarrow> reg_model \<times> msg list" where
  "configure_block b parent hdl_path md =
     (let md1 = set_blk b (\<lambda>x. x\<lparr>bk_parent := parent\<rparr>) md;
          (md2, ms) = (case parent of None \<Rightarrow> (md1, []) | Some p \<Rightarrow> add_block p b md1)
      in (set_blk b (\<lambda>x. x\<lparr>bk_hdl_pool := pool_add hdl_path ''RTL'' (bk_hdl_pool x)\<rparr>) md2, ms))"

definition set_parent :: "nat \<Rightarrow> nat option \<Rightarrow> reg_model \<Rightarrow> reg_model" where
  "set_parent b p md = (if p = Some b then md else set_blk b (\<lambda>x. x\<lparr>bk_parent := p\<rparr>) md)"

definition blk_add_reg :: "nat \<Rightarrow> nat \<Rightarrow> reg_model \<Rightarrow> reg_model \<times> msg list" where
  "blk_add_reg b r md =
     (if bk_locked (md_blk md b) \<or> r \<in> set (bk_regs (md_blk md b)) then (md, [(UVM_ERROR, ''RegModel'')])
      else (set_blk b (\<lambda>x. x\<lparr>bk_regs := put_key r (bk_regs x)\<rparr>) md, []))"

definition blk_add_vreg :: "nat \<Rightarrow> nat \<Rightarrow> reg_model \<Rightarrow> reg_model \<times> msg list" where
  "blk_add_vreg b v md =
     (if bk_locked (md_blk md b) \<or> v \<in> set (bk_vregs (md_blk md b)) then (md, [(UVM_ERROR, ''RegModel'')])
      else (set_blk b (\<lambda>x. x\<lparr>bk_vregs := put_key v (bk_vregs x)\<rparr>) md, []))"

definition blk_add_mem :: "nat \<Rightarrow> nat \<Rightarrow> reg_model \<Rightarrow> reg_model \<times> msg list" where
  "blk_add_mem b m md =
     (if bk_locked (md_blk md b) \<or> m \<in> set (bk_mems (md_blk md b)) then (md, [(UVM_ERROR, ''RegModel'')])
      else (set_blk b (\<lambda>x. x\<lparr>bk_mems := put_key m (bk_mems x)\<rparr>) md, []))"

text \<open>The map created, at address \<open>a\<close>, is configured in theory Reg_Map.\<close>

definition create_map :: "nat \<Rightarrow> nat \<Rightarrow> reg_model \<Rightarrow> nat option \<times> reg_model \<times> msg list" where
  "create_map b a md =
     (if bk_locked (md_blk md b) then (None, md, [(UVM_ERROR, ''RegModel'')])
      else let ks = put_key a (bk_maps (md_blk md b))
           in (Some a, set_blk b (\<lambda>x. x\<lparr>bk_maps := ks,
                 bk_default_map := (if length ks = 1 then Some a else bk_default_map x)\<rparr>) md, []))"

text \<open>The warning names the map.\<close>

definition set_default_map :: "nat \<Rightarrow> nat option \<Rightarrow> reg_model \<Rightarrow> (reg_model \<times> msg list) option" where
  "set_default_map b mp md =
     (let known = (case mp of None \<Rightarrow> False | Some k \<Rightarrow> k \<in> set (bk_maps (md_blk md b)))
      in if mp = None then None
         else Some (set_blk b (\<lambda>x. x\<lparr>bk_default_map := mp\<rparr>) md,
                    if known then [] else [(UVM_WARNING, ''RegModel'')]))"

definition check_data_width :: "uint \<Rightarrow> bool \<times> msg list" where
  "check_data_width width = (if width \<le> 64 then (True, []) else (False, [(UVM_FATAL, ''RegModel'')]))"

section \<open>Locking\<close>

text \<open>The registers and memories of a block.\<close>

definition lock_content :: "nat \<Rightarrow> reg_model \<Rightarrow> reg_model" where
  "lock_content b md =
     fold (\<lambda>m. set_mem m mem_lock_model) (bk_mems (md_blk md b))
       (fold (\<lambda>r. set_reg r m_lock_model) (bk_regs (md_blk md b))
         (set_blk b (\<lambda>x. x\<lparr>bk_locked := True\<rparr>) md))"

text \<open>
  What a block without a parent does when it is locked: \<open>mx\<close> is the largest size of a register,
  field or memory, compared as a signed number; \<open>init\<close> is \<open>m_init_address_map\<close> of a map. Reading the
  flag of the block enters it into \<open>m_roots\<close>.
\<close>

type_synonym 'm init_map = "nat \<Rightarrow> 'm \<Rightarrow> ('m \<times> msg list) option"
type_synonym 'm lock_state = "reg_model \<times> 'm \<times> msg list"

definition lock_root :: "uint \<Rightarrow> 'm init_map \<Rightarrow> nat \<Rightarrow> 'm lock_state \<Rightarrow> 'm lock_state option" where
  "lock_root mx init b s =
     (let (md, mp, ms) = s;
          ms1 = (if sint mx > 64 then ms @ [(UVM_FATAL, ''RegModel'')] else ms)
      in case seq_all (\<lambda>k (mp, ms). map_option (\<lambda>(mp', ms'). (mp', ms @ ms')) (init k mp)) (bk_maps (md_blk md b)) (mp, ms1) of
           None \<Rightarrow> None
         | Some (mp2, ms2) \<Rightarrow>
             let md2 = md\<lparr>md_roots := put_key b (md_roots md)\<rparr>
             in if b \<in> md_named md then Some (md2, mp2, ms2)
                else let same = filter (\<lambda>x. bk_name (md_blk md2 x) = bk_name (md_blk md2 b)) (md_roots md2)
                     in Some (md2\<lparr>md_named := md_named md2 \<union> set same\<rparr>, mp2,
                              if length same > 1 then ms2 @ [(UVM_ERROR, ''UVM/REG/DUPLROOT'')] else ms2))"

primrec lock_model :: "nat \<Rightarrow> uint \<Rightarrow> 'm init_map \<Rightarrow> nat \<Rightarrow> 'm lock_state \<Rightarrow> 'm lock_state option" where
  "lock_model 0 mx init b s = None"
| "lock_model (Suc d) mx init b s =
     (let (md, mp, ms) = s
      in if bk_locked (md_blk md b) then Some s
         else case seq_all (lock_model d mx init) (bk_blks (md_blk md b)) (lock_content b md, mp, ms) of
                None \<Rightarrow> None
              | Some s2 \<Rightarrow> if bk_parent (md_blk (fst s2) b) = None then lock_root mx init b s2 else Some s2)"

section \<open>What a block contains\<close>

text \<open>\<open>own\<close> of a block, and of all blocks below it when the search is hierarchical.\<close>

primrec collect :: "nat \<Rightarrow> reg_model \<Rightarrow> (reg_block \<Rightarrow> 'x list) \<Rightarrow> uvm_hier_e \<Rightarrow> nat \<Rightarrow> 'x list" where
  "collect 0 md own hier b = []"
| "collect (Suc d) md own hier b =
     own (md_blk md b) @
     (if hier = UVM_HIER then concat (map (collect d md own UVM_HIER) (bk_blks (md_blk md b))) else [])"

definition blk_get_registers :: "nat \<Rightarrow> reg_model \<Rightarrow> uvm_hier_e \<Rightarrow> nat \<Rightarrow> nat list" where
  "blk_get_registers d md hier b = collect d md bk_regs hier b"

definition blk_get_memories :: "nat \<Rightarrow> reg_model \<Rightarrow> uvm_hier_e \<Rightarrow> nat \<Rightarrow> nat list" where
  "blk_get_memories d md hier b = collect d md bk_mems hier b"

definition blk_get_vregs :: "nat \<Rightarrow> reg_model \<Rightarrow> uvm_hier_e \<Rightarrow> nat \<Rightarrow> nat list" where
  "blk_get_vregs d md hier b = collect d md bk_vregs hier b"

text \<open>A field is a register and its index there; the fields of virtual registers are an argument.\<close>

definition reg_fields_of :: "reg_model \<Rightarrow> nat \<Rightarrow> (nat \<times> nat) list" where
  "reg_fields_of md r = map (Pair r) [0..<length (r_fields (md_reg md r))]"

definition blk_get_fields :: "nat \<Rightarrow> reg_model \<Rightarrow> uvm_hier_e \<Rightarrow> nat \<Rightarrow> (nat \<times> nat) list" where
  "blk_get_fields d md hier b = collect d md (\<lambda>x. concat (map (reg_fields_of md) (bk_regs x))) hier b"

definition blk_get_vfields :: "(nat \<Rightarrow> 'f list) \<Rightarrow> nat \<Rightarrow> reg_model \<Rightarrow> uvm_hier_e \<Rightarrow> nat \<Rightarrow> 'f list" where
  "blk_get_vfields flds d md hier b = collect d md (\<lambda>x. concat (map flds (bk_vregs x))) hier b"

primrec get_blocks :: "nat \<Rightarrow> reg_model \<Rightarrow> uvm_hier_e \<Rightarrow> nat \<Rightarrow> nat list" where
  "get_blocks 0 md hier b = []"
| "get_blocks (Suc d) md hier b =
     concat (map (\<lambda>c. c # (if hier = UVM_HIER then get_blocks d md UVM_HIER c else [])) (bk_blks (md_blk md b)))"

section \<open>Searching by name\<close>

primrec first_in :: "('x \<Rightarrow> bool) \<Rightarrow> 'x list list \<Rightarrow> 'x option" where
  "first_in p [] = None"
| "first_in p (xs # xss) = (case find p xs of Some x \<Rightarrow> Some x | None \<Rightarrow> first_in p xss)"

definition named_or_warn :: "'x option \<Rightarrow> 'x option \<times> msg list" where
  "named_or_warn r = (r, if r = None then [(UVM_WARNING, ''RegModel'')] else [])"

definition get_block_by_name :: "nat \<Rightarrow> reg_model \<Rightarrow> string \<Rightarrow> nat \<Rightarrow> nat option \<times> msg list" where
  "get_block_by_name d md nm b =
     (let subs = bk_blks (md_blk md b)
      in named_or_warn (first_in (\<lambda>c. bk_name (md_blk md c) = nm) ([b] # subs # map (get_blocks d md UVM_HIER) subs)))"

text \<open>\<open>subs\<close> are the maps below a map, \<open>names\<close> the names of maps.\<close>

definition get_map_by_name :: "(nat \<Rightarrow> nat list) \<Rightarrow> (nat \<Rightarrow> string) \<Rightarrow> reg_model \<Rightarrow> string \<Rightarrow> nat \<Rightarrow> nat option \<times> msg list" where
  "get_map_by_name subs names md nm b =
     named_or_warn (first_in (\<lambda>k. names k = nm) (bk_maps (md_blk md b) # map subs (bk_maps (md_blk md b))))"

definition get_reg_by_name :: "nat \<Rightarrow> reg_model \<Rightarrow> string \<Rightarrow> nat \<Rightarrow> nat option \<times> msg list" where
  "get_reg_by_name d md nm b =
     named_or_warn (first_in (\<lambda>r. r_name (md_reg md r) = nm)
       (bk_regs (md_blk md b) # map (blk_get_registers d md UVM_HIER) (bk_blks (md_blk md b))))"

definition blk_get_field_by_name :: "nat \<Rightarrow> reg_model \<Rightarrow> string \<Rightarrow> nat \<Rightarrow> (nat \<times> nat) option \<times> msg list" where
  "blk_get_field_by_name d md nm b =
     named_or_warn (first_in (\<lambda>(r, i). f_name (r_fields (md_reg md r) ! i) = nm)
       (map (reg_fields_of md) (bk_regs (md_blk md b)) @
        map (reg_fields_of md) (concat (map (blk_get_registers d md UVM_HIER) (bk_blks (md_blk md b))))))"

definition get_mem_by_name :: "nat \<Rightarrow> reg_model \<Rightarrow> string \<Rightarrow> nat \<Rightarrow> nat option \<times> msg list" where
  "get_mem_by_name d md nm b =
     named_or_warn (first_in (\<lambda>m. me_name (md_mem md m) = nm)
       (bk_mems (md_blk md b) # map (blk_get_memories d md UVM_HIER) (bk_blks (md_blk md b))))"

definition blk_get_vreg_by_name :: "(nat \<Rightarrow> string) \<Rightarrow> nat \<Rightarrow> reg_model \<Rightarrow> string \<Rightarrow> nat \<Rightarrow> nat option \<times> msg list" where
  "blk_get_vreg_by_name names d md nm b =
     named_or_warn (first_in (\<lambda>v. names v = nm)
       (bk_vregs (md_blk md b) # map (blk_get_vregs d md UVM_HIER) (bk_blks (md_blk md b))))"

definition blk_get_vfield_by_name ::
    "(nat \<Rightarrow> 'f list) \<Rightarrow> ('f \<Rightarrow> string) \<Rightarrow> nat \<Rightarrow> reg_model \<Rightarrow> string \<Rightarrow> nat \<Rightarrow> 'f option \<times> msg list" where
  "blk_get_vfield_by_name flds names d md nm b =
     named_or_warn (first_in (\<lambda>f. names f = nm)
       (map flds (bk_vregs (md_blk md b)) @
        map flds (concat (map (blk_get_vregs d md UVM_HIER) (bk_blks (md_blk md b))))))"

text \<open>Names through the blocks above.\<close>

primrec blk_full_name :: "nat \<Rightarrow> reg_model \<Rightarrow> nat \<Rightarrow> string option" where
  "blk_full_name 0 md b = None"
| "blk_full_name (Suc d) md b =
     (case bk_parent (md_blk md b) of
        None \<Rightarrow> Some (bk_name (md_blk md b))
      | Some p \<Rightarrow> map_option (\<lambda>s. s @ ''.'' @ bk_name (md_blk md b)) (blk_full_name d md p))"

section \<open>Coverage\<close>

definition reg_add_coverage :: "uint \<Rightarrow> reg_cover \<Rightarrow> reg_cover" where
  "reg_add_coverage models c = c\<lparr>rc_has := rc_has c OR models\<rparr>"

definition reg_has_coverage :: "uint \<Rightarrow> reg_cover \<Rightarrow> bool" where
  "reg_has_coverage models c \<longleftrightarrow> rc_has c AND models = models"

definition reg_set_coverage :: "uint \<Rightarrow> reg_cover \<Rightarrow> reg_cover" where
  "reg_set_coverage is_on c = c\<lparr>rc_on := (if is_on = 0 then is_on else rc_has c AND is_on)\<rparr>"

definition reg_get_coverage :: "uint \<Rightarrow> reg_cover \<Rightarrow> bool" where
  "reg_get_coverage is_on c \<longleftrightarrow> reg_has_coverage is_on c \<and> rc_on c AND is_on = is_on"

definition blk_add_coverage :: "uint \<Rightarrow> nat \<Rightarrow> reg_model \<Rightarrow> reg_model" where
  "blk_add_coverage models b md = set_blk b (\<lambda>x. x\<lparr>bk_has_cover := bk_has_cover x OR models\<rparr>) md"

definition blk_has_coverage :: "uint \<Rightarrow> reg_block \<Rightarrow> bool" where
  "blk_has_coverage models x \<longleftrightarrow> bk_has_cover x AND models = models"

definition blk_get_coverage :: "uint \<Rightarrow> reg_block \<Rightarrow> bool" where
  "blk_get_coverage is_on x \<longleftrightarrow> blk_has_coverage is_on x \<and> bk_cover_on x AND is_on = is_on"

primrec blk_set_coverage :: "nat \<Rightarrow> uint \<Rightarrow> nat \<Rightarrow> reg_model \<Rightarrow> reg_model" where
  "blk_set_coverage 0 is_on b md = md"
| "blk_set_coverage (Suc d) is_on b md =
     fold (blk_set_coverage d is_on) (bk_blks (md_blk md b))
       (fold (\<lambda>m. set_mem m (mem_set_coverage is_on)) (bk_mems (md_blk md b))
         (fold (\<lambda>r md. md\<lparr>md_cover := (md_cover md)(r := reg_set_coverage is_on (md_cover md r))\<rparr>) (bk_regs (md_blk md b))
           (set_blk b (\<lambda>x. x\<lparr>bk_cover_on := bk_has_cover x AND is_on\<rparr>) md)))"

section \<open>Paths\<close>

primrec blk_default_path :: "nat \<Rightarrow> reg_model \<Rightarrow> nat \<Rightarrow> uvm_path_e option" where
  "blk_default_path 0 md b = None"
| "blk_default_path (Suc d) md b =
     (if bk_default_path (md_blk md b) \<noteq> UVM_DEFAULT_PATH then Some (bk_default_path (md_blk md b))
      else case bk_parent (md_blk md b) of None \<Rightarrow> Some UVM_FRONTDOOR | Some p \<Rightarrow> blk_default_path d md p)"

text \<open>
  The backdoor of the block or else of the nearest block above that has one. The loop of the code
  asks each block above, which asks those above it: what the first of them does not find, the
  others do not find either.
\<close>

primrec blk_get_backdoor :: "nat \<Rightarrow> reg_model \<Rightarrow> bool \<Rightarrow> nat \<Rightarrow> nat option option" where
  "blk_get_backdoor 0 md inherited b = None"
| "blk_get_backdoor (Suc d) md inherited b =
     (if bk_backdoor (md_blk md b) = None \<and> inherited
      then case bk_parent (md_blk md b) of None \<Rightarrow> Some None | Some p \<Rightarrow> blk_get_backdoor d md True p
      else Some (bk_backdoor (md_blk md b)))"

text \<open>\<open>threads\<close> tells which backdoors still run update threads. A null backdoor is dereferenced.\<close>

definition blk_set_backdoor :: "(nat \<Rightarrow> bool) \<Rightarrow> nat option \<Rightarrow> nat \<Rightarrow> reg_model \<Rightarrow> (reg_model \<times> msg list) option" where
  "blk_set_backdoor threads bd b md =
     (case bd of
        None \<Rightarrow> None
      | Some x \<Rightarrow>
          Some (set_blk b (\<lambda>y. y\<lparr>bk_backdoor := Some x\<rparr>) md,
                case bk_backdoor (md_blk md b) of
                  None \<Rightarrow> []
                | Some old \<Rightarrow> if threads old then [(UVM_WARNING, ''RegModel'')] else []))"

section \<open>Reset, update and mirror\<close>

primrec blk_reset :: "nat \<Rightarrow> string \<Rightarrow> nat \<Rightarrow> reg_model \<Rightarrow> reg_model" where
  "blk_reset 0 kind b md = md"
| "blk_reset (Suc d) kind b md =
     fold (blk_reset d kind) (bk_blks (md_blk md b))
       (fold (\<lambda>r. set_reg r (reg_reset kind)) (bk_regs (md_blk md b)) md)"

primrec blk_needs_update :: "nat \<Rightarrow> reg_model \<Rightarrow> nat \<Rightarrow> bool" where
  "blk_needs_update 0 md b = False"
| "blk_needs_update (Suc d) md b =
     (list_ex (\<lambda>r. reg_needs_update (md_reg md r)) (bk_regs (md_blk md b))
      \<or> list_ex (blk_needs_update d md) (bk_blks (md_blk md b)))"

text \<open>
  The accesses of the registers (\<open>env\<close>) change the state \<open>'h\<close> of the design. The status is passed
  by value: the caller never gets one. The loop over the registers ends at the first that fails.
\<close>

type_synonym 'h model_state = "reg_model \<times> 'h \<times> msg list"

primrec update_regs ::
    "(nat \<Rightarrow> 'h access_env) \<Rightarrow> uvm_path_e \<Rightarrow> nat list \<Rightarrow> 'h model_state \<Rightarrow> (bool \<times> 'h model_state) option" where
  "update_regs env path [] s = Some (True, s)"
| "update_regs env path (r # rs) s =
     (let (md, h, ms) = s
      in if \<not> reg_needs_update (md_reg md r) then update_regs env path rs s
         else case reg_update (env r) path None (md_reg md r) h of
                None \<Rightarrow> None
              | Some (r', st, h', ms') \<Rightarrow>
                  let md' = set_reg r (\<lambda>_. r') md
                  in if st \<noteq> UVM_IS_OK \<and> st \<noteq> UVM_HAS_X
                     then Some (False, md', h', ms @ ms' @ [(UVM_ERROR, ''RegModel'')])
                     else update_regs env path rs (md', h', ms @ ms'))"

primrec blk_update :: "nat \<Rightarrow> (nat \<Rightarrow> 'h access_env) \<Rightarrow> uvm_path_e \<Rightarrow> nat \<Rightarrow> 'h model_state \<Rightarrow> 'h model_state option" where
  "blk_update 0 env path b s = None"
| "blk_update (Suc d) env path b s =
     (if \<not> blk_needs_update (Suc d) (fst s) b then Some s
      else case update_regs env path (bk_regs (md_blk (fst s) b)) s of
             None \<Rightarrow> None
           | Some (go, s1) \<Rightarrow>
               if go then seq_all (blk_update d env path) (bk_blks (md_blk (fst s1) b)) s1 else Some s1)"

text \<open>\<open>mirror\<close> hands the status of each register to the next one.\<close>

primrec mirror_regs ::
    "(nat \<Rightarrow> 'h access_env) \<Rightarrow> uvm_check_e \<Rightarrow> uvm_path_e \<Rightarrow> nat list \<Rightarrow> uvm_status_e \<Rightarrow> 'h model_state
     \<Rightarrow> (uvm_status_e \<times> 'h model_state) option" where
  "mirror_regs env check path [] st s = Some (st, s)"
| "mirror_regs env check path (r # rs) st s =
     (let (md, h, ms) = s
      in case reg_mirror (env r) check path None st (md_reg md r) h of
           None \<Rightarrow> None
         | Some (r', st', h', ms') \<Rightarrow> mirror_regs env check path rs st' (set_reg r (\<lambda>_. r') md, h', ms @ ms'))"

primrec blk_mirror ::
    "nat \<Rightarrow> (nat \<Rightarrow> 'h access_env) \<Rightarrow> uvm_check_e \<Rightarrow> uvm_path_e \<Rightarrow> uvm_status_e \<Rightarrow> nat \<Rightarrow> 'h model_state \<Rightarrow> 'h model_state option"
where
  "blk_mirror 0 env check path st b s = None"
| "blk_mirror (Suc d) env check path st b s =
     (case mirror_regs env check path (bk_regs (md_blk (fst s) b)) st s of
        None \<Rightarrow> None
      | Some (st1, s1) \<Rightarrow> seq_all (blk_mirror d env check path st1) (bk_blks (md_blk (fst s1) b)) s1)"

section \<open>Access by name\<close>

text \<open>The status, and the data read, are passed by value: the caller gets neither.\<close>

definition write_reg_by_name ::
    "nat \<Rightarrow> (nat \<Rightarrow> 'h access_env) \<Rightarrow> string \<Rightarrow> data \<Rightarrow> uvm_path_e \<Rightarrow> map_id option \<Rightarrow> nat \<Rightarrow> 'h model_state \<Rightarrow> 'h model_state option"
where
  "write_reg_by_name d env nm v path mp b s =
     (let (md, h, ms) = s; (found, ws) = get_reg_by_name d md nm b
      in case found of
           None \<Rightarrow> Some (md, h, ms @ ws)
         | Some r \<Rightarrow>
             map_option (\<lambda>(r', st, h', ms'). (set_reg r (\<lambda>_. r') md, h', ms @ ws @ ms'))
               (reg_write (env r) v path mp (md_reg md r) h))"

definition read_reg_by_name ::
    "nat \<Rightarrow> (nat \<Rightarrow> 'h access_env) \<Rightarrow> string \<Rightarrow> uvm_path_e \<Rightarrow> map_id option \<Rightarrow> nat \<Rightarrow> 'h model_state \<Rightarrow> 'h model_state option"
where
  "read_reg_by_name d env nm path mp b s =
     (let (md, h, ms) = s; (found, ws) = get_reg_by_name d md nm b
      in case found of
           None \<Rightarrow> Some (md, h, ms @ ws)
         | Some r \<Rightarrow>
             map_option (\<lambda>(r', st, v, h', ms'). (set_reg r (\<lambda>_. r') md, h', ms @ ws @ ms'))
               (reg_read (env r) path mp (md_reg md r) h))"

definition write_mem_by_name ::
    "nat \<Rightarrow> (nat \<Rightarrow> 'h mem_env) \<Rightarrow> string \<Rightarrow> addr \<Rightarrow> data \<Rightarrow> uvm_path_e \<Rightarrow> map_id option \<Rightarrow> nat \<Rightarrow> 'h model_state
     \<Rightarrow> 'h model_state option" where
  "write_mem_by_name d env nm offset v path mp b s =
     (let (md, h, ms) = s; (found, ws) = get_mem_by_name d md nm b
      in case found of
           None \<Rightarrow> Some (md, h, ms @ ws)
         | Some m \<Rightarrow>
             map_option (\<lambda>(st, m', h', ms'). (set_mem m (\<lambda>_. m') md, h', ms @ ws @ ms'))
               (mem_write (env m) offset v path mp (md_mem md m) h))"

definition read_mem_by_name ::
    "nat \<Rightarrow> (nat \<Rightarrow> 'h mem_env) \<Rightarrow> string \<Rightarrow> addr \<Rightarrow> uvm_path_e \<Rightarrow> map_id option \<Rightarrow> nat \<Rightarrow> 'h model_state
     \<Rightarrow> 'h model_state option" where
  "read_mem_by_name d env nm offset path mp b s =
     (let (md, h, ms) = s; (found, ws) = get_mem_by_name d md nm b
      in case found of
           None \<Rightarrow> Some (md, h, ms @ ws)
         | Some m \<Rightarrow>
             map_option (\<lambda>(st, v, m', h', ms'). (set_mem m (\<lambda>_. m') md, h', ms @ ws @ ms'))
               (mem_read (env m) offset path mp (md_mem md m) h))"

section \<open>Locking is a search through the containment\<close>

definition contains :: "reg_model \<Rightarrow> (nat \<times> nat) set" where
  "contains md = {(b, c). c \<in> set (bk_blks (md_blk md b))}"

definition locked_blks :: "reg_model \<Rightarrow> nat set" where
  "locked_blks md = {b. bk_locked (md_blk md b)}"

lemma in_contains [simp]: "(b, c) \<in> contains md \<longleftrightarrow> c \<in> set (bk_blks (md_blk md b))"
  by (simp add: contains_def)

lemma in_locked [simp]: "b \<in> locked_blks md \<longleftrightarrow> bk_locked (md_blk md b)"
  by (simp add: locked_blks_def)

definition regs_of :: "reg_model \<Rightarrow> nat set \<Rightarrow> nat set" where
  "regs_of md R = (\<Union>b \<in> R. set (bk_regs (md_blk md b)))"

definition mems_of :: "reg_model \<Rightarrow> nat set \<Rightarrow> nat set" where
  "mems_of md R = (\<Union>b \<in> R. set (bk_mems (md_blk md b)))"

text \<open>\<open>md'\<close> is \<open>md\<close> with the blocks \<open>R\<close> and all they hold locked, up to the table of root blocks.\<close>

definition locks :: "reg_model \<Rightarrow> nat set \<Rightarrow> reg_model \<Rightarrow> bool" where
  "locks md R md' \<longleftrightarrow>
     md_blk md' = (\<lambda>b. if b \<in> R then (md_blk md b)\<lparr>bk_locked := True\<rparr> else md_blk md b) \<and>
     md_reg md' = (\<lambda>r. if r \<in> regs_of md R then (md_reg md r)\<lparr>r_locked := True\<rparr> else md_reg md r) \<and>
     md_mem md' = (\<lambda>m. if m \<in> mems_of md R then (md_mem md m)\<lparr>me_locked := True\<rparr> else md_mem md m) \<and>
     md_cover md' = md_cover md"

lemma locks_refl: "locks md {} md"
  by (simp add: locks_def regs_of_def mems_of_def)

lemma locks_shape:
  assumes "locks md R md'"
  shows "bk_blks (md_blk md' b) = bk_blks (md_blk md b)" "bk_regs (md_blk md' b) = bk_regs (md_blk md b)"
    "bk_vregs (md_blk md' b) = bk_vregs (md_blk md b)" "bk_mems (md_blk md' b) = bk_mems (md_blk md b)"
    "bk_maps (md_blk md' b) = bk_maps (md_blk md b)" "bk_parent (md_blk md' b) = bk_parent (md_blk md b)"
  using assms by (auto simp: locks_def)

lemma locks_contains: "locks md R md' \<Longrightarrow> contains md' = contains md"
  by (simp add: contains_def locks_shape)

lemma locks_locked: "locks md R md' \<Longrightarrow> locked_blks md' = locked_blks md \<union> R"
  by (auto simp: locks_def locked_blks_def)

lemma locks_of: "locks md R md' \<Longrightarrow> regs_of md' S = regs_of md S" "locks md R md' \<Longrightarrow> mems_of md' S = mems_of md S"
  by (simp_all add: regs_of_def mems_of_def locks_shape)

lemma locks_trans:
  assumes "locks md R md1" "locks md1 S md2"
  shows "locks md (R \<union> S) md2"
proof -
  have "regs_of md1 S = regs_of md S" "mems_of md1 S = mems_of md S"
    using locks_of [OF assms(1)] by simp_all
  moreover have "regs_of md (R \<union> S) = regs_of md R \<union> regs_of md S" "mems_of md (R \<union> S) = mems_of md R \<union> mems_of md S"
    by (auto simp: regs_of_def mems_of_def)
  ultimately show ?thesis using assms by (auto simp: locks_def fun_eq_iff)
qed

lemma fold_set_reg:
  "(\<And>x. f (f x) = f x) \<Longrightarrow> fold (\<lambda>r. set_reg r f) rs md = md\<lparr>md_reg := (\<lambda>r. if r \<in> set rs then f (md_reg md r) else md_reg md r)\<rparr>"
  by (induction rs arbitrary: md) (auto simp: set_reg_def fun_eq_iff)

lemma fold_set_mem:
  "(\<And>x. f (f x) = f x) \<Longrightarrow> fold (\<lambda>m. set_mem m f) ms md = md\<lparr>md_mem := (\<lambda>m. if m \<in> set ms then f (md_mem md m) else md_mem md m)\<rparr>"
  by (induction ms arbitrary: md) (auto simp: set_mem_def fun_eq_iff)

lemma m_lock_model_eq: "m_lock_model = (\<lambda>r. r\<lparr>r_locked := True\<rparr>)"
  by (auto simp: m_lock_model_def fun_eq_iff)

lemma lock_content_locks: "locks md {b} (lock_content b md)"
  by (auto simp: locks_def lock_content_def fold_set_reg fold_set_mem m_lock_model_eq mem_lock_model_def
      set_blk_def regs_of_def mems_of_def)

lemma locks_root: "locks md R md1 \<Longrightarrow> lock_root mx init b (md1, mp, ms) = Some (md', mp', ms') \<Longrightarrow> locks md R md'"
  by (auto simp: lock_root_def Let_def locks_def split: option.splits prod.splits if_splits)

text \<open>What locking the blocks \<open>bs\<close> does: \<open>R\<close> are the blocks it locks.\<close>

definition lock_spec :: "reg_model \<Rightarrow> nat set \<Rightarrow> reg_model \<Rightarrow> nat set \<Rightarrow> bool" where
  "lock_spec md bs md' R \<longleftrightarrow> locks md R md' \<and> R \<subseteq> (contains md)\<^sup>* `` bs \<and> R \<inter> locked_blks md = {} \<and>
     bs \<subseteq> R \<union> locked_blks md \<and> contains md `` R \<subseteq> R \<union> locked_blks md"

lemma lock_spec_trans:
  assumes "lock_spec md {c} md1 R" "lock_spec md1 cs md2 S"
  shows "lock_spec md (insert c cs) md2 (R \<union> S)"
proof -
  have l: "locks md R md1" using assms(1) by (simp add: lock_spec_def)
  note e = locks_contains [OF l] locks_locked [OF l]
  have "locks md (R \<union> S) md2" using l assms(2) by (auto simp: lock_spec_def intro: locks_trans)
  then show ?thesis using assms unfolding lock_spec_def e by blast
qed

lemma lock_list_spec:
  assumes "\<And>c md mp ms md' mp' ms'. c \<in> set cs \<Longrightarrow> f c (md, mp, ms) = Some (md', mp', ms') \<Longrightarrow> \<exists>R. lock_spec md {c} md' R"
  shows "seq_all f cs (md, mp, ms) = Some (md', mp', ms') \<Longrightarrow> \<exists>R. lock_spec md (set cs) md' R"
  using assms
proof (induction cs arbitrary: md mp ms)
  case Nil
  then show ?case by (auto simp: lock_spec_def intro!: exI [of _ "{}"] locks_refl)
next
  case (Cons c cs)
  obtain md1 mp1 ms1 where 1: "f c (md, mp, ms) = Some (md1, mp1, ms1)" "seq_all f cs (md1, mp1, ms1) = Some (md', mp', ms')"
    using Cons.prems(1) by (auto split: option.splits)
  obtain R where R: "lock_spec md {c} md1 R" using Cons.prems(2) 1(1) by fastforce
  obtain S where S: "lock_spec md1 (set cs) md' S" using Cons.IH [OF 1(2)] Cons.prems(2) by fastforce
  from lock_spec_trans [OF R S] show ?case by auto
qed

text \<open>Adding the block itself to what its sub-blocks lock.\<close>

lemma lock_spec_step:
  assumes "\<not> bk_locked (md_blk md b)" "lock_spec (lock_content b md) (set (bk_blks (md_blk md b))) md' R"
  shows "lock_spec md {b} md' (insert b R)"
proof -
  note l = lock_content_locks [of md b]
  note e = locks_contains [OF l] locks_locked [OF l]
  have "locks md ({b} \<union> R) md'" using assms(2) by (intro locks_trans [OF l]) (simp add: lock_spec_def)
  then have "locks md (insert b R) md'" by simp
  moreover have R: "R \<subseteq> (contains md)\<^sup>* `` set (bk_blks (md_blk md b))" "R \<inter> (locked_blks md \<union> {b}) = {}"
    "set (bk_blks (md_blk md b)) \<subseteq> R \<union> (locked_blks md \<union> {b})" "contains md `` R \<subseteq> R \<union> (locked_blks md \<union> {b})"
    using assms(2) unfolding lock_spec_def e by blast+
  have "insert b R \<subseteq> (contains md)\<^sup>* `` {b}"
  proof -
    have "(contains md)\<^sup>* `` set (bk_blks (md_blk md b)) \<subseteq> (contains md)\<^sup>* `` {b}"
      by (auto intro: converse_rtrancl_into_rtrancl)
    with R(1) show ?thesis by blast
  qed
  moreover have "insert b R \<inter> locked_blks md = {}" using R(2) assms(1) by auto
  moreover have "contains md `` insert b R \<subseteq> insert b R \<union> locked_blks md" using R(3,4) by auto
  ultimately show ?thesis unfolding lock_spec_def by blast
qed

lemma lock_model_spec: "lock_model d mx init b (md, mp, ms) = Some (md', mp', ms') \<Longrightarrow> \<exists>R. lock_spec md {b} md' R"
proof (induction d arbitrary: b md mp ms md' mp' ms')
  case (Suc d)
  show ?case
  proof (cases "bk_locked (md_blk md b)")
    case True
    then have "md' = md" using Suc.prems by simp
    then show ?thesis using True by (intro exI [of _ "{}"]) (auto simp: lock_spec_def locks_refl)
  next
    case False
    then obtain md1 mp1 ms1 where 1:
        "seq_all (lock_model d mx init) (bk_blks (md_blk md b)) (lock_content b md, mp, ms) = Some (md1, mp1, ms1)"
        "(if bk_parent (md_blk md1 b) = None then lock_root mx init b (md1, mp1, ms1) else Some (md1, mp1, ms1)) = Some (md', mp', ms')"
      using Suc.prems by (auto split: option.splits)
    obtain R where "lock_spec (lock_content b md) (set (bk_blks (md_blk md b))) md1 R"
      using lock_list_spec [OF _ 1(1)] Suc.IH by blast
    from lock_spec_step [OF False this] have "lock_spec md {b} md1 (insert b R)" .
    then have "lock_spec md {b} md' (insert b R)"
      using 1(2) locks_root by (auto simp: lock_spec_def split: if_splits)
    then show ?thesis by blast
  qed
qed simp

text \<open>It returns on every finite containment, also a cyclic one, when the maps can be initialised.\<close>

lemma lock_root_returns: "(\<And>k mp. init k mp \<noteq> None) \<Longrightarrow> lock_root mx init b s \<noteq> None"
proof -
  assume i: "\<And>k mp. init k mp \<noteq> None"
  have "seq_all (\<lambda>k (mp, ms). map_option (\<lambda>(mp', ms'). (mp', ms @ ms')) (init k mp)) ks t \<noteq> None" for ks t
  proof (induction ks arbitrary: t)
    case (Cons k ks)
    obtain mp ms where t: "t = (mp, ms)" by fastforce
    obtain r where r: "init k mp = Some r" using i [of k mp] by auto
    show ?case using Cons.IH by (simp add: t r)
  qed simp
  then obtain mp2 ms2 where
    "seq_all (\<lambda>k (mp, ms). map_option (\<lambda>(mp', ms'). (mp', ms @ ms')) (init k mp)) (bk_maps (md_blk (fst s) b))
       (fst (snd s), if sint mx > 64 then snd (snd s) @ [(UVM_FATAL, ''RegModel'')] else snd (snd s)) = Some (mp2, ms2)"
    by fastforce
  then show ?thesis by (simp add: lock_root_def split_beta Let_def)
qed

definition open_in :: "reg_model \<Rightarrow> nat set \<Rightarrow> nat set" where
  "open_in md U = U - locked_blks md"

lemma open_in_mono: "locks md R md' \<Longrightarrow> finite U \<Longrightarrow> card (open_in md' U) \<le> card (open_in md U)"
  by (auto simp: open_in_def locks_locked intro!: card_mono)

lemma lock_list_returns:
  assumes "\<And>c md mp ms. c \<in> U \<Longrightarrow> contains md `` U \<subseteq> U \<Longrightarrow> card (open_in md U) < n \<Longrightarrow> lock_model d mx init c (md, mp, ms) \<noteq> None"
    and "finite U"
  shows "set cs \<subseteq> U \<Longrightarrow> contains md `` U \<subseteq> U \<Longrightarrow> card (open_in md U) < n \<Longrightarrow>
    seq_all (lock_model d mx init) cs (md, mp, ms) \<noteq> None"
proof (induction cs arbitrary: md mp ms)
  case (Cons c cs)
  have c: "c \<in> U" "set cs \<subseteq> U" using Cons.prems(1) by auto
  obtain md1 mp1 ms1 where 1: "lock_model d mx init c (md, mp, ms) = Some (md1, mp1, ms1)"
    using assms(1) [OF c(1) Cons.prems(2,3), of mp ms] by auto
  obtain R where "locks md R md1" using lock_model_spec [OF 1] by (auto simp: lock_spec_def)
  then have "contains md1 `` U \<subseteq> U" "card (open_in md1 U) < n"
    using Cons.prems(2) le_less_trans [OF open_in_mono [OF _ assms(2)] Cons.prems(3)] by (simp_all add: locks_contains)
  from Cons.IH [OF c(2) this] 1 show ?case by simp
qed simp

lemma lock_model_returns:
  assumes "\<And>k mp. init k mp \<noteq> None" "finite U"
  shows "b \<in> U \<Longrightarrow> contains md `` U \<subseteq> U \<Longrightarrow> card (open_in md U) < d \<Longrightarrow> lock_model d mx init b (md, mp, ms) \<noteq> None"
proof (induction d arbitrary: b md mp ms)
  case (Suc d)
  show ?case
  proof (cases "bk_locked (md_blk md b)")
    case False
    let ?md = "lock_content b md"
    note l = lock_content_locks [of md b]
    have "open_in ?md U = open_in md U - {b}" by (auto simp: open_in_def locks_locked [OF l])
    moreover have "b \<in> open_in md U" using False Suc.prems(1) by (simp add: open_in_def)
    moreover have "finite (open_in md U)" using assms(2) by (simp add: open_in_def)
    ultimately have n: "card (open_in ?md U) < d" using Suc.prems(3) card_Diff1_less [of "open_in md U" b] by simp
    have "contains md `` {b} \<subseteq> U" using Suc.prems(1,2) by blast
    then have "contains ?md `` U \<subseteq> U" "set (bk_blks (md_blk md b)) \<subseteq> U"
      using Suc.prems(2) by (auto simp: locks_contains [OF l])
    then obtain s where s: "seq_all (lock_model d mx init) (bk_blks (md_blk md b)) (?md, mp, ms) = Some s"
      using lock_list_returns [OF Suc.IH assms(2) _ _ n, of "bk_blks (md_blk md b)" mp ms] by blast
    show ?thesis
    proof (cases "bk_parent (md_blk (fst s) b) = None")
      case True
      obtain t where "lock_root mx init b s = Some t" using lock_root_returns [of init mx b s, OF assms(1)] by blast
      then show ?thesis using False s True by simp
    next
      case False
      then show ?thesis using \<open>\<not> bk_locked (md_blk md b)\<close> s by (cases s) auto
    qed
  qed simp
qed simp

text \<open>The blocks, registers and memories in a locked block are locked. \<open>lock_model\<close> leaves out the virtual
  registers: they are never locked and take fields also in a locked block.\<close>

definition lock_closed :: "reg_model \<Rightarrow> bool" where
  "lock_closed md \<longleftrightarrow> (\<forall>b. bk_locked (md_blk md b) \<longrightarrow>
     (\<forall>c \<in> set (bk_blks (md_blk md b)). bk_locked (md_blk md c)) \<and>
     (\<forall>r \<in> set (bk_regs (md_blk md b)). r_locked (md_reg md r)) \<and>
     (\<forall>m \<in> set (bk_mems (md_blk md b)). me_locked (md_mem md m)))"

lemma lock_spec_closed:
  assumes "lock_closed md" "lock_spec md {b} md' R"
  shows "locked_blks md' = locked_blks md \<union> (contains md)\<^sup>* `` {b}" "lock_closed md'"
proof -
  have l: "locks md R md'" using assms(2) by (simp add: lock_spec_def)
  let ?L = "R \<union> locked_blks md"
  have "contains md `` locked_blks md \<subseteq> locked_blks md" using assms(1) by (auto simp: lock_closed_def)
  then have closed: "contains md `` ?L \<subseteq> ?L" "b \<in> ?L" using assms(2) by (auto simp: lock_spec_def)
  then have "(contains md)\<^sup>* `` {b} \<subseteq> ?L" using Image_closed_trancl [OF closed(1)] by blast
  then show "locked_blks md' = locked_blks md \<union> (contains md)\<^sup>* `` {b}"
    using assms(2) locks_locked [OF l] by (auto simp: lock_spec_def)
  show "lock_closed md'"
    unfolding lock_closed_def
  proof (intro allI impI)
    fix x assume "bk_locked (md_blk md' x)"
    then have x: "x \<in> ?L" using locks_locked [OF l] by auto
    have "c \<in> ?L" if "c \<in> set (bk_blks (md_blk md x))" for c
    proof -
      have "(x, c) \<in> contains md" using that by simp
      then show ?thesis using closed(1) x by blast
    qed
    then have "c \<in> locked_blks md'" if "c \<in> set (bk_blks (md_blk md x))" for c
      unfolding locks_locked [OF l] using that by blast
    then have "\<forall>c \<in> set (bk_blks (md_blk md' x)). bk_locked (md_blk md' c)"
      by (simp add: locks_shape [OF l])
    moreover have "r_locked (md_reg md' r)" if "r \<in> set (bk_regs (md_blk md x))" for r
      using that x l assms(1) by (auto simp: locks_def regs_of_def lock_closed_def)
    moreover have "me_locked (md_mem md' m)" if "m \<in> set (bk_mems (md_blk md x))" for m
      using that x l assms(1) by (auto simp: locks_def mems_of_def lock_closed_def)
    ultimately show "(\<forall>c \<in> set (bk_blks (md_blk md' x)). bk_locked (md_blk md' c)) \<and>
       (\<forall>r \<in> set (bk_regs (md_blk md' x)). r_locked (md_reg md' r)) \<and>
       (\<forall>m \<in> set (bk_mems (md_blk md' x)). me_locked (md_mem md' m))"
      using locks_shape [OF l] by simp
  qed
qed

text \<open>C3. \<open>lock_model\<close> returns on every finite containment of blocks, also a cyclic one, when the maps can
  be initialised; the blocks are then locked exactly when they were or can be reached from the block,
  registers and memories exactly when they were or lie in a block that can be reached, and nothing
  else about any of them changes.\<close>

theorem lock_model_exact:
  assumes "lock_closed md" "\<forall>k mp. init k mp \<noteq> None"
    and "finite ((contains md)\<^sup>* `` {b})" "card ((contains md)\<^sup>* `` {b}) < d"
  shows "\<exists>md' mp' ms'. lock_model d mx init b (md, mp, ms) = Some (md', mp', ms') \<and>
    (\<forall>x. md_blk md' x = (md_blk md x)\<lparr>bk_locked := (bk_locked (md_blk md x) \<or> (b, x) \<in> (contains md)\<^sup>*)\<rparr>) \<and>
    (\<forall>r. md_reg md' r = (md_reg md r)\<lparr>r_locked := (r_locked (md_reg md r) \<or> r \<in> regs_of md ((contains md)\<^sup>* `` {b}))\<rparr>) \<and>
    (\<forall>m. md_mem md' m = (md_mem md m)\<lparr>me_locked := (me_locked (md_mem md m) \<or> m \<in> mems_of md ((contains md)\<^sup>* `` {b}))\<rparr>)"
proof -
  let ?U = "(contains md)\<^sup>* `` {b}"
  have "contains md `` ?U \<subseteq> ?U" by (auto intro: rtrancl_into_rtrancl)
  moreover have "card (open_in md ?U) < d"
    using card_mono [OF assms(3), of "open_in md ?U"] assms(4) by (auto simp: open_in_def)
  ultimately obtain md' mp' ms' where run: "lock_model d mx init b (md, mp, ms) = Some (md', mp', ms')"
    using lock_model_returns [of init ?U b md d mx mp ms] assms(2,3) by auto
  obtain R where R: "lock_spec md {b} md' R" using lock_model_spec [OF run] by blast
  then have l: "locks md R md'" by (simp add: lock_spec_def)
  have L: "locked_blks md \<union> R = locked_blks md \<union> ?U"
    using lock_spec_closed(1) [OF assms(1) R] locks_locked [OF l] by simp
  have "R \<subseteq> ?U" using R by (simp add: lock_spec_def)
  have blk: "md_blk md' x = (md_blk md x)\<lparr>bk_locked := (bk_locked (md_blk md x) \<or> x \<in> ?U)\<rparr>" for x
  proof -
    have "bk_locked (md_blk md x) \<or> x \<in> R \<longleftrightarrow> bk_locked (md_blk md x) \<or> x \<in> ?U" using L by (auto simp: set_eq_iff)
    then show ?thesis using l by (cases "x \<in> R") (auto simp: locks_def)
  qed
  have old: "x \<in> ?U \<Longrightarrow> x \<notin> R \<Longrightarrow> bk_locked (md_blk md x)" for x using L by auto
  have "md_reg md' r = (md_reg md r)\<lparr>r_locked := (r_locked (md_reg md r) \<or> r \<in> regs_of md ?U)\<rparr>" for r
  proof -
    have "r_locked (md_reg md r)" if "r \<in> regs_of md ?U" "r \<notin> regs_of md R"
      using that old assms(1) by (auto simp: regs_of_def lock_closed_def)
    moreover have "r \<in> regs_of md ?U" if "r \<in> regs_of md R" using that \<open>R \<subseteq> ?U\<close> by (auto simp: regs_of_def)
    ultimately have e: "(r_locked (md_reg md r) \<or> r \<in> regs_of md ?U) = (r_locked (md_reg md r) \<or> r \<in> regs_of md R)" by blast
    show ?thesis unfolding e using l by (cases "r \<in> regs_of md R") (simp_all add: locks_def)
  qed
  moreover have "md_mem md' m = (md_mem md m)\<lparr>me_locked := (me_locked (md_mem md m) \<or> m \<in> mems_of md ?U)\<rparr>" for m
  proof -
    have "me_locked (md_mem md m)" if "m \<in> mems_of md ?U" "m \<notin> mems_of md R"
      using that old assms(1) unfolding mems_of_def lock_closed_def by blast
    moreover have "m \<in> mems_of md ?U" if "m \<in> mems_of md R" using that \<open>R \<subseteq> ?U\<close> by (auto simp: mems_of_def)
    ultimately have e: "(me_locked (md_mem md m) \<or> m \<in> mems_of md ?U) = (me_locked (md_mem md m) \<or> m \<in> mems_of md R)" by blast
    show ?thesis unfolding e using l by (cases "m \<in> mems_of md R") (simp_all add: locks_def)
  qed
  ultimately show ?thesis using run blk by (intro exI conjI) auto
qed

text \<open>A block with a sub-block that holds a register, a memory beside it, and another root.\<close>

definition demo_model :: reg_model where
  "demo_model =
     (let none = \<lparr>bk_name = [], bk_parent = None, bk_blks = [], bk_regs = [], bk_vregs = [], bk_mems = [], bk_maps = [],
                  bk_default_map = None, bk_default_path = UVM_DEFAULT_PATH, bk_default_hdl = [],
                  bk_hdl_pool = Map.empty, bk_hdl_roots = Map.empty, bk_backdoor = None, bk_locked = False,
                  bk_has_cover = 0, bk_cover_on = 0\<rparr>;
          empty = \<lparr>md_blk = (\<lambda>_. none), md_reg = (\<lambda>r. fst (new_reg ''r'' 8)), md_cover = (\<lambda>_. \<lparr>rc_has = 0, rc_on = 0\<rparr>),
                   md_mem = (\<lambda>_. word_mem), md_roots = [], md_named = {}\<rparr>
      in fst (blk_add_mem 0 8 (fst (blk_add_reg 1 7 (fst (configure_block 1 (Some 0) ''sub''
           (fst (configure_block 0 None ''top'' (new_block 3 ''other'' 0 (new_block 1 ''sub'' 0 (new_block 0 ''top'' 0 empty)))))))))))"

lemma demo_blks:
  "bk_blks (md_blk demo_model b) = (if b = 0 then [1] else [])" "bk_regs (md_blk demo_model b) = (if b = 1 then [7] else [])"
  "bk_mems (md_blk demo_model b) = (if b = 0 then [8] else [])" "bk_locked (md_blk demo_model b) = False"
  by (simp_all add: demo_model_def Let_def new_block_def configure_block_def add_block_def blk_add_reg_def blk_add_mem_def
      set_blk_def put_key_def insort_insert_key_def)

lemma demo_reach: "(contains demo_model)\<^sup>* `` {0} = {0, 1}"
proof
  have "contains demo_model `` {0, 1} \<subseteq> {0, 1}" by (auto simp: demo_blks split: if_splits)
  from Image_closed_trancl [OF this] show "(contains demo_model)\<^sup>* `` {0} \<subseteq> {0, 1}" by blast
  have "(0, 1) \<in> contains demo_model" by (simp add: demo_blks)
  then show "{0, 1} \<subseteq> (contains demo_model)\<^sup>* `` {0}" by auto
qed

lemma demo_closed: "lock_closed demo_model"
  by (simp add: lock_closed_def demo_blks)

theorem lock_model_exact_witness:
  "\<exists>md' mp' ms'. lock_model 3 32 (\<lambda>k mp. Some (mp, [])) 0 (demo_model, (), []) = Some (md', mp', ms') \<and>
     bk_locked (md_blk md' 1) \<and> r_locked (md_reg md' 7) \<and> me_locked (md_mem md' 8) \<and> \<not> bk_locked (md_blk md' 3)"
proof -
  have i: "\<forall>k mp. (\<lambda>(k :: nat) mp. Some (mp :: unit, [] :: msg list)) k mp \<noteq> None" by simp
  have c: "card ((contains demo_model)\<^sup>* `` {0}) < 3" unfolding demo_reach by simp
  have f: "finite ((contains demo_model)\<^sup>* `` {0})" unfolding demo_reach by simp
  have m: "(0, 1) \<in> (contains demo_model)\<^sup>*" "(0, 3) \<notin> (contains demo_model)\<^sup>*"
    unfolding Image_singleton_iff [symmetric] demo_reach by simp_all
  have o: "7 \<in> regs_of demo_model {0, 1}" "8 \<in> mems_of demo_model {0, 1}"
    by (auto simp: regs_of_def mems_of_def demo_blks)
  obtain md' mp' ms' where r: "lock_model 3 32 (\<lambda>k mp. Some (mp, [])) 0 (demo_model, (), []) = Some (md', mp', ms')"
    "\<forall>x. md_blk md' x = (md_blk demo_model x)\<lparr>bk_locked := (bk_locked (md_blk demo_model x) \<or> (0, x) \<in> (contains demo_model)\<^sup>*)\<rparr>"
    "\<forall>r. md_reg md' r = (md_reg demo_model r)\<lparr>r_locked := (r_locked (md_reg demo_model r) \<or> r \<in> regs_of demo_model {0, 1})\<rparr>"
    "\<forall>m. md_mem md' m = (md_mem demo_model m)\<lparr>me_locked := (me_locked (md_mem demo_model m) \<or> m \<in> mems_of demo_model {0, 1})\<rparr>"
    using lock_model_exact [OF demo_closed i f c, of 32 "()" "[]"] unfolding demo_reach by (elim exE conjE) (rule that)
  have "bk_locked (md_blk md' 1)" "\<not> bk_locked (md_blk md' 3)" using r(2) m by (simp_all add: demo_blks)
  moreover have "r_locked (md_reg md' 7)" "me_locked (md_mem md' 8)" using r(3,4) o by simp_all
  ultimately show ?thesis using r(1) by blast
qed

section \<open>Nothing changes in a locked model\<close>

text \<open>The operations that build and use a model; \<open>Make\<close> is the constructor of an object at an unused address.\<close>

datatype blk_op =
  Make_Block nat string uint | Make_Reg nat string nat | Make_Mem nat uvm_mem
| Configure nat "nat option" string | Set_Parent nat "nat option"
| Add_Reg nat nat | Add_Vreg nat nat | Add_Mem nat nat | New_Map nat nat | Default_Map nat nat
| Lock nat | Reset nat string | Coverage nat uint | Add_Coverage nat uint | Use_Backdoor nat nat

definition keep_none :: "'a \<Rightarrow> 'a option \<Rightarrow> 'a" where
  "keep_none s r = (case r of None \<Rightarrow> s | Some t \<Rightarrow> t)"

fun blk_step :: "nat \<Rightarrow> uint \<Rightarrow> 'm init_map \<Rightarrow> blk_op \<Rightarrow> 'm lock_state \<Rightarrow> 'm lock_state" where
  "blk_step d mx init (Make_Block a nm cover) (md, mp, ms) = (new_block a nm cover md, mp, ms)"
| "blk_step d mx init (Make_Reg r nm n) (md, mp, ms) = (set_reg r (\<lambda>_. fst (new_reg nm n)) md, mp, ms @ snd (new_reg nm n))"
| "blk_step d mx init (Make_Mem m x) (md, mp, ms) = (set_mem m (\<lambda>_. x) md, mp, ms)"
| "blk_step d mx init (Configure b p path) (md, mp, ms) = (let (md, w) = configure_block b p path md in (md, mp, ms @ w))"
| "blk_step d mx init (Set_Parent b p) (md, mp, ms) = (set_parent b p md, mp, ms)"
| "blk_step d mx init (Add_Reg b r) (md, mp, ms) = (let (md, w) = blk_add_reg b r md in (md, mp, ms @ w))"
| "blk_step d mx init (Add_Vreg b v) (md, mp, ms) = (let (md, w) = blk_add_vreg b v md in (md, mp, ms @ w))"
| "blk_step d mx init (Add_Mem b m) (md, mp, ms) = (let (md, w) = blk_add_mem b m md in (md, mp, ms @ w))"
| "blk_step d mx init (New_Map b k) (md, mp, ms) = (let (_, md, w) = create_map b k md in (md, mp, ms @ w))"
| "blk_step d mx init (Default_Map b k) (md, mp, ms) =
     keep_none (md, mp, ms) (map_option (\<lambda>(md, w). (md, mp, ms @ w)) (set_default_map b (Some k) md))"
| "blk_step d mx init (Lock b) s = keep_none s (lock_model d mx init b s)"
| "blk_step d mx init (Reset b kind) (md, mp, ms) = (blk_reset d kind b md, mp, ms)"
| "blk_step d mx init (Coverage b on) (md, mp, ms) = (blk_set_coverage d on b md, mp, ms)"
| "blk_step d mx init (Add_Coverage b models) (md, mp, ms) = (blk_add_coverage models b md, mp, ms)"
| "blk_step d mx init (Use_Backdoor b x) (md, mp, ms) =
     keep_none (md, mp, ms) (map_option (\<lambda>(md, w). (md, mp, ms @ w)) (blk_set_backdoor (\<lambda>_. False) (Some x) b md))"

text \<open>An object is created at an address that nothing in use has.\<close>

fun blk_ok :: "blk_op \<Rightarrow> 'm lock_state \<Rightarrow> bool" where
  "blk_ok (Make_Block a nm cover) s \<longleftrightarrow> \<not> bk_locked (md_blk (fst s) a) \<and> (\<forall>b. a \<notin> set (bk_blks (md_blk (fst s) b)))"
| "blk_ok (Make_Reg r nm n) s \<longleftrightarrow> (\<forall>b. r \<notin> set (bk_regs (md_blk (fst s) b)))"
| "blk_ok (Make_Mem m x) s \<longleftrightarrow> (\<forall>b. m \<notin> set (bk_mems (md_blk (fst s) b)))"
| "blk_ok e s \<longleftrightarrow> True"

text \<open>What a block holds, and that all that was locked in \<open>md0\<close> still holds the same.\<close>

definition holds_same :: "reg_block \<Rightarrow> reg_block \<Rightarrow> bool" where
  "holds_same x y \<longleftrightarrow> bk_blks x = bk_blks y \<and> bk_regs x = bk_regs y \<and> bk_vregs x = bk_vregs y \<and> bk_mems x = bk_mems y \<and>
     bk_maps x = bk_maps y"

definition frozen :: "reg_model \<Rightarrow> reg_model \<Rightarrow> bool" where
  "frozen md0 md \<longleftrightarrow> lock_closed md \<and>
     (\<forall>b. bk_locked (md_blk md0 b) \<longrightarrow> bk_locked (md_blk md b) \<and> holds_same (md_blk md b) (md_blk md0 b))"

text \<open>Operations that do not unlock, and add nothing to what is locked.\<close>

definition gentle :: "reg_model \<Rightarrow> reg_model \<Rightarrow> bool" where
  "gentle md md' \<longleftrightarrow>
     (\<forall>b. bk_locked (md_blk md' b) = bk_locked (md_blk md b) \<and>
          (bk_locked (md_blk md b) \<longrightarrow> holds_same (md_blk md' b) (md_blk md b) \<and>
             (\<forall>r \<in> set (bk_regs (md_blk md b)). r_locked (md_reg md r) \<longrightarrow> r_locked (md_reg md' r)) \<and>
             (\<forall>m \<in> set (bk_mems (md_blk md b)). me_locked (md_mem md m) \<longrightarrow> me_locked (md_mem md' m))))"

lemma gentle_refl: "gentle md md"
  by (simp add: gentle_def holds_same_def)

lemma gentle_trans: "gentle md md1 \<Longrightarrow> gentle md1 md2 \<Longrightarrow> gentle md md2"
  by (auto simp: gentle_def holds_same_def)

lemma gentle_fold: "(\<And>x md. gentle md (f x md)) \<Longrightarrow> gentle md (fold f xs md)"
  by (induction xs arbitrary: md) (auto intro: gentle_refl gentle_trans)

lemma gentle_frozen: "frozen md0 md \<Longrightarrow> gentle md md' \<Longrightarrow> frozen md0 md'"
  by (auto simp: frozen_def gentle_def lock_closed_def holds_same_def)

lemma gentle_set_blk:
  assumes "bk_locked (f (md_blk md b)) = bk_locked (md_blk md b)" "bk_locked (md_blk md b) \<Longrightarrow> holds_same (f (md_blk md b)) (md_blk md b)"
  shows "gentle md (set_blk b f md)"
  using assms by (auto simp: gentle_def set_blk_def holds_same_def)

lemma gentle_new_block:
  "\<not> bk_locked (md_blk md a) \<Longrightarrow> gentle md (new_block a nm cover md)"
  by (auto simp: gentle_def new_block_def Let_def holds_same_def)

lemma gentle_set_reg: "(r_locked (md_reg md r) \<Longrightarrow> r_locked (f (md_reg md r))) \<Longrightarrow> gentle md (set_reg r f md)"
  by (auto simp: gentle_def set_reg_def holds_same_def)

lemma gentle_set_mem: "(me_locked (md_mem md m) \<Longrightarrow> me_locked (f (md_mem md m))) \<Longrightarrow> gentle md (set_mem m f md)"
  by (auto simp: gentle_def set_mem_def holds_same_def)

lemma gentle_add_block: "gentle md (fst (add_block p b md))"
  using gentle_set_blk [of "\<lambda>x. x\<lparr>bk_blks := put_key b (bk_blks x)\<rparr>" md p]
  by (auto simp: add_block_def gentle_refl gentle_def holds_same_def)

lemma gentle_configure: "gentle md (fst (configure_block b p path md))"
proof -
  let ?f = "\<lambda>x. x\<lparr>bk_parent := p\<rparr>" and ?g = "\<lambda>x. x\<lparr>bk_hdl_pool := pool_add path ''RTL'' (bk_hdl_pool x)\<rparr>"
  have f: "gentle md (set_blk b ?f md)" and g: "\<And>md. gentle md (set_blk b ?g md)"
    by (rule gentle_set_blk; simp add: holds_same_def)+
  then show ?thesis
    by (cases p) (auto simp: configure_block_def Let_def split_beta intro: gentle_trans [OF _ gentle_trans] gentle_add_block gentle_refl)
qed

lemma gentle_reset: "gentle md (blk_reset d kind b md)"
proof (induction d arbitrary: b md)
  case (Suc d)
  have "gentle md (fold (\<lambda>r. set_reg r (reg_reset kind)) rs md)" for rs md
    by (rule gentle_fold) (rule gentle_set_reg, simp add: reg_reset_def)
  then show ?case unfolding blk_reset.simps by (rule gentle_trans [OF _ gentle_fold]) (rule Suc.IH)
qed (simp add: gentle_refl)

lemma gentle_coverage: "gentle md (blk_set_coverage d on b md)"
proof (induction d arbitrary: b md)
  case (Suc d)
  have 1: "gentle md (set_blk b (\<lambda>x. x\<lparr>bk_cover_on := bk_has_cover x AND on\<rparr>) md)" for md
    by (rule gentle_set_blk) (simp_all add: holds_same_def)
  have 2: "gentle md (fold (\<lambda>r md. md\<lparr>md_cover := (md_cover md)(r := reg_set_coverage on (md_cover md r))\<rparr>) rs md)" for rs md
    by (rule gentle_fold) (simp add: gentle_def holds_same_def)
  have 3: "gentle md (fold (\<lambda>m. set_mem m (mem_set_coverage on)) ms md)" for ms md
    by (rule gentle_fold) (rule gentle_set_mem, simp add: mem_set_coverage_def)
  show ?case unfolding blk_set_coverage.simps
    by (rule gentle_trans [OF gentle_trans [OF gentle_trans [OF 1 2] 3] gentle_fold]) (rule Suc.IH)
qed (simp add: gentle_refl)

lemma frozen_lock:
  assumes "frozen md0 md" "lock_model d mx init b (md, mp, ms) = Some (md', mp', ms')"
  shows "frozen md0 md'"
proof -
  obtain R where R: "lock_spec md {b} md' R" using lock_model_spec [OF assms(2)] by blast
  then have l: "locks md R md'" by (simp add: lock_spec_def)
  have "lock_closed md'" using lock_spec_closed(2) [OF _ R] assms(1) by (simp add: frozen_def)
  then show ?thesis using assms(1) l by (auto simp: frozen_def holds_same_def locks_def)
qed

interpretation blk: guarded_machine "blk_step d mx init" blk_ok "\<lambda>s. frozen md0 (fst s)"
proof
  fix s :: "'a lock_state" and e assume inv: "frozen md0 (fst s)" and ok: "blk_ok e s"
  obtain md mp ms where s: "s = (md, mp, ms)" by (cases s)
  have inv': "frozen md0 md" using inv s by simp
  note g = gentle_frozen [OF inv']
  show "frozen md0 (fst (blk_step d mx init e s))"
  proof (cases e)
    case (Make_Block a nm cover)
    then have "gentle md (new_block a nm cover md)" using ok s by (intro gentle_new_block) simp
    then show ?thesis using g s Make_Block by simp
  next
    case (Make_Reg r nm n)
    then have "gentle md (set_reg r (\<lambda>_. fst (new_reg nm n)) md)" using ok s by (auto simp: gentle_def set_reg_def holds_same_def)
    then show ?thesis using g s Make_Reg by simp
  next
    case (Make_Mem m x)
    then have "gentle md (set_mem m (\<lambda>_. x) md)" using ok s by (auto simp: gentle_def set_mem_def holds_same_def)
    then show ?thesis using g s Make_Mem by simp
  next
    case (Configure b p path)
    then show ?thesis using g [OF gentle_configure] s by (simp add: split_beta)
  next
    case (Set_Parent b p)
    have "gentle md (set_parent b p md)"
      by (auto simp: set_parent_def holds_same_def intro!: gentle_refl gentle_set_blk)
    then show ?thesis using g s Set_Parent by simp
  next
    case (Add_Reg b r)
    have "gentle md (fst (blk_add_reg b r md))"
      by (auto simp: blk_add_reg_def holds_same_def intro!: gentle_refl gentle_set_blk)
    then show ?thesis using g s Add_Reg by (simp add: split_beta)
  next
    case (Add_Vreg b v)
    have "gentle md (fst (blk_add_vreg b v md))"
      by (auto simp: blk_add_vreg_def holds_same_def intro!: gentle_refl gentle_set_blk)
    then show ?thesis using g s Add_Vreg by (simp add: split_beta)
  next
    case (Add_Mem b m)
    have "gentle md (fst (blk_add_mem b m md))"
      by (auto simp: blk_add_mem_def holds_same_def intro!: gentle_refl gentle_set_blk)
    then show ?thesis using g s Add_Mem by (simp add: split_beta)
  next
    case (New_Map b k)
    have "gentle md (fst (snd (create_map b k md)))"
      by (auto simp: create_map_def Let_def holds_same_def intro!: gentle_refl gentle_set_blk)
    then show ?thesis using g s New_Map by (simp add: split_beta)
  next
    case (Default_Map b k)
    have "gentle md (set_blk b (\<lambda>x. x\<lparr>bk_default_map := Some k\<rparr>) md)"
      by (simp add: gentle_set_blk holds_same_def)
    then show ?thesis using g s Default_Map by (simp add: set_default_map_def keep_none_def Let_def)
  next
    case (Lock b)
    show ?thesis
    proof (cases "lock_model d mx init b s")
      case (Some t)
      obtain md' mp' ms' where t: "t = (md', mp', ms')" by (cases t)
      have "frozen md0 md'" using Some s t by (intro frozen_lock [OF inv', of d mx init b mp ms md' mp' ms']) simp
      then show ?thesis using Lock Some t by (simp add: keep_none_def)
    qed (use Lock inv in \<open>simp add: keep_none_def\<close>)
  next
    case (Reset b kind)
    then show ?thesis using g [OF gentle_reset] s by simp
  next
    case (Coverage b on)
    then show ?thesis using g [OF gentle_coverage] s by simp
  next
    case (Add_Coverage b models)
    have "gentle md (blk_add_coverage models b md)"
      by (simp add: blk_add_coverage_def gentle_set_blk holds_same_def)
    then show ?thesis using g s Add_Coverage by simp
  next
    case (Use_Backdoor b x)
    have "gentle md (set_blk b (\<lambda>y. y\<lparr>bk_backdoor := Some x\<rparr>) md)"
      by (simp add: gentle_set_blk holds_same_def)
    then show ?thesis using g s Use_Backdoor by (simp add: blk_set_backdoor_def keep_none_def)
  qed
qed

text \<open>C16. A locked model stays as it is: from a model in which the blocks, registers and memories of every
  locked block are locked (as they are in one without a locked block), every run of the operations that
  build, lock, reset and configure models, with new objects at addresses not in use, keeps that so,
  and every block that was locked before the run stays locked and holds the same blocks, registers,
  virtual registers, memories and maps. The virtual registers themselves are not locked by
  \<open>lock_model\<close>.\<close>

theorem locked_model_frozen:
  assumes "lock_closed (fst s)"
    and "\<forall>k < length es. blk_ok (es ! k) (fold (blk_step d mx init) (take k es) s)"
  shows "lock_closed (fst (fold (blk_step d mx init) es s)) \<and>
    (\<forall>b. bk_locked (md_blk (fst s) b) \<longrightarrow>
      bk_locked (md_blk (fst (fold (blk_step d mx init) es s)) b) \<and>
      holds_same (md_blk (fst (fold (blk_step d mx init) es s)) b) (md_blk (fst s) b))"
proof -
  have "frozen (fst s) (fst s)" using assms(1) by (simp add: frozen_def holds_same_def)
  from blk.run_inv_nth [OF this] assms(2) have "frozen (fst s) (fst (fold (blk_step d mx init) es s))" by blast
  then show ?thesis by (simp add: frozen_def)
qed

definition locked_demo :: "unit lock_state" where
  "locked_demo = keep_none (demo_model, (), []) (lock_model 3 32 (\<lambda>k mp. Some (mp, [])) 0 (demo_model, (), []))"

theorem locked_model_frozen_witness:
  "bk_locked (md_blk (fst locked_demo) 1) \<and> bk_regs (md_blk (fst locked_demo) 1) = [7] \<and>
   bk_regs (md_blk (fst (fold (blk_step 3 32 (\<lambda>k mp. Some (mp, []))) [Add_Reg 1 9, Configure 3 (Some 0) ''late''] locked_demo)) 1) = [7]"
proof -
  have l: "bk_locked (md_blk (fst locked_demo) 1)" "bk_regs (md_blk (fst locked_demo) 1) = [7]" by code_simp+
  have "\<forall>k < length [Add_Reg 1 9, Configure 3 (Some 0) ''late''].
      blk_ok ([Add_Reg 1 9, Configure 3 (Some 0) ''late''] ! k)
        (fold (blk_step 3 32 (\<lambda>k mp. Some (mp, []))) (take k [Add_Reg 1 9, Configure 3 (Some 0) ''late'']) locked_demo)"
    by (simp add: less_Suc_eq)
  note ok = this
  have closed: "lock_closed (fst locked_demo)"
    using lock_model_spec [of 3 32 "\<lambda>k mp. Some (mp, [])" 0 demo_model "()" "[]"] lock_spec_closed(2) [OF demo_closed] demo_closed
    by (fastforce simp: locked_demo_def keep_none_def split: option.splits prod.splits)
  show ?thesis using locked_model_frozen [OF closed ok] l unfolding holds_same_def by presburger
qed

section \<open>Enumeration and search\<close>

text \<open>With \<open>UVM_HIER\<close> the search visits every block below once for each path to it.\<close>

lemma contains_from:
  "(contains md)\<^sup>* `` {b} = insert b (\<Union>c \<in> set (bk_blks (md_blk md b)). (contains md)\<^sup>* `` {c})"
proof -
  have "(b, x) \<in> (contains md)\<^sup>* \<longleftrightarrow> x = b \<or> (\<exists>c \<in> set (bk_blks (md_blk md b)). (c, x) \<in> (contains md)\<^sup>*)" for x
  proof
    assume "(b, x) \<in> (contains md)\<^sup>*"
    then show "x = b \<or> (\<exists>c \<in> set (bk_blks (md_blk md b)). (c, x) \<in> (contains md)\<^sup>*)"
      by (cases rule: converse_rtranclE) auto
  next
    assume "x = b \<or> (\<exists>c \<in> set (bk_blks (md_blk md b)). (c, x) \<in> (contains md)\<^sup>*)"
    then show "(b, x) \<in> (contains md)\<^sup>*" by (metis converse_rtrancl_into_rtrancl in_contains rtrancl.rtrancl_refl)
  qed
  then show ?thesis by auto
qed

lemma collect_set:
  assumes "finite (contains md)" "acyclic (contains md)"
  shows "card ((contains md)\<^sup>+ `` {b}) < d \<Longrightarrow>
    set (collect d md own UVM_HIER b) = (\<Union>x \<in> (contains md)\<^sup>* `` {b}. set (own (md_blk md x)))"
proof (induction d arbitrary: b)
  case (Suc d)
  have "set (collect d md own UVM_HIER c) = (\<Union>x \<in> (contains md)\<^sup>* `` {c}. set (own (md_blk md x)))"
    if "c \<in> set (bk_blks (md_blk md b))" for c
    using below_smaller [OF assms, of b c] that Suc by simp
  then have "set (collect (Suc d) md own UVM_HIER b) =
      set (own (md_blk md b)) \<union> (\<Union>c \<in> set (bk_blks (md_blk md b)). \<Union>x \<in> (contains md)\<^sup>* `` {c}. set (own (md_blk md x)))"
    by simp
  also have "\<dots> = (\<Union>x \<in> (contains md)\<^sup>* `` {b}. set (own (md_blk md x)))"
    unfolding contains_from [of md b] by simp
  finally show ?case .
qed simp

lemma first_in_find: "first_in p xss = find p (concat xss)"
proof -
  have "find p (xs @ ys) = (case find p xs of None \<Rightarrow> find p ys | Some x \<Rightarrow> Some x)" for xs ys
    by (induction xs) auto
  then show ?thesis by (induction xss) (auto split: option.splits)
qed

lemma collect_subset: "set (collect d md own UVM_HIER b) \<subseteq> (\<Union>x \<in> (contains md)\<^sup>* `` {b}. set (own (md_blk md x)))"
proof (induction d arbitrary: b)
  case (Suc d)
  then show ?case unfolding contains_from [of md b] by auto
qed simp

text \<open>Every block lies in at most one block, and only once in it.\<close>

definition tree :: "reg_model \<Rightarrow> bool" where
  "tree md \<longleftrightarrow> single_valued ((contains md)\<inverse>) \<and> acyclic (contains md) \<and> (\<forall>b. distinct (bk_blks (md_blk md b)))"

lemma tree_siblings:
  assumes "tree md" "c \<in> set (bk_blks (md_blk md b))" "c' \<in> set (bk_blks (md_blk md b))"
    and "(c, x) \<in> (contains md)\<^sup>*" "(c', x) \<in> (contains md)\<^sup>*"
  shows "c = c'"
proof (rule ccontr)
  assume ne: "c \<noteq> c'"
  have no: False if "(u, v) \<in> (contains md)\<^sup>*" "u \<noteq> v" "u \<in> set (bk_blks (md_blk md b))" "v \<in> set (bk_blks (md_blk md b))" for u v
  proof -
    note uv = that(1,2)
    obtain p where p: "(u, p) \<in> (contains md)\<^sup>*" "(p, v) \<in> contains md" using uv by (auto elim: rtranclE)
    have "(v, p) \<in> (contains md)\<inverse>" "(v, b) \<in> (contains md)\<inverse>" using p(2) that(4) by simp_all
    then have "p = b" using assms(1) by (auto simp: tree_def single_valued_def)
    then have "(b, b) \<in> (contains md)\<^sup>+" using p(1) that(3) by (meson in_contains rtrancl_into_trancl2)
    then show False using assms(1) by (auto simp: tree_def acyclic_def)
  qed
  have "(x, c) \<in> ((contains md)\<inverse>)\<^sup>*" "(x, c') \<in> ((contains md)\<inverse>)\<^sup>*" using assms(4,5) by (simp_all add: rtrancl_converse)
  then have "(c, c') \<in> ((contains md)\<inverse>)\<^sup>* \<or> (c', c) \<in> ((contains md)\<inverse>)\<^sup>*"
    using single_valued_confluent assms(1) by (metis tree_def)
  then have "(c', c) \<in> (contains md)\<^sup>* \<or> (c, c') \<in> (contains md)\<^sup>*" by (simp add: rtrancl_converse)
  then show False using no ne assms(2,3) by metis
qed

text \<open>\<open>own\<close> lists things that lie in one block only, each once.\<close>

definition apart :: "reg_model \<Rightarrow> (reg_block \<Rightarrow> 'x list) \<Rightarrow> bool" where
  "apart md own \<longleftrightarrow> (\<forall>b. distinct (own (md_blk md b))) \<and>
     (\<forall>a b. a \<noteq> b \<longrightarrow> set (own (md_blk md a)) \<inter> set (own (md_blk md b)) = {})"

lemma distinct_concat_map:
  "distinct xs \<Longrightarrow> (\<And>x. x \<in> set xs \<Longrightarrow> distinct (f x)) \<Longrightarrow>
    (\<And>x y. x \<in> set xs \<Longrightarrow> y \<in> set xs \<Longrightarrow> x \<noteq> y \<Longrightarrow> set (f x) \<inter> set (f y) = {}) \<Longrightarrow> distinct (concat (map f xs))"
  by (induction xs) fastforce+

lemma collect_distinct:
  assumes "tree md" "apart md own"
  shows "distinct (collect d md own UVM_HIER b)"
proof (induction d arbitrary: b)
  case (Suc d)
  let ?f = "collect d md own UVM_HIER" and ?subs = "bk_blks (md_blk md b)"
  have in_own: "\<exists>x. (c, x) \<in> (contains md)\<^sup>* \<and> y \<in> set (own (md_blk md x))" if "y \<in> set (?f c)" for c y
    using collect_subset [of d md own c] that by blast
  have same: "x = x'" if "y \<in> set (own (md_blk md x))" "y \<in> set (own (md_blk md x'))" for x x' y
    using assms(2) that by (auto simp: apart_def)
  have "distinct (concat (map ?f ?subs))"
  proof (rule distinct_concat_map)
    show "distinct ?subs" using assms(1) by (simp add: tree_def)
    fix c c' assume c: "c \<in> set ?subs" "c' \<in> set ?subs" "c \<noteq> c'"
    show "set (?f c) \<inter> set (?f c') = {}"
    proof (rule ccontr)
      assume "set (?f c) \<inter> set (?f c') \<noteq> {}"
      then obtain y x x' where "(c, x) \<in> (contains md)\<^sup>*" "(c', x') \<in> (contains md)\<^sup>*"
        "y \<in> set (own (md_blk md x))" "y \<in> set (own (md_blk md x'))" using in_own by (metis disjoint_iff)
      then show False using tree_siblings [OF assms(1) c(1,2)] c(3) same by metis
    qed
  qed (rule Suc.IH)
  moreover have "set (own (md_blk md b)) \<inter> set (concat (map ?f ?subs)) = {}"
  proof (rule ccontr)
    assume "set (own (md_blk md b)) \<inter> set (concat (map ?f ?subs)) \<noteq> {}"
    then obtain y c where "y \<in> set (own (md_blk md b))" "c \<in> set ?subs" "y \<in> set (?f c)" by auto
    with in_own same have "(c, b) \<in> (contains md)\<^sup>*" by metis
    then have "(b, b) \<in> (contains md)\<^sup>+" using \<open>c \<in> set ?subs\<close> by (meson in_contains rtrancl_into_trancl2)
    then show False using assms(1) by (auto simp: tree_def acyclic_def)
  qed
  moreover have "distinct (own (md_blk md b))" using assms(2) by (simp add: apart_def)
  ultimately show ?case by (simp only: collect.simps distinct_append if_True refl)
qed simp

text \<open>C28. \<open>get_registers\<close>, \<open>get_memories\<close> and \<open>get_virtual_registers\<close> with \<open>UVM_HIER\<close> return, on every finite tree of
  blocks, exactly what the block and the blocks below it hold, each once; and \<open>get_reg_by_name\<close> finds a
  register exactly when one of these has the name, with a warning otherwise.\<close>

theorem hierarchy_exact:
  assumes "tree md" "finite (contains md)" "card ((contains md)\<^sup>+ `` {b}) \<le> d"
    and "apart md bk_regs" "apart md bk_mems" "apart md bk_vregs" "U = (contains md)\<^sup>* `` {b}"
  shows "set (blk_get_registers (Suc d) md UVM_HIER b) = regs_of md U \<and> distinct (blk_get_registers (Suc d) md UVM_HIER b) \<and>
    set (blk_get_memories (Suc d) md UVM_HIER b) = mems_of md U \<and> distinct (blk_get_memories (Suc d) md UVM_HIER b) \<and>
    set (blk_get_vregs (Suc d) md UVM_HIER b) = (\<Union>x \<in> U. set (bk_vregs (md_blk md x))) \<and>
    distinct (blk_get_vregs (Suc d) md UVM_HIER b) \<and>
    (case get_reg_by_name d md nm b of
       (Some r, ws) \<Rightarrow> ws = [] \<and> r \<in> regs_of md U \<and> r_name (md_reg md r) = nm
     | (None, ws) \<Rightarrow> ws = [(UVM_WARNING, ''RegModel'')] \<and> (\<forall>r \<in> regs_of md U. r_name (md_reg md r) \<noteq> nm))"
proof -
  have ac: "acyclic (contains md)" using assms(1) by (simp add: tree_def)
  have d: "card ((contains md)\<^sup>+ `` {b}) < Suc d" using assms(3) by simp
  note S = collect_set [OF assms(2) ac d] and D = collect_distinct [OF assms(1)]
  have regs: "set (blk_get_registers (Suc d) md UVM_HIER b) = regs_of md U"
    unfolding blk_get_registers_def regs_of_def S assms(7) ..
  have "get_reg_by_name d md nm b =
      named_or_warn (find (\<lambda>r. r_name (md_reg md r) = nm) (blk_get_registers (Suc d) md UVM_HIER b))"
    unfolding get_reg_by_name_def first_in_find by (simp add: blk_get_registers_def [abs_def])
  moreover have "case named_or_warn (find (\<lambda>r. r_name (md_reg md r) = nm) rs) of
       (Some r, ws) \<Rightarrow> ws = [] \<and> r \<in> set rs \<and> r_name (md_reg md r) = nm
     | (None, ws) \<Rightarrow> ws = [(UVM_WARNING, ''RegModel'')] \<and> (\<forall>r \<in> set rs. r_name (md_reg md r) \<noteq> nm)" for rs
  proof (cases "find (\<lambda>r. r_name (md_reg md r) = nm) rs")
    case None
    then have "\<forall>r \<in> set rs. r_name (md_reg md r) \<noteq> nm" by (simp add: find_None_iff)
    with None show ?thesis by (simp add: named_or_warn_def)
  next
    case (Some r)
    then have "r \<in> set rs \<and> r_name (md_reg md r) = nm" by (auto simp: find_Some_iff)
    with Some show ?thesis by (simp add: named_or_warn_def)
  qed
  ultimately have "case get_reg_by_name d md nm b of
       (Some r, ws) \<Rightarrow> ws = [] \<and> r \<in> regs_of md U \<and> r_name (md_reg md r) = nm
     | (None, ws) \<Rightarrow> ws = [(UVM_WARNING, ''RegModel'')] \<and> (\<forall>r \<in> regs_of md U. r_name (md_reg md r) \<noteq> nm)"
    unfolding regs [symmetric] by simp
  moreover have "set (blk_get_memories (Suc d) md UVM_HIER b) = mems_of md U"
    "set (blk_get_vregs (Suc d) md UVM_HIER b) = (\<Union>x \<in> U. set (bk_vregs (md_blk md x)))"
    unfolding blk_get_memories_def blk_get_vregs_def mems_of_def S assms(7) by (rule refl)+
  ultimately show ?thesis
    using regs D [OF assms(4)] D [OF assms(5)] D [OF assms(6)]
    unfolding blk_get_registers_def blk_get_memories_def blk_get_vregs_def by - (intro conjI; assumption)
qed

theorem hierarchy_exact_witness:
  "set (blk_get_registers 2 demo_model UVM_HIER 0) = {7} \<and> distinct (blk_get_registers 2 demo_model UVM_HIER 0) \<and>
   fst (get_reg_by_name 1 demo_model ''q'' 0) = None"
proof -
  have c: "contains demo_model = {(0, 1)}" by (auto simp: contains_def demo_blks split: if_splits)
  have "acyclic ({} :: (nat \<times> nat) set)" by (simp add: acyclic_def)
  then have t: "tree demo_model" by (simp add: tree_def c demo_blks single_valued_def)
  have f: "finite (contains demo_model)" unfolding c by simp
  have d: "card ((contains demo_model)\<^sup>+ `` {0}) \<le> 1"
  proof -
    have "(contains demo_model)\<^sup>+ `` {0} \<subseteq> {1}" by (auto simp: c elim: tranclE)
    then show ?thesis by (metis card_mono card.empty card_insert_disjoint empty_iff finite.emptyI finite_insert One_nat_def)
  qed
  have a: "apart demo_model bk_regs" "apart demo_model bk_mems" by (auto simp: apart_def demo_blks)
  have v: "bk_vregs (md_blk demo_model b) = []" for b
    by (simp add: demo_model_def Let_def new_block_def configure_block_def add_block_def blk_add_reg_def blk_add_mem_def
        set_blk_def put_key_def insort_insert_key_def)
  then have a3: "apart demo_model bk_vregs" by (simp add: apart_def)
  have r: "regs_of demo_model {0, 1} = {7}" by (auto simp: regs_of_def demo_blks)
  have n: "r_name (md_reg demo_model 7) = ''r''" by code_simp
  note h = hierarchy_exact [OF t f d a a3 refl, of "''q''", unfolded demo_reach r]
  have "fst (get_reg_by_name 1 demo_model ''q'' 0) = None"
    using h n by (auto split: prod.splits option.splits)
  then show ?thesis using h by (simp add: numeral_2_eq_2)
qed

section \<open>Reset\<close>

lemma field_reset_twice: "field_reset k (field_reset k f) = field_reset k f"
  by (simp add: field_reset_def Let_def split: option.splits)

lemma field_reset_settled: "f_reset f k \<noteq> None \<Longrightarrow> \<not> needs_update (field_reset k f)"
  by (cases "f_reset f k") (simp_all add: field_reset_def needs_update_def Let_def)

lemma reg_reset_twice: "reg_reset k (reg_reset k r) = reg_reset k r"
  by (simp add: reg_reset_def field_reset_twice)

text \<open>\<open>md'\<close> is \<open>md\<close> with the registers \<open>Q\<close> reset.\<close>

definition resets :: "string \<Rightarrow> reg_model \<Rightarrow> nat set \<Rightarrow> reg_model \<Rightarrow> bool" where
  "resets k md Q md' \<longleftrightarrow> md' = md\<lparr>md_reg := (\<lambda>r. if r \<in> Q then reg_reset k (md_reg md r) else md_reg md r)\<rparr>"

lemma resets_trans: "resets k md Q md1 \<Longrightarrow> resets k md1 S md2 \<Longrightarrow> resets k md (Q \<union> S) md2"
  by (auto simp: resets_def reg_reset_twice fun_eq_iff)

lemma resets_fold:
  assumes "\<And>c md. contains md = C \<Longrightarrow> md_blk md = B \<Longrightarrow> c \<in> set cs \<Longrightarrow> resets k md (Q c) (f c md)"
  shows "contains md = C \<Longrightarrow> md_blk md = B \<Longrightarrow> resets k md (\<Union>c \<in> set cs. Q c) (fold f cs md)"
  using assms
proof (induction cs arbitrary: md)
  case Nil
  then show ?case by (simp add: resets_def)
next
  case (Cons c cs)
  have 1: "resets k md (Q c) (f c md)" using Cons.prems by simp
  then have "contains (f c md) = C" "md_blk (f c md) = B" using Cons.prems(1,2) by (auto simp: resets_def contains_def)
  then have "resets k (f c md) (\<Union>c \<in> set cs. Q c) (fold f cs (f c md))" using Cons by simp
  from resets_trans [OF 1 this] show ?case by (simp add: Un_commute)
qed

lemma blk_reset_exact:
  assumes "finite (contains md)" "acyclic (contains md)"
  shows "card ((contains md)\<^sup>+ `` {b}) < d \<Longrightarrow> contains md1 = contains md \<Longrightarrow> md_blk md1 = md_blk md \<Longrightarrow>
    resets k md1 (regs_of md ((contains md)\<^sup>* `` {b})) (blk_reset d k b md1)"
proof (induction d arbitrary: b md1)
  case (Suc d)
  let ?Q = "\<lambda>c. regs_of md ((contains md)\<^sup>* `` {c})"
  let ?md2 = "fold (\<lambda>r. set_reg r (reg_reset k)) (bk_regs (md_blk md1 b)) md1"
  have own: "resets k md1 (set (bk_regs (md_blk md b))) ?md2"
    using Suc.prems(3) by (simp add: resets_def fold_set_reg [OF reg_reset_twice])
  then have shape: "contains ?md2 = contains md" "md_blk ?md2 = md_blk md"
    using Suc.prems(2,3) by (auto simp: resets_def contains_def)
  have IH: "resets k md' (?Q c) (blk_reset d k c md')"
    if "contains md' = contains md" "md_blk md' = md_blk md" "c \<in> set (bk_blks (md_blk md b))" for c md'
    using Suc.IH [of c md'] below_smaller [OF assms, of b c] Suc.prems(1) that by simp
  have "resets k ?md2 (\<Union>c \<in> set (bk_blks (md_blk md b)). ?Q c) (fold (blk_reset d k) (bk_blks (md_blk md b)) ?md2)"
    by (rule resets_fold [OF IH shape])
  from resets_trans [OF own this]
  have "resets k md1 (set (bk_regs (md_blk md b)) \<union> (\<Union>c \<in> set (bk_blks (md_blk md b)). ?Q c)) (blk_reset (Suc d) k b md1)"
    using Suc.prems(3) by simp
  moreover have "set (bk_regs (md_blk md b)) \<union> (\<Union>c \<in> set (bk_blks (md_blk md b)). ?Q c) = ?Q b"
    unfolding contains_from [of md b] by (auto simp: regs_of_def)
  ultimately show ?case by simp
qed simp

lemma needs_update_below:
  "blk_needs_update d md b \<Longrightarrow> \<exists>r \<in> regs_of md ((contains md)\<^sup>* `` {b}). reg_needs_update (md_reg md r)"
proof (induction d arbitrary: b)
  case (Suc d)
  show ?case
  proof (cases "list_ex (\<lambda>r. reg_needs_update (md_reg md r)) (bk_regs (md_blk md b))")
    case True
    then show ?thesis by (auto simp: list_ex_iff regs_of_def)
  next
    case False
    then obtain c where c: "c \<in> set (bk_blks (md_blk md b))" "blk_needs_update d md c" using Suc.prems by (auto simp: list_ex_iff)
    from Suc.IH [OF c(2)] c(1) show ?thesis unfolding contains_from [of md b] by (auto simp: regs_of_def)
  qed
qed simp

text \<open>Resetting a block resets exactly the registers of the block and of the blocks below it, however
  often a register can be reached, and changes nothing else; when all their fields have a reset value of
  that kind, the block then needs no update, and updating it does nothing.\<close>

theorem block_reset_exact:
  assumes "finite (contains md)" "acyclic (contains md)" "card ((contains md)\<^sup>+ `` {b}) < d"
    and "Q = regs_of md ((contains md)\<^sup>* `` {b})" "0 < e"
  shows "blk_reset d k b md = md\<lparr>md_reg := (\<lambda>r. if r \<in> Q then reg_reset k (md_reg md r) else md_reg md r)\<rparr> \<and>
    ((\<forall>r \<in> Q. \<forall>f \<in> set (r_fields (md_reg md r)). f_reset f k \<noteq> None) \<longrightarrow>
       \<not> blk_needs_update e (blk_reset d k b md) b \<and>
       blk_update e env path b (blk_reset d k b md, h, ms) = Some (blk_reset d k b md, h, ms))"
proof -
  have r: "blk_reset d k b md = md\<lparr>md_reg := (\<lambda>r. if r \<in> Q then reg_reset k (md_reg md r) else md_reg md r)\<rparr>"
    using blk_reset_exact [OF assms(1-3) refl refl, of k] assms(4) by (simp add: resets_def)
  let ?md = "blk_reset d k b md"
  have "regs_of ?md ((contains ?md)\<^sup>* `` {b}) = Q" using r assms(4) by (simp add: regs_of_def contains_def)
  moreover have "\<not> reg_needs_update (md_reg ?md r)"
    if "r \<in> Q" "\<forall>r \<in> Q. \<forall>f \<in> set (r_fields (md_reg md r)). f_reset f k \<noteq> None" for r
    using that field_reset_settled by (simp add: r reg_needs_update_def reg_reset_def list_ex_iff del: not_None_eq)
  ultimately have u: "\<not> blk_needs_update e ?md b"
    if "\<forall>r \<in> Q. \<forall>f \<in> set (r_fields (md_reg md r)). f_reset f k \<noteq> None"
    using that needs_update_below [of e ?md b] by blast
  obtain e' where "e = Suc e'" using assms(5) by (cases e) auto
  with r u show ?thesis by (simp del: blk_needs_update.simps)
qed

definition dirty_model :: reg_model where
  "dirty_model = set_reg 7 (\<lambda>_. fst (reg_set 5 (reg_set_reset 0 ''HARD'' sample_reg))) demo_model"

lemma dirty_shape: "contains dirty_model = contains demo_model" "md_blk dirty_model = md_blk demo_model"
  by (simp_all add: dirty_model_def set_reg_def contains_def)

theorem block_reset_exact_witness:
  "blk_needs_update 2 dirty_model 0 \<and> \<not> blk_needs_update 2 (blk_reset 2 ''HARD'' 0 dirty_model) 0"
proof -
  have c: "contains dirty_model = {(0, 1)}" unfolding dirty_shape by (auto simp: contains_def demo_blks split: if_splits)
  have "acyclic ({} :: (nat \<times> nat) set)" by (simp add: acyclic_def)
  then have a: "acyclic (contains dirty_model)" by (simp add: c)
  have f: "finite (contains dirty_model)" unfolding c by simp
  have d: "card ((contains dirty_model)\<^sup>+ `` {0}) < 2"
  proof -
    have "(contains dirty_model)\<^sup>+ `` {0} \<subseteq> {1}" by (auto simp: c elim: tranclE)
    from card_mono [OF _ this] show ?thesis by simp
  qed
  have q: "regs_of dirty_model ((contains dirty_model)\<^sup>* `` {0}) = {7}"
    unfolding dirty_shape demo_reach by (auto simp: regs_of_def dirty_shape demo_blks)
  have r: "list_all (\<lambda>f. f_reset f ''HARD'' \<noteq> None) (r_fields (md_reg dirty_model 7))" by code_simp
  have "\<not> blk_needs_update 2 (blk_reset 2 ''HARD'' 0 dirty_model) 0"
    by (rule block_reset_exact [OF f a d q [symmetric], THEN conjunct2, THEN mp, THEN conjunct1])
      (use r in \<open>simp_all add: list_all_iff\<close>)
  moreover have "blk_needs_update 2 dirty_model 0" by code_simp
  ultimately show ?thesis by simp
qed

section \<open>Configuring under a locked block\<close>

text \<open>A block that is configured under a locked block gets the parent but not the place: the error is
  reported, the parent does not hold the block and never locks it, and the block remains in the table of
  roots; but having a parent, it does not initialise the address maps when it is locked itself.\<close>

theorem configure_under_locked:
  assumes "bk_locked (md_blk md p)" "b \<notin> set (bk_blks (md_blk md p))" "b \<noteq> p"
    and "bk_blks (md_blk md b) = []" "\<not> bk_locked (md_blk md b)" "b \<in> set (md_roots md)"
    and "configure_block b (Some p) path md = (md', ws)"
  shows "ws = [(UVM_ERROR, ''RegModel'')] \<and> bk_parent (md_blk md' b) = Some p \<and> b \<notin> set (bk_blks (md_blk md' p)) \<and>
    b \<in> set (md_roots md') \<and>
    (\<exists>md2. lock_model (Suc d) mx init b (md', mp, ms) = Some (md2, mp, ms) \<and> bk_locked (md_blk md2 b)) \<and>
    lock_model (Suc d) mx init p (md', mp, ms) = Some (md', mp, ms)"
proof -
  have md': "md' = set_blk b (\<lambda>x. x\<lparr>bk_hdl_pool := pool_add path ''RTL'' (bk_hdl_pool x)\<rparr>) (set_blk b (\<lambda>x. x\<lparr>bk_parent := Some p\<rparr>) md)"
    and ws: "ws = [(UVM_ERROR, ''RegModel'')]"
    using assms(1,3,7) by (auto simp: configure_block_def add_block_def set_blk_def Let_def)
  have l: "locks md' {b} (lock_content b md')" by (rule lock_content_locks)
  have b: "bk_parent (md_blk md' b) = Some p" "bk_blks (md_blk md' b) = []" "\<not> bk_locked (md_blk md' b)"
    "bk_locked (md_blk md' p)" "bk_blks (md_blk md' p) = bk_blks (md_blk md p)" "md_roots md' = md_roots md"
    using assms(1,3,4,5) by (simp_all add: md' set_blk_def)
  have "lock_model (Suc d) mx init b (md', mp, ms) = Some (lock_content b md', mp, ms)"
    using b by (simp add: locks_shape [OF l])
  moreover have "bk_locked (md_blk (lock_content b md') b)" using l by (simp add: locks_def)
  ultimately show ?thesis using ws b assms(2,6) by simp
qed

theorem configure_under_locked_witness:
  "snd (configure_block 3 (Some 0) ''late'' (fst locked_demo)) = [(UVM_ERROR, ''RegModel'')] \<and>
   (\<exists>md2. lock_model 1 32 (\<lambda>k mp. None) 3 (fst (configure_block 3 (Some 0) ''late'' (fst locked_demo)), (), []) = Some (md2, (), []))"
proof -
  have l: "bk_locked (md_blk (fst locked_demo) 0)" "bk_blks (md_blk (fst locked_demo) 0) = [1]"
    "bk_blks (md_blk (fst locked_demo) 3) = []" "bk_locked (md_blk (fst locked_demo) 3) = False" "3 \<in> set (md_roots (fst locked_demo))"
    by code_simp+
  show ?thesis
    using configure_under_locked [of "fst locked_demo" 0 3 "''late''"
        "fst (configure_block 3 (Some 0) ''late'' (fst locked_demo))" "snd (configure_block 3 (Some 0) ''late'' (fst locked_demo))" 0 32 "\<lambda>k mp. None" "()" "[]"]
    by (simp add: l del: lock_model.simps) (metis One_nat_def)
qed

end
