(* ===== verification/Reg_Vreg.thy ===== *)
theory Reg_Vreg
  imports Reg_Block
begin

text \<open>
  \<open>src/uvmsc/reg/uvm_vreg.cpp\<close> and \<open>uvm_vreg_field.cpp\<close>: virtual registers, arrays of registers that live in a
  memory. A register keeps the memory, the offset and the increment of the array and the region
  that the memory allocation manager reserved for it. The objects it works on are in a \<open>vreg_world\<close>:
  the memories with their blocks and managers. \<open>None\<close> is following a null pointer, a division by zero or an
  error of the memory. Text output, informative messages and the names of the callers are left out.
  \<open>lsb\<close>, an \<open>int\<close> of the source, is a natural number here.
\<close>

section \<open>State\<close>

record vreg_field =
  vf_name :: string
  vf_lsb :: uint
  vf_size :: uint
  vf_reading :: bool
  vf_writing :: bool

record vreg =
  vr_name :: string
  vr_locked :: bool
  vr_parent :: "nat option"
  vr_n_bits :: uint
  vr_n_used :: uint
  vr_fields :: "vreg_field list"
  vr_mem :: "nat option"
  vr_offset :: addr
  vr_incr :: uint
  vr_size :: ulong
  vr_static :: bool
  vr_region :: "(nat \<times> mem_region) option"
  vr_reading :: bool
  vr_writing :: bool

record vreg_world =
  vw_mem :: "nat \<Rightarrow> uvm_mem"
  vw_block :: "nat \<Rightarrow> nat option"
  vw_mam :: "nat \<Rightarrow> mem_mam"
  vw_mam_of :: "nat \<Rightarrow> nat option"
  vw_mem_of :: "nat \<Rightarrow> nat option"

definition vput_mem :: "nat \<Rightarrow> (uvm_mem \<Rightarrow> uvm_mem) \<Rightarrow> vreg_world \<Rightarrow> vreg_world" where
  "vput_mem k f w = w\<lparr>vw_mem := (vw_mem w)(k := f (vw_mem w k))\<rparr>"

definition vput_mam :: "nat \<Rightarrow> mem_mam \<Rightarrow> vreg_world \<Rightarrow> vreg_world" where
  "vput_mam g x w = w\<lparr>vw_mam := (vw_mam w)(g := x)\<rparr>"

section \<open>Construction\<close>

text \<open>
  The constructor does not set \<open>m_n_used_bits\<close>; here it starts at zero. Too many bits are reported, but
  only the argument is cut.
\<close>

definition new_vreg :: "string \<Rightarrow> uint \<Rightarrow> vreg \<times> msg list" where
  "new_vreg nm n_bits =
     (\<lparr>vr_name = nm, vr_locked = False, vr_parent = None, vr_n_bits = (if n_bits = 0 then 1 else n_bits), vr_n_used = 0,
       vr_fields = [], vr_mem = None, vr_offset = 0, vr_incr = 0, vr_size = 0, vr_static = False, vr_region = None,
       vr_reading = False, vr_writing = False\<rparr>,
      (if n_bits = 0 then [(UVM_ERROR, ''RegModel'')] else []) @ (if n_bits > 64 then [(UVM_ERROR, ''RegModel'')] else []))"

definition vreg_n_bytes :: "vreg \<Rightarrow> uint" where
  "vreg_n_bytes r = (vr_n_bits r - 1) div 8 + 1"

definition min_incr :: "vreg \<Rightarrow> uvm_mem \<Rightarrow> uint" where
  "min_incr r m = (vreg_n_bytes r - 1) div mem_n_bytes m + 1"

definition vreg_release :: "nat \<Rightarrow> vreg \<Rightarrow> vreg_world \<Rightarrow> vreg \<times> vreg_world \<times> msg list" where
  "vreg_release self r w =
     (if vr_static r then (r, w, [(UVM_ERROR, ''RegModel'')])
      else
        let w1 = (case vr_mem r of None \<Rightarrow> w | Some k \<Rightarrow> vput_mem k (m_delete_vreg self) w);
            (w2, ms) = (case vr_region r of
                None \<Rightarrow> (w1, [])
              | Some (g, rg) \<Rightarrow> (let (x, ms) = release_region (Some (rg_id rg)) (vw_mam w1 g) in (vput_mam g x w1, ms)))
        in (r\<lparr>vr_region := None, vr_mem := None, vr_size := 0, vr_offset := 0\<rparr>, w2, ms))"

text \<open>
  \<open>implement\<close>. The sum that is compared with the size of the memory wraps; the number of bytes is cut
  to 32 bits by the call. The result of \<open>reserve_region\<close> is kept, but the old \<open>m_region\<close> is tested.
\<close>

definition vreg_implement ::
    "nat \<Rightarrow> ulong \<Rightarrow> nat option \<Rightarrow> addr \<Rightarrow> uint \<Rightarrow> vreg \<Rightarrow> vreg_world \<Rightarrow> (bool \<times> vreg \<times> vreg_world \<times> msg list) option" where
  "vreg_implement self n mem offset incr r w =
     (let fail = Some (False, r, w, [(UVM_ERROR, ''RegModel'')])
      in if n < 1 then fail
         else case mem of
           None \<Rightarrow> fail
         | Some k \<Rightarrow>
             if vr_static r then fail
             else if vw_block w k \<noteq> vr_parent r then fail
             else
               let m = vw_mem w k;
                   inc = (if incr = 0 then min_incr r m else incr)
               in if min_incr r m > inc then fail
                  else if offset + n * ucast inc > me_size m then fail
                  else case vw_mam_of w k of
                    None \<Rightarrow> None
                  | Some g \<Rightarrow>
                      (case reserve_region offset (ucast (n * ucast inc * ucast (mem_n_bytes m))) (vw_mam w g) of
                         None \<Rightarrow> None
                       | Some (region, x, ms) \<Rightarrow>
                           let w1 = vput_mam g x w
                           in if vr_region r = None then Some (False, r, w1, ms @ [(UVM_ERROR, ''RegModel'')])
                              else
                                let (r2, w2, ms2) = (if vr_mem r = None then (r, w1, []) else vreg_release self r w1)
                                in Some (True, r2\<lparr>vr_region := map_option (\<lambda>rg. (g, rg)) region, vr_mem := Some k,
                                                  vr_size := n, vr_offset := offset, vr_incr := inc\<rparr>,
                                         vput_mem k (m_add_vreg self) w2, ms @ ms2)))"

text \<open>\<open>allocate\<close>: the increment is set before the checks that may fail.\<close>

definition vreg_allocate ::
    "nat \<Rightarrow> ulong \<Rightarrow> nat option \<Rightarrow> vreg \<Rightarrow> vreg_world \<Rightarrow> (mem_region option \<times> vreg \<times> vreg_world \<times> msg list) option" where
  "vreg_allocate self n mam r w =
     (let fail = (\<lambda>r. Some (None, r, w, [(UVM_ERROR, ''RegModel'')]))
      in if n < 1 then fail r
         else case mam of
           None \<Rightarrow> fail r
         | Some g \<Rightarrow>
             if vr_static r then fail r
             else case vw_mem_of w g of
               None \<Rightarrow> None
             | Some k \<Rightarrow>
                 if vw_block w k \<noteq> vr_parent r then fail r
                 else
                   let m = vw_mem w k;
                       r1 = (if vr_incr r = 0 then r\<lparr>vr_incr := min_incr r m\<rparr> else r)
                   in if min_incr r m < vr_incr r1 then fail r1
                      else case request_region (ucast (n * ucast (vr_incr r1) * ucast (mem_n_bytes m))) None (vw_mam w g) of
                        None \<Rightarrow> None
                      | Some (None, _, x, ms) \<Rightarrow> Some (None, r1, vput_mam g x w, ms @ [(UVM_ERROR, ''RegModel'')])
                      | Some (Some rg, _, x, ms) \<Rightarrow>
                          let (r2, w2, ms2) = vreg_release self r1 (vput_mam g x w)
                          in Some (Some rg, r2\<lparr>vr_region := Some (g, rg), vr_mem := Some k, vr_offset := rg_start rg,
                                              vr_size := n\<rparr>,
                                   vput_mem k (m_add_vreg self) w2, ms @ ms2))"

text \<open>\<open>configure\<close>: a static register stays static when \<open>implement\<close> fails.\<close>

definition vreg_configure ::
    "nat \<Rightarrow> nat option \<Rightarrow> nat option \<Rightarrow> ulong \<Rightarrow> addr \<Rightarrow> uint \<Rightarrow> vreg \<Rightarrow> vreg_world \<Rightarrow> reg_model
      \<Rightarrow> (vreg \<times> vreg_world \<times> reg_model \<times> msg list) option" where
  "vreg_configure self parent mem n offset incr r w md =
     (let r1 = r\<lparr>vr_parent := parent, vr_n_used := 0\<rparr>
      in case (if mem = None then Some (False, r1\<lparr>vr_mem := None, vr_static := False\<rparr>, w, [])
               else map_option (\<lambda>(b, r2, w2, ms). (b, r2\<lparr>vr_static := True\<rparr>, w2, ms))
                      (vreg_implement self n mem offset incr r1 w)) of
           None \<Rightarrow> None
         | Some (_, r2, w2, ms) \<Rightarrow>
             map_option (\<lambda>b. let (md2, ms2) = blk_add_vreg b self md in (r2, w2, md2, ms @ ms2)) parent)"

definition vreg_lock_model :: "vreg \<Rightarrow> vreg" where
  "vreg_lock_model r = r\<lparr>vr_locked := True\<rparr>"

section \<open>Fields\<close>

text \<open>
  \<open>add_field\<close> inserts in front of the first field that starts higher; the index is then one more than the
  place of the new field, and \<open>m_fields[idx-1]\<close> is the field itself.
\<close>

primrec insert_vfield :: "vreg_field \<Rightarrow> nat \<Rightarrow> vreg_field list \<Rightarrow> (nat \<times> vreg_field list) option" where
  "insert_vfield f i [] = None"
| "insert_vfield f i (g # gs) =
     (if vf_lsb f < vf_lsb g then Some (Suc i, f # g # gs)
      else map_option (\<lambda>(k, hs). (k, g # hs)) (insert_vfield f (Suc i) gs))"

definition vreg_add_field :: "vreg_field \<Rightarrow> vreg \<Rightarrow> vreg \<times> msg list" where
  "vreg_add_field f r =
     (if vr_locked r then (r, [(UVM_ERROR, ''RegModel'')])
      else
        let (idx, fs) = (case insert_vfield f 0 (vr_fields r) of
               Some x \<Rightarrow> x
             | None \<Rightarrow> (length (vr_fields r), vr_fields r @ [f]));
            used = vr_n_used r + vf_size f;
            bad = (\<lambda>b. if b then [(UVM_ERROR, ''RegModel'')] else [])
        in (r\<lparr>vr_fields := fs, vr_n_used := used\<rparr>,
            bad (used > vr_n_bits r) @
            bad (idx > 0 \<and> vf_lsb (fs ! (idx - 1)) + vf_size (fs ! (idx - 1)) > vf_lsb f) @
            bad (idx < length fs - 1 \<and> vf_lsb f + vf_size f > vf_lsb (fs ! (idx + 1)))))"

definition vreg_field_configure :: "string \<Rightarrow> uint \<Rightarrow> uint \<Rightarrow> vreg \<Rightarrow> vreg_field \<times> vreg \<times> msg list" where
  "vreg_field_configure nm sz lsb_pos r =
     (let ms = (if sz = 0 \<or> sz > 64 then [(UVM_ERROR, ''RegModel'')] else []);
          f = \<lparr>vf_name = nm, vf_lsb = lsb_pos, vf_size = (if sz = 0 then 1 else if sz > 64 then 64 else sz),
               vf_reading = False, vf_writing = False\<rparr>;
          (r1, ms1) = vreg_add_field f r
      in (f, r1, ms @ ms1))"

definition vreg_field_by_name :: "string \<Rightarrow> vreg \<Rightarrow> vreg_field option \<times> msg list" where
  "vreg_field_by_name nm r =
     (case find (\<lambda>f. vf_name f = nm) (vr_fields r) of
        Some f \<Rightarrow> (Some f, [])
      | None \<Rightarrow> (None, [(UVM_WARNING, ''RegModel'')]))"

section \<open>Introspection\<close>

definition vreg_n_memlocs :: "(nat \<Rightarrow> uvm_mem) \<Rightarrow> vreg \<Rightarrow> uint \<times> msg list" where
  "vreg_n_memlocs mem r =
     (case vr_mem r of
        None \<Rightarrow> (0, [(UVM_ERROR, ''RegModel'')])
      | Some k \<Rightarrow> (min_incr r (mem k), []))"

definition vreg_get_incr :: "vreg \<Rightarrow> uint \<times> msg list" where
  "vreg_get_incr r = (if vr_incr r = 0 then (0, [(UVM_ERROR, ''RegModel'')]) else (vr_incr r, []))"

definition vreg_get_size :: "vreg \<Rightarrow> uint \<times> msg list" where
  "vreg_get_size r = (if vr_size r = 0 then (0, [(UVM_ERROR, ''RegModel'')]) else (ucast (vr_size r), []))"

definition offset_in_memory :: "ulong \<Rightarrow> vreg \<Rightarrow> addr \<times> msg list" where
  "offset_in_memory idx r =
     (case vr_mem r of
        None \<Rightarrow> (0, [(UVM_ERROR, ''RegModel'')])
      | Some k \<Rightarrow> (vr_offset r + idx * ucast (vr_incr r), []))"

definition vreg_address ::
    "(nat \<Rightarrow> 'h mem_env) \<Rightarrow> (nat \<Rightarrow> uvm_mem) \<Rightarrow> ulong \<Rightarrow> map_id option \<Rightarrow> vreg \<Rightarrow> (addr \<times> msg list) option" where
  "vreg_address env mem idx mp r =
     (case vr_mem r of
        None \<Rightarrow> Some (0, [(UVM_ERROR, ''RegModel'')])
      | Some k \<Rightarrow> map_option (\<lambda>a. (a, [])) (mem_get_address (env k) (mem k) mp (fst (offset_in_memory idx r))))"

definition vreg_rights ::
    "(nat \<Rightarrow> 'h mem_env) \<Rightarrow> (nat \<Rightarrow> uvm_mem) \<Rightarrow> map_id option \<Rightarrow> vreg \<Rightarrow> (string \<times> msg list) option" where
  "vreg_rights env mem mp r =
     (case vr_mem r of
        None \<Rightarrow> Some (''RW'', [(UVM_ERROR, ''RegModel'')])
      | Some k \<Rightarrow> mem_get_rights (env k) (mem k) mp)"

definition vreg_access ::
    "(nat \<Rightarrow> 'h mem_env) \<Rightarrow> (nat \<Rightarrow> uvm_mem) \<Rightarrow> map_id option \<Rightarrow> vreg \<Rightarrow> (string \<times> msg list) option" where
  "vreg_access env mem mp r =
     (case vr_mem r of
        None \<Rightarrow> Some (''RW'', [(UVM_ERROR, ''RegModel'')])
      | Some k \<Rightarrow> mem_get_access (env k) (mem k) mp)"

definition vreg_is_in_map :: "(nat \<Rightarrow> 'h mem_env) \<Rightarrow> (nat \<Rightarrow> uvm_mem) \<Rightarrow> map_id \<Rightarrow> vreg \<Rightarrow> bool \<times> msg list" where
  "vreg_is_in_map env mem mp r =
     (case vr_mem r of
        None \<Rightarrow> (False, [(UVM_ERROR, ''RegModel'')])
      | Some k \<Rightarrow> (mem_is_in_map (ve_maps (env k)) mp (mem k), []))"

definition vreg_maps :: "(nat \<Rightarrow> uvm_mem) \<Rightarrow> vreg \<Rightarrow> map_id list \<times> msg list" where
  "vreg_maps mem r =
     (case vr_mem r of
        None \<Rightarrow> ([], [(UVM_ERROR, ''RegModel'')])
      | Some k \<Rightarrow> (me_maps (mem k), []))"

definition vreg_field_access ::
    "(nat \<Rightarrow> 'h mem_env) \<Rightarrow> (nat \<Rightarrow> uvm_mem) \<Rightarrow> map_id option \<Rightarrow> vreg \<Rightarrow> (string \<times> msg list) option" where
  "vreg_field_access env mem mp r =
     (if vr_mem r = None then Some (''RW'', [(UVM_ERROR, ''RegModel'')]) else vreg_access env mem mp r)"

section \<open>Where an array lies\<close>

definition array_base :: "ulong \<Rightarrow> vreg \<Rightarrow> addr" where
  "array_base idx r = vr_offset r + idx * ucast (vr_incr r)"

text \<open>The \<open>n\<close> locations from \<open>base\<close> are among \<open>locs\<close>.\<close>

definition spans :: "nat \<Rightarrow> addr \<Rightarrow> addr set \<Rightarrow> bool" where
  "spans n base locs \<longleftrightarrow> (\<forall>i < n. base + of_nat i \<in> locs)"

definition locations_of :: "nat \<Rightarrow> addr \<Rightarrow> addr set" where
  "locations_of n base = (\<lambda>i. base + of_nat i) ` {..<n}"

lemma of_nat_addr_eq: "i < 2 ^ 64 \<Longrightarrow> j < 2 ^ 64 \<Longrightarrow> (of_nat i :: addr) = of_nat j \<longleftrightarrow> i = j"
  by (simp add: word_of_nat_eq_iff take_bit_nat_eq_self)

lemma unat_add_nat: "unat (a :: addr) + k < 2 ^ 64 \<Longrightarrow> unat (a + of_nat k) = unat a + k"
  by (simp add: unat_word_ariths unsigned_of_nat take_bit_nat_eq_self)

lemma vput_simps [simp]:
  "vw_mam (vput_mem k f w) = vw_mam w" "vw_mem (vput_mam g x w) = vw_mem w" "vw_mam (vput_mam g x w) = (vw_mam w)(g := x)"
  by (simp_all add: vput_mem_def vput_mam_def)

text \<open>What releasing a register does to the managers: only its own region goes.\<close>

lemma vreg_release_mams:
  "vw_mam (fst (snd (vreg_release self r w))) =
     (if vr_static r then vw_mam w
      else case vr_region r of
          None \<Rightarrow> vw_mam w
        | Some (g, rg) \<Rightarrow> (vw_mam w)(g := fst (release_region (Some (rg_id rg)) (vw_mam w g))))"
  by (simp add: vreg_release_def split_beta split: option.split)

lemma vreg_release_incr [simp]: "vr_incr (fst (vreg_release self r w)) = vr_incr r"
  by (simp add: vreg_release_def Let_def split_beta)

lemma release_other_region:
  assumes "mam_inv x" "rg \<in> set (mm_in_use x)" "rg_id rg \<noteq> i"
  shows "rg \<in> set (mm_in_use (fst (release_region (Some i) x)))"
proof (cases "erase_region i (mm_in_use x)")
  case (Some rs)
  have "regions_ok (mm_in_use x)" using assms(1) by (simp add: mam_inv_def)
  then have "set rs = {r \<in> set (mm_in_use x). rg_id r \<noteq> i}" using erase_region_Some Some by blast
  then show ?thesis using Some assms(2,3) by (simp add: release_region_def)
qed (use assms(2) in \<open>simp add: release_region_def\<close>)

lemma vreg_release_keeps:
  assumes "mam_inv (vw_mam w g)" "rg \<in> set (mm_in_use (vw_mam w g))"
    and "\<forall>g' old. vr_region r = Some (g', old) \<longrightarrow> rg_id old \<noteq> rg_id rg \<or> g' \<noteq> g"
  shows "mam_inv (vw_mam (fst (snd (vreg_release self r w))) g) \<and> rg \<in> set (mm_in_use (vw_mam (fst (snd (vreg_release self r w))) g))"
  using assms release_other_region [OF assms(1,2)] mam_inv_release [OF assms(1)]
  by (auto simp: vreg_release_mams split: option.split)

lemma allocate_Some:
  assumes "vreg_allocate self n (Some g) r w = Some (Some rg, r', w', ms)" "vw_mem_of w g = Some k"
    and "inc = (if vr_incr r = 0 then min_incr r (vw_mem w k) else vr_incr r)"
  obtains a x ms1 w1 where
    "request_region (ucast (n * ucast inc * ucast (mem_n_bytes (vw_mem w k)))) None (vw_mam w g) = Some (Some rg, a, x, ms1)"
    "vw_mam w' = vw_mam (fst (snd (vreg_release self (r\<lparr>vr_incr := inc\<rparr>) (vput_mam g x w))))"
    "vr_incr r' = inc" "vr_offset r' = rg_start rg" "vr_mem r' = Some k" "vr_region r' = Some (g, rg)" "vr_size r' = n" "0 < unat n"
    "\<not> inc > min_incr r (vw_mem w k)"
proof -
  have r1: "(if vr_incr r = 0 then r\<lparr>vr_incr := min_incr r (vw_mem w k)\<rparr> else r) = r\<lparr>vr_incr := inc\<rparr>"
    using assms(3) by simp
  show ?thesis
    using assms(1) that unfolding vreg_allocate_def Let_def assms(2) option.case r1
    by (auto simp: split_beta word_less_nat_alt split: if_splits option.splits)
qed

text \<open>The region that is requested for an array: its bytes and its last location.\<close>

lemma array_region:
  assumes "0 < nb" "unat start + count \<le> 2 ^ 64" "0 < count" "count * unat nb < 2 ^ 32"
    and "bytes = (of_nat (count * unat nb) :: uint)" "cf_n_bytes cfg = nb"
  shows "unat (end_offset cfg start bytes) = unat start + (count - 1)"
proof -
  have "unat bytes = count * unat nb" using assms(4) by (simp only: assms(5) unsigned_of_nat) (simp add: take_bit_nat_eq_self)
  moreover have "0 < count * unat nb" using assms(1,3) by (simp add: unat_gt_0)
  ultimately have "unat (bytes - 1) = count * unat nb - 1" by (subst unat_minus_one) auto
  moreover have "(count * unat nb - 1) div unat nb = count - 1"
  proof (rule div_nat_eqI)
    have "unat nb > 0" using assms(1) by (simp add: unat_gt_0)
    then show "unat nb * (count - 1) \<le> count * unat nb - 1" "count * unat nb - 1 < unat nb * Suc (count - 1)"
      using assms(3) by (cases count; simp add: algebra_simps)+
  qed
  ultimately have "unat ((bytes - 1) div nb) = count - 1" by (simp add: unat_div)
  then have "(ucast ((bytes - 1) div nb) :: ulong) = of_nat (count - 1)" by (metis of_nat_unat)
  then show ?thesis using assms(2,3) unat_add_nat [of start "count - 1"] by (simp add: end_offset_def assms(6))
qed

lemma covers_nat: "covers rg = {a. unat (rg_start rg) \<le> unat a \<and> unat a \<le> unat (rg_end rg)}"
  by (auto simp: covers_def word_le_nat_alt)

lemma ucast_product:
  "(ucast (n * ucast i * ucast b :: ulong) :: uint) = of_nat (unat n * unat i * unat b)" for n :: ulong and i b :: uint
proof -
  have "n * ucast i * ucast b = (of_nat (unat n * unat i * unat b) :: ulong)" by simp
  then show ?thesis by (simp only: unsigned_of_nat word_of_nat_eq_iff) (simp add: take_bit_nat_def mod_mod_cancel)
qed

text \<open>The elements of an array of \<open>N\<close> elements of \<open>step\<close> locations each, from \<open>s\<close> on.\<close>

lemma array_index: "i < N \<Longrightarrow> j < step \<Longrightarrow> i * step + j < N * (step :: nat)"
  using mult_le_mono1 [of "Suc i" N step] by simp

lemma array_spans:
  assumes "unat (s :: addr) + N * step \<le> 2 ^ 64" "rg_start rg = s" "unat (rg_end rg) = unat s + (N * step - 1)" "i < N"
  shows "spans step (s + of_nat (i * step)) (covers rg)"
  unfolding spans_def add.assoc of_nat_add [symmetric]
proof (intro allI impI)
  fix j assume "j < step"
  then have "i * step + j < N * step" using array_index assms(4) by blast
  with assms(1) show "s + of_nat (i * step + j) \<in> covers rg"
    using unat_add_nat [of s "i * step + j"] by (simp add: covers_nat assms(2,3))
qed

lemma array_apart:
  assumes "N * step \<le> 2 ^ 64" "i < N" "j < N" "i \<noteq> j"
  shows "locations_of step (s + of_nat (i * step)) \<inter> locations_of step (s + of_nat (j * step)) = {}"
proof -
  have "i * step + p \<noteq> j * step + q" if "p < step" "q < step" for p q
  proof
    assume "i * step + p = j * step + q"
    then have "(i * step + p) div step = (j * step + q) div step" by simp
    with that assms(4) show False by simp
  qed
  then have "s + of_nat (i * step) + of_nat p \<noteq> s + of_nat (j * step) + of_nat q" if "p < step" "q < step" for p q
    using that array_index [OF assms(2), of p step] array_index [OF assms(3), of q step] assms(1)
      of_nat_addr_eq [of "i * step + p" "j * step + q"] unfolding add.assoc of_nat_add [symmetric] by simp
  then show ?thesis unfolding locations_of_def by blast
qed

text \<open>C12. Allocation: let the manager keep its invariant and count the bytes of its memory, let the bytes of
  the array fit an \<open>unsigned int\<close> and the offsets of the memory not wrap, and let the register bring no
  increment from an earlier implementation or one that is large enough for this memory (a smaller one
  is accepted, lemma \<open>allocate_overlap\<close>; a larger one refused). When \<open>allocate\<close> returns a region for
  \<open>n\<close> registers, the register lives in the memory of the manager, its region is in use, also after the old
  region has been released, and shares no location with another region in use; the locations of
  every element of the array lie in the region, and no two elements share a location.\<close>

theorem vreg_allocate_sound:
  assumes run: "vreg_allocate self n (Some g) r w = Some (Some rg, r', w', ms)"
    and mem: "vw_mem_of w g = Some k" "m = vw_mem w k" "x = vw_mam w g" "cf_n_bytes (mm_cfg x) = mem_n_bytes m"
    and inv: "mam_inv x" "\<forall>old. vr_region r = Some (g, old) \<longrightarrow> rg_id old < mm_next x"
    and incr: "vr_incr r = 0 \<or> min_incr r m \<le> vr_incr r" "step = unat (min_incr r m)"
    and fit: "unat n * step * unat (mem_n_bytes m) < 2 ^ 32" "unat (mp_start (mm_default_alloc x)) + unat n * step \<le> 2 ^ 64"
  shows "vr_mem r' = Some k \<and> vr_region r' = Some (g, rg) \<and> rg \<in> set (mm_in_use (vw_mam w' g)) \<and>
    (\<forall>other \<in> set (mm_in_use (vw_mam w' g)). other \<noteq> rg \<longrightarrow> covers other \<inter> covers rg = {}) \<and>
    (\<forall>i < unat n. spans step (array_base (of_nat i) r') (covers rg)) \<and>
    (\<forall>i < unat n. \<forall>j < unat n. i \<noteq> j \<longrightarrow>
       locations_of step (array_base (of_nat i) r') \<inter> locations_of step (array_base (of_nat j) r') = {})"
proof -
  let ?inc = "if vr_incr r = 0 then min_incr r (vw_mem w k) else vr_incr r"
  let ?s = "mp_start (mm_default_alloc x)" and ?count = "unat n * step"
  have "\<not> min_incr r m < ?inc"
    using run mem(1,2) by (auto simp: vreg_allocate_def Let_def min_incr_def vreg_n_bytes_def split: if_splits)
  then have inc: "?inc = min_incr r m" using incr(1) mem(2) by (auto simp: not_less)
  obtain a y ms1 where q:
    "request_region (ucast (n * ucast ?inc * ucast (mem_n_bytes (vw_mem w k)))) None (vw_mam w g) = Some (Some rg, a, y, ms1)"
    "vw_mam w' = vw_mam (fst (snd (vreg_release self (r\<lparr>vr_incr := ?inc\<rparr>) (vput_mam g y w))))"
    "vr_incr r' = ?inc" "vr_offset r' = rg_start rg" "vr_mem r' = Some k" "vr_region r' = Some (g, rg)" "0 < unat n"
    using allocate_Some [OF run mem(1) refl] by metis
  let ?bytes = "ucast (n * ucast ?inc * ucast (mem_n_bytes (vw_mem w k))) :: uint"
  have bytes: "?bytes = of_nat (?count * unat (mem_n_bytes m))"
    unfolding ucast_product using inc incr(2) mem(2) by simp
  obtain d where res: "reserve_region ?s ?bytes (x\<lparr>mm_default_alloc := d\<rparr>) = Some (Some rg, y, ms1)"
    using request_region_reserve [OF q(1)] mem(3) by (auto simp: policy_start_def)
  have nb: "cf_n_bytes (mm_cfg x) \<noteq> 0" "?bytes \<noteq> 0"
    using q(1) res mem(3) by (auto simp: request_region_def reserve_region_def split: if_splits)
  then have count: "0 < ?count" using bytes by (cases "?count = 0") auto
  have fin: "unat (end_offset (mm_cfg x) ?s ?bytes) = unat ?s + (?count - 1)"
    by (rule array_region [OF _ fit(2) count fit(1) bytes mem(4)]) (use nb(1) mem(4) in \<open>simp add: word_gt_0\<close>)
  then have "no_wrap (x\<lparr>mm_default_alloc := d\<rparr>) ?s ?bytes" by (simp add: no_wrap_def word_le_nat_alt)
  from reserve_region_cases [OF _ this res] inv(1)
  have y: "mam_inv y" "rg = new_region (x\<lparr>mm_default_alloc := d\<rparr>) ?s ?bytes" "rg \<in> set (mm_in_use y)" by auto
  then have rg: "rg_start rg = ?s" "unat (rg_end rg) = unat ?s + (?count - 1)" "rg_id rg = mm_next x" using fin by simp_all
  have kept: "mam_inv (vw_mam w' g)" "rg \<in> set (mm_in_use (vw_mam w' g))"
  proof -
    have "\<forall>g' old. vr_region (r\<lparr>vr_incr := ?inc\<rparr>) = Some (g', old) \<longrightarrow> rg_id old \<noteq> rg_id rg \<or> g' \<noteq> g"
      using inv(2) rg(3) by auto
    from vreg_release_keeps [where w = "vput_mam g y w" and g = g and self = self, OF _ _ this] y(1,3)
    show "mam_inv (vw_mam w' g)" "rg \<in> set (mm_in_use (vw_mam w' g))" unfolding q(2) by simp_all
  qed
  have base: "array_base (of_nat i) r' = ?s + of_nat (i * step)" for i
    using q(3,4) rg(1) inc incr(2) by (simp add: array_base_def)
  have "\<forall>i < unat n. spans step (array_base (of_nat i) r') (covers rg)"
    using array_spans [OF fit(2) rg(1,2)] by (simp add: base)
  moreover have "\<forall>i < unat n. \<forall>j < unat n. i \<noteq> j \<longrightarrow>
      locations_of step (array_base (of_nat i) r') \<inter> locations_of step (array_base (of_nat j) r') = {}"
    using array_apart [of "unat n" step] fit(2) unfolding base by simp
  moreover have "\<forall>other \<in> set (mm_in_use (vw_mam w' g)). other \<noteq> rg \<longrightarrow> covers other \<inter> covers rg = {}"
    using kept regions_disjoint by (auto simp: mam_inv_def)
  ultimately show ?thesis using q(5,6) kept by blast
qed

section \<open>Fields in order\<close>

text \<open>The fields of a register stay in the order of their lowest bits.\<close>

definition fields_sorted :: "vreg \<Rightarrow> bool" where
  "fields_sorted r \<longleftrightarrow> sorted (map vf_lsb (vr_fields r))"

lemma insert_vfield_None: "insert_vfield f i gs = None \<longleftrightarrow> (\<forall>g \<in> set gs. vf_lsb g \<le> vf_lsb f)"
  by (induction gs arbitrary: i) (auto simp: not_less)

lemma insert_vfield_Some:
  "insert_vfield f i gs = Some (k, hs) \<Longrightarrow>
     \<exists>as bs. gs = as @ bs \<and> hs = as @ f # bs \<and> k = i + length as + 1 \<and> bs \<noteq> [] \<and> vf_lsb f < vf_lsb (hd bs) \<and>
       (\<forall>g \<in> set as. vf_lsb g \<le> vf_lsb f)"
proof (induction gs arbitrary: i k hs)
  case (Cons g gs)
  show ?case
  proof (cases "vf_lsb f < vf_lsb g")
    case True
    with Cons.prems show ?thesis by (intro exI [of _ "[]"] exI [of _ "g # gs"]) auto
  next
    case False
    with Cons.prems obtain hs1 where h: "insert_vfield f (Suc i) gs = Some (k, hs1)" "hs = g # hs1"
      by (auto split: if_splits)
    from Cons.IH [OF h(1)] obtain as bs where "gs = as @ bs" "hs1 = as @ f # bs" "k = Suc i + length as + 1" "bs \<noteq> []"
      "vf_lsb f < vf_lsb (hd bs)" "\<forall>g \<in> set as. vf_lsb g \<le> vf_lsb f" by blast
    with h(2) False show ?thesis by (intro exI [of _ "g # as"] exI [of _ bs]) auto
  qed
qed simp

lemma add_field_fields:
  assumes "\<not> vr_locked r"
  obtains as bs where "vr_fields r = as @ bs" "vr_fields (fst (vreg_add_field f r)) = as @ f # bs"
    "\<forall>g \<in> set as. vf_lsb g \<le> vf_lsb f" "bs = [] \<or> vf_lsb f < vf_lsb (hd bs)"
proof (cases "insert_vfield f 0 (vr_fields r)")
  case None
  then show ?thesis
    using assms that [of "vr_fields r" "[]"] insert_vfield_None [of f 0 "vr_fields r"] by (auto simp: vreg_add_field_def Let_def)
next
  case (Some x)
  obtain k hs where x: "x = (k, hs)" by fastforce
  obtain as bs where "vr_fields r = as @ bs" "hs = as @ f # bs" "bs \<noteq> []" "vf_lsb f < vf_lsb (hd bs)"
    "\<forall>g \<in> set as. vf_lsb g \<le> vf_lsb f"
    using insert_vfield_Some [OF Some [unfolded x]] by blast
  with Some x assms that [of as bs] show ?thesis by (auto simp: vreg_add_field_def Let_def)
qed

lemma add_field_sorted: "fields_sorted r \<Longrightarrow> fields_sorted (fst (vreg_add_field f r))"
proof (cases "vr_locked r")
  case False
  assume "fields_sorted r"
  obtain as bs where s: "vr_fields r = as @ bs" "vr_fields (fst (vreg_add_field f r)) = as @ f # bs"
    "\<forall>g \<in> set as. vf_lsb g \<le> vf_lsb f" "bs = [] \<or> vf_lsb f < vf_lsb (hd bs)"
    using add_field_fields [OF False] by metis
  then have "\<forall>g \<in> set bs. vf_lsb f \<le> vf_lsb g"
    using \<open>fields_sorted r\<close> by (cases bs) (auto simp: fields_sorted_def sorted_append)
  with s \<open>fields_sorted r\<close> show ?thesis by (auto simp: fields_sorted_def sorted_append)
qed (simp add: vreg_add_field_def)

text \<open>A field that is inserted in front of another is always reported: the index is one too high, so the field is
  compared with itself.\<close>

lemma add_field_reports_itself:
  assumes "\<not> vr_locked r" "insert_vfield f 0 (vr_fields r) \<noteq> None" "vf_lsb f < vf_lsb f + vf_size f"
  shows "(UVM_ERROR, ''RegModel'') \<in> set (snd (vreg_add_field f r))"
proof -
  obtain k hs where x: "insert_vfield f 0 (vr_fields r) = Some (k, hs)" using assms(2) by fastforce
  obtain as bs where "hs = as @ f # bs" "k = length as + 1" using insert_vfield_Some [OF x] by auto
  then have "hs ! (k - 1) = f" "0 < k" by simp_all
  then show ?thesis using assms(1,3) x by (simp add: vreg_add_field_def Let_def)
qed

section \<open>Implementing a register\<close>

text \<open>\<open>implement\<close> of a register that has no region never succeeds. When the checks pass, the region stays reserved.\<close>

lemma implement_without_region:
  assumes "vr_region r = None" "vreg_implement self n (Some k) offset incr r w = Some (b, r', w', ms)"
  shows "\<not> b \<and> r' = r \<and> (UVM_ERROR, ''RegModel'') \<in> set ms \<and>
    (w' = w \<or> (\<exists>g inc region x ms'. vw_mam_of w k = Some g \<and> min_incr r (vw_mem w k) \<le> inc \<and>
       reserve_region offset (ucast (n * ucast inc * ucast (mem_n_bytes (vw_mem w k)))) (vw_mam w g) = Some (region, x, ms') \<and>
       w' = vput_mam g x w))"
  using assms(2) unfolding vreg_implement_def Let_def assms(1)
  by (simp only: option.case simp_thms if_True split: if_split_asm option.split_asm prod.split_asm) (auto simp: not_less)

text \<open>The increment of an earlier memory is kept, also when it is too small for the new one: the test
  of the increment is the wrong way round. The elements of the array then overlap.\<close>

lemma allocate_overlap:
  assumes "vreg_allocate self n (Some g) r w = Some (Some rg, r', w', ms)" "vw_mem_of w g = Some k"
    and "vr_incr r \<noteq> 0" "vr_incr r < min_incr r (vw_mem w k)" "step = unat (min_incr r (vw_mem w k))"
  shows "locations_of step (array_base 0 r') \<inter> locations_of step (array_base 1 r') \<noteq> {}"
proof -
  have "vr_incr r' = vr_incr r" using allocate_Some [OF assms(1,2) refl] assms(3) by metis
  then have b: "array_base 1 r' = array_base 0 r' + of_nat (unat (vr_incr r))" by (simp add: array_base_def)
  have "unat (vr_incr r) < step" using assms(4,5) by (simp add: word_less_nat_alt)
  then have "array_base 1 r' \<in> locations_of step (array_base 0 r')" "array_base 1 r' \<in> locations_of step (array_base 1 r')"
    unfolding locations_of_def using b by (auto intro: image_eqI [of _ _ 0] image_eqI [of _ _ "unat (vr_incr r)"])
  then show ?thesis by blast
qed

text \<open>A block of one memory of 16 bytes, its manager, and a register of 24 bits.\<close>

definition byte_cfg :: mem_mam_cfg where
  "byte_cfg = \<lparr>cf_n_bytes = 1, cf_start = 0, cf_end = 15, cf_mode = GREEDY, cf_locality = BROAD\<rparr>"

definition byte_world :: vreg_world where
  "byte_world = \<lparr>vw_mem = (\<lambda>_. byte_mem), vw_block = (\<lambda>_. Some 5), vw_mam = (\<lambda>_. new_mem_mam byte_cfg True),
     vw_mam_of = Some, vw_mem_of = Some\<rparr>"

definition small_vreg :: vreg where
  "small_vreg = (fst (new_vreg ''small'' 24))\<lparr>vr_parent := Some 5\<rparr>"

lemma byte_cfg_of_mem: "me_mam_cfg byte_mem = Some byte_cfg"
  by code_simp

lemma small_facts:
  "min_incr small_vreg byte_mem = 3" "mem_n_bytes byte_mem = 1" "vr_incr small_vreg = 0" "vr_static small_vreg = False"
  "vr_parent small_vreg = Some 5" "vr_region small_vreg = None" "vr_mem small_vreg = None" "me_size byte_mem = 16"
  by code_simp+

lemma small_allocated:
  "\<exists>r' w' ms. vreg_allocate 7 3 (Some 0) small_vreg byte_world = Some (Some (region_of 0 0 8 9), r', w', ms)"
  by (simp add: vreg_allocate_def byte_world_def small_facts request_region_def reserve_region_def new_region_def
      end_offset_def region_of_def new_mem_mam_def new_mam_policy_def fill_policy_def byte_cfg_def Let_def split_beta)

theorem vreg_allocate_sound_witness:
  "\<exists>r' w' ms. vreg_allocate 7 3 (Some 0) small_vreg byte_world = Some (Some (region_of 0 0 8 9), r', w', ms) \<and>
    vr_mem r' = Some 0 \<and> spans 3 (array_base 2 r') (covers (region_of 0 0 8 9)) \<and>
    locations_of 3 (array_base 0 r') \<inter> locations_of 3 (array_base 2 r') = {}"
proof -
  obtain r' w' ms where a: "vreg_allocate 7 3 (Some 0) small_vreg byte_world = Some (Some (region_of 0 0 8 9), r', w', ms)"
    using small_allocated by blast
  have c: "vw_mem_of byte_world 0 = Some 0" "vw_mem byte_world 0 = byte_mem"
    "vw_mam byte_world 0 = new_mem_mam byte_cfg True"
    "cf_n_bytes (mm_cfg (new_mem_mam byte_cfg True)) = mem_n_bytes (vw_mem byte_world 0)"
    by (simp_all add: byte_world_def new_mem_mam_def byte_cfg_def small_facts(2))
  have n: "unat (3 :: ulong) = 3" "of_nat 2 = (2 :: ulong)" "of_nat 0 = (0 :: ulong)" by simp_all
  note s = vreg_allocate_sound [OF a c(1) refl c(3) [symmetric] c(4) mam_inv_new, where step = 3]
  have "vr_mem r' = Some 0 \<and> (\<forall>i < unat (3 :: ulong). spans 3 (array_base (of_nat i) r') (covers (region_of 0 0 8 9))) \<and>
      (\<forall>i < unat (3 :: ulong). \<forall>j < unat (3 :: ulong). i \<noteq> j \<longrightarrow>
        locations_of 3 (array_base (of_nat i) r') \<inter> locations_of 3 (array_base (of_nat j) r') = {})"
    using s by (simp add: c(2) small_facts new_mem_mam_def new_mam_policy_def)
  then have "vr_mem r' = Some 0" and sp: "\<forall>i < unat (3 :: ulong). spans 3 (array_base (of_nat i) r') (covers (region_of 0 0 8 9))"
    and ap: "\<forall>i < unat (3 :: ulong). \<forall>j < unat (3 :: ulong). i \<noteq> j \<longrightarrow>
        locations_of 3 (array_base (of_nat i) r') \<inter> locations_of 3 (array_base (of_nat j) r') = {}" by blast+
  with a sp [rule_format, of 2] ap [rule_format, of 0 2] show ?thesis by auto
qed

text \<open>\<open>implement\<close> for the same register reports an error and leaves its region behind.\<close>

lemma implement_leaks:
  "\<exists>w' ms. vreg_implement 7 3 (Some 0) 0 0 small_vreg byte_world = Some (False, small_vreg, w', ms) \<and>
     mm_in_use (vw_mam w' 0) = [region_of 0 0 8 9]"
  by (simp add: vreg_implement_def byte_world_def small_facts reserve_region_def new_region_def vput_mam_def
      end_offset_def region_of_def new_mem_mam_def byte_cfg_def Let_def)

end
