(* ===== verification/Vreg_Access.thy ===== *)
theory Vreg_Access
  imports Reg_Vreg
begin

text \<open>
  \<open>src/uvmsc/reg/uvm_vreg.cpp\<close> and \<open>uvm_vreg_field.cpp\<close>: how virtual registers and their fields are
  accessed, as writes, reads, pokes and peeks of the locations of their memory. The loops are defined over
  one write and one read of a location, which are those of \<open>uvm_mem\<close> by the frontdoor (\<open>front_write\<close>,
  \<open>front_read\<close>) or the backdoor (\<open>back_write\<close>, \<open>back_read\<close>). The locale \<open>locations\<close> is what they rely on.
\<close>

section \<open>Accesses\<close>

text \<open>
  The hooks of the user, each the method and the callbacks in the order of the source: they may change the
  data, the path and the map, or the status. \<open>vh_default_path\<close> is the default path of the block
  of the register. The local \<open>tmp\<close> of an access starts at zero and keeps its value over a failed peek.
\<close>

type_synonym route = "data \<times> uvm_path_e \<times> map_id option"

record vreg_hooks =
  vh_default_path :: uvm_path_e
  vh_field_pre_write :: "vreg_field \<Rightarrow> ulong \<Rightarrow> route \<Rightarrow> route"
  vh_field_post_write :: "vreg_field \<Rightarrow> ulong \<Rightarrow> data \<Rightarrow> uvm_path_e \<Rightarrow> map_id option \<Rightarrow> uvm_status_e \<Rightarrow> uvm_status_e"
  vh_field_pre_read :: "vreg_field \<Rightarrow> ulong \<Rightarrow> uvm_path_e \<times> map_id option \<Rightarrow> uvm_path_e \<times> map_id option"
  vh_field_post_read :: "vreg_field \<Rightarrow> ulong \<Rightarrow> uvm_path_e \<Rightarrow> map_id option \<Rightarrow> data \<times> uvm_status_e \<Rightarrow> data \<times> uvm_status_e"
  vh_pre_write :: "ulong \<Rightarrow> route \<Rightarrow> route"
  vh_post_write :: "ulong \<Rightarrow> data \<Rightarrow> uvm_path_e \<Rightarrow> map_id option \<Rightarrow> uvm_status_e \<Rightarrow> uvm_status_e"
  vh_pre_read :: "ulong \<Rightarrow> uvm_path_e \<times> map_id option \<Rightarrow> uvm_path_e \<times> map_id option"
  vh_post_read :: "ulong \<Rightarrow> uvm_path_e \<Rightarrow> map_id option \<Rightarrow> data \<times> uvm_status_e \<Rightarrow> data \<times> uvm_status_e"

type_synonym 's loc_write = "addr \<Rightarrow> data \<Rightarrow> 's \<Rightarrow> (uvm_status_e \<times> 's \<times> msg list) option"
type_synonym 's loc_read = "addr \<Rightarrow> data \<Rightarrow> 's \<Rightarrow> (uvm_status_e \<times> data \<times> 's \<times> msg list) option"

definition front_write :: "'h mem_env \<Rightarrow> uvm_path_e \<Rightarrow> map_id option \<Rightarrow> (uvm_mem \<times> 'h) loc_write" where
  "front_write env path mp a v = (\<lambda>(m, h). map_option (\<lambda>(s, m, h, ms). (s, (m, h), ms)) (mem_write env a v path mp m h))"

definition front_read :: "'h mem_env \<Rightarrow> uvm_path_e \<Rightarrow> map_id option \<Rightarrow> (uvm_mem \<times> 'h) loc_read" where
  "front_read env path mp a t = (\<lambda>(m, h). map_option (\<lambda>(s, v, m, h, ms). (s, v, (m, h), ms)) (mem_read env a path mp m h))"

definition back_write :: "'h mem_env \<Rightarrow> (uvm_mem \<times> 'h) loc_write" where
  "back_write env a v = (\<lambda>(m, h). map_option (\<lambda>(s, m, h, ms). (s, (m, h), ms)) (mem_poke env a v [] m h))"

definition back_read :: "'h mem_env \<Rightarrow> (uvm_mem \<times> 'h) loc_read" where
  "back_read env a t = (\<lambda>(m, h). map_option (\<lambda>(s, v, m, h, ms). (s, v, (m, h), ms)) (mem_peek env a t [] m h))"

definition failed :: "uvm_status_e \<Rightarrow> bool" where
  "failed s \<longleftrightarrow> s \<noteq> UVM_IS_OK \<and> s \<noteq> UVM_HAS_X"

text \<open>\<open>write\<close> and \<open>read\<close> keep the last failure; \<open>poke\<close> and \<open>peek\<close> keep the status of the last location.\<close>

definition keep_failure :: "uvm_status_e \<Rightarrow> uvm_status_e \<Rightarrow> uvm_status_e" where
  "keep_failure st x = (if failed x then x else st)"

definition keep_last :: "uvm_status_e \<Rightarrow> uvm_status_e \<Rightarrow> uvm_status_e" where
  "keep_last st x = x"

definition seg_bits :: "uvm_mem \<Rightarrow> nat" where
  "seg_bits m = unat (mem_n_bytes m * 8)"

definition add_msgs :: "msg list \<Rightarrow> 'a \<times> 's \<times> msg list \<Rightarrow> 'a \<times> 's \<times> msg list" where
  "add_msgs ms = (\<lambda>(x, s, ms'). (x, s, ms @ ms'))"

text \<open>The loops over the locations of a register. A shift by 64 or more is undefined: a register of more than 64 bits
  cannot be accessed.\<close>

primrec write_locs ::
    "'s loc_write \<Rightarrow> (uvm_status_e \<Rightarrow> uvm_status_e \<Rightarrow> uvm_status_e) \<Rightarrow> addr \<Rightarrow> nat \<Rightarrow> data \<Rightarrow> nat list \<Rightarrow> uvm_status_e \<Rightarrow> 's
      \<Rightarrow> (uvm_status_e \<times> 's \<times> msg list) option" where
  "write_locs wr join a seg v [] st s = Some (st, s, [])"
| "write_locs wr join a seg v (i # is) st s =
     (if i * seg \<ge> 64 then None
      else case wr (a + of_nat i) (drop_bit (i * seg) (v AND push_bit (i * seg) (uvm_mask_size seg))) s of
        None \<Rightarrow> None
      | Some (x, s1, ms) \<Rightarrow> map_option (add_msgs ms) (write_locs wr join a seg v is (join st x) s1))"

primrec read_locs ::
    "'s loc_read \<Rightarrow> (uvm_status_e \<Rightarrow> uvm_status_e \<Rightarrow> uvm_status_e) \<Rightarrow> addr \<Rightarrow> nat \<Rightarrow> nat list \<Rightarrow> data \<Rightarrow> data \<Rightarrow> uvm_status_e \<Rightarrow> 's
      \<Rightarrow> ((uvm_status_e \<times> data) \<times> 's \<times> msg list) option" where
  "read_locs rd join a seg [] t v st s = Some ((st, v), s, [])"
| "read_locs rd join a seg (i # is) t v st s =
     (if i * seg \<ge> 64 then None
      else case rd (a + of_nat i) t s of
        None \<Rightarrow> None
      | Some (x, t1, s1, ms) \<Rightarrow>
          map_option (add_msgs ms) (read_locs rd join a seg is t1 (v OR push_bit (i * seg) t1) (join st x) s1))"

definition vfield_mask :: "vreg_field \<Rightarrow> data" where
  "vfield_mask f = push_bit (unat (vf_lsb f)) (uvm_mask_size (unat (vf_size f)))"

definition field_slice :: "vreg_field \<Rightarrow> data \<Rightarrow> data" where
  "field_slice f v = drop_bit (unat (vf_lsb f)) (v AND vfield_mask f)"

definition put_slice :: "vreg_field \<Rightarrow> data \<Rightarrow> data \<Rightarrow> data" where
  "put_slice f v t = (v AND NOT (vfield_mask f)) OR push_bit (unat (vf_lsb f)) t"

primrec fields_pre_write :: "vreg_hooks \<Rightarrow> ulong \<Rightarrow> vreg_field list \<Rightarrow> route \<Rightarrow> route" where
  "fields_pre_write hk idx [] rt = rt"
| "fields_pre_write hk idx (f # fs) rt =
     (let (v, path, mp) = rt; (t, path1, mp1) = vh_field_pre_write hk f idx (field_slice f v, path, mp)
      in fields_pre_write hk idx fs (put_slice f v t, path1, mp1))"

primrec fields_post_write ::
    "vreg_hooks \<Rightarrow> ulong \<Rightarrow> vreg_field list \<Rightarrow> data \<Rightarrow> uvm_path_e \<Rightarrow> map_id option \<Rightarrow> uvm_status_e \<Rightarrow> uvm_status_e" where
  "fields_post_write hk idx [] v path mp st = st"
| "fields_post_write hk idx (f # fs) v path mp st =
     fields_post_write hk idx fs (put_slice f v (field_slice f v)) path mp
       (vh_field_post_write hk f idx (field_slice f v) path mp st)"

primrec fields_pre_read ::
    "vreg_hooks \<Rightarrow> ulong \<Rightarrow> vreg_field list \<Rightarrow> uvm_path_e \<times> map_id option \<Rightarrow> uvm_path_e \<times> map_id option" where
  "fields_pre_read hk idx [] rt = rt"
| "fields_pre_read hk idx (f # fs) rt = fields_pre_read hk idx fs (vh_field_pre_read hk f idx rt)"

primrec fields_post_read ::
    "vreg_hooks \<Rightarrow> ulong \<Rightarrow> vreg_field list \<Rightarrow> uvm_path_e \<Rightarrow> map_id option \<Rightarrow> data \<times> uvm_status_e \<Rightarrow> data \<times> uvm_status_e" where
  "fields_post_read hk idx [] path mp x = x"
| "fields_post_read hk idx (f # fs) path mp x =
     (let (v, st) = x; (t, st1) = vh_field_post_read hk f idx path mp (field_slice f v, st)
      in fields_post_read hk idx fs path mp (put_slice f v t, st1))"

definition default_path :: "vreg_hooks \<Rightarrow> uvm_path_e \<Rightarrow> uvm_path_e" where
  "default_path hk path = (if path = UVM_DEFAULT_PATH then vh_default_path hk else path)"

definition vreg_write ::
    "(nat \<Rightarrow> 'h mem_env) \<Rightarrow> vreg_hooks \<Rightarrow> ulong \<Rightarrow> data \<Rightarrow> uvm_path_e \<Rightarrow> map_id option \<Rightarrow> vreg \<Rightarrow> (nat \<Rightarrow> uvm_mem) \<Rightarrow> 'h
      \<Rightarrow> (uvm_status_e \<times> vreg \<times> (nat \<Rightarrow> uvm_mem) \<times> 'h \<times> msg list) option" where
  "vreg_write env hk idx v path mp r mem h =
     (case vr_mem r of
        None \<Rightarrow> Some (UVM_NOT_OK, r\<lparr>vr_writing := True\<rparr>, mem, h, [(UVM_ERROR, ''RegModel'')])
      | Some k \<Rightarrow>
          let (v1, path1, mp1) = vh_pre_write hk idx (fields_pre_write hk idx (vr_fields r) (v, default_path hk path, mp))
          in case write_locs (front_write (env k) path1 mp1) keep_failure (array_base idx r) (seg_bits (mem k)) v1
                    [0..<unat (min_incr r (mem k))] UVM_IS_OK (mem k, h) of
               None \<Rightarrow> None
             | Some (st, (m, h1), ms) \<Rightarrow>
                 Some (fields_post_write hk idx (vr_fields r) v1 path1 mp1 (vh_post_write hk idx v1 path1 mp1 st),
                       r\<lparr>vr_writing := False\<rparr>, mem(k := m), h1, ms))"

definition vreg_read ::
    "(nat \<Rightarrow> 'h mem_env) \<Rightarrow> vreg_hooks \<Rightarrow> ulong \<Rightarrow> data \<Rightarrow> uvm_path_e \<Rightarrow> map_id option \<Rightarrow> vreg \<Rightarrow> (nat \<Rightarrow> uvm_mem) \<Rightarrow> 'h
      \<Rightarrow> (uvm_status_e \<times> data \<times> vreg \<times> (nat \<Rightarrow> uvm_mem) \<times> 'h \<times> msg list) option" where
  "vreg_read env hk idx out path mp r mem h =
     (case vr_mem r of
        None \<Rightarrow> Some (UVM_NOT_OK, out, r\<lparr>vr_reading := True\<rparr>, mem, h, [(UVM_ERROR, ''RegModel'')])
      | Some k \<Rightarrow>
          let (path1, mp1) = vh_pre_read hk idx (fields_pre_read hk idx (vr_fields r) (default_path hk path, mp))
          in case read_locs (front_read (env k) path1 mp1) keep_failure (array_base idx r) (seg_bits (mem k))
                    [0..<unat (min_incr r (mem k))] 0 0 UVM_IS_OK (mem k, h) of
               None \<Rightarrow> None
             | Some ((st, v), (m, h1), ms) \<Rightarrow>
                 let (v1, st1) = fields_post_read hk idx (vr_fields r) path1 mp1 (vh_post_read hk idx path1 mp1 (v, st))
                 in Some (st1, v1, r\<lparr>vr_reading := False\<rparr>, mem(k := m), h1, ms))"

definition vreg_poke ::
    "(nat \<Rightarrow> 'h mem_env) \<Rightarrow> ulong \<Rightarrow> data \<Rightarrow> vreg \<Rightarrow> (nat \<Rightarrow> uvm_mem) \<Rightarrow> 'h
      \<Rightarrow> (uvm_status_e \<times> (nat \<Rightarrow> uvm_mem) \<times> 'h \<times> msg list) option" where
  "vreg_poke env idx v r mem h =
     (case vr_mem r of
        None \<Rightarrow> Some (UVM_NOT_OK, mem, h, [(UVM_ERROR, ''RegModel'')])
      | Some k \<Rightarrow>
          map_option (\<lambda>(st, (m, h1), ms). (st, mem(k := m), h1, ms))
            (write_locs (back_write (env k)) keep_last (array_base idx r) (seg_bits (mem k)) v
               [0..<unat (min_incr r (mem k))] UVM_IS_OK (mem k, h)))"

definition vreg_peek ::
    "(nat \<Rightarrow> 'h mem_env) \<Rightarrow> ulong \<Rightarrow> data \<Rightarrow> vreg \<Rightarrow> (nat \<Rightarrow> uvm_mem) \<Rightarrow> 'h
      \<Rightarrow> (uvm_status_e \<times> data \<times> (nat \<Rightarrow> uvm_mem) \<times> 'h \<times> msg list) option" where
  "vreg_peek env idx out r mem h =
     (case vr_mem r of
        None \<Rightarrow> Some (UVM_NOT_OK, out, mem, h, [(UVM_ERROR, ''RegModel'')])
      | Some k \<Rightarrow>
          map_option (\<lambda>((st, v), (m, h1), ms). (st, v, mem(k := m), h1, ms))
            (read_locs (back_read (env k)) keep_last (array_base idx r) (seg_bits (mem k))
               [0..<unat (min_incr r (mem k))] 0 0 UVM_IS_OK (mem k, h)))"

section \<open>Accesses to a field\<close>

text \<open>
  A field is written by reading, modifying and writing the locations it lies in: \<open>rmw\<close> takes the place of the
  field in the first of them, the number of its bits, and the value. The first component of the result says
  that the operation came to its end. A value that is wider than the field is reported by the caller. For a
  field or a memory of 64 bits or more the source shifts by 64 or more, which is undefined; here everything is
  shifted out.
\<close>

primrec write_segs ::
    "'s loc_write \<Rightarrow> nat \<Rightarrow> addr \<Rightarrow> data \<Rightarrow> nat \<Rightarrow> uvm_status_e \<Rightarrow> 's \<Rightarrow> (uvm_status_e \<times> 's \<times> msg list) option" where
  "write_segs wr seg a t 0 st s = Some (st, s, [])"
| "write_segs wr seg a t (Suc n) st s =
     (case wr a t s of
        None \<Rightarrow> None
      | Some (x, s1, ms) \<Rightarrow>
          map_option (add_msgs ms) (write_segs wr seg (a + 1) (drop_bit seg t) n (if failed x then UVM_NOT_OK else st) s1))"

definition read_if :: "bool \<Rightarrow> 's loc_read \<Rightarrow> addr \<Rightarrow> data \<Rightarrow> 's \<Rightarrow> (uvm_status_e \<times> data \<times> 's \<times> msg list) option" where
  "read_if b rd a t s = (if b then rd a t s else Some (UVM_IS_OK, t, s, []))"

definition rmw ::
    "'s loc_read \<Rightarrow> 's loc_write \<Rightarrow> nat \<Rightarrow> nat \<Rightarrow> nat \<Rightarrow> addr \<Rightarrow> data \<Rightarrow> 's
      \<Rightarrow> (bool \<times> uvm_status_e \<times> data \<times> 's \<times> msg list) option" where
  "rmw rd wr seg low sz a v s =
     (case read_if (low > 0) rd a 0 s of
        None \<Rightarrow> None
      | Some (x, t, s1, ms1) \<Rightarrow>
          if failed x then Some (False, UVM_NOT_OK, v, s1, ms1 @ [(UVM_ERROR, ''RegModel'')])
          else
            let v1 = (if low > 0 then push_bit low v OR (t AND uvm_mask_size low) else v);
                n = (low + sz - 1) div seg + 1;
                high = (low + sz) mod seg
            in (case read_if (high > 0) rd (a + of_nat (n - 1)) t s1 of
                  None \<Rightarrow> None
                | Some (x, t2, s2, ms2) \<Rightarrow>
                    if failed x then Some (False, UVM_NOT_OK, v1, s2, ms1 @ ms2 @ [(UVM_ERROR, ''RegModel'')])
                    else
                      let v2 = (if high > 0 then v1 OR push_bit ((n - 1) * seg) (t2 AND NOT (uvm_mask_size high)) else v1)
                      in map_option (\<lambda>(st, s3, ms3). (True, st, v2, s3, ms1 @ ms2 @ ms3))
                           (write_segs wr seg a v2 n UVM_IS_OK s2)))"

primrec read_segs ::
    "'s loc_read \<Rightarrow> nat \<Rightarrow> addr \<Rightarrow> nat \<Rightarrow> data \<Rightarrow> data \<Rightarrow> uvm_status_e \<Rightarrow> 's
      \<Rightarrow> ((uvm_status_e \<times> data) \<times> 's \<times> msg list) option" where
  "read_segs rd seg a 0 t v st s = Some ((st, v), s, [])"
| "read_segs rd seg a (Suc n) t v st s =
     (case rd a t s of
        None \<Rightarrow> None
      | Some (x, t1, s1, ms) \<Rightarrow>
          map_option (add_msgs ms)
            (read_segs rd seg (a - 1) n t1 (push_bit seg v OR t1) (if failed x then UVM_NOT_OK else st) s1))"

definition gather ::
    "'s loc_read \<Rightarrow> nat \<Rightarrow> nat \<Rightarrow> nat \<Rightarrow> addr \<Rightarrow> 's \<Rightarrow> ((uvm_status_e \<times> data) \<times> 's \<times> msg list) option" where
  "gather rd seg low sz a s =
     (let n = (low + sz - 1) div seg + 1
      in map_option (\<lambda>((st, v), s, ms). ((st, drop_bit low v AND uvm_mask_size sz), s, ms))
           (read_segs rd seg (a + of_nat (n - 1)) n 0 0 UVM_IS_OK s))"

text \<open>The value to write, cut to the field, and the place of the field: in its first location, and that location.\<close>

definition cut_value :: "vreg_field \<Rightarrow> data \<Rightarrow> data \<times> msg list" where
  "cut_value f v =
     (if drop_bit (unat (vf_size f)) v \<noteq> 0
      then (v AND (v AND uvm_mask_size (unat (vf_size f))), [(UVM_WARNING, ''RegModel'')])
      else (v, []))"

definition field_low :: "nat \<Rightarrow> vreg_field \<Rightarrow> nat" where
  "field_low seg f = unat (vf_lsb f) mod seg"

definition field_loc :: "nat \<Rightarrow> ulong \<Rightarrow> vreg_field \<Rightarrow> vreg \<Rightarrow> addr" where
  "field_loc seg idx f r = fst (offset_in_memory idx r) + of_nat (unat (vf_lsb f) div seg)"

definition vfield_write ::
    "(nat \<Rightarrow> 'h mem_env) \<Rightarrow> vreg_hooks \<Rightarrow> ulong \<Rightarrow> data \<Rightarrow> uvm_path_e \<Rightarrow> map_id option \<Rightarrow> vreg_field \<Rightarrow> vreg \<Rightarrow> (nat \<Rightarrow> uvm_mem)
      \<Rightarrow> 'h \<Rightarrow> (uvm_status_e \<times> vreg_field \<times> (nat \<Rightarrow> uvm_mem) \<times> 'h \<times> msg list) option" where
  "vfield_write env hk idx v path mp f r mem h =
     (case vr_mem r of
        None \<Rightarrow> Some (UVM_NOT_OK, f\<lparr>vf_writing := True\<rparr>, mem, h, [(UVM_ERROR, ''RegModel'')])
      | Some k \<Rightarrow>
          if seg_bits (mem k) = 0 then None
          else
            let seg = seg_bits (mem k);
                (v1, ms1) = cut_value f v;
                (v2, path1, mp1) = vh_field_pre_write hk f idx (v1, default_path hk path, mp);
                (b, m1) = mem_get_backdoor (env k) (mem k);
                rm_path = (if b then UVM_BACKDOOR else UVM_DEFAULT_PATH)
            in (case rmw (front_read (env k) rm_path mp1) (front_write (env k) path1 mp1) seg (field_low seg f)
                       (unat (vf_size f)) (field_loc seg idx f r) v2 (m1, h) of
                  None \<Rightarrow> None
                | Some (False, st, _, (m2, h1), ms2) \<Rightarrow> Some (st, f\<lparr>vf_writing := True\<rparr>, mem(k := m2), h1, ms1 @ ms2)
                | Some (True, st, v3, (m2, h1), ms2) \<Rightarrow>
                    Some (vh_field_post_write hk f idx v3 path1 mp1 st, f\<lparr>vf_writing := False\<rparr>, mem(k := m2), h1, ms1 @ ms2)))"

definition vfield_read ::
    "(nat \<Rightarrow> 'h mem_env) \<Rightarrow> vreg_hooks \<Rightarrow> ulong \<Rightarrow> data \<Rightarrow> uvm_path_e \<Rightarrow> map_id option \<Rightarrow> vreg_field \<Rightarrow> vreg \<Rightarrow> (nat \<Rightarrow> uvm_mem)
      \<Rightarrow> 'h \<Rightarrow> (uvm_status_e \<times> data \<times> vreg_field \<times> (nat \<Rightarrow> uvm_mem) \<times> 'h \<times> msg list) option" where
  "vfield_read env hk idx out path mp f r mem h =
     (case vr_mem r of
        None \<Rightarrow> Some (UVM_NOT_OK, out, f\<lparr>vf_reading := True\<rparr>, mem, h, [(UVM_ERROR, ''RegModel'')])
      | Some k \<Rightarrow>
          if seg_bits (mem k) = 0 then None
          else
            let seg = seg_bits (mem k);
                (path1, mp1) = vh_field_pre_read hk f idx (default_path hk path, mp)
            in (case gather (front_read (env k) path1 mp1) seg (field_low seg f) (unat (vf_size f)) (field_loc seg idx f r)
                       (mem k, h) of
                  None \<Rightarrow> None
                | Some ((st, v), (m1, h1), ms) \<Rightarrow>
                    let (v1, st1) = vh_field_post_read hk f idx path1 mp1 (v, st)
                    in Some (st1, v1, f\<lparr>vf_reading := False\<rparr>, mem(k := m1), h1, ms)))"

definition vfield_poke ::
    "(nat \<Rightarrow> 'h mem_env) \<Rightarrow> ulong \<Rightarrow> data \<Rightarrow> vreg_field \<Rightarrow> vreg \<Rightarrow> (nat \<Rightarrow> uvm_mem) \<Rightarrow> 'h
      \<Rightarrow> (uvm_status_e \<times> (nat \<Rightarrow> uvm_mem) \<times> 'h \<times> msg list) option" where
  "vfield_poke env idx v f r mem h =
     (case vr_mem r of
        None \<Rightarrow> Some (UVM_NOT_OK, mem, h, [(UVM_ERROR, ''RegModel'')])
      | Some k \<Rightarrow>
          if seg_bits (mem k) = 0 then None
          else
            let seg = seg_bits (mem k); (v1, ms1) = cut_value f v
            in map_option (\<lambda>(b, st, _, (m, h1), ms). (st, mem(k := m), h1, ms1 @ ms))
                 (rmw (back_read (env k)) (back_write (env k)) seg (field_low seg f) (unat (vf_size f)) (field_loc seg idx f r)
                    v1 (mem k, h)))"

definition vfield_peek ::
    "(nat \<Rightarrow> 'h mem_env) \<Rightarrow> ulong \<Rightarrow> data \<Rightarrow> vreg_field \<Rightarrow> vreg \<Rightarrow> (nat \<Rightarrow> uvm_mem) \<Rightarrow> 'h
      \<Rightarrow> (uvm_status_e \<times> data \<times> (nat \<Rightarrow> uvm_mem) \<times> 'h \<times> msg list) option" where
  "vfield_peek env idx out f r mem h =
     (case vr_mem r of
        None \<Rightarrow> Some (UVM_NOT_OK, out, mem, h, [(UVM_ERROR, ''RegModel'')])
      | Some k \<Rightarrow>
          if seg_bits (mem k) = 0 then None
          else
            let seg = seg_bits (mem k)
            in map_option (\<lambda>((st, v), (m, h1), ms). (st, v, mem(k := m), h1, ms))
                 (gather (back_read (env k)) seg (field_low seg f) (unat (vf_size f)) (field_loc seg idx f r) (mem k, h)))"

section \<open>Locations\<close>

text \<open>
  The interface between a register and the locations of its memory: in the states that are \<open>ok\<close>, the
  locations \<open>locs\<close> hold \<open>seg\<close> bits each, a write changes one of them and a read returns it.
\<close>

definition vbit :: "('s \<Rightarrow> addr \<Rightarrow> data) \<Rightarrow> nat \<Rightarrow> addr \<Rightarrow> 's \<Rightarrow> nat \<Rightarrow> bool" where
  "vbit look seg a s j \<longleftrightarrow> bit (look s (a + of_nat (j div seg))) (j mod seg)"

lemma vbit_shift: "0 < seg \<Longrightarrow> vbit look seg (a + of_nat q) s j = vbit look seg a s (q * seg + j)"
  by (simp add: vbit_def add.assoc)

lemma inj_locs: "n \<le> 2 ^ 64 \<Longrightarrow> inj_on (\<lambda>i. a + of_nat i :: addr) {..<n}"
  by (auto simp: inj_on_def of_nat_addr_eq)

locale locations =
  fixes ok :: "'s \<Rightarrow> bool" and locs :: "addr set" and seg :: nat
    and wr :: "'s loc_write" and rd :: "'s loc_read" and look :: "'s \<Rightarrow> addr \<Rightarrow> data"
  assumes wr: "ok s \<Longrightarrow> a \<in> locs \<Longrightarrow> \<exists>s'. wr a v s = Some (UVM_IS_OK, s', []) \<and> ok s' \<and>
      (\<forall>b \<in> locs. look s' b = (if b = a then v AND mask seg else look s b))"
    and rd: "ok s \<Longrightarrow> a \<in> locs \<Longrightarrow> \<exists>s'. rd a t s = Some (UVM_IS_OK, look s a, s', []) \<and> ok s' \<and>
      (\<forall>b \<in> locs. look s' b = look s b)"
    and seg: "ok s \<Longrightarrow> 0 < seg"
    and narrow: "ok s \<Longrightarrow> a \<in> locs \<Longrightarrow> look s a AND mask seg = look s a"
begin

lemma look_bit: "ok s \<Longrightarrow> a \<in> locs \<Longrightarrow> bit (look s a) j \<Longrightarrow> j < seg"
  by (metis bit_and_iff bit_mask_iff narrow)

lemma write_locs_exact:
  assumes "join UVM_IS_OK UVM_IS_OK = UVM_IS_OK"
  shows "ok s \<Longrightarrow> \<forall>i \<in> set ks. a + of_nat i \<in> locs \<Longrightarrow> inj_on (\<lambda>i. a + of_nat i) (set ks) \<Longrightarrow> distinct ks \<Longrightarrow>
    \<forall>i \<in> set ks. i * seg < 64 \<Longrightarrow>
    \<exists>s'. write_locs wr join a seg v ks UVM_IS_OK s = Some (UVM_IS_OK, s', []) \<and> ok s' \<and>
      (\<forall>i \<in> set ks. look s' (a + of_nat i) = drop_bit (i * seg) v AND mask seg) \<and>
      (\<forall>b \<in> locs. b \<notin> (\<lambda>i. a + of_nat i) ` set ks \<longrightarrow> look s' b = look s b)"
proof (induction ks arbitrary: s)
  case (Cons i ks)
  let ?x = "drop_bit (i * seg) (v AND push_bit (i * seg) (uvm_mask_size seg))"
  have x: "?x = drop_bit (i * seg) v AND mask seg"
    by (rule bit_word_eqI) (auto simp: bit_simps dest: bit_imp_le_length)
  obtain s1 where s1: "wr (a + of_nat i) ?x s = Some (UVM_IS_OK, s1, [])" "ok s1"
    "\<forall>b \<in> locs. look s1 b = (if b = a + of_nat i then drop_bit (i * seg) v AND mask seg else look s b)"
    using wr [of s "a + of_nat i" ?x] Cons.prems unfolding x by (auto simp: and.assoc)
  obtain s2 where s2: "write_locs wr join a seg v ks UVM_IS_OK s1 = Some (UVM_IS_OK, s2, [])" "ok s2"
    "\<forall>i \<in> set ks. look s2 (a + of_nat i) = drop_bit (i * seg) v AND mask seg"
    "\<forall>b \<in> locs. b \<notin> (\<lambda>i. a + of_nat i) ` set ks \<longrightarrow> look s2 b = look s1 b"
    using Cons.IH [OF s1(2)] Cons.prems by auto
  have "a + of_nat i \<notin> (\<lambda>i. a + of_nat i) ` set ks"
    using Cons.prems(3,4) by (auto simp: inj_on_def)
  then have "look s2 (a + of_nat i) = drop_bit (i * seg) v AND mask seg"
    using s2(4) s1(3) Cons.prems(2) by simp
  moreover have "\<not> 64 \<le> i * seg" using Cons.prems(5) by simp
  ultimately show ?case using s1 s2 assms by (intro exI [of _ s2]) (auto simp: add_msgs_def)
qed simp

lemma read_locs_exact:
  assumes "join UVM_IS_OK UVM_IS_OK = UVM_IS_OK"
  shows "ok s \<Longrightarrow> \<forall>i \<in> set ks. a + of_nat i \<in> locs \<Longrightarrow> \<forall>i \<in> set ks. i * seg < 64 \<Longrightarrow>
    \<exists>v' s'. read_locs rd join a seg ks t v UVM_IS_OK s = Some ((UVM_IS_OK, v'), s', []) \<and> ok s' \<and>
      (\<forall>b \<in> locs. look s' b = look s b) \<and>
      (\<forall>j < 64. bit v' j \<longleftrightarrow> bit v j \<or> j div seg \<in> set ks \<and> vbit look seg a s j)"
proof (induction ks arbitrary: s t v)
  case (Cons i ks)
  let ?x = "look s (a + of_nat i)"
  obtain s1 where s1: "rd (a + of_nat i) t s = Some (UVM_IS_OK, ?x, s1, [])" "ok s1" "\<forall>b \<in> locs. look s1 b = look s b"
    using rd [of s "a + of_nat i" t] Cons.prems by auto
  obtain v2 s2 where s2: "read_locs rd join a seg ks ?x (v OR push_bit (i * seg) ?x) UVM_IS_OK s1 = Some ((UVM_IS_OK, v2), s2, [])"
    "ok s2" "\<forall>b \<in> locs. look s2 b = look s1 b"
    "\<forall>j < 64. bit v2 j \<longleftrightarrow> bit (v OR push_bit (i * seg) ?x) j \<or> j div seg \<in> set ks \<and> vbit look seg a s1 j"
    using Cons.IH [OF s1(2), of ?x "v OR push_bit (i * seg) ?x"] Cons.prems by auto
  have pos: "0 < seg" using seg Cons.prems(1) .
  have "bit (push_bit (i * seg) ?x) j \<longleftrightarrow> j div seg = i \<and> vbit look seg a s j" if "j < 64" for j
  proof
    assume b: "bit (push_bit (i * seg) ?x) j"
    then have "j - i * seg < seg" "i * seg \<le> j" using look_bit [of s] Cons.prems by (auto simp: bit_push_bit_iff)
    then have "j div seg = i" using pos by (intro div_nat_eqI) (simp_all add: mult.commute)
    then have "j mod seg = j - i * seg" by (simp flip: minus_div_mult_eq_mod)
    with b \<open>j div seg = i\<close> show "j div seg = i \<and> vbit look seg a s j" by (auto simp: vbit_def bit_push_bit_iff)
  next
    assume b: "j div seg = i \<and> vbit look seg a s j"
    then have "i * seg \<le> j" "j mod seg = j - i * seg" by (auto simp: minus_div_mult_eq_mod [symmetric])
    with b that show "bit (push_bit (i * seg) ?x) j" by (auto simp: vbit_def bit_push_bit_iff)
  qed
  moreover have "vbit look seg a s1 j = vbit look seg a s j" if "j div seg \<in> set ks" for j
    using s1(3) Cons.prems(2) that by (simp add: vbit_def)
  ultimately have "\<forall>j < 64. bit v2 j \<longleftrightarrow> bit v j \<or> j div seg \<in> set (i # ks) \<and> vbit look seg a s j"
    using s2(4) by (auto simp: bit_or_iff)
  moreover have "\<forall>b \<in> locs. look s2 b = look s b" using s1(3) s2(3) by simp
  moreover have "\<not> 64 \<le> i * seg" using Cons.prems(3) by simp
  ultimately show ?case using s1(1) s2(1,2) assms by (intro exI [of _ v2] exI [of _ s2]) (simp add: add_msgs_def)
qed simp

end

text \<open>The locations of a field, and the value that is written to them.\<close>

lemma field_extent:
  fixes low sz seg n :: nat
  assumes "low < seg" "0 < sz" "n = (low + sz - 1) div seg + 1"
  shows "low + sz \<le> n * seg" "(n - 1) * seg < low + sz"
proof -
  define q where "q = (low + sz - 1) div seg * seg"
  have "q \<le> low + sz - 1" "low + sz - 1 < q + seg"
    using assms(1) by (simp_all add: q_def dividend_less_div_times add.commute)
  moreover have "(n - 1) * seg = q" "n * seg = q + seg" by (simp_all add: q_def assms(3))
  ultimately show "low + sz \<le> n * seg" "(n - 1) * seg < low + sz" using assms(2) by linarith+
qed

lemma field_high:
  fixes low sz seg n :: nat
  assumes "low < seg" "0 < sz" "n = (low + sz - 1) div seg + 1" "low + sz \<noteq> n * seg"
  shows "(low + sz) mod seg = low + sz - (n - 1) * seg"
proof -
  have "(low + sz) div seg = n - 1"
    using field_extent [OF assms(1-3)] assms(3,4) by (intro div_nat_eqI) (simp_all add: mult.commute)
  then show ?thesis by (simp flip: minus_div_mult_eq_mod)
qed

lemma above_field:
  fixes low sz seg n :: nat
  assumes "low < seg" "0 < sz" "n = (low + sz - 1) div seg + 1" "low + sz \<le> j" "j < n * seg"
  shows "j div seg = n - 1 \<and> 0 < (low + sz) mod seg"
proof
  show "j div seg = n - 1"
    using field_extent [OF assms(1-3)] assms(3-5) by (intro div_nat_eqI) (simp_all add: mult.commute)
  show "0 < (low + sz) mod seg"
    using field_high [OF assms(1-3)] field_extent [OF assms(1-3)] assms(4,5) by simp
qed

definition merged :: "nat \<Rightarrow> nat \<Rightarrow> nat \<Rightarrow> data \<Rightarrow> data \<Rightarrow> data \<Rightarrow> data" where
  "merged seg low sz v t1 t2 =
     (let v1 = (if low > 0 then push_bit low v OR (t1 AND mask low) else v);
          high = (low + sz) mod seg
      in if high > 0 then v1 OR push_bit ((low + sz - 1) div seg * seg) (t2 AND NOT (mask high)) else v1)"

lemma merged_bit:
  assumes "low < seg" "0 < sz" "n = (low + sz - 1) div seg + 1" "n * seg \<le> 64" "drop_bit sz v = 0" "j < n * seg"
  shows "bit (merged seg low sz v t1 t2) j \<longleftrightarrow>
    (if j < low then bit t1 j else if j < low + sz then bit v (j - low) else bit t2 (j mod seg))"
proof -
  let ?high = "(low + sz) mod seg" and ?v1 = "if low > 0 then push_bit low v OR (t1 AND mask low) else v"
  have j64: "j < 64" using assms(4,6) by simp
  have v: "i < sz" if "bit v i" for i
  proof (rule ccontr)
    assume "\<not> i < sz"
    with that have "bit (drop_bit sz v) (i - sz)" by (simp add: bit_drop_bit_eq)
    with assms(5) show False by simp
  qed
  have v1: "bit ?v1 j \<longleftrightarrow> (if j < low then bit t1 j else j < low + sz \<and> bit v (j - low))"
    using j64 v [of "j - low"] by (auto simp: bit_simps)
  define x where "x \<longleftrightarrow> (n - 1) * seg \<le> j \<and> bit t2 (j - (n - 1) * seg) \<and> ?high \<le> j - (n - 1) * seg"
  have "bit (push_bit ((n - 1) * seg) (t2 AND NOT (mask ?high))) j \<longleftrightarrow> x"
    using j64 by (auto simp: bit_simps x_def)
  then have m: "bit (merged seg low sz v t1 t2) j \<longleftrightarrow> bit ?v1 j \<or> (0 < ?high \<and> x)"
    unfolding merged_def Let_def assms(3) add_diff_cancel_right' by (cases "0 < ?high") (simp_all only: if_True if_False bit_or_iff simp_thms)
  show ?thesis
  proof (cases "low + sz \<le> j")
    case True
    note a = above_field [OF assms(1-3) True assms(6)]
    then have "j mod seg = j - (n - 1) * seg" by (simp flip: minus_div_mult_eq_mod)
    moreover have "?high = low + sz - (n - 1) * seg" using field_high [OF assms(1-3)] True assms(6) by simp
    then have "?high \<le> j - (n - 1) * seg" using True by simp
    moreover have "(n - 1) * seg \<le> j" using field_extent(2) [OF assms(1-3)] True by simp
    ultimately show ?thesis using True a unfolding m v1 x_def by auto
  next
    case False
    have "\<not> x" if "0 < ?high"
    proof -
      have "low + sz \<noteq> n * seg" using that by (metis mod_mult_self2_is_0 less_irrefl)
      then have "?high = low + sz - (n - 1) * seg" using field_high [OF assms(1-3)] by simp
      then show ?thesis using False by (auto simp: x_def)
    qed
    then show ?thesis using False unfolding m v1 by auto
  qed
qed

context locations
begin

lemma write_segs_exact:
  "ok s \<Longrightarrow> \<forall>i < n. a + of_nat i \<in> locs \<Longrightarrow> n \<le> 2 ^ 64 \<Longrightarrow>
    \<exists>s'. write_segs wr seg a t n UVM_IS_OK s = Some (UVM_IS_OK, s', []) \<and> ok s' \<and>
      (\<forall>i < n. look s' (a + of_nat i) = drop_bit (i * seg) t AND mask seg) \<and>
      (\<forall>b \<in> locs. b \<notin> (\<lambda>i. a + of_nat i) ` {..<n} \<longrightarrow> look s' b = look s b)"
proof (induction n arbitrary: a t s)
  case (Suc n)
  have a: "a \<in> locs" using Suc.prems(2) [rule_format, of 0] by simp
  have next_loc: "a + 1 + of_nat i = a + of_nat (Suc i)" for i by simp
  obtain s1 where s1: "wr a t s = Some (UVM_IS_OK, s1, [])" "ok s1"
    "\<forall>b \<in> locs. look s1 b = (if b = a then t AND mask seg else look s b)"
    using wr [OF Suc.prems(1) a] by blast
  have "\<forall>i < n. a + 1 + of_nat i \<in> locs"
    unfolding next_loc using Suc.prems(2) by (simp del: of_nat_Suc)
  then obtain s2 where s2: "write_segs wr seg (a + 1) (drop_bit seg t) n UVM_IS_OK s1 = Some (UVM_IS_OK, s2, [])" "ok s2"
    "\<forall>i < n. look s2 (a + 1 + of_nat i) = drop_bit (i * seg) (drop_bit seg t) AND mask seg"
    "\<forall>b \<in> locs. b \<notin> (\<lambda>i. a + 1 + of_nat i) ` {..<n} \<longrightarrow> look s2 b = look s1 b"
    using Suc.IH [OF s1(2), of "a + 1" "drop_bit seg t"] Suc.prems(3) by (simp only: Suc_leD) blast
  have "a \<noteq> a + of_nat (Suc i)" if "i < n" for i
    using of_nat_addr_eq [of 0 "Suc i"] that Suc.prems(3) by (simp del: of_nat_Suc)
  then have a2: "look s2 a = look s1 a" using s2(4) a unfolding next_loc by blast
  have "look s2 (a + of_nat i) = drop_bit (i * seg) t AND mask seg" if "i < Suc n" for i
  proof (cases i)
    case 0
    then show ?thesis using a2 s1(3) a by simp
  next
    case (Suc j)
    then show ?thesis using s2(3) [unfolded next_loc] that by (simp add: drop_bit_drop_bit add.commute del: of_nat_Suc)
  qed
  moreover have "look s2 b = look s b" if b: "b \<in> locs" "b \<notin> (\<lambda>i. a + of_nat i) ` {..<Suc n}" for b
  proof -
    have "b \<noteq> a" using b(2) by (force intro: image_eqI [of _ _ 0])
    moreover have "b \<notin> (\<lambda>i. a + 1 + of_nat i) ` {..<n}" unfolding next_loc using b(2) by (force simp del: of_nat_Suc)
    ultimately show ?thesis using s1(3) s2(4) b(1) by simp
  qed
  ultimately show ?case using s1 s2(1,2) by (intro exI [of _ s2]) (simp add: failed_def add_msgs_def)
qed simp

lemma read_segs_exact:
  "ok s \<Longrightarrow> \<forall>i < n. a + of_nat i \<in> locs \<Longrightarrow>
    \<exists>v' s'. read_segs rd seg (a + of_nat n - 1) n t v UVM_IS_OK s = Some ((UVM_IS_OK, v'), s', []) \<and> ok s' \<and>
      (\<forall>b \<in> locs. look s' b = look s b) \<and>
      (\<forall>j < 64. bit v' j \<longleftrightarrow> (if j < n * seg then vbit look seg a s j else bit v (j - n * seg)))"
proof (induction n arbitrary: t v s)
  case (Suc n)
  let ?x = "look s (a + of_nat n)"
  let ?v = "push_bit seg v OR ?x"
  have n: "a + of_nat n \<in> locs" using Suc.prems(2) by simp
  have pos: "0 < seg" using seg Suc.prems(1) .
  obtain s1 where s1: "rd (a + of_nat n) t s = Some (UVM_IS_OK, ?x, s1, [])" "ok s1" "\<forall>b \<in> locs. look s1 b = look s b"
    using rd [OF Suc.prems(1) n] by blast
  obtain v2 s2 where s2: "read_segs rd seg (a + of_nat n - 1) n ?x ?v UVM_IS_OK s1 = Some ((UVM_IS_OK, v2), s2, [])"
    "ok s2" "\<forall>b \<in> locs. look s2 b = look s1 b"
    "\<forall>j < 64. bit v2 j \<longleftrightarrow> (if j < n * seg then vbit look seg a s1 j else bit ?v (j - n * seg))"
    using Suc.IH [OF s1(2), of ?x ?v] Suc.prems(2) by auto
  have "bit v2 j \<longleftrightarrow> (if j < Suc n * seg then vbit look seg a s j else bit v (j - Suc n * seg))" if "j < 64" for j
  proof -
    consider (low) "j < n * seg" | (here) "n * seg \<le> j" "j < Suc n * seg" | (high) "Suc n * seg \<le> j" by linarith
    then show ?thesis
    proof cases
      case low
      then have "j div seg < n" using pos by (simp add: less_mult_imp_div_less)
      then show ?thesis using low s2(4) that s1(3) Suc.prems(2) by (simp add: vbit_def)
    next
      case here
      then have d: "j div seg = n" by (intro div_nat_eqI) (simp_all add: mult.commute)
      then have "j mod seg = j - n * seg" by (simp flip: minus_div_mult_eq_mod)
      then show ?thesis using here d s2(4) that by (auto simp: vbit_def bit_simps)
    next
      case high
      then have "\<not> bit ?x (j - n * seg)" using look_bit [OF Suc.prems(1) n, of "j - n * seg"] by auto
      then show ?thesis using high s2(4) that by (auto simp: bit_simps add.commute)
    qed
  qed
  moreover have "\<forall>b \<in> locs. look s2 b = look s b" using s1(3) s2(3) by simp
  moreover have last: "a + of_nat (Suc n) - 1 = a + of_nat n" by simp
  ultimately show ?case using s1(1) s2(1,2) unfolding read_segs.simps last
    by (intro exI [of _ v2] exI [of _ s2]) (simp add: failed_def add_msgs_def del: of_nat_Suc mult_Suc)
qed simp

text \<open>
  Reading, modifying and writing changes exactly the bits of the field, when the locations that it lies in
  have 64 bits together at most.
\<close>

lemma rmw_exact:
  assumes "ok s" "low < seg" "0 < sz" "n = (low + sz - 1) div seg + 1" "n * seg \<le> 64" "drop_bit sz v = 0"
    and "\<forall>i < n. a + of_nat i \<in> locs"
  shows "\<exists>w s'. rmw rd wr seg low sz a v s = Some (True, UVM_IS_OK, w, s', []) \<and> ok s' \<and>
    (\<forall>j < n * seg. vbit look seg a s' j \<longleftrightarrow> (if low \<le> j \<and> j < low + sz then bit v (j - low) else vbit look seg a s j)) \<and>
    (\<forall>b \<in> locs. b \<notin> (\<lambda>i. a + of_nat i) ` {..<n} \<longrightarrow> look s' b = look s b)"
proof -
  let ?high = "(low + sz) mod seg"
  have pos: "0 < seg" "n \<le> n * seg" using assms(2) by simp_all
  have a: "a \<in> locs" "a + of_nat (n - 1) \<in> locs" using assms(4,7) by force+
  obtain t1 s1 where r1: "read_if (low > 0) rd a 0 s = Some (UVM_IS_OK, t1, s1, [])" "ok s1" "\<forall>b \<in> locs. look s1 b = look s b"
    "0 < low \<longrightarrow> t1 = look s a"
    using rd [OF assms(1) a(1), of 0] assms(1) by (cases "low > 0") (auto simp: read_if_def)
  obtain t2 s2 where r2: "read_if (?high > 0) rd (a + of_nat (n - 1)) t1 s1 = Some (UVM_IS_OK, t2, s2, [])" "ok s2"
    "\<forall>b \<in> locs. look s2 b = look s b" "0 < ?high \<longrightarrow> t2 = look s (a + of_nat (n - 1))"
    using rd [OF r1(2) a(2), of t1] r1(2,3) a(2) by (cases "?high > 0") (auto simp: read_if_def)
  let ?w = "merged seg low sz v t1 t2"
  obtain s3 where w: "write_segs wr seg a ?w n UVM_IS_OK s2 = Some (UVM_IS_OK, s3, [])" "ok s3"
    "\<forall>i < n. look s3 (a + of_nat i) = drop_bit (i * seg) ?w AND mask seg"
    "\<forall>b \<in> locs. b \<notin> (\<lambda>i. a + of_nat i) ` {..<n} \<longrightarrow> look s3 b = look s2 b"
    using write_segs_exact [OF r2(2) assms(7), of ?w] le_trans [OF pos(2) assms(5)] by auto
  have "rmw rd wr seg low sz a v s = Some (True, UVM_IS_OK, ?w, s3, [])"
  proof -
    have m: "?w = (let v1 = (if low > 0 then push_bit low v OR (t1 AND mask low) else v)
        in if ?high > 0 then v1 OR push_bit ((n - 1) * seg) (t2 AND NOT (mask ?high)) else v1)"
      by (simp add: merged_def Let_def assms(4))
    show ?thesis
      by (simp only: rmw_def Let_def assms(4) [symmetric] r1(1) r2(1) w(1) [unfolded m Let_def] option.case prod.case
          uvm_mask_size_mask failed_def option.map simp_thms if_False append_Nil m)
  qed
  moreover have "vbit look seg a s3 j \<longleftrightarrow> (if low \<le> j \<and> j < low + sz then bit v (j - low) else vbit look seg a s j)"
    if j: "j < n * seg" for j
  proof -
    have "j div seg < n" using j pos by (simp add: less_mult_imp_div_less)
    moreover have "j mod seg < 64" using j assms(5) le_less_trans [OF mod_less_eq_dividend [of j seg]] by simp
    ultimately have "vbit look seg a s3 j \<longleftrightarrow> bit ?w j" using w(3) pos by (simp add: vbit_def bit_simps)
    moreover have "vbit look seg a s j \<longleftrightarrow> bit t1 j" if "j < low" using that assms(2) r1(4) by (simp add: vbit_def)
    moreover have "vbit look seg a s j \<longleftrightarrow> bit t2 (j mod seg)" if "low + sz \<le> j"
      using above_field [OF assms(2-4) that j] r2(4) assms(4) by (simp add: vbit_def)
    ultimately show ?thesis using merged_bit [OF assms(2-6) j] by auto
  qed
  ultimately show ?thesis using w(2,4) r2(3) by (intro exI [of _ ?w] exI [of _ s3]) simp
qed

lemma gather_exact:
  assumes "ok s" "low < seg" "0 < sz" "n = (low + sz - 1) div seg + 1" "low + sz \<le> 64" "\<forall>i < n. a + of_nat i \<in> locs"
  shows "\<exists>w s'. gather rd seg low sz a s = Some ((UVM_IS_OK, w), s', []) \<and> ok s' \<and> (\<forall>b \<in> locs. look s' b = look s b) \<and>
    (\<forall>j. bit w j \<longleftrightarrow> j < sz \<and> vbit look seg a s (low + j))"
proof -
  have e: "a + of_nat (n - 1) = a + of_nat n - 1" using assms(4) by simp
  obtain v s' where r: "read_segs rd seg (a + of_nat n - 1) n 0 0 UVM_IS_OK s = Some ((UVM_IS_OK, v), s', [])"
    "ok s'" "\<forall>b \<in> locs. look s' b = look s b"
    "\<forall>j < 64. bit v j \<longleftrightarrow> (if j < n * seg then vbit look seg a s j else bit (0 :: data) (j - n * seg))"
    using read_segs_exact [OF assms(1,6), of 0 0] by blast
  have "bit (drop_bit low v AND mask sz) j \<longleftrightarrow> j < sz \<and> vbit look seg a s (low + j)" for j
  proof (cases "j < sz")
    case True
    then have "low + j < 64" "low + j < n * seg" using field_extent [OF assms(2-4)] assms(5) by simp_all
    with r(4) True show ?thesis by (auto simp: bit_simps)
  qed (simp add: bit_simps)
  then show ?thesis using r unfolding gather_def Let_def assms(4) [symmetric] e
    by (intro exI [of _ "drop_bit low v AND mask sz"] exI [of _ s']) simp
qed

end

section \<open>Registers and fields as bits\<close>

text \<open>No location of the memory changes but the \<open>n\<close> from \<open>base\<close>.\<close>

definition elsewhere :: "('s \<Rightarrow> addr \<Rightarrow> data) \<Rightarrow> nat \<Rightarrow> addr \<Rightarrow> addr set \<Rightarrow> 's \<Rightarrow> 's \<Rightarrow> bool" where
  "elsewhere look n base locs s s' \<longleftrightarrow> (\<forall>b \<in> locs. b \<notin> (\<lambda>i. base + of_nat i) ` {..<n} \<longrightarrow> look s' b = look s b)"

lemma small_shift: "(n - 1) * seg < 64 \<Longrightarrow> \<forall>i < n. i * seg < (64 :: nat)"
proof (intro allI impI)
  fix i assume "(n - 1) * seg < 64" "i < n"
  then have "i * seg \<le> (n - 1) * seg" by (intro mult_le_mono1) simp
  then show "i * seg < 64" using \<open>(n - 1) * seg < 64\<close> by (rule le_less_trans)
qed

lemma loc_index: "j < n * seg \<Longrightarrow> j div seg < (n :: nat)"
  by (cases "seg = 0") (simp_all add: less_mult_imp_div_less)

lemma field_loc_within:
  fixes lsb sz seg n :: nat
  assumes "0 < seg" "0 < sz" "lsb + sz \<le> n * seg" "i < (lsb mod seg + sz - 1) div seg + 1"
  shows "lsb div seg + i < n"
proof -
  have "(lsb mod seg + sz - 1) div seg * seg \<le> lsb mod seg + sz - 1" by simp
  moreover have "i * seg \<le> (lsb mod seg + sz - 1) div seg * seg" using assms(4) by simp
  moreover have "lsb div seg * seg + lsb mod seg = lsb" by simp
  ultimately have "(lsb div seg + i) * seg < n * seg" using assms(2,3) unfolding distrib_right by linarith
  then show ?thesis by simp
qed

context locations
begin

lemma register_write:
  assumes "ok s" "spans n base locs" "n \<le> 2 ^ 64" "join UVM_IS_OK UVM_IS_OK = UVM_IS_OK" "(n - 1) * seg < 64"
  shows "\<exists>s'. write_locs wr join base seg v [0..<n] UVM_IS_OK s = Some (UVM_IS_OK, s', []) \<and> ok s' \<and>
    (\<forall>j < n * seg. vbit look seg base s' j \<longleftrightarrow> bit v j) \<and> elsewhere look n base locs s s'"
proof -
  have pos: "0 < seg" using seg assms(1) .
  obtain s' where s': "write_locs wr join base seg v [0..<n] UVM_IS_OK s = Some (UVM_IS_OK, s', [])" "ok s'"
    "\<forall>i < n. look s' (base + of_nat i) = drop_bit (i * seg) v AND mask seg"
    "\<forall>b \<in> locs. b \<notin> (\<lambda>i. base + of_nat i) ` {..<n} \<longrightarrow> look s' b = look s b"
    using write_locs_exact [where join = join and s = s and ks = "[0..<n]" and a = base and v = v, OF assms(4,1)] assms(2) small_shift [OF assms(5)]
      inj_locs [OF assms(3), of base] by (auto simp: spans_def atLeast0LessThan)
  have "vbit look seg base s' j \<longleftrightarrow> bit v j" if "j < n * seg" for j
  proof -
    have "bit v j \<Longrightarrow> j mod seg < 64" using bit_imp_le_length [of v j] le_less_trans [OF mod_less_eq_dividend [of j seg]] by simp
    then show ?thesis using s'(3) loc_index [OF that] pos by (auto simp: vbit_def bit_simps)
  qed
  then show ?thesis using s' by (auto simp: elsewhere_def)
qed

lemma register_read:
  assumes "ok s" "spans n base locs" "join UVM_IS_OK UVM_IS_OK = UVM_IS_OK" "(n - 1) * seg < 64"
  shows "\<exists>w s'. read_locs rd join base seg [0..<n] t 0 UVM_IS_OK s = Some ((UVM_IS_OK, w), s', []) \<and> ok s' \<and>
    (\<forall>b \<in> locs. look s' b = look s b) \<and> (\<forall>j < 64. bit w j \<longleftrightarrow> j < n * seg \<and> vbit look seg base s j)"
proof -
  have pos: "0 < seg" using seg assms(1) .
  have "j div seg < n \<longleftrightarrow> j < n * seg" for j by (simp add: div_less_iff_less_mult pos)
  then show ?thesis
    using read_locs_exact [where join = join and s = s and ks = "[0..<n]" and a = base and t = t and v = 0, OF assms(3,1)] assms(2) small_shift [OF assms(4)]
    by (auto simp: spans_def)
qed

lemma field_update:
  assumes "ok s" "spans n base locs" "n \<le> 2 ^ 64" "0 < sz" "lsb + sz \<le> n * seg"
    and "nf = (lsb mod seg + sz - 1) div seg + 1" "nf * seg \<le> 64" "drop_bit sz v = 0"
  shows "\<exists>w s'. rmw rd wr seg (lsb mod seg) sz (base + of_nat (lsb div seg)) v s = Some (True, UVM_IS_OK, w, s', []) \<and> ok s' \<and>
    (\<forall>j < n * seg. vbit look seg base s' j \<longleftrightarrow>
       (if lsb \<le> j \<and> j < lsb + sz then bit v (j - lsb) else vbit look seg base s j)) \<and>
    elsewhere look n base locs s s'"
proof -
  let ?q = "lsb div seg" and ?a = "base + of_nat (lsb div seg)"
  have pos: "0 < seg" using seg assms(1) .
  note within = field_loc_within [OF pos assms(4,5)]
  have in_locs: "\<forall>i < nf. ?a + of_nat i \<in> locs"
    using assms(2) within assms(6) by (auto simp: spans_def add.assoc simp flip: of_nat_add)
  obtain w s' where r: "rmw rd wr seg (lsb mod seg) sz ?a v s = Some (True, UVM_IS_OK, w, s', [])" "ok s'"
    "\<forall>j < nf * seg. vbit look seg ?a s' j \<longleftrightarrow>
      (if lsb mod seg \<le> j \<and> j < lsb mod seg + sz then bit v (j - lsb mod seg) else vbit look seg ?a s j)"
    "\<forall>b \<in> locs. b \<notin> (\<lambda>i. ?a + of_nat i) ` {..<nf} \<longrightarrow> look s' b = look s b"
    using rmw_exact [OF assms(1) _ assms(4,6,7,8) in_locs] pos by auto
  have lsb: "lsb = ?q * seg + lsb mod seg" by simp
  have "vbit look seg base s' j \<longleftrightarrow> (if lsb \<le> j \<and> j < lsb + sz then bit v (j - lsb) else vbit look seg base s j)"
    if j: "j < n * seg" for j
  proof (cases "?q * seg \<le> j \<and> j < (?q + nf) * seg")
    case True
    then obtain i where i: "j = ?q * seg + i" "i < nf * seg" by (metis le_Suc_ex add_less_cancel_left distrib_right)
    have "lsb \<le> j \<longleftrightarrow> lsb mod seg \<le> i" "j < lsb + sz \<longleftrightarrow> i < lsb mod seg + sz" "j - lsb = i - lsb mod seg"
      using lsb i(1) by linarith+
    then show ?thesis using r(3) i by (simp add: vbit_shift [OF pos])
  next
    case False
    have "lsb mod seg + sz \<le> nf * seg" using field_extent(1) [OF _ assms(4,6)] pos by simp
    then have out: "\<not> (lsb \<le> j \<and> j < lsb + sz)" using False lsb unfolding distrib_right by linarith
    have "j div seg < ?q \<or> ?q + nf \<le> j div seg"
      using False pos by (auto simp: div_less_iff_less_mult less_eq_div_iff_mult_less_eq not_le not_less)
    then have "j div seg \<noteq> ?q + i" if "i < nf" for i using that by linarith
    then have "base + of_nat (j div seg) \<noteq> ?a + of_nat i" if "i < nf" for i
      using that loc_index [OF j] within [of i] assms(3,6) of_nat_addr_eq [of "j div seg" "?q + i"] by (auto simp: add.assoc)
    moreover have "base + of_nat (j div seg) \<in> locs" using assms(2) loc_index [OF j] by (simp add: spans_def)
    ultimately have "look s' (base + of_nat (j div seg)) = look s (base + of_nat (j div seg))" using r(4) by blast
    then show ?thesis using out by (auto simp: vbit_def)
  qed
  moreover have "elsewhere look n base locs s s'"
  proof -
    have "(\<lambda>i. ?a + of_nat i) ` {..<nf} \<subseteq> (\<lambda>i. base + of_nat i) ` {..<n}"
      using within assms(6) by (auto simp: add.assoc simp flip: of_nat_add)
    then show ?thesis using r(4) unfolding elsewhere_def by blast
  qed
  ultimately show ?thesis using r(1,2) by blast
qed

lemma field_fetch:
  assumes "ok s" "spans n base locs" "0 < sz" "lsb + sz \<le> n * seg" "lsb mod seg + sz \<le> 64"
  shows "\<exists>w s'. gather rd seg (lsb mod seg) sz (base + of_nat (lsb div seg)) s = Some ((UVM_IS_OK, w), s', []) \<and> ok s' \<and>
    (\<forall>b \<in> locs. look s' b = look s b) \<and> (\<forall>j. bit w j \<longleftrightarrow> j < sz \<and> vbit look seg base s (lsb + j))"
proof -
  let ?a = "base + of_nat (lsb div seg)" and ?nf = "(lsb mod seg + sz - 1) div seg + 1"
  have pos: "0 < seg" using seg assms(1) .
  have "\<forall>i < ?nf. ?a + of_nat i \<in> locs"
    using assms(2) field_loc_within [OF pos assms(3,4)] by (auto simp: spans_def add.assoc simp flip: of_nat_add)
  moreover have "vbit look seg ?a s (lsb mod seg + j) = vbit look seg base s (lsb + j)" for j
    by (simp add: vbit_shift [OF pos] add.assoc [symmetric])
  ultimately show ?thesis using gather_exact [OF assms(1) _ assms(3) refl assms(5), of ?a] pos by simp
qed

end

end
