(* ===== verification/Vreg_Memory.thy ===== *)
theory Vreg_Memory
  imports Vreg_Access
begin

text \<open>
  Virtual registers in the memories they live in: the locations of a memory on the bus and by the backdoor meet the
  interface \<open>locations\<close>, so that writes, reads, pokes and peeks of registers and fields act on the
  bits of the memory as on an array of bits.
\<close>

section \<open>The locations of a memory on the bus\<close>

text \<open>
  A memory at its place: the environment it is accessed in, the bus and what it stores, the map, the entry of
  the memory in the map. Its elements fill their addresses exactly, and no two of them share an address.
\<close>

record 'h site =
  si_env :: "'h mem_env"
  si_bus :: "'h bus"
  si_view :: "'h \<Rightarrow> addr \<Rightarrow> data"
  si_seq :: "mem_item \<Rightarrow> 'h \<Rightarrow> mem_item \<times> 'h"
  si_maps :: reg_maps
  si_map :: nat
  si_id :: nat
  si_info :: mem_map_info
  si_mp :: "map_id option"
  si_mem :: uvm_mem

definition elem_addrs :: "mem_map_info \<Rightarrow> addr \<Rightarrow> addr list" where
  "elem_addrs i a = map (\<lambda>x. x + ucast (mm_stride i) * a) (mm_addr i)"

definition elems_fill :: "nat \<Rightarrow> mem_map_info \<Rightarrow> uvm_mem \<Rightarrow> bool" where
  "elems_fill bw i m \<longleftrightarrow> mm_addr i \<noteq> [] \<and> distinct (mm_addr i) \<and> (length (mm_addr i) - 1) * bw < 8 \<and>
     length (mm_addr i) * bw * 8 = seg_bits m \<and> 0 < seg_bits m \<and>
     (\<forall>a b. a < me_size m \<longrightarrow> b < me_size m \<longrightarrow> a \<noteq> b \<longrightarrow> set (elem_addrs i a) \<inter> set (elem_addrs i b) = {})"

definition front_site :: "'h site \<Rightarrow> bool" where
  "front_site S \<longleftrightarrow> bus_stores (si_bus S) (si_view S) \<and> mem_no_hooks (si_env S) \<and>
     map_of (rm_mems (mp_map (si_maps S) (si_map S))) (si_id S) = Some (si_info S) \<and>
     ve_map_write (si_env S) = mem_map_write (si_bus S) (si_seq S) True (si_maps S) (si_id S) (me_n_bits (si_mem S)) \<and>
     ve_map_read (si_env S) = mem_map_read (si_bus S) (si_seq S) True (si_maps S) (si_id S) (me_n_bits (si_mem S)) \<and>
     si_mp S \<noteq> None \<and> mem_local_map (ve_maps (si_env S)) (si_mem S) (si_mp S) = (Some (Map_Id (si_map S)), []) \<and>
     ve_info (si_env S) (Map_Id (si_map S)) = Some (si_info S) \<and> \<not> mm_frontdoor (si_info S) \<and> \<not> mm_unmapped (si_info S) \<and>
     elems_fill (map_n_bytes (si_maps S) UVM_HIER (si_map S)) (si_info S) (si_mem S)"

text \<open>Accesses only touch the flags of the memory.\<close>

definition same_mem :: "uvm_mem \<Rightarrow> uvm_mem \<Rightarrow> bool" where
  "same_mem m0 m \<longleftrightarrow> m = m0\<lparr>me_reading := me_reading m, me_writing := me_writing m\<rparr>"

lemma same_mem_flags [simp]: "same_mem m m" "same_mem m0 (m\<lparr>me_reading := b\<rparr>) = same_mem m0 m"
  "same_mem m0 (m\<lparr>me_writing := b\<rparr>) = same_mem m0 m"
  by (cases m; cases m0; auto simp: same_mem_def)+

lemma same_mem_simps:
  assumes "same_mem m0 m"
  shows "me_size m = me_size m0" "me_n_bits m = me_n_bits m0" "seg_bits m = seg_bits m0"
    "mem_local_map env m mp = mem_local_map env m0 mp" "back_ready e kind m ps = back_ready e kind m0 ps"
    "me_backdoor m = me_backdoor m0" "min_incr r m = min_incr r m0"
proof -
  have r: "mem_local_map env (x\<lparr>me_reading := b\<rparr>) mp = mem_local_map env x mp" for x b
  proof -
    have o: "mem_local_map_of env (x\<lparr>me_reading := b\<rparr>) k = mem_local_map_of env x k" for k
      by (simp add: mem_local_map_of_def)
    have "mem_default_loop env (x\<lparr>me_reading := b\<rparr>) ks = mem_default_loop env x ks" for ks
      by (induction ks) (auto simp: o split: option.splits prod.splits)
    then have "mem_default_map env (x\<lparr>me_reading := b\<rparr>) = mem_default_map env x"
      by (cases "me_maps x") (simp_all add: mem_default_map_def del: mem_default_loop.simps)
    then show ?thesis by (cases mp) (simp_all add: mem_local_map_def o)
  qed
  obtain b c where m: "m = m0\<lparr>me_reading := b, me_writing := c\<rparr>" using assms by (auto simp: same_mem_def)
  show "me_size m = me_size m0" "me_n_bits m = me_n_bits m0" "seg_bits m = seg_bits m0"
    "mem_local_map env m mp = mem_local_map env m0 mp" "back_ready e kind m ps = back_ready e kind m0 ps"
    "me_backdoor m = me_backdoor m0" "min_incr r m = min_incr r m0"
    by (simp_all add: m seg_bits_def mem_n_bytes_def min_incr_def r mem_local_map_writing)
qed

definition front_ok :: "'h site \<Rightarrow> uvm_path_e \<Rightarrow> uvm_mem \<times> 'h \<Rightarrow> bool" where
  "front_ok S path s \<longleftrightarrow> front_site S \<and> same_mem (si_mem S) (fst s) \<and>
     (path = UVM_FRONTDOOR \<or> path = UVM_DEFAULT_PATH \<and> ve_block_path (si_env S) = UVM_FRONTDOOR)"

definition front_look :: "'h site \<Rightarrow> uvm_mem \<times> 'h \<Rightarrow> addr \<Rightarrow> data" where
  "front_look S s a = assembled (map_n_bytes (si_maps S) UVM_HIER (si_map S)) (si_view S (snd s)) (elem_addrs (si_info S) a) 0"

lemma assembled_narrow: "assembled bw f as cur AND mask ((cur + length as * bw) * 8) = assembled bw f as cur"
proof (induction as arbitrary: cur)
  case (Cons a as)
  have "assembled bw f as (cur + bw) AND mask ((cur + length (a # as) * bw) * 8) = assembled bw f as (cur + bw)"
    using Cons.IH [of "cur + bw"] by (simp add: algebra_simps)
  moreover have "push_bit (cur * 8) (f a AND mask (bw * 8)) AND mask ((cur + length (a # as) * bw) * 8) =
      push_bit (cur * 8) (f a AND mask (bw * 8))"
    by (rule bit_word_eqI) (auto simp: bit_simps algebra_simps)
  ultimately show ?case by (simp add: bit.conj_disj_distrib2)
qed simp

lemma front_ready_at:
  assumes "front_site S" "same_mem (si_mem S) m" "a < me_size (si_mem S)"
  shows "front_ready (si_env S) (si_mp S) m (si_map S) (si_info S) a 1"
  using assms same_mem_simps [OF assms(2)] by (simp add: front_ready_def front_site_def)

lemma front_write_exact:
  assumes "front_site S" "same_mem (si_mem S) m" "a < me_size (si_mem S)"
  shows "\<exists>h'. front_write (si_env S) UVM_FRONTDOOR (si_mp S) a v (m, h) = Some (UVM_IS_OK, (m\<lparr>me_writing := False\<rparr>, h'), []) \<and>
    si_view S h' = written (- 1) (map_n_bytes (si_maps S) UVM_HIER (si_map S)) v (elem_addrs (si_info S) a) 0 (si_view S h)"
proof -
  let ?w = "new_mem_item (si_env S) UVM_WRITE a [v] UVM_FRONTDOOR [] (si_mp S)"
  let ?l = "?w\<lparr>mt_status := UVM_NOT_OK, mt_local_map := Some (Map_Id (si_map S))\<rparr>"
  have f: "bus_stores (si_bus S) (si_view S)"
    "map_of (rm_mems (mp_map (si_maps S) (si_map S))) (si_id S) = Some (si_info S)"
    "mm_addr (si_info S) \<noteq> []" "(length (mm_addr (si_info S)) - 1) * map_n_bytes (si_maps S) UVM_HIER (si_map S) < 8"
    using assms(1) by (simp_all add: front_site_def elems_fill_def)
  obtain h' where h': "mem_map_write (si_bus S) (si_seq S) True (si_maps S) (si_id S) (me_n_bits (si_mem S)) ?l h =
      Some (?l\<lparr>mt_status := UVM_IS_OK\<rparr>, h')"
    "si_view S h' = written (- 1) (map_n_bytes (si_maps S) UVM_HIER (si_map S)) v (elem_addrs (si_info S) a) 0 (si_view S h)"
    using mem_write_store [OF f(1,2) _ _ _ f(3,4), of ?l "si_seq S" "me_n_bits (si_mem S)" h]
    by (auto simp: new_mem_item_def elem_addrs_def)
  have "mem_do_write (si_env S) ?w m h = Some (m\<lparr>me_writing := False\<rparr>, ?l\<lparr>mt_status := UVM_IS_OK\<rparr>, h', [])"
    using assms(1) h'(1) front_ready_at [OF assms]
    by (intro do_write_front) (simp_all add: front_site_def new_mem_item_def)
  then show ?thesis using h'(2) by (simp add: front_write_def mem_write_def)
qed

lemma read_default_path:
  assumes "ve_block_path env = UVM_FRONTDOOR" "a < me_size m"
  shows "mem_read env a UVM_DEFAULT_PATH mp m h = mem_read env a UVM_FRONTDOOR mp m h"
proof -
  have "mem_check_access env (new_mem_item env UVM_READ a [0] UVM_DEFAULT_PATH [] mp) m =
      mem_check_access env (new_mem_item env UVM_READ a [0] UVM_FRONTDOOR [] mp) m"
    using assms(1) assms(2) [folded not_le] by (simp add: mem_check_access_def new_mem_item_def)
  then show ?thesis by (simp add: mem_read_def mem_do_read_def)
qed

lemma front_read_exact:
  assumes "front_ok S path (m, h)" "a < me_size (si_mem S)"
  shows "\<exists>h'. front_read (si_env S) path (si_mp S) a t (m, h) =
      Some (UVM_IS_OK, front_look S (m, h) a, (m\<lparr>me_reading := False\<rparr>, h'), []) \<and> si_view S h' = si_view S h"
proof -
  let ?r = "new_mem_item (si_env S) UVM_READ a [0] UVM_FRONTDOOR [] (si_mp S)"
  let ?l = "?r\<lparr>mt_status := UVM_NOT_OK, mt_local_map := Some (Map_Id (si_map S))\<rparr>"
  have s: "front_site S" "same_mem (si_mem S) m" using assms(1) by (simp_all add: front_ok_def)
  then have f: "bus_stores (si_bus S) (si_view S)"
    "map_of (rm_mems (mp_map (si_maps S) (si_map S))) (si_id S) = Some (si_info S)" "mm_addr (si_info S) \<noteq> []"
    by (simp_all add: front_site_def elems_fill_def)
  obtain h' where h': "mem_map_read (si_bus S) (si_seq S) True (si_maps S) (si_id S) (me_n_bits (si_mem S)) ?l h =
      Some (?l\<lparr>mt_status := UVM_IS_OK, mt_values := [front_look S (m, h) a]\<rparr>, h')" "si_view S h' = si_view S h"
    using mem_read_store [OF f(1,2) _ _ _ f(3), of ?l "si_seq S" "me_n_bits (si_mem S)" h]
    by (auto simp: new_mem_item_def elem_addrs_def front_look_def)
  have "mem_do_read (si_env S) ?r m h =
      Some (m\<lparr>me_reading := False\<rparr>, ?l\<lparr>mt_status := UVM_IS_OK, mt_values := [front_look S (m, h) a]\<rparr>, h', [])"
    using s h'(1) front_ready_at [OF s assms(2)]
    by (intro do_read_front) (simp_all add: front_site_def new_mem_item_def)
  then have "front_read (si_env S) UVM_FRONTDOOR (si_mp S) a t (m, h) =
      Some (UVM_IS_OK, front_look S (m, h) a, (m\<lparr>me_reading := False\<rparr>, h'), [])"
    by (simp add: front_read_def mem_read_def)
  moreover have "front_read (si_env S) path (si_mp S) a t (m, h) = front_read (si_env S) UVM_FRONTDOOR (si_mp S) a t (m, h)"
    using assms read_default_path [of "si_env S" a m] same_mem_simps(1) [OF s(2)] by (auto simp: front_ok_def front_read_def)
  ultimately show ?thesis using h'(2) by simp
qed

interpretation front: locations "front_ok S path" "{a. a < me_size (si_mem S)}" "seg_bits (si_mem S)"
  "front_write (si_env S) UVM_FRONTDOOR (si_mp S)" "front_read (si_env S) path (si_mp S)" "front_look S"
proof unfold_locales
  fix s :: "uvm_mem \<times> 'a" and a v t
  assume ok: "front_ok S path s" 
  obtain m h where s: "s = (m, h)" by fastforce
  have fill: "elems_fill (map_n_bytes (si_maps S) UVM_HIER (si_map S)) (si_info S) (si_mem S)"
    and site: "front_site S" "same_mem (si_mem S) m" using ok s by (simp_all add: front_ok_def front_site_def)
  then have len: "length (mm_addr (si_info S)) * map_n_bytes (si_maps S) UVM_HIER (si_map S) * 8 = seg_bits (si_mem S)"
    "length (elem_addrs (si_info S) a) = length (mm_addr (si_info S))" "distinct (elem_addrs (si_info S) a)"
    by (simp_all add: elems_fill_def elem_addrs_def distinct_map inj_on_def)
  show "0 < seg_bits (si_mem S)" using fill by (simp add: elems_fill_def)
  show "front_look S s a AND mask (seg_bits (si_mem S)) = front_look S s a"
    using assembled_narrow [of "map_n_bytes (si_maps S) UVM_HIER (si_map S)" "si_view S (snd s)" "elem_addrs (si_info S) a" 0] len
    by (simp add: front_look_def)
  assume "a \<in> {a. a < me_size (si_mem S)}"
  then have a: "a < me_size (si_mem S)" by simp
  show "\<exists>s'. front_read (si_env S) path (si_mp S) a t s = Some (UVM_IS_OK, front_look S s a, s', []) \<and> front_ok S path s' \<and>
      (\<forall>b \<in> {a. a < me_size (si_mem S)}. front_look S s' b = front_look S s b)"
  proof -
    obtain h' where "front_read (si_env S) path (si_mp S) a t (m, h) =
        Some (UVM_IS_OK, front_look S (m, h) a, (m\<lparr>me_reading := False\<rparr>, h'), [])" "si_view S h' = si_view S h"
      using front_read_exact [OF ok [unfolded s] a] by blast
    then show ?thesis using ok unfolding s by (simp add: front_look_def front_ok_def)
  qed
  obtain h' where h': "front_write (si_env S) UVM_FRONTDOOR (si_mp S) a v (m, h) =
        Some (UVM_IS_OK, (m\<lparr>me_writing := False\<rparr>, h'), [])"
      "si_view S h' = written (- 1) (map_n_bytes (si_maps S) UVM_HIER (si_map S)) v (elem_addrs (si_info S) a) 0 (si_view S h)"
    using front_write_exact [OF site a] by blast
  have "front_look S (m\<lparr>me_writing := False\<rparr>, h') b =
      (if b = a then v AND mask (seg_bits (si_mem S)) else front_look S (m, h) b)" if "b < me_size (si_mem S)" for b
  proof (cases "b = a")
    case True
    then show ?thesis using len by (simp add: front_look_def h'(2) assembled_written)
  next
    case False
    then have "x \<notin> set (elem_addrs (si_info S) a)" if "x \<in> set (elem_addrs (si_info S) b)" for x
      using fill a \<open>b < me_size (si_mem S)\<close> that unfolding elems_fill_def by blast
    then show ?thesis using False by (auto simp: front_look_def h'(2) written_other intro!: assembled_cong)
  qed
  then show "\<exists>s'. front_write (si_env S) UVM_FRONTDOOR (si_mp S) a v s = Some (UVM_IS_OK, s', []) \<and> front_ok S path s' \<and>
      (\<forall>b \<in> {a. a < me_size (si_mem S)}. front_look S s' b = (if b = a then v AND mask (seg_bits (si_mem S)) else front_look S s b))"
    using h'(1) ok unfolding s by (simp add: front_ok_def)
qed

section \<open>The locations of a memory by the backdoor\<close>

text \<open>All HDL copies of an element agree, and the memory consists of whole bytes.\<close>

definition back_site :: "'h mem_env \<Rightarrow> ('h \<Rightarrow> string \<Rightarrow> data) \<Rightarrow> hdl_path_concat list \<Rightarrow> uvm_mem \<Rightarrow> bool" where
  "back_site env view ps m0 \<longleftrightarrow> hdl_stores (ve_deposit env) (ve_hdl_read env) view \<and> back_ready env [] m0 ps \<and>
     paths_ok env (unat (me_n_bits m0)) ps \<and> unat (me_n_bits m0) = seg_bits m0 \<and> 0 < seg_bits m0"

definition back_ok :: "'h mem_env \<Rightarrow> ('h \<Rightarrow> string \<Rightarrow> data) \<Rightarrow> hdl_path_concat list \<Rightarrow> uvm_mem \<Rightarrow> uvm_mem \<times> 'h \<Rightarrow> bool" where
  "back_ok env view ps m0 s \<longleftrightarrow> back_site env view ps m0 \<and> same_mem m0 (fst s) \<and>
     (\<forall>a < me_size m0. \<exists>v. holds_elem (view (snd s)) a v ps)"

definition back_look :: "'h mem_env \<Rightarrow> uvm_mem \<times> 'h \<Rightarrow> addr \<Rightarrow> data" where
  "back_look env s a = (case back_read env a 0 s of Some (_, v, _) \<Rightarrow> v | None \<Rightarrow> 0)"

lemma back_site_paths:
  assumes "back_site env view ps m0"
  shows "hdl_stores (ve_deposit env) (ve_hdl_read env) view" "ve_hdl_width env \<le> 64" "unat (me_n_bits m0) \<le> ve_hdl_width env"
    "ps \<noteq> []" "\<forall>c \<in> set ps. slices_fit (ve_hdl_width env) c \<and> slices_cover (unat (me_n_bits m0)) c"
    "distinct (slice_paths ps)" "\<forall>c \<in> set ps. slices_fit 64 c"
  using assms by (force simp: back_site_def paths_ok_def slices_fit_def)+

lemma back_read_holds:
  assumes "back_site env view ps m0" "same_mem m0 m" "holds_elem (view h) a v ps"
  shows "back_read env a t (m, h) = Some (UVM_IS_OK, v AND mask (seg_bits m0), (m, h), [])"
proof -
  have n: "me_n_bits m = me_n_bits m0" "back_ready env [] m ps"
    using assms(1) same_mem_simps(2) [OF assms(2)] same_mem_simps(5) [OF assms(2)] by (auto simp: back_site_def)
  note p = back_site_paths [OF assms(1)]
  have "holds_elems (view h) a [v] ps" using assms(3) by (simp add: holds_elems_def)
  from read_elems_exact [OF p(1-5) _ this, of "[0]" True]
  have "mem_backdoor_read (ve_hdl_read env) (ve_hdl_width env) (unat (me_n_bits m)) ps a [0] h =
      Some (UVM_IS_OK, [v AND mask (seg_bits m0)], [])"
    using assms(1) n(1) by (simp add: mem_backdoor_read_def back_site_def del: read_elems.simps)
  moreover have "pool_has (ve_block_hdl env) [] (me_hdl m)" "mem_hdl_paths env m [] = (ps, [])"
    using n(2) by (simp_all add: back_ready_def)
  ultimately show ?thesis
    using no_backdoor [OF n(2)] by (simp add: back_read_def mem_peek_def new_mem_item_def mem_backdoor_access_def)
qed

lemma back_write_exact:
  assumes "back_site env view ps m0" "same_mem m0 m"
  shows "\<exists>h'. back_write env a v (m, h) = Some (UVM_IS_OK, (m, h'), []) \<and>
    holds_elem (view h') a (v AND mask (seg_bits m0)) ps \<and>
    (\<forall>b p. b \<noteq> a \<longrightarrow> view h' (elem_path p b) = view h (elem_path p b))"
proof -
  let ?v = "v AND mask (seg_bits m0)"
  have n: "unat (me_n_bits m) = seg_bits m0" "back_ready env [] m ps"
    using assms(1) same_mem_simps(2) [OF assms(2)] same_mem_simps(5) [OF assms(2)] by (auto simp: back_site_def)
  note p = back_site_paths [OF assms(1)]
  obtain ok h' where d: "deposit_values (ve_deposit env) ps a [?v] True h = (ok, h')" by fastforce
  have h': "ok" "holds_elem (view h') a ?v ps" "\<forall>b p. b \<noteq> a \<longrightarrow> view h' (elem_path p b) = view h (elem_path p b)"
    using deposit_values_store [OF p(1,7,6), of "[?v]" a True h] unfolding d by (simp_all add: holds_elems_def)
  have "mem_backdoor_write (ve_deposit env) ps a [?v] h = (UVM_IS_OK, h')"
    using d h'(1) by (simp add: mem_backdoor_write_def)
  moreover have "pool_has (ve_block_hdl env) [] (me_hdl m)" "mem_hdl_paths env m [] = (ps, [])"
    using n(2) by (simp_all add: back_ready_def)
  ultimately have "back_write env a v (m, h) = Some (UVM_IS_OK, (m, h'), [])"
    using no_backdoor [OF n(2)] by (simp add: back_write_def mem_poke_def new_mem_item_def mem_backdoor_access_def n(1))
  then show ?thesis using h'(2,3) by blast
qed

interpretation hdl: locations "back_ok env view ps m0" "{a. a < me_size m0}" "seg_bits m0" "back_write env" "back_read env"
  "back_look env"
proof unfold_locales
  fix s :: "uvm_mem \<times> 'a" and a v t
  assume ok: "back_ok env view ps m0 s"
  obtain m h where s: "s = (m, h)" by fastforce
  have site: "back_site env view ps m0" "same_mem m0 m" using ok s by (simp_all add: back_ok_def)
  show "0 < seg_bits m0" using site(1) by (simp add: back_site_def)
  assume "a \<in> {a. a < me_size m0}"
  then obtain u where u: "holds_elem (view h) a u ps" using ok s by (auto simp: back_ok_def)
  note r = back_read_holds [OF site u]
  then have look: "back_look env s a = u AND mask (seg_bits m0)" by (simp add: back_look_def s)
  then show "back_look env s a AND mask (seg_bits m0) = back_look env s a" by (simp add: and.assoc)
  show "\<exists>s'. back_read env a t s = Some (UVM_IS_OK, back_look env s a, s', []) \<and> back_ok env view ps m0 s' \<and>
      (\<forall>b \<in> {a. a < me_size m0}. back_look env s' b = back_look env s b)"
    using r ok look by (simp add: s)
  obtain h' where h': "back_write env a v (m, h) = Some (UVM_IS_OK, (m, h'), [])"
    "holds_elem (view h') a (v AND mask (seg_bits m0)) ps"
    "\<forall>b p. b \<noteq> a \<longrightarrow> view h' (elem_path p b) = view h (elem_path p b)"
    using back_write_exact [OF site] by blast
  have other: "holds_elem (view h') b w ps" if "b \<noteq> a" "holds_elem (view h) b w ps" for b w
    by (rule holds_elem_cong [OF that(2)]) (use h'(3) that(1) in blast)
  have held: "\<exists>w. holds_elem (view h') b w ps \<and>
      w AND mask (seg_bits m0) = (if b = a then v AND mask (seg_bits m0) else back_look env s b)" if b: "b < me_size m0" for b
  proof (cases "b = a")
    case True
    then show ?thesis using h'(2) by (intro exI [of _ "v AND mask (seg_bits m0)"]) (simp add: and.assoc)
  next
    case False
    obtain w where w: "holds_elem (view h) b w ps" using ok s b by (auto simp: back_ok_def)
    then have "back_look env s b = w AND mask (seg_bits m0)" using back_read_holds [OF site w] by (simp add: back_look_def s)
    then show ?thesis using other [OF False w] False by (intro exI [of _ w]) simp
  qed
  have "back_ok env view ps m0 (m, h')" using site held by (auto simp: back_ok_def)
  moreover have "back_look env (m, h') b = (if b = a then v AND mask (seg_bits m0) else back_look env s b)"
    if "b < me_size m0" for b
    using held [OF that] back_read_holds [OF site] by (fastforce simp: back_look_def)
  ultimately show "\<exists>s'. back_write env a v s = Some (UVM_IS_OK, s', []) \<and> back_ok env view ps m0 s' \<and>
      (\<forall>b \<in> {a. a < me_size m0}. back_look env s' b = (if b = a then v AND mask (seg_bits m0) else back_look env s b))"
    using h'(1) by (simp add: s)
qed

section \<open>Accesses to registers\<close>

text \<open>Hooks and callbacks that do nothing.\<close>

definition quiet_hooks :: "vreg_hooks \<Rightarrow> bool" where
  "quiet_hooks hk \<longleftrightarrow> (\<forall>f idx rt. vh_field_pre_write hk f idx rt = rt) \<and>
     (\<forall>f idx v p mp st. vh_field_post_write hk f idx v p mp st = st) \<and> (\<forall>f idx rt. vh_field_pre_read hk f idx rt = rt) \<and>
     (\<forall>f idx p mp x. vh_field_post_read hk f idx p mp x = x) \<and> (\<forall>idx rt. vh_pre_write hk idx rt = rt) \<and>
     (\<forall>idx v p mp st. vh_post_write hk idx v p mp st = st) \<and> (\<forall>idx rt. vh_pre_read hk idx rt = rt) \<and>
     (\<forall>idx p mp x. vh_post_read hk idx p mp x = x)"

lemma put_field_slice [simp]: "put_slice f v (field_slice f v) = v"
  by (rule bit_word_eqI) (auto simp: put_slice_def field_slice_def vfield_mask_def bit_simps)

lemma quiet_fields:
  assumes "quiet_hooks hk"
  shows "fields_pre_write hk idx fs rt = rt" "fields_post_write hk idx fs v path mp st = st"
    "fields_pre_read hk idx fs rr = rr" "fields_post_read hk idx fs path mp x = x"
proof -
  show "fields_pre_write hk idx fs rt = rt"
    by (induction fs arbitrary: rt) (use assms in \<open>auto simp: quiet_hooks_def split: prod.splits\<close>)
  show "fields_post_write hk idx fs v path mp st = st"
    by (induction fs arbitrary: st) (use assms in \<open>auto simp: quiet_hooks_def\<close>)
  show "fields_pre_read hk idx fs rr = rr"
    by (induction fs arbitrary: rr) (use assms in \<open>auto simp: quiet_hooks_def\<close>)
  show "fields_post_read hk idx fs path mp x = x"
    by (induction fs arbitrary: x) (use assms in \<open>auto simp: quiet_hooks_def split: prod.splits\<close>)
qed

lemma keep_ok [simp]: "keep_failure UVM_IS_OK UVM_IS_OK = UVM_IS_OK" "keep_last UVM_IS_OK UVM_IS_OK = UVM_IS_OK"
  by (simp_all add: keep_failure_def keep_last_def)

lemma uint_locs: "unat (x :: uint) \<le> 2 ^ 64"
  using unsigned_less [of x, where ?'a = nat] by simp

lemma bits_and_mask: "\<forall>j < 64. bit w j \<longleftrightarrow> j < k \<and> bit v j \<Longrightarrow> w = v AND mask k" for v w :: data
  by (rule bit_word_eqI) (auto simp: bit_simps)

lemma cut_value_bits:
  "drop_bit (unat (vf_size f)) (fst (cut_value f v)) = 0"
  "j < unat (vf_size f) \<Longrightarrow> bit (fst (cut_value f v)) j = bit v j"
proof -
  show "drop_bit (unat (vf_size f)) (fst (cut_value f v)) = 0"
    by (cases "drop_bit (unat (vf_size f)) v = 0") (auto simp: cut_value_def bit_simps intro!: bit_word_eqI)
  show "j < unat (vf_size f) \<Longrightarrow> bit (fst (cut_value f v)) j = bit v j"
    by (auto simp: cut_value_def bit_simps dest: bit_imp_le_length)
qed

text \<open>The state of the locations that a register of the memory \<open>k\<close> works on.\<close>

abbreviation "site_locs m \<equiv> {a. a < me_size m}"

definition placed :: "(nat \<Rightarrow> 'h mem_env) \<Rightarrow> 'h mem_env \<Rightarrow> nat \<Rightarrow> uvm_mem \<Rightarrow> nat \<Rightarrow> ulong \<Rightarrow> vreg \<Rightarrow> bool" where
  "placed env e k m n idx r \<longleftrightarrow> vr_mem r = Some k \<and> env k = e \<and> n = unat (min_incr r m) \<and> (n - 1) * seg_bits m < 64 \<and>
     spans n (array_base idx r) (site_locs m)"

text \<open>One access each, over the bus.\<close>

lemma field_at:
  assumes "vr_mem r = Some k"
  shows "field_loc seg idx f r = array_base idx r + of_nat (unat (vf_lsb f) div seg)"
  using assms by (simp add: field_loc_def offset_in_memory_def array_base_def)

lemma placedD:
  assumes "placed env e k m n idx r"
  shows "vr_mem r = Some k" "env k = e" "unat (min_incr r m) = n" "spans n (array_base idx r) (site_locs m)" "n \<le> 2 ^ 64"
    "(n - 1) * seg_bits m < 64"
  using assms uint_locs [of "min_incr r m"] by (auto simp: placed_def)

text \<open>A field lies in its register, in locations of 64 bits together at most.\<close>

definition field_fits :: "nat \<Rightarrow> nat \<Rightarrow> vreg_field \<Rightarrow> bool" where
  "field_fits n seg f \<longleftrightarrow> 0 < unat (vf_size f) \<and> unat (vf_lsb f) + unat (vf_size f) \<le> n * seg \<and>
     ((field_low seg f + unat (vf_size f) - 1) div seg + 1) * seg \<le> 64"

definition in_field :: "vreg_field \<Rightarrow> nat \<Rightarrow> bool" where
  "in_field f j \<longleftrightarrow> unat (vf_lsb f) \<le> j \<and> j < unat (vf_lsb f) + unat (vf_size f)"

lemma field_fits_low: "field_fits n seg f \<Longrightarrow> 0 < seg \<Longrightarrow> unat (vf_lsb f) mod seg + unat (vf_size f) \<le> 64"
  using field_extent(1) [of "unat (vf_lsb f) mod seg" seg "unat (vf_size f)", OF _ _ refl]
  by (simp add: field_fits_def field_low_def)

lemma front_same:
  assumes "front_ok S p (m, h)"
  shows "seg_bits m = seg_bits (si_mem S)" "min_incr r m = min_incr r (si_mem S)" "me_backdoor m = me_backdoor (si_mem S)"
  using same_mem_simps(3,6,7) assms by (auto simp: front_ok_def)

lemma vreg_write_bits:
  assumes "front_ok S UVM_FRONTDOOR (mem k, h)" "placed env (si_env S) k (si_mem S) n idx r"
    and "quiet_hooks hk" "default_path hk path = UVM_FRONTDOOR" "seg = seg_bits (si_mem S)"
  shows "\<exists>m1 h1. vreg_write env hk idx v path (si_mp S) r mem h = Some (UVM_IS_OK, r\<lparr>vr_writing := False\<rparr>, mem(k := m1), h1, []) \<and>
    front_ok S UVM_FRONTDOOR (m1, h1) \<and> (\<forall>j < n * seg. vbit (front_look S) seg (array_base idx r) (m1, h1) j \<longleftrightarrow> bit v j) \<and>
    elsewhere (front_look S) n (array_base idx r) (site_locs (si_mem S)) (mem k, h) (m1, h1)"
proof -
  note p = placedD [OF assms(2)]
  from front.register_write [where join = keep_failure, OF assms(1) p(4,5) keep_ok(1) p(6), of v]
  obtain m1 h1 where w: "write_locs (front_write (si_env S) UVM_FRONTDOOR (si_mp S)) keep_failure (array_base idx r) seg v [0..<n]
        UVM_IS_OK (mem k, h) = Some (UVM_IS_OK, (m1, h1), [])" "front_ok S UVM_FRONTDOOR (m1, h1)"
      "\<forall>j < n * seg. vbit (front_look S) seg (array_base idx r) (m1, h1) j \<longleftrightarrow> bit v j"
      "elsewhere (front_look S) n (array_base idx r) (site_locs (si_mem S)) (mem k, h) (m1, h1)"
    unfolding assms(5) by auto
  then show ?thesis
    using assms(3-5) quiet_fields [OF assms(3)] p(1-3) front_same [OF assms(1)]
    by (intro exI [of _ m1] exI [of _ h1]) (simp add: vreg_write_def quiet_hooks_def split_beta)
qed

lemma vreg_read_bits:
  assumes "front_ok S UVM_FRONTDOOR (mem k, h)" "placed env (si_env S) k (si_mem S) n idx r"
    and "quiet_hooks hk" "default_path hk path = UVM_FRONTDOOR" "seg = seg_bits (si_mem S)"
  shows "\<exists>m1 h1 w. vreg_read env hk idx out path (si_mp S) r mem h =
      Some (UVM_IS_OK, w, r\<lparr>vr_reading := False\<rparr>, mem(k := m1), h1, []) \<and> front_ok S UVM_FRONTDOOR (m1, h1) \<and>
    (\<forall>b \<in> site_locs (si_mem S). front_look S (m1, h1) b = front_look S (mem k, h) b) \<and>
    (\<forall>j < 64. bit w j \<longleftrightarrow> j < n * seg \<and> vbit (front_look S) seg (array_base idx r) (mem k, h) j)"
proof -
  note p = placedD [OF assms(2)]
  from front.register_read [where join = keep_failure, OF assms(1) p(4) keep_ok(1) p(6), of 0]
  obtain w m1 h1 where w: "read_locs (front_read (si_env S) UVM_FRONTDOOR (si_mp S)) keep_failure (array_base idx r) seg [0..<n] 0 0
        UVM_IS_OK (mem k, h) = Some ((UVM_IS_OK, w), (m1, h1), [])" "front_ok S UVM_FRONTDOOR (m1, h1)"
      "\<forall>b \<in> site_locs (si_mem S). front_look S (m1, h1) b = front_look S (mem k, h) b"
      "\<forall>j < 64. bit w j \<longleftrightarrow> j < n * seg \<and> vbit (front_look S) seg (array_base idx r) (mem k, h) j"
    unfolding assms(5) by auto
  then show ?thesis
    using assms(3-5) quiet_fields [OF assms(3)] p(1-3) front_same [OF assms(1)]
    by (intro exI [of _ m1] exI [of _ h1] exI [of _ w]) (simp add: vreg_read_def quiet_hooks_def split_beta)
qed

lemma vfield_write_bits:
  assumes "front_ok S UVM_DEFAULT_PATH (mem k, h)" "\<not> me_backdoor (si_mem S)" "\<not> ve_block_backdoor (si_env S)"
    and "placed env (si_env S) k (si_mem S) n idx r" "quiet_hooks hk" "default_path hk path = UVM_FRONTDOOR"
    and "seg = seg_bits (si_mem S)" "field_fits n seg f"
  shows "\<exists>m1 h1. vfield_write env hk idx v path (si_mp S) f r mem h =
      Some (UVM_IS_OK, f\<lparr>vf_writing := False\<rparr>, mem(k := m1), h1, snd (cut_value f v)) \<and> front_ok S UVM_DEFAULT_PATH (m1, h1) \<and>
    (\<forall>j < n * seg. vbit (front_look S) seg (array_base idx r) (m1, h1) j \<longleftrightarrow>
       (if in_field f j then bit v (j - unat (vf_lsb f)) else vbit (front_look S) seg (array_base idx r) (mem k, h) j)) \<and>
    elsewhere (front_look S) n (array_base idx r) (site_locs (si_mem S)) (mem k, h) (m1, h1)"
proof -
  note p = placedD [OF assms(4)]
  note c = cut_value_bits [where f = f and v = v]
  have ft: "0 < unat (vf_size f)" "unat (vf_lsb f) + unat (vf_size f) \<le> n * seg_bits (si_mem S)"
    "((unat (vf_lsb f) mod seg_bits (si_mem S) + unat (vf_size f) - 1) div seg_bits (si_mem S) + 1) * seg_bits (si_mem S) \<le> 64"
    using assms(7,8) by (simp_all add: field_fits_def field_low_def)
  from front.field_update [OF assms(1) p(4,5) ft(1,2) refl ft(3) c(1)]
  obtain w m1 h1 where w: "rmw (front_read (si_env S) UVM_DEFAULT_PATH (si_mp S)) (front_write (si_env S) UVM_FRONTDOOR (si_mp S)) seg
        (field_low seg f) (unat (vf_size f)) (field_loc seg idx f r) (fst (cut_value f v)) (mem k, h) =
      Some (True, UVM_IS_OK, w, (m1, h1), [])" "front_ok S UVM_DEFAULT_PATH (m1, h1)"
    "\<forall>j < n * seg. vbit (front_look S) seg (array_base idx r) (m1, h1) j \<longleftrightarrow>
       (if in_field f j then bit (fst (cut_value f v)) (j - unat (vf_lsb f)) else vbit (front_look S) seg (array_base idx r) (mem k, h) j)"
    "elsewhere (front_look S) n (array_base idx r) (site_locs (si_mem S)) (mem k, h) (m1, h1)"
    unfolding field_at [OF p(1)] field_low_def assms(7) in_field_def by auto
  have "seg_bits (mem k) \<noteq> 0" "mem_get_backdoor (si_env S) (mem k) = (False, mem k)"
    using front.seg [OF assms(1)] front_same [OF assms(1)] assms(2,3) by (simp_all add: mem_get_backdoor_def)
  moreover have "bit (fst (cut_value f v)) (j - unat (vf_lsb f)) = bit v (j - unat (vf_lsb f))" if "in_field f j" for j
    using that c(2) by (simp add: in_field_def less_diff_conv2)
  ultimately show ?thesis
    using w assms(5-7) p(1,2) front_same [OF assms(1)]
    by (intro exI [of _ m1] exI [of _ h1]) (simp add: vfield_write_def quiet_hooks_def split_beta)
qed

lemma vfield_read_bits:
  assumes "front_ok S UVM_FRONTDOOR (mem k, h)" "placed env (si_env S) k (si_mem S) n idx r"
    and "quiet_hooks hk" "default_path hk path = UVM_FRONTDOOR" "seg = seg_bits (si_mem S)" "field_fits n seg f"
  shows "\<exists>m1 h1 w. vfield_read env hk idx out path (si_mp S) f r mem h =
      Some (UVM_IS_OK, w, f\<lparr>vf_reading := False\<rparr>, mem(k := m1), h1, []) \<and> front_ok S UVM_FRONTDOOR (m1, h1) \<and>
    (\<forall>b \<in> site_locs (si_mem S). front_look S (m1, h1) b = front_look S (mem k, h) b) \<and>
    (\<forall>j. bit w j \<longleftrightarrow> j < unat (vf_size f) \<and> vbit (front_look S) seg (array_base idx r) (mem k, h) (unat (vf_lsb f) + j))"
proof -
  note p = placedD [OF assms(2)]
  have seg: "0 < seg" using front.seg [OF assms(1)] assms(5) by simp
  have ft: "0 < unat (vf_size f)" "unat (vf_lsb f) + unat (vf_size f) \<le> n * seg_bits (si_mem S)"
    using assms(5,6) by (simp_all add: field_fits_def)
  from front.field_fetch [OF assms(1) p(4) ft field_fits_low [OF assms(6) seg, unfolded assms(5)]]
  obtain w m1 h1 where w: "gather (front_read (si_env S) UVM_FRONTDOOR (si_mp S)) seg (field_low seg f) (unat (vf_size f))
        (field_loc seg idx f r) (mem k, h) = Some ((UVM_IS_OK, w), (m1, h1), [])" "front_ok S UVM_FRONTDOOR (m1, h1)"
      "\<forall>b \<in> site_locs (si_mem S). front_look S (m1, h1) b = front_look S (mem k, h) b"
      "\<forall>j. bit w j \<longleftrightarrow> j < unat (vf_size f) \<and> vbit (front_look S) seg (array_base idx r) (mem k, h) (unat (vf_lsb f) + j)"
    unfolding field_at [OF p(1)] field_low_def assms(5) by auto
  then show ?thesis
    using assms(3-5) p(1,2) front_same [OF assms(1)] seg
    by (intro exI [of _ m1] exI [of _ h1] exI [of _ w]) (simp add: vfield_read_def quiet_hooks_def split_beta)
qed

lemma front_default_ok: "front_ok S UVM_DEFAULT_PATH s \<Longrightarrow> front_ok S UVM_FRONTDOOR s"
  by (simp add: front_ok_def)

text \<open>C26. Virtual registers over the bus: let the locations of an element of the array lie in a memory whose
  elements fill their addresses. A write through the locations succeeds, makes the bits of the register
  those of the value, changes no other location of the memory, and a read returns the value, cut to the
  bits of the locations.\<close>

theorem vreg_bus_roundtrip:
  assumes site: "front_ok S UVM_FRONTDOOR (mem k, h)" and placed: "placed env (si_env S) k (si_mem S) n idx r"
    and hooks: "quiet_hooks hk" "default_path hk path = UVM_FRONTDOOR" and seg: "seg = seg_bits (si_mem S)"
  shows "\<exists>m1 h1 m2 h2. vreg_write env hk idx v path (si_mp S) r mem h =
      Some (UVM_IS_OK, r\<lparr>vr_writing := False\<rparr>, mem(k := m1), h1, []) \<and>
    (\<forall>j < n * seg. vbit (front_look S) seg (array_base idx r) (m1, h1) j \<longleftrightarrow> bit v j) \<and>
    elsewhere (front_look S) n (array_base idx r) (site_locs (si_mem S)) (mem k, h) (m1, h1) \<and>
    vreg_read env hk idx out path (si_mp S) r (mem(k := m1)) h1 =
      Some (UVM_IS_OK, v AND mask (n * seg), r\<lparr>vr_reading := False\<rparr>, mem(k := m2), h2, [])"
proof -
  obtain m1 h1 where w: "vreg_write env hk idx v path (si_mp S) r mem h =
      Some (UVM_IS_OK, r\<lparr>vr_writing := False\<rparr>, mem(k := m1), h1, [])" "front_ok S UVM_FRONTDOOR (m1, h1)"
      "\<forall>j < n * seg. vbit (front_look S) seg (array_base idx r) (m1, h1) j \<longleftrightarrow> bit v j"
      "elsewhere (front_look S) n (array_base idx r) (site_locs (si_mem S)) (mem k, h) (m1, h1)"
    using vreg_write_bits [where mem = mem and k = k, OF site placed hooks seg] by blast
  obtain m2 h2 x where r: "vreg_read env hk idx out path (si_mp S) r (mem(k := m1)) h1 =
      Some (UVM_IS_OK, x, r\<lparr>vr_reading := False\<rparr>, mem(k := m2), h2, [])"
      "\<forall>j < 64. bit x j \<longleftrightarrow> j < n * seg \<and> vbit (front_look S) seg (array_base idx r) (m1, h1) j"
    using vreg_read_bits [where S = S and mem = "mem(k := m1)" and k = k and h = h1 and out = out, OF _ placed hooks seg] w(2) by auto
  have "x = v AND mask (n * seg)" using r(2) w(3) by (intro bits_and_mask) blast
  then show ?thesis using w(1,3,4) r(1) by blast
qed

text \<open>C6. Fields of virtual registers over the bus: writing a field reads, modifies and writes the locations it lies in.
  It succeeds, warns exactly when the value is cut, sets the bits of the field and leaves every other bit of
  the register and every other location of the memory as it was; reading the field returns the value, cut
  to the field.\<close>

theorem vfield_write_exact:
  assumes site: "front_ok S UVM_DEFAULT_PATH (mem k, h)" "\<not> me_backdoor (si_mem S)" "\<not> ve_block_backdoor (si_env S)"
    and placed: "placed env (si_env S) k (si_mem S) n idx r" and hooks: "quiet_hooks hk" "default_path hk path = UVM_FRONTDOOR"
    and seg: "seg = seg_bits (si_mem S)" and field: "field_fits n seg f"
  shows "\<exists>m1 h1 m2 h2. vfield_write env hk idx v path (si_mp S) f r mem h =
      Some (UVM_IS_OK, f\<lparr>vf_writing := False\<rparr>, mem(k := m1), h1, snd (cut_value f v)) \<and>
    (\<forall>j < n * seg. vbit (front_look S) seg (array_base idx r) (m1, h1) j \<longleftrightarrow>
       (if in_field f j then bit v (j - unat (vf_lsb f)) else vbit (front_look S) seg (array_base idx r) (mem k, h) j)) \<and>
    elsewhere (front_look S) n (array_base idx r) (site_locs (si_mem S)) (mem k, h) (m1, h1) \<and>
    vfield_read env hk idx out path (si_mp S) f r (mem(k := m1)) h1 =
      Some (UVM_IS_OK, v AND mask (unat (vf_size f)), f\<lparr>vf_reading := False\<rparr>, mem(k := m2), h2, [])"
proof -
  let ?bits = "vbit (front_look S) seg (array_base idx r)"
  obtain m1 h1 where w: "vfield_write env hk idx v path (si_mp S) f r mem h =
      Some (UVM_IS_OK, f\<lparr>vf_writing := False\<rparr>, mem(k := m1), h1, snd (cut_value f v))" "front_ok S UVM_DEFAULT_PATH (m1, h1)"
      "\<forall>j < n * seg. ?bits (m1, h1) j \<longleftrightarrow> (if in_field f j then bit v (j - unat (vf_lsb f)) else ?bits (mem k, h) j)"
      "elsewhere (front_look S) n (array_base idx r) (site_locs (si_mem S)) (mem k, h) (m1, h1)"
    using vfield_write_bits [where mem = mem and k = k, OF site placed hooks seg field] by blast
  obtain m2 h2 x where r: "vfield_read env hk idx out path (si_mp S) f r (mem(k := m1)) h1 =
      Some (UVM_IS_OK, x, f\<lparr>vf_reading := False\<rparr>, mem(k := m2), h2, [])"
      "\<forall>j. bit x j \<longleftrightarrow> j < unat (vf_size f) \<and> ?bits (m1, h1) (unat (vf_lsb f) + j)"
    using vfield_read_bits [where S = S and mem = "mem(k := m1)" and k = k and h = h1 and out = out, OF _ placed hooks seg field] front_default_ok [OF w(2)] by auto
  have "?bits (m1, h1) (unat (vf_lsb f) + j) = bit v j" if "j < unat (vf_size f)" for j
    using w(3) field that by (simp add: field_fits_def in_field_def)
  then have "x = v AND mask (unat (vf_size f))" using r(2) by (intro bits_and_mask) auto
  then show ?thesis using w(1,3,4) r(1) by blast
qed

text \<open>One access each, by the backdoor.\<close>

lemma back_same:
  assumes "back_ok e view ps m0 (m, h)"
  shows "seg_bits m = seg_bits m0" "min_incr r m = min_incr r m0"
  using same_mem_simps(3,7) assms by (auto simp: back_ok_def)

lemma vreg_poke_bits:
  assumes "back_ok e view ps m0 (mem k, h)" "placed env e k m0 n idx r" "seg = seg_bits m0"
  shows "\<exists>m1 h1. vreg_poke env idx v r mem h = Some (UVM_IS_OK, mem(k := m1), h1, []) \<and> back_ok e view ps m0 (m1, h1) \<and>
    (\<forall>j < n * seg. vbit (back_look e) seg (array_base idx r) (m1, h1) j \<longleftrightarrow> bit v j) \<and>
    elsewhere (back_look e) n (array_base idx r) (site_locs m0) (mem k, h) (m1, h1)"
proof -
  note p = placedD [OF assms(2)]
  from hdl.register_write [where join = keep_last, OF assms(1) p(4,5) keep_ok(2) p(6), of v]
  obtain m1 h1 where w: "write_locs (back_write e) keep_last (array_base idx r) seg v [0..<n] UVM_IS_OK (mem k, h) =
        Some (UVM_IS_OK, (m1, h1), [])" "back_ok e view ps m0 (m1, h1)"
      "\<forall>j < n * seg. vbit (back_look e) seg (array_base idx r) (m1, h1) j \<longleftrightarrow> bit v j"
      "elsewhere (back_look e) n (array_base idx r) (site_locs m0) (mem k, h) (m1, h1)"
    unfolding assms(3) by auto
  then show ?thesis
    using assms(3) p(1-3) back_same [OF assms(1)] by (intro exI [of _ m1] exI [of _ h1]) (simp add: vreg_poke_def)
qed

lemma vreg_peek_bits:
  assumes "back_ok e view ps m0 (mem k, h)" "placed env e k m0 n idx r" "seg = seg_bits m0"
  shows "\<exists>m1 h1 w. vreg_peek env idx out r mem h = Some (UVM_IS_OK, w, mem(k := m1), h1, []) \<and> back_ok e view ps m0 (m1, h1) \<and>
    (\<forall>b \<in> site_locs m0. back_look e (m1, h1) b = back_look e (mem k, h) b) \<and>
    (\<forall>j < 64. bit w j \<longleftrightarrow> j < n * seg \<and> vbit (back_look e) seg (array_base idx r) (mem k, h) j)"
proof -
  note p = placedD [OF assms(2)]
  from hdl.register_read [where join = keep_last, OF assms(1) p(4) keep_ok(2) p(6), of 0]
  obtain w m1 h1 where w: "read_locs (back_read e) keep_last (array_base idx r) seg [0..<n] 0 0 UVM_IS_OK (mem k, h) =
        Some ((UVM_IS_OK, w), (m1, h1), [])" "back_ok e view ps m0 (m1, h1)"
      "\<forall>b \<in> site_locs m0. back_look e (m1, h1) b = back_look e (mem k, h) b"
      "\<forall>j < 64. bit w j \<longleftrightarrow> j < n * seg \<and> vbit (back_look e) seg (array_base idx r) (mem k, h) j"
    unfolding assms(3) by auto
  then show ?thesis
    using assms(3) p(1-3) back_same [OF assms(1)]
    by (intro exI [of _ m1] exI [of _ h1] exI [of _ w]) (simp add: vreg_peek_def)
qed

lemma vfield_poke_bits:
  assumes "back_ok e view ps m0 (mem k, h)" "placed env e k m0 n idx r" "seg = seg_bits m0" "field_fits n seg f"
  shows "\<exists>m1 h1. vfield_poke env idx v f r mem h = Some (UVM_IS_OK, mem(k := m1), h1, snd (cut_value f v)) \<and>
    back_ok e view ps m0 (m1, h1) \<and>
    (\<forall>j < n * seg. vbit (back_look e) seg (array_base idx r) (m1, h1) j \<longleftrightarrow>
       (if in_field f j then bit v (j - unat (vf_lsb f)) else vbit (back_look e) seg (array_base idx r) (mem k, h) j)) \<and>
    elsewhere (back_look e) n (array_base idx r) (site_locs m0) (mem k, h) (m1, h1)"
proof -
  note p = placedD [OF assms(2)]
  note c = cut_value_bits [where f = f and v = v]
  have ft: "0 < unat (vf_size f)" "unat (vf_lsb f) + unat (vf_size f) \<le> n * seg_bits m0"
    "((unat (vf_lsb f) mod seg_bits m0 + unat (vf_size f) - 1) div seg_bits m0 + 1) * seg_bits m0 \<le> 64"
    using assms(3,4) by (simp_all add: field_fits_def field_low_def)
  from hdl.field_update [OF assms(1) p(4,5) ft(1,2) refl ft(3) c(1)]
  obtain w m1 h1 where w: "rmw (back_read e) (back_write e) seg (field_low seg f) (unat (vf_size f)) (field_loc seg idx f r)
        (fst (cut_value f v)) (mem k, h) = Some (True, UVM_IS_OK, w, (m1, h1), [])" "back_ok e view ps m0 (m1, h1)"
    "\<forall>j < n * seg. vbit (back_look e) seg (array_base idx r) (m1, h1) j \<longleftrightarrow>
       (if in_field f j then bit (fst (cut_value f v)) (j - unat (vf_lsb f)) else vbit (back_look e) seg (array_base idx r) (mem k, h) j)"
    "elsewhere (back_look e) n (array_base idx r) (site_locs m0) (mem k, h) (m1, h1)"
    unfolding field_at [OF p(1)] field_low_def assms(3) in_field_def by auto
  have "bit (fst (cut_value f v)) (j - unat (vf_lsb f)) = bit v (j - unat (vf_lsb f))" if "in_field f j" for j
    using that c(2) by (simp add: in_field_def less_diff_conv2)
  then show ?thesis
    using w assms(3) p(1,2) back_same [OF assms(1)] hdl.seg [OF assms(1)]
    by (intro exI [of _ m1] exI [of _ h1]) (simp add: vfield_poke_def split_beta)
qed

lemma vfield_peek_bits:
  assumes "back_ok e view ps m0 (mem k, h)" "placed env e k m0 n idx r" "seg = seg_bits m0" "field_fits n seg f"
  shows "\<exists>m1 h1 w. vfield_peek env idx out f r mem h = Some (UVM_IS_OK, w, mem(k := m1), h1, []) \<and>
    back_ok e view ps m0 (m1, h1) \<and> (\<forall>b \<in> site_locs m0. back_look e (m1, h1) b = back_look e (mem k, h) b) \<and>
    (\<forall>j. bit w j \<longleftrightarrow> j < unat (vf_size f) \<and> vbit (back_look e) seg (array_base idx r) (mem k, h) (unat (vf_lsb f) + j))"
proof -
  note p = placedD [OF assms(2)]
  have seg: "0 < seg" using hdl.seg [OF assms(1)] assms(3) by simp
  have ft: "0 < unat (vf_size f)" "unat (vf_lsb f) + unat (vf_size f) \<le> n * seg_bits m0"
    using assms(3,4) by (simp_all add: field_fits_def)
  from hdl.field_fetch [OF assms(1) p(4) ft field_fits_low [OF assms(4) seg, unfolded assms(3)]]
  obtain w m1 h1 where w: "gather (back_read e) seg (field_low seg f) (unat (vf_size f)) (field_loc seg idx f r) (mem k, h) =
        Some ((UVM_IS_OK, w), (m1, h1), [])" "back_ok e view ps m0 (m1, h1)"
      "\<forall>b \<in> site_locs m0. back_look e (m1, h1) b = back_look e (mem k, h) b"
      "\<forall>j. bit w j \<longleftrightarrow> j < unat (vf_size f) \<and> vbit (back_look e) seg (array_base idx r) (mem k, h) (unat (vf_lsb f) + j)"
    unfolding field_at [OF p(1)] field_low_def assms(3) by auto
  then show ?thesis
    using assms(3) p(1,2) back_same [OF assms(1)] seg
    by (intro exI [of _ m1] exI [of _ h1] exI [of _ w]) (simp add: vfield_peek_def)
qed

lemma put_slice_bit:
  "j < 64 \<Longrightarrow> bit (put_slice f a (b AND mask (unat (vf_size f)))) j \<longleftrightarrow> (if in_field f j then bit b (j - unat (vf_lsb f)) else bit a j)"
  by (auto simp: put_slice_def vfield_mask_def in_field_def bit_simps)

text \<open>By the backdoor: a virtual register is poked and one of its fields after it, then both are peeked. The
  field has the value poked last, the register the value poked first with the field replaced; all four accesses
  report success, whatever slices the HDL copies of the memory are made of.\<close>

theorem vreg_backdoor_roundtrip:
  assumes site: "back_ok e view ps m0 (mem k, h)" and placed: "placed env e k m0 n idx r" and seg: "seg = seg_bits m0"
    and field: "field_fits n seg f"
  shows "\<exists>m1 h1 m2 h2 m3 h3 m4 h4. vreg_poke env idx v r mem h = Some (UVM_IS_OK, mem(k := m1), h1, []) \<and>
    vfield_poke env idx x f r (mem(k := m1)) h1 = Some (UVM_IS_OK, mem(k := m2), h2, snd (cut_value f x)) \<and>
    vreg_peek env idx out r (mem(k := m2)) h2 =
      Some (UVM_IS_OK, put_slice f (v AND mask (n * seg)) (x AND mask (unat (vf_size f))), mem(k := m3), h3, []) \<and>
    vfield_peek env idx out f r (mem(k := m3)) h3 = Some (UVM_IS_OK, x AND mask (unat (vf_size f)), mem(k := m4), h4, [])"
proof -
  let ?bits = "vbit (back_look e) seg (array_base idx r)"
  note p = placedD [OF placed]
  obtain m1 h1 where w: "vreg_poke env idx v r mem h = Some (UVM_IS_OK, mem(k := m1), h1, [])" "back_ok e view ps m0 (m1, h1)"
    "\<forall>j < n * seg. ?bits (m1, h1) j \<longleftrightarrow> bit v j"
    using vreg_poke_bits [where mem = mem and k = k, OF site placed seg] by blast
  obtain m2 h2 where u: "vfield_poke env idx x f r (mem(k := m1)) h1 = Some (UVM_IS_OK, mem(k := m2), h2, snd (cut_value f x))"
    "back_ok e view ps m0 (m2, h2)"
    "\<forall>j < n * seg. ?bits (m2, h2) j \<longleftrightarrow> (if in_field f j then bit x (j - unat (vf_lsb f)) else ?bits (m1, h1) j)"
    using vfield_poke_bits [where mem = "mem(k := m1)" and k = k and h = h1 and v = x, OF _ placed seg field,
        unfolded fun_upd_same fun_upd_upd, OF w(2)] by blast
  obtain m3 h3 z where r: "vreg_peek env idx out r (mem(k := m2)) h2 = Some (UVM_IS_OK, z, mem(k := m3), h3, [])"
    "back_ok e view ps m0 (m3, h3)" "\<forall>b \<in> site_locs m0. back_look e (m3, h3) b = back_look e (m2, h2) b"
    "\<forall>j < 64. bit z j \<longleftrightarrow> j < n * seg \<and> ?bits (m2, h2) j"
    using vreg_peek_bits [where mem = "mem(k := m2)" and k = k and h = h2 and out = out, OF _ placed seg, unfolded fun_upd_same fun_upd_upd,
        OF u(2)] by blast
  obtain m4 h4 t where g: "vfield_peek env idx out f r (mem(k := m3)) h3 = Some (UVM_IS_OK, t, mem(k := m4), h4, [])"
    "\<forall>j. bit t j \<longleftrightarrow> j < unat (vf_size f) \<and> ?bits (m3, h3) (unat (vf_lsb f) + j)"
    using vfield_peek_bits [where mem = "mem(k := m3)" and k = k and h = h3 and out = out, OF _ placed seg field,
        unfolded fun_upd_same fun_upd_upd, OF r(2)] by blast
  have in_reg: "j < n * seg" if "in_field f j" for j using field that by (simp add: in_field_def field_fits_def)
  have z: "z = put_slice f (v AND mask (n * seg)) (x AND mask (unat (vf_size f)))"
    using r(4) u(3) w(3) in_reg by (intro bit_word_eqI) (auto simp: put_slice_bit bit_simps)
  have "?bits (m3, h3) j = ?bits (m2, h2) j" if "j < n * seg" for j
    using r(3) p(4) loc_index [OF that] by (simp add: vbit_def spans_def)
  then have "?bits (m3, h3) (unat (vf_lsb f) + j) = bit x j" if "j < unat (vf_size f)" for j
    using u(3) that field by (simp add: field_fits_def in_field_def)
  then have t: "t = x AND mask (unat (vf_size f))" using g(2) by (intro bits_and_mask) auto
  show ?thesis using w(1) u(1) r(1) g(1) unfolding z t by blast
qed

section \<open>Registers in memories of bytes\<close>

text \<open>A memory of 16 bytes at 0x100 on a bus of one byte; an array of registers of 24 bits in it, at the locations 2 to
  4, 6 to 8 and so on; a field that crosses from the first to the second location.\<close>

definition octet_info :: mem_map_info where
  "octet_info = \<lparr>mm_offset = 0x100, mm_rights = ''RW'', mm_unmapped = False, mm_addr = [0x100], mm_frontdoor = False,
     mm_min = 0x100, mm_max = 0x10F, mm_stride = 1\<rparr>"

definition octet_maps :: reg_maps where
  "octet_maps = \<lparr>mp_map = (\<lambda>m. (map_configure (Some 0) 0 1 UVM_LITTLE_ENDIAN True new_map)
       \<lparr>rm_system_n_bytes := 1, rm_mems := [(9, octet_info)]\<rparr>), mp_read_only = {}, mp_write_only = {}\<rparr>"

definition octet_mem :: uvm_mem where
  "octet_mem = mem_add_map (Map_Id 0) (fst (mem_configure [] (fst (new_mem ''ram'' 16 8 ''RW'' 0 0))))"

definition octet_site :: "(addr \<Rightarrow> data) site" where
  "octet_site = \<lparr>si_env = word_env\<lparr>ve_info := (\<lambda>k. if k = Map_Id 0 then Some octet_info else None),
       ve_map_write := mem_map_write store_bus (\<lambda>rw h. (rw, h)) True octet_maps 9 8,
       ve_map_read := mem_map_read store_bus (\<lambda>rw h. (rw, h)) True octet_maps 9 8\<rparr>,
     si_bus = store_bus, si_view = (\<lambda>h. h), si_seq = (\<lambda>rw h. (rw, h)), si_maps = octet_maps, si_map = 0, si_id = 9,
     si_info = octet_info, si_mp = Some (Map_Id 0), si_mem = octet_mem\<rparr>"

definition wide_vreg :: vreg where
  "wide_vreg = (fst (new_vreg ''wide'' 24))\<lparr>vr_mem := Some 0, vr_offset := 2, vr_incr := 4, vr_size := 3\<rparr>"

definition cross_field :: vreg_field where
  "cross_field = \<lparr>vf_name = ''cross'', vf_lsb = 6, vf_size = 9, vf_reading = False, vf_writing = False\<rparr>"

definition no_vreg_hooks :: vreg_hooks where
  "no_vreg_hooks = \<lparr>vh_default_path = UVM_FRONTDOOR, vh_field_pre_write = (\<lambda>_ _ rt. rt), vh_field_post_write = (\<lambda>_ _ _ _ _ st. st),
     vh_field_pre_read = (\<lambda>_ _ rt. rt), vh_field_post_read = (\<lambda>_ _ _ _ x. x), vh_pre_write = (\<lambda>_ rt. rt),
     vh_post_write = (\<lambda>_ _ _ _ st. st), vh_pre_read = (\<lambda>_ rt. rt), vh_post_read = (\<lambda>_ _ _ x. x)\<rparr>"

lemma octet_facts:
  "map_of (rm_mems (mp_map octet_maps 0)) 9 = Some octet_info" "map_n_bytes octet_maps UVM_HIER 0 = 1"
  "me_size octet_mem = 16" "me_n_bits octet_mem = 8" "seg_bits octet_mem = 8" "me_backdoor octet_mem = False"
  "mem_local_map (ve_maps word_env) octet_mem (Some (Map_Id 0)) = (Some (Map_Id 0), [])" "unat (min_incr wide_vreg octet_mem) = 3"
  by code_simp+

lemma octet_site_ok: "front_site octet_site"
proof -
  have "elems_fill 1 octet_info octet_mem"
    by (auto simp: elems_fill_def octet_facts octet_info_def elem_addrs_def)
  then show ?thesis
    using octet_facts store_bus_stores
    by (simp add: front_site_def octet_site_def mem_no_hooks_def word_env_def octet_info_def)
qed

lemma octet_ok: "path = UVM_FRONTDOOR \<or> path = UVM_DEFAULT_PATH \<Longrightarrow> front_ok octet_site path (octet_mem, h)"
  using octet_site_ok by (auto simp: front_ok_def octet_site_def word_env_def)

lemma wide_spans: "spans 3 (array_base 1 wide_vreg) {a. a < 16}"
proof -
  have "array_base 1 wide_vreg = 6" by code_simp
  moreover have "i = 0 \<or> i = 1 \<or> i = 2" if "i < 3" for i :: nat using that by arith
  ultimately show ?thesis by (fastforce simp: spans_def)
qed

lemma wide_placed: "me_size m = 16 \<Longrightarrow> unat (min_incr wide_vreg m) = 3 \<Longrightarrow> seg_bits m = 8 \<Longrightarrow> placed (\<lambda>_. e) e 0 m 3 1 wide_vreg"
  using wide_spans by (simp add: placed_def wide_vreg_def)

lemma no_hooks_quiet: "quiet_hooks no_vreg_hooks" "default_path no_vreg_hooks UVM_DEFAULT_PATH = UVM_FRONTDOOR"
  by (simp_all add: quiet_hooks_def no_vreg_hooks_def default_path_def)

lemma cross_fits: "field_fits 3 8 cross_field"
  by code_simp

theorem vreg_bus_roundtrip_witness:
  "\<exists>m1 h1 m2 h2. vreg_write (\<lambda>_. si_env octet_site) no_vreg_hooks 1 0x1A2B3C4 UVM_DEFAULT_PATH (Some (Map_Id 0)) wide_vreg (\<lambda>_. octet_mem)
      (\<lambda>_. 0xFF) = Some (UVM_IS_OK, wide_vreg\<lparr>vr_writing := False\<rparr>, (\<lambda>_. octet_mem)(0 := m1), h1, []) \<and>
    vreg_read (\<lambda>_. si_env octet_site) no_vreg_hooks 1 0 UVM_DEFAULT_PATH (Some (Map_Id 0)) wide_vreg ((\<lambda>_. octet_mem)(0 := m1)) h1 =
      Some (UVM_IS_OK, 0xA2B3C4, wide_vreg\<lparr>vr_reading := False\<rparr>, (\<lambda>_. octet_mem)(0 := m2), h2, [])"
proof -
  have s: "si_mem octet_site = octet_mem" "si_mp octet_site = Some (Map_Id 0)" by (simp_all add: octet_site_def)
  have p: "placed (\<lambda>_. si_env octet_site) (si_env octet_site) 0 (si_mem octet_site) 3 1 wide_vreg"
    using wide_placed octet_facts s by simp
  have v: "0x1A2B3C4 AND mask (3 * 8) = (0xA2B3C4 :: data)" by (simp add: mask_eq_exp_minus_1)
  have "front_ok octet_site UVM_FRONTDOOR ((\<lambda>_ :: nat. octet_mem) 0, \<lambda>_. 0xFF)" by (rule octet_ok) simp
  from vreg_bus_roundtrip [where v = "0x1A2B3C4" and out = 0 and seg = 8, OF this p no_hooks_quiet] show ?thesis
    unfolding s octet_facts v by blast
qed

theorem vfield_write_exact_witness:
  "\<exists>m1 h1 m2 h2. vfield_write (\<lambda>_. si_env octet_site) no_vreg_hooks 1 0x305 UVM_DEFAULT_PATH (Some (Map_Id 0)) cross_field wide_vreg
      (\<lambda>_. octet_mem) (\<lambda>_. 0xFF) = Some (UVM_IS_OK, cross_field, (\<lambda>_. octet_mem)(0 := m1), h1, [(UVM_WARNING, ''RegModel'')]) \<and>
    vfield_read (\<lambda>_. si_env octet_site) no_vreg_hooks 1 0 UVM_DEFAULT_PATH (Some (Map_Id 0)) cross_field wide_vreg
      ((\<lambda>_. octet_mem)(0 := m1)) h1 = Some (UVM_IS_OK, 0x105, cross_field, (\<lambda>_. octet_mem)(0 := m2), h2, [])"
proof -
  have s: "si_mem octet_site = octet_mem" "si_mp octet_site = Some (Map_Id 0)" by (simp_all add: octet_site_def)
  have p: "placed (\<lambda>_. si_env octet_site) (si_env octet_site) 0 (si_mem octet_site) 3 1 wide_vreg"
    using wide_placed octet_facts s by simp
  have f: "cross_field\<lparr>vf_writing := False\<rparr> = cross_field" "cross_field\<lparr>vf_reading := False\<rparr> = cross_field"
    "snd (cut_value cross_field 0x305) = [(UVM_WARNING, ''RegModel'')]" "0x305 AND mask (unat (vf_size cross_field)) = (0x105 :: data)"
    by (simp_all add: cross_field_def cut_value_def mask_eq_exp_minus_1 drop_bit_eq_div)
  have b: "\<not> me_backdoor (si_mem octet_site)" "\<not> ve_block_backdoor (si_env octet_site)"
    using octet_facts(6) s by (simp_all add: octet_site_def word_env_def)
  have "front_ok octet_site UVM_DEFAULT_PATH ((\<lambda>_ :: nat. octet_mem) 0, \<lambda>_. 0xFF)" by (rule octet_ok) simp
  from vfield_write_exact [where v = "0x305" and out = 0 and seg = 8 and f = cross_field, OF this b p no_hooks_quiet _ cross_fits]
  show ?thesis unfolding s octet_facts f by blast
qed

theorem vreg_backdoor_roundtrip_witness:
  "\<exists>m1 h1 m2 h2 m3 h3. vreg_poke (\<lambda>_. hdl_env) 1 0xFFFFFF wide_vreg (\<lambda>_. byte_mem) (\<lambda>_. 0) =
      Some (UVM_IS_OK, (\<lambda>_. byte_mem)(0 := m1), h1, []) \<and>
    vfield_poke (\<lambda>_. hdl_env) 1 5 cross_field wide_vreg ((\<lambda>_. byte_mem)(0 := m1)) h1 = Some (UVM_IS_OK, (\<lambda>_. byte_mem)(0 := m2), h2, []) \<and>
    vreg_peek (\<lambda>_. hdl_env) 1 0 wide_vreg ((\<lambda>_. byte_mem)(0 := m2)) h2 = Some (UVM_IS_OK, 0xFF817F, (\<lambda>_. byte_mem)(0 := m3), h3, [])"
proof -
  have n: "seg_bits byte_mem = 8" "unat (min_incr wide_vreg byte_mem) = 3" by code_simp+
  have "back_ready hdl_env [] byte_mem byte_paths" "paths_ok hdl_env 8 byte_paths" "hdl_stores (ve_deposit hdl_env) (ve_hdl_read hdl_env) (\<lambda>h. h)"
    using byte_back by simp_all
  then have "back_site hdl_env (\<lambda>h. h) byte_paths byte_mem" using byte_facts(5) n by (simp add: back_site_def)
  moreover have "holds_elem (\<lambda>_. 0) a 0 byte_paths" for a by (simp add: holds_elem_def slice_val_def)
  ultimately have ok: "back_ok hdl_env (\<lambda>h. h) byte_paths byte_mem ((\<lambda>_ :: nat. byte_mem) 0, \<lambda>_. 0)" by (auto simp: back_ok_def)
  have p: "placed (\<lambda>_. hdl_env) hdl_env 0 byte_mem 3 1 wide_vreg" by (rule wide_placed) (simp_all add: byte_facts n)
  have v: "put_slice cross_field (0xFFFFFF AND mask (3 * 8)) (5 AND mask (unat (vf_size cross_field))) = 0xFF817F"
    "snd (cut_value cross_field 5) = []" by code_simp+
  from vreg_backdoor_roundtrip [where v = "0xFFFFFF" and x = 5 and out = 0 and seg = 8, OF ok p _ cross_fits] show ?thesis
    unfolding v n by blast
qed

section \<open>Static registers\<close>

text \<open>What may follow: \<open>configure\<close> with a memory again, the other operations on the register, and accesses,
  which change only its flags.\<close>

datatype vreg_op =
    VConfigure "nat option" nat ulong addr uint
  | VImplement ulong "nat option" addr uint
  | VAllocate ulong "nat option"
  | VRelease
  | VAdd_field vreg_field
  | VLock
  | VFlags bool bool

fun vreg_op_step :: "nat \<Rightarrow> vreg_op \<Rightarrow> vreg \<times> vreg_world \<times> reg_model \<Rightarrow> (vreg \<times> vreg_world \<times> reg_model) option" where
  "vreg_op_step self (VConfigure parent k n offset incr) (r, w, md) =
     map_option (\<lambda>(r2, w2, md2, ms). (r2, w2, md2)) (vreg_configure self parent (Some k) n offset incr r w md)"
| "vreg_op_step self (VImplement n mem offset incr) (r, w, md) =
     map_option (\<lambda>(b, r2, w2, ms). (r2, w2, md)) (vreg_implement self n mem offset incr r w)"
| "vreg_op_step self (VAllocate n mam) (r, w, md) =
     map_option (\<lambda>(rg, r2, w2, ms). (r2, w2, md)) (vreg_allocate self n mam r w)"
| "vreg_op_step self VRelease (r, w, md) = (case vreg_release self r w of (r2, w2, ms) \<Rightarrow> Some (r2, w2, md))"
| "vreg_op_step self (VAdd_field f) (r, w, md) = Some (fst (vreg_add_field f r), w, md)"
| "vreg_op_step self VLock (r, w, md) = Some (vreg_lock_model r, w, md)"
| "vreg_op_step self (VFlags a b) (r, w, md) = Some (r\<lparr>vr_writing := a, vr_reading := b\<rparr>, w, md)"

fun vreg_run :: "nat \<Rightarrow> vreg_op list \<Rightarrow> vreg \<times> vreg_world \<times> reg_model \<Rightarrow> (vreg \<times> vreg_world \<times> reg_model) option" where
  "vreg_run self [] s = Some s"
| "vreg_run self (e # es) s = (case vreg_op_step self e s of None \<Rightarrow> None | Some s1 \<Rightarrow> vreg_run self es s1)"

definition dead_vreg :: "vreg \<Rightarrow> bool" where
  "dead_vreg r \<longleftrightarrow> vr_mem r = None \<and> vr_region r = None \<and> vr_static r"

lemma static_implement:
  "vr_static r \<Longrightarrow> vreg_implement self n mem offset incr r w = Some x \<Longrightarrow> \<not> fst x \<and> fst (snd x) = r"
  by (auto simp: vreg_implement_def Let_def split: if_splits option.splits)

lemma static_allocate:
  "vr_static r \<Longrightarrow> vreg_allocate self n mam r w = Some x \<Longrightarrow> fst x = None \<and> fst (snd x) = r"
  by (auto simp: vreg_allocate_def Let_def split: if_splits option.splits)

lemma dead_stays:
  assumes "dead_vreg r" "vreg_op_step self e (r, w, md) = Some (r', w', md')"
  shows "dead_vreg r'"
proof -
  have st: "vr_static (r\<lparr>vr_parent := p, vr_n_used := 0\<rparr>)" for p using assms(1) by (simp add: dead_vreg_def)
  have c: "dead_vreg (r2\<lparr>vr_static := True\<rparr>)"
    if "vreg_implement self n mem offset incr (r\<lparr>vr_parent := p, vr_n_used := 0\<rparr>) w = Some (b, r2, w2, ms)"
    for n mem offset incr p b r2 w2 ms
    using static_implement [OF st that] assms(1) by (auto simp: dead_vreg_def)
  show ?thesis
  proof (cases e)
    case (VConfigure p k n offset incr)
    with assms(2) c [of n "Some k" offset incr p] show ?thesis
      by (auto simp: vreg_configure_def Let_def split_beta split: option.splits)
  next
    case (VImplement n mem offset incr)
    with assms static_implement [of r self n mem offset incr w] show ?thesis by (auto simp: dead_vreg_def)
  next
    case (VAllocate n mam)
    with assms static_allocate [of r self n mam w] show ?thesis by (auto simp: dead_vreg_def)
  qed (use assms in \<open>auto simp: dead_vreg_def vreg_release_def vreg_lock_model_def vreg_add_field_def Let_def
        split: prod.splits if_splits option.splits\<close>)
qed

lemma dead_run: "dead_vreg r \<Longrightarrow> vreg_run self es (r, w, md) = Some (r', w', md') \<Longrightarrow> dead_vreg r'"
  by (induction es arbitrary: r w md) (auto split: option.splits dest: dead_stays)

text \<open>C32. A register that \<open>configure\<close> is to implement in a memory is not: \<open>implement\<close> fails for a register
  without a region, an error is reported, no memory changes, and the register becomes static. Until \<open>configure\<close> is called
  without a memory, nothing gives it one: after any sequence of \<open>configure\<close> with a memory,
  \<open>implement\<close>, \<open>allocate\<close>, \<open>release_region\<close>, \<open>add_field\<close>, \<open>lock_model\<close> and accesses, every write,
  read, poke and peek of the register and of its fields fails and touches no memory. The documentation
  of \<open>configure\<close> promises a register implemented in the memory.\<close>

theorem static_vreg_dead:
  assumes "vr_region r = None" "vr_mem r = None" "vreg_configure self parent (Some k) n offset incr r w md = Some (r1, w1, md1, ms)"
    and "vreg_run self es (r1, w1, md1) = Some (r', w', md')"
  shows "(UVM_ERROR, ''RegModel'') \<in> set ms \<and> vw_mem w1 = vw_mem w \<and> vr_mem r' = None \<and> vr_static r' \<and>
    (\<forall>env hk idx v path mp mem h. vreg_write env hk idx v path mp r' mem h =
       Some (UVM_NOT_OK, r'\<lparr>vr_writing := True\<rparr>, mem, h, [(UVM_ERROR, ''RegModel'')])) \<and>
    (\<forall>env hk idx out path mp mem h. vreg_read env hk idx out path mp r' mem h =
       Some (UVM_NOT_OK, out, r'\<lparr>vr_reading := True\<rparr>, mem, h, [(UVM_ERROR, ''RegModel'')])) \<and>
    (\<forall>env idx v mem h. vreg_poke env idx v r' mem h = Some (UVM_NOT_OK, mem, h, [(UVM_ERROR, ''RegModel'')])) \<and>
    (\<forall>env idx out mem h. vreg_peek env idx out r' mem h = Some (UVM_NOT_OK, out, mem, h, [(UVM_ERROR, ''RegModel'')])) \<and>
    (\<forall>env hk idx v path mp f mem h. vfield_write env hk idx v path mp f r' mem h =
       Some (UVM_NOT_OK, f\<lparr>vf_writing := True\<rparr>, mem, h, [(UVM_ERROR, ''RegModel'')])) \<and>
    (\<forall>env hk idx out path mp f mem h. vfield_read env hk idx out path mp f r' mem h =
       Some (UVM_NOT_OK, out, f\<lparr>vf_reading := True\<rparr>, mem, h, [(UVM_ERROR, ''RegModel'')])) \<and>
    (\<forall>env idx v f mem h. vfield_poke env idx v f r' mem h = Some (UVM_NOT_OK, mem, h, [(UVM_ERROR, ''RegModel'')])) \<and>
    (\<forall>env idx out f mem h. vfield_peek env idx out f r' mem h = Some (UVM_NOT_OK, out, mem, h, [(UVM_ERROR, ''RegModel'')]))"
proof -
  let ?r1 = "r\<lparr>vr_parent := parent, vr_n_used := 0\<rparr>"
  have "vr_region ?r1 = None" using assms(1) by simp
  moreover obtain b r2 ms2 where i: "vreg_implement self n (Some k) offset incr ?r1 w = Some (b, r2, w1, ms2)"
    "r1 = r2\<lparr>vr_static := True\<rparr>" "set ms2 \<subseteq> set ms"
    using assms(3) by (auto simp: vreg_configure_def Let_def split_beta split: option.splits)
  ultimately have "r2 = ?r1" "(UVM_ERROR, ''RegModel'') \<in> set ms2" "vw_mem w1 = vw_mem w"
    using implement_without_region [of ?r1 self n k offset incr w b r2 w1 ms2] by auto
  with i(2,3) assms(1,2) have 1: "dead_vreg r1" "(UVM_ERROR, ''RegModel'') \<in> set ms" "vw_mem w1 = vw_mem w"
    by (auto simp: dead_vreg_def)
  then have "vr_mem r' = None" "vr_static r'" using dead_run [OF 1(1) assms(4)] by (simp_all add: dead_vreg_def)
  with 1(2,3) show ?thesis
    by (simp add: vreg_write_def vreg_read_def vreg_poke_def vreg_peek_def vfield_write_def vfield_read_def
        vfield_poke_def vfield_peek_def)
qed

theorem static_vreg_dead_witness:
  "\<exists>r1 w1 md1 ms r' w' md'. vreg_configure 7 (Some 5) (Some 0) 3 0 0 (small_vreg\<lparr>vr_parent := None\<rparr>) byte_world demo_model = Some (r1, w1, md1, ms) \<and>
     vreg_run 7 [VAllocate 3 (Some 0), VRelease, VAdd_field cross_field] (r1, w1, md1) = Some (r', w', md') \<and>
     (UVM_ERROR, ''RegModel'') \<in> set ms \<and>
     vreg_write (\<lambda>_. hdl_env) no_vreg_hooks 0 9 UVM_FRONTDOOR None r' (\<lambda>_. byte_mem) (\<lambda>_. 0) =
       Some (UVM_NOT_OK, r'\<lparr>vr_writing := True\<rparr>, \<lambda>_. byte_mem, \<lambda>_. 0, [(UVM_ERROR, ''RegModel'')])"
proof -
  let ?r = "small_vreg\<lparr>vr_parent := None\<rparr>"
  have none: "vr_region ?r = None" "vr_mem ?r = None" using small_facts by simp_all
  have "small_vreg\<lparr>vr_parent := Some 5, vr_n_used := 0\<rparr> = small_vreg" by code_simp
  then obtain r1 w1 md1 ms where c: "vreg_configure 7 (Some 5) (Some 0) 3 0 0 ?r byte_world demo_model = Some (r1, w1, md1, ms)"
    using implement_leaks by (auto simp: vreg_configure_def split_beta)
  have s1: "vr_static r1" using c by (auto simp: vreg_configure_def split_beta split: option.splits)
  have "\<exists>r' w' md'. vreg_run 7 [VAllocate 3 (Some 0), VRelease, VAdd_field cross_field] (r1, w1, md1) = Some (r', w', md')"
    using s1 by (simp add: vreg_allocate_def vreg_release_def)
  then obtain r' w' md' where run:
    "vreg_run 7 [VAllocate 3 (Some 0), VRelease, VAdd_field cross_field] (r1, w1, md1) = Some (r', w', md')" by blast
  note d = static_vreg_dead [OF none c run]
  note e = d [THEN conjunct1]
  note f = d [THEN conjunct2, THEN conjunct2, THEN conjunct2, THEN conjunct2, THEN conjunct1, rule_format]
  show ?thesis by (intro exI conjI, rule c, rule run, rule e, rule f)
qed

end
