(* ===== verification/Glob.thy ===== *)
theory Glob
  imports UVM_Prelude
begin

text \<open>
  \<open>src/uvmsc/base/uvm_globals.cpp\<close>, names with wildcards: a glob is translated to an extended
  regular expression between slashes, and that expression is matched against a whole string.
  Of \<open>std::regex\<close> the model has what translated globs use: characters, the dot, escapes,
  the quantifiers \<open>*\<close> and \<open>+\<close>, and the anchors at the ends. For any other expression (groups,
  alternatives, bracket expressions, counted repetition) the result of a match is \<open>None\<close>.
  Strings have no null characters. The translation writes into the static buffer \<open>uvm_re\<close> of 2048
  characters without a check; it is \<open>None\<close> where it would write behind its end.
\<close>

section \<open>From globs to regular expressions\<close>

definition bracket_char :: char where
  "bracket_char = CHR ''/''"

definition glob_char :: "char \<Rightarrow> string" where
  "glob_char c =
     (if c = CHR ''*'' then ''.*''
      else if c = CHR ''+'' then ''.+''
      else if c = CHR ''.'' then [CHR 0x5C, CHR ''.'']
      else if c = CHR ''?'' then ''.''
      else if c = CHR ''['' then [CHR 0x5C, CHR ''['']
      else if c = CHR ''('' then [CHR 0x5C, CHR ''('']
      else if c = CHR '')'' then [CHR 0x5C, CHR '')'']
      else [c])"

text \<open>The buffer: the last character written is the null character behind the expression.\<close>

definition uvm_re_size :: nat where
  "uvm_re_size = 2048"

definition uvm_glob_to_re :: "string \<Rightarrow> (string \<times> msg list) option" where
  "uvm_glob_to_re s =
     (if 2040 < length s then Some (s, [(UVM_ERROR, ''GLOBERR'')])
      else if s = [] \<or> s = [bracket_char] then Some ([], [])
      else if hd s = bracket_char \<and> last s = bracket_char then Some (s, [])
      else
        (let re = bracket_char # (if hd s \<noteq> CHR ''^'' then ''^'' else []) @ concat (map glob_char s);
             re = re @ (if last re \<noteq> CHR ''$'' then ''$'' else []) @ [bracket_char]
         in if uvm_re_size < length re + 1 then None else Some (re, [])))"

definition uvm_has_wildcard :: "string \<Rightarrow> bool" where
  "uvm_has_wildcard s \<longleftrightarrow>
     CHR ''*'' \<in> set s \<or> CHR ''?'' \<in> set s \<or> CHR ''+'' \<in> set s \<or> (s \<noteq> [] \<and> hd s = bracket_char)"

section \<open>Regular expressions\<close>

datatype re_atom = Lit char | Any

datatype re_item = One re_atom | Star re_atom | Plus re_atom

definition re_specials :: "char list" where
  "re_specials = ''.[()*+?{|^$'' @ [CHR 0x5C]"

fun next_atom :: "string \<Rightarrow> (re_atom \<times> string) option" where
  "next_atom [] = None"
| "next_atom (c # r) =
     (if c = CHR 0x5C then (case r of [] \<Rightarrow> None | d # r' \<Rightarrow> if d \<in> set re_specials then Some (Lit d, r') else None)
      else if c = CHR ''.'' then Some (Any, r)
      else if c \<in> set re_specials then None
      else Some (Lit c, r))"

definition next_item :: "string \<Rightarrow> (re_item \<times> string) option" where
  "next_item s =
     (case next_atom s of
        None \<Rightarrow> None
      | Some (a, []) \<Rightarrow> Some (One a, [])
      | Some (a, c # r) \<Rightarrow>
          (if c = CHR ''*'' then Some (Star a, r) else if c = CHR ''+'' then Some (Plus a, r) else Some (One a, c # r)))"

lemma next_atom_shorter: "next_atom s = Some (a, r) \<Longrightarrow> length r < length s"
  by (cases s) (auto split: if_splits list.splits)

lemma next_item_shorter: "next_item s = Some (i, r) \<Longrightarrow> length r < length s"
  by (fastforce simp: next_item_def dest: next_atom_shorter split: option.splits list.splits if_splits)

function re_items :: "string \<Rightarrow> re_item list option" where
  "re_items s =
     (if s = [] then Some []
      else (case next_item s of None \<Rightarrow> None | Some (i, r) \<Rightarrow> map_option (\<lambda>is. i # is) (re_items r)))"
  by pat_completeness auto
termination
  by (relation "measure length") (auto dest: next_item_shorter)

declare re_items.simps [simp del]

fun atom_ok :: "re_atom \<Rightarrow> char \<Rightarrow> bool" where
  "atom_ok (Lit d) c = (c = d)"
| "atom_ok Any c = True"

function items_match :: "re_item list \<Rightarrow> string \<Rightarrow> bool" where
  "items_match [] s = (s = [])"
| "items_match (One a # is) s = (case s of [] \<Rightarrow> False | c # s' \<Rightarrow> atom_ok a c \<and> items_match is s')"
| "items_match (Star a # is) s =
     (items_match is s \<or> (case s of [] \<Rightarrow> False | c # s' \<Rightarrow> atom_ok a c \<and> items_match (Star a # is) s'))"
| "items_match (Plus a # is) s = (case s of [] \<Rightarrow> False | c # s' \<Rightarrow> atom_ok a c \<and> items_match (Star a # is) s')"
  by pat_completeness auto
termination
  by (relation "measure (\<lambda>(is, s). length is + length s)") auto

text \<open>The anchors at the two ends; a dollar sign after a backslash is an escaped one.\<close>

definition strip_anchors :: "string \<Rightarrow> string" where
  "strip_anchors rex =
     (let r = (if rex \<noteq> [] \<and> hd rex = CHR ''^'' then tl rex else rex)
      in if r \<noteq> [] \<and> last r = CHR ''$'' \<and> (butlast r = [] \<or> last (butlast r) \<noteq> CHR 0x5C) then butlast r else r)"

definition regex_match :: "string \<Rightarrow> string \<Rightarrow> bool option" where
  "regex_match rex s = map_option (\<lambda>is. items_match is s) (re_items (strip_anchors rex))"

text \<open>\<open>uvm_re_match\<close> returns false for a match.\<close>

definition uvm_re_match :: "string \<Rightarrow> string \<Rightarrow> bool option" where
  "uvm_re_match re s =
     (let rex = (if 1 < length re \<and> hd re = bracket_char \<and> last re = bracket_char then butlast (tl re) else re)
      in map_option Not (regex_match rex s))"

definition uvm_is_match :: "string \<Rightarrow> string \<Rightarrow> bool option" where
  "uvm_is_match expr s =
     (case uvm_glob_to_re expr of None \<Rightarrow> None | Some (re, _) \<Rightarrow> map_option Not (uvm_re_match re s))"

section \<open>The language of a glob\<close>

fun glob_lang :: "string \<Rightarrow> string set" where
  "glob_lang [] = {[]}"
| "glob_lang (c # g) =
     (if c = CHR ''*'' then {u @ v | u v. v \<in> glob_lang g}
      else if c = CHR ''+'' then {u @ v | u v. u \<noteq> [] \<and> v \<in> glob_lang g}
      else if c = CHR ''?'' then {d # v | d v. v \<in> glob_lang g}
      else {c # v | v. v \<in> glob_lang g})"

text \<open>Globs without the characters that regular expressions give a meaning and the translation passes on.\<close>

definition plain_glob :: "string \<Rightarrow> bool" where
  "plain_glob g \<longleftrightarrow> length g \<le> 2040 \<and> set g \<inter> set (''^${|'' @ [CHR 0x5C]) = {}
     \<and> \<not> (g \<noteq> [] \<and> hd g = bracket_char \<and> last g = bracket_char)"

definition glob_item :: "char \<Rightarrow> re_item" where
  "glob_item c = (if c = CHR ''*'' then Star Any else if c = CHR ''+'' then Plus Any
     else if c = CHR ''?'' then One Any else One (Lit c))"

lemma items_star: "items_match (Star Any # is) s \<longleftrightarrow> (\<exists>u v. s = u @ v \<and> items_match is v)"
proof (induction s)
  case (Cons c s)
  have "(\<exists>u v. c # s = u @ v \<and> items_match is v) \<longleftrightarrow> items_match is (c # s) \<or> (\<exists>u v. s = u @ v \<and> items_match is v)"
    by (auto simp: Cons_eq_append_conv)
  with Cons show ?case by simp
qed simp

lemma items_plus: "items_match (Plus Any # is) s \<longleftrightarrow> (\<exists>u v. u \<noteq> [] \<and> s = u @ v \<and> items_match is v)"
proof (cases s)
  case (Cons c s')
  have "(\<exists>u v. u \<noteq> [] \<and> c # s' = u @ v \<and> items_match is v) \<longleftrightarrow> (\<exists>u v. s' = u @ v \<and> items_match is v)"
    by (auto simp: Cons_eq_append_conv)
  with Cons show ?thesis by (simp add: items_star del: items_match.simps(3))
qed simp

lemma glob_items_lang: "items_match (map glob_item g) s \<longleftrightarrow> s \<in> glob_lang g"
proof (induction g arbitrary: s)
  case (Cons c g)
  show ?case
    using Cons.IH by (auto simp: glob_item_def items_star items_plus simp del: items_match.simps(3,4) split: list.splits)
qed simp

lemma glob_char_ne: "glob_char c \<noteq> []"
  by (simp add: glob_char_def)

text \<open>No translated glob begins with a quantifier, so no character before it is quantified.\<close>

lemma next_item_glob:
  assumes "c \<notin> set (''^${|'' @ [CHR 0x5C])" "t = [] \<or> hd t \<notin> {CHR ''*'', CHR ''+''}"
  shows "next_item (glob_char c @ t) = Some (glob_item c, t)"
  using assms by (cases t) (auto simp: next_item_def glob_char_def glob_item_def re_specials_def)

lemma hd_glob: "g \<noteq> [] \<Longrightarrow> hd (concat (map glob_char g)) \<notin> {CHR ''*'', CHR ''+''}"
  by (cases g) (auto simp: glob_char_def)

lemma re_items_glob:
  "set g \<inter> set (''^${|'' @ [CHR 0x5C]) = {} \<Longrightarrow> re_items (concat (map glob_char g)) = Some (map glob_item g)"
proof (induction g)
  case (Cons c g)
  have "concat (map glob_char g) = [] \<or> hd (concat (map glob_char g)) \<notin> {CHR ''*'', CHR ''+''}"
    using hd_glob [of g] by (cases "g = []") simp_all
  moreover have "c \<notin> set (''^${|'' @ [CHR 0x5C])" using Cons.prems by auto
  ultimately have "next_item (glob_char c @ concat (map glob_char g)) = Some (glob_item c, concat (map glob_char g))"
    by (intro next_item_glob)
  with Cons glob_char_ne [of c] show ?case
    by (subst re_items.simps) auto
qed (simp add: re_items.simps)

lemma last_glob:
  assumes "g \<noteq> []" "set g \<inter> set (''^${|'' @ [CHR 0x5C]) = {}"
  shows "last (concat (map glob_char g)) \<notin> {CHR ''$'', CHR 0x5C}"
proof -
  have "last (concat (map glob_char g)) = last (glob_char (last g))"
    using assms(1) glob_char_ne by (induction g) auto
  moreover have "last g \<in> set g" using assms(1) by simp
  ultimately show ?thesis using assms(2) by (auto simp: glob_char_def)
qed

text \<open>What a glob takes in the buffer besides the five characters around it.\<close>

abbreviation glob_size :: "string \<Rightarrow> nat" where
  "glob_size g \<equiv> length g + length (filter (\<lambda>c. c \<in> set ''*+.[()'') g)"

lemma glob_length: "length (concat (map glob_char g)) = glob_size g"
  by (induction g) (simp_all add: glob_char_def)

lemma glob_regex:
  assumes "plain_glob g" "g \<noteq> []"
  shows "uvm_glob_to_re g = (if glob_size g + 5 \<le> 2048
    then Some (bracket_char # CHR ''^'' # concat (map glob_char g) @ [CHR ''$'', bracket_char], []) else None)"
proof -
  have "hd g \<noteq> CHR ''^''" "g \<noteq> [bracket_char]" using assms by (cases g; auto simp: plain_glob_def)+
  moreover have "last (concat (map glob_char g)) \<noteq> CHR ''$''" "concat (map glob_char g) \<noteq> []"
    using last_glob [of g] assms glob_char_ne by (cases g; auto simp: plain_glob_def)+
  moreover have "length g \<le> 2040" "\<not> (hd g = bracket_char \<and> last g = bracket_char)"
    using assms by (simp_all add: plain_glob_def)
  ultimately show ?thesis using assms(2)
    by (simp add: uvm_glob_to_re_def Let_def uvm_re_size_def glob_length cong: conj_cong)
qed

text \<open>C39. Glob matching is what it says, as far as the buffer goes. For a glob of at most 2040 characters without
  characters that regular expressions treat specially, translating it and matching the expression accepts exactly the
  strings of its language: a star stands for any string, a plus for any non-empty one, a question mark
  for one character, and every other character, the dot and brackets included, for itself. That is
  so exactly when the expression fits into the static buffer, where the characters \<open>* + . [ ( )\<close> take two
  places each; a longer one is written behind the end of the buffer (\<open>None\<close>, a finding).\<close>

theorem is_match_lang:
  assumes "plain_glob g"
  shows "uvm_is_match g s = (if glob_size g \<le> 2043 then Some (s \<in> glob_lang g) else None)"
proof (cases "g = []")
  case True
  then show ?thesis
    by (simp add: uvm_is_match_def uvm_glob_to_re_def uvm_re_match_def regex_match_def strip_anchors_def re_items.simps)
next
  case False
  define b where "b = concat (map glob_char g)"
  have "last b \<noteq> CHR 0x5C" using last_glob [of g] False assms by (auto simp: b_def plain_glob_def)
  then have "strip_anchors (CHR ''^'' # b @ [CHR ''$'']) = b"
    by (simp add: strip_anchors_def)
  moreover have "re_items b = Some (map glob_item g)"
    using assms re_items_glob by (simp add: b_def plain_glob_def)
  ultimately have "regex_match (CHR ''^'' # b @ [CHR ''$'']) s = Some (s \<in> glob_lang g)"
    by (simp add: regex_match_def glob_items_lang)
  moreover have "uvm_re_match (bracket_char # CHR ''^'' # b @ [CHR ''$'', bracket_char]) s
      = map_option Not (regex_match (CHR ''^'' # b @ [CHR ''$'']) s)"
    by (simp add: uvm_re_match_def Let_def butlast_append)
  ultimately show ?thesis
    by (simp add: uvm_is_match_def glob_regex [OF assms False] b_def [symmetric] option.map_comp comp_def)
qed

theorem is_match_lang_witness:
  "uvm_is_match ''top.env*.a[?]'' ''top.env3.agent.a[7]'' = Some True
   \<and> uvm_is_match ''top.env*.a[?]'' ''topxenv3.a[7]'' = Some False
   \<and> uvm_is_match (replicate 1021 CHR ''.'') (replicate 1021 CHR ''.'') \<noteq> None
   \<and> uvm_is_match (replicate 1022 CHR ''.'') (replicate 1022 CHR ''.'') = None"
proof -
  let ?g = "''top.env*.a[?]''"
  have p: "plain_glob ?g" by (simp add: plain_glob_def bracket_char_def)
  have d: "plain_glob (replicate n CHR ''.'')" if "n \<le> 2040" for n
    using that by (cases n) (simp_all add: plain_glob_def bracket_char_def)
  have "''top.env3.agent.a[7]'' \<in> glob_lang ?g"
    by simp (rule exI [of _ "''3.agent''"], simp)
  moreover have "''topxenv3.a[7]'' \<notin> glob_lang ?g" by simp
  ultimately show ?thesis
    by (simp add: is_match_lang [OF p] is_match_lang [OF d] del: glob_lang.simps)
qed

end
