(* ===== verification/Callbacks.thy ===== *)
theory Callbacks
  imports UVM_Prelude
begin

text \<open>
  \<open>src/uvmsc/cb\<close> (\<open>uvm_callbacks.h\<close>, \<open>uvm_typed_callbacks.h\<close>, \<open>uvm_callbacks_base.cpp\<close>, \<open>uvm_callback.cpp\<close>,
  \<open>uvm_callback_iter.h\<close>) and the queue of \<open>src/uvmsc/conf/uvm_queue.h\<close>: callbacks that are registered with a
  type (type-wide) or with an object, and the iteration over them. Types, callback types, objects and
  callbacks are numbers; what \<open>dynamic_cast\<close> says of them, their names and the pair that the macro
  \<open>UVM_REGISTER_CB\<close> of an object's class registers, if it has one, are a \<open>cb_env\<close>. Callback type 0 is \<open>uvm_callback\<close> itself. Derived types are left out: the function that
  would register one, \<open>uvm_derived_callbacks::register_super_type\<close>, compares a member that is an object with
  \<open>nullptr\<close> and cannot be compiled, so \<open>m_derived_types\<close> is empty in every program. \<open>None\<close> as a result is
  following a null pointer. Traces and names in messages are left out.
\<close>

section \<open>Queues\<close>

text \<open>\<open>uvm_queue\<close>. An index out of range is reported; \<open>get\<close> then returns the value \<open>dflt\<close> of a new element. \<open>pop_back\<close>
  of a queue that is not empty reads behind its end: \<open>None\<close>.\<close>

definition queue_get :: "'a \<Rightarrow> int \<Rightarrow> 'a list \<Rightarrow> 'a \<times> msg list" where
  "queue_get dflt i q =
     (if i \<ge> int (length q) \<or> i < 0 then (dflt, [(UVM_WARNING, ''QUEUEGET'')]) else (q ! nat i, []))"

definition queue_delete :: "int \<Rightarrow> 'a list \<Rightarrow> 'a list \<times> msg list" where
  "queue_delete i q =
     (if i \<ge> int (length q) \<or> i < - 1 then (q, [(UVM_WARNING, ''QUEUEDEL'')])
      else if i = - 1 then ([], [])
      else (take (nat i) q @ drop (Suc (nat i)) q, []))"

definition pop_front :: "'a \<Rightarrow> 'a list \<Rightarrow> 'a \<times> 'a list" where
  "pop_front dflt q = (case q of [] \<Rightarrow> (dflt, []) | x # xs \<Rightarrow> (x, xs))"

definition pop_back :: "'a \<Rightarrow> 'a list \<Rightarrow> ('a \<times> 'a list) option" where
  "pop_back dflt q = (if q = [] then Some (dflt, []) else None)"

section \<open>State\<close>

datatype apprepend = UVM_APPEND | UVM_PREPEND

record cb_env =
  ce_name :: "nat \<Rightarrow> string"
  ce_is_a :: "nat \<Rightarrow> nat \<Rightarrow> bool"
  ce_is_cb :: "nat \<Rightarrow> nat \<Rightarrow> bool"
  ce_register :: "nat \<Rightarrow> (nat \<times> nat) option"
  ce_report :: nat

text \<open>
  The type-wide queues, the pairs of a type and a callback type that have an instance with their flag
  \<open>m_registered\<close>, the keys of the pool of objects in the order of their addresses, their queues (\<open>None\<close> is a
  null pointer), and the enabled flags of the callbacks.
\<close>

record cb_state =
  cp_tw :: "nat \<Rightarrow> nat list"
  cp_pairs :: "nat \<Rightarrow> (nat \<times> bool) list"
  cp_objs :: "nat list"
  cp_queue :: "nat \<Rightarrow> nat list option"
  cp_enabled :: "nat \<Rightarrow> bool"

definition new_callbacks :: cb_state where
  "new_callbacks = \<lparr>cp_tw = (\<lambda>_. []), cp_pairs = (\<lambda>_. []), cp_objs = [], cp_queue = (\<lambda>_. None), cp_enabled = (\<lambda>_. True)\<rparr>"

definition set_queue :: "nat \<Rightarrow> nat list \<Rightarrow> cb_state \<Rightarrow> cb_state" where
  "set_queue o1 q st = st\<lparr>cp_objs := put_key o1 (cp_objs st), cp_queue := (cp_queue st)(o1 := Some q)\<rparr>"

definition set_tw :: "nat \<Rightarrow> nat list \<Rightarrow> cb_state \<Rightarrow> cb_state" where
  "set_tw T q st = st\<lparr>cp_tw := (cp_tw st)(T := q)\<rparr>"

definition put_cb :: "apprepend \<Rightarrow> nat \<Rightarrow> nat list \<Rightarrow> nat list" where
  "put_cb ord cb q = (if ord = UVM_APPEND then q @ [cb] else cb # q)"

definition pool_queue :: "nat \<Rightarrow> cb_state \<Rightarrow> nat list" where
  "pool_queue o1 st = (case cp_queue st o1 of None \<Rightarrow> [] | Some q \<Rightarrow> q)"

section \<open>Registration\<close>

text \<open>\<open>get\<close> makes the instances of the pair and of the pair with \<open>uvm_callback\<close>; \<open>m_register_pair\<close> sets the flag.\<close>

definition get_pair :: "nat \<Rightarrow> nat \<Rightarrow> cb_state \<Rightarrow> cb_state" where
  "get_pair T C st =
     (if map_of (cp_pairs st T) C \<noteq> None then st
      else st\<lparr>cp_pairs := (cp_pairs st)(T :=
        (if C = 0 \<or> map_of (cp_pairs st T) 0 \<noteq> None then [] else [(0, False)]) @ cp_pairs st T @ [(C, False)])\<rparr>)"

definition m_register_pair :: "nat \<times> nat \<Rightarrow> cb_state \<Rightarrow> cb_state" where
  "m_register_pair TC st =
     (let (T, C) = TC; st1 = get_pair T C st
      in st1\<lparr>cp_pairs := (cp_pairs st1)(T := map (\<lambda>(c, b). (c, c = C \<or> b)) (cp_pairs st1 T))\<rparr>)"

text \<open>The virtual \<open>m_register_cb\<close> of an object: the macro's, or that of \<open>uvm_object\<close>, which does nothing.\<close>

definition m_register_cb :: "cb_env \<Rightarrow> nat \<Rightarrow> cb_state \<Rightarrow> cb_state" where
  "m_register_cb env o1 st = (case ce_register env o1 of None \<Rightarrow> st | Some TC \<Rightarrow> m_register_pair TC st)"

definition m_am_i_a :: "cb_env \<Rightarrow> nat \<Rightarrow> nat option \<Rightarrow> bool" where
  "m_am_i_a env T obj = (case obj of None \<Rightarrow> True | Some o1 \<Rightarrow> ce_is_a env o1 T)"

definition m_is_for_me :: "cb_env \<Rightarrow> nat \<Rightarrow> nat \<Rightarrow> bool" where
  "m_is_for_me env C cb \<longleftrightarrow> C = 0 \<or> ce_is_cb env cb C"

definition m_is_registered :: "cb_env \<Rightarrow> nat \<Rightarrow> nat \<Rightarrow> bool \<Rightarrow> nat option \<Rightarrow> nat \<Rightarrow> bool" where
  "m_is_registered env T C flag obj cb = (if m_is_for_me env C cb \<and> m_am_i_a env T obj then flag else False)"

primrec registered_loop :: "cb_env \<Rightarrow> nat \<Rightarrow> nat option \<Rightarrow> nat \<Rightarrow> (nat \<times> bool) list \<Rightarrow> bool" where
  "registered_loop env T obj cb [] = False"
| "registered_loop env T obj cb (p # ps) =
     (if m_is_registered env T (fst p) (snd p) obj cb then True else registered_loop env T obj cb ps)"

definition check_registration :: "cb_env \<Rightarrow> nat \<Rightarrow> nat option \<Rightarrow> nat \<Rightarrow> cb_state \<Rightarrow> bool" where
  "check_registration env T obj cb st = registered_loop env T obj cb (cp_pairs st T)"

section \<open>Adding and deleting\<close>

primrec cb_find_from :: "int \<Rightarrow> nat \<Rightarrow> nat list \<Rightarrow> int" where
  "cb_find_from i cb [] = - 1"
| "cb_find_from i cb (c # cs) = (if c = cb then i else cb_find_from (i + 1) cb cs)"

definition m_cb_find :: "nat list \<Rightarrow> nat \<Rightarrow> int" where
  "m_cb_find q cb = cb_find_from 0 cb q"

definition m_cb_find_name :: "cb_env \<Rightarrow> nat list \<Rightarrow> string \<Rightarrow> bool \<times> msg list" where
  "m_cb_find_name env q nm =
     (if \<exists>c \<in> set q. ce_name env c = nm then (True, [(UVM_WARNING, ''UVM/CB/NAM/SAM'')]) else (False, []))"

primrec add_to_objects ::
    "cb_env \<Rightarrow> nat \<Rightarrow> nat \<Rightarrow> apprepend \<Rightarrow> bool \<Rightarrow> nat list \<Rightarrow> cb_state \<Rightarrow> cb_state \<times> msg list" where
  "add_to_objects env T cb ord warned [] st = (st, [])"
| "add_to_objects env T cb ord warned (o1 # os) st =
     (if ce_is_a env o1 T then
        let q = pool_queue o1 st; new = (m_cb_find q cb = - 1);
            ms = (if new \<and> \<not> warned then snd (m_cb_find_name env q (ce_name env cb)) else []);
            (st1, ms1) = add_to_objects env T cb ord warned os (set_queue o1 (if new then put_cb ord cb q else q) st)
        in (st1, ms @ ms1)
      else add_to_objects env T cb ord warned os st)"

definition m_add_tw_cbs :: "cb_env \<Rightarrow> nat \<Rightarrow> nat \<Rightarrow> apprepend \<Rightarrow> cb_state \<Rightarrow> cb_state \<times> msg list" where
  "m_add_tw_cbs env T cb ord st =
     (let new = (m_cb_find (cp_tw st T) cb = - 1);
          (warned, ms) = (if new then m_cb_find_name env (cp_tw st T) (ce_name env cb) else (False, []));
          st1 = (if new then set_tw T (put_cb ord cb (cp_tw st T)) st else st);
          (st2, ms2) = add_to_objects env T cb ord warned (cp_objs st) st1
      in (st2, ms @ ms2))"

text \<open>The queue of an object, filled with the type-wide callbacks when it is empty.\<close>

definition filled_queue :: "cb_env \<Rightarrow> nat \<Rightarrow> nat \<Rightarrow> cb_state \<Rightarrow> nat list" where
  "filled_queue env T o1 st =
     (let q = pool_queue o1 st
      in if q = [] then (if ce_is_a env o1 (ce_report env) then cp_tw st (ce_report env) else []) @ cp_tw st T else q)"

definition cb_add ::
    "cb_env \<Rightarrow> nat \<Rightarrow> nat \<Rightarrow> nat option \<Rightarrow> nat option \<Rightarrow> apprepend \<Rightarrow> cb_state \<Rightarrow> cb_state \<times> msg list" where
  "cb_add env T C obj cb ord st =
     (let st1 = get_pair T C (case obj of None \<Rightarrow> st | Some o1 \<Rightarrow> m_register_cb env o1 st)
      in case cb of
           None \<Rightarrow> (st1, [(UVM_ERROR, ''CBUNREG'')])
         | Some c \<Rightarrow>
             if \<not> check_registration env T obj c st1 then (st1, [(UVM_WARNING, ''CBUNREG'')])
             else case obj of
               None \<Rightarrow>
                 if m_cb_find (cp_tw st1 T) c \<noteq> - 1 then (st1, [(UVM_WARNING, ''CBPREG'')])
                 else m_add_tw_cbs env T c ord st1
             | Some o1 \<Rightarrow>
                 let q = filled_queue env T o1 st1;
                     st2 = (if pool_queue o1 st1 = [] \<and> ce_is_a env o1 (ce_report env)
                            then get_pair (ce_report env) 0 st1 else st1)
                 in if m_cb_find q c \<noteq> - 1 then (set_queue o1 q st2, [(UVM_WARNING, ''CBPREG'')])
                    else (set_queue o1 (put_cb ord c q) st2, snd (m_cb_find_name env q (ce_name env c))))"

primrec delete_from_objects :: "nat \<Rightarrow> nat list \<Rightarrow> bool \<Rightarrow> cb_state \<Rightarrow> bool \<times> cb_state" where
  "delete_from_objects cb [] found st = (found, st)"
| "delete_from_objects cb (o1 # os) found st =
     (let q = pool_queue o1 st; pos = m_cb_find q cb
      in delete_from_objects cb os (pos \<noteq> - 1 \<or> found)
           (set_queue o1 (if pos \<noteq> - 1 then fst (queue_delete pos q) else q) st))"

definition m_delete_tw_cbs :: "nat \<Rightarrow> nat \<Rightarrow> cb_state \<Rightarrow> bool \<times> cb_state" where
  "m_delete_tw_cbs T cb st =
     (let pos = m_cb_find (cp_tw st T) cb
      in delete_from_objects cb (cp_objs st) (pos \<noteq> - 1)
           (if pos \<noteq> - 1 then set_tw T (fst (queue_delete pos (cp_tw st T))) st else st))"

text \<open>An object without a queue has none to search.\<close>

definition cb_delete :: "nat \<Rightarrow> nat \<Rightarrow> nat option \<Rightarrow> nat \<Rightarrow> cb_state \<Rightarrow> (cb_state \<times> msg list) option" where
  "cb_delete T C obj cb st =
     (let st1 = get_pair T C st; warn = (\<lambda>b. if b then [] else [(UVM_WARNING, ''CBUNREG'')])
      in case obj of
           None \<Rightarrow> (let (found, st2) = m_delete_tw_cbs T cb st1 in Some (st2, warn found))
         | Some o1 \<Rightarrow>
             (case cp_queue st1 o1 of
                None \<Rightarrow> None
              | Some q \<Rightarrow>
                  let pos = m_cb_find q cb
                  in if pos \<noteq> - 1 then Some (set_queue o1 (fst (queue_delete pos q)) st1, warn True)
                     else Some (st1, warn False)))"

text \<open>\<open>callback_mode\<close> returns the flag before the change.\<close>

definition callback_mode :: "nat \<Rightarrow> int \<Rightarrow> cb_state \<Rightarrow> bool \<times> cb_state" where
  "callback_mode cb on st =
     (cp_enabled st cb,
      st\<lparr>cp_enabled := (cp_enabled st)(cb := (if on = 0 then False else if on = 1 then True else cp_enabled st cb))\<rparr>)"

section \<open>Iteration\<close>

definition m_get_q :: "nat \<Rightarrow> nat \<Rightarrow> cb_state \<Rightarrow> nat list \<times> cb_state" where
  "m_get_q T o1 st =
     (if o1 \<notin> set (cp_objs st) then (cp_tw st T, st)
      else (pool_queue o1 st, set_queue o1 (pool_queue o1 st) st))"

definition runs :: "cb_env \<Rightarrow> nat \<Rightarrow> cb_state \<Rightarrow> nat \<Rightarrow> bool" where
  "runs env C st cb \<longleftrightarrow> m_is_for_me env C cb \<and> cp_enabled st cb"

text \<open>The scans: the index after the scan, and the callback that was found.\<close>

function scan_up :: "(nat \<Rightarrow> bool) \<Rightarrow> nat list \<Rightarrow> int \<Rightarrow> int \<times> nat option" where
  "scan_up P q i =
     (if i \<ge> int (length q) then (i, None)
      else if 0 \<le> i \<and> P (q ! nat i) then (i, Some (q ! nat i))
      else scan_up P q (i + 1))"
  by pat_completeness auto
termination by (relation "measure (\<lambda>(P, q, i). nat (int (length q) - i))") auto

function scan_down :: "(nat \<Rightarrow> bool) \<Rightarrow> nat list \<Rightarrow> int \<Rightarrow> int \<times> nat option" where
  "scan_down P q i =
     (if i < 0 then (i, None)
      else if i < int (length q) \<and> P (q ! nat i) then (i, Some (q ! nat i))
      else scan_down P q (i - 1))"
  by pat_completeness auto
termination by (relation "measure (\<lambda>(P, q, i). nat (i + 1))") auto

declare scan_up.simps [simp del] scan_down.simps [simp del]

definition get_first :: "cb_env \<Rightarrow> nat \<Rightarrow> nat \<Rightarrow> nat \<Rightarrow> cb_state \<Rightarrow> (int \<times> nat option) \<times> cb_state" where
  "get_first env T C o1 st =
     (let (q, st1) = m_get_q T o1 (get_pair T C st) in (scan_up (runs env C st1) q 0, st1))"

definition get_next :: "cb_env \<Rightarrow> nat \<Rightarrow> nat \<Rightarrow> int \<Rightarrow> nat \<Rightarrow> cb_state \<Rightarrow> (int \<times> nat option) \<times> cb_state" where
  "get_next env T C itr o1 st =
     (let (q, st1) = m_get_q T o1 (get_pair T C st) in (scan_up (runs env C st1) q (itr + 1), st1))"

definition get_last :: "cb_env \<Rightarrow> nat \<Rightarrow> nat \<Rightarrow> nat \<Rightarrow> cb_state \<Rightarrow> (int \<times> nat option) \<times> cb_state" where
  "get_last env T C o1 st =
     (let (q, st1) = m_get_q T o1 (get_pair T C st) in (scan_down (runs env C st1) q (int (length q) - 1), st1))"

definition get_prev :: "cb_env \<Rightarrow> nat \<Rightarrow> nat \<Rightarrow> int \<Rightarrow> nat \<Rightarrow> cb_state \<Rightarrow> (int \<times> nat option) \<times> cb_state" where
  "get_prev env T C itr o1 st =
     (let (q, st1) = m_get_q T o1 (get_pair T C st) in (scan_down (runs env C st1) q (itr - 1), st1))"

text \<open>The iterator: \<open>step\<close> is \<open>get_next\<close> or \<open>get_prev\<close>, as often as it finds a callback, \<open>n\<close> times at most. With
  \<open>get_first\<close> it is the loop of \<open>UVM_DO_CALLBACKS\<close>, for methods that leave the callbacks as they are.\<close>

primrec follow :: "nat \<Rightarrow> (int \<Rightarrow> cb_state \<Rightarrow> (int \<times> nat option) \<times> cb_state) \<Rightarrow> (int \<times> nat option) \<times> cb_state \<Rightarrow> nat list option" where
  "follow 0 step x = None"
| "follow (Suc n) step x =
     (case x of
        ((i, None), st) \<Rightarrow> Some []
      | ((i, Some c), st) \<Rightarrow> map_option (\<lambda>cs. c # cs) (follow n step (step i st)))"

definition do_callbacks :: "nat \<Rightarrow> cb_env \<Rightarrow> nat \<Rightarrow> nat \<Rightarrow> nat \<Rightarrow> cb_state \<Rightarrow> nat list option" where
  "do_callbacks n env T C o1 st = follow n (\<lambda>i. get_next env T C i o1) (get_first env T C o1 st)"

definition do_callbacks_back :: "nat \<Rightarrow> cb_env \<Rightarrow> nat \<Rightarrow> nat \<Rightarrow> nat \<Rightarrow> cb_state \<Rightarrow> nat list option" where
  "do_callbacks_back n env T C o1 st = follow n (\<lambda>i. get_prev env T C i o1) (get_last env T C o1 st)"


section \<open>What an object sees\<close>

text \<open>The callbacks an iteration over an object goes through: its own queue, or that of the type.\<close>

definition cbs_seen :: "nat \<Rightarrow> nat \<Rightarrow> cb_state \<Rightarrow> nat list" where
  "cbs_seen T o1 st = (if o1 \<in> set (cp_objs st) then pool_queue o1 st else cp_tw st T)"

lemma get_pair_sel [simp]:
  "cp_tw (get_pair T C st) = cp_tw st" "cp_objs (get_pair T C st) = cp_objs st"
  "cp_queue (get_pair T C st) = cp_queue st" "cp_enabled (get_pair T C st) = cp_enabled st"
  "pool_queue o1 (get_pair T C st) = pool_queue o1 st"
  by (simp_all add: get_pair_def pool_queue_def)

lemma m_register_cb_sel [simp]:
  "cp_tw (m_register_cb env o1 st) = cp_tw st" "cp_objs (m_register_cb env o1 st) = cp_objs st"
  "cp_queue (m_register_cb env o1 st) = cp_queue st" "cp_enabled (m_register_cb env o1 st) = cp_enabled st"
  "pool_queue o2 (m_register_cb env o1 st) = pool_queue o2 st"
  by (simp_all add: m_register_cb_def m_register_pair_def pool_queue_def Let_def split: option.split prod.split)

lemma set_queue_sel [simp]:
  "cp_tw (set_queue o1 q st) = cp_tw st" "cp_objs (set_queue o1 q st) = put_key o1 (cp_objs st)"
  "cp_enabled (set_queue o1 q st) = cp_enabled st"
  "pool_queue o2 (set_queue o1 q st) = (if o2 = o1 then q else pool_queue o2 st)"
  by (simp_all add: set_queue_def pool_queue_def)

lemma set_tw_sel [simp]:
  "cp_tw (set_tw T q st) = (cp_tw st)(T := q)" "cp_objs (set_tw T q st) = cp_objs st"
  "cp_enabled (set_tw T q st) = cp_enabled st" "pool_queue o1 (set_tw T q st) = pool_queue o1 st"
  by (simp_all add: set_tw_def pool_queue_def)

lemma m_get_q_seen:
  assumes "m_get_q T o1 (get_pair T C st) = (q, st1)"
  shows "q = cbs_seen T o1 st" "cbs_seen T' o2 st1 = cbs_seen T' o2 st" "cp_enabled st1 = cp_enabled st"
  using assms by (auto simp: m_get_q_def cbs_seen_def split: if_splits)

section \<open>Iteration is exact\<close>

lemma scan_up_finds:
  assumes "i \<le> length q"
  shows "case filter P (drop i q) of
      [] \<Rightarrow> snd (scan_up P q (int i)) = None
    | c # cs \<Rightarrow> \<exists>j < length q. scan_up P q (int i) = (int j, Some c) \<and> cs = filter P (drop (Suc j) q)"
  using assms
proof (induction "length q - i" arbitrary: i)
  case 0
  then show ?case by (simp add: scan_up.simps)
next
  case (Suc n)
  then have i: "i < length q" by simp
  then have d: "drop i q = q ! i # drop (Suc i) q" by (rule Cons_nth_drop_Suc [symmetric])
  show ?case
  proof (cases "P (q ! i)")
    case False
    with i have e: "scan_up P q (int i) = scan_up P q (int (Suc i))"
      by (simp add: scan_up.simps [of P q "int i"] add.commute)
    from d False have f: "filter P (drop i q) = filter P (drop (Suc i) q)" by simp
    show ?thesis unfolding e f using Suc.hyps(1) [of "Suc i"] Suc.hyps(2) i by linarith
  qed (use i d in \<open>auto simp: scan_up.simps [of P q "int i"]\<close>)
qed

lemma scan_down_finds:
  assumes "i \<le> length q"
  shows "case rev (filter P (take i q)) of
      [] \<Rightarrow> snd (scan_down P q (int i - 1)) = None
    | c # cs \<Rightarrow> \<exists>j < length q. scan_down P q (int i - 1) = (int j, Some c) \<and> cs = rev (filter P (take j q))"
  using assms
proof (induction i)
  case (Suc i)
  then have i: "i < length q" by simp
  show ?case
  proof (cases "P (q ! i)")
    case False
    with i have e: "scan_down P q (int (Suc i) - 1) = scan_down P q (int i - 1)"
      by (simp add: scan_down.simps [of P q "int i"])
    from i False have f: "filter P (take (Suc i) q) = filter P (take i q)"
      by (simp add: take_Suc_conv_app_nth)
    show ?thesis unfolding e f using Suc.IH i by simp
  qed (use i in \<open>auto simp: take_Suc_conv_app_nth scan_down.simps [of P q "int i"]\<close>)
qed (simp add: scan_down.simps)

text \<open>An iterator: \<open>ahead cs x\<close> says that \<open>x\<close>, an index with a callback and the state, has \<open>cs\<close> ahead of it.\<close>

locale iterator =
  fixes step :: "int \<Rightarrow> cb_state \<Rightarrow> (int \<times> nat option) \<times> cb_state"
    and ahead :: "nat list \<Rightarrow> (int \<times> nat option) \<times> cb_state \<Rightarrow> bool"
  assumes ahead_nil: "ahead [] x \<Longrightarrow> snd (fst x) = None"
    and ahead_cons: "ahead (c # cs) x \<Longrightarrow> \<exists>i. fst x = (i, Some c) \<and> ahead cs (step i (snd x))"
begin

lemma follow_exact: "ahead cs x \<Longrightarrow> length cs < n \<Longrightarrow> follow n step x = Some cs"
proof (induction n arbitrary: cs x)
  case (Suc n)
  show ?case
  proof (cases cs)
    case Nil
    with Suc.prems(1) ahead_nil [of x] show ?thesis by (auto split: prod.split)
  next
    case (Cons c cs')
    with Suc.prems(1) ahead_cons obtain i where "fst x = (i, Some c)" "ahead cs' (step i (snd x))" by blast
    with Suc Cons show ?thesis by (cases x) auto
  qed
qed simp

end

definition on_queue :: "cb_env \<Rightarrow> nat \<Rightarrow> nat \<Rightarrow> nat \<Rightarrow> (nat \<Rightarrow> bool) \<Rightarrow> nat list \<Rightarrow> cb_state \<Rightarrow> bool" where
  "on_queue env T C o1 P q st \<longleftrightarrow> cbs_seen T o1 st = q \<and> runs env C st = P"

definition ahead_up :: "cb_env \<Rightarrow> nat \<Rightarrow> nat \<Rightarrow> nat \<Rightarrow> (nat \<Rightarrow> bool) \<Rightarrow> nat list \<Rightarrow> nat list \<Rightarrow>
    (int \<times> nat option) \<times> cb_state \<Rightarrow> bool" where
  "ahead_up env T C o1 P q cs x \<longleftrightarrow> on_queue env T C o1 P q (snd x) \<and>
     (\<exists>i \<le> length q. fst x = scan_up P q (int i) \<and> cs = filter P (drop i q))"

definition ahead_down :: "cb_env \<Rightarrow> nat \<Rightarrow> nat \<Rightarrow> nat \<Rightarrow> (nat \<Rightarrow> bool) \<Rightarrow> nat list \<Rightarrow> nat list \<Rightarrow>
    (int \<times> nat option) \<times> cb_state \<Rightarrow> bool" where
  "ahead_down env T C o1 P q cs x \<longleftrightarrow> on_queue env T C o1 P q (snd x) \<and>
     (\<exists>i \<le> length q. fst x = scan_down P q (int i - 1) \<and> cs = rev (filter P (take i q)))"

lemma on_queue_get:
  assumes "on_queue env T C o1 P q st"
  shows "\<exists>st1. m_get_q T o1 (get_pair T C st) = (q, st1) \<and> on_queue env T C o1 P q st1"
proof -
  obtain q1 st1 where m: "m_get_q T o1 (get_pair T C st) = (q1, st1)" by fastforce
  from assms m_get_q_seen [OF m] have "q1 = q" "on_queue env T C o1 P q st1"
    by (auto simp: on_queue_def runs_def fun_eq_iff)
  with m show ?thesis by blast
qed

lemma get_first_ahead: "on_queue env T C o1 P q st \<Longrightarrow> ahead_up env T C o1 P q (filter P q) (get_first env T C o1 st)"
proof -
  assume o: "on_queue env T C o1 P q st"
  from on_queue_get [OF o] obtain st1 where
    m: "m_get_q T o1 (get_pair T C st) = (q, st1)" and o1: "on_queue env T C o1 P q st1" by blast
  then have "runs env C st1 = P" by (simp add: on_queue_def)
  with m o1 show ?thesis
    unfolding get_first_def ahead_up_def by (simp add: add.commute) (rule exI [of _ 0], simp)
qed

lemma get_next_ahead:
  "on_queue env T C o1 P q st \<Longrightarrow> j < length q \<Longrightarrow>
   ahead_up env T C o1 P q (filter P (drop (Suc j) q)) (get_next env T C (int j) o1 st)"
proof -
  assume o: "on_queue env T C o1 P q st" and j: "j < length q"
  from on_queue_get [OF o] obtain st1 where
    m: "m_get_q T o1 (get_pair T C st) = (q, st1)" and o1: "on_queue env T C o1 P q st1" by blast
  then have "runs env C st1 = P" by (simp add: on_queue_def)
  with m o1 j show ?thesis
    unfolding get_next_def ahead_up_def by (simp add: add.commute) (rule exI [of _ "Suc j"], simp)
qed

lemma get_last_ahead:
  "on_queue env T C o1 P q st \<Longrightarrow> ahead_down env T C o1 P q (rev (filter P q)) (get_last env T C o1 st)"
proof -
  assume o: "on_queue env T C o1 P q st"
  from on_queue_get [OF o] obtain st1 where
    m: "m_get_q T o1 (get_pair T C st) = (q, st1)" and o1: "on_queue env T C o1 P q st1" by blast
  then have "runs env C st1 = P" by (simp add: on_queue_def)
  with m o1 show ?thesis
    unfolding get_last_def ahead_down_def by (simp add: add.commute) (rule exI [of _ "length q"], simp)
qed

lemma get_prev_ahead:
  "on_queue env T C o1 P q st \<Longrightarrow> j < length q \<Longrightarrow>
   ahead_down env T C o1 P q (rev (filter P (take j q))) (get_prev env T C (int j) o1 st)"
proof -
  assume o: "on_queue env T C o1 P q st" and j: "j < length q"
  from on_queue_get [OF o] obtain st1 where
    m: "m_get_q T o1 (get_pair T C st) = (q, st1)" and o1: "on_queue env T C o1 P q st1" by blast
  then have "runs env C st1 = P" by (simp add: on_queue_def)
  with m o1 j show ?thesis
    unfolding get_prev_def ahead_down_def by (simp add: add.commute) (rule exI [of _ j], simp)
qed

interpretation forth: iterator "\<lambda>i. get_next env T C i o1" "ahead_up env T C o1 P q"
proof
  fix x assume "ahead_up env T C o1 P q [] x"
  then obtain i where i: "i \<le> length q" "fst x = scan_up P q (int i)" "filter P (drop i q) = []"
    by (auto simp: ahead_up_def)
  from scan_up_finds [OF i(1), of P, unfolded i(3)] i(2) show "snd (fst x) = None" by simp
next
  fix c cs x assume a: "ahead_up env T C o1 P q (c # cs) x"
  then obtain i where i: "i \<le> length q" "fst x = scan_up P q (int i)" "filter P (drop i q) = c # cs"
    by (auto simp: ahead_up_def)
  from scan_up_finds [OF i(1), of P, unfolded i(3)] i(2) get_next_ahead [of env T C o1 P q "snd x"] a
  show "\<exists>i. fst x = (i, Some c) \<and> ahead_up env T C o1 P q cs (get_next env T C i o1 (snd x))"
    by (auto simp: ahead_up_def)
qed

interpretation backward: iterator "\<lambda>i. get_prev env T C i o1" "ahead_down env T C o1 P q"
proof
  fix x assume "ahead_down env T C o1 P q [] x"
  then obtain i where i: "i \<le> length q" "fst x = scan_down P q (int i - 1)" "rev (filter P (take i q)) = []"
    by (auto simp: ahead_down_def)
  from scan_down_finds [OF i(1), of P, unfolded i(3)] i(2) show "snd (fst x) = None" by simp
next
  fix c cs x assume a: "ahead_down env T C o1 P q (c # cs) x"
  then obtain i where i: "i \<le> length q" "fst x = scan_down P q (int i - 1)" "rev (filter P (take i q)) = c # cs"
    unfolding ahead_down_def by metis
  from scan_down_finds [OF i(1), of P, unfolded i(3)] i(2) get_prev_ahead [of env T C o1 P q "snd x"] a
  show "\<exists>i. fst x = (i, Some c) \<and> ahead_down env T C o1 P q cs (get_prev env T C i o1 (snd x))"
    by (auto simp: ahead_down_def)
qed

lemma do_callbacks_all:
  assumes "length (cbs_seen T o1 st) < n"
  shows "do_callbacks n env T C o1 st = Some (filter (runs env C st) (cbs_seen T o1 st))"
    and "do_callbacks_back n env T C o1 st = Some (rev (filter (runs env C st) (cbs_seen T o1 st)))"
proof -
  let ?P = "runs env C st" and ?q = "cbs_seen T o1 st"
  have o: "on_queue env T C o1 ?P ?q st" by (simp add: on_queue_def)
  have l: "length (filter ?P ?q) < n" using assms length_filter_le [of ?P ?q] by linarith
  from forth.follow_exact [OF get_first_ahead [OF o] l] backward.follow_exact [OF get_last_ahead [OF o]] l
  show "do_callbacks n env T C o1 st = Some (filter ?P ?q)"
    and "do_callbacks_back n env T C o1 st = Some (rev (filter ?P ?q))"
    by (simp_all add: do_callbacks_def do_callbacks_back_def)
qed

section \<open>Adding and deleting for a type\<close>

lemma cb_find_from_le: "cb_find_from i cb q = - 1 \<or> i \<le> cb_find_from i cb q"
proof (induction q arbitrary: i)
  case (Cons c cs)
  from Cons.IH [of "i + 1"] show ?case by auto
qed simp

lemma cb_find_from_none: "0 \<le> i \<Longrightarrow> cb_find_from i cb q = - 1 \<longleftrightarrow> cb \<notin> set q"
  by (induction q arbitrary: i) auto

lemma m_cb_find_none [simp]: "m_cb_find q cb = - 1 \<longleftrightarrow> cb \<notin> set q"
  by (simp add: m_cb_find_def cb_find_from_none)

lemma cb_find_from_at:
  "cb \<in> set q \<Longrightarrow> 0 \<le> i \<Longrightarrow> \<exists>k < length q. cb_find_from i cb q = i + int k \<and> take k q @ drop (Suc k) q = remove1 cb q"
proof (induction q arbitrary: i)
  case (Cons c cs)
  show ?case
  proof (cases "c = cb")
    case False
    with Cons.IH [of "i + 1"] Cons.prems obtain k where
      "k < length cs" "cb_find_from (i + 1) cb cs = i + 1 + int k" "take k cs @ drop (Suc k) cs = remove1 cb cs" by auto
    with False show ?thesis by (intro exI [of _ "Suc k"]) auto
  qed auto
qed simp

lemma delete_found [simp]: "cb \<in> set q \<Longrightarrow> fst (queue_delete (m_cb_find q cb) q) = remove1 cb q"
  using cb_find_from_at [of cb q 0] by (auto simp: m_cb_find_def queue_delete_def)

lemma set_put_cb [simp]: "set (put_cb ord cb q) = insert cb (set q)"
  by (auto simp: put_cb_def)

lemma remove1_put_cb [simp]: "cb \<notin> set q \<Longrightarrow> remove1 cb (put_cb ord cb q) = q"
  by (simp add: put_cb_def remove1_append remove1_idem)

text \<open>What the loops over the pool do to the queues.\<close>

lemma put_key_member [simp]: "a \<in> set xs \<Longrightarrow> put_key a xs = xs"
  by (simp add: put_key_def insort_insert_triv)

lemma add_to_objects_exact:
  assumes "add_to_objects env T cb ord w os st = (st1, ms)"
  shows "cp_tw st1 = cp_tw st" "cp_enabled st1 = cp_enabled st"
    "pool_queue o1 st1 = (if o1 \<in> set os \<and> ce_is_a env o1 T \<and> cb \<notin> set (pool_queue o1 st)
       then put_cb ord cb (pool_queue o1 st) else pool_queue o1 st)"
  using assms
  by (induction os arbitrary: st st1 ms; force simp: Let_def split: if_splits prod.splits)+

lemma add_to_objects_keys:
  "set os \<subseteq> set (cp_objs st) \<Longrightarrow> cp_objs (fst (add_to_objects env T cb ord w os st)) = cp_objs st"
  by (induction os arbitrary: st) (simp_all add: Let_def case_prod_beta)

lemma delete_from_objects_exact:
  assumes "delete_from_objects cb os found st = (f, st1)" "distinct os"
  shows "cp_tw st1 = cp_tw st" "cp_enabled st1 = cp_enabled st"
    "pool_queue o1 st1 = (if o1 \<in> set os then remove1 cb (pool_queue o1 st) else pool_queue o1 st)"
    "f \<longleftrightarrow> found \<or> (\<exists>x \<in> set os. cb \<in> set (pool_queue x st))"
  using assms
  by (induction os arbitrary: st st1 found; force simp: Let_def remove1_idem split: if_splits)+

lemma delete_from_objects_keys:
  "set os \<subseteq> set (cp_objs st) \<Longrightarrow> cp_objs (snd (delete_from_objects cb os found st)) = cp_objs st"
  by (induction os arbitrary: st found) (simp_all add: Let_def)

lemma typewide_added:
  assumes "cb_add env T C None (Some cb) ord st = (st1, ms)"
    and "check_registration env T None cb (get_pair T C st)" "cb \<notin> set (cp_tw st T)"
  shows "cp_tw st1 = (cp_tw st)(T := put_cb ord cb (cp_tw st T))" "cp_objs st1 = cp_objs st"
    "cp_enabled st1 = cp_enabled st"
    "pool_queue o1 st1 = (if o1 \<in> set (cp_objs st) \<and> ce_is_a env o1 T \<and> cb \<notin> set (pool_queue o1 st)
       then put_cb ord cb (pool_queue o1 st) else pool_queue o1 st)"
proof -
  let ?st = "set_tw T (put_cb ord cb (cp_tw st T)) (get_pair T C st)"
  from assms obtain w ms1 where e: "add_to_objects env T cb ord w (cp_objs st) ?st = (st1, ms1)"
    by (auto simp: cb_add_def m_add_tw_cbs_def Let_def split: prod.splits)
  note a = add_to_objects_exact [OF e]
  from a(1) show "cp_tw st1 = (cp_tw st)(T := put_cb ord cb (cp_tw st T))" by simp
  from add_to_objects_keys [of "cp_objs st" ?st env T cb ord w] e show "cp_objs st1 = cp_objs st" by simp
  from a(2) show "cp_enabled st1 = cp_enabled st" by simp
  from a(3) [of o1] show "pool_queue o1 st1 = (if o1 \<in> set (cp_objs st) \<and> ce_is_a env o1 T \<and> cb \<notin> set (pool_queue o1 st)
       then put_cb ord cb (pool_queue o1 st) else pool_queue o1 st)" by simp
qed

lemma typewide_deleted:
  assumes "distinct (cp_objs st)"
  shows "\<exists>st1. cb_delete T C None cb st =
      Some (st1, if cb \<in> set (cp_tw st T) \<or> (\<exists>x \<in> set (cp_objs st). cb \<in> set (pool_queue x st)) then []
                 else [(UVM_WARNING, ''CBUNREG'')])
    \<and> cp_tw st1 = (cp_tw st)(T := remove1 cb (cp_tw st T)) \<and> cp_objs st1 = cp_objs st \<and> cp_enabled st1 = cp_enabled st
    \<and> (\<forall>o1. pool_queue o1 st1 = (if o1 \<in> set (cp_objs st) then remove1 cb (pool_queue o1 st) else pool_queue o1 st))"
proof -
  let ?in = "cb \<in> set (cp_tw st T)" and ?st = "get_pair T C st"
  let ?t = "if ?in then set_tw T (remove1 cb (cp_tw st T)) ?st else ?st"
  obtain f st1 where d: "delete_from_objects cb (cp_objs st) ?in ?t = (f, st1)" by fastforce
  note e = delete_from_objects_exact [OF d assms]
  have c: "cb_delete T C None cb st = Some (st1, if f then [] else [(UVM_WARNING, ''CBUNREG'')])"
    using d by (auto simp: cb_delete_def m_delete_tw_cbs_def Let_def split: if_splits)
  have tw: "cp_tw ?t = (cp_tw st)(T := remove1 cb (cp_tw st T))" by (auto simp: remove1_idem)
  have p: "pool_queue x ?t = pool_queue x st" for x by simp
  from e(4) p have "f \<longleftrightarrow> ?in \<or> (\<exists>x \<in> set (cp_objs st). cb \<in> set (pool_queue x st))" by simp
  moreover have "cp_objs st1 = cp_objs st" "cp_enabled st1 = cp_enabled st"
    using delete_from_objects_keys [of "cp_objs st" ?t cb ?in] d e(2) by simp_all
  moreover have "pool_queue o1 st1 = (if o1 \<in> set (cp_objs st) then remove1 cb (pool_queue o1 st) else pool_queue o1 st)" for o1
    using e(3) [of o1] p [of o1] by simp
  ultimately show ?thesis using c e(1) tw by simp
qed

text \<open>Without a registered pair nothing is added: in particular at the start, when only an object that is given can register it.\<close>

lemma add_unregistered:
  "\<not> check_registration env T None cb (get_pair T C st) \<Longrightarrow>
   cb_add env T C None (Some cb) ord st = (get_pair T C st, [(UVM_WARNING, ''CBUNREG'')])"
  by (simp add: cb_add_def)

lemma registered_loop_false: "\<forall>p \<in> set ps. \<not> snd p \<Longrightarrow> \<not> registered_loop env T obj cb ps"
  by (induction ps) (auto simp: m_is_registered_def)

lemma typewide_refused_at_start:
  "cb_add env T C None (Some cb) ord new_callbacks = (get_pair T C new_callbacks, [(UVM_WARNING, ''CBUNREG'')])"
proof (rule add_unregistered)
  have "\<forall>p \<in> set (cp_pairs (get_pair T C new_callbacks) T). \<not> snd p" by (simp add: get_pair_def new_callbacks_def)
  then show "\<not> check_registration env T None cb (get_pair T C new_callbacks)"
    by (simp add: check_registration_def registered_loop_false)
qed

text \<open>Deleting a callback of an object that has never been given one follows a null pointer.\<close>

lemma delete_without_queue: "cp_queue st o1 = None \<Longrightarrow> cb_delete T C (Some o1) cb st = None"
  by (simp add: cb_delete_def)

section \<open>Runs\<close>

datatype cb_op =
    RegisterCb nat
  | AddCb nat nat "nat option" "nat option" apprepend
  | DeleteCb nat nat "nat option" nat
  | ModeCb nat int
  | FirstCb nat nat nat
  | NextCb nat nat nat int

fun cb_step :: "cb_env \<Rightarrow> cb_op \<Rightarrow> cb_state \<Rightarrow> cb_state" where
  "cb_step env (RegisterCb o1) st = m_register_cb env o1 st"
| "cb_step env (AddCb T C obj cb ord) st = fst (cb_add env T C obj cb ord st)"
| "cb_step env (DeleteCb T C obj cb) st = (case cb_delete T C obj cb st of None \<Rightarrow> st | Some x \<Rightarrow> fst x)"
| "cb_step env (ModeCb cb on) st = snd (callback_mode cb on st)"
| "cb_step env (FirstCb T C o1) st = snd (get_first env T C o1 st)"
| "cb_step env (NextCb T C o1 i) st = snd (get_next env T C i o1 st)"

text \<open>Callbacks are only deleted from objects that have a queue, and a queue is not filled from two type-wide
  queues that share a callback.\<close>

fun cb_ok :: "cb_env \<Rightarrow> cb_op \<Rightarrow> cb_state \<Rightarrow> bool" where
  "cb_ok env (AddCb T C (Some o1) cb ord) st =
     (pool_queue o1 st \<noteq> [] \<or> \<not> ce_is_a env o1 (ce_report env) \<or>
      list_all (\<lambda>c. c \<notin> set (cp_tw st T)) (cp_tw st (ce_report env)))"
| "cb_ok env (DeleteCb T C (Some o1) cb) st = (cp_queue st o1 \<noteq> None)"
| "cb_ok env _ st = True"

definition cb_inv :: "cb_state \<Rightarrow> bool" where
  "cb_inv st \<longleftrightarrow> distinct (cp_objs st) \<and> (\<forall>T. distinct (cp_tw st T)) \<and> (\<forall>o1. distinct (pool_queue o1 st))"

lemma cb_inv_same [simp]:
  "cb_inv (get_pair T C st) = cb_inv st" "cb_inv (m_register_cb env o1 st) = cb_inv st"
  "cb_inv (snd (callback_mode cb on st)) = cb_inv st"
  by (simp_all add: cb_inv_def callback_mode_def pool_queue_def)

lemma cb_inv_queue: "cb_inv st \<Longrightarrow> distinct (pool_queue o1 st)"
  by (simp add: cb_inv_def)

lemma cb_inv_tw: "cb_inv st \<Longrightarrow> distinct (cp_tw st T)"
  by (simp add: cb_inv_def)

lemma distinct_put_key: "distinct xs \<Longrightarrow> distinct (put_key a xs)"
  by (simp add: put_key_def distinct_insort_insert)

lemma cb_inv_set_queue: "cb_inv st \<Longrightarrow> distinct q \<Longrightarrow> cb_inv (set_queue o1 q st)"
  by (auto simp: cb_inv_def distinct_put_key)

lemma cb_inv_set_tw: "cb_inv st \<Longrightarrow> distinct q \<Longrightarrow> cb_inv (set_tw T q st)"
  by (auto simp: cb_inv_def)

lemma distinct_put_cb [simp]: "distinct (put_cb ord cb q) \<longleftrightarrow> distinct q \<and> cb \<notin> set q"
  by (auto simp: put_cb_def)

lemmas cb_inv_rules = cb_inv_set_queue cb_inv_set_tw cb_inv_queue cb_inv_tw

lemma cb_inv_get_q: "cb_inv st \<Longrightarrow> cb_inv (snd (m_get_q T o1 st))"
  by (simp add: m_get_q_def cb_inv_rules)

lemma cb_inv_add_to_objects: "cb_inv st \<Longrightarrow> cb_inv (fst (add_to_objects env T cb ord w os st))"
  by (induction os arbitrary: st) (simp_all add: Let_def case_prod_beta cb_inv_rules)

lemma cb_inv_delete_from_objects: "cb_inv st \<Longrightarrow> cb_inv (snd (delete_from_objects cb os f st))"
  by (induction os arbitrary: st f) (simp_all add: Let_def cb_inv_rules)

lemma cb_inv_add_tw: "cb_inv st \<Longrightarrow> cb_inv (fst (m_add_tw_cbs env T cb ord st))"
  by (simp add: m_add_tw_cbs_def Let_def case_prod_beta cb_inv_rules cb_inv_add_to_objects)

lemma cb_inv_filled:
  assumes "cb_inv st" "cb_ok env (AddCb T C (Some o1) cb ord) st"
  shows "distinct (filled_queue env T o1 st)"
  using assms by (auto simp: filled_queue_def Let_def cb_inv_rules list_all_iff)

lemma cb_inv_add:
  assumes "cb_inv st" "cb_ok env (AddCb T C obj cb ord) st"
  shows "cb_inv (fst (cb_add env T C obj cb ord st))"
proof (cases obj)
  case None
  with assms(1) show ?thesis by (simp add: cb_add_def Let_def cb_inv_add_tw split: option.split)
next
  case (Some o1)
  let ?st = "get_pair T C (m_register_cb env o1 st)"
  have "distinct (filled_queue env T o1 ?st)" using assms Some by (intro cb_inv_filled) simp_all
  with assms(1) Some show ?thesis by (simp add: cb_add_def Let_def cb_inv_rules split: option.split)
qed

lemma cb_inv_some: "cb_inv st \<Longrightarrow> cp_queue st o1 = Some q \<Longrightarrow> distinct q"
  using cb_inv_queue [of st o1] by (simp add: pool_queue_def)

lemma cb_inv_delete: "cb_inv st \<Longrightarrow> cb_delete T C obj cb st = Some (st1, ms) \<Longrightarrow> cb_inv st1"
  by (auto simp: cb_delete_def m_delete_tw_cbs_def Let_def case_prod_beta cb_inv_tw
      split: option.splits if_splits
      intro!: cb_inv_delete_from_objects cb_inv_set_tw cb_inv_set_queue distinct_remove1 intro: cb_inv_some)

lemma cb_step_inv: "cb_inv st \<Longrightarrow> cb_ok env e st \<Longrightarrow> cb_inv (cb_step env e st)"
  by (cases e) (auto simp: cb_inv_add cb_inv_get_q get_first_def get_next_def Let_def case_prod_beta
      intro: cb_inv_delete split: option.split)

interpretation cb_machine: guarded_machine "cb_step env" "cb_ok env" cb_inv
  by unfold_locales (rule cb_step_inv)

section \<open>Properties\<close>

text \<open>The example: type 1 with callback type 1, callbacks 1 to 9 of that type, objects 1 to 4 of type 1, and no report objects.\<close>

definition sample_cbs :: cb_env where
  "sample_cbs = \<lparr>ce_name = (\<lambda>c. replicate c CHR ''c''), ce_is_a = (\<lambda>o1 T. T = 1 \<and> o1 < 5), ce_is_cb = (\<lambda>cb C. C = 1 \<and> cb < 10),
     ce_register = (\<lambda>o1. if o1 < 5 then Some (1, 1) else None), ce_report = 9\<rparr>"

definition sample_cb_run :: "cb_op list" where
  "sample_cb_run = [RegisterCb 1, AddCb 1 1 (Some 1) (Some 7) UVM_APPEND, AddCb 1 1 None (Some 8) UVM_PREPEND,
     AddCb 1 1 (Some 2) (Some 7) UVM_APPEND, ModeCb 7 0, DeleteCb 1 1 (Some 1) 7]"

text \<open>C27. Iteration is exact. The loop of \<open>UVM_DO_CALLBACKS\<close>, \<open>get_first\<close> and then \<open>get_next\<close> until there is none,
  ends, and visits exactly the callbacks that are enabled and of the callback type asked for, among those of the
  object's own queue if it has one and of its type otherwise, in the order of the queue; \<open>get_last\<close> and \<open>get_prev\<close>
  visit them in the opposite order. Looking does not change what any object sees.\<close>

theorem callbacks_exact:
  "do_callbacks (Suc (length (cbs_seen T o1 st) + k)) env T C o1 st = Some (filter (runs env C st) (cbs_seen T o1 st)) \<and>
   do_callbacks_back (Suc (length (cbs_seen T o1 st) + k)) env T C o1 st = Some (rev (filter (runs env C st) (cbs_seen T o1 st))) \<and>
   cbs_seen T' o2 (snd (get_first env T C o1 st)) = cbs_seen T' o2 st"
proof -
  have "cbs_seen T' o2 (snd (get_first env T C o1 st)) = cbs_seen T' o2 st"
    using m_get_q_seen(2) [of T o1 C st] by (simp add: get_first_def case_prod_beta prod_eq_iff)
  then show ?thesis by (simp add: do_callbacks_all)
qed

text \<open>C20. Callbacks for a type. Let neither the type-wide queue of the type nor the queue of any object in the pool (which
  lists no object twice) hold a callback yet. When it is accepted for the type, every object of the type, with or
  without a queue of its own, sees it at the end or at the beginning of what it saw, and nobody else does. Deleting it
  for the type reports nothing and gives back what everyone saw before. Without the condition deleting does not restore: it
  removes the callback from the queues of all objects of the pool, also where it was registered separately (a finding).\<close>

theorem typewide_add_delete:
  assumes "distinct (cp_objs st)" "check_registration env T None cb (get_pair T C st)"
    and "cb \<notin> set (cp_tw st T)" "\<forall>o1 \<in> set (cp_objs st). cb \<notin> set (pool_queue o1 st)"
    and "st1 = fst (cb_add env T C None (Some cb) ord st)"
  shows "(\<forall>o1. ce_is_a env o1 T \<longrightarrow> cbs_seen T o1 st1 = put_cb ord cb (cbs_seen T o1 st)) \<and>
    (\<forall>o1 U. \<not> ce_is_a env o1 T \<longrightarrow> U \<noteq> T \<longrightarrow> cbs_seen U o1 st1 = cbs_seen U o1 st) \<and>
    (\<exists>st2. cb_delete T C None cb st1 = Some (st2, []) \<and> (\<forall>o1 U. cbs_seen U o1 st2 = cbs_seen U o1 st))"
proof -
  obtain ms where "cb_add env T C None (Some cb) ord st = (st1, ms)" using assms(5) by (metis prod.collapse)
  note a = typewide_added [OF this assms(2,3)]
  have cbs_seen: "\<forall>o1. ce_is_a env o1 T \<longrightarrow> cbs_seen T o1 st1 = put_cb ord cb (cbs_seen T o1 st)"
    "\<forall>o1 U. \<not> ce_is_a env o1 T \<longrightarrow> U \<noteq> T \<longrightarrow> cbs_seen U o1 st1 = cbs_seen U o1 st"
    using a assms(4) by (simp_all add: cbs_seen_def)
  have "remove1 cb (cp_tw st1 T) = cp_tw st T" using a(1) assms(3) by simp
  moreover have "remove1 cb (pool_queue x st1) = pool_queue x st" if "x \<in> set (cp_objs st)" for x
    using a(4) [of x] assms(4) that by (simp add: remove1_idem)
  ultimately have "\<exists>st2. cb_delete T C None cb st1 = Some (st2, []) \<and> (\<forall>o1 U. cbs_seen U o1 st2 = cbs_seen U o1 st)"
    using typewide_deleted [of st1 T C cb] a(1,2) assms(1) by (auto simp: cbs_seen_def)
  with cbs_seen show ?thesis by blast
qed

text \<open>Callback 8 is put before what objects 1 to 4 of type 1 see, after object 1 has got a queue of its own.\<close>

theorem typewide_add_delete_witness:
  "let st = fst (cb_add sample_cbs 1 1 (Some 1) (Some 7) UVM_APPEND new_callbacks);
       st1 = fst (cb_add sample_cbs 1 1 None (Some 8) UVM_PREPEND st)
   in cbs_seen 1 1 st1 = [8, 7] \<and> cbs_seen 1 2 st1 = [8] \<and> (\<exists>st2. cb_delete 1 1 None 8 st1 = Some (st2, []) \<and> cbs_seen 1 1 st2 = [7])"
proof -
  let ?st = "fst (cb_add sample_cbs 1 1 (Some 1) (Some 7) UVM_APPEND new_callbacks)"
  have "distinct (cp_objs ?st)" "check_registration sample_cbs 1 None 8 (get_pair 1 1 ?st)" "8 \<notin> set (cp_tw ?st 1)"
    "\<forall>o1 \<in> set (cp_objs ?st). 8 \<notin> set (pool_queue o1 ?st)" by code_simp+
  note w = typewide_add_delete [OF this refl, of UVM_PREPEND]
  have "ce_is_a sample_cbs 1 1" "ce_is_a sample_cbs 2 1" "cbs_seen 1 1 ?st = [7]" "cbs_seen 1 2 ?st = []" by code_simp+
  with w show ?thesis by (auto simp: put_cb_def Let_def)
qed

text \<open>C30. No callback runs twice. Let no queue be filled from two type-wide queues that share a callback. In every run, from the
  start, an iteration over any object with any callback type visits no callback twice.\<close>

theorem callbacks_once:
  assumes "\<forall>k < length es. cb_ok env (es ! k) (fold (cb_step env) (take k es) new_callbacks)"
    and "st = fold (cb_step env) es new_callbacks"
  shows "\<exists>cs. do_callbacks (Suc (length (cbs_seen T o1 st))) env T C o1 st = Some cs \<and> distinct cs"
proof -
  have "cb_inv new_callbacks" by (simp add: cb_inv_def new_callbacks_def pool_queue_def)
  then have "cb_inv st" using cb_machine.run_inv_nth assms by blast
  then have "distinct (cbs_seen T o1 st)" by (simp add: cbs_seen_def cb_inv_rules)
  then show ?thesis by (simp add: do_callbacks_all)
qed

theorem callbacks_once_witness:
  "\<exists>cs. do_callbacks (Suc (length (cbs_seen 1 2 (fold (cb_step sample_cbs) sample_cb_run new_callbacks)))) sample_cbs 1 1 2
     (fold (cb_step sample_cbs) sample_cb_run new_callbacks) = Some cs \<and> distinct cs"
proof (rule callbacks_once [OF _ refl])
  show "\<forall>k < length sample_cb_run. cb_ok sample_cbs (sample_cb_run ! k) (fold (cb_step sample_cbs) (take k sample_cb_run) new_callbacks)"
    unfolding sample_cb_run_def by (simp add: All_less_Suc del: not_None_eq) code_simp
qed

text \<open>Why the condition: an object of a report type whose queue is filled for its first callback holds the type-wide
  callbacks of report objects twice.\<close>

lemma report_callbacks_twice:
  "(let env = sample_cbs\<lparr>ce_report := 1\<rparr>
    in cbs_seen 1 1 (fst (cb_add env 1 1 (Some 1) (Some 7) UVM_APPEND (set_tw 1 [8] new_callbacks)))) = [8, 8, 7]"
  by code_simp

end
