(* ===== verification/Factory.thy ===== *)
theory Factory
  imports UVM_Prelude "HOL-Library.AList"
begin

text \<open>
  \<open>src/uvmsc/factory/uvm_default_factory.cpp\<close> and \<open>uvm_factory_override.cpp\<close>: registration of types,
  type and instance overrides, and the search for the type that a request creates. A type
  (\<open>uvm_object_wrapper*\<close>) is a number, \<open>tn\<close> gives its type name, and \<open>mt\<close> stands for
  \<open>uvm_is_match\<close> (modelled in \<open>Glob\<close>). Arguments are not null pointers. The recursion of the search takes a
  bound: \<open>None\<close> means that the bound is not enough. Messages of severity info, the display of a
  debug request and the lists of created objects are left out.
\<close>

section \<open>State\<close>

record override =
  ov_path :: string
  ov_orig_name :: string
  ov_orig :: "nat option"
  ov_type_name :: string
  ov_type :: nat

record factory =
  fa_types :: "nat list"
  fa_type_names :: "(string \<times> nat) list"
  fa_lookup_strs :: "string list"
  fa_type_overrides :: "override list"
  fa_wild :: "override list"
  fa_inst :: "(nat \<times> override list) list"
  fa_inst_names :: "(string \<times> override list) list"
  fa_info :: "override list"

definition new_factory :: factory where
  "new_factory = \<lparr>fa_types = [], fa_type_names = [], fa_lookup_strs = [], fa_type_overrides = [],
     fa_wild = [], fa_inst = [], fa_inst_names = [], fa_info = []\<rparr>"

definition new_override :: "(nat \<Rightarrow> string) \<Rightarrow> string \<Rightarrow> string \<Rightarrow> nat option \<Rightarrow> nat \<Rightarrow> override" where
  "new_override tn path orig_name orig ovrd =
     \<lparr>ov_path = path, ov_orig_name = (case orig of None \<Rightarrow> orig_name | Some t \<Rightarrow> tn t), ov_orig = orig,
      ov_type_name = tn ovrd, ov_type = ovrd\<rparr>"

definition queue_of :: "('k \<times> override list) list \<Rightarrow> 'k \<Rightarrow> override list" where
  "queue_of qs k = (case map_of qs k of None \<Rightarrow> [] | Some q \<Rightarrow> q)"

definition named :: "string \<Rightarrow> bool" where
  "named s \<longleftrightarrow> s \<noteq> [] \<and> s \<noteq> ''<unknown>''"

definition m_has_wildcard :: "string \<Rightarrow> bool" where
  "m_has_wildcard s \<longleftrightarrow> CHR ''*'' \<in> set s \<or> CHR ''?'' \<in> set s"

section \<open>Registration\<close>

definition register_name :: "(nat \<Rightarrow> string) \<Rightarrow> nat \<Rightarrow> factory \<Rightarrow> factory \<times> msg list" where
  "register_name tn t st =
     (if named (tn t) then
        (if map_of (fa_type_names st) (tn t) \<noteq> None then (st, [(UVM_WARNING, ''TPRGED'')])
         else (st\<lparr>fa_type_names := AList.update (tn t) t (fa_type_names st)\<rparr>, []))
      else (st, []))"

definition adopt_overrides :: "(nat \<Rightarrow> string) \<Rightarrow> (string \<Rightarrow> string \<Rightarrow> bool) \<Rightarrow> nat \<Rightarrow> factory \<Rightarrow> factory" where
  "adopt_overrides tn mt t st =
     (let st = (case map_of (fa_inst_names st) (tn t) of
                  None \<Rightarrow> st
                | Some q \<Rightarrow> st\<lparr>fa_inst := AList.update t q (fa_inst st),
                               fa_inst_names := AList.delete (tn t) (fa_inst_names st)\<rparr>)
      in if fa_wild st = [] then st
         else st\<lparr>fa_inst := AList.update t
                   (queue_of (fa_inst st) t @ filter (\<lambda>x. mt (ov_orig_name x) (tn t)) (fa_wild st)) (fa_inst st)\<rparr>)"

definition do_register :: "(nat \<Rightarrow> string) \<Rightarrow> (string \<Rightarrow> string \<Rightarrow> bool) \<Rightarrow> nat \<Rightarrow> factory \<Rightarrow> factory \<times> msg list" where
  "do_register tn mt t st =
     (let (st, ms) = register_name tn t st
      in if t \<in> set (fa_types st) then (st, ms @ (if named (tn t) then [(UVM_WARNING, ''TPRGED'')] else []))
         else (adopt_overrides tn mt t (st\<lparr>fa_types := t # fa_types st\<rparr>), ms))"

definition is_type_name_registered :: "factory \<Rightarrow> string \<Rightarrow> bool" where
  "is_type_name_registered st s \<longleftrightarrow> map_of (fa_type_names st) s \<noteq> None"

definition is_type_registered :: "factory \<Rightarrow> nat \<Rightarrow> bool" where
  "is_type_registered st t \<longleftrightarrow> t \<in> set (fa_types st)"

definition find_wrapper_by_name :: "factory \<Rightarrow> string \<Rightarrow> nat option \<times> msg list" where
  "find_wrapper_by_name st s =
     (case map_of (fa_type_names st) s of None \<Rightarrow> (None, [(UVM_WARNING, ''UnknownTypeName'')]) | Some t \<Rightarrow> (Some t, []))"

definition ensure_registered :: "(nat \<Rightarrow> string) \<Rightarrow> (string \<Rightarrow> string \<Rightarrow> bool) \<Rightarrow> nat \<Rightarrow> factory \<Rightarrow> factory \<times> msg list" where
  "ensure_registered tn mt t st = (if t \<in> set (fa_types st) then (st, []) else do_register tn mt t st)"

section \<open>Overrides\<close>

text \<open>An override is for a type when it names the type itself or, by a proper name, its type name.\<close>

definition is_for :: "(nat \<Rightarrow> string) \<Rightarrow> nat \<Rightarrow> override \<Rightarrow> bool" where
  "is_for tn t x \<longleftrightarrow> ov_orig x = Some t \<or> (named (ov_orig_name x) \<and> ov_orig_name x = tn t)"

text \<open>
  The second test of the code for an unregistered type asks for the original type again, so the
  override type is never registered.
\<close>

definition set_type_override_by_type ::
  "(nat \<Rightarrow> string) \<Rightarrow> (string \<Rightarrow> string \<Rightarrow> bool) \<Rightarrow> nat \<Rightarrow> nat \<Rightarrow> bool \<Rightarrow> factory \<Rightarrow> factory \<times> msg list" where
  "set_type_override_by_type tn mt orig ovrd replace st =
     (if orig = ovrd then (st, [(UVM_WARNING, ''TYPDUP'')])
      else
        (let (st, ms) = ensure_registered tn mt orig st;
             (st, ms') = (if orig \<in> set (fa_types st) then (st, []) else do_register tn mt ovrd st)
         in if filter (is_for tn orig) (fa_type_overrides st) = [] then
              (st\<lparr>fa_type_overrides := fa_type_overrides st @ [new_override tn ''*'' (tn orig) (Some orig) ovrd]\<rparr>, ms @ ms')
            else if \<not> replace then (st, ms @ ms')
            else
              (st\<lparr>fa_type_overrides := map (\<lambda>x. if is_for tn orig x
                   then x\<lparr>ov_orig := Some orig, ov_orig_name := tn orig, ov_type := ovrd, ov_type_name := tn ovrd\<rparr>
                   else x) (fa_type_overrides st)\<rparr>, ms @ ms')))"

definition set_type_override_by_name ::
  "(nat \<Rightarrow> string) \<Rightarrow> string \<Rightarrow> string \<Rightarrow> bool \<Rightarrow> factory \<Rightarrow> factory \<times> msg list" where
  "set_type_override_by_name tn orig_name ovrd_name replace st =
     (case map_of (fa_type_names st) ovrd_name of
        None \<Rightarrow> (st, [(UVM_ERROR, ''TYPNTF'')])
      | Some ovrd \<Rightarrow>
          (if orig_name = ovrd_name then (st, [(UVM_WARNING, ''TYPDUP'')])
           else
             (let orig = map_of (fa_type_names st) orig_name;
                  found = filter (\<lambda>x. ov_orig_name x = orig_name) (fa_type_overrides st) \<noteq> []
              in if found \<and> \<not> replace then (st, [])
                 else
                   (let st = (if orig = None then st\<lparr>fa_lookup_strs := List.insert orig_name (fa_lookup_strs st)\<rparr> else st)
                    in if found then
                         (st\<lparr>fa_type_overrides := map (\<lambda>x. if ov_orig_name x = orig_name
                              then x\<lparr>ov_type := ovrd, ov_type_name := ovrd_name\<rparr> else x) (fa_type_overrides st)\<rparr>, [])
                       else
                         (st\<lparr>fa_type_overrides := fa_type_overrides st @ [new_override tn ''*'' orig_name orig ovrd]\<rparr>, [])))))"

definition check_inst_override_exists :: "(nat \<Rightarrow> string) \<Rightarrow> nat \<Rightarrow> nat \<Rightarrow> string \<Rightarrow> factory \<Rightarrow> bool" where
  "check_inst_override_exists tn orig ovrd path st \<longleftrightarrow>
     (\<exists>x \<in> set (queue_of (fa_inst st) orig). ov_path x = path \<and> ov_orig x = Some orig \<and> ov_type x = ovrd
        \<and> ov_orig_name x = tn orig)"

definition push_inst :: "nat \<Rightarrow> override \<Rightarrow> factory \<Rightarrow> factory" where
  "push_inst t x st = st\<lparr>fa_inst := AList.update t (queue_of (fa_inst st) t @ [x]) (fa_inst st)\<rparr>"

definition set_inst_override_by_type ::
  "(nat \<Rightarrow> string) \<Rightarrow> (string \<Rightarrow> string \<Rightarrow> bool) \<Rightarrow> nat \<Rightarrow> nat \<Rightarrow> string \<Rightarrow> factory \<Rightarrow> factory \<times> msg list" where
  "set_inst_override_by_type tn mt orig ovrd path st =
     (let (st, ms) = ensure_registered tn mt orig st;
          (st, ms') = (if orig \<in> set (fa_types st) then (st, []) else do_register tn mt ovrd st)
      in if check_inst_override_exists tn orig ovrd path st then (st, ms @ ms')
         else (push_inst orig (new_override tn path (tn orig) (Some orig) ovrd) st, ms @ ms'))"

text \<open>\<open>set_inst_override_by_name\<close> for a registered original type, as the recursion calls it too.\<close>

definition inst_override_of :: "(nat \<Rightarrow> string) \<Rightarrow> nat \<Rightarrow> nat \<Rightarrow> string \<Rightarrow> factory \<Rightarrow> factory" where
  "inst_override_of tn orig ovrd path st =
     (if check_inst_override_exists tn orig ovrd path st then st
      else push_inst orig (new_override tn path (tn orig) (Some orig) ovrd) st)"

definition set_inst_override_by_name ::
  "(nat \<Rightarrow> string) \<Rightarrow> (string \<Rightarrow> string \<Rightarrow> bool) \<Rightarrow> string \<Rightarrow> string \<Rightarrow> string \<Rightarrow> factory \<Rightarrow> factory \<times> msg list" where
  "set_inst_override_by_name tn mt orig_name ovrd_name path st =
     (case map_of (fa_type_names st) ovrd_name of
        None \<Rightarrow> (st, [(UVM_ERROR, ''TYPNTF'')])
      | Some ovrd \<Rightarrow>
          (case map_of (fa_type_names st) orig_name of
             Some orig \<Rightarrow> (inst_override_of tn orig ovrd path st, [])
           | None \<Rightarrow>
               (let st = st\<lparr>fa_lookup_strs := List.insert orig_name (fa_lookup_strs st)\<rparr>;
                    x = new_override tn path orig_name None ovrd
                in if m_has_wildcard orig_name then
                     (let st = fold (\<lambda>(s, t) st. if mt orig_name s then inst_override_of tn t ovrd path st else st)
                                 (fa_type_names st) st
                      in (st\<lparr>fa_wild := fa_wild st @ [x]\<rparr>, []))
                   else
                     (st\<lparr>fa_inst_names := AList.update orig_name (queue_of (fa_inst_names st) orig_name @ [x])
                           (fa_inst_names st)\<rparr>, []))))"

section \<open>The search\<close>

text \<open>
  The overrides that the search for a type meets, in its order: those of the instance path, then the
  type overrides. A debug request records all of them, a normal request the first one; both go on
  with the first one.
\<close>

definition relevant :: "(nat \<Rightarrow> string) \<Rightarrow> (string \<Rightarrow> string \<Rightarrow> bool) \<Rightarrow> factory \<Rightarrow> string \<Rightarrow> nat \<Rightarrow> override list" where
  "relevant tn mt st path t =
     (if path = [] then [] else filter (\<lambda>x. is_for tn t x \<and> mt (ov_path x) path) (queue_of (fa_inst st) t))
     @ filter (is_for tn t) (fa_type_overrides st)"

definition loops :: "factory \<Rightarrow> nat \<Rightarrow> bool" where
  "loops st t \<longleftrightarrow> (\<exists>x \<in> set (fa_info st). ov_orig x = Some t)"

definition record_info :: "override list \<Rightarrow> factory \<Rightarrow> factory" where
  "record_info xs st = st\<lparr>fa_info := fa_info st @ xs\<rparr>"

primrec find_debug_by_type ::
  "nat \<Rightarrow> (nat \<Rightarrow> string) \<Rightarrow> (string \<Rightarrow> string \<Rightarrow> bool) \<Rightarrow> nat \<Rightarrow> string \<Rightarrow> factory \<Rightarrow> (nat \<times> factory \<times> msg list) option" where
  "find_debug_by_type 0 tn mt t path st = None"
| "find_debug_by_type (Suc n) tn mt t path st =
     (if loops st t then Some (t, st, [(UVM_ERROR, ''OVRDLOOP'')])
      else
        (case relevant tn mt st path t of
           [] \<Rightarrow> Some (t, st, [])
         | x # xs \<Rightarrow>
             (let st = record_info (x # xs) st
              in if ov_type x = t then Some (t, st, []) else find_debug_by_type n tn mt (ov_type x) path st)))"

definition join_path :: "string \<Rightarrow> string \<Rightarrow> string" where
  "join_path parent name = (if parent = [] then name else if name \<noteq> [] then parent @ ''.'' @ name else parent)"

definition debug_create_by_type ::
  "nat \<Rightarrow> (nat \<Rightarrow> string) \<Rightarrow> (string \<Rightarrow> string \<Rightarrow> bool) \<Rightarrow> nat \<Rightarrow> string \<Rightarrow> string \<Rightarrow> factory \<Rightarrow> (nat \<times> factory \<times> msg list) option" where
  "debug_create_by_type n tn mt t parent name st =
     (let (st, ms) = ensure_registered tn mt t (st\<lparr>fa_info := []\<rparr>)
      in map_option (\<lambda>(r, st, ms'). (r, st, ms @ ms')) (find_debug_by_type n tn mt t (join_path parent name) st))"

primrec find_override_by_type ::
  "nat \<Rightarrow> (nat \<Rightarrow> string) \<Rightarrow> (string \<Rightarrow> string \<Rightarrow> bool) \<Rightarrow> nat \<Rightarrow> string \<Rightarrow> factory \<Rightarrow> (nat \<times> factory \<times> msg list) option" where
  "find_override_by_type 0 tn mt t path st = None"
| "find_override_by_type (Suc n) tn mt t path st =
     (if loops st t then
        map_option (\<lambda>(_, st, ms). (t, st, (UVM_ERROR, ''OVRDLOOP'') # ms)) (debug_create_by_type (Suc n) tn mt t path [] st)
      else
        (case relevant tn mt st path t of
           [] \<Rightarrow> Some (t, st, [])
         | x # xs \<Rightarrow>
             (let st = record_info [x] st
              in if ov_type x = t then Some (t, st, []) else find_override_by_type n tn mt (ov_type x) path st)))"

text \<open>
  By name: the instance overrides of the name, then the type overrides of the name. In between a registered type
  without a queue gets one with the wildcard overrides.
\<close>

definition named_inst :: "(string \<Rightarrow> string \<Rightarrow> bool) \<Rightarrow> factory \<Rightarrow> string \<Rightarrow> string \<Rightarrow> override list" where
  "named_inst mt st name path =
     (if path = [] then []
      else filter (\<lambda>x. mt (ov_orig_name x) name \<and> mt (ov_path x) path)
             (case map_of (fa_type_names st) name of
                None \<Rightarrow> queue_of (fa_inst_names st) name
              | Some t \<Rightarrow> queue_of (fa_inst st) t))"

definition adopt_wild :: "(string \<Rightarrow> string \<Rightarrow> bool) \<Rightarrow> string \<Rightarrow> factory \<Rightarrow> factory" where
  "adopt_wild mt name st =
     (case map_of (fa_type_names st) name of
        None \<Rightarrow> st
      | Some t \<Rightarrow>
          (if map_of (fa_inst st) t = None \<and> fa_wild st \<noteq> [] then
             st\<lparr>fa_inst := AList.update t (filter (\<lambda>x. mt (ov_orig_name x) name) (fa_wild st)) (fa_inst st)\<rparr>
           else st))"

definition find_override_by_name ::
  "nat \<Rightarrow> (nat \<Rightarrow> string) \<Rightarrow> (string \<Rightarrow> string \<Rightarrow> bool) \<Rightarrow> string \<Rightarrow> string \<Rightarrow> factory
   \<Rightarrow> (nat option \<times> factory \<times> msg list) option" where
  "find_override_by_name n tn mt name path st =
     (let follow = (\<lambda>t st. map_option (\<lambda>(r, st, ms). (Some r, st, ms)) (find_override_by_type n tn mt t path st))
      in case named_inst mt st name path of
           x # _ \<Rightarrow>
             (let st = record_info [x] st
              in if tn (ov_type x) = name then Some (Some (ov_type x), st, []) else follow (ov_type x) st)
         | [] \<Rightarrow>
             (let st = adopt_wild mt name st
              in case filter (\<lambda>x. ov_orig_name x = name) (fa_type_overrides st) of
                   x # _ \<Rightarrow> follow (ov_type x) (record_info [x] st)
                 | [] \<Rightarrow> Some (None, st, [])))"

text \<open>The debug request by name; an unknown name ends it at once.\<close>

definition debug_create_by_name ::
  "nat \<Rightarrow> (nat \<Rightarrow> string) \<Rightarrow> (string \<Rightarrow> string \<Rightarrow> bool) \<Rightarrow> string \<Rightarrow> string \<Rightarrow> string \<Rightarrow> factory
   \<Rightarrow> (nat option \<times> factory \<times> msg list) option" where
  "debug_create_by_name n tn mt rname parent name st =
     (let st = st\<lparr>fa_info := []\<rparr>; path = join_path parent name
      in if map_of (fa_type_names st) rname = None \<and> rname \<notin> set (fa_lookup_strs st)
         then Some (None, st, [(UVM_WARNING, ''Factory Warning'')])
         else
           (let xs = named_inst mt st rname path; st = adopt_wild mt rname (record_info xs st);
                ys = filter (\<lambda>x. ov_orig_name x = rname) (fa_type_overrides st); st = record_info ys st
            in case xs @ ys of
                 [] \<Rightarrow> Some (None, st, [])
               | x # _ \<Rightarrow> map_option (\<lambda>(r, st, ms). (Some r, st, ms)) (find_debug_by_type n tn mt (ov_type x) path st)))"

text \<open>The type whose constructor a request calls; \<open>None\<close> inside is the null pointer.\<close>

definition create_by_type ::
  "nat \<Rightarrow> (nat \<Rightarrow> string) \<Rightarrow> (string \<Rightarrow> string \<Rightarrow> bool) \<Rightarrow> nat \<Rightarrow> string \<Rightarrow> string \<Rightarrow> factory \<Rightarrow> (nat \<times> factory \<times> msg list) option" where
  "create_by_type n tn mt t parent name st =
     find_override_by_type n tn mt t (join_path parent name) (st\<lparr>fa_info := []\<rparr>)"

definition create_by_name ::
  "nat \<Rightarrow> (nat \<Rightarrow> string) \<Rightarrow> (string \<Rightarrow> string \<Rightarrow> bool) \<Rightarrow> string \<Rightarrow> string \<Rightarrow> string \<Rightarrow> factory
   \<Rightarrow> (nat option \<times> factory \<times> msg list) option" where
  "create_by_name n tn mt rname parent name st =
     map_option (\<lambda>(r, st, ms).
       (case r of
          Some t \<Rightarrow> (Some t, st, ms)
        | None \<Rightarrow>
            (case map_of (fa_type_names st) rname of
               None \<Rightarrow> (None, st, ms @ [(UVM_WARNING, ''BDTYP'')])
             | Some t \<Rightarrow> (Some t, st, ms))))
       (find_override_by_name n tn mt rname (join_path parent name) (st\<lparr>fa_info := []\<rparr>))"

section \<open>Overrides that know their type\<close>

lemma queue_of_update [simp]: "queue_of (AList.update k v qs) k' = (if k' = k then v else queue_of qs k')"
  by (simp add: queue_of_def update_conv')

lemma queue_of_delete: "queue_of (AList.delete k qs) k' = (if k' = k then [] else queue_of qs k')"
  by (simp add: queue_of_def AList.delete_conv')

lemma queue_of_Nil [simp]: "queue_of [] k = []"
  by (simp add: queue_of_def)

definition wild_only :: "override \<Rightarrow> bool" where
  "wild_only x \<longleftrightarrow> ov_orig x = None \<and> m_has_wildcard (ov_orig_name x)"

definition known :: "(nat \<Rightarrow> string) \<Rightarrow> override \<Rightarrow> bool" where
  "known tn x \<longleftrightarrow> (\<exists>t. ov_orig x = Some t \<and> ov_orig_name x = tn t) \<or> wild_only x"

definition fa_inv :: "(nat \<Rightarrow> string) \<Rightarrow> factory \<Rightarrow> bool" where
  "fa_inv tn st \<longleftrightarrow>
     (\<forall>x \<in> set (fa_type_overrides st). known tn x) \<and> (\<forall>k. \<forall>x \<in> set (queue_of (fa_inst st) k). known tn x)
     \<and> (\<forall>x \<in> set (fa_wild st). wild_only x) \<and> (\<forall>k. \<forall>x \<in> set (queue_of (fa_inst_names st) k). wild_only x)
     \<and> (\<forall>s t. map_of (fa_type_names st) s = Some t \<longrightarrow> tn t = s)"

text \<open>Type names are unique and have no wildcard characters.\<close>

definition proper_names :: "(nat \<Rightarrow> string) \<Rightarrow> bool" where
  "proper_names tn \<longleftrightarrow> inj tn \<and> (\<forall>t. \<not> m_has_wildcard (tn t))"

lemma known_wild: "wild_only x \<Longrightarrow> known tn x"
  by (simp add: known_def)

lemma relevant_orig:
  assumes "fa_inv tn st" "proper_names tn" "x \<in> set (relevant tn mt st path t)"
  shows "ov_orig x = Some t"
proof -
  have "known tn x" "is_for tn t x"
    using assms(1,3) by (auto simp: relevant_def fa_inv_def split: if_splits)
  then show ?thesis using assms(2) by (auto simp: known_def wild_only_def is_for_def proper_names_def inj_def)
qed

lemma inv_info [simp]: "fa_inv tn (fa_info_update f st) = fa_inv tn st"
  by (simp add: fa_inv_def)

lemma inv_record [simp]: "fa_inv tn (record_info xs st) = fa_inv tn st"
  by (simp add: record_info_def)

lemma queue_of_Some: "map_of qs k = Some q \<Longrightarrow> queue_of qs k = q"
  by (simp add: queue_of_def)

lemma adopt_queue:
  assumes "x \<in> set (queue_of (fa_inst (adopt_overrides tn mt t st)) k)"
  shows "x \<in> set (queue_of (fa_inst st) k) \<or> x \<in> set (fa_wild st) \<or> (\<exists>j. x \<in> set (queue_of (fa_inst_names st) j))"
  using assms queue_of_Some [of "fa_inst_names st" "tn t"]
  by (auto simp: adopt_overrides_def Let_def split: if_splits option.splits intro: exI [of _ "tn t"])

lemma adopt_frame:
  "fa_type_overrides (adopt_overrides tn mt t st) = fa_type_overrides st" "fa_wild (adopt_overrides tn mt t st) = fa_wild st"
  "fa_type_names (adopt_overrides tn mt t st) = fa_type_names st"
  "x \<in> set (queue_of (fa_inst_names (adopt_overrides tn mt t st)) k) \<Longrightarrow> x \<in> set (queue_of (fa_inst_names st) k)"
  by (auto simp: adopt_overrides_def Let_def queue_of_delete split: option.splits if_splits)

lemma inv_register_type:
  assumes "fa_inv tn st"
  shows "fa_inv tn (fst (do_register tn mt t st))"
proof -
  have 1: "fa_inv tn (fst (register_name tn t st))"
    using assms by (auto simp: register_name_def fa_inv_def update_conv')
  have 2: "fa_inv tn (adopt_overrides tn mt t s)" if "fa_inv tn s" for s
    using that adopt_queue [of _ tn mt t s] adopt_frame(4) [of _ tn mt t s] unfolding fa_inv_def adopt_frame(1-3)
    by (meson known_wild)
  have "fa_inv tn (adopt_overrides tn mt t (s\<lparr>fa_types := t # fa_types s\<rparr>))" if "fa_inv tn s" for s
    by (rule 2) (use that in \<open>simp add: fa_inv_def\<close>)
  with 1 show ?thesis by (simp add: do_register_def split_beta Let_def)
qed

lemma inv_ensure: "fa_inv tn st \<Longrightarrow> fa_inv tn (fst (ensure_registered tn mt t st))"
  by (simp add: ensure_registered_def inv_register_type)

lemma inv_push: "fa_inv tn st \<Longrightarrow> known tn x \<Longrightarrow> fa_inv tn (push_inst t x st)"
  by (auto simp: push_inst_def fa_inv_def)

lemma known_new: "known tn (new_override tn path (tn t) (Some t) ovrd)"
  by (simp add: known_def new_override_def)

lemma inv_inst_override_of: "fa_inv tn st \<Longrightarrow> fa_inv tn (inst_override_of tn orig ovrd path st)"
  by (auto simp: inst_override_of_def intro: inv_push known_new)

lemma inv_fold_inst:
  "fa_inv tn st \<Longrightarrow> fa_inv tn (fold (\<lambda>(s, t) st. if mt g s then inst_override_of tn t ovrd path st else st) ks st)"
  by (induction ks arbitrary: st) (simp_all add: split_beta inv_inst_override_of)

section \<open>The search ends\<close>

definition origs :: "factory \<Rightarrow> nat set" where
  "origs st = {t. \<exists>x. ov_orig x = Some t \<and> (x \<in> set (fa_type_overrides st) \<or> (\<exists>k. x \<in> set (queue_of (fa_inst st) k)))}"

definition override_count :: "factory \<Rightarrow> nat" where
  "override_count st = length (fa_type_overrides st) + length (concat (map snd (fa_inst st)))"

lemma origs_list: "origs st \<subseteq> (the \<circ> ov_orig) ` set (fa_type_overrides st @ concat (map snd (fa_inst st)))"
proof
  fix t assume "t \<in> origs st"
  then obtain x where x: "ov_orig x = Some t" "x \<in> set (fa_type_overrides st) \<or> (\<exists>k. x \<in> set (queue_of (fa_inst st) k))"
    by (auto simp: origs_def)
  have "x \<in> set (concat (map snd (fa_inst st)))" if "x \<in> set (queue_of (fa_inst st) k)" for k
  proof -
    from that obtain q where "map_of (fa_inst st) k = Some q" "x \<in> set q" by (cases "map_of (fa_inst st) k") (auto simp: queue_of_def)
    then show ?thesis using map_of_SomeD [of "fa_inst st" k q] by force
  qed
  with x show "t \<in> (the \<circ> ov_orig) ` set (fa_type_overrides st @ concat (map snd (fa_inst st)))" by force
qed

lemma finite_origs [simp]: "finite (origs st)"
  by (rule finite_subset [OF origs_list]) simp

lemma card_origs: "card (origs st) \<le> override_count st"
proof -
  have "card (origs st) \<le> card ((the \<circ> ov_orig) ` set (fa_type_overrides st @ concat (map snd (fa_inst st))))"
    by (rule card_mono [OF _ origs_list]) simp
  also have "\<dots> \<le> length (fa_type_overrides st @ concat (map snd (fa_inst st)))"
    by (metis card_image_le card_length finite_set le_trans)
  finally show ?thesis by (simp add: override_count_def)
qed

definition seen :: "factory \<Rightarrow> nat set" where
  "seen st = {t. loops st t}"

lemma origs_record [simp]: "origs (record_info xs st) = origs st" "relevant tn mt (record_info xs st) = relevant tn mt st"
  by (simp_all add: origs_def record_info_def relevant_def fun_eq_iff)

lemma seen_record: "(\<And>x. x \<in> set xs \<Longrightarrow> ov_orig x = Some t) \<Longrightarrow> xs \<noteq> [] \<Longrightarrow> seen (record_info xs st) = insert t (seen st)"
  by (cases xs) (auto simp: seen_def loops_def record_info_def)

lemma relevant_in_origs: "x \<in> set (relevant tn mt st path t) \<Longrightarrow> ov_orig x = Some t \<Longrightarrow> t \<in> origs st"
  by (auto simp: relevant_def origs_def split: if_splits)

text \<open>Each step of the search adds a type that has an override to the types seen.\<close>

lemma unseen_less:
  assumes "t \<in> origs st" "\<not> loops st t" "seen st' = insert t (seen st)" "origs st' = origs st"
  shows "card (origs st' - seen st') < card (origs st - seen st)"
proof -
  have "origs st' - seen st' \<subset> origs st - seen st" using assms by (auto simp: seen_def)
  then show ?thesis by (rule psubset_card_mono [rotated]) simp
qed

lemma find_debug_some:
  assumes "proper_names tn"
  shows "fa_inv tn st \<Longrightarrow> card (origs st - seen st) < n \<Longrightarrow>
    \<exists>r st' ms. find_debug_by_type n tn mt t path st = Some (r, st', ms) \<and> fa_inv tn st'"
proof (induction n arbitrary: t st)
  case (Suc n)
  show ?case
  proof (cases "loops st t \<or> relevant tn mt st path t = []")
    case True
    with Suc.prems show ?thesis by (auto split: list.splits)
  next
    case False
    then obtain x xs where r: "relevant tn mt st path t = x # xs" by (cases "relevant tn mt st path t") auto
    have o: "ov_orig y = Some t" if "y \<in> set (x # xs)" for y
      using relevant_orig [OF Suc.prems(1) assms, of y mt path t] that r by simp
    let ?st = "record_info (x # xs) st"
    have "card (origs ?st - seen ?st) < card (origs st - seen st)"
      using relevant_in_origs [of x tn mt st path t] o [of x] r False seen_record [of "x # xs" t st, OF o]
      by (intro unseen_less) auto
    with Suc.IH [of ?st "ov_type x"] Suc.prems False r show ?thesis by (auto simp: Let_def)
  qed
qed simp

lemma origs_register:
  assumes "fa_inv tn st"
  shows "origs (fst (do_register tn mt t st)) \<subseteq> origs st"
proof -
  have w: "x \<in> set (fa_wild st) \<Longrightarrow> ov_orig x = None" "x \<in> set (queue_of (fa_inst_names st) k) \<Longrightarrow> ov_orig x = None" for x k
    using assms by (auto simp: fa_inv_def wild_only_def)
  have "x \<in> set (queue_of (fa_inst st) k) \<or> ov_orig x = None"
    if "x \<in> set (queue_of (fa_inst (fst (do_register tn mt t st))) k)" for x k
  proof -
    let ?s = "(fst (register_name tn t st))\<lparr>fa_types := t # fa_types (fst (register_name tn t st))\<rparr>"
    have "fa_inst ?s = fa_inst st" "fa_wild ?s = fa_wild st" "fa_inst_names ?s = fa_inst_names st"
      by (simp_all add: register_name_def)
    then show ?thesis
      using that adopt_queue [of x tn mt t ?s k] w(1) [of x] w(2) [of x]
      by (auto simp: do_register_def Let_def split_beta split: if_splits) blast
  qed
  moreover have "fa_type_overrides (fst (do_register tn mt t st)) = fa_type_overrides st"
    by (simp add: do_register_def register_name_def adopt_overrides_def Let_def split: option.splits)
  ultimately show ?thesis by (fastforce simp: origs_def)
qed

lemma debug_create_some:
  assumes "proper_names tn" "fa_inv tn st" "card (origs st) < n"
  shows "\<exists>r st' ms. debug_create_by_type n tn mt t parent name st = Some (r, st', ms) \<and> fa_inv tn st'"
proof -
  obtain s w where s: "ensure_registered tn mt t (st\<lparr>fa_info := []\<rparr>) = (s, w)" by fastforce
  have i: "fa_inv tn s" using inv_ensure [of tn "st\<lparr>fa_info := []\<rparr>" mt t] assms(2) s by simp
  have "fa_inv tn (st\<lparr>fa_info := []\<rparr>)" using assms(2) by simp
  from origs_register [OF this, of mt t] s have "origs s \<subseteq> origs st"
    by (auto simp: ensure_registered_def origs_def split: if_splits)
  then have "card (origs s - seen s) \<le> card (origs st)" by (intro card_mono) auto
  with find_debug_some [OF assms(1) i, of n mt "t" "join_path parent name"] assms(3) s show ?thesis
    by (auto simp: debug_create_by_type_def)
qed

lemma find_some:
  assumes "proper_names tn"
  shows "fa_inv tn st \<Longrightarrow> card (origs st - seen st) + card (origs st) < n \<Longrightarrow>
    \<exists>r st' ms. find_override_by_type n tn mt t path st = Some (r, st', ms) \<and> fa_inv tn st'"
proof (induction n arbitrary: t st)
  case (Suc n)
  show ?case
  proof (cases "loops st t")
    case True
    with debug_create_some [OF assms Suc.prems(1), of "Suc n" mt t path "[]"] Suc.prems(2) show ?thesis by auto
  next
    case False
    show ?thesis
    proof (cases "relevant tn mt st path t")
      case (Cons x xs)
      have o: "ov_orig x = Some t" using relevant_orig [OF Suc.prems(1) assms, of x mt path t] Cons by simp
      let ?st = "record_info [x] st"
      have "card (origs ?st - seen ?st) < card (origs st - seen st)"
        using relevant_in_origs [of x tn mt st path t] o Cons False seen_record [of "[x]" t st]
        by (intro unseen_less) auto
      with Suc.IH [of ?st "ov_type x"] Suc.prems False Cons show ?thesis by (auto simp: Let_def)
    qed (use False Suc.prems in simp)
  qed
qed simp

section \<open>What the search returns\<close>

text \<open>One step from a type: the type of the first override that is relevant, when that is another type.\<close>

definition override_step :: "(nat \<Rightarrow> string) \<Rightarrow> (string \<Rightarrow> string \<Rightarrow> bool) \<Rightarrow> factory \<Rightarrow> string \<Rightarrow> nat \<Rightarrow> nat option" where
  "override_step tn mt st path t =
     (case relevant tn mt st path t of [] \<Rightarrow> None | x # _ \<Rightarrow> if ov_type x = t then None else Some (ov_type x))"

definition override_rel :: "(nat \<Rightarrow> string) \<Rightarrow> (string \<Rightarrow> string \<Rightarrow> bool) \<Rightarrow> factory \<Rightarrow> string \<Rightarrow> (nat \<times> nat) set" where
  "override_rel tn mt st path = {(a, b). override_step tn mt st path a = Some b}"

lemma override_step_record [simp]: "override_step tn mt (record_info xs st) path t = override_step tn mt st path t"
  by (simp add: override_step_def)

lemma override_rel_record [simp]: "override_rel tn mt (record_info xs st) path = override_rel tn mt st path"
  by (simp add: override_rel_def)

lemma find_spec:
  assumes "proper_names tn"
  shows "find_override_by_type n tn mt t path st = Some (r, st', ms) \<Longrightarrow> fa_inv tn st \<Longrightarrow>
    (\<And>s. loops st s \<Longrightarrow> (s, t) \<in> (override_rel tn mt st path)\<^sup>+) \<Longrightarrow>
    (t, r) \<in> (override_rel tn mt st path)\<^sup>* \<and>
    (if ms = [] then override_step tn mt st path r = None else (r, r) \<in> (override_rel tn mt st path)\<^sup>+)"
proof (induction n arbitrary: t st)
  case (Suc n)
  let ?R = "override_rel tn mt st path"
  show ?case
  proof (cases "loops st t")
    case True
    then show ?thesis using Suc.prems(1) Suc.prems(3) [OF True] by auto
  next
    case False
    show ?thesis
    proof (cases "relevant tn mt st path t")
      case Nil
      with False Suc.prems(1) show ?thesis by (auto simp: override_step_def)
    next
      case (Cons x xs)
      show ?thesis
      proof (cases "ov_type x = t")
        case True
        with False Cons Suc.prems(1) show ?thesis by (auto simp: override_step_def Let_def)
      next
        case ne: False
        let ?st = "record_info [x] st"
        have step: "(t, ov_type x) \<in> ?R" using Cons ne by (simp add: override_rel_def override_step_def)
        have o: "ov_orig x = Some t" using relevant_orig [OF Suc.prems(2) assms, of x mt path t] Cons by simp
        have "(s, ov_type x) \<in> ?R\<^sup>+" if "loops ?st s" for s
        proof -
          from that o have "loops st s \<or> s = t" by (auto simp: loops_def record_info_def)
          then show ?thesis using Suc.prems(3) step by (auto intro: trancl.trancl_into_trancl)
        qed
        moreover have "find_override_by_type n tn mt (ov_type x) path ?st = Some (r, st', ms)"
          using Suc.prems(1) False Cons ne by (simp add: Let_def)
        ultimately have "(ov_type x, r) \<in> ?R\<^sup>* \<and> (if ms = [] then override_step tn mt st path r = None else (r, r) \<in> ?R\<^sup>+)"
          using Suc.IH [of "ov_type x" ?st, unfolded override_rel_record override_step_record] Suc.prems(2) by simp
        with step show ?thesis by (blast intro: converse_rtrancl_into_rtrancl)
      qed
    qed
  qed
qed simp

section \<open>Every run of the factory\<close>

datatype factory_op =
    Register nat
  | TypeByType nat nat bool
  | TypeByName string string bool
  | InstByType nat nat string
  | InstByName string string string
  | CreateByType nat string string
  | CreateByName string string string

definition search_bound :: "factory \<Rightarrow> nat" where
  "search_bound st = 2 * override_count st + 1"

fun factory_step :: "(nat \<Rightarrow> string) \<Rightarrow> (string \<Rightarrow> string \<Rightarrow> bool) \<Rightarrow> factory_op \<Rightarrow> factory \<Rightarrow> factory" where
  "factory_step tn mt (Register t) st = fst (do_register tn mt t st)"
| "factory_step tn mt (TypeByType a b rep) st = fst (set_type_override_by_type tn mt a b rep st)"
| "factory_step tn mt (TypeByName a b rep) st = fst (set_type_override_by_name tn a b rep st)"
| "factory_step tn mt (InstByType a b path) st = fst (set_inst_override_by_type tn mt a b path st)"
| "factory_step tn mt (InstByName a b path) st = fst (set_inst_override_by_name tn mt a b path st)"
| "factory_step tn mt (CreateByType t parent name) st =
     (case create_by_type (search_bound st) tn mt t parent name st of None \<Rightarrow> st | Some (_, st', _) \<Rightarrow> st')"
| "factory_step tn mt (CreateByName s parent name) st =
     (case create_by_name (search_bound st) tn mt s parent name st of None \<Rightarrow> st | Some (_, st', _) \<Rightarrow> st')"

text \<open>Overrides by name are for registered types or have wildcards.\<close>

fun factory_op_ok :: "factory_op \<Rightarrow> factory \<Rightarrow> bool" where
  "factory_op_ok (TypeByName a b rep) st = (is_type_name_registered st a \<or> m_has_wildcard a)"
| "factory_op_ok (InstByName a b path) st = (is_type_name_registered st a \<or> m_has_wildcard a)"
| "factory_op_ok _ st = True"

lemma inv_type_by_type:
  assumes "fa_inv tn st"
  shows "fa_inv tn (fst (set_type_override_by_type tn mt a b rep st))"
proof -
  obtain s w where s: "ensure_registered tn mt a st = (s, w)" by fastforce
  obtain s' w' where s': "(if a \<in> set (fa_types s) then (s, []) else do_register tn mt b s) = (s', w')" by fastforce
  have i: "fa_inv tn s" using inv_ensure [OF assms, of mt a] s by simp
  have i': "fa_inv tn s'" using i inv_register_type [OF i, of mt b] s' by (auto split: if_splits)
  have k: "known tn (new_override tn ''*'' (tn a) (Some a) b)" by (rule known_new)
  have m: "known tn (x\<lparr>ov_orig := Some a, ov_orig_name := tn a, ov_type := b, ov_type_name := tn b\<rparr>)" for x :: override
    by (simp add: known_def)
  show ?thesis
    using i' k m assms s s' by (auto simp: set_type_override_by_type_def fa_inv_def)
qed

lemma known_retarget: "known tn (x\<lparr>ov_type := b, ov_type_name := s\<rparr>) = known tn x"
  by (simp add: known_def wild_only_def)

lemma inv_type_by_name:
  assumes "fa_inv tn st" "is_type_name_registered st a \<or> m_has_wildcard a"
  shows "fa_inv tn (fst (set_type_override_by_name tn a b rep st))"
proof -
  have "known tn (new_override tn ''*'' a (map_of (fa_type_names st) a) c)" for c
    using assms
    by (auto simp: known_def wild_only_def new_override_def is_type_name_registered_def split: option.splits)
  then show ?thesis
    using assms(1)
    by (auto simp: set_type_override_by_name_def fa_inv_def known_retarget Let_def split: option.splits)
qed

lemma inv_inst_by_type:
  assumes "fa_inv tn st"
  shows "fa_inv tn (fst (set_inst_override_by_type tn mt a b path st))"
proof -
  obtain s w where s: "ensure_registered tn mt a st = (s, w)" by fastforce
  obtain s' w' where s': "(if a \<in> set (fa_types s) then (s, []) else do_register tn mt b s) = (s', w')" by fastforce
  have i: "fa_inv tn s" using inv_ensure [OF assms, of mt a] s by simp
  have i': "fa_inv tn s'" using i inv_register_type [OF i, of mt b] s' by (auto split: if_splits)
  then show ?thesis
    using s s' by (auto simp: set_inst_override_by_type_def intro: inv_push known_new)
qed

lemma inv_inst_by_name:
  assumes "fa_inv tn st" "is_type_name_registered st a \<or> m_has_wildcard a"
  shows "fa_inv tn (fst (set_inst_override_by_name tn mt a b path st))"
proof -
  have l: "fa_inv tn (st\<lparr>fa_lookup_strs := q\<rparr>)" for q using assms(1) by (simp add: fa_inv_def)
  have w: "m_has_wildcard a \<Longrightarrow> wild_only (new_override tn path a None c)" for c
    by (simp add: wild_only_def new_override_def)
  have f: "fa_inv tn (s\<lparr>fa_wild := fa_wild s @ [x]\<rparr>)" if "fa_inv tn s" "wild_only x" for s x
    using that by (auto simp: fa_inv_def)
  show ?thesis
    using assms l w f inv_fold_inst [OF l, of mt a]
    by (auto simp: set_inst_override_by_name_def Let_def is_type_name_registered_def inv_inst_override_of split: option.splits)
qed

lemma inv_adopt_wild: "fa_inv tn st \<Longrightarrow> fa_inv tn (adopt_wild mt s st)"
  by (auto simp: adopt_wild_def fa_inv_def known_wild split: option.splits)

lemma search_bound_enough: "card (origs st) + card (origs st) < search_bound st"
  using card_origs [of st] by (simp add: search_bound_def)

lemma origs_info [simp]: "origs (st\<lparr>fa_info := xs\<rparr>) = origs st"
  by (simp add: origs_def)

lemma create_by_type_some:
  assumes "proper_names tn" "fa_inv tn st"
  shows "\<exists>r st' ms. create_by_type (search_bound st) tn mt t parent name st = Some (r, st', ms) \<and> fa_inv tn st'"
proof -
  have "card (origs st - seen (st\<lparr>fa_info := []\<rparr>)) \<le> card (origs st)" by (rule card_mono) auto
  with find_some [OF assms(1), of "st\<lparr>fa_info := []\<rparr>" "search_bound st" mt t "join_path parent name"]
    assms(2) search_bound_enough [of st]
  show ?thesis by (simp add: create_by_type_def)
qed

lemma origs_adopt_wild: "fa_inv tn st \<Longrightarrow> origs (adopt_wild mt s st) \<subseteq> origs st"
  by (auto simp: adopt_wild_def origs_def fa_inv_def wild_only_def split: option.splits if_splits)

lemma create_by_name_some:
  assumes "proper_names tn" "fa_inv tn st"
  shows "\<exists>r st' ms. create_by_name (search_bound st) tn mt s parent name st = Some (r, st', ms) \<and> fa_inv tn st'"
proof -
  let ?st = "st\<lparr>fa_info := []\<rparr>" and ?p = "join_path parent name" and ?n = "search_bound st"
  have i: "fa_inv tn ?st" using assms(2) by simp
  have follow: "\<exists>r st' ms. find_override_by_type ?n tn mt t ?p u = Some (r, st', ms) \<and> fa_inv tn st'"
    if "fa_inv tn u" "origs u \<subseteq> origs st" for t u
  proof -
    have "card (origs u) \<le> card (origs st)" using that(2) by (intro card_mono) auto
    moreover have "card (origs u - seen u) \<le> card (origs u)" by (rule card_mono) auto
    ultimately show ?thesis
      using find_some [OF assms(1) that(1), of ?n mt t ?p] search_bound_enough [of st] by simp
  qed
  have "\<exists>r st' ms. find_override_by_name ?n tn mt s ?p ?st = Some (r, st', ms) \<and> fa_inv tn st'"
  proof (cases "named_inst mt ?st s ?p")
    case (Cons x xs)
    with follow [of "record_info [x] ?st" "ov_type x"] i show ?thesis
      by (auto simp: find_override_by_name_def Let_def)
  next
    case Nil
    let ?a = "adopt_wild mt s ?st"
    have a: "fa_inv tn ?a" "origs ?a \<subseteq> origs st"
      using inv_adopt_wild [OF i] origs_adopt_wild [OF i] by simp_all
    show ?thesis
    proof (cases "filter (\<lambda>x. ov_orig_name x = s) (fa_type_overrides ?a)")
      case (Cons y ys)
      with Nil follow [of "record_info [y] ?a" "ov_type y"] a show ?thesis
        by (auto simp: find_override_by_name_def Let_def)
    qed (use Nil a in \<open>simp add: find_override_by_name_def Let_def\<close>)
  qed
  then show ?thesis by (fastforce simp: create_by_name_def split: option.splits)
qed

lemma factory_step_inv:
  assumes "proper_names tn" "fa_inv tn st" "factory_op_ok e st"
  shows "fa_inv tn (factory_step tn mt e st)"
proof (cases e)
  case (CreateByType t parent name)
  with create_by_type_some [OF assms(1,2), of mt t parent name] show ?thesis by auto
next
  case (CreateByName s parent name)
  with create_by_name_some [OF assms(1,2), of mt s parent name] show ?thesis by auto
qed (use assms in \<open>simp_all add: inv_register_type inv_type_by_type inv_type_by_name inv_inst_by_type inv_inst_by_name\<close>)

interpretation factory_machine: guarded_machine "factory_step tn mt" factory_op_ok "\<lambda>st. proper_names tn \<and> fa_inv tn st"
  by unfold_locales (simp add: factory_step_inv)

text \<open>C19. A request for a type is answered. Let type names be unique and without wildcards, and let
  overrides by name be for registered types or wildcards. In every state that registrations,
  overrides and requests reach, the search for the type to create ends, within a number of steps that the number
  of overrides bounds. It follows, from the requested type, the first relevant override of each type
  to a type that nothing overrides; or, exactly when it reports a loop, to a type on a cycle of overrides.
  The condition on overrides by name is needed: without it a state is reachable whose search does not end
  (the last section of this theory).\<close>

theorem factory_resolves:
  assumes "proper_names tn"
    and "\<forall>k < length es. factory_op_ok (es ! k) (fold (factory_step tn mt) (take k es) new_factory)"
    and "st = fold (factory_step tn mt) es new_factory"
  shows "\<exists>r st' ms. create_by_type (search_bound st) tn mt t parent name st = Some (r, st', ms)
    \<and> (t, r) \<in> (override_rel tn mt st (join_path parent name))\<^sup>*
    \<and> (if ms = [] then override_step tn mt st (join_path parent name) r = None
       else (r, r) \<in> (override_rel tn mt st (join_path parent name))\<^sup>+)"
proof -
  have "fa_inv tn new_factory" by (simp add: fa_inv_def new_factory_def)
  then have inv: "fa_inv tn st"
    using factory_machine.run_inv_nth [of tn new_factory es mt] assms by simp
  from create_by_type_some [OF assms(1) this] obtain r st' ms where
    c: "create_by_type (search_bound st) tn mt t parent name st = Some (r, st', ms)" by blast
  let ?st = "st\<lparr>fa_info := []\<rparr>" and ?p = "join_path parent name"
  have e: "override_step tn mt ?st = override_step tn mt st"
    by (simp add: override_step_def relevant_def fun_eq_iff)
  have "(t, r) \<in> (override_rel tn mt ?st ?p)\<^sup>* \<and>
    (if ms = [] then override_step tn mt ?st ?p r = None else (r, r) \<in> (override_rel tn mt ?st ?p)\<^sup>+)"
    using c inv by (intro find_spec [OF assms(1), of _ mt t ?p ?st r st' ms])
      (simp_all add: create_by_type_def loops_def)
  with c show ?thesis unfolding override_rel_def e by blast
qed

definition sample_names :: "nat \<Rightarrow> string" where
  "sample_names t = ''t'' @ replicate t CHR ''x''"

lemma sample_names_proper: "proper_names sample_names"
  by (auto simp: proper_names_def sample_names_def inj_def m_has_wildcard_def dest: arg_cong [of _ _ length])

text \<open>Type 1 replaces type 0 everywhere; type 2 replaces type 1 below \<open>top\<close>.\<close>

definition sample_factory_run :: "factory_op list" where
  "sample_factory_run = [Register 0, Register 1, Register 2, TypeByName ''t'' ''tx'' True, InstByType 1 2 ''top.a'']"

theorem factory_resolves_witness:
  "let st = fold (factory_step sample_names (=)) sample_factory_run new_factory
   in override_step sample_names (=) st ''top.a'' 0 = Some 1
      \<and> (\<exists>r st' ms. create_by_type (search_bound st) sample_names (=) 0 ''top'' ''a'' st = Some (r, st', ms)
           \<and> (0, r) \<in> (override_rel sample_names (=) st ''top.a'')\<^sup>*)"
proof -
  let ?st = "fold (factory_step sample_names (=)) sample_factory_run new_factory"
  have ok: "\<forall>k < length sample_factory_run.
      factory_op_ok (sample_factory_run ! k) (fold (factory_step sample_names (=)) (take k sample_factory_run) new_factory)"
    unfolding sample_factory_run_def by (simp add: All_less_Suc) code_simp
  have "join_path ''top'' ''a'' = ''top.a''" by (simp add: join_path_def)
  with factory_resolves [OF sample_names_proper ok refl, of 0 "''top''" "''a''"]
  have "\<exists>r st' ms. create_by_type (search_bound ?st) sample_names (=) 0 ''top'' ''a'' ?st = Some (r, st', ms)
           \<and> (0, r) \<in> (override_rel sample_names (=) ?st ''top.a'')\<^sup>*" by auto
  moreover have "override_step sample_names (=) ?st ''top.a'' 0 = Some 1" by code_simp
  ultimately show ?thesis by (simp only: Let_def simp_thms)
qed

section \<open>Where the search does not end\<close>

lemma find_unbounded:
  assumes "\<And>t. t \<in> S \<Longrightarrow> \<exists>x xs. relevant tn mt st path t = x # xs \<and> ov_orig x = None \<and> ov_type x \<in> S \<and> ov_type x \<noteq> t"
  shows "t \<in> S \<Longrightarrow> \<forall>x \<in> set is. ov_orig x = None \<Longrightarrow> find_override_by_type n tn mt t path (st\<lparr>fa_info := is\<rparr>) = None"
proof (induction n arbitrary: t "is")
  case (Suc n)
  obtain x xs where x: "relevant tn mt st path t = x # xs" "ov_orig x = None" "ov_type x \<in> S" "ov_type x \<noteq> t"
    using assms [OF Suc.prems(1)] by blast
  have "\<not> loops (st\<lparr>fa_info := is\<rparr>) t" using Suc.prems(2) by (auto simp: loops_def)
  moreover have "relevant tn mt (st\<lparr>fa_info := is\<rparr>) path t = relevant tn mt st path t" by (simp add: relevant_def)
  moreover have "record_info [x] (st\<lparr>fa_info := is\<rparr>) = st\<lparr>fa_info := is @ [x]\<rparr>" by (simp add: record_info_def)
  moreover have "find_override_by_type n tn mt (ov_type x) path (st\<lparr>fa_info := is @ [x]\<rparr>) = None"
    using Suc.IH [of "ov_type x" "is @ [x]"] x Suc.prems(2) by simp
  ultimately show ?case using x by (simp add: Let_def)
qed simp

text \<open>The detection of override loops misses loops of overrides that were set by name before their
  original types were registered. After the two types are registered, replacing the overrides
  by name makes them point at each other, but they still name no type: a request for either type recurses without
  end, for every instance path and whatever matches instance paths.\<close>

theorem override_loop_missed:
  assumes "named (tn a)" "named (tn c)" "named (tn d)" "tn a \<noteq> tn c" "tn a \<noteq> tn d" "tn c \<noteq> tn d"
    and "st = fold (factory_step tn mt) [Register d, TypeByName (tn a) (tn d) True, TypeByName (tn c) (tn d) True,
      Register a, Register c, TypeByName (tn a) (tn c) True, TypeByName (tn c) (tn a) True] new_factory"
  shows "create_by_type n tn mt a parent name st = None"
proof -
  have ne: "a \<noteq> c" "a \<noteq> d" "c \<noteq> d" using assms(4-6) by auto
  have t: "fa_type_overrides st =
      [\<lparr>ov_path = ''*'', ov_orig_name = tn a, ov_orig = None, ov_type_name = tn c, ov_type = c\<rparr>,
       \<lparr>ov_path = ''*'', ov_orig_name = tn c, ov_orig = None, ov_type_name = tn a, ov_type = a\<rparr>]"
    and i: "fa_inst st = []"
    using assms(1-6) ne not_sym [OF assms(4)] not_sym [OF assms(5)] not_sym [OF assms(6)]
    by (simp_all add: assms(7) do_register_def register_name_def adopt_overrides_def set_type_override_by_name_def
        new_factory_def new_override_def Let_def)
  have "\<exists>x xs. relevant tn mt st path t = x # xs \<and> ov_orig x = None \<and> ov_type x \<in> {a, c} \<and> ov_type x \<noteq> t"
    if "t \<in> {a, c}" for t path
    using that assms(1,2,4) ne by (auto simp: relevant_def t i is_for_def)
  then show ?thesis
    using find_unbounded [of "{a, c}" tn mt st "join_path parent name" a "[]" n] by (simp add: create_by_type_def)
qed

theorem override_loop_missed_witness:
  "create_by_type 100 sample_names (=) 1 ''top'' ''a''
     (fold (factory_step sample_names (=)) [Register 0, TypeByName ''tx'' ''t'' True, TypeByName ''txx'' ''t'' True,
      Register 1, Register 2, TypeByName ''tx'' ''txx'' True, TypeByName ''txx'' ''tx'' True] new_factory) = None"
proof -
  have n: "sample_names 0 = ''t''" "sample_names 1 = ''tx''" "sample_names 2 = ''txx''"
    by (simp_all add: sample_names_def numeral_2_eq_2)
  show ?thesis
    using override_loop_missed [of sample_names 1 2 0 _ "(=)" 100 "''top''" "''a''"] unfolding n
    by (simp add: named_def)
qed

end
