(* ===== verification/Resource_Pool.thy ===== *)
theory Resource_Pool
  imports Glob "HOL-Library.AList" "HOL-Library.Multiset" "HOL-Library.Char_ord" "HOL-Library.List_Lexorder"
begin

text \<open>
  \<open>src/uvmsc/conf/\<close>: resources, the resource pool (\<open>uvm_resource_pool.cpp\<close>), resources of a type
  (\<open>uvm_resource.h\<close>) and the databases over the pool (\<open>uvm_resource_db.h\<close>, \<open>uvm_config_db.h\<close>).
  A resource is a number that points into a store; \<open>rs_type\<close> is its type handle. Values of all types are
  of one type \<open>'v\<close>; a dynamic cast succeeds for the own type. \<open>mt glob s\<close> stands for \<open>uvm_is_match\<close>,
  modelled in \<open>Glob\<close>; a scope is kept as the glob it is made of. Times, printing, tracing and the
  waiters of \<open>wait_modified\<close> are left out.
\<close>

section \<open>State\<close>

record 'v rsrc =
  rs_name :: string
  rs_scope :: string
  rs_type :: nat
  rs_prec :: uint
  rs_regex :: bool
  rs_read_only :: bool
  rs_access :: "(string \<times> (uint \<times> uint)) list"
  rs_val :: 'v

text \<open>\<open>po_rsc\<close> is \<open>m_rsc\<close> of all instances of \<open>uvm_config_db\<close>: by type and context, a pool by name.\<close>

record 'v pool =
  po_rsrc :: "nat \<Rightarrow> 'v rsrc"
  po_next :: nat
  po_rtab :: "(string \<times> nat list) list"
  po_ttab :: "(nat \<times> nat list) list"
  po_wild :: bool
  po_records :: "(string \<times> string \<times> nat option) list"
  po_auditing :: bool
  po_rsc :: "((nat \<times> string) \<times> (string \<times> nat) list) list"

definition new_pool :: "'v \<Rightarrow> 'v pool" where
  "new_pool v = \<lparr>po_rsrc = (\<lambda>_. \<lparr>rs_name = [], rs_scope = [], rs_type = 0, rs_prec = 0, rs_regex = False,
     rs_read_only = False, rs_access = [], rs_val = v\<rparr>), po_next = 0, po_rtab = [], po_ttab = [],
     po_wild = False, po_records = [], po_auditing = True, po_rsc = []\<rparr>"

definition default_precedence :: uint where
  "default_precedence = 1000"

text \<open>\<open>operator[]\<close> of a map by name: the entries are in the order of the names.\<close>

primrec put_name :: "string \<Rightarrow> 'b \<Rightarrow> (string \<times> 'b) list \<Rightarrow> (string \<times> 'b) list" where
  "put_name k v [] = [(k, v)]"
| "put_name k v (x # xs) =
     (if fst x = k then (k, v) # xs else if k < fst x then (k, v) # x # xs else x # put_name k v xs)"

definition entry_of :: "('k \<times> 'b list) list \<Rightarrow> 'k \<Rightarrow> 'b list" where
  "entry_of t k = (case map_of t k of None \<Rightarrow> [] | Some q \<Rightarrow> q)"

section \<open>Resources\<close>

text \<open>The constructor: a new resource with an undefined value \<open>v\<close>.\<close>

definition new_rsrc :: "string \<Rightarrow> string \<Rightarrow> nat \<Rightarrow> 'v \<Rightarrow> 'v pool \<Rightarrow> nat \<times> 'v pool" where
  "new_rsrc name scope ty v st =
     (po_next st,
      st\<lparr>po_next := po_next st + 1,
         po_rsrc := (po_rsrc st)(po_next st := \<lparr>rs_name = name, rs_scope = scope, rs_type = ty,
           rs_prec = default_precedence, rs_regex = uvm_has_wildcard name, rs_read_only = False,
           rs_access = [], rs_val = v\<rparr>)\<rparr>)"

definition upd_rsrc :: "nat \<Rightarrow> ('v rsrc \<Rightarrow> 'v rsrc) \<Rightarrow> 'v pool \<Rightarrow> 'v pool" where
  "upd_rsrc r f st = st\<lparr>po_rsrc := (po_rsrc st)(r := f (po_rsrc st r))\<rparr>"

definition match_scope :: "(string \<Rightarrow> string \<Rightarrow> bool) \<Rightarrow> string \<Rightarrow> 'v rsrc \<Rightarrow> bool" where
  "match_scope mt s r = mt (rs_scope r) s"

definition access_of :: "'v rsrc \<Rightarrow> string \<Rightarrow> uint \<times> uint" where
  "access_of r who = (case map_of (rs_access r) who of None \<Rightarrow> (0, 0) | Some a \<Rightarrow> a)"

definition record_read_access :: "nat \<Rightarrow> string option \<Rightarrow> 'v pool \<Rightarrow> 'v pool" where
  "record_read_access r accessor st =
     (case accessor of
        None \<Rightarrow> st
      | Some who \<Rightarrow>
          if po_auditing st then
            upd_rsrc r (\<lambda>x. x\<lparr>rs_access := put_name who (case access_of x who of (rd, wr) \<Rightarrow> (rd + 1, wr)) (rs_access x)\<rparr>) st
          else st)"

definition record_write_access :: "nat \<Rightarrow> string option \<Rightarrow> 'v pool \<Rightarrow> 'v pool" where
  "record_write_access r accessor st =
     (case accessor of
        None \<Rightarrow> st
      | Some who \<Rightarrow>
          if po_auditing st then
            upd_rsrc r (\<lambda>x. x\<lparr>rs_access := put_name who (case access_of x who of (rd, wr) \<Rightarrow> (rd, wr + 1)) (rs_access x)\<rparr>) st
          else st)"

definition rsrc_read :: "nat \<Rightarrow> string option \<Rightarrow> 'v pool \<Rightarrow> 'v \<times> 'v pool" where
  "rsrc_read r accessor st = (let st = record_read_access r accessor st in (rs_val (po_rsrc st r), st))"

definition rsrc_write :: "nat \<Rightarrow> 'v \<Rightarrow> string option \<Rightarrow> 'v pool \<Rightarrow> 'v pool \<times> msg list" where
  "rsrc_write r v accessor st =
     (if rs_read_only (po_rsrc st r) then (st, [(UVM_ERROR, ''resource'')])
      else (upd_rsrc r (\<lambda>x. x\<lparr>rs_val := v\<rparr>) (record_write_access r accessor st), []))"

definition set_read_only :: "nat \<Rightarrow> 'v pool \<Rightarrow> 'v pool" where
  "set_read_only r st = upd_rsrc r (\<lambda>x. x\<lparr>rs_read_only := True\<rparr>) st"

section \<open>The pool\<close>

text \<open>\<open>set\<close>: the two bits of \<open>override\<close> are \<open>tov\<close> and \<open>nov\<close>.\<close>

definition pool_set :: "nat \<Rightarrow> bool \<Rightarrow> bool \<Rightarrow> 'v pool \<Rightarrow> 'v pool" where
  "pool_set r tov nov st =
     (let x = po_rsrc st r; name = rs_name x; ty = rs_type x;
          st = (if name = [] then st
                else st\<lparr>po_rtab := put_name name
                          (if nov then r # entry_of (po_rtab st) name else entry_of (po_rtab st) name @ [r]) (po_rtab st)\<rparr>);
          st = st\<lparr>po_ttab := AList.update ty
                    (if tov then r # entry_of (po_ttab st) ty else entry_of (po_ttab st) ty @ [r]) (po_ttab st)\<rparr>
      in st\<lparr>po_wild := (po_wild st \<or> rs_regex x)\<rparr>)"

definition push_get_record :: "string \<Rightarrow> string \<Rightarrow> nat option \<Rightarrow> 'v pool \<Rightarrow> 'v pool" where
  "push_get_record name scope r st =
     (if po_auditing st then st\<lparr>po_records := po_records st @ [(name, scope, r)]\<rparr> else st)"

definition spell_check :: "string \<Rightarrow> bool" where
  "spell_check s = False"

definition right_type :: "nat option \<Rightarrow> 'v rsrc \<Rightarrow> bool" where
  "right_type ty r \<longleftrightarrow> (case ty of None \<Rightarrow> True | Some t \<Rightarrow> rs_type r = t)"

definition lookup_name ::
  "(string \<Rightarrow> string \<Rightarrow> bool) \<Rightarrow> string \<Rightarrow> string \<Rightarrow> nat option \<Rightarrow> bool \<Rightarrow> 'v pool \<Rightarrow> nat list" where
  "lookup_name mt scope name ty rpterr st =
     (if name = [] then []
      else if (rpterr \<and> \<not> spell_check name) \<or> (\<not> rpterr \<and> map_of (po_rtab st) name = None) then []
      else filter (\<lambda>r. match_scope mt scope (po_rsrc st r) \<and> right_type ty (po_rsrc st r)) (entry_of (po_rtab st) name))"

text \<open>The first resource of the highest precedence.\<close>

primrec first_highest :: "'v pool \<Rightarrow> nat \<Rightarrow> uint \<Rightarrow> nat list \<Rightarrow> nat" where
  "first_highest st rsrc prec [] = rsrc"
| "first_highest st rsrc prec (r # rs) =
     (if rs_prec (po_rsrc st r) > prec then first_highest st r (rs_prec (po_rsrc st r)) rs
      else first_highest st rsrc prec rs)"

definition get_highest_precedence :: "'v pool \<Rightarrow> nat list \<Rightarrow> nat option" where
  "get_highest_precedence st q =
     (case q of [] \<Rightarrow> None | r # rs \<Rightarrow> Some (first_highest st r (rs_prec (po_rsrc st r)) rs))"

text \<open>
  \<open>sort_by_precedence\<close>: a queue for each precedence, in the order of the precedences as \<open>int\<close>,
  filled from its front; then the queues, the lowest first, go to the front of the result.
\<close>

primrec put_int :: "int \<Rightarrow> nat \<Rightarrow> (int \<times> nat list) list \<Rightarrow> (int \<times> nat list) list" where
  "put_int k r [] = [(k, [r])]"
| "put_int k r (x # xs) =
     (if fst x = k then (k, r # snd x) # xs else if k < fst x then (k, [r]) # x # xs else x # put_int k r xs)"

definition sort_by_precedence :: "'v pool \<Rightarrow> nat list \<Rightarrow> nat list" where
  "sort_by_precedence st q =
     (let qs = fold (\<lambda>r qs. put_int (sint (rs_prec (po_rsrc st r))) r qs) q []
      in fold (\<lambda>r out. r # out) (concat (map snd qs)) [])"

definition pool_get_by_name ::
  "(string \<Rightarrow> string \<Rightarrow> bool) \<Rightarrow> string \<Rightarrow> string \<Rightarrow> nat option \<Rightarrow> bool \<Rightarrow> 'v pool \<Rightarrow> nat option \<times> 'v pool" where
  "pool_get_by_name mt scope name ty rpterr st =
     (let r = get_highest_precedence st (lookup_name mt scope name ty rpterr st)
      in (r, push_get_record name scope r st))"

definition lookup_type :: "(string \<Rightarrow> string \<Rightarrow> bool) \<Rightarrow> string \<Rightarrow> nat \<Rightarrow> 'v pool \<Rightarrow> nat list" where
  "lookup_type mt scope ty st = filter (\<lambda>r. match_scope mt scope (po_rsrc st r)) (entry_of (po_ttab st) ty)"

text \<open>By type, precedences do not count: the first one is taken.\<close>

definition pool_get_by_type :: "(string \<Rightarrow> string \<Rightarrow> bool) \<Rightarrow> string \<Rightarrow> nat \<Rightarrow> 'v pool \<Rightarrow> nat option \<times> 'v pool" where
  "pool_get_by_type mt scope ty st =
     (case lookup_type mt scope ty st of
        [] \<Rightarrow> (None, push_get_record ''<type>'' scope None st)
      | r # _ \<Rightarrow> (Some r, push_get_record ''<type>'' scope (Some r) st))"

definition lookup_regex_names ::
  "(string \<Rightarrow> string \<Rightarrow> bool) \<Rightarrow> string \<Rightarrow> string \<Rightarrow> nat option \<Rightarrow> 'v pool \<Rightarrow> nat list" where
  "lookup_regex_names mt scope name ty st =
     (if \<not> po_wild st then lookup_name mt scope name ty False st
      else concat (map (\<lambda>(re, q). filter (\<lambda>r. mt re name \<and> match_scope mt scope (po_rsrc st r) \<and> right_type ty (po_rsrc st r)) q)
             (po_rtab st)))"

definition lookup_regex :: "(string \<Rightarrow> string \<Rightarrow> bool) \<Rightarrow> string \<Rightarrow> string \<Rightarrow> 'v pool \<Rightarrow> nat list" where
  "lookup_regex mt re scope st =
     concat (map (\<lambda>(name, q). if mt re name then filter (\<lambda>r. match_scope mt scope (po_rsrc st r)) q else []) (po_rtab st))"

definition lookup_scope :: "(string \<Rightarrow> string \<Rightarrow> bool) \<Rightarrow> string \<Rightarrow> 'v pool \<Rightarrow> nat list" where
  "lookup_scope mt scope st =
     concat (map (\<lambda>(_, q). filter (\<lambda>r. match_scope mt scope (po_rsrc st r)) q) (rev (po_rtab st)))"

definition find_unused_resources :: "'v pool \<Rightarrow> nat list" where
  "find_unused_resources st =
     concat (map (\<lambda>(_, q). filter (\<lambda>r.
        let acc = map snd (rs_access (po_rsrc st r));
            reads = fold (\<lambda>a n. n + fst a) acc 0; writes = fold (\<lambda>a n. n + snd a) acc 0
        in 0 <s writes \<and> reads = 0) q) (po_rtab st))"

section \<open>Priorities\<close>

datatype priority_e = PRI_HIGH | PRI_LOW

definition set_priority_queue :: "nat \<Rightarrow> priority_e \<Rightarrow> nat list \<Rightarrow> nat list \<times> msg list" where
  "set_priority_queue r pri q =
     (if r \<in> set q then ((case pri of PRI_HIGH \<Rightarrow> r # remove1 r q | PRI_LOW \<Rightarrow> remove1 r q @ [r]), [])
      else (q, [(UVM_ERROR, ''NORSRC'')]))"

definition set_priority_type :: "nat \<Rightarrow> priority_e \<Rightarrow> 'v pool \<Rightarrow> 'v pool \<times> msg list" where
  "set_priority_type r pri st =
     (let ty = rs_type (po_rsrc st r)
      in case map_of (po_ttab st) ty of
           None \<Rightarrow> (st, [(UVM_ERROR, ''RNFTYPE'')])
         | Some q \<Rightarrow> (let (q, ms) = set_priority_queue r pri q in (st\<lparr>po_ttab := AList.update ty q (po_ttab st)\<rparr>, ms)))"

definition set_priority_name :: "nat \<Rightarrow> priority_e \<Rightarrow> 'v pool \<Rightarrow> 'v pool \<times> msg list" where
  "set_priority_name r pri st =
     (let name = rs_name (po_rsrc st r)
      in case map_of (po_rtab st) name of
           None \<Rightarrow> (st, [(UVM_ERROR, ''RNFNAME'')])
         | Some q \<Rightarrow> (let (q, ms) = set_priority_queue r pri q in (st\<lparr>po_rtab := put_name name q (po_rtab st)\<rparr>, ms)))"

definition set_priority :: "nat \<Rightarrow> priority_e \<Rightarrow> 'v pool \<Rightarrow> 'v pool \<times> msg list" where
  "set_priority r pri st =
     (let (st, ms) = set_priority_type r pri st; (st, ms') = set_priority_name r pri st in (st, ms @ ms'))"

section \<open>The resource database\<close>

text \<open>
  \<open>uvm_resource_db<T>\<close> and the lookups of \<open>uvm_resource<T>\<close>; the type handle \<open>ty\<close> stands for
  \<open>T\<close>. Where the code does not pass \<open>rpterr\<close>, its default is true.
\<close>

definition typed_get_by_name ::
  "(string \<Rightarrow> string \<Rightarrow> bool) \<Rightarrow> nat \<Rightarrow> string \<Rightarrow> string \<Rightarrow> bool \<Rightarrow> 'v pool \<Rightarrow> nat option \<times> 'v pool \<times> msg list" where
  "typed_get_by_name mt ty scope name rpterr st =
     (case pool_get_by_name mt scope name (Some ty) rpterr st of
        (None, st) \<Rightarrow> (None, st, [])
      | (Some r, st) \<Rightarrow>
          if rs_type (po_rsrc st r) = ty then (Some r, st, [])
          else (None, st, if rpterr then [(UVM_WARNING, ''RSRCTYPE'')] else []))"

definition typed_get_by_type ::
  "(string \<Rightarrow> string \<Rightarrow> bool) \<Rightarrow> nat \<Rightarrow> string \<Rightarrow> 'v pool \<Rightarrow> nat option \<times> 'v pool \<times> msg list" where
  "typed_get_by_type mt ty scope st =
     (case pool_get_by_type mt scope ty st of
        (None, st) \<Rightarrow> (None, st, [])
      | (Some r, st) \<Rightarrow>
          if rs_type (po_rsrc st r) = ty then (Some r, st, []) else (None, st, [(UVM_WARNING, ''RSRCNF'')]))"

definition db_set :: "nat \<Rightarrow> string \<Rightarrow> string \<Rightarrow> 'v \<Rightarrow> string option \<Rightarrow> bool \<Rightarrow> bool \<Rightarrow> 'v pool \<Rightarrow> 'v pool \<times> msg list" where
  "db_set ty scope name v accessor tov nov st =
     (let (r, st) = new_rsrc name scope ty v st; (st, ms) = rsrc_write r v accessor st
      in (pool_set r tov nov st, ms))"

definition db_set_default :: "nat \<Rightarrow> string \<Rightarrow> string \<Rightarrow> 'v \<Rightarrow> 'v pool \<Rightarrow> nat \<times> 'v pool" where
  "db_set_default ty scope name v st = (let (r, st) = new_rsrc name scope ty v st in (r, pool_set r False False st))"

definition db_read_by_name ::
  "(string \<Rightarrow> string \<Rightarrow> bool) \<Rightarrow> nat \<Rightarrow> string \<Rightarrow> string \<Rightarrow> string option \<Rightarrow> 'v pool \<Rightarrow> 'v option \<times> 'v pool \<times> msg list" where
  "db_read_by_name mt ty scope name accessor st =
     (case typed_get_by_name mt ty scope name True st of
        (None, st, ms) \<Rightarrow> (None, st, ms)
      | (Some r, st, ms) \<Rightarrow> (let (v, st) = rsrc_read r accessor st in (Some v, st, ms)))"

definition db_read_by_type ::
  "(string \<Rightarrow> string \<Rightarrow> bool) \<Rightarrow> nat \<Rightarrow> string \<Rightarrow> string option \<Rightarrow> 'v pool \<Rightarrow> 'v option \<times> 'v pool \<times> msg list" where
  "db_read_by_type mt ty scope accessor st =
     (case typed_get_by_type mt ty scope st of
        (None, st, ms) \<Rightarrow> (None, st, ms)
      | (Some r, st, ms) \<Rightarrow> (let (v, st) = rsrc_read r accessor st in (Some v, st, ms)))"

definition db_write_by_name ::
  "(string \<Rightarrow> string \<Rightarrow> bool) \<Rightarrow> nat \<Rightarrow> string \<Rightarrow> string \<Rightarrow> 'v \<Rightarrow> string option \<Rightarrow> 'v pool \<Rightarrow> bool \<times> 'v pool \<times> msg list" where
  "db_write_by_name mt ty scope name v accessor st =
     (case typed_get_by_name mt ty scope name True st of
        (None, st, ms) \<Rightarrow> (False, st, ms)
      | (Some r, st, ms) \<Rightarrow> (let (st, ms') = rsrc_write r v accessor st in (True, st, ms @ ms')))"

definition db_write_by_type ::
  "(string \<Rightarrow> string \<Rightarrow> bool) \<Rightarrow> nat \<Rightarrow> string \<Rightarrow> 'v \<Rightarrow> string option \<Rightarrow> 'v pool \<Rightarrow> bool \<times> 'v pool \<times> msg list" where
  "db_write_by_type mt ty scope v accessor st =
     (case typed_get_by_type mt ty scope st of
        (None, st, ms) \<Rightarrow> (False, st, ms)
      | (Some r, st, ms) \<Rightarrow> (let (st, ms') = rsrc_write r v accessor st in (True, st, ms @ ms')))"

section \<open>The configuration database\<close>

text \<open>
  A context is the root or a component with its full name. The depth counts the dots of the
  name, also for the root, whose name is not empty.
\<close>

record cfg_context =
  cx_top :: bool
  cx_name :: string

definition get_depth :: "string \<Rightarrow> nat" where
  "get_depth nm = (if nm = [] then 0 else length (filter (\<lambda>c. c = CHR ''.'') nm) + 1)"

definition config_scope :: "cfg_context \<Rightarrow> string \<Rightarrow> string" where
  "config_scope cx inst =
     (if inst = [] then cx_name cx
      else if cx_name cx \<noteq> [] \<and> \<not> cx_top cx then cx_name cx @ ''.'' @ inst
      else inst)"

definition m_get_resource_match :: "nat \<Rightarrow> cfg_context \<Rightarrow> string \<Rightarrow> string \<Rightarrow> 'v pool \<Rightarrow> nat option" where
  "m_get_resource_match ty cx field inst st =
     (case map_of (po_rsc st) (ty, cx_name cx) of None \<Rightarrow> None | Some p \<Rightarrow> map_of p (inst @ field))"

text \<open>
  \<open>set\<close>: the code enters an empty pool for the context and then adds the new resource to its own copy
  of that pool. \<open>build\<close> tells that the current phase is the build phase.
\<close>

definition config_set ::
  "nat \<Rightarrow> cfg_context \<Rightarrow> string \<Rightarrow> string \<Rightarrow> 'v \<Rightarrow> bool \<Rightarrow> 'v pool \<Rightarrow> 'v pool \<times> msg list" where
  "config_set ty cx inst field v build st =
     (let loc = config_scope cx inst;
          found = m_get_resource_match ty cx field loc st;
          (r, st) = (case found of
             None \<Rightarrow> new_rsrc field loc ty v (st\<lparr>po_rsc := AList.update (ty, cx_name cx) [] (po_rsc st)\<rparr>)
           | Some r \<Rightarrow> (r, st));
          prec = (if build then default_precedence - of_nat (get_depth (cx_name cx)) else default_precedence);
          st = upd_rsrc r (\<lambda>x. x\<lparr>rs_prec := prec\<rparr>) st;
          (st, ms) = rsrc_write r v (Some (cx_name cx)) st
      in if found \<noteq> None then (let (st, ms') = set_priority_name r PRI_HIGH st in (st, ms @ ms'))
         else (pool_set r True True st, ms))"

text \<open>The first resource of the own type of the highest precedence (\<open>uvm_resource<T>\<close>).\<close>

definition typed_highest :: "'v pool \<Rightarrow> nat \<Rightarrow> nat list \<Rightarrow> nat option" where
  "typed_highest st ty q = get_highest_precedence st (filter (\<lambda>r. rs_type (po_rsrc st r) = ty) q)"

definition config_get ::
  "(string \<Rightarrow> string \<Rightarrow> bool) \<Rightarrow> nat \<Rightarrow> cfg_context \<Rightarrow> string \<Rightarrow> string \<Rightarrow> 'v pool \<Rightarrow> 'v option \<times> 'v pool" where
  "config_get mt ty cx inst field st =
     (case typed_highest st ty (lookup_regex_names mt (config_scope cx inst) field (Some ty) st) of
        None \<Rightarrow> (None, st)
      | Some r \<Rightarrow> (let (v, st) = rsrc_read r (Some (cx_name cx)) st in (Some v, st)))"

text \<open>\<open>exists\<close> does not treat the root apart.\<close>

definition config_exists ::
  "(string \<Rightarrow> string \<Rightarrow> bool) \<Rightarrow> nat \<Rightarrow> cfg_context \<Rightarrow> string \<Rightarrow> string \<Rightarrow> bool \<Rightarrow> 'v pool \<Rightarrow> bool \<times> 'v pool" where
  "config_exists mt ty cx inst field spell_chk st =
     (let loc = (if inst = [] then cx_name cx else if cx_name cx \<noteq> [] then cx_name cx @ ''.'' @ inst else inst);
          (r, st, _) = typed_get_by_name mt ty loc field spell_chk st
      in (r \<noteq> None, st))"

section \<open>Lookups\<close>

lemma map_of_put_name [simp]: "map_of (put_name k v xs) = (map_of xs)(k \<mapsto> v)"
  by (induction xs) (auto simp: fun_eq_iff)

lemma entry_of_put_name [simp]: "entry_of (put_name k v xs) k' = (if k' = k then v else entry_of xs k')"
  by (simp add: entry_of_def)

text \<open>Reading or writing a resource by name fails always: no state of the pool, name, scope or
  type lets \<open>read_by_name\<close> return a value or \<open>write_by_name\<close> write one.\<close>

theorem by_name_fails:
  "fst (db_read_by_name mt ty scope name accessor st) = None
   \<and> fst (db_write_by_name mt ty scope name v accessor st) = False
   \<and> po_rsrc (fst (snd (db_write_by_name mt ty scope name v accessor st))) = po_rsrc st"
proof -
  have "lookup_name mt scope name (Some ty) True st = []" by (simp add: lookup_name_def spell_check_def)
  then have "pool_get_by_name mt scope name (Some ty) True st = (None, push_get_record name scope None st)"
    by (simp add: pool_get_by_name_def get_highest_precedence_def)
  then show ?thesis
    by (simp add: db_read_by_name_def db_write_by_name_def typed_get_by_name_def push_get_record_def)
qed

section \<open>The resource of the highest precedence\<close>

lemma first_highest_max:
  "\<exists>as m bs. r # rs = as @ m # bs \<and> first_highest st r (rs_prec (po_rsrc st r)) rs = m
    \<and> (\<forall>x \<in> set as. rs_prec (po_rsrc st x) < rs_prec (po_rsrc st m))
    \<and> (\<forall>x \<in> set bs. rs_prec (po_rsrc st x) \<le> rs_prec (po_rsrc st m))"
proof (induction rs arbitrary: r)
  case Nil
  show ?case by (rule exI [of _ "[]"], rule exI [of _ r], rule exI [of _ "[]"], simp)
next
  case (Cons x xs)
  let ?p = "\<lambda>r. rs_prec (po_rsrc st r)"
  show ?case
  proof (cases "?p x > ?p r")
    case True
    from Cons.IH [of x] obtain as m bs where k: "x # xs = as @ m # bs" "first_highest st x (?p x) xs = m"
      "\<forall>x \<in> set as. ?p x < ?p m" "\<forall>x \<in> set bs. ?p x \<le> ?p m" by blast
    have "?p x \<le> ?p m" using k(1,3) by (cases as) (auto intro: less_imp_le)
    with True have "?p r < ?p m" by (rule less_le_trans)
    moreover have "first_highest st r (?p r) (x # xs) = m" using k(2) True by simp
    moreover have "r # x # xs = (r # as) @ m # bs" using k(1) by simp
    moreover have "\<forall>y \<in> set (r # as). ?p y < ?p m" using k(3) calculation(1) by simp
    ultimately show ?thesis using k(4) by blast
  next
    case False
    from Cons.IH [of r] obtain as m bs where k: "r # xs = as @ m # bs" "first_highest st r (?p r) xs = m"
      "\<forall>x \<in> set as. ?p x < ?p m" "\<forall>x \<in> set bs. ?p x \<le> ?p m" by blast
    have x: "?p x \<le> ?p r" using False by simp
    have h: "first_highest st r (?p r) (x # xs) = m" using k(2) False by simp
    show ?thesis
    proof (cases as)
      case Nil
      then have "m = r" "bs = xs" using k(1) by simp_all
      then have "r # x # xs = [] @ m # x # bs" "\<forall>y \<in> set (x # bs). ?p y \<le> ?p m" using k(4) x by simp_all
      with h show ?thesis by (metis empty_iff list.set(1))
    next
      case (Cons r' as')
      then have e: "r' = r" "xs = as' @ m # bs" "?p r < ?p m" using k(1,3) by auto
      from x e(3) have "?p x < ?p m" by (rule le_less_trans)
      with e(3) k(3) Cons have "\<forall>y \<in> set (r # x # as'). ?p y < ?p m" by simp
      moreover have "r # x # xs = (r # x # as') @ m # bs" using e(2) by simp
      ultimately show ?thesis using h k(4) by blast
    qed
  qed
qed

lemma highest_in: "get_highest_precedence st q = Some i \<Longrightarrow> i \<in> set q"
proof -
  have "first_highest st r p rs \<in> set (r # rs)" for r p rs
  proof (induction rs arbitrary: r p)
    case (Cons x xs)
    from Cons.IH [of x "rs_prec (po_rsrc st x)"] Cons.IH [of r p] show ?case by auto
  qed simp
  moreover assume "get_highest_precedence st q = Some i"
  ultimately show ?thesis by (cases q) (auto simp: get_highest_precedence_def)
qed

text \<open>Of resources in the reverse order of their numbers, it is the largest number of the highest precedence.\<close>

lemma highest_of_rev:
  assumes "sorted_wrt (>) q" "i \<in> set q"
    "\<And>j. j \<in> set q \<Longrightarrow> rs_prec (po_rsrc st j) \<le> rs_prec (po_rsrc st i)"
    "\<And>j. j \<in> set q \<Longrightarrow> i < j \<Longrightarrow> rs_prec (po_rsrc st j) < rs_prec (po_rsrc st i)"
  shows "get_highest_precedence st q = Some i"
proof -
  obtain r rs where q: "q = r # rs" using assms(2) by (cases q) auto
  obtain as m bs where l: "r # rs = as @ m # bs" "first_highest st r (rs_prec (po_rsrc st r)) rs = m"
    and k: "\<forall>x \<in> set as. rs_prec (po_rsrc st x) < rs_prec (po_rsrc st m)"
    "\<forall>x \<in> set bs. rs_prec (po_rsrc st x) \<le> rs_prec (po_rsrc st m)"
    using first_highest_max [of r rs st] by blast
  have g: "q = as @ m # bs" using l(1) q by simp
  have h: "get_highest_precedence st q = Some m" using l(2) by (simp add: q get_highest_precedence_def)
  have "i \<notin> set as" using k(1) g assms(3) [of m] by (auto simp: not_less [symmetric])
  moreover have "i \<notin> set bs"
  proof
    assume i: "i \<in> set bs"
    then have "i < m" using assms(1) g by (auto simp: sorted_wrt_append)
    with assms(4) [of m] g k(2) i show False by (auto simp: not_less [symmetric])
  qed
  ultimately show ?thesis using assms(2) g h by auto
qed

section \<open>The history of the configuration\<close>

record 'v cfg_set =
  cs_ty :: nat
  cs_ctx :: cfg_context
  cs_inst :: string
  cs_field :: string
  cs_val :: 'v
  cs_build :: bool

definition config_step :: "'v cfg_set \<Rightarrow> 'v pool \<Rightarrow> 'v pool" where
  "config_step e st = fst (config_set (cs_ty e) (cs_ctx e) (cs_inst e) (cs_field e) (cs_val e) (cs_build e) st)"

definition cs_scope :: "'v cfg_set \<Rightarrow> string" where
  "cs_scope e = config_scope (cs_ctx e) (cs_inst e)"

definition cs_prec :: "'v cfg_set \<Rightarrow> uint" where
  "cs_prec e = (if cs_build e then default_precedence - of_nat (get_depth (cx_name (cs_ctx e))) else default_precedence)"

definition holds_set :: "'v cfg_set \<Rightarrow> 'v rsrc \<Rightarrow> bool" where
  "holds_set e x \<longleftrightarrow> rs_name x = cs_field e \<and> rs_scope x = cs_scope e \<and> rs_type x = cs_ty e
     \<and> rs_prec x = cs_prec e \<and> rs_val x = cs_val e"

definition pool_of :: "'v cfg_set list \<Rightarrow> 'v pool \<Rightarrow> bool" where
  "pool_of h st \<longleftrightarrow>
     po_next st = length h \<and> (\<forall>i < length h. holds_set (h ! i) (po_rsrc st i))
     \<and> (\<forall>f. f \<noteq> [] \<longrightarrow> entry_of (po_rtab st) f = rev (filter (\<lambda>i. cs_field (h ! i) = f) [0..<length h]))
     \<and> (po_wild st \<longleftrightarrow> (\<exists>e \<in> set h. uvm_has_wildcard (cs_field e)))
     \<and> ran (map_of (po_rsc st)) \<subseteq> {[]}"

text \<open>No resource is found to be set again: each call makes a new one, in front of the others.\<close>

lemma config_set_new:
  assumes "ran (map_of (po_rsc st)) \<subseteq> {[]}"
  shows "\<exists>acc. config_step e st = pool_set (po_next st) True True
    (st\<lparr>po_rsc := AList.update (cs_ty e, cx_name (cs_ctx e)) [] (po_rsc st), po_next := po_next st + 1,
       po_rsrc := (po_rsrc st)(po_next st := \<lparr>rs_name = cs_field e, rs_scope = cs_scope e, rs_type = cs_ty e,
         rs_prec = cs_prec e, rs_regex = uvm_has_wildcard (cs_field e), rs_read_only = False,
         rs_access = acc, rs_val = cs_val e\<rparr>)\<rparr>)"
proof -
  have n: "m_get_resource_match ty cx field inst st = None" for ty cx field inst
    using assms by (fastforce simp: m_get_resource_match_def ran_def split: option.splits)
  show ?thesis
    by (rule exI [of _ "if po_auditing st then [(cx_name (cs_ctx e), (0, 1))] else []"])
      (simp add: config_step_def access_of_def config_set_def n Let_def new_rsrc_def upd_rsrc_def rsrc_write_def
        record_write_access_def cs_scope_def cs_prec_def)
qed

lemma pool_of_step:
  assumes "pool_of h st"
  shows "pool_of (h @ [e]) (config_step e st)"
proof -
  from assms have r: "ran (map_of (po_rsc st)) \<subseteq> {[]}" and n: "po_next st = length h"
    and f: "\<And>f. f \<noteq> [] \<Longrightarrow> entry_of (po_rtab st) f = rev (filter (\<lambda>i. cs_field (h ! i) = f) [0..<length h])"
    by (simp_all add: pool_of_def)
  from config_set_new [OF r, of e] obtain acc where s: "config_step e st = pool_set (po_next st) True True
    (st\<lparr>po_rsc := AList.update (cs_ty e, cx_name (cs_ctx e)) [] (po_rsc st), po_next := po_next st + 1,
       po_rsrc := (po_rsrc st)(po_next st := \<lparr>rs_name = cs_field e, rs_scope = cs_scope e, rs_type = cs_ty e,
         rs_prec = cs_prec e, rs_regex = uvm_has_wildcard (cs_field e), rs_read_only = False,
         rs_access = acc, rs_val = cs_val e\<rparr>)\<rparr>)" by blast
  have "holds_set ((h @ [e]) ! i) (po_rsrc (config_step e st) i)" if "i < length (h @ [e])" for i
    using that assms n by (cases "i = length h") (auto simp: s pool_set_def Let_def holds_set_def pool_of_def nth_append)
  moreover have "entry_of (po_rtab (config_step e st)) g = rev (filter (\<lambda>i. cs_field ((h @ [e]) ! i) = g) [0..<length (h @ [e])])"
    if "g \<noteq> []" for g
  proof -
    have "filter (\<lambda>i. cs_field ((h @ [e]) ! i) = g) [0..<length h] = filter (\<lambda>i. cs_field (h ! i) = g) [0..<length h]"
      by (intro filter_cong refl) (simp add: nth_append)
    with f [OF that] that n show ?thesis by (simp add: s pool_set_def Let_def)
  qed
  moreover have "ran (map_of (po_rsc (config_step e st))) \<subseteq> {[]}"
    using r by (auto simp: s pool_set_def Let_def update_conv' ran_def split: if_splits)
  ultimately show ?thesis using assms n by (auto simp: pool_of_def s pool_set_def Let_def)
qed

lemma pool_of_run: "pool_of h st \<Longrightarrow> pool_of (h @ es) (fold config_step es st)"
  by (induction es arbitrary: h st) (simp, metis append.assoc append_Cons append_Nil fold_simps(2) pool_of_step)

lemma pool_of_new: "pool_of [] (new_pool v)"
  by (simp add: pool_of_def new_pool_def entry_of_def)

definition cs_matches :: "(string \<Rightarrow> string \<Rightarrow> bool) \<Rightarrow> nat \<Rightarrow> string \<Rightarrow> string \<Rightarrow> 'v cfg_set \<Rightarrow> bool" where
  "cs_matches mt ty loc field e \<longleftrightarrow> cs_field e = field \<and> cs_ty e = ty \<and> mt (cs_scope e) loc"

text \<open>The resources that \<open>get\<close> chooses from are the calls that match, the latest first.\<close>

definition matching :: "(string \<Rightarrow> string \<Rightarrow> bool) \<Rightarrow> nat \<Rightarrow> string \<Rightarrow> string \<Rightarrow> 'v cfg_set list \<Rightarrow> nat list" where
  "matching mt ty loc field h = rev (filter (\<lambda>i. cs_matches mt ty loc field (h ! i)) [0..<length h])"

lemma matching_facts:
  "sorted_wrt (>) (matching mt ty loc field h)"
  "set (matching mt ty loc field h) = {i. i < length h \<and> cs_matches mt ty loc field (h ! i)}"
  by (auto simp: matching_def sorted_wrt_rev intro: sorted_wrt_filter)

lemma lookup_matching:
  assumes "pool_of h st" "\<forall>e \<in> set h. \<not> uvm_has_wildcard (cs_field e)" "field \<noteq> []"
  shows "lookup_regex_names mt loc field (Some ty) st = matching mt ty loc field h"
proof -
  have r: "holds_set (h ! i) (po_rsrc st i)" if "i < length h" for i using that assms(1) by (simp add: pool_of_def)
  have w: "\<not> po_wild st" using assms(1,2) by (simp add: pool_of_def)
  have e: "entry_of (po_rtab st) field = rev (filter (\<lambda>i. cs_field (h ! i) = field) [0..<length h])"
    using assms(1,3) by (simp add: pool_of_def)
  have "filter (\<lambda>i. match_scope mt loc (po_rsrc st i) \<and> right_type (Some ty) (po_rsrc st i)) (entry_of (po_rtab st) field)
      = matching mt ty loc field h"
    unfolding e matching_def rev_filter [symmetric] filter_filter
    by (intro arg_cong [where f = rev] filter_cong refl)
      (use r in \<open>auto simp: match_scope_def right_type_def cs_matches_def holds_set_def\<close>)
  moreover have "map_of (po_rtab st) field = None \<Longrightarrow> entry_of (po_rtab st) field = []" by (simp add: entry_of_def)
  ultimately show ?thesis using w assms(3) by (auto simp: lookup_regex_names_def lookup_name_def)
qed

lemma config_get_matching:
  assumes "pool_of h st" "\<forall>e \<in> set h. \<not> uvm_has_wildcard (cs_field e)" "field \<noteq> []"
  shows "fst (config_get mt ty cx inst field st) =
    map_option (\<lambda>i. cs_val (h ! i)) (get_highest_precedence st (matching mt ty (config_scope cx inst) field h))"
proof -
  let ?q = "matching mt ty (config_scope cx inst) field h"
  have r: "holds_set (h ! i) (po_rsrc st i)" if "i < length h" for i using that assms(1) by (simp add: pool_of_def)
  have "filter (\<lambda>i. rs_type (po_rsrc st i) = ty) ?q = ?q"
    using r by (auto simp: matching_def filter_id_conv cs_matches_def holds_set_def)
  then have t: "typed_highest st ty (lookup_regex_names mt (config_scope cx inst) field (Some ty) st) = get_highest_precedence st ?q"
    by (simp add: typed_highest_def lookup_matching [OF assms])
  have v: "fst (rsrc_read i acc st) = rs_val (po_rsrc st i)" for i acc
    by (auto simp: rsrc_read_def record_read_access_def upd_rsrc_def Let_def split: option.split)
  show ?thesis
  proof (cases "get_highest_precedence st ?q")
    case (Some i)
    then have "i \<in> set ?q" by (rule highest_in)
    then have "holds_set (h ! i) (po_rsrc st i)" using r matching_facts(2) by blast
    with Some v show ?thesis by (simp add: config_get_def t split_beta holds_set_def)
  qed (simp add: config_get_def t)
qed

text \<open>C21. The configuration database answers from its history. After any sequence of \<open>set\<close> calls, of
  any types, contexts and phases, with field names that have no wildcards, \<open>get\<close> returns the value of the call
  with the highest precedence among those for the field and the type whose scope matches, of
  several the latest one; and nothing exactly when none matches.\<close>

theorem config_get_history:
  assumes "st = fold config_step h (new_pool v0)" "\<forall>e \<in> set h. \<not> uvm_has_wildcard (cs_field e)" "field \<noteq> []"
    and "loc = config_scope cx inst"
  shows "(fst (config_get mt ty cx inst field st) = None \<longleftrightarrow> (\<forall>i < length h. \<not> cs_matches mt ty loc field (h ! i)))
    \<and> (\<forall>i < length h. cs_matches mt ty loc field (h ! i)
          \<and> (\<forall>j < length h. cs_matches mt ty loc field (h ! j) \<longrightarrow>
               cs_prec (h ! j) \<le> cs_prec (h ! i) \<and> (i < j \<longrightarrow> cs_prec (h ! j) < cs_prec (h ! i)))
        \<longrightarrow> fst (config_get mt ty cx inst field st) = Some (cs_val (h ! i)))"
proof -
  have p: "pool_of h st" using pool_of_run [OF pool_of_new, of h v0] assms(1) by simp
  then have r: "holds_set (h ! i) (po_rsrc st i)" if "i < length h" for i using that by (simp add: pool_of_def)
  let ?q = "matching mt ty loc field h"
  have g: "fst (config_get mt ty cx inst field st) = map_option (\<lambda>i. cs_val (h ! i)) (get_highest_precedence st ?q)"
    using config_get_matching [OF p assms(2,3)] assms(4) by simp
  note q = matching_facts [of mt ty loc field h]
  have "fst (config_get mt ty cx inst field st) = None \<longleftrightarrow> ?q = []"
    by (cases ?q) (simp_all add: g get_highest_precedence_def)
  moreover have "fst (config_get mt ty cx inst field st) = Some (cs_val (h ! i))"
    if "i < length h" "cs_matches mt ty loc field (h ! i)"
      "\<forall>j < length h. cs_matches mt ty loc field (h ! j) \<longrightarrow>
         cs_prec (h ! j) \<le> cs_prec (h ! i) \<and> (i < j \<longrightarrow> cs_prec (h ! j) < cs_prec (h ! i))" for i
  proof -
    have "get_highest_precedence st ?q = Some i"
      by (rule highest_of_rev [OF q(1)]) (use q(2) that r in \<open>auto simp: holds_set_def\<close>)
    then show ?thesis by (simp add: g)
  qed
  moreover have "?q = [] \<longleftrightarrow> (\<forall>i < length h. \<not> cs_matches mt ty loc field (h ! i))"
    unfolding set_empty [symmetric] q(2) by blast
  ultimately show ?thesis by blast
qed

text \<open>Two settings of one field: the root during the build phase, then a component outside of it.\<close>

definition sample_sets :: "nat cfg_set list" where
  "sample_sets =
     [\<lparr>cs_ty = 0, cs_ctx = \<lparr>cx_top = True, cx_name = ''uvm_top''\<rparr>, cs_inst = ''t.a'', cs_field = ''f'', cs_val = 5, cs_build = True\<rparr>,
      \<lparr>cs_ty = 0, cs_ctx = \<lparr>cx_top = False, cx_name = ''t''\<rparr>, cs_inst = ''a'', cs_field = ''f'', cs_val = 6, cs_build = False\<rparr>]"

theorem config_get_history_witness:
  "fst (config_get (=) 0 \<lparr>cx_top = False, cx_name = ''t.a''\<rparr> [] ''f'' (fold config_step sample_sets (new_pool 0))) = Some 6"
proof -
  have w: "\<forall>e \<in> set sample_sets. \<not> uvm_has_wildcard (cs_field e)"
    by (simp add: sample_sets_def uvm_has_wildcard_def bracket_char_def)
  have l: "length sample_sets = 2" by (simp add: sample_sets_def)
  let ?h = "sample_sets" and ?m = "cs_matches (=) 0 ''t.a'' ''f''"
  have m: "?m (?h ! 0)" "?m (?h ! 1)" "cs_prec (?h ! 0) = 999" "cs_prec (?h ! 1) = 1000" "cs_val (?h ! 1) = 6"
    by (simp_all add: sample_sets_def cs_matches_def cs_scope_def config_scope_def cs_prec_def default_precedence_def get_depth_def)
  then have "\<forall>j < length ?h. ?m (?h ! j) \<longrightarrow> cs_prec (?h ! j) \<le> cs_prec (?h ! 1) \<and> (1 < j \<longrightarrow> cs_prec (?h ! j) < cs_prec (?h ! 1))"
    by (auto simp: l less_2_cases_iff)
  moreover have "''t.a'' = config_scope \<lparr>cx_top = False, cx_name = ''t.a''\<rparr> []" by (simp add: config_scope_def)
  moreover note config_get_history [OF refl w, of "''f''" "''t.a''" "\<lparr>cx_top = False, cx_name = ''t.a''\<rparr>" "[]" "(=)" 0 0,
      THEN conjunct2, rule_format, of 1]
  ultimately show ?thesis using m(2,5) l by simp
qed

section \<open>Sorting by precedence\<close>

abbreviation prec_int :: "'v pool \<Rightarrow> nat \<Rightarrow> int" where
  "prec_int st r \<equiv> sint (rs_prec (po_rsrc st r))"

lemma put_int_keys: "fst ` set (put_int k r qs) = insert k (fst ` set qs)"
  by (induction qs) auto

lemma put_int_sorted: "sorted_wrt (<) (map fst qs) \<Longrightarrow> sorted_wrt (<) (map fst (put_int k r qs))"
proof (induction qs)
  case (Cons x xs)
  have "set (map fst (put_int k r xs)) = insert k (set (map fst xs))" using put_int_keys [of k r xs] by simp
  with Cons show ?case by (auto simp: image_iff)
qed simp

lemma put_int_entry:
  "sorted_wrt (<) (map fst qs) \<Longrightarrow> entry_of (put_int k r qs) k' = (if k' = k then r # entry_of qs k else entry_of qs k')"
proof (induction qs)
  case (Cons x xs)
  have "entry_of xs k = []" if "k < fst x"
    using Cons.prems that by (auto simp: entry_of_def split: option.splits dest!: map_of_SomeD)
  with Cons show ?case by (cases x) (auto simp: entry_of_def split: option.splits)
qed (simp add: entry_of_def)

lemma filter_concat_entry:
  "distinct (map fst qs) \<Longrightarrow> (\<And>k' l r. (k', l) \<in> set qs \<Longrightarrow> r \<in> set l \<Longrightarrow> f r = k') \<Longrightarrow>
   filter (\<lambda>r. f r = k) (concat (map snd qs)) = entry_of qs k"
proof (induction qs)
  case (Cons x xs)
  obtain k' l where x: "x = (k', l)" by (cases x)
  have IH: "filter (\<lambda>r. f r = k) (concat (map snd xs)) = entry_of xs k" using Cons by (simp, blast)
  have l: "filter (\<lambda>r. f r = k) l = (if k' = k then l else [])"
    using Cons.prems(2) [of k' l] x by (auto simp: filter_id_conv filter_empty_conv)
  have "k' = k \<Longrightarrow> entry_of xs k = []"
    using Cons.prems(1) x by (auto simp: entry_of_def image_iff split: option.splits dest!: map_of_SomeD)
  with IH l x show ?case by (auto simp: entry_of_def)
qed (simp add: entry_of_def)

text \<open>\<open>sort_by_precedence\<close> is the stable sort of the queue by falling precedence.\<close>

theorem sort_by_precedence_stable:
  "sort_by_precedence st q = sort_key (\<lambda>r. - prec_int st r) q"
proof -
  let ?f = "prec_int st"
  define qs where "qs = fold (\<lambda>r qs. put_int (?f r) r qs) q []"
  have inv: "sorted_wrt (<) (map fst (fold (\<lambda>r qs. put_int (?f r) r qs) xs [])) \<and>
      (\<forall>k. entry_of (fold (\<lambda>r qs. put_int (?f r) r qs) xs []) k = rev (filter (\<lambda>r. ?f r = k) xs))" for xs
    by (induction xs rule: rev_induct) (simp_all add: put_int_sorted put_int_entry entry_of_def [of "[]"])
  have s: "sorted_wrt (<) (map fst qs)" and e: "entry_of qs k = rev (filter (\<lambda>r. ?f r = k) q)" for k
    using inv [of q] by (simp_all add: qs_def)
  from s have d: "distinct (map fst qs)" by (auto simp: strict_sorted_iff)
  have own: "?f r = k" if "(k, l) \<in> set qs" "r \<in> set l" for k l r
    using map_of_is_SomeI [OF d that(1)] e [of k] that(2) by (auto simp: entry_of_def)
  define ys where "ys = rev (concat (map snd qs))"
  have out: "sort_by_precedence st q = ys"
    by (simp add: sort_by_precedence_def qs_def ys_def Let_def fold_Cons_rev)
  have flt: "filter (\<lambda>r. ?f r = k) ys = filter (\<lambda>r. ?f r = k) q" for k
    using filter_concat_entry [of qs ?f k, OF d own] e [of k] by (simp add: ys_def rev_filter [symmetric])
  have "mset q = mset ys"
  proof (rule multiset_eqI)
    fix x
    have c: "count (mset zs) x = count (mset (filter (\<lambda>r. ?f r = ?f x) zs)) x" for zs by simp
    show "count (mset q) x = count (mset ys) x" by (subst (1 2) c) (simp only: flt)
  qed
  moreover have "filter (\<lambda>x. - ?f k = - ?f x) ys = filter (\<lambda>x. - ?f k = - ?f x) q" for k
    using flt [of "?f k"] by (simp add: eq_commute)
  moreover have "sorted (map (\<lambda>r. - ?f r) ys)"
    unfolding ys_def rev_map [symmetric] sorted_wrt_rev using s own
  proof (induction qs)
    case (Cons x xs)
    have IH: "sorted_wrt (\<lambda>x y. y \<le> x) (map (\<lambda>r. - ?f r) (concat (map snd xs)))"
      using Cons by (auto simp: sorted_wrt_map)
    have a: "?f r = fst x" if "r \<in> set (snd x)" for r using Cons.prems(2) [of "fst x" "snd x" r] that by simp
    have b: "fst x < ?f r" if "r \<in> set (concat (map snd xs))" for r
      using that Cons.prems by fastforce
    have "sorted_wrt (\<lambda>x y. y \<le> x) (map (\<lambda>r. - ?f r) (snd x))"
      using a by (auto simp: sorted_wrt_map sorted_wrt_iff_nth_less)
    with IH a b show ?case by (force simp: sorted_wrt_append)
  qed simp
  ultimately show ?thesis unfolding out by (intro properties_for_sort_key [symmetric]) simp_all
qed

end
