(* ===== verification/Packer.thy ===== *)
theory Packer
  imports UVM_Prelude
begin

text \<open>
  Model of \<open>uvm_packer\<close> (src/uvmsc/policy/uvm_packer.cpp and uvm_packer.h): the bit buffer, its
  growth in blocks of 4096 bits, the pack and unpack functions of the scalar types, strings, bit
  vectors and \<open>std::vector\<close>, and the transfer of the buffer as bits, bytes or ints.

  The buffer \<open>m_bits\<close> is a list of bits, index 0 first; before the first allocation it is empty
  and the pointer null. A selection outside the buffer, for which SystemC reports an error that
  throws, is \<open>None\<close>. \<open>pk_errs\<close> counts the errors the packer reports. The source keeps indices and
  sizes in a 32-bit \<open>int\<close>: a growth beyond \<open>2 ^ 31 - 1\<close> bits, where the computation of the size
  overflows, is also \<open>None\<close>. All indices lie below the size of the buffer, so naturals are exact for
  them. Sizes are not negative. Left out: objects (\<open>do_pack\<close> is user code), real numbers and times, four-valued
  logic, the debug messages.
\<close>

section \<open>Bit vectors\<close>

text \<open>\<open>bv_range\<close> is the part select \<open>x(hi, lo)\<close>; with \<open>hi < lo\<close> the bits come reversed.\<close>

definition bv_range :: "bool list \<Rightarrow> int \<Rightarrow> int \<Rightarrow> bool list option" where
  "bv_range bs hi lo =
     (if 0 \<le> hi \<and> hi < int (length bs) \<and> 0 \<le> lo \<and> lo < int (length bs)
      then Some (if lo \<le> hi then take (nat (hi - lo) + 1) (drop (nat lo) bs)
                 else rev (take (nat (lo - hi) + 1) (drop (nat hi) bs)))
      else None)"

definition bv_assign :: "bool list \<Rightarrow> nat \<Rightarrow> bool list \<Rightarrow> bool list option" where
  "bv_assign bs lo v =
     (if lo + length v \<le> length bs then Some (take lo bs @ v @ drop (lo + length v) bs) else None)"

text \<open>Assigning a bit vector to one of width \<open>n\<close> truncates it or fills it with zeros.\<close>

definition fit :: "nat \<Rightarrow> bool list \<Rightarrow> bool list" where
  "fit n bs = take n bs @ replicate (n - length bs) False"

definition to_word :: "bool list \<Rightarrow> 'a::len word" where
  "to_word bs = horner_sum of_bool 2 bs"

definition of_word :: "'a::len word \<Rightarrow> bool list" where
  "of_word w = map (bit w) [0..<LENGTH('a)]"

lemma length_of_word [simp]: "length (of_word (w :: 'a::len word)) = LENGTH('a)"
  by (simp add: of_word_def)

lemma nth_of_word [simp]: "i < LENGTH('a) \<Longrightarrow> of_word (w :: 'a::len word) ! i = bit w i"
  by (simp add: of_word_def)

lemma length_fit [simp]: "length (fit n bs) = n"
  by (simp add: fit_def)

lemma fit_id [simp]: "length bs = n \<Longrightarrow> fit n bs = bs"
  by (simp add: fit_def)

lemma nth_fit: "i < n \<Longrightarrow> fit n bs ! i \<longleftrightarrow> i < length bs \<and> bs ! i"
  by (auto simp: fit_def nth_append)

lemma bit_to_word: "bit (to_word bs :: 'a::len word) i \<longleftrightarrow> i < LENGTH('a) \<and> i < length bs \<and> bs ! i"
  by (auto simp: to_word_def bit_horner_sum_bit_word_iff)

lemma to_word_of_word [simp]: "to_word (of_word w) = (w :: 'a::len word)"
  by (rule bit_word_eqI) (simp add: bit_to_word)

lemma of_word_to_word: "length bs = LENGTH('a) \<Longrightarrow> of_word (to_word bs :: 'a::len word) = bs"
  by (rule nth_equalityI) (simp_all add: bit_to_word)

lemma length_bv_assign: "bv_assign bs lo v = Some bs' \<Longrightarrow> length bs' = length bs"
  by (auto simp: bv_assign_def split: if_splits)

section \<open>The buffer\<close>

record packer =
  pk_bits :: "bool list"
  pk_size :: nat
  pk_max :: nat
  pk_pack :: nat
  pk_unpack :: nat
  pk_big :: bool
  pk_meta :: bool
  pk_errs :: nat

definition new_packer :: packer where
  "new_packer = \<lparr>pk_bits = [], pk_size = 0, pk_max = 0, pk_pack = 0, pk_unpack = 0,
     pk_big = False, pk_meta = False, pk_errs = 0\<rparr>"

definition block_size :: nat where
  "block_size = 4096"

definition pk_error :: "packer \<Rightarrow> packer" where
  "pk_error pk = pk\<lparr>pk_errs := pk_errs pk + 1\<rparr>"

definition pk_reset :: "packer \<Rightarrow> packer" where
  "pk_reset pk = pk\<lparr>pk_pack := 0, pk_unpack := 0, pk_size := 0\<rparr>"

text \<open>
  The division of C truncates: an empty request in an empty buffer still allocates one block.
  \<open>total_bits\<close> and \<open>new_size\<close> are of type \<open>int\<close>: from \<open>2 ^ 31\<close> on the product (or already the sum)
  overflows, which is undefined.
\<close>

definition m_allocate :: "nat \<Rightarrow> bool \<Rightarrow> packer \<Rightarrow> packer option" where
  "m_allocate nbits copy pk =
     (let total_bits = pk_pack pk + nbits;
          new_size = ((total_bits - 1) div block_size + 1) * block_size;
          pk1 = pk\<lparr>pk_size := new_size\<rparr>
      in if new_size \<ge> 2 ^ 31 then None
         else if new_size > pk_max pk
         then Some (pk1\<lparr>pk_max := new_size,
                        pk_bits := fit new_size (if copy then pk_bits pk else [])\<rparr>)
         else Some pk1)"

definition m_check_size :: "nat \<Rightarrow> packer \<Rightarrow> packer option" where
  "m_check_size nbits pk =
     (if int nbits \<ge> int (pk_size pk) - int (pk_pack pk) then m_allocate nbits True pk else Some pk)"

definition m_set_size :: "nat \<Rightarrow> packer \<Rightarrow> packer option" where
  "m_set_size nbits = m_allocate nbits False"

definition m_enough_bits :: "nat \<Rightarrow> packer \<Rightarrow> bool \<times> packer" where
  "m_enough_bits needed pk =
     (if int (pk_pack pk) - int (pk_unpack pk) < int needed then (False, pk_error pk)
      else (True, pk))"

definition inc_unpack_index :: "nat \<Rightarrow> packer \<Rightarrow> packer" where
  "inc_unpack_index n pk =
     (let pk1 = pk\<lparr>pk_unpack := pk_unpack pk + n\<rparr>
      in if pk_unpack pk1 > pk_pack pk1 then pk_error pk1 else pk1)"

definition get_packed_size :: "packer \<Rightarrow> nat" where
  "get_packed_size pk = pk_pack pk"

text \<open>The difference of the two indices in unsigned 32 bits.\<close>

definition get_remaining_unpacked_bits :: "packer \<Rightarrow> nat" where
  "get_remaining_unpacked_bits pk = nat ((int (pk_pack pk) - int (pk_unpack pk)) mod 2 ^ 32)"

definition is_null :: "packer \<Rightarrow> bool option" where
  "is_null pk = map_option (\<lambda>bs. \<not> list_ex id bs)
     (bv_range (pk_bits pk) (int (pk_unpack pk) + 3) (int (pk_unpack pk)))"

section \<open>Pack functions\<close>

text \<open>The selection \<open>(*m_bits)(pack_index + n - 1, pack_index) = bs\<close> and the new index.\<close>

definition pack_range :: "bool list \<Rightarrow> packer \<Rightarrow> packer option" where
  "pack_range bs pk = map_option
     (\<lambda>buf. pk\<lparr>pk_bits := buf, pk_pack := pk_pack pk + length bs\<rparr>)
     (bv_assign (pk_bits pk) (pk_pack pk) bs)"

text \<open>
  The common body of \<open>pack_field\<close> and \<open>pack_field_int\<close>: \<open>tmp\<close> has 64 bits, so the selection of
  no bit or of more than 64 bits fails.
\<close>

definition pack_value :: "(nat \<Rightarrow> bool) \<Rightarrow> nat \<Rightarrow> packer \<Rightarrow> packer option" where
  "pack_value v n pk =
     (let tmp = map (\<lambda>i. if pk_big pk \<and> i < n then v (n - 1 - i) else v i) [0..<64]
      in Option.bind (m_check_size n pk)
           (\<lambda>pk1. if 0 < n \<and> n \<le> 64 then pack_range (take n tmp) pk1 else None))"

definition pack_field :: "4096 word \<Rightarrow> nat \<Rightarrow> packer \<Rightarrow> packer option" where
  "pack_field value n = pack_value (bit value) n"

definition pack_field_int :: "64 word \<Rightarrow> nat \<Rightarrow> packer \<Rightarrow> packer option" where
  "pack_field_int value n = pack_value (bit value) n"

definition swap_if :: "bool \<Rightarrow> bool list \<Rightarrow> bool list" where
  "swap_if big bs = (if big then rev bs else bs)"

definition pack_char :: "8 word \<Rightarrow> packer \<Rightarrow> packer option" where
  "pack_char a pk =
     Option.bind (m_check_size 8 pk) (pack_range (swap_if (pk_big pk) (of_word a)))"

fun pack_chars :: "8 word list \<Rightarrow> packer \<Rightarrow> packer option" where
  "pack_chars [] pk = Some pk"
| "pack_chars (c # cs) pk = (case pack_char c pk of None \<Rightarrow> None | Some pk1 \<Rightarrow> pack_chars cs pk1)"

definition pack_string :: "8 word list \<Rightarrow> packer \<Rightarrow> packer option" where
  "pack_string s pk =
     (case pack_chars s pk of
        None \<Rightarrow> None
      | Some pk1 \<Rightarrow> if pk_meta pk1 then pack_char 0 pk1 else Some pk1)"

definition pack_bool :: "bool \<Rightarrow> packer \<Rightarrow> packer option" where
  "pack_bool a pk = Option.bind (m_check_size 1 pk) (pack_range [a])"

definition pack_sc_bv_base :: "bool list \<Rightarrow> packer \<Rightarrow> packer option" where
  "pack_sc_bv_base a pk =
     Option.bind (m_check_size (length a) pk) (\<lambda>pk1. if a = [] then None else pack_range a pk1)"

text \<open>The loop of \<open>pack_sc_int_base\<close>, \<open>..._uint_base\<close>, \<open>..._signed\<close> and \<open>..._unsigned\<close>.\<close>

fun pack_bit_loop :: "bool list \<Rightarrow> packer \<Rightarrow> packer option" where
  "pack_bit_loop [] pk = Some pk"
| "pack_bit_loop (b # bs) pk =
     (case pack_range [b] pk of None \<Rightarrow> None | Some pk1 \<Rightarrow> pack_bit_loop bs pk1)"

definition pack_sc_int_base :: "bool list \<Rightarrow> packer \<Rightarrow> packer option" where
  "pack_sc_int_base a pk = Option.bind (m_check_size (length a) pk) (pack_bit_loop a)"

definition pack_sc_uint_base :: "bool list \<Rightarrow> packer \<Rightarrow> packer option" where
  "pack_sc_uint_base a pk = Option.bind (m_check_size (length a) pk) (pack_bit_loop a)"

definition pack_sc_signed :: "bool list \<Rightarrow> packer \<Rightarrow> packer option" where
  "pack_sc_signed a pk = Option.bind (m_check_size (length a) pk) (pack_bit_loop a)"

definition pack_sc_unsigned :: "bool list \<Rightarrow> packer \<Rightarrow> packer option" where
  "pack_sc_unsigned a pk = Option.bind (m_check_size (length a) pk) (pack_bit_loop a)"

text \<open>
  \<open>operator<<\<close> of the integer types packs the type's width; that of \<open>std::vector\<close> packs the
  length as an \<open>int\<close> and then the elements. (Sign or zero extension to 64 bits makes no
  difference to the low bits that are packed.)
\<close>

definition put_integer :: "'a::len word \<Rightarrow> packer \<Rightarrow> packer option" where
  "put_integer a = pack_field_int (ucast a) LENGTH('a)"

fun put_elems :: "('v \<Rightarrow> packer \<Rightarrow> packer option) \<Rightarrow> 'v list \<Rightarrow> packer \<Rightarrow> packer option" where
  "put_elems put [] pk = Some pk"
| "put_elems put (x # xs) pk = (case put x pk of None \<Rightarrow> None | Some pk1 \<Rightarrow> put_elems put xs pk1)"

definition put_vector :: "('v \<Rightarrow> packer \<Rightarrow> packer option) \<Rightarrow> 'v list \<Rightarrow> packer \<Rightarrow> packer option" where
  "put_vector put xs pk =
     (case put_integer (of_nat (length xs) :: 32 word) pk of
        None \<Rightarrow> None
      | Some pk1 \<Rightarrow> put_elems put xs pk1)"

section \<open>Unpack functions\<close>

text \<open>The common body of \<open>unpack_field_int\<close> and \<open>unpack_field\<close>, on the 64 bits of \<open>a\<close>.\<close>

definition unpack_value :: "nat \<Rightarrow> packer \<Rightarrow> (bool list \<times> packer) option" where
  "unpack_value n pk =
     (case m_enough_bits n pk of (ok, pk0) \<Rightarrow>
        if ok
        then (case bv_range (pk_bits pk0) (int (pk_unpack pk0) + int n - 1) (int (pk_unpack pk0)) of
                None \<Rightarrow> None
              | Some r \<Rightarrow>
                  let a = fit 64 r; pk1 = inc_unpack_index n pk0
                  in if pk_big pk1
                     then if n \<le> 64
                          then Some (map (\<lambda>i. i < n \<and> a ! (n - 1 - i)) [0..<64], pk1)
                          else None
                     else Some (a, pk1))
        else Some (replicate 64 False, pk_error pk0))"

definition unpack_field_int :: "nat \<Rightarrow> packer \<Rightarrow> (64 word \<times> packer) option" where
  "unpack_field_int n pk = map_option (\<lambda>(a, pk1). (to_word a, pk1)) (unpack_value n pk)"

definition unpack_field :: "nat \<Rightarrow> packer \<Rightarrow> (4096 word \<times> packer) option" where
  "unpack_field n pk = map_option (\<lambda>(a, pk1). (to_word a, pk1)) (unpack_value n pk)"

text \<open>The part select of \<open>n\<close> bits at the read position.\<close>

definition peek_bits :: "nat \<Rightarrow> packer \<Rightarrow> bool list option" where
  "peek_bits n pk =
     bv_range (pk_bits pk) (int (pk_unpack pk) + int n - 1) (int (pk_unpack pk))"

definition unpack_char :: "packer \<Rightarrow> (8 word \<times> packer) option" where
  "unpack_char pk = map_option
     (\<lambda>b. (to_word (swap_if (pk_big pk) b), inc_unpack_index 8 pk)) (peek_bits 8 pk)"

text \<open>
  The loop of \<open>unpack_string\<close>: \<open>limit\<close> is \<open>None\<close> for \<open>num_chars = -1\<close> and else the number of
  characters still to read. The first test of the loop reports an error when fewer than 8 bits
  are left. Each round consumes 8 of the packed bits, so \<open>pack_index + 1\<close> rounds are enough.
\<close>

fun unpack_chars ::
    "nat \<Rightarrow> nat option \<Rightarrow> 8 word list \<Rightarrow> packer \<Rightarrow> (8 word list \<times> packer) option" where
  "unpack_chars 0 limit s pk = None"
| "unpack_chars (Suc fuel) limit s pk =
     (case m_enough_bits 8 pk of (ok, pk0) \<Rightarrow>
        if \<not> ok then Some (s, pk0)
        else (case peek_bits 8 pk0 of
                None \<Rightarrow> None
              | Some b \<Rightarrow>
                  if (list_ex id b \<or> limit \<noteq> None) \<and> limit \<noteq> Some 0
                  then unpack_chars fuel (map_option (\<lambda>n. n - 1) limit)
                         (s @ [to_word (swap_if (pk_big pk0) b)]) (inc_unpack_index 8 pk0)
                  else Some (s, pk0)))"

definition unpack_string :: "nat option \<Rightarrow> packer \<Rightarrow> (8 word list \<times> packer) option" where
  "unpack_string limit pk =
     (case unpack_chars (pk_pack pk + 1) limit [] pk of
        None \<Rightarrow> None
      | Some (s, pk1) \<Rightarrow>
          if pk_meta pk1
          then (case m_enough_bits 8 pk1 of (ok, pk2) \<Rightarrow>
                  Some (s, if ok then inc_unpack_index 8 pk2 else pk2))
          else Some (s, pk1))"

definition unpack_bool :: "packer \<Rightarrow> (bool \<times> packer) option" where
  "unpack_bool pk =
     (if pk_unpack pk < length (pk_bits pk)
      then Some (pk_bits pk ! pk_unpack pk, inc_unpack_index 1 pk) else None)"

text \<open>For a target of \<open>n\<close> bits.\<close>

definition unpack_sc_bv_base :: "nat \<Rightarrow> packer \<Rightarrow> (bool list \<times> packer) option" where
  "unpack_sc_bv_base n pk =
     (if n = 0 then None
      else map_option (\<lambda>b. (b, inc_unpack_index n pk)) (peek_bits n pk))"

text \<open>
  The loop of the integer types increments \<open>unpack_index\<close> directly, without the test of
  \<open>inc_unpack_index\<close>.
\<close>

fun unpack_bit_loop :: "nat \<Rightarrow> bool list \<Rightarrow> packer \<Rightarrow> (bool list \<times> packer) option" where
  "unpack_bit_loop 0 a pk = Some (a, pk)"
| "unpack_bit_loop (Suc n) a pk =
     (if pk_unpack pk < length (pk_bits pk)
      then unpack_bit_loop n (a @ [pk_bits pk ! pk_unpack pk]) (pk\<lparr>pk_unpack := pk_unpack pk + 1\<rparr>)
      else None)"

definition unpack_sc_int_base :: "nat \<Rightarrow> packer \<Rightarrow> (bool list \<times> packer) option" where
  "unpack_sc_int_base n = unpack_bit_loop n []"

definition unpack_sc_uint_base :: "nat \<Rightarrow> packer \<Rightarrow> (bool list \<times> packer) option" where
  "unpack_sc_uint_base n = unpack_bit_loop n []"

definition unpack_sc_signed :: "nat \<Rightarrow> packer \<Rightarrow> (bool list \<times> packer) option" where
  "unpack_sc_signed n = unpack_bit_loop n []"

definition unpack_sc_unsigned :: "nat \<Rightarrow> packer \<Rightarrow> (bool list \<times> packer) option" where
  "unpack_sc_unsigned n = unpack_bit_loop n []"

definition get_integer :: "packer \<Rightarrow> ('a::len word \<times> packer) option" where
  "get_integer pk = map_option (\<lambda>(w, pk1). (ucast w, pk1)) (unpack_field_int LENGTH('a) pk)"

fun get_elems ::
    "(packer \<Rightarrow> ('v \<times> packer) option) \<Rightarrow> nat \<Rightarrow> packer \<Rightarrow> ('v list \<times> packer) option" where
  "get_elems get 0 pk = Some ([], pk)"
| "get_elems get (Suc n) pk =
     (case get pk of
        None \<Rightarrow> None
      | Some (x, pk1) \<Rightarrow> map_option (\<lambda>(xs, pk2). (x # xs, pk2)) (get_elems get n pk1))"

text \<open>The length is an \<open>int\<close>: a negative one reads no element.\<close>

definition get_vector ::
    "(packer \<Rightarrow> ('v \<times> packer) option) \<Rightarrow> packer \<Rightarrow> ('v list \<times> packer) option" where
  "get_vector get pk =
     (case (get_integer pk :: (32 word \<times> packer) option) of
        None \<Rightarrow> None
      | Some (n, pk1) \<Rightarrow> get_elems get (nat (sint n)) pk1)"

section \<open>Transfer of the buffer\<close>

fun read_bits :: "nat \<Rightarrow> nat \<Rightarrow> bool list \<Rightarrow> bool list option" where
  "read_bits i 0 bs = Some []"
| "read_bits i (Suc n) bs =
     (if i < length bs then map_option ((#) (bs ! i)) (read_bits (i + 1) n bs) else None)"

definition get_bits :: "packer \<Rightarrow> bool list option" where
  "get_bits pk = read_bits 0 (get_remaining_unpacked_bits pk) (pk_bits pk)"

text \<open>The loop of \<open>get_bytes\<close> and \<open>get_ints\<close> over words of the width of \<open>'a\<close>.\<close>

fun read_words :: "bool \<Rightarrow> nat \<Rightarrow> nat \<Rightarrow> bool list \<Rightarrow> 'a::len word list option" where
  "read_words big i 0 bs = Some []"
| "read_words big i (Suc n) bs =
     (case bv_range bs (int (LENGTH('a) * i + LENGTH('a) - 1)) (int (LENGTH('a) * i)) of
        None \<Rightarrow> None
      | Some b \<Rightarrow> map_option ((#) (to_word (swap_if big b))) (read_words big (i + 1) n bs))"

text \<open>The number of words: \<open>1 + (n - 1) / 8\<close> in unsigned arithmetic.\<close>

definition word_count :: "nat \<Rightarrow> nat \<Rightarrow> nat" where
  "word_count w n = (1 + unat (of_nat n - 1 :: uint) div w) mod 2 ^ 32"

definition get_bytes :: "packer \<Rightarrow> 8 word list option" where
  "get_bytes pk =
     read_words (pk_big pk) 0 (word_count 8 (get_remaining_unpacked_bits pk)) (pk_bits pk)"

definition get_ints :: "packer \<Rightarrow> 32 word list option" where
  "get_ints pk =
     read_words (pk_big pk) 0 (word_count 32 (get_remaining_unpacked_bits pk)) (pk_bits pk)"

fun write_at :: "nat \<Rightarrow> bool list list \<Rightarrow> bool list \<Rightarrow> bool list option" where
  "write_at i [] bs = Some bs"
| "write_at i (v # vs) bs =
     (case bv_assign bs i v of None \<Rightarrow> None | Some bs1 \<Rightarrow> write_at (i + length v) vs bs1)"

definition put_bits :: "bool list \<Rightarrow> packer \<Rightarrow> packer option" where
  "put_bits bits pk =
     Option.bind (m_set_size (length bits) (pk_reset pk))
       (\<lambda>pk1. map_option (\<lambda>buf. pk1\<lparr>pk_bits := buf, pk_pack := length bits\<rparr>)
         (write_at 0 (map (\<lambda>b. [b]) bits) (pk_bits pk1)))"

definition put_bytes :: "8 word list \<Rightarrow> packer \<Rightarrow> packer option" where
  "put_bytes bytes pk =
     Option.bind (m_set_size (length bytes * 8) (pk_reset pk))
       (\<lambda>pk1. map_option (\<lambda>buf. pk1\<lparr>pk_bits := buf, pk_pack := 8 * length bytes\<rparr>)
         (write_at 0 (map (\<lambda>w. swap_if (pk_big pk) (of_word w)) bytes) (pk_bits pk1)))"

definition put_ints :: "32 word list \<Rightarrow> packer \<Rightarrow> packer option" where
  "put_ints ints pk =
     Option.bind (m_set_size (length ints * 32) (pk_reset pk))
       (\<lambda>pk1. map_option (\<lambda>buf. pk1\<lparr>pk_bits := buf, pk_pack := 32 * length ints\<rparr>)
         (write_at 0 (map (\<lambda>w. swap_if (pk_big pk) (of_word w)) ints) (pk_bits pk1)))"

section \<open>The buffer as a queue of bits\<close>

text \<open>
  The abstract state of a packer: the bits packed so far and, of these, the bits not yet
  unpacked. \<open>pk_wf\<close> is the invariant of the buffer; \<open>room\<close> says that so many bits more can be
  packed before the sizes leave the range of \<open>int\<close>.
\<close>

definition pk_wf :: "packer \<Rightarrow> bool" where
  "pk_wf pk \<longleftrightarrow> pk_pack pk \<le> pk_size pk \<and> pk_size pk \<le> pk_max pk \<and> length (pk_bits pk) = pk_max pk \<and>
     block_size dvd pk_size pk \<and> block_size dvd pk_max pk \<and> pk_max pk < 2 ^ 31"

definition max_bits :: nat where
  "max_bits = 2 ^ 31 - 4096"

definition room :: "nat \<Rightarrow> packer \<Rightarrow> bool" where
  "room n pk \<longleftrightarrow> pk_pack pk + n \<le> max_bits"

definition packed :: "packer \<Rightarrow> bool list" where
  "packed pk = take (pk_pack pk) (pk_bits pk)"

definition to_read :: "packer \<Rightarrow> bool list" where
  "to_read pk = drop (pk_unpack pk) (packed pk)"

definition appends :: "bool list \<Rightarrow> packer \<Rightarrow> packer \<Rightarrow> bool" where
  "appends bs pk pk' \<longleftrightarrow> pk_wf pk' \<and> packed pk' = packed pk @ bs \<and> pk_unpack pk' = pk_unpack pk \<and>
     pk_big pk' = pk_big pk \<and> pk_meta pk' = pk_meta pk \<and> pk_errs pk' = pk_errs pk"

text \<open>The contract of a pack function: the bits are appended, or the sizes would overflow.\<close>

definition packs :: "bool list \<Rightarrow> packer \<Rightarrow> packer option \<Rightarrow> bool" where
  "packs bs pk r \<longleftrightarrow> (case r of None \<Rightarrow> \<not> room (length bs) pk
     | Some pk' \<Rightarrow> room (length bs) pk \<and> appends bs pk pk')"

definition consumes :: "bool list \<Rightarrow> packer \<Rightarrow> packer \<Rightarrow> bool" where
  "consumes bs pk pk' \<longleftrightarrow> pk_wf pk' \<and> packed pk' = packed pk \<and>
     pk_unpack pk' = pk_unpack pk + length bs \<and>
     pk_big pk' = pk_big pk \<and> pk_meta pk' = pk_meta pk \<and> pk_errs pk' = pk_errs pk"

lemma length_packed: "pk_wf pk \<Longrightarrow> length (packed pk) = pk_pack pk"
  by (simp add: pk_wf_def packed_def)

lemma block_multiple: "block_size dvd n \<Longrightarrow> n < 2 ^ 31 \<Longrightarrow> n \<le> max_bits"
  by (auto simp: block_size_def max_bits_def elim!: dvdE)

lemma pk_wf_room: "pk_wf pk \<Longrightarrow> pk_max pk \<le> max_bits" "pk_wf pk \<Longrightarrow> room 0 pk"
proof -
  show m: "pk_max pk \<le> max_bits" if "pk_wf pk"
    using that by (intro block_multiple) (simp_all add: pk_wf_def)
  show "room 0 pk" if "pk_wf pk" using m [OF that] that by (simp add: room_def pk_wf_def)
qed

lemma appends_refl: "pk_wf pk \<Longrightarrow> appends [] pk pk"
  by (simp add: appends_def)

lemma appends_trans: "appends as pk1 pk2 \<Longrightarrow> appends bs pk2 pk3 \<Longrightarrow> appends (as @ bs) pk1 pk3"
  by (simp add: appends_def)

lemma consumes_refl: "pk_wf pk \<Longrightarrow> consumes [] pk pk"
  by (simp add: consumes_def)

lemma consumes_trans: "consumes as pk1 pk2 \<Longrightarrow> consumes bs pk2 pk3 \<Longrightarrow> consumes (as @ bs) pk1 pk3"
  by (simp add: consumes_def)

lemma consumes_pending:
  "consumes bs pk pk' \<Longrightarrow> to_read pk = bs @ rest \<Longrightarrow> to_read pk' = rest"
  by (simp add: consumes_def to_read_def add.commute flip: drop_drop)

lemma appends_wf: "appends bs pk pk' \<Longrightarrow> pk_wf pk'"
  by (simp add: appends_def)

lemma consumes_wf: "consumes bs pk pk' \<Longrightarrow> pk_wf pk'"
  by (simp add: consumes_def)

lemma appends_pack:
  assumes "pk_wf pk" "appends bs pk pk'"
  shows "pk_pack pk' = pk_pack pk + length bs"
  using length_packed [OF assms(1)] length_packed [OF appends_wf [OF assms(2)]] assms(2)
  by (simp add: appends_def)

lemma packs_Nil: "pk_wf pk \<Longrightarrow> packs [] pk (Some pk)"
  by (simp add: packs_def appends_refl pk_wf_room)

lemma packs_bind:
  assumes "pk_wf pk" "packs as pk r" "\<And>pk1. appends as pk pk1 \<Longrightarrow> packs bs pk1 (g pk1)"
  shows "packs (as @ bs) pk (Option.bind r g)"
proof (cases r)
  case None
  then show ?thesis using assms(2) by (simp add: packs_def room_def)
next
  case (Some pk1)
  then have 1: "appends as pk pk1" using assms(2) by (simp add: packs_def)
  then show ?thesis
    using Some assms(3) [OF 1] appends_pack [OF assms(1) 1] appends_trans [OF 1]
    by (auto simp: packs_def room_def add.assoc split: option.splits)
qed

lemma packs_Some: "packs bs pk (Some pk') \<Longrightarrow> appends bs pk pk'"
  by (simp add: packs_def)

lemma packs_room: "packs bs pk r \<Longrightarrow> room (length bs) pk \<Longrightarrow> \<exists>pk'. r = Some pk' \<and> appends bs pk pk'"
  by (auto simp: packs_def split: option.splits)

lemma packs_full: "packs bs pk r \<Longrightarrow> \<not> room (length bs) pk \<Longrightarrow> r = None"
  by (auto simp: packs_def split: option.splits)

lemma pk_reset_wf [simp]: "pk_wf pk \<Longrightarrow> pk_wf (pk_reset pk)"
  by (simp add: pk_wf_def pk_reset_def)

lemma new_size_enough: "n \<le> ((n - 1) div block_size + 1) * block_size"
proof -
  have "n - 1 = (n - 1) div block_size * block_size + (n - 1) mod block_size"
    by simp
  moreover have "(n - 1) mod block_size < block_size" by (simp add: block_size_def)
  ultimately show ?thesis by (simp only: add_mult_distrib)
qed

lemma new_size_fits: "((n - 1) div block_size + 1) * block_size < 2 ^ 31 \<longleftrightarrow> n \<le> max_bits"
proof -
  have "((n - 1) div block_size + 1) * block_size < 2 ^ 31 \<longleftrightarrow> (n - 1) div 4096 < 2 ^ 19 - 1"
    by (simp add: block_size_def)
  also have "\<dots> \<longleftrightarrow> n - 1 < 4096 * (2 ^ 19 - 1)"
    by (simp add: div_less_iff_less_mult)
  also have "\<dots> \<longleftrightarrow> n \<le> max_bits" by (simp add: max_bits_def) linarith
  finally show ?thesis .
qed

lemma m_allocate_None: "m_allocate n c pk = None \<longleftrightarrow> \<not> room n pk"
  using new_size_fits [of "pk_pack pk + n"] by (auto simp: m_allocate_def room_def Let_def)

lemma m_allocate_wf:
  assumes "length (pk_bits pk) = pk_max pk" "block_size dvd pk_max pk" "pk_max pk < 2 ^ 31"
    and "m_allocate n c pk = Some pk'"
  shows "pk_wf pk'" and "pk_pack pk + n \<le> pk_size pk'"
  using assms new_size_enough [of "pk_pack pk + n"]
  by (auto simp: m_allocate_def pk_wf_def Let_def split: if_splits)

lemma m_allocate_same:
  assumes "m_allocate n c pk = Some pk'"
  shows "pk_pack pk' = pk_pack pk" "pk_unpack pk' = pk_unpack pk" "pk_big pk' = pk_big pk"
    "pk_meta pk' = pk_meta pk" "pk_errs pk' = pk_errs pk"
  using assms by (auto simp: m_allocate_def Let_def split: if_splits)

lemma m_allocate_packed: "pk_wf pk \<Longrightarrow> m_allocate n True pk = Some pk' \<Longrightarrow> packed pk' = packed pk"
  by (auto simp: packed_def m_allocate_def Let_def fit_def pk_wf_def split: if_splits)

lemma m_check_size_ok:
  assumes "pk_wf pk" "m_check_size n pk = Some pk'"
  shows "appends [] pk pk'" and "pk_pack pk + n \<le> pk_size pk'" and "pk_pack pk' = pk_pack pk"
proof -
  have *: "length (pk_bits pk) = pk_max pk" "block_size dvd pk_max pk" "pk_max pk < 2 ^ 31"
    using assms by (simp_all add: pk_wf_def)
  show "appends [] pk pk'" "pk_pack pk + n \<le> pk_size pk'" "pk_pack pk' = pk_pack pk"
    using assms m_allocate_wf [OF *] m_allocate_packed [OF assms(1)]
    by (auto simp: m_check_size_def appends_def m_allocate_same split: if_splits)
qed

lemma m_check_size_None:
  assumes "pk_wf pk"
  shows "m_check_size n pk = None \<longleftrightarrow> \<not> room n pk"
  using pk_wf_room(1) [OF assms] assms
  by (auto simp: m_check_size_def m_allocate_None room_def pk_wf_def)

lemma pack_range_ok:
  assumes "pk_wf pk" "pk_pack pk + length bs \<le> pk_size pk"
  shows "\<exists>pk'. pack_range bs pk = Some pk' \<and> appends bs pk pk' \<and> pk_size pk' = pk_size pk \<and>
    pk_pack pk' = pk_pack pk + length bs"
proof -
  have "pk_pack pk + length bs \<le> length (pk_bits pk)" using assms by (simp add: pk_wf_def)
  then show ?thesis
    using assms by (auto simp: pack_range_def bv_assign_def appends_def packed_def pk_wf_def)
qed

text \<open>The pattern of every pack function: make room, then store.\<close>

lemma checked_store:
  assumes "pk_wf pk"
    and "\<And>pk1. pk_wf pk1 \<Longrightarrow> pk_pack pk1 + length bs \<le> pk_size pk1 \<Longrightarrow>
      \<exists>pk'. store pk1 = Some pk' \<and> appends bs pk1 pk'"
  shows "packs bs pk (Option.bind (m_check_size (length bs) pk) store)"
proof (cases "m_check_size (length bs) pk")
  case None
  with m_check_size_None [OF assms(1), of "length bs"] show ?thesis by (simp add: packs_def)
next
  case (Some pk1)
  note c = m_check_size_ok [OF assms(1) Some]
  obtain pk' where "store pk1 = Some pk'" "appends bs pk1 pk'"
    using assms(2) [OF appends_wf [OF c(1)]] c by auto
  moreover have "room (length bs) pk" using Some m_check_size_None [OF assms(1), of "length bs"] by simp
  ultimately show ?thesis using appends_trans [OF c(1)] Some by (simp add: packs_def)
qed

lemma pack_checked:
  "pk_wf pk \<Longrightarrow> packs bs pk (Option.bind (m_check_size (length bs) pk) (pack_range bs))"
  by (rule checked_store) (auto dest: pack_range_ok)

lemma pack_bit_loop_ok:
  assumes "pk_wf pk" "pk_pack pk + length bs \<le> pk_size pk"
  shows "\<exists>pk'. pack_bit_loop bs pk = Some pk' \<and> appends bs pk pk'"
  using assms
proof (induction bs arbitrary: pk)
  case Nil
  then show ?case by (simp add: appends_refl)
next
  case (Cons b bs)
  obtain pk1 where 1: "pack_range [b] pk = Some pk1" "appends [b] pk pk1"
      "pk_size pk1 = pk_size pk" "pk_pack pk1 = pk_pack pk + 1"
    using pack_range_ok [of pk "[b]"] Cons.prems by auto
  from Cons.IH [OF appends_wf [OF 1(2)]] 1 Cons.prems obtain pk' where
    "pack_bit_loop bs pk1 = Some pk'" "appends bs pk1 pk'" by auto
  with 1 appends_trans [OF 1(2)] show ?case by fastforce
qed

lemma pack_bits_checked:
  "pk_wf pk \<Longrightarrow> packs bs pk (Option.bind (m_check_size (length bs) pk) (pack_bit_loop bs))"
  by (rule checked_store) (auto dest: pack_bit_loop_ok)

subsection \<open>Reading\<close>

lemma length_pending: "pk_wf pk \<Longrightarrow> length (to_read pk) = pk_pack pk - pk_unpack pk"
  by (simp add: to_read_def length_packed)

lemma pending_room:
  assumes "pk_wf pk" "to_read pk = e @ rest" "e \<noteq> []"
  shows "pk_unpack pk + length e \<le> pk_pack pk"
    and "pk_unpack pk + length e \<le> length (pk_bits pk)"
    and "take (length e) (drop (pk_unpack pk) (pk_bits pk)) = e"
proof -
  have "length e \<le> pk_pack pk - pk_unpack pk" "0 < length e"
    using length_pending [OF assms(1)] assms(2,3) by simp_all
  then show *: "pk_unpack pk + length e \<le> pk_pack pk" by linarith
  then show "pk_unpack pk + length e \<le> length (pk_bits pk)"
    using assms(1) by (simp add: pk_wf_def)
  have "take (length e) (to_read pk) = e" using assms(2) by simp
  then show "take (length e) (drop (pk_unpack pk) (pk_bits pk)) = e"
    using * by (simp add: to_read_def packed_def drop_take min_def split: if_splits)
qed

lemma bv_range_slice:
  "0 < n \<Longrightarrow> u + n \<le> length bs \<Longrightarrow>
   bv_range bs (int u + int n - 1) (int u) = Some (take n (drop u bs))"
  by (auto simp: bv_range_def Suc_nat_eq_nat_zadd1)

lemma peek_bits_pending:
  assumes "pk_wf pk" "to_read pk = e @ rest" "e \<noteq> []"
  shows "peek_bits (length e) pk = Some e"
  using pending_room [OF assms] assms(3) by (simp add: peek_bits_def bv_range_slice)

lemma inc_consumes:
  assumes "pk_wf pk" "to_read pk = e @ rest" "e \<noteq> []"
  shows "consumes e pk (inc_unpack_index (length e) pk)"
  using pending_room(1) [OF assms] assms(1)
  by (simp add: inc_unpack_index_def consumes_def Let_def packed_def pk_wf_def)

lemma enough_pending:
  assumes "pk_wf pk" "to_read pk = e @ rest" "e \<noteq> []"
  shows "m_enough_bits (length e) pk = (True, pk)"
  using pending_room(1) [OF assms] by (simp add: m_enough_bits_def)

lemma put_elems_Cons: "put_elems put (x # xs) pk = Option.bind (put x pk) (put_elems put xs)"
  by (simp split: option.splits)

text \<open>Reading values of known shapes one after the other.\<close>

fun get_all ::
    "('s \<Rightarrow> packer \<Rightarrow> ('v \<times> packer) option) \<Rightarrow> 's list \<Rightarrow> packer \<Rightarrow> ('v list \<times> packer) option" where
  "get_all get [] pk = Some ([], pk)"
| "get_all get (s # ss) pk =
     (case get s pk of
        None \<Rightarrow> None
      | Some (x, pk1) \<Rightarrow> map_option (\<lambda>(xs, pk2). (x # xs, pk2)) (get_all get ss pk1))"

section \<open>Codecs\<close>

text \<open>
  The contract of a pair of operators \<open>operator<<\<close> and \<open>operator>>\<close>: packing a value appends its
  encoding, unless the sizes overflow, and unpacking from a buffer whose to_read bits start with the encoding returns the
  value and consumes the encoding, without an error. The encoding depends on \<open>big_endian\<close>; which
  values are supported depends on \<open>use_metadata\<close>. \<open>shape\<close> is what the reader must know.
\<close>

locale codec =
  fixes enc :: "bool \<Rightarrow> 'v \<Rightarrow> bool list"
    and ok :: "bool \<Rightarrow> 'v \<Rightarrow> bool"
    and shape :: "'v \<Rightarrow> 's"
    and put :: "'v \<Rightarrow> packer \<Rightarrow> packer option"
    and get :: "'s \<Rightarrow> packer \<Rightarrow> ('v \<times> packer) option"
  assumes put_law: "pk_wf pk \<Longrightarrow> ok (pk_meta pk) v \<Longrightarrow>
      packs (enc (pk_big pk) v) pk (put v pk)"
    and get_law: "pk_wf pk \<Longrightarrow> ok (pk_meta pk) v \<Longrightarrow> to_read pk = enc (pk_big pk) v @ rest \<Longrightarrow>
      \<exists>pk'. get (shape v) pk = Some (v, pk') \<and> consumes (enc (pk_big pk) v) pk pk'"
begin

lemma put_elems_law:
  "pk_wf pk \<Longrightarrow> \<forall>v \<in> set vs. ok (pk_meta pk) v \<Longrightarrow>
   packs (concat (map (enc (pk_big pk)) vs)) pk (put_elems put vs pk)"
proof (induction vs arbitrary: pk)
  case Nil
  then show ?case by (simp add: packs_Nil)
next
  case (Cons v vs)
  have "packs (enc (pk_big pk) v @ concat (map (enc (pk_big pk)) vs)) pk
      (Option.bind (put v pk) (put_elems put vs))"
  proof (rule packs_bind [OF Cons.prems(1)])
    show "packs (enc (pk_big pk) v) pk (put v pk)" using put_law Cons.prems by simp
    fix pk1 assume 1: "appends (enc (pk_big pk) v) pk pk1"
    then have "pk_meta pk1 = pk_meta pk" "pk_big pk1 = pk_big pk" by (simp_all add: appends_def)
    with Cons.IH [OF appends_wf [OF 1]] Cons.prems
    show "packs (concat (map (enc (pk_big pk)) vs)) pk1 (put_elems put vs pk1)" by simp
  qed
  then show ?case by (simp add: put_elems_Cons del: put_elems.simps)
qed

lemma get_all_law:
  assumes "pk_wf pk" "\<forall>v \<in> set vs. ok (pk_meta pk) v"
    and "to_read pk = concat (map (enc (pk_big pk)) vs) @ rest"
  shows "\<exists>pk'. get_all get (map shape vs) pk = Some (vs, pk') \<and>
    consumes (concat (map (enc (pk_big pk)) vs)) pk pk'"
  using assms
proof (induction vs arbitrary: pk)
  case Nil
  then show ?case by (simp add: consumes_refl)
next
  case (Cons v vs)
  obtain pk1 where 1: "get (shape v) pk = Some (v, pk1)" "consumes (enc (pk_big pk) v) pk pk1"
    using get_law [of pk v "concat (map (enc (pk_big pk)) vs) @ rest"] Cons.prems by auto
  have m: "pk_meta pk1 = pk_meta pk" "pk_big pk1 = pk_big pk"
    using 1(2) by (simp_all add: consumes_def)
  have "to_read pk1 = concat (map (enc (pk_big pk1)) vs) @ rest"
    using consumes_pending [OF 1(2)] Cons.prems(3) m by simp
  then obtain pk' where "get_all get (map shape vs) pk1 = Some (vs, pk')"
      "consumes (concat (map (enc (pk_big pk)) vs)) pk1 pk'"
    using Cons.IH [OF consumes_wf [OF 1(2)]] Cons.prems m by auto
  with 1 consumes_trans [OF 1(2)] show ?case by auto
qed

lemma get_all_elems: "get_all get (replicate n s) pk = get_elems (get s) n pk"
  by (induction n arbitrary: pk) (auto split: option.splits)

lemma get_elems_law:
  assumes "pk_wf pk" "\<forall>v \<in> set vs. ok (pk_meta pk) v \<and> shape v = s"
    and "to_read pk = concat (map (enc (pk_big pk)) vs) @ rest"
  shows "\<exists>pk'. get_elems (get s) (length vs) pk = Some (vs, pk') \<and>
    consumes (concat (map (enc (pk_big pk)) vs)) pk pk'"
proof -
  have "map shape vs = replicate (length vs) s"
    using assms(2) by (simp add: map_eq_conv flip: map_replicate_const)
  with get_all_law [OF assms(1) _ assms(3)] assms(2) show ?thesis
    by (simp add: get_all_elems)
qed

end

subsection \<open>The scalar types\<close>

definition bits_of :: "(nat \<Rightarrow> bool) \<Rightarrow> nat \<Rightarrow> bool list" where
  "bits_of v n = map v [0..<n]"

lemma length_swap_if [simp]: "length (swap_if b bs) = length bs"
  by (simp add: swap_if_def)

lemma swap_if_swap_if [simp]: "swap_if b (swap_if b bs) = bs"
  by (simp add: swap_if_def)

lemma swap_if_Nil [simp]: "swap_if b bs = [] \<longleftrightarrow> bs = []"
  by (simp add: swap_if_def)

lemma length_bits_of [simp]: "length (bits_of v n) = n"
  by (simp add: bits_of_def)

lemma tmp_bits:
  assumes "0 < n" "n \<le> 64"
  shows "take n (map (\<lambda>i. if big \<and> i < n then v (n - 1 - i) else v i) [0..<64]) =
    swap_if big (bits_of v n)"
  by (rule nth_equalityI) (use assms in \<open>auto simp: swap_if_def bits_of_def rev_nth\<close>)

lemma pack_value_ok:
  assumes "pk_wf pk" "0 < n" "n \<le> 64"
  shows "packs (swap_if (pk_big pk) (bits_of v n)) pk (pack_value v n pk)"
  using pack_checked [OF assms(1), of "swap_if (pk_big pk) (bits_of v n)"] assms(2,3)
  by (simp add: pack_value_def tmp_bits Let_def)

lemma inc_unpack_same [simp]:
  "pk_big (inc_unpack_index n pk) = pk_big pk" "pk_meta (inc_unpack_index n pk) = pk_meta pk"
  by (simp_all add: inc_unpack_index_def pk_error_def Let_def)

lemma unpack_value_ok:
  assumes "pk_wf pk" "0 < n" "n \<le> 64"
    and "to_read pk = swap_if (pk_big pk) (bits_of v n) @ rest"
  shows "\<exists>a pk'. unpack_value n pk = Some (a, pk') \<and> length a = 64 \<and>
    (\<forall>i < 64. a ! i \<longleftrightarrow> i < n \<and> v i) \<and>
    consumes (swap_if (pk_big pk) (bits_of v n)) pk pk'"
proof -
  let ?e = "swap_if (pk_big pk) (bits_of v n)"
  have ne: "?e \<noteq> []" and l: "length ?e = n" using assms(2) by (auto simp: bits_of_def)
  have p: "bv_range (pk_bits pk) (int (pk_unpack pk) + int n - 1) (int (pk_unpack pk)) = Some ?e"
    using peek_bits_pending [OF assms(1,4) ne] by (simp add: peek_bits_def l)
  have c: "consumes ?e pk (inc_unpack_index n pk)"
    using inc_consumes [OF assms(1,4) ne] by (simp only: l)
  have e: "m_enough_bits n pk = (True, pk)"
    using enough_pending [OF assms(1,4) ne] by (simp only: l)
  let ?r = "if pk_big pk then map (\<lambda>i. i < n \<and> fit 64 ?e ! (n - 1 - i)) [0..<64] else fit 64 ?e"
  have "unpack_value n pk = Some (?r, inc_unpack_index n pk)"
    using assms(3) by (simp add: unpack_value_def e p Let_def)
  moreover have "\<forall>i < 64. ?r ! i \<longleftrightarrow> i < n \<and> v i"
    using assms(2,3) by (auto simp: nth_fit swap_if_def rev_nth bits_of_def)
  ultimately show ?thesis using c by auto
qed

text \<open>A value for \<open>n\<close> bits: between 1 and 64 of them, and no bit above.\<close>

definition field_ok :: "nat \<times> 'a::len word \<Rightarrow> bool" where
  "field_ok p \<longleftrightarrow> 0 < fst p \<and> fst p \<le> 64 \<and> (\<forall>i < LENGTH('a). bit (snd p) i \<longrightarrow> i < fst p)"

definition enc_field :: "bool \<Rightarrow> nat \<times> 'a::len word \<Rightarrow> bool list" where
  "enc_field big p = swap_if big (bits_of (bit (snd p)) (fst p))"

definition tagged :: "nat \<Rightarrow> ('v \<times> packer) option \<Rightarrow> ((nat \<times> 'v) \<times> packer) option" where
  "tagged n r = map_option (\<lambda>(v, pk). ((n, v), pk)) r"

lemma to_word_bits:
  assumes "length a = 64" "\<forall>i < 64. a ! i \<longleftrightarrow> i < n \<and> bit w i"
    and "\<forall>i < LENGTH('a). bit w i \<longrightarrow> i < n" "n \<le> 64"
  shows "to_word a = (w :: 'a::len word)"
proof (rule bit_word_eqI)
  fix i assume "i < LENGTH('a)"
  then show "bit (to_word a :: 'a word) i \<longleftrightarrow> bit w i"
    using assms by (cases "i < 64") (auto simp: bit_to_word)
qed

lemma unpack_value_word:
  fixes p :: "nat \<times> 'a::len word"
  assumes "pk_wf pk" "field_ok p" "to_read pk = enc_field (pk_big pk) p @ rest"
  shows "\<exists>a pk'. unpack_value (fst p) pk = Some (a, pk') \<and> to_word a = snd p \<and>
    consumes (enc_field (pk_big pk) p) pk pk'"
proof -
  have n: "0 < fst p" "fst p \<le> 64" and w: "\<forall>i < LENGTH('a). bit (snd p) i \<longrightarrow> i < fst p"
    using assms(2) by (simp_all add: field_ok_def)
  obtain a pk' where *: "unpack_value (fst p) pk = Some (a, pk')" "length a = 64"
      "\<forall>i < 64. a ! i \<longleftrightarrow> i < fst p \<and> bit (snd p) i" "consumes (enc_field (pk_big pk) p) pk pk'"
    using unpack_value_ok [OF assms(1) n assms(3) [unfolded enc_field_def]] unfolding enc_field_def
    by metis
  with to_word_bits [OF *(2,3) w n(2)] show ?thesis by auto
qed

interpretation field_codec: codec enc_field "\<lambda>_. field_ok" fst
  "\<lambda>(n, v). pack_field_int v n" "\<lambda>n pk. tagged n (unpack_field_int n pk)"
proof
  fix pk :: packer and p :: "nat \<times> 64 word" and rest
  assume wf: "pk_wf pk" and ok: "field_ok p"
  then show "packs (enc_field (pk_big pk) p) pk ((case p of (n, v) \<Rightarrow> pack_field_int v n) pk)"
    using pack_value_ok [of pk "fst p" "bit (snd p)"]
    by (cases p) (auto simp: field_ok_def enc_field_def pack_field_int_def)
  assume "to_read pk = enc_field (pk_big pk) p @ rest"
  from unpack_value_word [OF wf ok this]
  show "\<exists>pk'. tagged (fst p) (unpack_field_int (fst p) pk) = Some (p, pk') \<and>
      consumes (enc_field (pk_big pk) p) pk pk'"
    by (auto simp: tagged_def unpack_field_int_def)
qed

interpretation stream_codec: codec enc_field "\<lambda>_. field_ok" fst
  "\<lambda>(n, v). pack_field v n" "\<lambda>n pk. tagged n (unpack_field n pk)"
proof
  fix pk :: packer and p :: "nat \<times> 4096 word" and rest
  assume wf: "pk_wf pk" and ok: "field_ok p"
  then show "packs (enc_field (pk_big pk) p) pk ((case p of (n, v) \<Rightarrow> pack_field v n) pk)"
    using pack_value_ok [of pk "fst p" "bit (snd p)"]
    by (cases p) (auto simp: field_ok_def enc_field_def pack_field_def)
  assume "to_read pk = enc_field (pk_big pk) p @ rest"
  from unpack_value_word [OF wf ok this]
  show "\<exists>pk'. tagged (fst p) (unpack_field (fst p) pk) = Some (p, pk') \<and>
      consumes (enc_field (pk_big pk) p) pk pk'"
    by (auto simp: tagged_def unpack_field_def)
qed

text \<open>The integer types: all bits of the type.\<close>

definition enc_int :: "bool \<Rightarrow> 'a::len word \<Rightarrow> bool list" where
  "enc_int big w = swap_if big (of_word w)"

lemma field_of_int:
  assumes "LENGTH('a) \<le> 64"
  shows "field_ok (LENGTH('a), ucast (w :: 'a::len word) :: 64 word)"
    and "enc_field big (LENGTH('a), ucast w :: 64 word) = enc_int big w"
    and "ucast (ucast w :: 64 word) = w"
proof -
  show "field_ok (LENGTH('a), ucast w :: 64 word)"
    using assms by (auto simp: field_ok_def bit_simps dest: bit_imp_le_length)
  have "bits_of (bit (ucast w :: 64 word)) LENGTH('a) = of_word w"
    by (rule nth_equalityI) (use assms in \<open>auto simp: bits_of_def bit_simps\<close>)
  then show "enc_field big (LENGTH('a), ucast w :: 64 word) = enc_int big w"
    by (simp add: enc_field_def enc_int_def)
  show "ucast (ucast w :: 64 word) = w"
    by (rule bit_word_eqI) (use assms in \<open>auto simp: bit_simps\<close>)
qed

interpretation int_codec: codec "enc_int :: bool \<Rightarrow> 'a::len word \<Rightarrow> bool list"
  "\<lambda>_ _. LENGTH('a) \<le> 64" "\<lambda>_. ()" put_integer "\<lambda>_. get_integer"
proof
  fix pk :: packer and w :: "'a word" and rest
  assume wf: "pk_wf pk" and le: "LENGTH('a) \<le> 64"
  show "packs (enc_int (pk_big pk) w) pk (put_integer w pk)"
    using field_codec.put_law [OF wf field_of_int(1) [OF le, of w]]
    by (simp add: put_integer_def field_of_int(2) [OF le])
  assume "to_read pk = enc_int (pk_big pk) w @ rest"
  then have "to_read pk = enc_field (pk_big pk) (LENGTH('a), ucast w :: 64 word) @ rest"
    by (simp add: field_of_int(2) [OF le])
  from field_codec.get_law [OF wf field_of_int(1) [OF le, of w] this]
  show "\<exists>pk'. get_integer pk = Some (w, pk') \<and> consumes (enc_int (pk_big pk) w) pk pk'"
    by (auto simp: tagged_def get_integer_def field_of_int(2,3) [OF le])
qed

interpretation bool_codec: codec "\<lambda>_ b. [b]" "\<lambda>_ _. True" "\<lambda>_. ()" pack_bool "\<lambda>_. unpack_bool"
proof
  fix pk b and rest :: "bool list" assume wf: "pk_wf pk"
  show "packs [b] pk (pack_bool b pk)"
    using pack_checked [OF wf, of "[b]"] by (simp add: pack_bool_def)
  assume p: "to_read pk = [b] @ rest"
  note r = pending_room [OF wf p]
  have "pk_unpack pk < length (pk_bits pk)" using r(2) by simp
  moreover from this r(3) have "pk_bits pk ! pk_unpack pk = b"
    by (simp add: take_Suc_conv_app_nth hd_drop_conv_nth take_Suc)
  ultimately show "\<exists>pk'. unpack_bool pk = Some (b, pk') \<and> consumes [b] pk pk'"
    using inc_consumes [OF wf p] by (simp add: unpack_bool_def)
qed

interpretation bv_codec: codec "\<lambda>_ bs. bs" "\<lambda>_ bs. bs \<noteq> []" length
  pack_sc_bv_base unpack_sc_bv_base
proof
  fix pk and bs rest :: "bool list" assume wf: "pk_wf pk" and ne: "bs \<noteq> []"
  show "packs bs pk (pack_sc_bv_base bs pk)"
    using pack_checked [OF wf, of bs] ne by (simp add: pack_sc_bv_base_def)
  assume p: "to_read pk = bs @ rest"
  show "\<exists>pk'. unpack_sc_bv_base (length bs) pk = Some (bs, pk') \<and> consumes bs pk pk'"
    using inc_consumes [OF wf p ne] ne by (simp add: unpack_sc_bv_base_def peek_bits_pending [OF wf p ne])
qed

lemma unpack_bit_loop_ok:
  assumes "pk_wf pk" "to_read pk = bs @ rest"
  shows "\<exists>pk'. unpack_bit_loop (length bs) acc pk = Some (acc @ bs, pk') \<and> consumes bs pk pk'"
  using assms
proof (induction bs arbitrary: acc pk)
  case Nil
  then show ?case by (simp add: consumes_refl)
next
  case (Cons b bs)
  have p: "to_read pk = [b] @ (bs @ rest)" using Cons.prems(2) by simp
  note r = pending_room [OF Cons.prems(1) p]
  let ?pk = "pk\<lparr>pk_unpack := pk_unpack pk + 1\<rparr>"
  have lt: "pk_unpack pk < length (pk_bits pk)" using r(2) by simp
  with r(3) have b: "pk_bits pk ! pk_unpack pk = b"
    by (simp add: hd_drop_conv_nth take_Suc)
  have c: "consumes [b] pk ?pk"
    using Cons.prems(1) by (simp add: consumes_def packed_def pk_wf_def)
  obtain pk' where "unpack_bit_loop (length bs) (acc @ [b]) ?pk = Some ((acc @ [b]) @ bs, pk')"
      "consumes bs ?pk pk'"
    using Cons.IH [OF consumes_wf [OF c] consumes_pending [OF c p], of "acc @ [b]"] by blast
  with consumes_trans [OF c] show ?case by (auto simp: lt b)
qed

text \<open>The four SystemC integer types share their loop.\<close>

interpretation sc_int_codec: codec "\<lambda>_ bs. bs" "\<lambda>_ _. True" length
  pack_sc_int_base unpack_sc_int_base
  by unfold_locales
    (simp_all add: pack_sc_int_base_def unpack_sc_int_base_def pack_bits_checked
      unpack_bit_loop_ok [where acc = "[]", simplified])

interpretation sc_uint_codec: codec "\<lambda>_ bs. bs" "\<lambda>_ _. True" length
  pack_sc_uint_base unpack_sc_uint_base
  by unfold_locales
    (simp_all add: pack_sc_uint_base_def unpack_sc_uint_base_def pack_bits_checked
      unpack_bit_loop_ok [where acc = "[]", simplified])

interpretation sc_signed_codec: codec "\<lambda>_ bs. bs" "\<lambda>_ _. True" length
  pack_sc_signed unpack_sc_signed
  by unfold_locales
    (simp_all add: pack_sc_signed_def unpack_sc_signed_def pack_bits_checked
      unpack_bit_loop_ok [where acc = "[]", simplified])

interpretation sc_unsigned_codec: codec "\<lambda>_ bs. bs" "\<lambda>_ _. True" length
  pack_sc_unsigned unpack_sc_unsigned
  by unfold_locales
    (simp_all add: pack_sc_unsigned_def unpack_sc_unsigned_def pack_bits_checked
      unpack_bit_loop_ok [where acc = "[]", simplified])

interpretation char_codec: codec "enc_int :: bool \<Rightarrow> 8 word \<Rightarrow> bool list" "\<lambda>_ _. True" "\<lambda>_. ()"
  pack_char "\<lambda>_. unpack_char"
proof
  fix pk :: packer and c :: "8 word" and rest assume wf: "pk_wf pk"
  have ne: "enc_int (pk_big pk) c \<noteq> []" and l: "length (enc_int (pk_big pk) c) = 8"
    by (auto simp: enc_int_def of_word_def)
  show "packs (enc_int (pk_big pk) c) pk (pack_char c pk)"
    using pack_checked [OF wf, of "enc_int (pk_big pk) c"] l by (simp add: pack_char_def enc_int_def)
  assume p: "to_read pk = enc_int (pk_big pk) c @ rest"
  show "\<exists>pk'. unpack_char pk = Some (c, pk') \<and> consumes (enc_int (pk_big pk) c) pk pk'"
    using peek_bits_pending [OF wf p ne] inc_consumes [OF wf p ne] l
    by (simp add: unpack_char_def) (simp add: enc_int_def)
qed

subsection \<open>Strings\<close>

text \<open>With \<open>use_metadata\<close> a string is followed by a null character; the characters are not null.\<close>

definition enc_string :: "bool \<Rightarrow> 8 word list \<Rightarrow> bool list" where
  "enc_string big s = concat (map (enc_int big) s) @ enc_int big (0 :: 8 word)"

lemma pack_chars_elems: "pack_chars s pk = put_elems pack_char s pk"
  by (induction s arbitrary: pk) (auto split: option.splits)

lemma enc_char_facts [simp]:
  "length (enc_int big (c :: 8 word)) = 8" "enc_int big c \<noteq> []"
  "to_word (swap_if big (enc_int big c)) = c"
proof -
  show l: "length (enc_int big c) = 8" by (simp add: enc_int_def)
  then show "enc_int big c \<noteq> []" by auto
  show "to_word (swap_if big (enc_int big c)) = c" by (simp add: enc_int_def)
qed

lemma enc_char_zero: "list_ex id (enc_int big (c :: 8 word)) \<longleftrightarrow> c \<noteq> 0"
proof -
  have "list_ex id (enc_int big c) \<longleftrightarrow> (\<exists>i < 8. bit c i)"
    by (auto simp: list_ex_iff enc_int_def swap_if_def of_word_def)
  also have "\<dots> \<longleftrightarrow> c \<noteq> 0"
    by (auto simp: bit_eq_iff dest: bit_imp_le_length)
  finally show ?thesis .
qed

lemma unpack_chars_ok:
  assumes "pk_wf pk" "0 \<notin> set s" "length s < fuel"
    and "to_read pk = concat (map (enc_int (pk_big pk)) s) @ enc_int (pk_big pk) (0 :: 8 word) @ rest"
  shows "\<exists>pk'. unpack_chars fuel None acc pk = Some (acc @ s, pk') \<and>
    consumes (concat (map (enc_int (pk_big pk)) s)) pk pk'"
  using assms
proof (induction s arbitrary: acc pk fuel)
  case Nil
  then obtain f where f: "fuel = Suc f" by (cases fuel) auto
  have p: "to_read pk = enc_int (pk_big pk) (0 :: 8 word) @ rest" using Nil.prems(4) by simp
  show ?case
    using enough_pending [OF Nil.prems(1) p] peek_bits_pending [OF Nil.prems(1) p] Nil.prems(1)
    by (simp add: f enc_char_zero consumes_refl)
next
  case (Cons c s)
  then obtain f where f: "fuel = Suc f" by (cases fuel) auto
  let ?t = "concat (map (enc_int (pk_big pk)) s) @ enc_int (pk_big pk) (0 :: 8 word) @ rest"
  have p: "to_read pk = enc_int (pk_big pk) c @ ?t" using Cons.prems(4) by simp
  let ?pk = "inc_unpack_index 8 pk"
  have c: "consumes (enc_int (pk_big pk) c) pk ?pk"
    using inc_consumes [OF Cons.prems(1) p] by simp
  have b: "pk_big ?pk = pk_big pk" by simp
  obtain pk' where "unpack_chars f None (acc @ [c]) ?pk = Some ((acc @ [c]) @ s, pk')"
      "consumes (concat (map (enc_int (pk_big pk)) s)) ?pk pk'"
    using Cons.IH [OF consumes_wf [OF c], of f "acc @ [c]"] consumes_pending [OF c p] Cons.prems(2,3)
    by (auto simp: f b)
  with consumes_trans [OF c] show ?case
    using enough_pending [OF Cons.prems(1) p] peek_bits_pending [OF Cons.prems(1) p] Cons.prems(2)
    by (auto simp: f enc_char_zero)
qed

lemma length_concat_enc: "length (concat (map (enc_int big) (s :: 8 word list))) = 8 * length s"
  by (induction s) simp_all

lemma pack_char_meta: "pack_char c pk = Some pk' \<Longrightarrow> pk_meta pk' = pk_meta pk"
  by (auto simp: pack_char_def pack_range_def m_check_size_def m_allocate_same bind_eq_Some_conv
      split: if_splits)

lemma pack_chars_meta: "pack_chars s pk = Some pk' \<Longrightarrow> pk_meta pk' = pk_meta pk"
  by (induction s arbitrary: pk) (auto split: option.splits dest: pack_char_meta)

lemma pack_string_bind:
  "pack_string s pk =
     (if pk_meta pk then Option.bind (pack_chars s pk) (pack_char 0) else pack_chars s pk)"
  by (auto simp: pack_string_def pack_chars_meta split: option.splits)

interpretation string_codec: codec enc_string "\<lambda>meta s. meta \<and> 0 \<notin> set s" "\<lambda>_. ()"
  pack_string "\<lambda>_. unpack_string None"
proof
  fix pk s rest assume wf: "pk_wf pk" and ok: "pk_meta pk \<and> 0 \<notin> set (s :: 8 word list)"
  have "packs (enc_string (pk_big pk) s) pk (Option.bind (pack_chars s pk) (pack_char 0))"
    unfolding enc_string_def
  proof (rule packs_bind [OF wf])
    show "packs (concat (map (enc_int (pk_big pk)) s)) pk (pack_chars s pk)"
      using char_codec.put_elems_law [OF wf, of s] by (simp add: pack_chars_elems)
    fix pk1 assume 1: "appends (concat (map (enc_int (pk_big pk)) s)) pk pk1"
    then show "packs (enc_int (pk_big pk) (0 :: 8 word)) pk1 (pack_char 0 pk1)"
      using char_codec.put_law [OF appends_wf [OF 1], of 0] by (simp add: appends_def)
  qed
  then show "packs (enc_string (pk_big pk) s) pk (pack_string s pk)"
    using conjunct1 [OF ok] pack_chars_meta by (simp add: pack_string_bind)
  assume p: "to_read pk = enc_string (pk_big pk) s @ rest"
  have "length s < pk_pack pk + 1"
    using arg_cong [OF p, of length] length_pending [OF wf]
    by (simp add: enc_string_def length_concat_enc)
  moreover have "to_read pk = concat (map (enc_int (pk_big pk)) s) @
      enc_int (pk_big pk) (0 :: 8 word) @ rest"
    using p by (simp add: enc_string_def)
  ultimately obtain pk2 where 2: "unpack_chars (pk_pack pk + 1) None [] pk = Some (s, pk2)"
      "consumes (concat (map (enc_int (pk_big pk)) s)) pk pk2"
    using unpack_chars_ok [OF wf conjunct2 [OF ok], where acc = "[]"] by (metis append_Nil)
  have n: "pk_meta pk2" "pk_big pk2 = pk_big pk" using 2(2) ok by (simp_all add: consumes_def)
  have q: "to_read pk2 = enc_int (pk_big pk) (0 :: 8 word) @ rest"
    using consumes_pending [OF 2(2)] p by (simp add: enc_string_def)
  note w = consumes_wf [OF 2(2)]
  have "consumes (enc_int (pk_big pk) (0 :: 8 word)) pk2 (inc_unpack_index 8 pk2)"
    using inc_consumes [OF w q] by simp
  with consumes_trans [OF 2(2), of "enc_int (pk_big pk) (0 :: 8 word)"] enough_pending [OF w q] n
  show "\<exists>pk'. unpack_string None pk = Some (s, pk') \<and> consumes (enc_string (pk_big pk) s) pk pk'"
    using 2(1) by (simp add: unpack_string_def enc_string_def del: unpack_chars.simps)
qed

subsection \<open>Vectors\<close>

text \<open>A vector is its length as an \<open>int\<close>, then its elements; all elements have one shape.\<close>

definition enc_vector :: "(bool \<Rightarrow> 'v \<Rightarrow> bool list) \<Rightarrow> bool \<Rightarrow> 'v list \<Rightarrow> bool list" where
  "enc_vector enc big vs = enc_int big (of_nat (length vs) :: 32 word) @ concat (map (enc big) vs)"

lemma put_vector_bind: "put_vector put xs pk =
   Option.bind (put_integer (of_nat (length xs) :: 32 word) pk) (put_elems put xs)"
  by (simp add: put_vector_def split: option.splits)

lemma sint_length: "n < 2 ^ 31 \<Longrightarrow> nat (sint (of_nat n :: 32 word)) = n"
  using signed_take_bit_int_eq_self [of 31 "int n"] sint_sbintrunc' [of "int n", where 'a = 32]
  by simp

context codec
begin

lemma vector_codec:
  "codec (enc_vector enc) (\<lambda>meta vs. length vs < 2 ^ 31 \<and> (\<forall>v \<in> set vs. ok meta v \<and> shape v = s))
     (\<lambda>_. s) (put_vector put) (\<lambda>s. get_vector (get s))"
proof
  fix pk vs rest
  assume wf: "pk_wf pk"
    and ok: "length vs < 2 ^ 31 \<and> (\<forall>v \<in> set vs. ok (pk_meta pk) v \<and> shape v = s)"
  let ?n = "of_nat (length vs) :: 32 word"
  let ?big = "pk_big pk"
  have "packs (enc_vector enc ?big vs) pk (Option.bind (put_integer ?n pk) (put_elems put vs))"
    unfolding enc_vector_def
  proof (rule packs_bind [OF wf])
    show "packs (enc_int ?big ?n) pk (put_integer ?n pk)" using int_codec.put_law [OF wf, of ?n] by simp
    fix pk1 assume 1: "appends (enc_int ?big ?n) pk pk1"
    then have "pk_meta pk1 = pk_meta pk" "pk_big pk1 = ?big" by (simp_all add: appends_def)
    with put_elems_law [OF appends_wf [OF 1], of vs] ok
    show "packs (concat (map (enc ?big) vs)) pk1 (put_elems put vs pk1)" by simp
  qed
  then show "packs (enc_vector enc ?big vs) pk (put_vector put vs pk)"
    by (simp add: put_vector_bind)
  assume p: "to_read pk = enc_vector enc ?big vs @ rest"
  let ?t = "concat (map (enc ?big) vs) @ rest"
  have "to_read pk = enc_int ?big ?n @ ?t" using p by (simp add: enc_vector_def)
  then obtain pk2 where 2: "get_integer pk = Some (?n, pk2)" "consumes (enc_int ?big ?n) pk pk2"
    and q: "to_read pk2 = ?t"
    using int_codec.get_law [OF wf, of ?n] consumes_pending by fastforce
  have m2: "pk_meta pk2 = pk_meta pk" "pk_big pk2 = ?big" using 2(2) by (simp_all add: consumes_def)
  obtain pk3 where "get_elems (get s) (length vs) pk2 = Some (vs, pk3)"
      "consumes (concat (map (enc ?big) vs)) pk2 pk3"
    using get_elems_law [OF consumes_wf [OF 2(2)], of vs s rest] ok m2 q by auto
  with consumes_trans [OF 2(2)] ok
  show "\<exists>pk'. get_vector (get s) pk = Some (vs, pk') \<and> consumes (enc_vector enc ?big vs) pk pk'"
    by (simp add: get_vector_def 2(1) enc_vector_def sint_length)
qed

end

interpretation ints_codec: codec "enc_vector (enc_int :: bool \<Rightarrow> 'a::len word \<Rightarrow> bool list)"
  "\<lambda>_ vs. length vs < 2 ^ 31 \<and> (\<forall>v \<in> set vs. LENGTH('a) \<le> 64 \<and> () = ())" "\<lambda>_. ()"
  "put_vector put_integer" "\<lambda>_. get_vector get_integer"
  by (rule int_codec.vector_codec)

interpretation bools_codec: codec "enc_vector (\<lambda>_ b. [b])"
  "\<lambda>_ vs. length vs < 2 ^ 31 \<and> (\<forall>v \<in> set vs. True \<and> () = ())" "\<lambda>_. ()"
  "put_vector pack_bool" "\<lambda>_. get_vector unpack_bool"
  by (rule bool_codec.vector_codec)

interpretation strings_codec: codec "enc_vector enc_string"
  "\<lambda>meta vs. length vs < 2 ^ 31 \<and> (\<forall>v \<in> set vs. (meta \<and> 0 \<notin> set v) \<and> () = ())" "\<lambda>_. ()"
  "put_vector pack_string" "\<lambda>_. get_vector (unpack_string None)"
  by (rule string_codec.vector_codec)

section \<open>Streams of items\<close>

text \<open>
  What a \<open>do_pack\<close> function sends with the operators: a value of each supported type. The
  integer types of C++ are items \<open>I_field\<close> of their width.
\<close>

datatype item =
    I_bool bool
  | I_field nat "64 word"
  | I_stream nat "4096 word"
  | I_string "8 word list"
  | I_bv "bool list"
  | I_sc_int "bool list"
  | I_sc_uint "bool list"
  | I_sc_signed "bool list"
  | I_sc_unsigned "bool list"
  | I_bools "bool list"
  | I_ints "32 word list"
  | I_strings "8 word list list"

datatype item_kind =
    K_bool | K_field nat | K_stream nat | K_string | K_bv nat
  | K_sc_int nat | K_sc_uint nat | K_sc_signed nat | K_sc_unsigned nat
  | K_bools | K_ints | K_strings

fun kind_of :: "item \<Rightarrow> item_kind" where
  "kind_of (I_bool b) = K_bool"
| "kind_of (I_field n v) = K_field n"
| "kind_of (I_stream n v) = K_stream n"
| "kind_of (I_string s) = K_string"
| "kind_of (I_bv bs) = K_bv (length bs)"
| "kind_of (I_sc_int bs) = K_sc_int (length bs)"
| "kind_of (I_sc_uint bs) = K_sc_uint (length bs)"
| "kind_of (I_sc_signed bs) = K_sc_signed (length bs)"
| "kind_of (I_sc_unsigned bs) = K_sc_unsigned (length bs)"
| "kind_of (I_bools bs) = K_bools"
| "kind_of (I_ints ws) = K_ints"
| "kind_of (I_strings ss) = K_strings"

fun put_item :: "item \<Rightarrow> packer \<Rightarrow> packer option" where
  "put_item (I_bool b) pk = pack_bool b pk"
| "put_item (I_field n v) pk = pack_field_int v n pk"
| "put_item (I_stream n v) pk = pack_field v n pk"
| "put_item (I_string s) pk = pack_string s pk"
| "put_item (I_bv bs) pk = pack_sc_bv_base bs pk"
| "put_item (I_sc_int bs) pk = pack_sc_int_base bs pk"
| "put_item (I_sc_uint bs) pk = pack_sc_uint_base bs pk"
| "put_item (I_sc_signed bs) pk = pack_sc_signed bs pk"
| "put_item (I_sc_unsigned bs) pk = pack_sc_unsigned bs pk"
| "put_item (I_bools bs) pk = put_vector pack_bool bs pk"
| "put_item (I_ints ws) pk = put_vector put_integer ws pk"
| "put_item (I_strings ss) pk = put_vector pack_string ss pk"

definition as_item :: "('v \<Rightarrow> item) \<Rightarrow> ('v \<times> packer) option \<Rightarrow> (item \<times> packer) option" where
  "as_item c r = map_option (\<lambda>(v, pk). (c v, pk)) r"

fun get_item :: "item_kind \<Rightarrow> packer \<Rightarrow> (item \<times> packer) option" where
  "get_item K_bool pk = as_item I_bool (unpack_bool pk)"
| "get_item (K_field n) pk = as_item (I_field n) (unpack_field_int n pk)"
| "get_item (K_stream n) pk = as_item (I_stream n) (unpack_field n pk)"
| "get_item K_string pk = as_item I_string (unpack_string None pk)"
| "get_item (K_bv n) pk = as_item I_bv (unpack_sc_bv_base n pk)"
| "get_item (K_sc_int n) pk = as_item I_sc_int (unpack_sc_int_base n pk)"
| "get_item (K_sc_uint n) pk = as_item I_sc_uint (unpack_sc_uint_base n pk)"
| "get_item (K_sc_signed n) pk = as_item I_sc_signed (unpack_sc_signed n pk)"
| "get_item (K_sc_unsigned n) pk = as_item I_sc_unsigned (unpack_sc_unsigned n pk)"
| "get_item K_bools pk = as_item I_bools (get_vector unpack_bool pk)"
| "get_item K_ints pk = as_item I_ints (get_vector get_integer pk)"
| "get_item K_strings pk = as_item I_strings (get_vector (unpack_string None) pk)"

definition put_items :: "item list \<Rightarrow> packer \<Rightarrow> packer option" where
  "put_items = put_elems put_item"

definition get_items :: "item_kind list \<Rightarrow> packer \<Rightarrow> (item list \<times> packer) option" where
  "get_items = get_all get_item"

text \<open>
  The items that survive a round trip: fields of 1 to 64 bits whose value has no bit above, at
  least one bit in a bit vector, vectors of less than \<open>2 ^ 31\<close> elements, and strings without a
  null character, packed with \<open>use_metadata\<close>.
\<close>

fun item_ok :: "bool \<Rightarrow> item \<Rightarrow> bool" where
  "item_ok meta (I_field n v) = field_ok (n, v)"
| "item_ok meta (I_stream n v) = field_ok (n, v)"
| "item_ok meta (I_string s) = (meta \<and> 0 \<notin> set s)"
| "item_ok meta (I_bv bs) = (bs \<noteq> [])"
| "item_ok meta (I_bools bs) = (length bs < 2 ^ 31)"
| "item_ok meta (I_ints ws) = (length ws < 2 ^ 31)"
| "item_ok meta (I_strings ss) = (length ss < 2 ^ 31 \<and> (\<forall>s \<in> set ss. meta \<and> 0 \<notin> set s))"
| "item_ok meta _ = True"

fun enc_item :: "bool \<Rightarrow> item \<Rightarrow> bool list" where
  "enc_item big (I_bool b) = [b]"
| "enc_item big (I_field n v) = enc_field big (n, v)"
| "enc_item big (I_stream n v) = enc_field big (n, v)"
| "enc_item big (I_string s) = enc_string big s"
| "enc_item big (I_bv bs) = bs"
| "enc_item big (I_sc_int bs) = bs"
| "enc_item big (I_sc_uint bs) = bs"
| "enc_item big (I_sc_signed bs) = bs"
| "enc_item big (I_sc_unsigned bs) = bs"
| "enc_item big (I_bools bs) = enc_vector (\<lambda>_ b. [b]) big bs"
| "enc_item big (I_ints ws) = enc_vector enc_int big ws"
| "enc_item big (I_strings ss) = enc_vector enc_string big ss"

lemma as_item_intro: "\<exists>pk'. r = Some (v, pk') \<and> P pk' \<Longrightarrow> \<exists>pk'. as_item c r = Some (c v, pk') \<and> P pk'"
  by (auto simp: as_item_def)

lemma as_item_tagged: "\<exists>pk'. tagged n r = Some ((n, v), pk') \<and> P pk' \<Longrightarrow>
   \<exists>pk'. as_item (I n) r = Some (I n v, pk') \<and> P pk'"
  by (auto simp: as_item_def tagged_def)

interpretation item_codec: codec enc_item item_ok kind_of put_item get_item
proof
  fix pk v rest assume wf: "pk_wf pk" and ok: "item_ok (pk_meta pk) v"
  note f = field_codec.put_law [OF wf, of "(n, w)" for n w, simplified]
    stream_codec.put_law [OF wf, of "(n, w)" for n w, simplified]
  show "packs (enc_item (pk_big pk) v) pk (put_item v pk)"
    using ok by (cases v) (simp_all add: f bool_codec.put_law [OF wf] string_codec.put_law [OF wf]
        bv_codec.put_law [OF wf] sc_int_codec.put_law [OF wf] sc_uint_codec.put_law [OF wf]
        sc_signed_codec.put_law [OF wf] sc_unsigned_codec.put_law [OF wf]
        bools_codec.put_law [OF wf] ints_codec.put_law [OF wf] strings_codec.put_law [OF wf])
  assume p: "to_read pk = enc_item (pk_big pk) v @ rest"
  show "\<exists>pk'. get_item (kind_of v) pk = Some (v, pk') \<and> consumes (enc_item (pk_big pk) v) pk pk'"
  proof (cases v)
    case (I_field n w)
    then show ?thesis
      using field_codec.get_law [OF wf, of "(n, w)" rest] ok p as_item_tagged [of _ _ _ _ I_field]
      by simp
  next
    case (I_stream n w)
    then show ?thesis
      using stream_codec.get_law [OF wf, of "(n, w)" rest] ok p as_item_tagged [of _ _ _ _ I_stream]
      by simp
  qed (use ok p in \<open>simp_all add: as_item_intro bool_codec.get_law [OF wf]
        string_codec.get_law [OF wf] bv_codec.get_law [OF wf] sc_int_codec.get_law [OF wf]
        sc_uint_codec.get_law [OF wf] sc_signed_codec.get_law [OF wf]
        sc_unsigned_codec.get_law [OF wf] bools_codec.get_law [OF wf]
        ints_codec.get_law [OF wf] strings_codec.get_law [OF wf]\<close>)
qed

text \<open>Round trip in one packer, from any state of the buffer.\<close>

definition enc_items :: "bool \<Rightarrow> item list \<Rightarrow> bool list" where
  "enc_items big its = concat (map (enc_item big) its)"

lemma put_items_packs:
  assumes "pk_wf pk" "\<forall>v \<in> set its. item_ok (pk_meta pk) v"
  shows "packs (enc_items (pk_big pk) its) (pk_reset pk) (put_items its (pk_reset pk))"
  using item_codec.put_elems_law [OF pk_reset_wf [OF assms(1)], of its] assms(2)
  by (simp add: put_items_def enc_items_def pk_reset_def)

lemma put_items_fits:
  assumes "pk_wf pk" "\<forall>v \<in> set its. item_ok (pk_meta pk) v"
    and "length (enc_items (pk_big pk) its) \<le> max_bits"
  shows "\<exists>pk1. put_items its (pk_reset pk) = Some pk1 \<and>
    appends (enc_items (pk_big pk) its) (pk_reset pk) pk1"
  by (rule packs_room [OF put_items_packs [OF assms(1,2)]])
    (use assms(3) in \<open>simp add: room_def pk_reset_def\<close>)

lemma put_items_overflow:
  assumes "pk_wf pk" "\<forall>v \<in> set its. item_ok (pk_meta pk) v"
    and "\<not> length (enc_items (pk_big pk) its) \<le> max_bits"
  shows "put_items its (pk_reset pk) = None"
  by (rule packs_full [OF put_items_packs [OF assms(1,2)]])
    (use assms(3) in \<open>simp add: room_def pk_reset_def\<close>)

lemma appended_items:
  assumes "pk_wf pk" "appends bs (pk_reset pk) pk1"
  shows "packed pk1 = bs" "pk_wf pk1" "pk_meta pk1 = pk_meta pk" "pk_big pk1 = pk_big pk"
    "pk_errs pk1 = pk_errs pk" "pk_unpack pk1 = 0"
  using assms by (simp_all add: appends_def pk_reset_def packed_def)

lemma items_roundtrip:
  assumes "pk_wf pk" "\<forall>v \<in> set its. item_ok (pk_meta pk) v"
    and "length (enc_items (pk_big pk) its) \<le> max_bits"
  shows "\<exists>pk1 pk2. put_items its (pk_reset pk) = Some pk1 \<and>
    get_items (map kind_of its) pk1 = Some (its, pk2) \<and>
    packed pk1 = enc_items (pk_big pk) its \<and>
    pk_unpack pk2 = pk_pack pk2 \<and> pk_errs pk2 = pk_errs pk"
proof -
  let ?e = "enc_items (pk_big pk) its"
  obtain pk1 where 1: "put_items its (pk_reset pk) = Some pk1" "appends ?e (pk_reset pk) pk1"
    using put_items_fits [OF assms] by blast
  note f = appended_items [OF assms(1) 1(2)]
  have p: "to_read pk1 = concat (map (enc_item (pk_big pk1)) its) @ []"
    using f by (simp add: to_read_def enc_items_def)
  obtain pk2 where 2: "get_items (map kind_of its) pk1 = Some (its, pk2)" "consumes ?e pk1 pk2"
    using item_codec.get_all_law [OF f(2) _ p] assms(2) f(3,4)
    by (auto simp: get_items_def enc_items_def)
  have "pk_unpack pk2 = length (packed pk2)" "pk_wf pk2" "pk_errs pk2 = pk_errs pk"
    using 2(2) f by (simp_all add: consumes_def)
  with 1 2 f(1) show ?thesis using length_packed by auto
qed

section \<open>Transfer to another packer\<close>

lemma read_words_ok:
  assumes "LENGTH('a) * (i + n) \<le> length bs"
  shows "\<exists>ws. read_words big i n bs = Some (ws :: 'a::len word list) \<and> length ws = n \<and>
    concat (map (\<lambda>w. swap_if big (of_word w)) ws) = take (LENGTH('a) * n) (drop (LENGTH('a) * i) bs)"
  using assms
proof (induction n arbitrary: i)
  case 0
  then show ?case by simp
next
  case (Suc n)
  let ?w = "LENGTH('a)"
  let ?b = "take ?w (drop (?w * i) bs)"
  have le: "?w * i + ?w \<le> length bs"
    using Suc.prems by (simp add: algebra_simps)
  have "int (?w * i + ?w - 1) = int (?w * i) + int ?w - 1"
    by (subst of_nat_diff) (simp_all add: add.commute Suc_leI trans_le_add1)
  then have r: "bv_range bs (int (?w * i + ?w - 1)) (int (?w * i)) = Some ?b"
    using bv_range_slice [OF _ le] by simp
  have l: "length ?b = ?w" using le by simp
  obtain ws :: "'a word list" where ws: "read_words big (i + 1) n bs = Some ws" "length ws = n"
      "concat (map (\<lambda>w. swap_if big (of_word w)) ws) = take (?w * n) (drop (?w * (i + 1)) bs)"
    using Suc.IH [of "i + 1"] Suc.prems by (auto simp: algebra_simps)
  have "swap_if big (of_word (to_word (swap_if big ?b) :: 'a word)) = ?b"
    using l by (simp add: of_word_to_word)
  then show ?case
    using ws r by (simp add: take_add algebra_simps)
qed

lemma read_bits_ok:
  "i + n \<le> length bs \<Longrightarrow> read_bits i n bs = Some (take n (drop i bs))"
proof (induction n arbitrary: i)
  case (Suc n)
  then have "drop i bs = bs ! i # drop (Suc i) bs" by (simp add: Cons_nth_drop_Suc)
  with Suc show ?case by simp
qed simp

lemma write_at_ok:
  "i + length (concat vs) \<le> length bs \<Longrightarrow>
   write_at i vs bs = Some (take i bs @ concat vs @ drop (i + length (concat vs)) bs)"
proof (induction vs arbitrary: i bs)
  case (Cons v vs)
  then show ?case
    by (simp add: bv_assign_def ac_simps)
qed simp

text \<open>What a packer holds after its buffer was set from outside.\<close>

definition receives :: "bool list \<Rightarrow> packer \<Rightarrow> packer \<Rightarrow> bool" where
  "receives bs pk pk' \<longleftrightarrow> pk_wf pk' \<and> packed pk' = bs \<and> pk_unpack pk' = 0 \<and>
     pk_big pk' = pk_big pk \<and> pk_meta pk' = pk_meta pk \<and> pk_errs pk' = pk_errs pk"

definition received :: "bool list \<Rightarrow> packer \<Rightarrow> packer option \<Rightarrow> bool" where
  "received bs pk r \<longleftrightarrow> (case r of None \<Rightarrow> max_bits < length bs
     | Some pk' \<Rightarrow> length bs \<le> max_bits \<and> receives bs pk pk')"

lemma received_fits: "received bs pk r \<Longrightarrow> length bs \<le> max_bits \<Longrightarrow> \<exists>pk'. r = Some pk' \<and> receives bs pk pk'"
  by (auto simp: received_def split: option.splits)

lemma received_wf: "received bs pk (Some pk') \<Longrightarrow> pk_wf pk'"
  by (simp add: received_def receives_def)

lemma put_stream_ok:
  assumes "pk_wf pk" "length (concat vs) = n"
  shows "received (concat vs) pk (Option.bind (m_set_size n (pk_reset pk))
    (\<lambda>pk1. map_option (\<lambda>buf. pk1\<lparr>pk_bits := buf, pk_pack := n\<rparr>) (write_at 0 vs (pk_bits pk1))))"
proof (cases "m_set_size n (pk_reset pk)")
  case None
  then have "max_bits < n" by (simp add: m_set_size_def m_allocate_None room_def pk_reset_def)
  with None show ?thesis by (simp add: received_def assms(2))
next
  case (Some pk1)
  then have a: "m_allocate n False (pk_reset pk) = Some pk1" by (simp add: m_set_size_def)
  have r: "length (pk_bits (pk_reset pk)) = pk_max (pk_reset pk)" "block_size dvd pk_max (pk_reset pk)"
      "pk_max (pk_reset pk) < 2 ^ 31"
    using assms(1) by (simp_all add: pk_reset_def pk_wf_def)
  have wf: "pk_wf pk1" and room: "n \<le> pk_size pk1"
    using m_allocate_wf [OF r a] by (simp_all add: pk_reset_def)
  have "n \<le> max_bits" using a m_allocate_None [of n False "pk_reset pk"] by (simp add: room_def pk_reset_def)
  moreover have "length (concat vs) \<le> length (pk_bits pk1)"
    using wf room assms(2) by (simp add: pk_wf_def)
  then have "write_at 0 vs (pk_bits pk1) = Some (concat vs @ drop n (pk_bits pk1))"
    using write_at_ok [of 0 vs "pk_bits pk1"] assms(2) by simp
  ultimately show ?thesis
    using Some wf room assms m_allocate_same [OF a]
    by (simp add: received_def receives_def pk_wf_def packed_def pk_reset_def)
qed

lemma put_bits_ok: "pk_wf pk \<Longrightarrow> received bits pk (put_bits bits pk)"
  using put_stream_ok [of pk "map (\<lambda>b. [b]) bits" "length bits"] by (simp add: put_bits_def)

lemma length_concat_words:
  "length (concat (map (\<lambda>w. swap_if big (of_word w)) ws)) = LENGTH('a) * length (ws :: 'a::len word list)"
  by (induction ws) simp_all

lemma put_bytes_ok: "pk_wf pk \<Longrightarrow>
   received (concat (map (\<lambda>w. swap_if (pk_big pk) (of_word w)) bytes)) pk (put_bytes bytes pk)"
  using put_stream_ok [of pk "map (\<lambda>w. swap_if (pk_big pk) (of_word w)) bytes" "8 * length bytes"]
  by (simp add: put_bytes_def length_concat_words mult.commute)

lemma put_ints_ok: "pk_wf pk \<Longrightarrow>
   received (concat (map (\<lambda>w. swap_if (pk_big pk) (of_word w)) ints)) pk (put_ints ints pk)"
  using put_stream_ok [of pk "map (\<lambda>w. swap_if (pk_big pk) (of_word w)) ints" "32 * length ints"]
  by (simp add: put_ints_def length_concat_words mult.commute)

text \<open>The words that hold the packed bits fit in a buffer again.\<close>

lemma words_fit:
  assumes "pk_wf pk" "w dvd block_size" "0 < pk_pack pk" "0 < w"
  shows "w * (1 + (pk_pack pk - 1) div w) \<le> max_bits"
proof -
  have "w dvd pk_max pk" using assms(1,2) by (auto simp: pk_wf_def intro: dvd_trans)
  then obtain m where m: "pk_max pk = w * m" by (elim dvdE)
  have "pk_pack pk - 1 < w * m" using assms(1,3) m unfolding pk_wf_def by linarith
  then have "(pk_pack pk - 1) div w < m" by (simp add: less_mult_imp_div_less mult.commute)
  then have "w * (1 + (pk_pack pk - 1) div w) \<le> w * m" by (intro mult_le_mono2) simp
  then show ?thesis using pk_wf_room(1) [OF assms(1)] m by simp
qed

lemma word_count_eq:
  assumes "0 < n" "n < 2 ^ 31"
  shows "word_count w n = 1 + (n - 1) div w"
proof -
  have "(of_nat n :: uint) - 1 = of_nat (n - 1)" using assms(1) by (simp add: of_nat_diff)
  then have "unat ((of_nat n :: uint) - 1) = n - 1"
    using assms(2) by (simp add: unat_of_nat)
  moreover have "1 + (n - 1) div w < 2 ^ 32"
  proof -
    have "1 + (n - 1) div w \<le> n"
      using div_le_dividend [of "n - 1" w] assms(1) by linarith
    also have "n < 2 ^ 32" using assms(2) by simp
    finally show ?thesis .
  qed
  ultimately show ?thesis by (simp add: word_count_def)
qed

lemma get_words_ok:
  assumes "pk_wf pk" "pk_unpack pk = 0" "0 < pk_pack pk" "pk_pack pk < 2 ^ 31"
    and "LENGTH('a) dvd block_size"
  shows "\<exists>ws pad. read_words (pk_big pk) 0
      (word_count LENGTH('a) (get_remaining_unpacked_bits pk)) (pk_bits pk) = Some (ws :: 'a::len word list) \<and>
    length ws = 1 + (pk_pack pk - 1) div LENGTH('a) \<and>
    concat (map (\<lambda>w. swap_if (pk_big pk) (of_word w)) ws) = packed pk @ pad"
proof -
  let ?w = "LENGTH('a)" and ?p = "pk_pack pk"
  let ?n = "1 + (?p - 1) div ?w"
  have r: "get_remaining_unpacked_bits pk = ?p"
    using assms(2,4) by (simp add: get_remaining_unpacked_bits_def)
  have "?w dvd length (pk_bits pk)"
    using assms(1,5) by (auto simp: pk_wf_def intro: dvd_trans)
  then obtain m where m: "length (pk_bits pk) = ?w * m" by (elim dvdE)
  have "?p - 1 < ?w * m" using assms(1,3) m unfolding pk_wf_def by linarith
  then have "(?p - 1) div ?w < m" by (simp add: less_mult_imp_div_less mult.commute)
  then have "?w * ?n \<le> ?w * m" by (intro mult_le_mono2) simp
  then have fit: "?w * (0 + ?n) \<le> length (pk_bits pk)" using m by simp
  from read_words_ok [OF fit, of "pk_big pk"] obtain ws :: "'a word list" where ws:
    "read_words (pk_big pk) 0 ?n (pk_bits pk) = Some ws" "length ws = ?n"
    "concat (map (\<lambda>w. swap_if (pk_big pk) (of_word w)) ws) = take (?w * ?n) (pk_bits pk)"
    by auto
  have "?p - 1 < ?w * ?n"
    using dividend_less_times_div [of ?w "?p - 1"] by (simp only: distrib_left mult_1_right len_gt_0)
  then have "take (?w * ?n) (pk_bits pk) = packed pk @ take (?w * ?n - ?p) (drop ?p (pk_bits pk))"
    by (simp add: packed_def flip: take_add)
  with ws r assms(3,4) show ?thesis by (auto simp: word_count_eq)
qed

lemma get_bits_ok:
  assumes "pk_wf pk" "pk_unpack pk = 0" "pk_pack pk < 2 ^ 31"
  shows "get_bits pk = Some (packed pk)"
  using assms read_bits_ok [of 0 "pk_pack pk" "pk_bits pk"]
  by (simp add: get_bits_def get_remaining_unpacked_bits_def pk_wf_def packed_def)

lemma received_items:
  assumes "receives (enc_items (pk_big b) its @ pad) b b1"
    and "\<forall>v \<in> set its. item_ok (pk_meta b) v"
  shows "\<exists>b2. get_items (map kind_of its) b1 = Some (its, b2) \<and> pk_errs b2 = pk_errs b"
proof -
  have wf: "pk_wf b1" and m: "pk_meta b1 = pk_meta b" "pk_big b1 = pk_big b" "pk_errs b1 = pk_errs b"
    and p: "to_read b1 = concat (map (enc_item (pk_big b1)) its) @ pad"
    using assms(1) by (simp_all add: receives_def to_read_def enc_items_def)
  from item_codec.get_all_law [OF wf _ p] assms(2) m show ?thesis
    by (auto simp: get_items_def consumes_def)
qed

text \<open>
  C7. Packing any sequence of supported items and reading them back by their kinds in the same
  packer returns the items: whatever was in the buffer before the reset, in either byte order,
  across every growth of the buffer. All packed bits are consumed and no error is reported. This
  holds as long as the bits of the items fit in the largest buffer whose size is an \<open>int\<close>, of
  \<open>2 ^ 31 - 4096\<close> bits; with one bit more the computation of the size overflows.
\<close>

theorem pack_unpack_roundtrip:
  assumes "pk_wf pk" "\<forall>v \<in> set its. item_ok (pk_meta pk) v"
  shows "if length (enc_items (pk_big pk) its) \<le> max_bits
    then \<exists>pk1 pk2. put_items its (pk_reset pk) = Some pk1 \<and>
      get_items (map kind_of its) pk1 = Some (its, pk2) \<and>
      pk_unpack pk2 = get_packed_size pk2 \<and> pk_errs pk2 = pk_errs pk
    else put_items its (pk_reset pk) = None"
  using items_roundtrip [OF assms] put_items_overflow [OF assms] by (auto simp: get_packed_size_def)

definition used_packer :: packer where
  "used_packer = new_packer\<lparr>pk_bits := replicate 4096 True, pk_max := 4096, pk_size := 4096,
     pk_pack := 100, pk_unpack := 7, pk_big := True, pk_meta := True\<rparr>"

lemma used_packer_facts:
  "pk_wf used_packer" "pk_meta used_packer" "pk_big used_packer" "pk_errs used_packer = 0"
  by (simp_all add: used_packer_def new_packer_def pk_wf_def block_size_def)

definition sample_items :: "item list" where
  "sample_items = [I_bool True, I_field 5 19, I_string [104, 105], I_bv [True, False, True],
     I_ints [7, 4294967295], I_stream 12 2748, I_strings [[65], []], I_sc_int [False, True]]"

lemma field_ok_take:
  assumes "0 < n" "n \<le> 64" "take_bit n w = w"
  shows "field_ok (n, w :: 'a::len word)"
proof -
  have "i < n" if "bit w i" for i
    using that assms(3) by (metis bit_take_bit_iff)
  with assms show ?thesis by (simp add: field_ok_def)
qed

lemma sample_items_ok: "\<forall>v \<in> set sample_items. item_ok True v"
  by (simp add: sample_items_def field_ok_take)

lemma length_enc_vector:
  "length (enc_vector enc big vs) = 32 + (\<Sum>v\<leftarrow>vs. length (enc big v))"
  by (simp add: enc_vector_def enc_int_def length_concat comp_def)

lemma sample_items_fit: "length (enc_items big sample_items) \<le> max_bits"
  by (simp add: enc_items_def sample_items_def enc_field_def enc_string_def length_enc_vector max_bits_def
      enc_int_def)

lemma pack_unpack_roundtrip_witness:
  "\<exists>pk1 pk2. put_items sample_items (pk_reset used_packer) = Some pk1 \<and>
    get_items (map kind_of sample_items) pk1 = Some (sample_items, pk2) \<and>
    pk_unpack pk2 = get_packed_size pk2 \<and> pk_errs pk2 = 0"
  using pack_unpack_roundtrip [OF used_packer_facts(1), of sample_items]
  by (simp add: used_packer_facts sample_items_ok sample_items_fit)

text \<open>
  C23. A packed stream reaches another packer of the same settings intact: as bits, as bytes
  (the last one filled up) and as 32-bit ints. Put into a packer in any state, the transferred
  stream reads back as the items that were packed, without an error.
\<close>

theorem stream_transfer:
  assumes "pk_wf a" "pk_wf b" "pk_big b = pk_big a" "pk_meta b = pk_meta a"
    and "\<forall>v \<in> set its. item_ok (pk_meta a) v"
    and "put_items its (pk_reset a) = Some a1"
    and "0 < get_packed_size a1" "get_packed_size a1 < 2 ^ 31"
  shows "(\<exists>bits b1 b2. get_bits a1 = Some bits \<and> put_bits bits b = Some b1 \<and>
      get_items (map kind_of its) b1 = Some (its, b2) \<and> pk_errs b2 = pk_errs b) \<and>
    (\<exists>bytes b1 b2. get_bytes a1 = Some bytes \<and>
      length bytes = 1 + (get_packed_size a1 - 1) div 8 \<and> put_bytes bytes b = Some b1 \<and>
      get_items (map kind_of its) b1 = Some (its, b2) \<and> pk_errs b2 = pk_errs b) \<and>
    (\<exists>ints b1 b2. get_ints a1 = Some ints \<and>
      length ints = 1 + (get_packed_size a1 - 1) div 32 \<and> put_ints ints b = Some b1 \<and>
      get_items (map kind_of its) b1 = Some (its, b2) \<and> pk_errs b2 = pk_errs b)"
proof -
  let ?e = "enc_items (pk_big b) its"
  have "appends ?e (pk_reset a) a1"
    using put_items_packs [OF assms(1,5)] assms(3,6) packs_Some by simp
  note a1 = appended_items [OF assms(1) this, folded assms(3)]
  have p: "0 < pk_pack a1" "pk_pack a1 < 2 ^ 31" using assms(7,8) by (simp_all add: get_packed_size_def)
  have ok: "\<forall>v \<in> set its. item_ok (pk_meta b) v" using assms(4,5) by simp
  have "length ?e \<le> max_bits"
    using a1(1,2) length_packed [OF a1(2)] pk_wf_room(1) [OF a1(2)] by (auto simp: pk_wf_def)
  then obtain b1 where "put_bits (packed a1) b = Some b1" "receives ?e b b1"
    using received_fits [OF put_bits_ok [OF assms(2)]] a1(1) by auto
  with received_items [OF _ ok, of "[]"] get_bits_ok [OF a1(2,6) p(2)]
  have bb: "\<exists>bits b1 b2. get_bits a1 = Some bits \<and> put_bits bits b = Some b1 \<and>
      get_items (map kind_of its) b1 = Some (its, b2) \<and> pk_errs b2 = pk_errs b"
    by fastforce
  obtain bytes pad where y: "get_bytes a1 = Some bytes"
      "length bytes = 1 + (get_packed_size a1 - 1) div 8"
      "concat (map (\<lambda>w. swap_if (pk_big b) (of_word w)) bytes) = ?e @ pad"
    using get_words_ok [OF a1(2,6) p, where 'a = 8] a1(1,4)
    by (auto simp: get_bytes_def get_packed_size_def block_size_def)
  have "length (?e @ pad) = 8 * length bytes"
    using length_concat_words [of "pk_big b" bytes] y(3) by simp
  then have "length (?e @ pad) \<le> max_bits"
    using words_fit [OF a1(2), of 8] p(1) y(2) by (simp add: get_packed_size_def block_size_def)
  then obtain b1 where "put_bytes bytes b = Some b1" "receives (?e @ pad) b b1"
    using received_fits [OF put_bytes_ok [OF assms(2), of bytes]] y(3) by auto
  with received_items [OF _ ok] y(1,2)
  have yy: "\<exists>bytes b1 b2. get_bytes a1 = Some bytes \<and>
      length bytes = 1 + (get_packed_size a1 - 1) div 8 \<and> put_bytes bytes b = Some b1 \<and>
      get_items (map kind_of its) b1 = Some (its, b2) \<and> pk_errs b2 = pk_errs b"
    by blast
  obtain ints pad where i: "get_ints a1 = Some ints"
      "length ints = 1 + (get_packed_size a1 - 1) div 32"
      "concat (map (\<lambda>w. swap_if (pk_big b) (of_word w)) ints) = ?e @ pad"
    using get_words_ok [OF a1(2,6) p, where 'a = 32] a1(1,4)
    by (auto simp: get_ints_def get_packed_size_def block_size_def)
  have "length (?e @ pad) = 32 * length ints"
    using length_concat_words [of "pk_big b" ints] i(3) by simp
  then have "length (?e @ pad) \<le> max_bits"
    using words_fit [OF a1(2), of 32] p(1) i(2) by (simp add: get_packed_size_def block_size_def)
  then obtain b1 where "put_ints ints b = Some b1" "receives (?e @ pad) b b1"
    using received_fits [OF put_ints_ok [OF assms(2), of ints]] i(3) by auto
  with received_items [OF _ ok] i(1,2)
  have ii: "\<exists>ints b1 b2. get_ints a1 = Some ints \<and>
      length ints = 1 + (get_packed_size a1 - 1) div 32 \<and> put_ints ints b = Some b1 \<and>
      get_items (map kind_of its) b1 = Some (its, b2) \<and> pk_errs b2 = pk_errs b"
    by blast
  with bb yy show ?thesis by blast
qed

text \<open>A byte stream with 4096-bit little-endian sender and a fresh receiver.\<close>

lemma new_packer_wf: "pk_wf new_packer"
  by (simp add: new_packer_def pk_wf_def block_size_def)

lemma two_items_packed: "\<exists>a1. put_items [I_bool True, I_field 5 19] (pk_reset new_packer) = Some a1 \<and>
   get_packed_size a1 = 6"
proof -
  have "\<forall>v \<in> set [I_bool True, I_field 5 19]. item_ok (pk_meta new_packer) v" by (simp add: field_ok_take)
  from put_items_fits [OF new_packer_wf this]
  obtain a1 where a1: "put_items [I_bool True, I_field 5 19] (pk_reset new_packer) = Some a1"
    "appends (enc_items False [I_bool True, I_field 5 19]) (pk_reset new_packer) a1"
    by (auto simp: enc_items_def enc_field_def max_bits_def new_packer_def)
  then have l: "length (packed a1) = 6" and "pk_wf a1"
    by (simp_all add: appends_def packed_def pk_reset_def enc_field_def enc_items_def)
  with length_packed have "get_packed_size a1 = 6" by (simp add: get_packed_size_def)
  with a1(1) show ?thesis by blast
qed

lemma stream_transfer_witness:
  "\<exists>a1 bytes b1 b2. put_items [I_bool True, I_field 5 19] (pk_reset new_packer) = Some a1 \<and>
     get_bytes a1 = Some bytes \<and> length bytes = 1 \<and>
     put_bytes bytes (used_packer\<lparr>pk_big := False, pk_meta := False\<rparr>) = Some b1 \<and>
     get_items [K_bool, K_field 5] b1 = Some ([I_bool True, I_field 5 19], b2) \<and> pk_errs b2 = 0"
proof -
  let ?b = "used_packer\<lparr>pk_big := False, pk_meta := False\<rparr>"
  let ?its = "[I_bool True, I_field 5 19]"
  have b: "pk_wf ?b" using used_packer_facts(1) by (simp add: pk_wf_def)
  obtain a1 where a1: "put_items ?its (pk_reset new_packer) = Some a1" "get_packed_size a1 = 6"
    using two_items_packed by blast
  have s: "pk_big ?b = pk_big new_packer" "pk_meta ?b = pk_meta new_packer"
      "\<forall>v \<in> set ?its. item_ok (pk_meta new_packer) v" "0 < get_packed_size a1" "get_packed_size a1 < 2 ^ 31"
      "pk_errs ?b = 0"
    using a1(2) by (simp_all add: new_packer_def field_ok_take used_packer_def)
  from stream_transfer [OF new_packer_wf b s(1-3) a1(1) s(4,5)] a1 s(6)
  show ?thesis by auto
qed

section \<open>Every sequence of operations\<close>

datatype packer_op =
    Op_reset
  | Op_put item
  | Op_get item_kind
  | Op_get_chars nat
  | Op_put_bits "bool list"
  | Op_put_bytes "8 word list"
  | Op_put_ints "32 word list"
  | Op_flags bool bool

fun packer_step :: "packer_op \<Rightarrow> packer \<Rightarrow> packer option" where
  "packer_step Op_reset pk = Some (pk_reset pk)"
| "packer_step (Op_put v) pk = put_item v pk"
| "packer_step (Op_get k) pk = map_option snd (get_item k pk)"
| "packer_step (Op_get_chars n) pk = map_option snd (unpack_string (Some n) pk)"
| "packer_step (Op_put_bits bs) pk = put_bits bs pk"
| "packer_step (Op_put_bytes ws) pk = put_bytes ws pk"
| "packer_step (Op_put_ints ws) pk = put_ints ws pk"
| "packer_step (Op_flags big meta) pk = Some (pk\<lparr>pk_big := big, pk_meta := meta\<rparr>)"

fun packer_run :: "packer_op list \<Rightarrow> packer \<Rightarrow> packer option" where
  "packer_run [] pk = Some pk"
| "packer_run (p # ps) pk = (case packer_step p pk of None \<Rightarrow> None | Some pk1 \<Rightarrow> packer_run ps pk1)"

text \<open>A pack function keeps the invariant, also for the items a round trip excludes.\<close>

definition keeps_wf :: "(packer \<Rightarrow> packer option) \<Rightarrow> bool" where
  "keeps_wf f \<longleftrightarrow> (\<forall>pk pk'. pk_wf pk \<longrightarrow> f pk = Some pk' \<longrightarrow> pk_wf pk')"

lemma keeps_wfD: "keeps_wf f \<Longrightarrow> pk_wf pk \<Longrightarrow> f pk = Some pk' \<Longrightarrow> pk_wf pk'"
  by (auto simp: keeps_wf_def)

lemma keeps_wfI: "(\<And>pk. pk_wf pk \<Longrightarrow> \<exists>bs. packs bs pk (f pk)) \<Longrightarrow> keeps_wf f"
  unfolding keeps_wf_def using packs_Some appends_wf by fastforce

lemma keeps_wf_bind: "keeps_wf f \<Longrightarrow> keeps_wf g \<Longrightarrow> keeps_wf (\<lambda>pk. Option.bind (f pk) g)"
  unfolding keeps_wf_def bind_eq_Some_conv by blast

lemma pack_value_wf: "keeps_wf (pack_value v n)"
proof (cases "0 < n \<and> n \<le> 64")
  case True
  then show ?thesis using pack_value_ok by (intro keeps_wfI) blast
next
  case False
  then show ?thesis by (auto simp: keeps_wf_def pack_value_def Let_def bind_eq_Some_conv)
qed

lemma scalar_wf:
  "keeps_wf (pack_field w n)" "keeps_wf (pack_field_int u n)" "keeps_wf (pack_char c)"
  "keeps_wf (pack_bool b)" "keeps_wf (pack_sc_bv_base bs)" "keeps_wf (pack_sc_int_base bs)"
  "keeps_wf (pack_sc_uint_base bs)" "keeps_wf (pack_sc_signed bs)" "keeps_wf (pack_sc_unsigned bs)"
proof -
  show "keeps_wf (pack_field w n)" "keeps_wf (pack_field_int u n)"
    using pack_value_wf by (auto simp: pack_field_def pack_field_int_def)
  show "keeps_wf (pack_char c)" by (rule keeps_wfI) (blast intro: char_codec.put_law)
  show "keeps_wf (pack_bool b)" by (rule keeps_wfI) (blast intro: bool_codec.put_law)
  show "keeps_wf (pack_sc_bv_base bs)"
  proof (cases "bs = []")
    case True
    then show ?thesis by (auto simp: keeps_wf_def pack_sc_bv_base_def bind_eq_Some_conv)
  next
    case False
    then show ?thesis by (intro keeps_wfI) (blast intro: bv_codec.put_law)
  qed
  show "keeps_wf (pack_sc_int_base bs)" "keeps_wf (pack_sc_uint_base bs)"
      "keeps_wf (pack_sc_signed bs)" "keeps_wf (pack_sc_unsigned bs)"
    using sc_int_codec.put_law sc_uint_codec.put_law sc_signed_codec.put_law sc_unsigned_codec.put_law
    by (intro keeps_wfI, blast)+
qed

lemma put_elems_wf:
  assumes "\<And>x. keeps_wf (put x)"
  shows "keeps_wf (put_elems put xs)"
proof (induction xs)
  case (Cons x xs)
  have "put_elems put (x # xs) = (\<lambda>pk. Option.bind (put x pk) (put_elems put xs))"
    by (rule ext, rule put_elems_Cons)
  with keeps_wf_bind [OF assms Cons.IH] show ?case by (simp only:)
qed (simp add: keeps_wf_def)

lemma pack_chars_wf: "keeps_wf (pack_chars s)"
  using put_elems_wf [of pack_char s, OF scalar_wf(3)] by (simp add: keeps_wf_def pack_chars_elems)

lemma pack_string_wf: "keeps_wf (pack_string s)"
  unfolding keeps_wf_def
proof (intro allI impI)
  fix pk pk' assume "pk_wf pk" "pack_string s pk = Some pk'"
  then show "pk_wf pk'"
    using keeps_wfD [OF pack_chars_wf, of pk s pk']
      keeps_wfD [OF keeps_wf_bind [OF pack_chars_wf scalar_wf(3)], of pk s 0 pk']
    by (simp add: pack_string_bind split: if_splits)
qed

lemma put_vector_wf:
  assumes "\<And>x. keeps_wf (put x)"
  shows "keeps_wf (put_vector put xs)"
proof -
  have "keeps_wf (put_integer (w :: 32 word))" for w
    using scalar_wf(2) by (simp add: put_integer_def)
  from keeps_wf_bind [OF this put_elems_wf [of put, OF assms]]
  show ?thesis by (simp add: keeps_wf_def put_vector_bind)
qed

lemma put_item_funs:
  "put_item (I_bool b) = pack_bool b" "put_item (I_field n u) = pack_field_int u n"
  "put_item (I_stream n w) = pack_field w n" "put_item (I_string s) = pack_string s"
  "put_item (I_bv bs) = pack_sc_bv_base bs" "put_item (I_sc_int bs) = pack_sc_int_base bs"
  "put_item (I_sc_uint bs) = pack_sc_uint_base bs" "put_item (I_sc_signed bs) = pack_sc_signed bs"
  "put_item (I_sc_unsigned bs) = pack_sc_unsigned bs"
  "put_item (I_bools bs) = put_vector pack_bool bs"
  "put_item (I_ints ws) = put_vector put_integer ws"
  "put_item (I_strings ss) = put_vector pack_string ss"
  by (rule ext, simp)+

lemma put_item_wf: "keeps_wf (put_item v)"
proof -
  have "keeps_wf (put_integer (w :: 32 word))" for w
    using scalar_wf(2) by (simp add: put_integer_def)
  then show ?thesis
    by (cases v) (simp_all only: put_item_funs scalar_wf pack_string_wf put_vector_wf)
qed

text \<open>An unpack function moves only the read position and the error count.\<close>

definition same_buffer :: "packer \<Rightarrow> packer \<Rightarrow> bool" where
  "same_buffer pk pk' \<longleftrightarrow> pk_bits pk' = pk_bits pk \<and> pk_size pk' = pk_size pk \<and>
     pk_max pk' = pk_max pk \<and> pk_pack pk' = pk_pack pk"

lemma same_buffer_refl [simp]: "same_buffer pk pk"
  by (simp add: same_buffer_def)

lemma same_buffer_trans: "same_buffer a b \<Longrightarrow> same_buffer b c \<Longrightarrow> same_buffer a c"
  by (simp add: same_buffer_def)

lemma same_buffer_wf: "same_buffer pk pk' \<Longrightarrow> pk_wf pk \<Longrightarrow> pk_wf pk'"
  by (simp add: same_buffer_def pk_wf_def)

lemma same_buffer_inc [simp]: "same_buffer a (inc_unpack_index n pk) = same_buffer a pk"
  by (simp add: same_buffer_def inc_unpack_index_def pk_error_def Let_def)

lemma same_buffer_error [simp]: "same_buffer a (pk_error pk) = same_buffer a pk"
  by (simp add: same_buffer_def pk_error_def)

lemma enough_same: "m_enough_bits n pk = (ok, pk') \<Longrightarrow> same_buffer pk pk'"
  by (auto simp: m_enough_bits_def split: if_splits)

definition reads_only :: "(packer \<Rightarrow> ('v \<times> packer) option) \<Rightarrow> bool" where
  "reads_only g \<longleftrightarrow> (\<forall>pk v pk'. g pk = Some (v, pk') \<longrightarrow> same_buffer pk pk')"

lemma unpack_value_same: "reads_only (unpack_value n)"
  by (auto simp: reads_only_def unpack_value_def Let_def m_enough_bits_def
      split: option.splits if_splits)

lemma unpack_bit_loop_same: "reads_only (unpack_bit_loop n a)"
  unfolding reads_only_def
proof (intro allI impI)
  fix pk v pk' assume "unpack_bit_loop n a pk = Some (v, pk')"
  then show "same_buffer pk pk'"
  proof (induction n a pk rule: unpack_bit_loop.induct)
    case (2 n a pk)
    then have "same_buffer (pk\<lparr>pk_unpack := pk_unpack pk + 1\<rparr>) pk'" by (auto split: if_splits)
    then show ?case by (simp add: same_buffer_def)
  qed simp
qed

lemma unpack_chars_same: "reads_only (unpack_chars fuel limit s)"
  unfolding reads_only_def
proof (intro allI impI)
  fix pk v pk' assume "unpack_chars fuel limit s pk = Some (v, pk')"
  then show "same_buffer pk pk'"
  proof (induction fuel arbitrary: limit s pk)
    case (Suc fuel)
    obtain ok pk0 where e: "m_enough_bits 8 pk = (ok, pk0)" by fastforce
    have "same_buffer pk0 pk'"
      using Suc.prems e Suc.IH [of _ _ "inc_unpack_index 8 pk0"]
      by (auto split: if_splits option.splits simp: same_buffer_def inc_unpack_index_def Let_def
          pk_error_def)
    with enough_same [OF e] show ?case by (rule same_buffer_trans)
  qed simp
qed

lemma unpack_string_same: "reads_only (unpack_string limit)"
  unfolding reads_only_def
proof (intro allI impI)
  fix pk v pk' assume u: "unpack_string limit pk = Some (v, pk')"
  obtain s pk1 where 1: "unpack_chars (pk_pack pk + 1) limit [] pk = Some (s, pk1)"
    using u by (auto simp: unpack_string_def simp del: unpack_chars.simps split: option.splits)
  obtain ok pk2 where e: "m_enough_bits 8 pk1 = (ok, pk2)" by fastforce
  have "same_buffer pk1 pk'"
    using u 1 e enough_same [OF e]
    by (auto simp: unpack_string_def simp del: unpack_chars.simps split: if_splits)
  with 1 show "same_buffer pk pk'"
    using unpack_chars_same same_buffer_trans unfolding reads_only_def by blast
qed

lemma get_elems_same:
  assumes "reads_only g"
  shows "reads_only (get_elems g n)"
  unfolding reads_only_def
proof (intro allI impI)
  fix pk v pk' assume "get_elems g n pk = Some (v, pk')"
  then show "same_buffer pk pk'"
  proof (induction n arbitrary: pk v)
    case (Suc n)
    then obtain x pk1 xs where "g pk = Some (x, pk1)" "get_elems g n pk1 = Some (xs, pk')"
      by (auto split: option.splits)
    with Suc.IH assms show ?case unfolding reads_only_def using same_buffer_trans by blast
  qed simp
qed

lemma reads_only_map: "reads_only g \<Longrightarrow> reads_only (\<lambda>pk. map_option (\<lambda>(a, pk1). (f a, pk1)) (g pk))"
  by (auto simp: reads_only_def)

lemma get_integer_same: "reads_only (get_integer :: packer \<Rightarrow> ('a::len word \<times> packer) option)"
  using unpack_value_same
  by (fastforce simp: reads_only_def get_integer_def unpack_field_int_def)

lemma get_vector_same:
  assumes "reads_only g"
  shows "reads_only (get_vector g)"
  unfolding reads_only_def
proof (intro allI impI)
  fix pk v pk' assume "get_vector g pk = Some (v, pk')"
  then obtain n :: "32 word" and pk1 where
    "get_integer pk = Some (n, pk1)" "get_elems g (nat (sint n)) pk1 = Some (v, pk')"
    by (auto simp: get_vector_def split: option.splits)
  with get_integer_same get_elems_same [OF assms] show "same_buffer pk pk'"
    unfolding reads_only_def using same_buffer_trans by blast
qed

lemma scalar_same:
  "reads_only unpack_bool" "reads_only (unpack_field_int n)" "reads_only (unpack_field n)"
  "reads_only (unpack_sc_bv_base n)" "reads_only (unpack_sc_int_base n)"
  "reads_only (unpack_sc_uint_base n)" "reads_only (unpack_sc_signed n)"
  "reads_only (unpack_sc_unsigned n)"
  using unpack_value_same unpack_bit_loop_same
  by (fastforce simp: reads_only_def unpack_bool_def unpack_field_int_def unpack_field_def
      unpack_sc_bv_base_def unpack_sc_int_base_def unpack_sc_uint_base_def
      unpack_sc_signed_def unpack_sc_unsigned_def split: if_splits)+

lemma as_item_same: "reads_only g \<Longrightarrow> as_item c (g pk) = Some (v, pk') \<Longrightarrow> same_buffer pk pk'"
  by (auto simp: reads_only_def as_item_def)

lemma get_item_same: "get_item k pk = Some (v, pk') \<Longrightarrow> same_buffer pk pk'"
  by (cases k) (auto dest!: as_item_same [rotated] intro: scalar_same unpack_string_same
      get_vector_same get_integer_same)

lemma packer_step_wf:
  assumes "pk_wf pk" "packer_step p pk = Some pk'"
  shows "pk_wf pk'"
proof (cases p)
  case (Op_put v)
  then show ?thesis using keeps_wfD [OF put_item_wf assms(1), of v] assms(2) by simp
next
  case (Op_get k)
  then obtain v where "get_item k pk = Some (v, pk')" using assms(2) by auto
  from same_buffer_wf [OF get_item_same [OF this] assms(1)] show ?thesis .
next
  case (Op_get_chars n)
  then obtain s where "unpack_string (Some n) pk = Some (s, pk')" using assms(2) by auto
  with unpack_string_same show ?thesis
    using assms(1) same_buffer_wf unfolding reads_only_def by blast
next
  case (Op_put_bits bs)
  then show ?thesis using put_bits_ok [OF assms(1), of bs] assms(2) received_wf by auto
next
  case (Op_put_bytes ws)
  then show ?thesis using put_bytes_ok [OF assms(1), of ws] assms(2) received_wf by auto
next
  case (Op_put_ints ws)
  then show ?thesis using put_ints_ok [OF assms(1), of ws] assms(2) received_wf by auto
qed (use assms in \<open>auto simp: pk_wf_def pk_reset_def\<close>)

lemma packer_run_wf_from: "pk_wf pk \<Longrightarrow> packer_run ps pk = Some pk' \<Longrightarrow> pk_wf pk'"
  by (induction ps arbitrary: pk) (auto split: option.splits dest: packer_step_wf)

text \<open>
  C36. The buffer of a packer is well formed in every reachable state: after any sequence of
  resets, pack and unpack calls (with any arguments), transfers and changes of the flags, the
  packed bits lie within the logical size, that within the allocated size, and the allocated
  bits are exactly that many, a multiple of the block size and less than \<open>2 ^ 31\<close>. A run is cut
  off (\<open>None\<close>) where SystemC reports a selection outside the buffer, and where the 32-bit
  computation of a new size overflows.
\<close>

theorem packer_run_wf: "pred_option pk_wf (packer_run ps new_packer)"
proof (cases "packer_run ps new_packer")
  case (Some pk')
  then show ?thesis using packer_run_wf_from [OF new_packer_wf] by simp
qed simp

section \<open>Reading too far\<close>

text \<open>With too few bits left the unpack functions differ. A field of the integer operators
  yields 0 with two errors and leaves the read position. A boolean yields a stale bit of the
  buffer with one error. A SystemC integer yields stale bits, moves the read position beyond
  the packed bits and reports nothing.
\<close>

theorem underflow_reports:
  assumes "pk_wf pk" "pk_unpack pk = pk_pack pk" "0 < n" "pk_pack pk + n \<le> length (pk_bits pk)"
  shows "unpack_field_int n pk = Some (0, pk\<lparr>pk_errs := pk_errs pk + 2\<rparr>) \<and>
    unpack_bool pk = Some (pk_bits pk ! pk_pack pk,
      pk\<lparr>pk_unpack := pk_pack pk + 1, pk_errs := pk_errs pk + 1\<rparr>) \<and>
    unpack_sc_int_base n pk = Some (take n (drop (pk_pack pk) (pk_bits pk)),
      pk\<lparr>pk_unpack := pk_pack pk + n\<rparr>)"
proof -
  have z: "to_word (replicate 64 False) = (0 :: 64 word)"
    by (rule bit_word_eqI) (auto simp: bit_to_word)
  have loop: "unpack_bit_loop n acc p =
      Some (acc @ take n (drop (pk_unpack p) (pk_bits p)), p\<lparr>pk_unpack := pk_unpack p + n\<rparr>)"
    if "pk_unpack p + n \<le> length (pk_bits p)" for n acc p
    using that
  proof (induction n arbitrary: acc p)
    case (Suc n)
    then have "drop (pk_unpack p) (pk_bits p) = pk_bits p ! pk_unpack p # drop (Suc (pk_unpack p)) (pk_bits p)"
      by (simp add: Cons_nth_drop_Suc)
    with Suc show ?case by simp
  qed simp
  have "unpack_field_int n pk = Some (0, pk\<lparr>pk_errs := pk_errs pk + 2\<rparr>)"
    using assms(2,3) z
    by (simp add: unpack_field_int_def unpack_value_def m_enough_bits_def pk_error_def)
  moreover have "unpack_bool pk = Some (pk_bits pk ! pk_pack pk,
      pk\<lparr>pk_unpack := pk_pack pk + 1, pk_errs := pk_errs pk + 1\<rparr>)"
    using assms by (simp add: unpack_bool_def inc_unpack_index_def pk_error_def Let_def)
  moreover have "unpack_sc_int_base n pk = Some (take n (drop (pk_pack pk) (pk_bits pk)),
      pk\<lparr>pk_unpack := pk_pack pk + n\<rparr>)"
    using loop [of pk n "[]"] assms(2,4) by (simp add: unpack_sc_int_base_def)
  ultimately show ?thesis by blast
qed

definition drained_packer :: packer where
  "drained_packer = used_packer\<lparr>pk_pack := 7\<rparr>"

lemma underflow_reports_witness:
  "unpack_field_int 8 drained_packer = Some (0, drained_packer\<lparr>pk_errs := 2\<rparr>)"
  using underflow_reports [of drained_packer 8] used_packer_facts(1)
  by (simp add: drained_packer_def used_packer_def new_packer_def pk_wf_def)

subsection \<open>Strings without metadata\<close>

text \<open>The characters up to the end of the packed bits, whose number is a multiple of 8.\<close>

lemma unpack_chars_rest:
  assumes "pk_wf pk" "0 \<notin> set s" "length s < fuel"
    and "to_read pk = concat (map (enc_int (pk_big pk)) (s :: 8 word list))"
  shows "\<exists>pk'. unpack_chars fuel None acc pk = Some (acc @ s, pk') \<and>
    pk_errs pk' = pk_errs pk + 1 \<and> pk_meta pk' = pk_meta pk \<and>
    pk_unpack pk' = pk_unpack pk + 8 * length s"
  using assms
proof (induction s arbitrary: acc pk fuel)
  case Nil
  then obtain f where f: "fuel = Suc f" by (cases fuel) auto
  have "pk_pack pk \<le> pk_unpack pk" using length_pending [OF Nil.prems(1)] Nil.prems(4) by simp
  then show ?case by (simp add: f m_enough_bits_def pk_error_def)
next
  case (Cons c s)
  then obtain f where f: "fuel = Suc f" by (cases fuel) auto
  let ?t = "concat (map (enc_int (pk_big pk)) s)"
  have p: "to_read pk = enc_int (pk_big pk) c @ ?t" using Cons.prems(4) by simp
  let ?pk = "inc_unpack_index 8 pk"
  have c: "consumes (enc_int (pk_big pk) c) pk ?pk"
    using inc_consumes [OF Cons.prems(1) p] by simp
  have "\<exists>pk'. unpack_chars f None (acc @ [c]) ?pk = Some ((acc @ [c]) @ s, pk') \<and>
      pk_errs pk' = pk_errs ?pk + 1 \<and> pk_meta pk' = pk_meta ?pk \<and>
      pk_unpack pk' = pk_unpack ?pk + 8 * length s"
    using Cons.IH [OF consumes_wf [OF c], of f "acc @ [c]"] consumes_pending [OF c p] Cons.prems(2,3)
    by (simp add: f)
  then show ?case
    using enough_pending [OF Cons.prems(1) p] peek_bits_pending [OF Cons.prems(1) p] Cons.prems(2) c
    by (auto simp: f enc_char_zero consumes_def)
qed

text \<open>Without \<open>use_metadata\<close> strings are not delimited: of two strings packed one after the
  other, the first \<open>operator>>\<close> returns both, joined, and always reports an error, because it
  reads on until fewer than 8 bits are left.
\<close>

theorem strings_run_together:
  assumes "pk_wf pk" "\<not> pk_meta pk" "0 \<notin> set s" "0 \<notin> set t" "8 * length (s @ t) \<le> max_bits"
  shows "\<exists>pk1 pk2. put_items [I_string s, I_string t] (pk_reset pk) = Some pk1 \<and>
    unpack_string None pk1 = Some (s @ t, pk2) \<and>
    pk_unpack pk2 = get_packed_size pk1 \<and> pk_errs pk2 = pk_errs pk + 1"
proof -
  let ?e = "\<lambda>u. concat (map (enc_int (pk_big pk)) u) :: bool list"
  have chars: "packs (?e u) p (pack_string u p)"
    if p: "pk_wf p" "\<not> pk_meta p" "pk_big p = pk_big pk" for u p
    using char_codec.put_elems_law [OF p(1), of u] p(2,3) by (simp add: pack_chars_elems pack_string_bind)
  have r: "pk_wf (pk_reset pk)" "\<not> pk_meta (pk_reset pk)" "pk_big (pk_reset pk) = pk_big pk"
    using assms(1,2) by simp_all (simp_all add: pk_reset_def)
  have "packs (?e s @ ?e t) (pk_reset pk) (Option.bind (pack_string s (pk_reset pk)) (pack_string t))"
    by (rule packs_bind [OF r(1) chars [OF r]], rule chars)
      (use r in \<open>auto simp: appends_def\<close>)
  moreover have "room (length (?e s @ ?e t)) (pk_reset pk)"
    using assms(5) by (simp add: room_def pk_reset_def length_concat_enc del: length_concat)
  ultimately obtain p2 where 2: "Option.bind (pack_string s (pk_reset pk)) (pack_string t) = Some p2"
      "appends (?e s @ ?e t) (pk_reset pk) p2"
    using packs_room by blast
  have a: "appends (?e (s @ t)) (pk_reset pk) p2" using 2(2) by simp
  then have f: "pk_wf p2" "\<not> pk_meta p2" "pk_big p2 = pk_big pk" "pk_unpack p2 = 0" "pk_errs p2 = pk_errs pk"
      "packed p2 = concat (map (enc_int (pk_big p2)) (s @ t))"
    using r(2) by (simp_all add: appends_def pk_reset_def packed_def)
  have l: "pk_pack p2 = 8 * length (s @ t)"
    using length_packed [OF f(1)] f(6) length_concat_enc by metis
  have "to_read p2 = concat (map (enc_int (pk_big p2)) (s @ t))"
    using f(4,6) by (simp add: to_read_def)
  moreover have "length (s @ t) < pk_pack p2 + 1" using l by simp
  moreover have "0 \<notin> set (s @ t)" using assms(3,4) by simp
  ultimately obtain p3 where 3: "unpack_chars (pk_pack p2 + 1) None [] p2 = Some (s @ t, p3)"
      "pk_errs p3 = pk_errs p2 + 1" "pk_meta p3 = pk_meta p2" "pk_unpack p3 = pk_pack p2"
    using unpack_chars_rest [OF f(1), of "s @ t" "pk_pack p2 + 1" "[]"] f(4) l by auto
  have "unpack_string None p2 = Some (s @ t, p3)"
    using 3 f(2) by (simp add: unpack_string_def del: unpack_chars.simps)
  moreover have "put_items [I_string s, I_string t] (pk_reset pk) = Some p2"
    using 2(1) by (auto simp: put_items_def bind_eq_Some_conv)
  ultimately show ?thesis using 3 f(5) by (auto simp: get_packed_size_def)
qed

lemma strings_run_together_witness:
  "\<exists>pk1 pk2. put_items [I_string [65], I_string [66, 67]] (pk_reset new_packer) = Some pk1 \<and>
    unpack_string None pk1 = Some ([65, 66, 67], pk2) \<and>
    pk_unpack pk2 = get_packed_size pk1 \<and> pk_errs pk2 = 1"
  using strings_run_together [OF new_packer_wf, of "[65]" "[66, 67]"]
  by (simp add: new_packer_def max_bits_def)

end
