(* ===== verification/Report.thy ===== *)
theory Report
  imports UVM_Prelude
begin

text \<open>
  Model of the reporting subsystem: \<open>uvm_report_object\<close>, \<open>uvm_report_handler\<close>,
  \<open>uvm_default_report_server\<close> and \<open>uvm_report_catcher\<close> (src/uvmsc/report).

  A report passes the verbosity filter of its object's handler, gets its severity overridden and
  its action and file assigned there, runs through the catchers and is executed by the server:
  counted, shown, logged; it may end the simulation. \<open>new_report_message\<close> hands out one static
  message object, so all reports share the message \<open>rs_msg\<close> of the state: a report made while
  another is in the catchers overwrites it.

  A catcher's \<open>do_catch\<close> is user code: a function from the current message to the interface
  functions it calls and its verdict. Output is a list of events that hold the message; its
  formatting is left out, as are message elements, recording and printing. \<open>die\<close> ends the run: \<open>Inl\<close> of
  the state at its entry. What \<open>uvm_root::die\<close> does from there on (the \<open>pre_abort\<close> callbacks of the components,
  which are user code and may report again, the summary, then the exception) is not modelled. Counts are integers, exact below
  \<open>2 ^ 31\<close>; a file handle is a natural, 0 the null pointer.
\<close>

section \<open>Actions, messages, the handler\<close>

type_synonym action = "32 word"

definition UVM_NO_ACTION :: action where "UVM_NO_ACTION = 0"

definition UVM_DISPLAY :: action where "UVM_DISPLAY = 1"

definition UVM_LOG :: action where "UVM_LOG = 2"

definition UVM_COUNT :: action where "UVM_COUNT = 4"

definition UVM_EXIT :: action where "UVM_EXIT = 8"

definition UVM_CALL_HOOK :: action where "UVM_CALL_HOOK = 16"

definition UVM_STOP :: action where "UVM_STOP = 32"

definition UVM_RM_RECORD :: action where "UVM_RM_RECORD = 64"

lemmas action_defs = UVM_NO_ACTION_def UVM_DISPLAY_def UVM_LOG_def UVM_COUNT_def UVM_EXIT_def
  UVM_CALL_HOOK_def UVM_STOP_def UVM_RM_RECORD_def

definition does :: "action \<Rightarrow> action \<Rightarrow> bool" where
  "does a f \<longleftrightarrow> a AND f \<noteq> 0"

text \<open>The order of the enumeration.\<close>

fun severity_rank :: "uvm_severity \<Rightarrow> nat" where
  "severity_rank UVM_INFO = 0"
| "severity_rank UVM_WARNING = 1"
| "severity_rank UVM_ERROR = 2"
| "severity_rank UVM_FATAL = 3"

definition UVM_NONE :: int where "UVM_NONE = 0"

definition UVM_LOW :: int where "UVM_LOW = 100"

definition UVM_MEDIUM :: int where "UVM_MEDIUM = 200"

record rmsg =
  ms_sev :: uvm_severity
  ms_id :: string
  ms_text :: string
  ms_verb :: int
  ms_action :: action
  ms_file :: nat

record rhandler =
  rh_max_verbosity :: int
  rh_sev_actions :: "uvm_severity \<rightharpoonup> action"
  rh_id_actions :: "string \<rightharpoonup> action"
  rh_sev_id_actions :: "uvm_severity \<rightharpoonup> (string \<rightharpoonup> action)"
  rh_id_verbs :: "string \<rightharpoonup> int"
  rh_sev_id_verbs :: "uvm_severity \<rightharpoonup> (string \<rightharpoonup> int)"
  rh_sev_over :: "uvm_severity \<rightharpoonup> uvm_severity"
  rh_sev_id_over :: "string \<rightharpoonup> (uvm_severity \<rightharpoonup> uvm_severity)"
  rh_default_file :: nat
  rh_sev_files :: "uvm_severity \<rightharpoonup> nat"
  rh_id_files :: "string \<rightharpoonup> nat"
  rh_sev_id_files :: "uvm_severity \<rightharpoonup> (string \<rightharpoonup> nat)"

text \<open>Two-level maps: \<open>m[a][b]\<close> with \<open>operator[]\<close> creating the inner map.\<close>

definition at2 :: "('a \<rightharpoonup> ('b \<rightharpoonup> 'c)) \<Rightarrow> 'a \<Rightarrow> 'b \<Rightarrow> 'c option" where
  "at2 m a b = (case m a of None \<Rightarrow> None | Some n \<Rightarrow> n b)"

definition set2 :: "'a \<Rightarrow> 'b \<Rightarrow> 'c \<Rightarrow> ('a \<rightharpoonup> ('b \<rightharpoonup> 'c)) \<Rightarrow> ('a \<rightharpoonup> ('b \<rightharpoonup> 'c))" where
  "set2 a b c m = m(a \<mapsto> (case m a of None \<Rightarrow> Map.empty | Some n \<Rightarrow> n)(b \<mapsto> c))"

lemma at2_set2: "at2 (set2 a b c m) a' b' = (if a' = a \<and> b' = b then Some c else at2 m a' b')"
  by (auto simp: at2_def set2_def split: option.splits)

definition set_verbosity_level :: "int \<Rightarrow> rhandler \<Rightarrow> rhandler" where
  "set_verbosity_level v rh = rh\<lparr>rh_max_verbosity := v\<rparr>"

definition set_severity_action :: "uvm_severity \<Rightarrow> action \<Rightarrow> rhandler \<Rightarrow> rhandler" where
  "set_severity_action s a rh = rh\<lparr>rh_sev_actions := (rh_sev_actions rh)(s \<mapsto> a)\<rparr>"

definition set_id_action :: "string \<Rightarrow> action \<Rightarrow> rhandler \<Rightarrow> rhandler" where
  "set_id_action i a rh = rh\<lparr>rh_id_actions := (rh_id_actions rh)(i \<mapsto> a)\<rparr>"

definition set_severity_id_action :: "uvm_severity \<Rightarrow> string \<Rightarrow> action \<Rightarrow> rhandler \<Rightarrow> rhandler" where
  "set_severity_id_action s i a rh = rh\<lparr>rh_sev_id_actions := set2 s i a (rh_sev_id_actions rh)\<rparr>"

definition set_id_verbosity :: "string \<Rightarrow> int \<Rightarrow> rhandler \<Rightarrow> rhandler" where
  "set_id_verbosity i v rh = rh\<lparr>rh_id_verbs := (rh_id_verbs rh)(i \<mapsto> v)\<rparr>"

definition set_severity_id_verbosity :: "uvm_severity \<Rightarrow> string \<Rightarrow> int \<Rightarrow> rhandler \<Rightarrow> rhandler" where
  "set_severity_id_verbosity s i v rh = rh\<lparr>rh_sev_id_verbs := set2 s i v (rh_sev_id_verbs rh)\<rparr>"

definition set_default_file :: "nat \<Rightarrow> rhandler \<Rightarrow> rhandler" where
  "set_default_file f rh = rh\<lparr>rh_default_file := f\<rparr>"

definition set_severity_file :: "uvm_severity \<Rightarrow> nat \<Rightarrow> rhandler \<Rightarrow> rhandler" where
  "set_severity_file s f rh = rh\<lparr>rh_sev_files := (rh_sev_files rh)(s \<mapsto> f)\<rparr>"

definition set_id_file :: "string \<Rightarrow> nat \<Rightarrow> rhandler \<Rightarrow> rhandler" where
  "set_id_file i f rh = rh\<lparr>rh_id_files := (rh_id_files rh)(i \<mapsto> f)\<rparr>"

definition set_severity_id_file :: "uvm_severity \<Rightarrow> string \<Rightarrow> nat \<Rightarrow> rhandler \<Rightarrow> rhandler" where
  "set_severity_id_file s i f rh = rh\<lparr>rh_sev_id_files := set2 s i f (rh_sev_id_files rh)\<rparr>"

definition set_severity_override :: "uvm_severity \<Rightarrow> uvm_severity \<Rightarrow> rhandler \<Rightarrow> rhandler" where
  "set_severity_override cur new rh = rh\<lparr>rh_sev_over := (rh_sev_over rh)(cur \<mapsto> new)\<rparr>"

definition set_severity_id_override ::
    "uvm_severity \<Rightarrow> string \<Rightarrow> uvm_severity \<Rightarrow> rhandler \<Rightarrow> rhandler" where
  "set_severity_id_override cur i new rh =
     rh\<lparr>rh_sev_id_over := set2 i cur new (rh_sev_id_over rh)\<rparr>"

text \<open>\<open>initialize\<close> is also what \<open>reset_report_handler\<close> calls: it keeps all settings by id.\<close>

definition rh_initialize :: "rhandler \<Rightarrow> rhandler" where
  "rh_initialize rh =
     (let rh1 = set_default_file 0 rh\<lparr>rh_max_verbosity := UVM_MEDIUM\<rparr>;
          rh2 = set_severity_action UVM_FATAL (UVM_DISPLAY OR UVM_EXIT)
                  (set_severity_action UVM_ERROR (UVM_DISPLAY OR UVM_COUNT)
                    (set_severity_action UVM_WARNING UVM_DISPLAY
                      (set_severity_action UVM_INFO UVM_DISPLAY rh1)));
          d = rh_default_file rh2
      in set_severity_file UVM_FATAL d (set_severity_file UVM_ERROR d
           (set_severity_file UVM_WARNING d (set_severity_file UVM_INFO d rh2))))"

definition new_handler :: rhandler where
  "new_handler = rh_initialize
     \<lparr>rh_max_verbosity = 0, rh_sev_actions = Map.empty, rh_id_actions = Map.empty,
      rh_sev_id_actions = Map.empty, rh_id_verbs = Map.empty, rh_sev_id_verbs = Map.empty,
      rh_sev_over = Map.empty, rh_sev_id_over = Map.empty, rh_default_file = 0,
      rh_sev_files = Map.empty, rh_id_files = Map.empty, rh_sev_id_files = Map.empty\<rparr>"

definition get_verbosity_level :: "rhandler \<Rightarrow> uvm_severity \<Rightarrow> string \<Rightarrow> int" where
  "get_verbosity_level rh s i =
     (case at2 (rh_sev_id_verbs rh) s i of
        Some v \<Rightarrow> v
      | None \<Rightarrow> (case rh_id_verbs rh i of Some v \<Rightarrow> v | None \<Rightarrow> rh_max_verbosity rh))"

text \<open>\<open>severity_actions[severity]\<close> of a severity without an entry is 0.\<close>

definition get_action :: "rhandler \<Rightarrow> uvm_severity \<Rightarrow> string \<Rightarrow> action" where
  "get_action rh s i =
     (case at2 (rh_sev_id_actions rh) s i of
        Some a \<Rightarrow> a
      | None \<Rightarrow> (case rh_id_actions rh i of
           Some a \<Rightarrow> a
         | None \<Rightarrow> (case rh_sev_actions rh s of Some a \<Rightarrow> a | None \<Rightarrow> UVM_NO_ACTION)))"

definition get_severity_id_file :: "rhandler \<Rightarrow> uvm_severity \<Rightarrow> string \<Rightarrow> nat" where
  "get_severity_id_file rh s i =
     (case at2 (rh_sev_id_files rh) s i of
        Some f \<Rightarrow> f
      | None \<Rightarrow> (case rh_id_files rh i of
           Some f \<Rightarrow> f
         | None \<Rightarrow> (case rh_sev_files rh s of Some f \<Rightarrow> f | None \<Rightarrow> rh_default_file rh)))"

definition get_file_handle :: "rhandler \<Rightarrow> uvm_severity \<Rightarrow> string \<Rightarrow> nat" where
  "get_file_handle rh s i =
     (let f = get_severity_id_file rh s i in
      if f \<noteq> 0 then f
      else case rh_id_files rh i of
        Some f1 \<Rightarrow>
          if f1 \<noteq> 0 then f1
          else (case rh_sev_files rh s of
                  Some f2 \<Rightarrow> if f2 \<noteq> 0 then f2 else rh_default_file rh
                | None \<Rightarrow> rh_default_file rh)
      | None \<Rightarrow> (case rh_sev_files rh s of
                  Some f2 \<Rightarrow> if f2 \<noteq> 0 then f2 else rh_default_file rh
                | None \<Rightarrow> rh_default_file rh))"

definition report_enabled :: "rhandler \<Rightarrow> int \<Rightarrow> uvm_severity \<Rightarrow> string \<Rightarrow> bool" where
  "report_enabled rh verb s i = (if get_verbosity_level rh s i < verb then False else True)"

text \<open>The severity after the overrides: an id with any override hides those by severity.\<close>

definition overridden :: "rhandler \<Rightarrow> uvm_severity \<Rightarrow> string \<Rightarrow> uvm_severity" where
  "overridden rh s i =
     (case rh_sev_id_over rh i of
        Some ov \<Rightarrow> (case ov s of Some s' \<Rightarrow> s' | None \<Rightarrow> s)
      | None \<Rightarrow> (case rh_sev_over rh s of Some s' \<Rightarrow> s' | None \<Rightarrow> s))"

section \<open>The server\<close>

record rserver =
  sv_quit :: int
  sv_max_quit :: int
  sv_overridable :: bool
  sv_sev_count :: "uvm_severity \<Rightarrow> int"
  sv_id_count :: "string \<rightharpoonup> int"
  sv_record_all :: bool

definition clamp :: "int \<Rightarrow> int" where
  "clamp n = (if n < 0 then 0 else n)"

text \<open>\<open>None\<close> when the setting is refused and reported instead.\<close>

definition set_max_quit_count :: "int \<Rightarrow> bool \<Rightarrow> rserver \<Rightarrow> rserver option" where
  "set_max_quit_count n ov sv =
     (if \<not> sv_overridable sv then None
      else Some (sv\<lparr>sv_overridable := ov, sv_max_quit := clamp n\<rparr>))"

definition set_quit_count :: "int \<Rightarrow> rserver \<Rightarrow> rserver" where
  "set_quit_count n sv = sv\<lparr>sv_quit := clamp n\<rparr>"

definition incr_quit_count :: "rserver \<Rightarrow> rserver" where
  "incr_quit_count sv = sv\<lparr>sv_quit := sv_quit sv + 1\<rparr>"

definition reset_quit_count :: "rserver \<Rightarrow> rserver" where
  "reset_quit_count sv = sv\<lparr>sv_quit := 0\<rparr>"

definition is_quit_count_reached :: "rserver \<Rightarrow> bool" where
  "is_quit_count_reached sv \<longleftrightarrow> sv_max_quit sv \<le> sv_quit sv"

definition set_severity_count :: "uvm_severity \<Rightarrow> int \<Rightarrow> rserver \<Rightarrow> rserver" where
  "set_severity_count s n sv = sv\<lparr>sv_sev_count := (sv_sev_count sv)(s := clamp n)\<rparr>"

definition incr_severity_count :: "uvm_severity \<Rightarrow> rserver \<Rightarrow> rserver" where
  "incr_severity_count s sv =
     sv\<lparr>sv_sev_count := (sv_sev_count sv)(s := sv_sev_count sv s + 1)\<rparr>"

definition reset_severity_counts :: "rserver \<Rightarrow> rserver" where
  "reset_severity_counts sv = sv\<lparr>sv_sev_count := (\<lambda>_. 0)\<rparr>"

definition get_id_count :: "rserver \<Rightarrow> string \<Rightarrow> int" where
  "get_id_count sv i = (case sv_id_count sv i of Some n \<Rightarrow> n | None \<Rightarrow> 0)"

definition set_id_count :: "string \<Rightarrow> int \<Rightarrow> rserver \<Rightarrow> rserver" where
  "set_id_count i n sv = sv\<lparr>sv_id_count := (sv_id_count sv)(i \<mapsto> clamp n)\<rparr>"

definition incr_id_count :: "string \<Rightarrow> rserver \<Rightarrow> rserver" where
  "incr_id_count i sv = sv\<lparr>sv_id_count := (sv_id_count sv)(i \<mapsto>
     (case sv_id_count sv i of Some n \<Rightarrow> n + 1 | None \<Rightarrow> 1))\<rparr>"

definition new_server :: rserver where
  "new_server =
     (let sv = \<lparr>sv_quit = 0, sv_max_quit = 0, sv_overridable = True, sv_sev_count = (\<lambda>_. 0),
                sv_id_count = Map.empty, sv_record_all = False\<rparr>
      in reset_severity_counts (reset_quit_count
           (case set_max_quit_count 0 True sv of Some sv1 \<Rightarrow> sv1 | None \<Rightarrow> sv)))"

datatype rep_event = Shown rmsg | Logged nat rmsg | Died | Stopped

record catcher_data =
  cd_set_action_called :: bool
  cd_orig :: rmsg
  cd_demoted_fatal :: nat
  cd_demoted_error :: nat
  cd_demoted_warning :: nat
  cd_caught_fatal :: nat
  cd_caught_error :: nat
  cd_caught_warning :: nat
  cd_do_not_catch :: bool
  cd_do_not_modify :: bool

record rstate =
  rs_msg :: rmsg
  rs_srv :: rserver
  rs_cat :: catcher_data
  rs_in_catcher :: bool
  rs_out :: "rep_event list"

text \<open>\<open>Inl\<close>: the exception of \<open>die\<close> left the function.\<close>

type_synonym run = "rstate + rstate"

fun next_run :: "run \<Rightarrow> (rstate \<Rightarrow> run) \<Rightarrow> run" where
  "next_run (Inl st) f = Inl st"
| "next_run (Inr st) f = f st"

definition count_message :: "rmsg \<Rightarrow> rserver \<Rightarrow> rserver" where
  "count_message m sv = incr_id_count (ms_id m) (incr_severity_count (ms_sev m) sv)"

text \<open>The message shown is the one composed before the server changes its action. \<open>Inl\<close> is the state where \<open>die\<close> is called.\<close>

definition execute_report_message :: "rstate \<Rightarrow> run" where
  "execute_report_message st =
     (let m = rs_msg st;
          sv1 = count_message m (rs_srv st);
          a1 = (if sv_record_all sv1 then ms_action m OR UVM_RM_RECORD else ms_action m);
          out1 = rs_out st @ (if does a1 UVM_DISPLAY then [Shown m] else [])
                   @ (if does a1 UVM_LOG then [Logged (ms_file m) m] else []);
          quits = does a1 UVM_COUNT \<and> sv_max_quit sv1 \<noteq> 0;
          sv2 = (if quits then incr_quit_count sv1 else sv1);
          a2 = (if quits \<and> is_quit_count_reached sv2 then a1 OR UVM_EXIT else a1);
          st2 = st\<lparr>rs_msg := m\<lparr>ms_action := a2\<rparr>, rs_srv := sv2, rs_out := out1\<rparr>
      in if does a2 UVM_EXIT then Inl (st2\<lparr>rs_out := out1 @ [Died]\<rparr>)
         else if does a2 UVM_STOP then Inr (st2\<lparr>rs_out := out1 @ [Stopped]\<rparr>)
         else Inr st2)"

section \<open>Catchers\<close>

datatype catch_action = UNKNOWN_ACTION | THROW | CAUGHT

datatype ccall =
    C_set_severity uvm_severity
  | C_set_verbosity int
  | C_set_id string
  | C_set_message string
  | C_set_action action
  | C_report uvm_severity string string int
  | C_issue

record catcher =
  ct_on :: bool
  ct_catch :: "rmsg \<Rightarrow> ccall list \<times> catch_action"

definition set_report_message :: "uvm_severity \<Rightarrow> string \<Rightarrow> string \<Rightarrow> int \<Rightarrow> rmsg \<Rightarrow> rmsg" where
  "set_report_message s i t v m = m\<lparr>ms_sev := s, ms_id := i, ms_text := t, ms_verb := v\<rparr>"

definition upd_msg :: "(rmsg \<Rightarrow> rmsg) \<Rightarrow> rstate \<Rightarrow> rstate" where
  "upd_msg f st = st\<lparr>rs_msg := f (rs_msg st)\<rparr>"

text \<open>
  \<open>uvm_report\<close> of a catcher: the filter is that of the root, \<open>rt\<close>; the message object is the
  one being processed; the report goes to the server past all catchers. \<open>rh\<close> is the handler of
  the object whose report is being caught.
\<close>

definition catcher_process :: "rhandler \<Rightarrow> rstate \<Rightarrow> run" where
  "catcher_process rh st =
     (let m = rs_msg st; a = get_action rh (ms_sev m) (ms_id m)
      in if a \<noteq> 0
         then execute_report_message
                (upd_msg (\<lambda>m. m\<lparr>ms_file := get_file_handle rh (ms_sev m) (ms_id m), ms_action := a\<rparr>) st)
         else Inr st)"

definition catcher_report ::
    "rhandler \<Rightarrow> rhandler \<Rightarrow> uvm_severity \<Rightarrow> string \<Rightarrow> string \<Rightarrow> int \<Rightarrow> rstate \<Rightarrow> run" where
  "catcher_report rh rt s i t verb st =
     (let v = (if s = UVM_INFO then verb else UVM_NONE)
      in if \<not> report_enabled rt v s i then Inr st
         else catcher_process rh (upd_msg (set_report_message s i t v) st))"

definition issue :: "rstate \<Rightarrow> run" where
  "issue st =
     (if ms_action (rs_msg st) \<noteq> UVM_NO_ACTION then execute_report_message st else Inr st)"

fun catch_call :: "rhandler \<Rightarrow> rhandler \<Rightarrow> ccall \<Rightarrow> rstate \<Rightarrow> run" where
  "catch_call rh rt (C_set_severity s) st = Inr (upd_msg (ms_sev_update (\<lambda>_. s)) st)"
| "catch_call rh rt (C_set_verbosity v) st = Inr (upd_msg (ms_verb_update (\<lambda>_. v)) st)"
| "catch_call rh rt (C_set_id i) st = Inr (upd_msg (ms_id_update (\<lambda>_. i)) st)"
| "catch_call rh rt (C_set_message t) st = Inr (upd_msg (ms_text_update (\<lambda>_. t)) st)"
| "catch_call rh rt (C_set_action a) st = Inr (upd_msg (ms_action_update (\<lambda>_. a)) st)"
| "catch_call rh rt (C_report s i t v) st = catcher_report rh rt s i t v st"
| "catch_call rh rt C_issue st = issue st"

fun catch_calls :: "rhandler \<Rightarrow> rhandler \<Rightarrow> ccall list \<Rightarrow> rstate \<Rightarrow> run" where
  "catch_calls rh rt [] st = Inr st"
| "catch_calls rh rt (c # cs) st = next_run (catch_call rh rt c st) (catch_calls rh rt cs)"

definition rptcthr_text :: string where
  "rptcthr_text = ''uvm_report_this.catch() in catcher instance must return THROW or CAUGHT''"

text \<open>The result of \<open>process_report_catcher\<close> is whether the report is thrown on.\<close>

definition process_report_catcher :: "rhandler \<Rightarrow> rhandler \<Rightarrow> catcher \<Rightarrow> rstate \<Rightarrow> bool \<times> run" where
  "process_report_catcher rh rt ct st =
     (case ct_catch ct (rs_msg st) of (calls, act) \<Rightarrow>
        let r1 = catch_calls rh rt calls st;
            r2 = next_run r1 (\<lambda>st1. if act = UNKNOWN_ACTION
                   then catcher_report rh rt UVM_ERROR ''RPTCTHR'' rptcthr_text UVM_NONE st1
                   else Inr st1);
            r3 = next_run r2 (\<lambda>st2. Inr (if cd_do_not_modify (rs_cat st2)
                   then upd_msg (\<lambda>_. cd_orig (rs_cat st2)) st2 else st2))
        in (\<not> (act = CAUGHT \<and> \<not> cd_do_not_catch (rs_cat st)), r3))"

definition no_id :: string where
  "no_id = ''*@&*^*^*#''"

text \<open>
  After a catcher changed the severity, the default action of the old severity becomes that of
  the new one, unless \<open>m_set_action_called\<close>, which nothing sets.
\<close>

definition adjust_action :: "rhandler \<Rightarrow> uvm_severity \<Rightarrow> rstate \<Rightarrow> rstate" where
  "adjust_action rh prev st =
     (let m = rs_msg st
      in if \<not> cd_set_action_called (rs_cat st) \<and> ms_sev m \<noteq> prev \<and>
            ms_action m = get_action rh prev no_id
         then upd_msg (ms_action_update (\<lambda>_. get_action rh (ms_sev m) no_id)) st
         else st)"

fun count_caught :: "uvm_severity \<Rightarrow> catcher_data \<Rightarrow> catcher_data" where
  "count_caught UVM_FATAL cd = cd\<lparr>cd_caught_fatal := cd_caught_fatal cd + 1\<rparr>"
| "count_caught UVM_ERROR cd = cd\<lparr>cd_caught_error := cd_caught_error cd + 1\<rparr>"
| "count_caught UVM_WARNING cd = cd\<lparr>cd_caught_warning := cd_caught_warning cd + 1\<rparr>"
| "count_caught UVM_INFO cd = cd"

definition count_demoted :: "uvm_severity \<Rightarrow> uvm_severity \<Rightarrow> catcher_data \<Rightarrow> catcher_data" where
  "count_demoted orig now cd =
     (if severity_rank now < severity_rank orig
      then (case orig of
              UVM_FATAL \<Rightarrow> cd\<lparr>cd_demoted_fatal := cd_demoted_fatal cd + 1\<rparr>
            | UVM_ERROR \<Rightarrow> cd\<lparr>cd_demoted_error := cd_demoted_error cd + 1\<rparr>
            | UVM_WARNING \<Rightarrow> cd\<lparr>cd_demoted_warning := cd_demoted_warning cd + 1\<rparr>
            | UVM_INFO \<Rightarrow> cd)
      else cd)"

definition upd_cat :: "(catcher_data \<Rightarrow> catcher_data) \<Rightarrow> rstate \<Rightarrow> rstate" where
  "upd_cat f st = st\<lparr>rs_cat := f (rs_cat st)\<rparr>"

fun run_catchers ::
    "rhandler \<Rightarrow> rhandler \<Rightarrow> uvm_severity \<Rightarrow> catcher list \<Rightarrow> bool \<Rightarrow> rstate \<Rightarrow> bool \<times> run" where
  "run_catchers rh rt orig [] thrown st = (thrown, Inr st)"
| "run_catchers rh rt orig (ct # cts) thrown st =
     (if \<not> ct_on ct then run_catchers rh rt orig cts thrown st
      else case process_report_catcher rh rt ct (upd_cat (cd_set_action_called_update (\<lambda>_. False)) st)
           of (t, r) \<Rightarrow>
             (case r of
                Inl st1 \<Rightarrow> (t, Inl st1)
              | Inr st1 \<Rightarrow>
                  let st2 = adjust_action rh (ms_sev (rs_msg st)) st1
                  in if \<not> t then (False, Inr (upd_cat (count_caught orig) st2))
                     else run_catchers rh rt orig cts t st2))"

definition process_all_report_catchers ::
    "rhandler \<Rightarrow> rhandler \<Rightarrow> catcher list \<Rightarrow> rstate \<Rightarrow> bool \<times> run" where
  "process_all_report_catchers rh rt cts st =
     (if rs_in_catcher st then (True, Inr st)
      else let orig = ms_sev (rs_msg st);
               st1 = st\<lparr>rs_in_catcher := True\<rparr>;
               st2 = (if cts \<noteq> [] \<and> cd_do_not_modify (rs_cat st1)
                      then upd_cat (cd_orig_update (\<lambda>_. rs_msg st1)) st1 else st1)
           in case run_catchers rh rt orig cts True st2 of
                (t, Inl st3) \<Rightarrow> (t, Inl st3)
              | (t, Inr st3) \<Rightarrow>
                  (t, Inr ((upd_cat (count_demoted orig (ms_sev (rs_msg st3))) st3)
                             \<lparr>rs_in_catcher := False\<rparr>)))"

definition server_process :: "rhandler \<Rightarrow> rhandler \<Rightarrow> catcher list \<Rightarrow> rstate \<Rightarrow> run" where
  "server_process rh rt cts st =
     (case process_all_report_catchers rh rt cts st of
        (t, Inl st1) \<Rightarrow> Inl st1
      | (t, Inr st1) \<Rightarrow>
          if t \<and> ms_action (rs_msg st1) \<noteq> UVM_NO_ACTION then execute_report_message st1
          else Inr st1)"

definition process_report_message :: "rhandler \<Rightarrow> rhandler \<Rightarrow> catcher list \<Rightarrow> rstate \<Rightarrow> run" where
  "process_report_message rh rt cts st =
     (let m = rs_msg st;
          s = overridden rh (ms_sev m) (ms_id m);
          m1 = m\<lparr>ms_sev := s, ms_file := get_file_handle rh s (ms_id m),
                 ms_action := get_action rh s (ms_id m)\<rparr>
      in server_process rh rt cts (st\<lparr>rs_msg := m1\<rparr>))"

text \<open>A report of an object. The default argument of the verbosity is -1; an explicit -1 means the same.\<close>

definition default_verbosity :: "uvm_severity \<Rightarrow> int" where
  "default_verbosity s =
     (if s = UVM_ERROR then UVM_LOW else if s = UVM_FATAL then UVM_NONE else UVM_MEDIUM)"

record report_call =
  rc_sev :: uvm_severity
  rc_id :: string
  rc_text :: string
  rc_verb :: int
  rc_checked :: bool

definition call_verb :: "report_call \<Rightarrow> int" where
  "call_verb c = (if rc_verb c = - 1 then default_verbosity (rc_sev c) else rc_verb c)"

definition object_report ::
    "rhandler \<Rightarrow> rhandler \<Rightarrow> catcher list \<Rightarrow> report_call \<Rightarrow> rstate \<Rightarrow> run" where
  "object_report rh rt cts c st =
     (let v = call_verb c
      in if \<not> rc_checked c \<and> \<not> report_enabled rh v (rc_sev c) (rc_id c) then Inr st
         else process_report_message rh rt cts
                (upd_msg (set_report_message (rc_sev c) (rc_id c) (rc_text c) v) st))"

fun run_reports ::
    "rhandler \<Rightarrow> rhandler \<Rightarrow> catcher list \<Rightarrow> report_call list \<Rightarrow> rstate \<Rightarrow> run" where
  "run_reports rh rt cts [] st = Inr st"
| "run_reports rh rt cts (c # cs) st =
     next_run (object_report rh rt cts c st) (run_reports rh rt cts cs)"

section \<open>Reports without catchers\<close>

lemma does_bit: "does a f \<longleftrightarrow> (\<exists>i. bit a i \<and> bit f i)"
proof -
  have "bit a i \<Longrightarrow> i < 32" for i using bit_imp_le_length [of a i] by simp
  then show ?thesis by (auto simp: does_def bit_eq_iff bit_simps)
qed

lemma does_or [simp]: "does (a OR b) f \<longleftrightarrow> does a f \<or> does b f"
  by (auto simp: does_bit bit_simps)

lemma map_filter_Cons: "List.map_filter f (x # xs) =
   (case f x of None \<Rightarrow> List.map_filter f xs | Some y \<Rightarrow> y # List.map_filter f xs)"
  by (simp add: List.map_filter_def split: option.splits)

lemma map_filter_Nil: "List.map_filter f [] = []"
  by (simp add: List.map_filter_def)

lemma does_flags [simp]:
  "\<not> does UVM_RM_RECORD UVM_DISPLAY" "\<not> does UVM_RM_RECORD UVM_LOG" "\<not> does UVM_RM_RECORD UVM_COUNT"
  "\<not> does UVM_RM_RECORD UVM_EXIT" "\<not> does UVM_RM_RECORD UVM_STOP" "does UVM_EXIT UVM_EXIT"
  "\<not> does UVM_NO_ACTION f" "\<not> does UVM_EXIT UVM_STOP"
  by (simp_all add: does_def action_defs)

definition total_count :: "rserver \<Rightarrow> int" where
  "total_count sv = sv_sev_count sv UVM_INFO + sv_sev_count sv UVM_WARNING
     + sv_sev_count sv UVM_ERROR + sv_sev_count sv UVM_FATAL"

lemma total_count_message [simp]: "total_count (count_message m sv) = total_count sv + 1"
  by (cases "ms_sev m") (simp_all add: total_count_def count_message_def incr_id_count_def
      incr_severity_count_def)

lemma count_message_same [simp]:
  "sv_quit (count_message m sv) = sv_quit sv" "sv_max_quit (count_message m sv) = sv_max_quit sv"
  "sv_record_all (count_message m sv) = sv_record_all sv"
  by (simp_all add: count_message_def incr_id_count_def incr_severity_count_def)

lemma incr_quit_same [simp]:
  "sv_quit (incr_quit_count sv) = sv_quit sv + 1" "sv_max_quit (incr_quit_count sv) = sv_max_quit sv"
  "sv_sev_count (incr_quit_count sv) = sv_sev_count sv"
  "sv_id_count (incr_quit_count sv) = sv_id_count sv"
  "sv_record_all (incr_quit_count sv) = sv_record_all sv"
  "total_count (incr_quit_count sv) = total_count sv"
  by (simp_all add: incr_quit_count_def total_count_def)

text \<open>One execution: whether it ends the simulation, and what it leaves.\<close>

definition ends :: "rserver \<Rightarrow> action \<Rightarrow> bool" where
  "ends sv a \<longleftrightarrow> does a UVM_EXIT \<or>
     (does a UVM_COUNT \<and> sv_max_quit sv \<noteq> 0 \<and> sv_max_quit sv \<le> sv_quit sv + 1)"

definition quit_after :: "rserver \<Rightarrow> action \<Rightarrow> int" where
  "quit_after sv a =
     (if does a UVM_COUNT \<and> sv_max_quit sv \<noteq> 0 then sv_quit sv + 1 else sv_quit sv)"

definition server_after :: "rmsg \<Rightarrow> rserver \<Rightarrow> rserver" where
  "server_after m sv = (count_message m sv)\<lparr>sv_quit := quit_after sv (ms_action m)\<rparr>"

lemma server_after_same [simp]:
  "total_count (server_after m sv) = total_count sv + 1"
  "sv_quit (server_after m sv) = quit_after sv (ms_action m)"
  "sv_max_quit (server_after m sv) = sv_max_quit sv"
  "sv_record_all (server_after m sv) = sv_record_all sv"
  using total_count_message [of m sv] by (simp_all add: server_after_def total_count_def)

lemma execute_cases:
  "(case execute_report_message st of
      Inl st' \<Rightarrow> ends (rs_srv st) (ms_action (rs_msg st)) \<and>
        rs_srv st' = server_after (rs_msg st) (rs_srv st) \<and> (\<exists>out. rs_out st' = out @ [Died])
    | Inr st' \<Rightarrow> \<not> ends (rs_srv st) (ms_action (rs_msg st)) \<and>
        rs_srv st' = server_after (rs_msg st) (rs_srv st) \<and>
        rs_in_catcher st' = rs_in_catcher st \<and> rs_cat st' = rs_cat st)"
proof -
  have q: "incr_quit_count (count_message m sv) = (count_message m sv)\<lparr>sv_quit := sv_quit sv + 1\<rparr>"
    "count_message m sv = (count_message m sv)\<lparr>sv_quit := sv_quit sv\<rparr>" for m sv
    using count_message_same [of m sv] by (simp_all add: incr_quit_count_def)
  show ?thesis
    using q by (auto simp: execute_report_message_def Let_def ends_def server_after_def
        quit_after_def is_quit_count_reached_def)
qed

definition effective :: "rhandler \<Rightarrow> report_call \<Rightarrow> action option" where
  "effective rh c =
     (let a = get_action rh (overridden rh (rc_sev c) (rc_id c)) (rc_id c)
      in if (rc_checked c \<or> report_enabled rh (call_verb c) (rc_sev c) (rc_id c)) \<and> a \<noteq> UVM_NO_ACTION
         then Some a else None)"

lemma no_catchers:
  "\<not> rs_in_catcher st \<Longrightarrow> process_all_report_catchers rh rt [] st = (True, Inr st)"
  by (simp add: process_all_report_catchers_def Let_def count_demoted_def upd_cat_def)

lemma object_report_none:
  assumes "effective rh c = None" "\<not> rs_in_catcher st"
  shows "\<exists>st'. object_report rh rt [] c st = Inr st' \<and> rs_srv st' = rs_srv st \<and>
    rs_in_catcher st' = rs_in_catcher st"
  using assms
  by (auto simp: effective_def object_report_def process_report_message_def server_process_def
      no_catchers set_report_message_def upd_msg_def Let_def split: if_splits)

lemma object_report_some:
  assumes "effective rh c = Some a" "\<not> rs_in_catcher st"
  shows "\<exists>st0. object_report rh rt [] c st = execute_report_message st0 \<and> rs_srv st0 = rs_srv st \<and>
    ms_action (rs_msg st0) = a \<and> \<not> rs_in_catcher st0"
  using assms
  by (auto simp: effective_def object_report_def process_report_message_def server_process_def
      no_catchers set_report_message_def upd_msg_def Let_def split: if_splits)

text \<open>The report with index \<open>i\<close> of the executed ones ends the simulation.\<close>

definition counted :: "action list \<Rightarrow> int" where
  "counted as = int (length (filter (\<lambda>a. does a UVM_COUNT) as))"

definition ends_at :: "rserver \<Rightarrow> action list \<Rightarrow> nat \<Rightarrow> bool" where
  "ends_at sv as i \<longleftrightarrow> i < length as \<and> (does (as ! i) UVM_EXIT \<or>
     (does (as ! i) UVM_COUNT \<and> sv_max_quit sv \<noteq> 0 \<and>
      sv_max_quit sv \<le> sv_quit sv + counted (take (Suc i) as)))"

lemma ends_at_0: "ends_at sv (a # as) 0 \<longleftrightarrow> ends sv a"
  by (auto simp: ends_at_def ends_def counted_def)

lemma ends_at_Suc:
  "sv_max_quit sv' = sv_max_quit sv \<Longrightarrow> sv_quit sv' = quit_after sv a \<Longrightarrow>
   ends_at sv (a # as) (Suc i) \<longleftrightarrow> ends_at sv' as i"
  by (auto simp: ends_at_def counted_def quit_after_def)

definition first_end :: "rserver \<Rightarrow> action list \<Rightarrow> nat \<Rightarrow> bool" where
  "first_end sv as k \<longleftrightarrow> ends_at sv as k \<and> (\<forall>i < k. \<not> ends_at sv as i)"

lemma run_no_catchers:
  assumes "\<not> rs_in_catcher st"
  shows "case run_reports rh rt [] cs st of
      Inl st' \<Rightarrow> (\<exists>k. first_end (rs_srv st) (List.map_filter (effective rh) cs) k \<and>
        total_count (rs_srv st') = total_count (rs_srv st) + int k + 1 \<and> (\<exists>out. rs_out st' = out @ [Died]))
    | Inr st' \<Rightarrow> (\<forall>k. \<not> ends_at (rs_srv st) (List.map_filter (effective rh) cs) k) \<and>
        total_count (rs_srv st') = total_count (rs_srv st) + int (length (List.map_filter (effective rh) cs))"
  using assms
proof (induction cs arbitrary: st)
  case Nil
  then show ?case by (simp add: map_filter_Cons map_filter_Nil ends_at_def)
next
  case (Cons c cs)
  let ?es = "List.map_filter (effective rh) cs"
  have mS: "effective rh c = Some a \<Longrightarrow> List.map_filter (effective rh) (c # cs) = a # ?es" for a
    by (simp add: map_filter_Cons)
  show ?case
  proof (cases "effective rh c")
    case None
    then obtain st' where "object_report rh rt [] c st = Inr st'" "rs_srv st' = rs_srv st"
        "\<not> rs_in_catcher st'"
      using object_report_none [OF None] Cons.prems by metis
    moreover have "List.map_filter (effective rh) (c # cs) = ?es"
      using None by (simp add: map_filter_Cons)
    ultimately show ?thesis using Cons.IH [of st'] by (simp only: run_reports.simps next_run.simps not_False_eq_True True_implies_equals)
  next
    case (Some a)
    from object_report_some [OF Some Cons.prems] obtain st0 where
      o: "object_report rh rt [] c st = execute_report_message st0" "rs_srv st0 = rs_srv st"
        "ms_action (rs_msg st0) = a" "\<not> rs_in_catcher st0" by blast
    show ?thesis
    proof (cases "execute_report_message st0")
      case (Inl st')
      then have "ends_at (rs_srv st) (a # ?es) 0" "total_count (rs_srv st') = total_count (rs_srv st) + 1"
          "\<exists>out. rs_out st' = out @ [Died]"
        using execute_cases [of st0] o by (simp_all add: ends_at_0)
      then show ?thesis using Inl o Some by (auto simp: first_end_def)
    next
      case (Inr st')
      then have e: "\<not> ends_at (rs_srv st) (a # ?es) 0" and s: "rs_srv st' = server_after (rs_msg st0) (rs_srv st)"
          and i: "\<not> rs_in_catcher st'"
        using execute_cases [of st0] o by (simp_all add: ends_at_0)
      have S: "ends_at (rs_srv st) (a # ?es) (Suc i) \<longleftrightarrow> ends_at (rs_srv st') ?es i" for i
        by (rule ends_at_Suc) (simp_all add: s o(3))
      have A: "(\<forall>k. \<not> ends_at (rs_srv st) (a # ?es) k) \<longleftrightarrow> (\<forall>k. \<not> ends_at (rs_srv st') ?es k)"
        using e S by (metis not0_implies_Suc)
      have F: "first_end (rs_srv st') ?es k \<Longrightarrow> first_end (rs_srv st) (a # ?es) (Suc k)" for k
        using e S by (auto simp: first_end_def less_Suc_eq_0_disj)
      have T: "total_count (rs_srv st') = total_count (rs_srv st) + 1" using s by simp
      show ?thesis
      proof (cases "run_reports rh rt [] cs st'")
        case (Inl st2)
        then obtain k where "first_end (rs_srv st') ?es k"
            "total_count (rs_srv st2) = total_count (rs_srv st') + int k + 1" "\<exists>out. rs_out st2 = out @ [Died]"
          using Cons.IH [OF i] by auto
        with F T have "first_end (rs_srv st) (List.map_filter (effective rh) (c # cs)) (Suc k) \<and>
            total_count (rs_srv st2) = total_count (rs_srv st) + int (Suc k) + 1 \<and>
            (\<exists>out. rs_out st2 = out @ [Died])"
          by (simp add: mS [OF Some] del: List.map_filter_simps)
        moreover have "run_reports rh rt [] (c # cs) st = Inl st2"
          using Inl \<open>execute_report_message st0 = Inr st'\<close> o(1) by simp
        ultimately show ?thesis by (simp only: sum.case) blast
      next
        case (Inr st2)
        then show ?thesis
          using Cons.IH [OF i] \<open>execute_report_message st0 = Inr st'\<close> o A T
          using Some by (simp add: map_filter_Cons)
      qed
    qed
  qed
qed

section \<open>Every run keeps the counts consistent\<close>

text \<open>
  The invariant of the server: no count is negative, the counts by severity and by id have the
  same sum, and the quit count stays below a maximum that is set.
\<close>

definition id_total :: "rserver \<Rightarrow> int" where
  "id_total sv = (\<Sum>i \<in> dom (sv_id_count sv). get_id_count sv i)"

definition server_counts_ok :: "rserver \<Rightarrow> bool" where
  "server_counts_ok sv \<longleftrightarrow> finite (dom (sv_id_count sv)) \<and> id_total sv = total_count sv \<and>
     (\<forall>s. 0 \<le> sv_sev_count sv s) \<and> (\<forall>i. 0 \<le> get_id_count sv i) \<and> 0 \<le> sv_quit sv"

definition below_max :: "rserver \<Rightarrow> bool" where
  "below_max sv \<longleftrightarrow> 0 \<le> sv_max_quit sv \<and> (sv_max_quit sv \<noteq> 0 \<longrightarrow> sv_quit sv < sv_max_quit sv)"

definition at_most_max :: "rserver \<Rightarrow> bool" where
  "at_most_max sv \<longleftrightarrow> (sv_max_quit sv \<noteq> 0 \<longrightarrow> sv_quit sv \<le> sv_max_quit sv)"

lemma id_total_incr:
  assumes "finite (dom (sv_id_count sv))"
  shows "id_total (incr_id_count i sv) = id_total sv + 1"
proof -
  let ?sv = "incr_id_count i sv"
  have g: "get_id_count ?sv j = (if j = i then get_id_count sv i + 1 else get_id_count sv j)" for j
    by (simp add: get_id_count_def incr_id_count_def split: option.splits)
  have d: "dom (sv_id_count ?sv) = insert i (dom (sv_id_count sv))"
    by (simp add: incr_id_count_def)
  have r: "(\<Sum>j \<in> dom (sv_id_count sv) - {i}. get_id_count ?sv j) =
      (\<Sum>j \<in> dom (sv_id_count sv) - {i}. get_id_count sv j)"
    by (rule sum.cong) (simp_all add: g)
  have "id_total ?sv = get_id_count sv i + 1 + (\<Sum>j \<in> dom (sv_id_count sv) - {i}. get_id_count sv j)"
    using assms by (simp add: id_total_def d sum.insert_remove r) (simp add: g)
  moreover have "id_total sv = get_id_count sv i + (\<Sum>j \<in> dom (sv_id_count sv) - {i}. get_id_count sv j)"
  proof (cases "i \<in> dom (sv_id_count sv)")
    case True
    then show ?thesis using assms by (simp add: id_total_def sum.remove)
  next
    case False
    then have "get_id_count sv i = 0" by (simp add: get_id_count_def domIff)
    with False show ?thesis by (simp add: id_total_def)
  qed
  ultimately show ?thesis by simp
qed

lemma counts_ok_message:
  assumes "server_counts_ok sv"
  shows "server_counts_ok (count_message m sv)"
proof -
  let ?sv = "incr_severity_count (ms_sev m) sv"
  have s: "sv_id_count ?sv = sv_id_count sv" "id_total ?sv = id_total sv"
    "get_id_count ?sv = get_id_count sv" "sv_quit ?sv = sv_quit sv"
    by (simp_all add: incr_severity_count_def id_total_def get_id_count_def fun_eq_iff)
  have "id_total (count_message m sv) = id_total sv + 1"
    using id_total_incr [of ?sv "ms_id m"] assms s by (simp add: count_message_def server_counts_ok_def)
  moreover have "0 \<le> sv_sev_count (count_message m sv) s" for s
    using assms by (simp add: server_counts_ok_def count_message_def incr_id_count_def incr_severity_count_def)
  moreover have "0 \<le> get_id_count (count_message m sv) i" for i
  proof -
    have "0 \<le> get_id_count sv i" "0 \<le> get_id_count sv (ms_id m)" using assms by (simp_all add: server_counts_ok_def)
    then show ?thesis
      by (auto simp: count_message_def incr_id_count_def incr_severity_count_def get_id_count_def
          split: option.splits)
  qed
  moreover have "finite (dom (sv_id_count (count_message m sv)))"
    using assms by (simp add: server_counts_ok_def count_message_def incr_id_count_def incr_severity_count_def)
  ultimately show ?thesis using assms by (simp add: server_counts_ok_def)
qed

definition report_run_ok :: "run \<Rightarrow> bool" where
  "report_run_ok r \<longleftrightarrow> (case r of
      Inl st \<Rightarrow> server_counts_ok (rs_srv st) \<and> at_most_max (rs_srv st)
    | Inr st \<Rightarrow> server_counts_ok (rs_srv st) \<and> below_max (rs_srv st))"

abbreviation state_ok :: "rstate \<Rightarrow> bool" where
  "state_ok st \<equiv> report_run_ok (Inr st)"

lemma report_run_ok_simps [simp]:
  "report_run_ok (Inl st) \<longleftrightarrow> server_counts_ok (rs_srv st) \<and> at_most_max (rs_srv st)"
  "report_run_ok (Inr st) \<longleftrightarrow> server_counts_ok (rs_srv st) \<and> below_max (rs_srv st)"
  by (simp_all add: report_run_ok_def)

lemma report_run_ok_next: "report_run_ok r \<Longrightarrow> (\<And>st. state_ok st \<Longrightarrow> report_run_ok (f st)) \<Longrightarrow> report_run_ok (next_run r f)"
  by (cases r) simp_all

lemma state_ok_same [simp]:
  "rs_srv (upd_msg f st) = rs_srv st" "rs_srv (upd_cat g st) = rs_srv st"
  "rs_srv (adjust_action rh s st) = rs_srv st"
  by (simp_all add: upd_msg_def upd_cat_def adjust_action_def Let_def)

lemma counts_ok_quit: "server_counts_ok sv \<Longrightarrow> 0 \<le> q \<Longrightarrow> server_counts_ok (sv\<lparr>sv_quit := q\<rparr>)"
  by (simp add: server_counts_ok_def id_total_def get_id_count_def total_count_def)

lemma execute_ok:
  assumes "state_ok st"
  shows "report_run_ok (execute_report_message st)"
proof -
  let ?a = "ms_action (rs_msg st)" and ?sv = "rs_srv st"
  have "server_counts_ok (server_after (rs_msg st) ?sv)"
    using assms counts_ok_message [of ?sv "rs_msg st"] counts_ok_quit
    by (simp add: server_after_def quit_after_def server_counts_ok_def)
  moreover have "at_most_max (server_after (rs_msg st) ?sv)"
    using assms by (auto simp: at_most_max_def below_max_def quit_after_def)
  moreover have "\<not> ends ?sv ?a \<Longrightarrow> below_max (server_after (rs_msg st) ?sv)"
    using assms by (auto simp: below_max_def quit_after_def ends_def)
  ultimately show ?thesis
    using execute_cases [of st] by (cases "execute_report_message st") simp_all
qed

lemma catcher_process_ok: "state_ok st \<Longrightarrow> report_run_ok (catcher_process rh st)"
  by (simp add: catcher_process_def Let_def execute_ok)

lemma catcher_report_ok: "state_ok st \<Longrightarrow> report_run_ok (catcher_report rh rt s i t v st)"
  by (simp add: catcher_report_def Let_def catcher_process_ok)

lemma catch_call_ok: "state_ok st \<Longrightarrow> report_run_ok (catch_call rh rt c st)"
  by (cases c) (simp_all add: catcher_report_ok issue_def execute_ok)

lemma catch_calls_ok: "state_ok st \<Longrightarrow> report_run_ok (catch_calls rh rt cs st)"
  by (induction cs arbitrary: st) (simp_all add: report_run_ok_next catch_call_ok del: report_run_ok_simps(2))

lemma process_catcher_ok:
  assumes "state_ok st"
  shows "report_run_ok (snd (process_report_catcher rh rt ct st))"
proof -
  obtain calls act where c: "ct_catch ct (rs_msg st) = (calls, act)" by fastforce
  have "report_run_ok (next_run (catch_calls rh rt calls st) (\<lambda>st1. if act = UNKNOWN_ACTION
      then catcher_report rh rt UVM_ERROR ''RPTCTHR'' rptcthr_text UVM_NONE st1 else Inr st1))"
    by (rule report_run_ok_next [OF catch_calls_ok [OF assms]]) (auto intro: catcher_report_ok)
  then show ?thesis
    by (simp add: process_report_catcher_def c Let_def) (erule report_run_ok_next, auto)
qed

lemma run_catchers_ok: "state_ok st \<Longrightarrow> report_run_ok (snd (run_catchers rh rt s cts t st))"
proof (induction cts arbitrary: t st)
  case (Cons ct cts)
  let ?st = "upd_cat (cd_set_action_called_update (\<lambda>_. False)) st"
  obtain t1 r where p: "process_report_catcher rh rt ct ?st = (t1, r)" by fastforce
  have "report_run_ok r" using process_catcher_ok [of ?st rh rt ct] Cons.prems p by simp
  then show ?case
    using p Cons.IH Cons.prems by (cases r) (simp_all add: Let_def)
qed simp

lemma process_all_ok:
  assumes "state_ok st"
  shows "report_run_ok (snd (process_all_report_catchers rh rt cts st))"
proof (cases "rs_in_catcher st")
  case False
  define st1 where "st1 = st\<lparr>rs_in_catcher := True\<rparr>"
  define st2 where "st2 = (if cts \<noteq> [] \<and> cd_do_not_modify (rs_cat st1)
    then upd_cat (cd_orig_update (\<lambda>_. rs_msg st1)) st1 else st1)"
  obtain t r where c: "run_catchers rh rt (ms_sev (rs_msg st)) cts True st2 = (t, r)" by fastforce
  have "state_ok st2" using assms by (simp add: st2_def st1_def)
  from run_catchers_ok [OF this, of rh rt "ms_sev (rs_msg st)" cts True]
  have "report_run_ok r" by (simp add: c)
  moreover have "process_all_report_catchers rh rt cts st = (case (t, r) of
      (t, Inl st3) \<Rightarrow> (t, Inl st3)
    | (t, Inr st3) \<Rightarrow> (t, Inr ((upd_cat (count_demoted (ms_sev (rs_msg st)) (ms_sev (rs_msg st3))) st3)
                             \<lparr>rs_in_catcher := False\<rparr>)))"
    using False c unfolding process_all_report_catchers_def Let_def st1_def st2_def by simp
  ultimately show ?thesis by (cases r) simp_all
qed (use assms in \<open>simp add: process_all_report_catchers_def\<close>)

lemma server_process_ok:
  assumes "state_ok st"
  shows "report_run_ok (server_process rh rt cts st)"
proof -
  obtain t r where c: "process_all_report_catchers rh rt cts st = (t, r)" by fastforce
  have "report_run_ok r" using process_all_ok [OF assms, of rh rt cts] c by simp
  then show ?thesis by (cases r) (simp_all add: server_process_def c execute_ok)
qed

lemma object_report_ok: "state_ok st \<Longrightarrow> report_run_ok (object_report rh rt cts c st)"
  by (simp add: object_report_def process_report_message_def Let_def server_process_ok)

lemma run_reports_ok: "state_ok st \<Longrightarrow> report_run_ok (run_reports rh rt cts cs st)"
  by (induction cs arbitrary: st) (simp_all add: report_run_ok_next object_report_ok del: report_run_ok_simps(2))

section \<open>Properties\<close>

text \<open>
  C24. Without catchers a run of reports executes exactly the reports that pass the filter of the
  handler with an action, and it ends at the first of them, index \<open>k\<close>, whose action has EXIT or
  whose COUNT reaches the maximum quit count: then \<open>k + 1\<close> reports were counted and the last
  event is the termination. If there is no such report, all of them are counted.
\<close>

theorem quit_exactly_at_limit:
  assumes "\<not> rs_in_catcher st"
  shows "case run_reports rh rt [] cs st of
      Inl st' \<Rightarrow> \<exists>k. first_end (rs_srv st) (List.map_filter (effective rh) cs) k \<and>
        total_count (rs_srv st') = total_count (rs_srv st) + int k + 1 \<and> (\<exists>out. rs_out st' = out @ [Died])
    | Inr st' \<Rightarrow> (\<forall>k. \<not> ends_at (rs_srv st) (List.map_filter (effective rh) cs) k) \<and>
        total_count (rs_srv st') = total_count (rs_srv st) + int (length (List.map_filter (effective rh) cs))"
  using run_no_catchers [OF assms] .

definition blank_msg :: rmsg where
  "blank_msg = \<lparr>ms_sev = UVM_INFO, ms_id = [], ms_text = [], ms_verb = 0, ms_action = 0, ms_file = 0\<rparr>"

definition start_state :: "int \<Rightarrow> rstate" where
  "start_state n = \<lparr>rs_msg = blank_msg, rs_srv = new_server\<lparr>sv_max_quit := n\<rparr>,
     rs_cat = \<lparr>cd_set_action_called = False, cd_orig = blank_msg, cd_demoted_fatal = 0,
       cd_demoted_error = 0, cd_demoted_warning = 0, cd_caught_fatal = 0, cd_caught_error = 0,
       cd_caught_warning = 0, cd_do_not_catch = False, cd_do_not_modify = False\<rparr>,
     rs_in_catcher = False, rs_out = []\<rparr>"

definition error_call :: "string \<Rightarrow> report_call" where
  "error_call i = \<lparr>rc_sev = UVM_ERROR, rc_id = i, rc_text = ''text'', rc_verb = - 1, rc_checked = False\<rparr>"

lemmas handler_eval = new_handler_def rh_initialize_def set_default_file_def set_severity_action_def
  set_severity_file_def get_action_def get_verbosity_level_def get_file_handle_def
  get_severity_id_file_def report_enabled_def overridden_def at2_def Let_def

lemma new_handler_facts:
  "get_action new_handler UVM_INFO i = UVM_DISPLAY" "get_action new_handler UVM_WARNING i = UVM_DISPLAY"
  "get_action new_handler UVM_ERROR i = UVM_DISPLAY OR UVM_COUNT"
  "get_action new_handler UVM_FATAL i = UVM_DISPLAY OR UVM_EXIT"
  "get_verbosity_level new_handler s i = UVM_MEDIUM" "overridden new_handler s i = s"
  "get_file_handle new_handler s i = 0"
  by (cases s; simp add: handler_eval)+

lemma effective_error: "effective new_handler (error_call i) = Some (UVM_DISPLAY OR UVM_COUNT)"
  by (simp add: effective_def error_call_def call_verb_def default_verbosity_def report_enabled_def
      new_handler_facts UVM_LOW_def UVM_MEDIUM_def action_defs Let_def)

lemma new_server_facts [simp]:
  "sv_quit new_server = 0" "sv_max_quit new_server = 0" "total_count new_server = 0"
  "sv_id_count new_server = Map.empty" "sv_sev_count new_server s = 0"
  by (simp_all add: new_server_def set_max_quit_count_def clamp_def reset_quit_count_def
      reset_severity_counts_def total_count_def)

lemma first_end_unique:
  "first_end sv as k \<Longrightarrow> ends_at sv as j \<Longrightarrow> \<forall>i < j. \<not> ends_at sv as i \<Longrightarrow> k = j"
  by (auto simp: first_end_def intro: linorder_neqE_nat)

lemma quit_exactly_at_limit_witness:
  "case run_reports new_handler new_handler [] [error_call ''A'', error_call ''B'', error_call ''C'']
      (start_state 2) of
     Inl st' \<Rightarrow> total_count (rs_srv st') = 2 \<and> (\<exists>out. rs_out st' = out @ [Died])
   | Inr st' \<Rightarrow> False"
proof -
  let ?cs = "[error_call ''A'', error_call ''B'', error_call ''C'']"
  let ?as = "List.map_filter (effective new_handler) ?cs"
  let ?sv = "new_server\<lparr>sv_max_quit := 2\<rparr>"
  have s: "\<not> rs_in_catcher (start_state 2)" "rs_srv (start_state 2) = ?sv"
    by (simp_all add: start_state_def)
  have c: "does (UVM_DISPLAY OR UVM_COUNT) UVM_COUNT" "\<not> does (UVM_DISPLAY OR UVM_COUNT) UVM_EXIT"
    by (simp_all add: does_def action_defs)
  have as: "?as = replicate 3 (UVM_DISPLAY OR UVM_COUNT)"
    by (simp add: effective_error numeral_3_eq_3)
  have e: "ends_at ?sv ?as 1" "\<not> ends_at ?sv ?as 0"
    unfolding as using c by (simp_all add: ends_at_def counted_def numeral_3_eq_3)
  have k: "first_end ?sv ?as k \<Longrightarrow> k = 1" for k
    using first_end_unique [of ?sv ?as k 1] e by simp
  have t: "total_count ?sv = 0"
    using new_server_facts(3) by (simp add: total_count_def)
  show ?thesis
  proof (cases "run_reports new_handler new_handler [] ?cs (start_state 2)")
    case (Inl st')
    with quit_exactly_at_limit [OF s(1), where rh = new_handler and rt = new_handler and cs = ?cs] s(2)
    obtain k where "first_end ?sv ?as k" "total_count (rs_srv st') = total_count ?sv + int k + 1"
        "\<exists>out. rs_out st' = out @ [Died]" by (simp only: sum.case) blast
    with k [of k] t Inl show ?thesis by simp
  next
    case (Inr st')
    with quit_exactly_at_limit [OF s(1), where rh = new_handler and rt = new_handler and cs = ?cs] s(2) e(1)
    show ?thesis by (simp only: sum.case)
  qed
qed

text \<open>
  C33. Whatever the catchers do (change messages, issue them, report others, catch), every run of
  reports keeps the counts of the server: none is negative, the counts by severity and those by
  id have the same sum, and no run goes on after the quit count has reached its maximum.
\<close>

theorem report_counts_consistent:
  assumes "server_counts_ok (rs_srv st)" "below_max (rs_srv st)"
  shows "case run_reports rh rt cts cs st of
      Inl st' \<Rightarrow> server_counts_ok (rs_srv st') \<and> at_most_max (rs_srv st')
    | Inr st' \<Rightarrow> server_counts_ok (rs_srv st') \<and> below_max (rs_srv st')"
  using run_reports_ok [of st rh rt cts cs] assms by (simp add: report_run_ok_def)

lemma start_state_ok: "0 \<le> n \<Longrightarrow> server_counts_ok (rs_srv (start_state n)) \<and> below_max (rs_srv (start_state n))"
  using new_server_facts(3)
  by (auto simp: start_state_def server_counts_ok_def below_max_def id_total_def get_id_count_def total_count_def)

definition nosy_catcher :: catcher where
  "nosy_catcher = \<lparr>ct_on = True,
     ct_catch = (\<lambda>_. ([C_report UVM_WARNING ''NOSY'' ''saw a report'' 0], THROW))\<rparr>"

lemma report_counts_consistent_witness:
  "case run_reports new_handler new_handler [nosy_catcher] [error_call ''A''] (start_state 2) of
     Inl st' \<Rightarrow> server_counts_ok (rs_srv st') \<and> at_most_max (rs_srv st')
   | Inr st' \<Rightarrow> server_counts_ok (rs_srv st') \<and> below_max (rs_srv st')"
proof -
  have "server_counts_ok (rs_srv (start_state 2))" "below_max (rs_srv (start_state 2))"
    using start_state_ok [of 2] by simp_all
  then show ?thesis by (rule report_counts_consistent)
qed

text \<open>A report made from within a catcher destroys the report being caught, because both use the
  one static message object. With a catcher that reports a warning and throws the caught report
  on, an information message of any id and text is never shown: the warning is shown twice, and
  counted twice under its own id.
\<close>

theorem nested_report_replaces:
  assumes "\<not> rs_in_catcher st" "\<not> cd_do_not_modify (rs_cat st)" "\<not> sv_record_all (rs_srv st)"
    and "rc_sev c = UVM_INFO" "call_verb c \<le> UVM_MEDIUM" "rc_id c \<noteq> i"
    and "ct = \<lparr>ct_on = True, ct_catch = (\<lambda>_. ([C_report UVM_WARNING i t v], THROW))\<rparr>"
  shows "\<exists>st' m. object_report new_handler new_handler [ct] c st = Inr st' \<and>
    rs_out st' = rs_out st @ [Shown m, Shown m] \<and> ms_id m = i \<and> ms_text m = t \<and>
    ms_sev m = UVM_WARNING \<and>
    get_id_count (rs_srv st') i = get_id_count (rs_srv st) i + 2 \<and>
    get_id_count (rs_srv st') (rc_id c) = get_id_count (rs_srv st) (rc_id c)"
proof -
  define m where "m = (rs_msg st)\<lparr>ms_sev := UVM_WARNING, ms_id := i, ms_text := t, ms_verb := UVM_NONE,
    ms_file := 0, ms_action := UVM_DISPLAY\<rparr>"
  have d: "does UVM_DISPLAY UVM_DISPLAY" "\<not> does UVM_DISPLAY UVM_LOG" "\<not> does UVM_DISPLAY UVM_COUNT"
    "\<not> does UVM_DISPLAY UVM_EXIT" "\<not> does UVM_DISPLAY UVM_STOP" "UVM_DISPLAY \<noteq> 0" "UVM_DISPLAY \<noteq> UVM_NO_ACTION"
    "UVM_NONE \<le> UVM_MEDIUM"
    by (simp_all add: does_def action_defs UVM_NONE_def UVM_MEDIUM_def)
  have ex: "execute_report_message s = Inr (s\<lparr>rs_srv := count_message (rs_msg s) (rs_srv s),
      rs_out := rs_out s @ [Shown (rs_msg s)]\<rparr>)"
    if "ms_action (rs_msg s) = UVM_DISPLAY" "\<not> sv_record_all (rs_srv s)" for s
    using that d by (simp add: execute_report_message_def Let_def)
  let ?m0 = "(rs_msg st)\<lparr>ms_sev := UVM_INFO, ms_id := rc_id c, ms_text := rc_text c, ms_verb := call_verb c,
    ms_file := 0, ms_action := UVM_DISPLAY\<rparr>"
  let ?cd = "(rs_cat st)\<lparr>cd_set_action_called := False\<rparr>"
  let ?s1 = "st\<lparr>rs_msg := ?m0, rs_in_catcher := True, rs_cat := ?cd\<rparr>"
  let ?sv1 = "count_message m (rs_srv st)"
  let ?s2 = "st\<lparr>rs_msg := m, rs_in_catcher := True, rs_cat := ?cd, rs_srv := ?sv1,
    rs_out := rs_out st @ [Shown m]\<rparr>"
  have rep: "catch_call new_handler new_handler (C_report UVM_WARNING i t v) ?s1 = Inr ?s2"
    using assms(3) d
    by (simp add: catcher_report_def catcher_process_def report_enabled_def new_handler_facts
        Let_def upd_msg_def set_report_message_def ex m_def)
  have cat: "process_report_catcher new_handler new_handler ct ?s1 = (True, Inr ?s2)"
    using rep assms(2) by (simp add: process_report_catcher_def assms(7) Let_def del: catch_call.simps)
  have adj: "adjust_action new_handler UVM_INFO ?s2 = ?s2"
    by (simp add: adjust_action_def new_handler_facts m_def upd_msg_def Let_def)
  let ?s3 = "?s2\<lparr>rs_in_catcher := False\<rparr>"
  have all: "process_all_report_catchers new_handler new_handler [ct] (st\<lparr>rs_msg := ?m0\<rparr>) = (True, Inr ?s3)"
    using assms(1,2) cat adj
    by (simp add: process_all_report_catchers_def Let_def upd_cat_def assms(7) count_demoted_def m_def)
  have obj: "object_report new_handler new_handler [ct] c st = execute_report_message ?s3"
    using assms(4,5) all d
    by (simp add: object_report_def report_enabled_def new_handler_facts process_report_message_def
        server_process_def upd_msg_def set_report_message_def m_def)
  also have "\<dots> = Inr (?s3\<lparr>rs_srv := count_message m ?sv1, rs_out := rs_out st @ [Shown m, Shown m]\<rparr>)"
    using assms(3) by (subst ex) (simp_all add: m_def)
  finally have "object_report new_handler new_handler [ct] c st =
    Inr (?s3\<lparr>rs_srv := count_message m ?sv1, rs_out := rs_out st @ [Shown m, Shown m]\<rparr>)" .
  moreover have "get_id_count (count_message m ?sv1) i = get_id_count (rs_srv st) i + 2"
    "get_id_count (count_message m ?sv1) (rc_id c) = get_id_count (rs_srv st) (rc_id c)"
    using assms(6)
    by (simp_all add: count_message_def get_id_count_def incr_id_count_def incr_severity_count_def m_def
        split: option.splits)
  moreover have "ms_id m = i" "ms_text m = t" "ms_sev m = UVM_WARNING" by (simp_all add: m_def)
  ultimately show ?thesis by simp
qed

definition info_call :: "string \<Rightarrow> report_call" where
  "info_call i = \<lparr>rc_sev = UVM_INFO, rc_id = i, rc_text = ''text'', rc_verb = - 1, rc_checked = False\<rparr>"

lemma nested_report_replaces_witness:
  "\<exists>st' m. object_report new_handler new_handler [nosy_catcher] (info_call ''A'') (start_state 0) = Inr st' \<and>
    rs_out st' = [Shown m, Shown m] \<and> ms_id m = ''NOSY'' \<and> get_id_count (rs_srv st') ''A'' = 0"
proof -
  have "\<not> rs_in_catcher (start_state 0)" "\<not> cd_do_not_modify (rs_cat (start_state 0))"
      "\<not> sv_record_all (rs_srv (start_state 0))" "rc_sev (info_call ''A'') = UVM_INFO"
      "call_verb (info_call ''A'') \<le> UVM_MEDIUM" "rc_id (info_call ''A'') \<noteq> ''NOSY''"
      "rs_out (start_state 0) = []" "get_id_count (rs_srv (start_state 0)) (rc_id (info_call ''A'')) = 0"
    by (simp_all add: start_state_def info_call_def call_verb_def default_verbosity_def new_server_def
        set_max_quit_count_def reset_quit_count_def reset_severity_counts_def get_id_count_def)
  from nested_report_replaces [OF this(1-6) nosy_catcher_def] this(7,8)
  show ?thesis by (auto simp: info_call_def)
qed

section \<open>Settings and catchers\<close>

text \<open>
  The action a catcher sets explicitly is lost when it also changes the severity and the action
  is the default of the old severity: \<open>m_set_action_called\<close> is never set.
\<close>

lemma explicit_action_lost:
  assumes "ms_sev (rs_msg st) = UVM_ERROR"
    and "catch_calls new_handler new_handler [C_set_severity UVM_INFO, C_set_action (UVM_DISPLAY OR UVM_COUNT)]
      (upd_cat (cd_set_action_called_update (\<lambda>_. False)) st) = Inr st1"
  shows "ms_action (rs_msg (adjust_action new_handler UVM_ERROR st1)) = UVM_DISPLAY"
proof -
  have "ms_sev (rs_msg st1) = UVM_INFO" "ms_action (rs_msg st1) = UVM_DISPLAY OR UVM_COUNT"
      "\<not> cd_set_action_called (rs_cat st1)"
    using assms(2) by (auto simp: upd_msg_def upd_cat_def)
  then show ?thesis by (simp add: adjust_action_def new_handler_facts upd_msg_def)
qed

text \<open>Resetting a handler keeps the settings by id, although it is documented to clear all.\<close>

lemma reset_keeps_ids:
  "get_action (rh_initialize (set_id_action i a new_handler)) s i = a"
  "get_verbosity_level (rh_initialize (set_id_verbosity i v new_handler)) s i = v"
  by (simp_all add: handler_eval set_id_action_def set_id_verbosity_def)

text \<open>An override of another severity for an id hides the override by severity.\<close>

lemma id_override_hides:
  assumes "s \<noteq> s'"
  shows "overridden (set_severity_id_override s' i n (set_severity_override s n' new_handler)) s i = s"
  using assms
  by (simp add: handler_eval set_severity_id_override_def set_severity_override_def set2_def)

end
