(* ===== verification/Objection.thy ===== *)
theory Objection
  imports UVM_Prelude
begin

text \<open>
  \<open>src/uvmsc/phasing/uvm_objection.cpp\<close>: the objection mechanism that decides when a phase may
  end. An object (component or sequence) is its path to the top, nearest name first: the empty
  path is the root \<open>m_top\<close>, and \<open>m_get_parent\<close> is the tail. The state is that of one objection
  with its entries in the scheduled list, which the code keeps in one static list for all
  objections, and its drain processes: spawned but not yet run (in the order of spawning),
  or waiting for the drain time. Counts are C \<open>int\<close>s whose overflow is undefined; they are
  integers here. Each call of the callbacks \<open>raised\<close>, \<open>dropped\<close>, \<open>all_dropped\<close> and of the events
  of the same names is an entry of a log. The pool of recycled context objects, descriptions,
  tracing and printing are left out.
\<close>

type_synonym obj = "string list"

definition m_get_parent :: "obj \<Rightarrow> obj" where
  "m_get_parent p = tl p"

section \<open>State\<close>

record obj_context =
  cx_obj :: obj
  cx_source :: obj
  cx_count :: int

datatype obj_event = Raised obj obj int | Dropped obj obj int | All_Dropped obj obj int

record objection =
  ob_source :: "obj \<rightharpoonup> int"
  ob_total :: "obj \<rightharpoonup> int"
  ob_drain_time :: "obj \<rightharpoonup> nat"
  ob_scheduled :: "obj_context list"
  ob_forked :: "obj_context list"
  ob_forked_contexts :: "(obj \<times> obj_context) list"
  ob_drain_proc :: "obj \<rightharpoonup> nat"
  ob_starting :: "nat list"
  ob_draining :: "(nat \<times> obj_context) list"
  ob_next_pid :: nat
  ob_cleared :: bool
  ob_hier_mode :: bool
  ob_top_all_dropped :: bool
  ob_log :: "obj_event list"

definition m_objection_init :: objection where
  "m_objection_init =
     \<lparr>ob_source = Map.empty, ob_total = Map.empty, ob_drain_time = Map.empty, ob_scheduled = [],
      ob_forked = [], ob_forked_contexts = [], ob_drain_proc = Map.empty, ob_starting = [],
      ob_draining = [], ob_next_pid = 0, ob_cleared = False, ob_hier_mode = True,
      ob_top_all_dropped = False, ob_log = []\<rparr>"

definition count_of :: "(obj \<rightharpoonup> int) \<Rightarrow> obj \<Rightarrow> int" where
  "count_of m p = (case m p of None \<Rightarrow> 0 | Some n \<Rightarrow> n)"

definition add_count :: "obj \<Rightarrow> int \<Rightarrow> (obj \<rightharpoonup> int) \<Rightarrow> obj \<rightharpoonup> int" where
  "add_count p n m = m(p \<mapsto> (case m p of None \<Rightarrow> n | Some k \<Rightarrow> k + n))"

definition add_log :: "obj_event \<Rightarrow> objection \<Rightarrow> objection" where
  "add_log e st = st\<lparr>ob_log := ob_log st @ [e]\<rparr>"

section \<open>Raising and dropping\<close>

text \<open>
  \<open>raised\<close>, \<open>dropped\<close> and \<open>all_dropped\<close>: the callback of the component and the event.
\<close>

definition raised :: "obj \<Rightarrow> obj \<Rightarrow> int \<Rightarrow> objection \<Rightarrow> objection" where
  "raised p src n st = add_log (Raised p src n) st"

definition dropped :: "obj \<Rightarrow> obj \<Rightarrow> int \<Rightarrow> objection \<Rightarrow> objection" where
  "dropped p src n st = add_log (Dropped p src n) st"

definition all_dropped :: "obj \<Rightarrow> obj \<Rightarrow> int \<Rightarrow> objection \<Rightarrow> objection" where
  "all_dropped p src n st =
     (let st = add_log (All_Dropped p src n) st
      in if p = [] then st\<lparr>ob_top_all_dropped := True\<rparr> else st)"

text \<open>
  A raise cancels the drain of its object: it takes the object's context out of the scheduled
  list, else out of the forked list, else out of the contexts being drained, and then kills the
  process that \<open>m_drain_proc\<close> names.
\<close>

primrec remove_ctx :: "obj \<Rightarrow> obj_context list \<Rightarrow> obj_context option \<times> obj_context list" where
  "remove_ctx p [] = (None, [])"
| "remove_ctx p (c # cs) =
     (if cx_obj c = p then (Some c, cs)
      else (let (r, cs') = remove_ctx p cs in (r, c # cs')))"

definition kill_drain :: "obj \<Rightarrow> objection \<Rightarrow> objection" where
  "kill_drain p st =
     (case ob_drain_proc st p of
        None \<Rightarrow> st
      | Some pid \<Rightarrow> st\<lparr>ob_drain_proc := (ob_drain_proc st)(p := None),
                       ob_starting := filter (\<lambda>q. q \<noteq> pid) (ob_starting st),
                       ob_draining := filter (\<lambda>(q, _). q \<noteq> pid) (ob_draining st)\<rparr>)"

definition take_context :: "obj \<Rightarrow> objection \<Rightarrow> obj_context option \<times> objection" where
  "take_context p st =
     (case remove_ctx p (ob_scheduled st) of
        (Some c, cs) \<Rightarrow> (Some c, st\<lparr>ob_scheduled := cs\<rparr>)
      | (None, _) \<Rightarrow>
          (case remove_ctx p (ob_forked st) of
             (Some c, cs) \<Rightarrow> (Some c, st\<lparr>ob_forked := cs\<rparr>)
           | (None, _) \<Rightarrow>
               (case map_of (ob_forked_contexts st) p of
                  Some c \<Rightarrow> (Some c, kill_drain p
                     (st\<lparr>ob_forked_contexts := filter (\<lambda>(q, _). q \<noteq> p) (ob_forked_contexts st)\<rparr>))
                | None \<Rightarrow> (None, st))))"

text \<open>\<open>m_raise\<close> and \<open>m_drop\<close>; \<open>m_propagate\<close> is the call for the parent.\<close>

function m_raise :: "obj \<Rightarrow> obj \<Rightarrow> int \<Rightarrow> objection \<Rightarrow> objection \<times> msg list"
  and m_drop :: "obj \<Rightarrow> obj \<Rightarrow> int \<Rightarrow> objection \<Rightarrow> objection \<times> msg list" where
  "m_raise p src n st =
     (let st = st\<lparr>ob_total := add_count p n (ob_total st)\<rparr>;
          st = (if src = p then st\<lparr>ob_source := add_count p n (ob_source st)\<rparr> else st);
          st = raised p src n st;
          (ctxt, st) = take_context p st
      in case ctxt of
           None \<Rightarrow> if \<not> ob_hier_mode st \<and> p \<noteq> [] then m_raise [] src n st
                   else if p \<noteq> [] then m_raise (m_get_parent p) src n st else (st, [])
         | Some c \<Rightarrow>
             (let diff = n - cx_count c
              in if diff > 0 then
                   (if \<not> ob_hier_mode st \<and> p \<noteq> [] then m_raise [] src diff st
                    else if p \<noteq> [] then m_raise (m_get_parent p) src diff st else (st, []))
                 else if diff < 0 then
                   (if \<not> ob_hier_mode st \<and> p \<noteq> [] then m_drop [] src (- diff) st
                    else if p \<noteq> [] then m_drop (m_get_parent p) src (- diff) st else (st, []))
                 else (st, [])))"
| "m_drop p src n st =
     (let below = (if ob_cleared st then (st, []) else (st, [(UVM_FATAL, ''OBJTN_ZERO'')]))
      in if ob_total st p = None \<or> n > count_of (ob_total st) p then below
         else if p = src \<and> (ob_source st p = None \<or> n > count_of (ob_source st) p) then below
         else
           (let st = (if p = src then st\<lparr>ob_source := add_count p (- n) (ob_source st)\<rparr> else st);
                st = st\<lparr>ob_total := add_count p (- n) (ob_total st)\<rparr>;
                st = dropped p src n st
            in if count_of (ob_total st) p \<noteq> 0 then
                 (if \<not> ob_hier_mode st \<and> p \<noteq> [] then m_drop [] src n st
                  else if p \<noteq> [] then m_drop (m_get_parent p) src n st else (st, []))
               else (st\<lparr>ob_scheduled := ob_scheduled st @ [\<lparr>cx_obj = p, cx_source = src, cx_count = n\<rparr>]\<rparr>, [])))"
  by pat_completeness auto
termination
  by (relation "measure (\<lambda>x. case x of Inl (p, _) \<Rightarrow> length p | Inr (p, _) \<Rightarrow> length p)")
    (auto simp: m_get_parent_def)

declare m_raise.simps [simp del] m_drop.simps [simp del]

definition raise_objection :: "obj \<Rightarrow> int \<Rightarrow> objection \<Rightarrow> objection \<times> msg list" where
  "raise_objection p n st = m_raise p p n (st\<lparr>ob_cleared := False, ob_top_all_dropped := False\<rparr>)"

definition drop_objection :: "obj \<Rightarrow> int \<Rightarrow> objection \<Rightarrow> objection \<times> msg list" where
  "drop_objection p n st = m_drop p p n st"

section \<open>Draining\<close>

text \<open>One turn of the loop of \<open>m_execute_scheduled_forks\<close>.\<close>

definition m_execute_scheduled_forks :: "objection \<Rightarrow> objection" where
  "m_execute_scheduled_forks st =
     (case ob_scheduled st of
        [] \<Rightarrow> st
      | c # cs \<Rightarrow> st\<lparr>ob_scheduled := cs, ob_forked := ob_forked st @ [c],
                      ob_starting := ob_starting st @ [ob_next_pid st],
                      ob_drain_proc := (ob_drain_proc st)(cx_obj c \<mapsto> ob_next_pid st),
                      ob_next_pid := Suc (ob_next_pid st)\<rparr>)"

text \<open>\<open>m_forked_drain\<close> after the drain time: the object is all dropped, and the drop goes to its parent.\<close>

definition erase_zero :: "obj \<Rightarrow> (obj \<rightharpoonup> int) \<Rightarrow> obj \<rightharpoonup> int" where
  "erase_zero p m = (if m p = Some 0 then m(p := None) else m)"

definition m_forked_drain :: "obj_context \<Rightarrow> objection \<Rightarrow> objection \<times> msg list" where
  "m_forked_drain c st =
     (let p = cx_obj c;
          st = all_dropped p (cx_source c) (cx_count c) st;
          st = st\<lparr>ob_source := erase_zero p (ob_source st)\<rparr>;
          st = st\<lparr>ob_total := erase_zero p (ob_total st)\<rparr>
      in if \<not> ob_hier_mode st \<and> p \<noteq> [] then m_drop [] (cx_source c) (cx_count c) st
         else if p \<noteq> [] then m_drop (m_get_parent p) (cx_source c) (cx_count c) st
         else (st, []))"

definition end_drain :: "nat \<Rightarrow> obj_context \<Rightarrow> objection \<Rightarrow> objection \<times> msg list" where
  "end_drain pid c st =
     (let (st, ms) = m_forked_drain c st
      in (st\<lparr>ob_drain_proc := (ob_drain_proc st)(cx_obj c := None),
             ob_forked_contexts := filter (\<lambda>(q, _). q \<noteq> cx_obj c) (ob_forked_contexts st),
             ob_draining := filter (\<lambda>(q, _). q \<noteq> pid) (ob_draining st)\<rparr>, ms))"

text \<open>
  \<open>m_forked_drain_guard\<close>: the \<open>k\<close>-th of the spawned processes starts. It takes the first context
  of the forked list; with no drain time for its object it runs to its end.
\<close>

definition put_forked :: "obj_context \<Rightarrow> (obj \<times> obj_context) list \<Rightarrow> (obj \<times> obj_context) list" where
  "put_forked c xs = filter (\<lambda>(q, _). q \<noteq> cx_obj c) xs @ [(cx_obj c, c)]"

definition m_forked_drain_guard :: "nat \<Rightarrow> objection \<Rightarrow> objection \<times> msg list" where
  "m_forked_drain_guard k st =
     (if k \<ge> length (ob_starting st) then (st, [])
      else
        (let pid = ob_starting st ! k;
             st = st\<lparr>ob_starting := take k (ob_starting st) @ drop (Suc k) (ob_starting st)\<rparr>
         in case ob_forked st of
              [] \<Rightarrow> (st, [])
            | c # cs \<Rightarrow>
                (let st = st\<lparr>ob_forked := cs, ob_forked_contexts := put_forked c (ob_forked_contexts st),
                             ob_draining := ob_draining st @ [(pid, c)]\<rparr>
                 in if ob_drain_time st (cx_obj c) = None then end_drain pid c st else (st, []))))"

text \<open>The drain time of process \<open>pid\<close> is over.\<close>

definition drain_elapsed :: "nat \<Rightarrow> objection \<Rightarrow> objection \<times> msg list" where
  "drain_elapsed pid st =
     (case map_of (ob_draining st) pid of None \<Rightarrow> (st, []) | Some c \<Rightarrow> end_drain pid c st)"

section \<open>The other operations\<close>

definition get_objection_count :: "obj \<Rightarrow> objection \<Rightarrow> int" where
  "get_objection_count p st = count_of (ob_source st) p"

text \<open>
  \<open>get_objection_total\<close> in hierarchical mode, the only one: the constructor sets \<open>m_hier_mode\<close> and
  nothing resets it.
\<close>

definition get_objection_total :: "obj \<Rightarrow> objection \<Rightarrow> int" where
  "get_objection_total p st = count_of (ob_total st) p"

definition get_objectors :: "objection \<Rightarrow> obj set" where
  "get_objectors st = dom (ob_source st)"

definition get_drain_time :: "obj \<Rightarrow> objection \<Rightarrow> nat" where
  "get_drain_time p st = (case ob_drain_time st p of None \<Rightarrow> 0 | Some t \<Rightarrow> t)"

text \<open>
  \<open>m_set_hier_mode\<close>: \<open>has_children\<close> says which objects are components with children, \<open>objectors\<close> are
  the keys of \<open>m_source_count\<close>. For each the loop over the parents runs until \<open>m_get_parent\<close>
  returns null, which it never does: \<open>None\<close>.
\<close>

definition m_set_hier_mode :: "(obj \<Rightarrow> bool) \<Rightarrow> obj list \<Rightarrow> obj \<Rightarrow> objection \<Rightarrow> objection option" where
  "m_set_hier_mode has_children objectors p st =
     (if ob_hier_mode st \<or> p = [] then Some st
      else if \<not> has_children p then Some st
      else if objectors = [] then Some (st\<lparr>ob_total := Map.empty, ob_hier_mode := True\<rparr>)
      else None)"

definition set_drain_time ::
  "(obj \<Rightarrow> bool) \<Rightarrow> obj list \<Rightarrow> obj \<Rightarrow> nat \<Rightarrow> objection \<Rightarrow> objection option" where
  "set_drain_time has_children objectors p t st =
     m_set_hier_mode has_children objectors p (st\<lparr>ob_drain_time := (ob_drain_time st)(p \<mapsto> t)\<rparr>)"

text \<open>
  \<open>clear\<close>. The loop over the contexts being drained counts up while it erases, so it ends after
  one of two entries; with three it uses an iterator it has erased, which is undefined: \<open>None\<close>.
  Spawned processes that have not started are not killed.
\<close>

definition clear :: "objection \<Rightarrow> (objection \<times> msg list) option" where
  "clear st =
     (let ms = (if \<not> ob_top_all_dropped st \<and> get_objection_total [] st \<noteq> 0
                then [(UVM_WARNING, ''OBJTN_CLEAR'')] else []);
          st = st\<lparr>ob_source := Map.empty, ob_total := Map.empty, ob_scheduled := [], ob_forked := []\<rparr>
      in if length (ob_forked_contexts st) \<ge> 3 then None
         else
           (let st = (case ob_forked_contexts st of
                        [] \<Rightarrow> st
                      | (p, c) # xs \<Rightarrow> kill_drain p (st\<lparr>ob_forked_contexts := xs\<rparr>))
            in Some (st\<lparr>ob_top_all_dropped := False, ob_cleared := True\<rparr>, ms)))"

section \<open>The books of the objections\<close>

text \<open>
  \<open>D\<close> is the finite set of the objects of the design, closed under parents. What an object
  contributes to the total of its parent is its own total and the counts of its contexts, the
  drops that were not yet passed on. The books are balanced when every total is the source
  count and the contributions of the children. \<open>d\<close> is what is still missing at \<open>p\<close>, while a
  raise or drop is on its way.
\<close>

definition all_ctx :: "objection \<Rightarrow> obj_context list" where
  "all_ctx st = ob_scheduled st @ ob_forked st @ map snd (ob_forked_contexts st)"

definition pending :: "objection \<Rightarrow> obj \<Rightarrow> int" where
  "pending st p = sum_list (map cx_count (filter (\<lambda>c. cx_obj c = p) (all_ctx st)))"

definition contrib :: "objection \<Rightarrow> obj \<Rightarrow> int" where
  "contrib st p = count_of (ob_total st) p + pending st p"

definition kids :: "obj set \<Rightarrow> obj \<Rightarrow> obj set" where
  "kids D p = {c \<in> D. c \<noteq> [] \<and> tl c = p}"

definition balanced :: "obj set \<Rightarrow> obj \<Rightarrow> int \<Rightarrow> objection \<Rightarrow> bool" where
  "balanced D p d st \<longleftrightarrow> (\<forall>q \<in> D. count_of (ob_total st) q + (if q = p then d else 0) =
     count_of (ob_source st) q + (\<Sum>c \<in> kids D q. contrib st c))"

text \<open>The contexts: one per object, only for objects whose total is 0.\<close>

definition ctx_ok :: "obj set \<Rightarrow> objection \<Rightarrow> bool" where
  "ctx_ok D st \<longleftrightarrow> distinct (map cx_obj (all_ctx st))
     \<and> (\<forall>c \<in> set (all_ctx st). cx_obj c \<in> D \<and> 0 < cx_count c \<and> length (cx_obj c) \<le> length (cx_source c)
          \<and> count_of (ob_total st) (cx_obj c) = 0)"

text \<open>The processes: each drains the context its object is registered with.\<close>

definition procs_ok :: "objection \<Rightarrow> bool" where
  "procs_ok st \<longleftrightarrow> length (ob_starting st) = length (ob_forked st)
     \<and> (\<forall>i < length (ob_forked st). ob_drain_proc st (cx_obj (ob_forked st ! i)) = Some (ob_starting st ! i))
     \<and> (\<forall>(p, c) \<in> set (ob_forked_contexts st). cx_obj c = p
          \<and> (\<exists>pid. ob_drain_proc st p = Some pid \<and> (pid, c) \<in> set (ob_draining st)))
     \<and> (\<forall>(pid, c) \<in> set (ob_draining st). (cx_obj c, c) \<in> set (ob_forked_contexts st)
          \<and> ob_drain_proc st (cx_obj c) = Some pid)
     \<and> distinct (ob_starting st @ map fst (ob_draining st))
     \<and> (\<forall>pid \<in> set (ob_starting st @ map fst (ob_draining st)). pid < ob_next_pid st)"

definition counts_ok :: "objection \<Rightarrow> bool" where
  "counts_ok st \<longleftrightarrow> (\<forall>q. 0 \<le> count_of (ob_total st) q \<and> 0 \<le> count_of (ob_source st) q)"

definition books :: "obj set \<Rightarrow> obj \<Rightarrow> int \<Rightarrow> objection \<Rightarrow> bool" where
  "books D p d st \<longleftrightarrow> balanced D p d st \<and> ctx_ok D st \<and> procs_ok st \<and> counts_ok st \<and> ob_hier_mode st"

definition design :: "obj set \<Rightarrow> bool" where
  "design D \<longleftrightarrow> finite D \<and> [] \<in> D \<and> (\<forall>p \<in> D. tl p \<in> D)"

lemma count_of_add [simp]: "count_of (add_count p n m) q = count_of m q + (if q = p then n else 0)"
  by (auto simp: count_of_def add_count_def split: option.split)

lemma count_of_erase_zero [simp]: "count_of (erase_zero p m) = count_of m"
  by (auto simp: count_of_def erase_zero_def fun_eq_iff)

lemma remove_ctx_split:
  "remove_ctx p cs = (r, cs') \<Longrightarrow>
   (case r of None \<Rightarrow> cs' = cs \<and> (\<forall>c \<in> set cs. cx_obj c \<noteq> p)
    | Some c \<Rightarrow> \<exists>xs ys. cs = xs @ c # ys \<and> cs' = xs @ ys \<and> cx_obj c = p)"
proof (induction cs arbitrary: r cs')
  case (Cons c cs)
  show ?case
  proof (cases "cx_obj c = p")
    case True
    with Cons.prems have "r = Some c" "cs' = cs" by auto
    with True have "c # cs = [] @ c # cs' \<and> cs' = [] @ cs' \<and> cx_obj c = p" by simp
    with \<open>r = Some c\<close> show ?thesis by (simp only: option.case) blast
  next
    case False
    obtain r2 cs2 where rec: "remove_ctx p cs = (r2, cs2)" by fastforce
    with False Cons.prems have eq: "r = r2" "cs' = c # cs2" by auto
    show ?thesis
    proof (cases r2)
      case None
      with Cons.IH [OF rec] eq False show ?thesis by simp
    next
      case (Some d)
      with Cons.IH [OF rec] obtain xs ys where "cs = xs @ d # ys" "cs2 = xs @ ys" "cx_obj d = p" by auto
      then have "c # cs = (c # xs) @ d # ys \<and> cs' = (c # xs) @ ys \<and> cx_obj d = p" using eq by simp
      with eq(1) Some show ?thesis by (simp only: option.case) blast
    qed
  qed
qed auto

text \<open>What taking a context changes: only the lists of contexts and processes.\<close>

lemma kill_drain_frame [simp]:
  "ob_total (kill_drain p st) = ob_total st" "ob_source (kill_drain p st) = ob_source st"
  "ob_scheduled (kill_drain p st) = ob_scheduled st" "ob_forked (kill_drain p st) = ob_forked st"
  "ob_forked_contexts (kill_drain p st) = ob_forked_contexts st"
  "ob_hier_mode (kill_drain p st) = ob_hier_mode st" "ob_next_pid (kill_drain p st) = ob_next_pid st"
  "ob_log (kill_drain p st) = ob_log st" "ob_cleared (kill_drain p st) = ob_cleared st"
  by (simp_all add: kill_drain_def split: option.split)

lemma take_context_frame:
  assumes "take_context p st = (r, st')"
  shows "ob_total st' = ob_total st \<and> ob_source st' = ob_source st \<and> ob_hier_mode st' = ob_hier_mode st
    \<and> ob_cleared st' = ob_cleared st"
  using assms by (auto simp: take_context_def split: prod.splits option.splits)


lemma filter_fc:
  assumes "map_of fc p = Some c" "distinct (map fst fc)"
  shows "\<exists>xs ys. fc = xs @ (p, c) # ys \<and> filter (\<lambda>(q, _). q \<noteq> p) fc = xs @ ys"
  using assms
proof (induction fc)
  case (Cons x fc)
  obtain q d where x: "x = (q, d)" by fastforce
  show ?case
  proof (cases "q = p")
    case True
    have "\<forall>y \<in> set fc. fst y \<noteq> p" using Cons.prems(2) x True by auto
    then have "filter (\<lambda>(q, _). q \<noteq> p) fc = fc" by (simp add: filter_id_conv split_beta)
    with Cons.prems(1) x True have "x # fc = [] @ (p, c) # fc \<and> filter (\<lambda>(q, _). q \<noteq> p) (x # fc) = [] @ fc"
      by simp
    then show ?thesis by blast
  next
    case False
    with Cons x obtain xs ys where "fc = xs @ (p, c) # ys" "filter (\<lambda>(q, _). q \<noteq> p) fc = xs @ ys" by auto
    with x False have "x # fc = (x # xs) @ (p, c) # ys \<and> filter (\<lambda>(q, _). q \<noteq> p) (x # fc) = (x # xs) @ ys"
      by simp
    then show ?thesis by blast
  qed
qed simp

lemma procs_fst: "procs_ok st \<Longrightarrow> map fst (ob_forked_contexts st) = map cx_obj (map snd (ob_forked_contexts st))"
  by (auto simp: procs_ok_def)

lemma take_context_None:
  assumes "take_context p st = (None, st')" "procs_ok st"
  shows "st' = st \<and> p \<notin> cx_obj ` set (all_ctx st)"
proof -
  obtain r cs where r: "remove_ctx p (ob_scheduled st) = (r, cs)" by fastforce
  obtain r2 cs2 where r2: "remove_ctx p (ob_forked st) = (r2, cs2)" by fastforce
  have fc: "(q, c) \<in> set (ob_forked_contexts st) \<Longrightarrow> cx_obj c = q" for q c
    using assms(2) by (auto simp: procs_ok_def)
  have none: "r = None" "r2 = None" "map_of (ob_forked_contexts st) p = None" "st' = st"
    using assms(1) r r2 by (auto simp: take_context_def split: option.splits)
  with remove_ctx_split [OF r] remove_ctx_split [OF r2] fc show ?thesis
    by (force simp: all_ctx_def map_of_eq_None_iff)
qed

lemma procs_ok_remove:
  assumes ok: "procs_ok st" and pid: "(pid, c) \<in> set (ob_draining st)" and p: "cx_obj c = p"
    and fresh: "p \<notin> cx_obj ` set (ob_forked st)"
  shows "procs_ok (st\<lparr>ob_forked_contexts := filter (\<lambda>(q, _). q \<noteq> p) (ob_forked_contexts st),
    ob_drain_proc := (ob_drain_proc st)(p := None),
    ob_draining := filter (\<lambda>(q, _). q \<noteq> pid) (ob_draining st)\<rparr>)" (is "procs_ok ?st")
proof -
  have reg: "ob_drain_proc st p = Some pid" using ok pid p by (auto simp: procs_ok_def)
  have uniq: "d = c" if "(pid, d) \<in> set (ob_draining st)" for d
    using that pid ok by (auto simp: procs_ok_def dest: eq_key_imp_eq_value)
  have fc: "cx_obj d = q \<and> (\<exists>k. ob_drain_proc ?st q = Some k \<and> (k, d) \<in> set (ob_draining ?st))"
    if "(q, d) \<in> set (ob_forked_contexts ?st)" for q d
  proof -
    have q: "q \<noteq> p" "(q, d) \<in> set (ob_forked_contexts st)" using that by auto
    then obtain k where k: "cx_obj d = q" "ob_drain_proc st q = Some k" "(k, d) \<in> set (ob_draining st)"
      using ok by (fastforce simp: procs_ok_def)
    with uniq q p have "k \<noteq> pid" by auto
    with k q show ?thesis by simp
  qed
  have dr: "(cx_obj d, d) \<in> set (ob_forked_contexts ?st) \<and> ob_drain_proc ?st (cx_obj d) = Some k"
    if "(k, d) \<in> set (ob_draining ?st)" for k d
  proof -
    have k: "k \<noteq> pid" "(k, d) \<in> set (ob_draining st)" using that by auto
    then have d: "(cx_obj d, d) \<in> set (ob_forked_contexts st)" "ob_drain_proc st (cx_obj d) = Some k"
      using ok by (auto simp: procs_ok_def)
    with k(1) reg have "cx_obj d \<noteq> p" by auto
    with d show ?thesis by simp
  qed
  have fo: "ob_drain_proc ?st (cx_obj (ob_forked ?st ! i)) = Some (ob_starting ?st ! i)"
    if "i < length (ob_forked ?st)" for i
    using ok fresh that nth_mem [of i "ob_forked st"] by (auto simp: procs_ok_def)
  have "distinct (map fst (filter (\<lambda>(q, _). q \<noteq> pid) (ob_draining st)))"
    using ok by (simp add: procs_ok_def distinct_map_filter)
  then show ?thesis using ok fc dr fo unfolding procs_ok_def by auto
qed

lemma take_context_Some:
  assumes "take_context p st = (Some c, st')" "procs_ok st" "distinct (map fst (ob_forked_contexts st))"
    and "ob_forked st = []"
  shows "(\<exists>xs ys. all_ctx st = xs @ c # ys \<and> all_ctx st' = xs @ ys \<and> cx_obj c = p)
    \<and> procs_ok st' \<and> ob_forked st' = []"
proof -
  obtain r cs where r: "remove_ctx p (ob_scheduled st) = (r, cs)" by fastforce
  show ?thesis
  proof (cases r)
    case (Some d)
    with assms(1) r have st': "c = d" "st' = st\<lparr>ob_scheduled := cs\<rparr>"
      by (auto simp: take_context_def)
    obtain xs ys where "ob_scheduled st = xs @ d # ys" "cs = xs @ ys" "cx_obj d = p"
      using remove_ctx_split [OF r] Some by auto
    with st' assms(2,4) show ?thesis by (auto simp: all_ctx_def procs_ok_def)
  next
    case None
    let ?fc = "ob_forked_contexts st" and ?fc' = "filter (\<lambda>(q, _). q \<noteq> p) (ob_forked_contexts st)"
    have m: "map_of ?fc p = Some c" and st': "st' = kill_drain p (st\<lparr>ob_forked_contexts := ?fc'\<rparr>)"
      using assms(1,4) r None by (auto simp: take_context_def split: option.splits)
    obtain xs ys where xy: "?fc = xs @ (p, c) # ys" "?fc' = xs @ ys"
      using filter_fc [OF m assms(3)] by blast
    have mem: "(p, c) \<in> set ?fc" by (simp add: xy(1))
    with assms(2) obtain pid where pid: "cx_obj c = p" "ob_drain_proc st p = Some pid"
      "(pid, c) \<in> set (ob_draining st)"
      by (fastforce simp: procs_ok_def)
    have starting: "ob_starting st = []" using assms(2,4) by (simp add: procs_ok_def)
    have st2: "st' = st\<lparr>ob_forked_contexts := ?fc', ob_drain_proc := (ob_drain_proc st)(p := None),
        ob_draining := filter (\<lambda>(q, _). q \<noteq> pid) (ob_draining st)\<rparr>"
      using st' pid starting by (simp add: kill_drain_def)
    have ctxs: "all_ctx st = (ob_scheduled st @ map snd xs) @ c # map snd ys"
      "all_ctx st' = (ob_scheduled st @ map snd xs) @ map snd ys"
      using xy assms(4) by (simp_all add: all_ctx_def st2)
    have "procs_ok st'"
      unfolding st2 by (rule procs_ok_remove [OF assms(2) pid(3,1)]) (simp add: assms(4))
    moreover have "ob_forked st' = []" by (simp add: st2 assms(4))
    ultimately show ?thesis using ctxs pid(1) by blast
  qed
qed

lemma pending_ctx: "all_ctx st = xs @ c # ys \<Longrightarrow> all_ctx st' = xs @ ys \<Longrightarrow>
    pending st' q = pending st q - (if q = cx_obj c then cx_count c else 0)"
  by (simp add: pending_def)

lemma pending_nonneg: "ctx_ok D st \<Longrightarrow> 0 \<le> pending st q"
  unfolding pending_def ctx_ok_def by (intro sum_list_nonneg) (auto intro: less_imp_le)

lemma pending_none: "q \<notin> cx_obj ` set (all_ctx st) \<Longrightarrow> pending st q = 0"
  unfolding pending_def by (subst filter_False) auto

lemma contrib_nonneg: "ctx_ok D st \<Longrightarrow> counts_ok st \<Longrightarrow> 0 \<le> contrib st q"
  using pending_nonneg [of D st q] by (simp add: contrib_def counts_ok_def)

lemma balanced_zero: "balanced D p 0 st = balanced D q 0 st"
  by (simp add: balanced_def)

lemma finite_kids: "finite D \<Longrightarrow> finite (kids D q)"
  by (simp add: kids_def)

lemma balanced_step:
  assumes "finite D" "p \<in> D" "balanced D p d st"
    and "\<And>q. count_of (ob_total st') q = count_of (ob_total st) q + (if q = p then a else 0)"
    and "\<And>q. count_of (ob_source st') q = count_of (ob_source st) q + (if q = p then b else 0)"
    and "\<And>q. contrib st' q = contrib st q + (if q = p then e else 0)" and "a = d + b"
  shows "balanced D (tl p) (if p = [] then 0 else e) st'"
  unfolding balanced_def
proof
  fix q assume q: "q \<in> D"
  have kid: "p \<in> kids D q \<longleftrightarrow> p \<noteq> [] \<and> q = tl p" using assms(2) by (auto simp: kids_def)
  have "(\<Sum>c \<in> kids D q. contrib st' c) = (\<Sum>c \<in> kids D q. contrib st c) + (if p \<noteq> [] \<and> q = tl p then e else 0)"
    using finite_kids [OF assms(1), of q] kid by (simp add: assms(6) sum.distrib)
  moreover have "count_of (ob_total st) q + (if q = p then d else 0) =
      count_of (ob_source st) q + (\<Sum>c \<in> kids D q. contrib st c)"
    using assms(3) q by (simp add: balanced_def)
  ultimately show "count_of (ob_total st') q + (if q = tl p then if p = [] then 0 else e else 0) =
      count_of (ob_source st') q + (\<Sum>c \<in> kids D q. contrib st' c)"
    using assms(7) by (cases "q = p") (auto simp: assms(4,5))
qed

text \<open>The rest of the invariant, without the balance.\<close>

definition frame_ok :: "obj set \<Rightarrow> objection \<Rightarrow> bool" where
  "frame_ok D st \<longleftrightarrow> ctx_ok D st \<and> procs_ok st \<and> counts_ok st \<and> ob_hier_mode st"

lemma books_frame: "books D p d st \<longleftrightarrow> balanced D p d st \<and> frame_ok D st"
  by (simp add: books_def frame_ok_def)

lemma m_drop_enough:
  assumes "frame_ok D st" "balanced D p (if src = p then 0 else - n) st" "p \<in> D" "0 < n"
    and "src = p \<longrightarrow> n \<le> count_of (ob_source st) p"
  shows "n \<le> count_of (ob_total st) p"
proof -
  have "0 \<le> (\<Sum>c \<in> kids D p. contrib st c)"
    using assms(1) contrib_nonneg by (intro sum_nonneg) (auto simp: frame_ok_def)
  moreover have "0 \<le> count_of (ob_source st) p" using assms(1) by (simp add: frame_ok_def counts_ok_def)
  moreover have "count_of (ob_total st) p + (if src = p then 0 else - n) =
      count_of (ob_source st) p + (\<Sum>c \<in> kids D p. contrib st c)"
    using bspec [OF assms(2) [unfolded balanced_def] assms(3)] by simp
  ultimately show ?thesis using assms(5) by (auto split: if_splits)
qed

text \<open>One level of a drop.\<close>

definition drop_level :: "obj \<Rightarrow> obj \<Rightarrow> int \<Rightarrow> objection \<Rightarrow> objection" where
  "drop_level p src n st =
     (let st = (if p = src then st\<lparr>ob_source := add_count p (- n) (ob_source st)\<rparr> else st);
          st = dropped p src n (st\<lparr>ob_total := add_count p (- n) (ob_total st)\<rparr>)
      in if count_of (ob_total st) p \<noteq> 0 then st
         else st\<lparr>ob_scheduled := ob_scheduled st @ [\<lparr>cx_obj = p, cx_source = src, cx_count = n\<rparr>]\<rparr>)"

definition drop_fails :: "obj \<Rightarrow> obj \<Rightarrow> int \<Rightarrow> objection \<Rightarrow> bool" where
  "drop_fails p src n st \<longleftrightarrow> ob_total st p = None \<or> n > count_of (ob_total st) p
     \<or> (p = src \<and> (ob_source st p = None \<or> n > count_of (ob_source st) p))"

lemma m_drop_hier:
  assumes "ob_hier_mode st"
  shows "m_drop p src n st =
    (if drop_fails p src n st then (st, if ob_cleared st then [] else [(UVM_FATAL, ''OBJTN_ZERO'')])
     else if count_of (ob_total st) p \<noteq> n \<and> p \<noteq> [] then m_drop (tl p) src n (drop_level p src n st)
     else (drop_level p src n st, []))"
proof -
  let ?a = "ob_total st p = None \<or> n > count_of (ob_total st) p"
  let ?b = "p = src \<and> (ob_source st p = None \<or> n > count_of (ob_source st) p)"
  have split: "drop_fails p src n st = (?a \<or> ?b)" by (simp add: drop_fails_def)
  consider ?a | "\<not> ?a" ?b | "\<not> ?a" "\<not> ?b" by blast
  then show ?thesis
  proof cases
    case 1
    have f: "drop_fails p src n st" unfolding split using 1 by (rule disjI1)
    show ?thesis
      by (subst m_drop.simps) (simp only: Let_def if_P [OF 1] if_P [OF f] split: if_split, simp)
  next
    case 2
    have f: "drop_fails p src n st" unfolding split using 2(2) by (rule disjI2)
    show ?thesis
      by (subst m_drop.simps)
        (simp only: Let_def if_not_P [OF 2(1)] if_P [OF 2(2)] if_P [OF f] split: if_split, simp)
  next
    case 3
    have f: "\<not> drop_fails p src n st" unfolding split using 3 by blast
    show ?thesis
      using assms
      by (subst m_drop.simps, simp only: Let_def if_not_P [OF 3(1)] if_not_P [OF 3(2)] if_not_P [OF f])
        (simp add: drop_level_def m_get_parent_def dropped_def add_log_def)
  qed
qed

lemma m_drop_level:
  assumes "n \<le> count_of (ob_total st) p" "0 < n" "p = src \<longrightarrow> n \<le> count_of (ob_source st) p" "ob_hier_mode st"
  shows "m_drop p src n st =
    (if count_of (ob_total st) p \<noteq> n \<and> p \<noteq> [] then m_drop (tl p) src n (drop_level p src n st)
     else (drop_level p src n st, []))"
proof -
  have some: "ob_total st p \<noteq> None" using assms(1,2) by (auto simp: count_of_def split: option.splits)
  moreover have some2: "p = src \<Longrightarrow> ob_source st p \<noteq> None" using assms(2,3) by (auto simp: count_of_def split: option.splits)
  ultimately have "\<not> drop_fails p src n st" using some assms(1,3) by (auto simp: drop_fails_def)
  then show ?thesis by (subst m_drop_hier [OF assms(4)]) simp
qed

lemma drop_level_simps [simp]:
  "count_of (ob_total (drop_level p src n st)) q = count_of (ob_total st) q + (if q = p then - n else 0)"
  "count_of (ob_source (drop_level p src n st)) q =
     count_of (ob_source st) q + (if q = p then (if p = src then - n else 0) else 0)"
  "all_ctx (drop_level p src n st) = (if count_of (ob_total st) p = n
     then ob_scheduled st @ \<lparr>cx_obj = p, cx_source = src, cx_count = n\<rparr> # ob_forked st @ map snd (ob_forked_contexts st)
     else all_ctx st)"
  "ob_hier_mode (drop_level p src n st) = ob_hier_mode st"
  "procs_ok (drop_level p src n st) = procs_ok st" "ob_forked (drop_level p src n st) = ob_forked st"
  "ob_forked_contexts (drop_level p src n st) = ob_forked_contexts st"
  by (auto simp: drop_level_def dropped_def add_log_def Let_def all_ctx_def procs_ok_def)

lemma contrib_drop_level:
  "contrib (drop_level p src n st) q =
     contrib st q + (if q = p then (if count_of (ob_total st) p = n then 0 else - n) else 0)"
  by (simp add: contrib_def pending_def) (simp add: all_ctx_def)

lemma frame_drop_level:
  assumes "frame_ok D st" "p \<in> D" "0 < n" "n \<le> count_of (ob_total st) p" "length p \<le> length src"
    and "p = src \<longrightarrow> n \<le> count_of (ob_source st) p"
  shows "frame_ok D (drop_level p src n st)"
proof -
  have fresh: "p \<notin> cx_obj ` set (all_ctx st)"
    using assms(1,3,4) by (fastforce simp: frame_ok_def ctx_ok_def)
  let ?c = "\<lparr>cx_obj = p, cx_source = src, cx_count = n\<rparr>"
  have old: "distinct (map cx_obj (all_ctx st))" and each: "\<And>c. c \<in> set (all_ctx st) \<Longrightarrow>
      cx_obj c \<in> D \<and> 0 < cx_count c \<and> length (cx_obj c) \<le> length (cx_source c) \<and> count_of (ob_total st) (cx_obj c) = 0"
    using assms(1) by (auto simp: frame_ok_def ctx_ok_def)
  have "distinct (map cx_obj (all_ctx (drop_level p src n st)))"
    using old fresh unfolding drop_level_simps(3) by (simp add: all_ctx_def) blast
  moreover have "cx_obj c \<in> D \<and> 0 < cx_count c \<and> length (cx_obj c) \<le> length (cx_source c)
      \<and> count_of (ob_total (drop_level p src n st)) (cx_obj c) = 0"
    if "c \<in> set (all_ctx (drop_level p src n st))" for c
  proof (cases "c \<in> set (all_ctx st)")
    case True
    then have "cx_obj c \<noteq> p" using fresh by blast
    with each [OF True] show ?thesis by simp
  next
    case False
    then have "c = ?c" "count_of (ob_total st) p = n"
      using that unfolding drop_level_simps(3) by (auto simp: all_ctx_def split: if_splits)
    with assms(2,3,5) show ?thesis by simp
  qed
  ultimately have "ctx_ok D (drop_level p src n st)" unfolding ctx_ok_def by blast
  moreover have "counts_ok (drop_level p src n st)"
    using assms by (auto simp: counts_ok_def frame_ok_def)
  ultimately show ?thesis using assms(1) by (simp add: frame_ok_def)
qed

lemma m_drop_books:
  assumes D: "design D"
  shows "\<lbrakk>frame_ok D st; balanced D p (if src = p then 0 else - n) st; p \<in> D; 0 < n; length p \<le> length src;
      src = p \<longrightarrow> n \<le> count_of (ob_source st) p\<rbrakk>
    \<Longrightarrow> \<exists>st'. m_drop p src n st = (st', []) \<and> frame_ok D st' \<and> balanced D [] 0 st'
       \<and> ob_forked st' = ob_forked st \<and> ob_forked_contexts st' = ob_forked_contexts st
       \<and> (\<forall>q. count_of (ob_source st') q = count_of (ob_source st) q - (if q = p \<and> src = p then n else 0))"
proof (induction p arbitrary: st)
  case Nil
  let ?st = "drop_level [] src n st"
  have n: "n \<le> count_of (ob_total st) []" by (rule m_drop_enough [OF Nil(1-4,6)])
  have lvl: "m_drop [] src n st = (?st, [])"
    using m_drop_level [OF n Nil(4), of src] Nil(1,6) by (auto simp: frame_ok_def)
  have "balanced D (tl []) 0 ?st"
    using balanced_step [OF _ Nil(3,2), of ?st "- n" "if [] = src then - n else 0"] D
    by (auto simp: contrib_drop_level design_def)
  then have "balanced D [] 0 ?st" by simp
  moreover have "frame_ok D ?st" by (rule frame_drop_level [OF Nil(1,3,4) n Nil(5)]) (use Nil(6) in auto)
  ultimately show ?case using lvl by auto
next
  case (Cons x p)
  let ?st = "drop_level (x # p) src n st"
  have n: "n \<le> count_of (ob_total st) (x # p)" by (rule m_drop_enough [OF Cons.prems(1-4,6)])
  have frame: "frame_ok D ?st" by (rule frame_drop_level [OF Cons.prems(1,3,4) n Cons.prems(5)]) (use Cons.prems(6) in auto)
  have bal: "balanced D p (if count_of (ob_total st) (x # p) = n then 0 else - n) ?st"
    using balanced_step [OF _ Cons.prems(3,2), of ?st "- n" "if x # p = src then - n else 0"
        "if count_of (ob_total st) (x # p) = n then 0 else - n"] D
    by (auto simp: contrib_drop_level design_def)
  have src_le: "x # p = src \<longrightarrow> n \<le> count_of (ob_source st) (x # p)" using Cons.prems(6) by auto
  have lvl: "m_drop (x # p) src n st =
    (if count_of (ob_total st) (x # p) \<noteq> n then m_drop p src n ?st else (?st, []))"
    using m_drop_level [OF n Cons.prems(4) src_le] Cons.prems(1) by (simp add: frame_ok_def)
  show ?case
  proof (cases "count_of (ob_total st) (x # p) = n")
    case True
    with bal have "balanced D [] 0 ?st" using balanced_zero by auto
    with True lvl frame show ?thesis by auto
  next
    case False
    have src: "src \<noteq> p" "length p \<le> length src" using Cons.prems(5) by auto
    have "p \<in> D" using Cons.prems(3) D by (auto simp: design_def)
    then obtain st' where "m_drop p src n ?st = (st', [])" "frame_ok D st'" "balanced D [] 0 st'"
      "ob_forked st' = ob_forked ?st" "ob_forked_contexts st' = ob_forked_contexts ?st"
      "\<forall>q. count_of (ob_source st') q = count_of (ob_source ?st) q - (if q = p \<and> src = p then n else 0)"
      using Cons.IH [OF frame, of] bal False src Cons.prems(4) by auto
    with lvl False src show ?thesis by auto
  qed
qed


text \<open>One level of a raise.\<close>

definition raise_level :: "obj \<Rightarrow> obj \<Rightarrow> int \<Rightarrow> objection \<Rightarrow> obj_context option \<times> objection" where
  "raise_level p src n st =
     (let st = st\<lparr>ob_total := add_count p n (ob_total st)\<rparr>;
          st = (if src = p then st\<lparr>ob_source := add_count p n (ob_source st)\<rparr> else st)
      in take_context p (raised p src n st))"

definition ctx_count :: "obj_context option \<Rightarrow> int" where
  "ctx_count r = (case r of None \<Rightarrow> 0 | Some c \<Rightarrow> cx_count c)"

lemma raise_level_frame:
  assumes "raise_level p src n st = (r, st')" "frame_ok D st" "ob_forked st = []" "p \<in> D" "0 < n"
  shows "frame_ok D st' \<and> ob_forked st' = []
    \<and> (\<forall>q. count_of (ob_total st') q = count_of (ob_total st) q + (if q = p then n else 0))
    \<and> (\<forall>q. count_of (ob_source st') q = count_of (ob_source st) q + (if q = p then (if src = p then n else 0) else 0))
    \<and> (\<forall>q. contrib st' q = contrib st q + (if q = p then n - ctx_count r else 0))
    \<and> ob_cleared st' = ob_cleared st"
proof -
  define st1 where "st1 = raised p src n (if src = p then st\<lparr>ob_total := add_count p n (ob_total st), ob_source := add_count p n (ob_source st)\<rparr>
      else st\<lparr>ob_total := add_count p n (ob_total st)\<rparr>)"
  have take: "take_context p st1 = (r, st')"
    using assms(1) by (auto simp: raise_level_def st1_def Let_def split: if_splits)
  have s1: "all_ctx st1 = all_ctx st" "procs_ok st1 = procs_ok st" "ob_forked st1 = []"
    "ob_hier_mode st1 = ob_hier_mode st" "ob_cleared st1 = ob_cleared st"
    "\<And>q. count_of (ob_total st1) q = count_of (ob_total st) q + (if q = p then n else 0)"
    "\<And>q. count_of (ob_source st1) q = count_of (ob_source st) q + (if q = p then (if src = p then n else 0) else 0)"
    using assms(3) by (auto simp: st1_def raised_def add_log_def all_ctx_def procs_ok_def)
  have ctx: "ctx_ok D st" and procs: "procs_ok st1" and counts: "counts_ok st" and hier: "ob_hier_mode st"
    using assms(2) s1(2) by (auto simp: frame_ok_def)
  have fr: "ob_total st' = ob_total st1" "ob_source st' = ob_source st1" "ob_hier_mode st' = ob_hier_mode st1"
    "ob_cleared st' = ob_cleared st1"
    using take_context_frame [OF take] by auto
  have tot: "\<And>q. count_of (ob_total st') q = count_of (ob_total st) q + (if q = p then n else 0)"
    and src: "\<And>q. count_of (ob_source st') q = count_of (ob_source st) q + (if q = p then (if src = p then n else 0) else 0)"
    using fr s1 by simp_all
  have co: "counts_ok st'" using counts assms(5) by (auto simp: counts_ok_def tot src)
  have ctx1: "ctx_ok D (st\<lparr>ob_hier_mode := True\<rparr>)" using ctx by (simp add: ctx_ok_def all_ctx_def)
  show ?thesis
  proof (cases r)
    case None
    have same: "st' = st1" and fresh: "p \<notin> cx_obj ` set (all_ctx st)"
      using take_context_None [OF take [unfolded None] procs] s1(1) by auto
    have "ctx_ok D st'" using ctx fresh s1 unfolding same ctx_ok_def by fastforce
    moreover have "contrib st' q = contrib st q + (if q = p then n else 0)" for q
      by (simp add: same contrib_def pending_def s1)
    ultimately show ?thesis using co tot src hier procs s1 fr None
      by (simp add: frame_ok_def ctx_count_def same)
  next
    case (Some c)
    have dist: "distinct (map cx_obj (all_ctx st1))" using ctx s1(1) by (simp add: ctx_ok_def)
    have keys: "distinct (map fst (ob_forked_contexts st1))"
      using dist unfolding procs_fst [OF procs] by (simp add: all_ctx_def)
    from take_context_Some [OF take [unfolded Some] procs keys s1(3)] s1(1)
    obtain xs ys where xy: "all_ctx st = xs @ c # ys" "all_ctx st' = xs @ ys" "cx_obj c = p"
      and pr: "procs_ok st'" "ob_forked st' = []" by auto
    have "ctx_ok D st'"
      unfolding ctx_ok_def
    proof (intro conjI ballI)
      show "distinct (map cx_obj (all_ctx st'))" using ctx xy by (auto simp: ctx_ok_def)
      fix d assume d: "d \<in> set (all_ctx st')"
      then have dx: "d \<in> set (xs @ ys)" by (simp only: xy(2))
      have "cx_obj c \<notin> cx_obj ` set (xs @ ys)" using ctx xy(1) by (auto simp: ctx_ok_def)
      then have "cx_obj d \<noteq> p" using imageI [OF dx, of cx_obj] xy(3) by metis
      moreover have "d \<in> set (all_ctx st)" using dx xy(1) by auto
      ultimately have "d \<in> set (all_ctx st)" "cx_obj d \<noteq> p" by blast+
      with ctx show "cx_obj d \<in> D" "0 < cx_count d" "length (cx_obj d) \<le> length (cx_source d)"
        "count_of (ob_total st') (cx_obj d) = 0" by (auto simp: ctx_ok_def tot)
    qed
    moreover have "contrib st' q = contrib st q + (if q = p then n - cx_count c else 0)" for q
      using pending_ctx [OF xy(1,2), of q] xy(3) by (simp add: contrib_def tot)
    ultimately show ?thesis using co tot src hier pr s1 fr Some
      by (simp add: frame_ok_def ctx_count_def)
  qed
qed

lemma m_raise_level:
  assumes "raise_level p src n st = (r, st')" "ob_hier_mode st'"
  shows "m_raise p src n st =
    (let diff = n - ctx_count r
     in if p = [] \<or> (diff = 0 \<and> r \<noteq> None) then (st', [])
        else if diff > 0 \<or> r = None then m_raise (tl p) src diff st' else m_drop (tl p) src (- diff) st')"
  using assms
  by (subst m_raise.simps)
    (auto simp: raise_level_def ctx_count_def m_get_parent_def Let_def split: option.split)

lemma m_raise_books:
  assumes D: "design D"
  shows "\<lbrakk>frame_ok D st; ob_forked st = []; balanced D p (if src = p then 0 else n) st; p \<in> D; 0 < n;
      length p \<le> length src\<rbrakk>
    \<Longrightarrow> \<exists>st'. m_raise p src n st = (st', []) \<and> frame_ok D st' \<and> balanced D [] 0 st'
       \<and> (\<forall>q. count_of (ob_source st') q = count_of (ob_source st) q + (if q = p \<and> src = p then n else 0))"
proof (induction p arbitrary: st n)
  case Nil
  obtain r st1 where lvl: "raise_level [] src n st = (r, st1)" by fastforce
  note fr = raise_level_frame [OF lvl Nil(1,2,4,5)]
  have "balanced D (tl []) 0 st1"
    using balanced_step [OF _ Nil(4,3), of st1 n "if src = [] then n else 0" "n - ctx_count r"] fr D
    by (auto simp: design_def)
  then have "balanced D [] 0 st1" by simp
  moreover have "m_raise [] src n st = (st1, [])"
    using m_raise_level [OF lvl] fr by (simp add: frame_ok_def Let_def)
  ultimately show ?case using fr by auto
next
  case (Cons x p)
  obtain r st1 where lvl: "raise_level (x # p) src n st = (r, st1)" by fastforce
  note fr = raise_level_frame [OF lvl Cons.prems(1,2,4,5)]
  let ?d = "n - ctx_count r"
  have bal: "balanced D p ?d st1"
    using balanced_step [OF _ Cons.prems(4,3), of st1 n "if src = x # p then n else 0" ?d] fr D
    by (auto simp: design_def)
  have eq: "m_raise (x # p) src n st = (if ?d = 0 \<and> r \<noteq> None then (st1, [])
      else if ?d > 0 \<or> r = None then m_raise p src ?d st1 else m_drop p src (- ?d) st1)"
    using m_raise_level [OF lvl] fr by (auto simp: frame_ok_def Let_def)
  have src: "src \<noteq> p" "length p \<le> length src" using Cons.prems(6) by auto
  have pD: "p \<in> D" using Cons.prems(4) D by (auto simp: design_def)
  have dn: "r = None \<Longrightarrow> ?d > 0" using Cons.prems(5) by (simp add: ctx_count_def)
  consider (stop) "?d = 0" "r \<noteq> None" | (up) "?d > 0" | (down) "?d < 0" using dn by fastforce
  then show ?case
  proof cases
    case stop
    then have "balanced D [] 0 st1" using bal balanced_zero by auto
    with stop eq fr show ?thesis by auto
  next
    case up
    then obtain st2 where "m_raise p src ?d st1 = (st2, [])" "frame_ok D st2" "balanced D [] 0 st2"
      "\<forall>q. count_of (ob_source st2) q = count_of (ob_source st1) q + (if q = p \<and> src = p then ?d else 0)"
      using Cons.IH [of st1 ?d] fr bal pD src by auto
    with up eq fr src show ?thesis by auto
  next
    case down
    then obtain st2 where "m_drop p src (- ?d) st1 = (st2, [])" "frame_ok D st2" "balanced D [] 0 st2"
      "\<forall>q. count_of (ob_source st2) q = count_of (ob_source st1) q - (if q = p \<and> src = p then - ?d else 0)"
      using m_drop_books [OF D, of st1 p src "- ?d"] fr bal pD src by auto
    with down eq fr src dn show ?thesis by auto
  qed
qed


section \<open>The objection as a machine\<close>

datatype obj_op =
    ORaise obj int
  | ODrop obj int
  | OFork
  | OStart nat
  | OElapsed nat
  | OClear
  | ODrainTime obj nat

fun obj_step :: "obj_op \<Rightarrow> objection \<Rightarrow> objection" where
  "obj_step (ORaise p n) st = fst (raise_objection p n st)"
| "obj_step (ODrop p n) st = fst (drop_objection p n st)"
| "obj_step OFork st = m_execute_scheduled_forks st"
| "obj_step (OStart k) st = fst (m_forked_drain_guard k st)"
| "obj_step (OElapsed pid) st = fst (drain_elapsed pid st)"
| "obj_step OClear st = (case clear st of None \<Rightarrow> st | Some (st', _) \<Rightarrow> st')"
| "obj_step (ODrainTime p t) st = (case set_drain_time (\<lambda>_. False) [] p t st of None \<Rightarrow> st | Some st' \<Rightarrow> st')"

text \<open>
  The orders under which the books stay balanced: spawned processes start in the order of
  spawning, no object is raised between the spawning and the start of a drain process, and
  \<open>clear\<close> finds at most one object draining and no process that has not started.
\<close>

fun obj_ok :: "obj set \<Rightarrow> obj_op \<Rightarrow> objection \<Rightarrow> bool" where
  "obj_ok D (ORaise p n) st \<longleftrightarrow> p \<in> D \<and> 0 < n \<and> ob_forked st = []"
| "obj_ok D (ODrop p n) st \<longleftrightarrow> p \<in> D \<and> 0 < n"
| "obj_ok D (OStart k) st \<longleftrightarrow> k = 0"
| "obj_ok D OClear st \<longleftrightarrow> ob_starting st = [] \<and> length (ob_forked_contexts st) \<le> 1"
| "obj_ok D _ st \<longleftrightarrow> True"

definition obj_inv :: "obj set \<Rightarrow> objection \<Rightarrow> bool" where
  "obj_inv D st \<longleftrightarrow> frame_ok D st \<and> balanced D [] 0 st"

text \<open>Parts of the state the invariant does not look at.\<close>

lemma inv_irrelevant [simp]:
  "frame_ok D (st\<lparr>ob_cleared := a\<rparr>) = frame_ok D st"
  "frame_ok D (st\<lparr>ob_drain_time := dt\<rparr>) = frame_ok D st"
  "frame_ok D (st\<lparr>ob_top_all_dropped := b\<rparr>) = frame_ok D st"
  "frame_ok D (add_log e st) = frame_ok D st"
  "balanced D p d (st\<lparr>ob_cleared := a\<rparr>) = balanced D p d st"
  "balanced D p d (st\<lparr>ob_drain_time := dt\<rparr>) = balanced D p d st"
  "balanced D p d (st\<lparr>ob_top_all_dropped := b\<rparr>) = balanced D p d st"
  "balanced D p d (add_log e st) = balanced D p d st"
  by (simp_all add: frame_ok_def ctx_ok_def all_ctx_def procs_ok_def counts_ok_def balanced_def contrib_def
      pending_def add_log_def)

lemma inv_raise:
  assumes "design D" "obj_inv D st" "p \<in> D" "0 < n" "ob_forked st = []"
  shows "\<exists>st'. raise_objection p n st = (st', []) \<and> obj_inv D st'
    \<and> (\<forall>q. get_objection_count q st' = get_objection_count q st + (if q = p then n else 0))"
proof -
  let ?st = "st\<lparr>ob_cleared := False, ob_top_all_dropped := False\<rparr>"
  have "balanced D p (if p = p then 0 else n) ?st" using assms(2) balanced_zero [of D p st "[]"]
    by (simp add: obj_inv_def)
  with m_raise_books [OF assms(1), of ?st p p n] assms show ?thesis
    by (auto simp: raise_objection_def obj_inv_def get_objection_count_def)
qed

lemma inv_drop:
  assumes "design D" "obj_inv D st" "p \<in> D" "0 < n"
  shows "(if n \<le> get_objection_count p st
    then \<exists>st'. drop_objection p n st = (st', []) \<and> obj_inv D st'
      \<and> (\<forall>q. get_objection_count q st' = get_objection_count q st - (if q = p then n else 0))
    else drop_objection p n st = (st, if ob_cleared st then [] else [(UVM_FATAL, ''OBJTN_ZERO'')]))"
proof (cases "n \<le> get_objection_count p st")
  case True
  have "balanced D p (if p = p then 0 else - n) st" using assms(2) balanced_zero [of D p st "[]"]
    by (simp add: obj_inv_def)
  with m_drop_books [OF assms(1), of st p p n] assms True show ?thesis
    by (auto simp: drop_objection_def obj_inv_def get_objection_count_def)
next
  case False
  then show ?thesis
    by (subst drop_objection_def, subst m_drop.simps) (auto simp: get_objection_count_def Let_def)
qed


lemma inv_fork:
  assumes "obj_inv D st"
  shows "obj_inv D (m_execute_scheduled_forks st)"
proof (cases "ob_scheduled st")
  case (Cons c cs)
  let ?st = "m_execute_scheduled_forks st"
  have ctxs: "all_ctx st = c # cs @ ob_forked st @ map snd (ob_forked_contexts st)"
    "all_ctx ?st = cs @ ob_forked st @ c # map snd (ob_forked_contexts st)"
    using Cons by (simp_all add: all_ctx_def m_execute_scheduled_forks_def)
  have same: "ob_total ?st = ob_total st" "ob_source ?st = ob_source st" "ob_hier_mode ?st = ob_hier_mode st"
    using Cons by (simp_all add: m_execute_scheduled_forks_def)
  have "pending ?st q = pending st q" for q
    using ctxs by (simp add: pending_def)
  then have bal: "balanced D [] 0 ?st"
    using assms by (simp add: obj_inv_def balanced_def contrib_def same)
  have ctx: "ctx_ok D ?st"
  proof -
    have "distinct (map cx_obj (all_ctx ?st))"
      using assms unfolding obj_inv_def frame_ok_def ctx_ok_def ctxs by auto
    moreover have "set (all_ctx ?st) = set (all_ctx st)" unfolding ctxs by auto
    ultimately show ?thesis using assms by (simp add: obj_inv_def frame_ok_def ctx_ok_def same)
  qed
  have ok: "procs_ok st" and dist: "distinct (map cx_obj (all_ctx st))"
    using assms by (auto simp: obj_inv_def frame_ok_def ctx_ok_def)
  have new: "cx_obj c \<notin> cx_obj ` set (ob_forked st)" "\<And>q d. (q, d) \<in> set (ob_forked_contexts st) \<Longrightarrow> q \<noteq> cx_obj c"
  proof -
    show "cx_obj c \<notin> cx_obj ` set (ob_forked st)" using dist ctxs(1) by auto
    fix q d assume d: "(q, d) \<in> set (ob_forked_contexts st)"
    then have "cx_obj d = q" using ok by (auto simp: procs_ok_def)
    moreover have "cx_obj c \<notin> cx_obj ` set (map snd (ob_forked_contexts st))" using dist ctxs(1) by auto
    moreover have "d \<in> set (map snd (ob_forked_contexts st))" using d by (auto intro: rev_image_eqI)
    ultimately show "q \<noteq> cx_obj c" by (metis imageI)
  qed
  have "procs_ok ?st"
    unfolding procs_ok_def
  proof (intro conjI)
    show "length (ob_starting ?st) = length (ob_forked ?st)"
      using ok Cons by (simp add: procs_ok_def m_execute_scheduled_forks_def)
    show "\<forall>i < length (ob_forked ?st). ob_drain_proc ?st (cx_obj (ob_forked ?st ! i)) = Some (ob_starting ?st ! i)"
    proof (intro allI impI)
      fix i assume i: "i < length (ob_forked ?st)"
      show "ob_drain_proc ?st (cx_obj (ob_forked ?st ! i)) = Some (ob_starting ?st ! i)"
      proof (cases "i < length (ob_forked st)")
        case True
        then have "cx_obj (ob_forked st ! i) \<noteq> cx_obj c" using new(1) by (metis imageI nth_mem)
        with True ok Cons show ?thesis by (simp add: procs_ok_def m_execute_scheduled_forks_def nth_append)
      next
        case False
        with i ok Cons show ?thesis by (simp add: procs_ok_def m_execute_scheduled_forks_def nth_append less_Suc_eq)
      qed
    qed
    show "\<forall>(p, d) \<in> set (ob_forked_contexts ?st). cx_obj d = p
        \<and> (\<exists>pid. ob_drain_proc ?st p = Some pid \<and> (pid, d) \<in> set (ob_draining ?st))"
      using ok Cons new(2) by (fastforce simp: procs_ok_def m_execute_scheduled_forks_def)
    show "\<forall>(pid, d) \<in> set (ob_draining ?st). (cx_obj d, d) \<in> set (ob_forked_contexts ?st)
        \<and> ob_drain_proc ?st (cx_obj d) = Some pid"
      using ok Cons new(2) by (fastforce simp: procs_ok_def m_execute_scheduled_forks_def)
    show "distinct (ob_starting ?st @ map fst (ob_draining ?st))"
      using ok Cons by (auto simp: procs_ok_def m_execute_scheduled_forks_def)
    show "\<forall>pid \<in> set (ob_starting ?st @ map fst (ob_draining ?st)). pid < ob_next_pid ?st"
      using ok Cons by (auto simp: procs_ok_def m_execute_scheduled_forks_def less_Suc_eq)
  qed
  with ctx bal same assms show ?thesis
    by (simp add: obj_inv_def frame_ok_def counts_ok_def)
qed (use assms in \<open>simp add: m_execute_scheduled_forks_def\<close>)

text \<open>The drop of a draining process does not touch the contexts being drained.\<close>

abbreviation "set_drain st dp fc dr \<equiv> st\<lparr>ob_drain_proc := dp, ob_forked_contexts := fc, ob_draining := dr\<rparr>"

lemma drop_level_set_drain:
  "drop_level p src n (set_drain st dp fc dr) = set_drain (drop_level p src n st) dp fc dr"
  by (simp add: drop_level_def dropped_def add_log_def Let_def)

lemma drop_fails_set_drain: "drop_fails p src n (set_drain st dp fc dr) = drop_fails p src n st"
  by (simp add: drop_fails_def)

lemma m_drop_set_drain:
  "ob_hier_mode st \<Longrightarrow> m_drop p src n (set_drain st dp fc dr) =
     (let (st', ms) = m_drop p src n st in (set_drain st' dp fc dr, ms))"
proof (induction p arbitrary: st)
  case Nil
  then show ?case
    by (subst (1 2) m_drop_hier) (simp_all add: drop_fails_set_drain drop_level_set_drain)
next
  case (Cons x p)
  have "m_drop p src n (drop_level (x # p) src n (set_drain st dp fc dr)) =
      (let (st', ms) = m_drop p src n (drop_level (x # p) src n st) in (set_drain st' dp fc dr, ms))"
    unfolding drop_level_set_drain by (rule Cons.IH) (simp add: Cons.prems)
  with Cons.prems show ?case
    by (subst (1 2) m_drop_hier) (simp_all add: drop_fails_set_drain drop_level_set_drain)
qed

lemma m_drop_drain_fields:
  assumes "ob_hier_mode st" "m_drop p src n st = (st', ms)"
  shows "ob_drain_proc st' = ob_drain_proc st \<and> ob_forked_contexts st' = ob_forked_contexts st
    \<and> ob_draining st' = ob_draining st"
proof -
  have "set_drain st (ob_drain_proc st) (ob_forked_contexts st) (ob_draining st) = st" by simp
  with m_drop_set_drain [OF assms(1), where p = p and src = src and n = n and dp = "ob_drain_proc st" and fc = "ob_forked_contexts st" and dr = "ob_draining st"] assms(2)
  have "st' = set_drain st' (ob_drain_proc st) (ob_forked_contexts st) (ob_draining st)" by simp
  then have "ob_drain_proc st' = ob_drain_proc (set_drain st' (ob_drain_proc st) (ob_forked_contexts st) (ob_draining st))"
    "ob_forked_contexts st' = ob_forked_contexts (set_drain st' (ob_drain_proc st) (ob_forked_contexts st) (ob_draining st))"
    "ob_draining st' = ob_draining (set_drain st' (ob_drain_proc st) (ob_forked_contexts st) (ob_draining st))"
    by metis+
  then show ?thesis by simp
qed


lemma inv_end_drain:
  assumes D: "design D" and inv: "obj_inv D st" and pid: "(pid, c) \<in> set (ob_draining st)"
  shows "\<exists>st'. end_drain pid c st = (st', []) \<and> obj_inv D st'
    \<and> (\<forall>q. count_of (ob_source st') q = count_of (ob_source st) q)"
proof -
  let ?p = "cx_obj c"
  let ?dp = "(ob_drain_proc st)(?p := None)" and ?fc = "filter (\<lambda>(q, _). q \<noteq> ?p) (ob_forked_contexts st)"
    and ?dr = "filter (\<lambda>(q, _). q \<noteq> pid) (ob_draining st)"
  define st1 where "st1 = (let st' = all_dropped ?p (cx_source c) (cx_count c) st;
      st' = st'\<lparr>ob_source := erase_zero ?p (ob_source st')\<rparr> in st'\<lparr>ob_total := erase_zero ?p (ob_total st')\<rparr>)"
  have s1: "count_of (ob_total st1) = count_of (ob_total st)" "count_of (ob_source st1) = count_of (ob_source st)"
    "all_ctx st1 = all_ctx st" "procs_ok st1 = procs_ok st" "ob_hier_mode st1 = ob_hier_mode st"
    "ob_scheduled st1 = ob_scheduled st" "ob_forked st1 = ob_forked st" "ob_draining st1 = ob_draining st"
    "ob_drain_proc st1 = ob_drain_proc st" "ob_forked_contexts st1 = ob_forked_contexts st"
    by (auto simp: st1_def all_dropped_def add_log_def Let_def all_ctx_def procs_ok_def)
  define st2 where "st2 = set_drain st1 ?dp ?fc ?dr"
  have ok: "procs_ok st" "ctx_ok D st" "counts_ok st" "ob_hier_mode st" and bal: "balanced D ?p 0 st"
    using inv balanced_zero [of D ?p st "[]"] by (auto simp: obj_inv_def frame_ok_def)
  have mem: "(?p, c) \<in> set (ob_forked_contexts st)" using ok(1) pid by (auto simp: procs_ok_def)
  have dist: "distinct (map cx_obj (all_ctx st))" using ok(2) by (simp add: ctx_ok_def)
  have keys: "distinct (map fst (ob_forked_contexts st))"
    using dist unfolding procs_fst [OF ok(1)] by (simp add: all_ctx_def)
  have "map_of (ob_forked_contexts st) ?p = Some c" using keys mem by simp
  from filter_fc [OF this keys] obtain xs ys where
    xy: "ob_forked_contexts st = xs @ (?p, c) # ys" "?fc = xs @ ys" by blast
  let ?xs = "ob_scheduled st @ ob_forked st @ map snd xs"
  have ctxs: "all_ctx st = ?xs @ c # map snd ys" "all_ctx st2 = ?xs @ map snd ys"
    using xy by (simp_all add: all_ctx_def st2_def s1)
  have fresh: "?p \<notin> cx_obj ` set (ob_forked st)" using dist ctxs(1) by auto
  have c: "?p \<in> D" "0 < cx_count c" "length ?p \<le> length (cx_source c)"
    using ok(2) ctxs(1) by (auto simp: ctx_ok_def)
  have "procs_ok st2"
  proof -
    have "st2 = st1\<lparr>ob_forked_contexts := ?fc, ob_drain_proc := ?dp, ob_draining := ?dr\<rparr>"
      by (rule objection.equality) (simp_all add: st2_def)
    with procs_ok_remove [of st1 pid c ?p] ok(1) pid fresh show ?thesis by (simp add: s1)
  qed
  moreover have "ctx_ok D st2"
    using ok(2) unfolding ctx_ok_def ctxs by (auto simp: st2_def s1)
  moreover have "counts_ok st2" using ok(3) by (simp add: counts_ok_def st2_def s1)
  ultimately have frame: "frame_ok D st2" using ok(4) by (simp add: frame_ok_def st2_def s1)
  have con: "contrib st2 q = contrib st q + (if q = ?p then - cx_count c else 0)" for q
    using pending_ctx [OF ctxs, of q] by (simp add: contrib_def st2_def s1)
  have bal2: "balanced D (tl ?p) (if ?p = [] then 0 else - cx_count c) st2"
    by (rule balanced_step [OF _ c(1) bal, where a = 0 and b = 0])
      (use D con in \<open>simp_all add: design_def st2_def s1\<close>)
  have drain: "m_forked_drain c st = (if ?p \<noteq> [] then m_drop (tl ?p) (cx_source c) (cx_count c) st1 else (st1, []))"
  proof -
    have "m_forked_drain c st = (if \<not> ob_hier_mode st1 \<and> ?p \<noteq> [] then m_drop [] (cx_source c) (cx_count c) st1
        else if ?p \<noteq> [] then m_drop (m_get_parent ?p) (cx_source c) (cx_count c) st1 else (st1, []))"
      unfolding m_forked_drain_def st1_def Let_def by (rule refl)
    then show ?thesis using ok(4) s1(5) by (simp add: m_get_parent_def)
  qed
  show ?thesis
  proof (cases "?p = []")
    case True
    then have "end_drain pid c st = (st2, [])" by (simp add: end_drain_def drain st2_def s1)
    with True frame bal2 s1 show ?thesis by (auto simp: obj_inv_def st2_def)
  next
    case False
    have src: "cx_source c \<noteq> tl ?p" "length (tl ?p) \<le> length (cx_source c)" "tl ?p \<in> D"
  proof -
      have len: "length (tl ?p) < length ?p" using False by simp
      with c(3) show "cx_source c \<noteq> tl ?p" by (metis not_le)
      from len c(3) show "length (tl ?p) \<le> length (cx_source c)" by simp
      show "tl ?p \<in> D" using D c(1) by (simp add: design_def)
    qed
    obtain st3 where st3: "m_drop (tl ?p) (cx_source c) (cx_count c) st2 = (st3, [])"
      "frame_ok D st3" "balanced D [] 0 st3" "\<forall>q. count_of (ob_source st3) q = count_of (ob_source st2) q"
      using m_drop_books [OF D frame, of "tl ?p" "cx_source c" "cx_count c"] bal2 False src c(2) by auto
    obtain st4 ms where st4: "m_drop (tl ?p) (cx_source c) (cx_count c) st1 = (st4, ms)" by fastforce
    have h1: "ob_hier_mode st1" using ok(4) s1 by simp
    have "(st3, []) = (set_drain st4 ?dp ?fc ?dr, ms)"
      using m_drop_set_drain [OF h1, of "tl ?p" "cx_source c" "cx_count c" ?dr ?fc ?dp] st3(1) st4
      by (simp add: st2_def)
    moreover have "ob_drain_proc st4 = ob_drain_proc st" "ob_forked_contexts st4 = ob_forked_contexts st"
      "ob_draining st4 = ob_draining st"
      using m_drop_drain_fields [OF h1 st4] s1 by auto
    ultimately have "end_drain pid c st = (st3, [])"
      using False st4 by (simp add: end_drain_def drain)
    with st3 s1 show ?thesis by (auto simp: obj_inv_def st2_def)
  qed
qed


lemma inv_start:
  assumes D: "design D" and inv: "obj_inv D st"
  shows "\<exists>st'. m_forked_drain_guard 0 st = (st', []) \<and> obj_inv D st'"
proof (cases "ob_forked st")
  case Nil
  then have "ob_starting st = []" using inv by (simp add: obj_inv_def frame_ok_def procs_ok_def)
  with inv show ?thesis by (simp add: m_forked_drain_guard_def)
next
  case (Cons c cs)
  have ok: "procs_ok st" "ctx_ok D st" using inv by (auto simp: obj_inv_def frame_ok_def)
  then obtain pid ps where ps: "ob_starting st = pid # ps"
    using Cons by (cases "ob_starting st") (auto simp: procs_ok_def)
  have dist: "distinct (map cx_obj (all_ctx st))" using ok(2) by (simp add: ctx_ok_def)
  have new: "q \<noteq> cx_obj c" if "(q, d) \<in> set (ob_forked_contexts st)" for q d
  proof -
    have "cx_obj d = q" using ok(1) that by (auto simp: procs_ok_def)
    moreover have "cx_obj c \<notin> cx_obj ` set (map snd (ob_forked_contexts st))"
      using dist Cons by (auto simp: all_ctx_def)
    moreover have "d \<in> set (map snd (ob_forked_contexts st))" using that by (auto intro: rev_image_eqI)
    ultimately show ?thesis by (metis imageI)
  qed
  then have put: "put_forked c (ob_forked_contexts st) = ob_forked_contexts st @ [(cx_obj c, c)]"
    unfolding put_forked_def by (subst filter_True) auto
  define st1 where "st1 = st\<lparr>ob_starting := ps, ob_forked := cs,
    ob_forked_contexts := ob_forked_contexts st @ [(cx_obj c, c)], ob_draining := ob_draining st @ [(pid, c)]\<rparr>"
  have ctxs: "all_ctx st = ob_scheduled st @ c # cs @ map snd (ob_forked_contexts st)"
    "all_ctx st1 = ob_scheduled st @ cs @ map snd (ob_forked_contexts st) @ [c]"
    using Cons by (simp_all add: all_ctx_def st1_def)
  have reg: "ob_drain_proc st (cx_obj c) = Some pid" using ok(1) Cons ps by (fastforce simp: procs_ok_def)
  have "pending st1 q = pending st q" for q using ctxs by (simp add: pending_def)
  then have bal: "balanced D [] 0 st1" using inv by (simp add: obj_inv_def balanced_def contrib_def st1_def)
  have "distinct (map cx_obj (all_ctx st1))" using dist unfolding ctxs by auto
  moreover have "set (all_ctx st1) = set (all_ctx st)" unfolding ctxs by auto
  ultimately have ctx: "ctx_ok D st1" using ok(2) by (simp add: ctx_ok_def st1_def)
  have "procs_ok st1"
    unfolding procs_ok_def
  proof (intro conjI)
    show "length (ob_starting st1) = length (ob_forked st1)" using ok(1) Cons ps by (simp add: procs_ok_def st1_def)
    show "\<forall>i < length (ob_forked st1). ob_drain_proc st1 (cx_obj (ob_forked st1 ! i)) = Some (ob_starting st1 ! i)"
    proof (intro allI impI)
      fix i assume "i < length (ob_forked st1)"
      then have "Suc i < length (ob_forked st)" using Cons by (simp add: st1_def)
      then have "ob_drain_proc st (cx_obj (ob_forked st ! Suc i)) = Some (ob_starting st ! Suc i)"
        using ok(1) by (simp add: procs_ok_def)
      then show "ob_drain_proc st1 (cx_obj (ob_forked st1 ! i)) = Some (ob_starting st1 ! i)"
        using Cons ps by (simp add: st1_def)
    qed
    show "\<forall>(p, d) \<in> set (ob_forked_contexts st1). cx_obj d = p
        \<and> (\<exists>pid. ob_drain_proc st1 p = Some pid \<and> (pid, d) \<in> set (ob_draining st1))"
      using ok(1) reg by (fastforce simp: procs_ok_def st1_def)
    show "\<forall>(k, d) \<in> set (ob_draining st1). (cx_obj d, d) \<in> set (ob_forked_contexts st1)
        \<and> ob_drain_proc st1 (cx_obj d) = Some k"
      using ok(1) reg by (fastforce simp: procs_ok_def st1_def)
    show "distinct (ob_starting st1 @ map fst (ob_draining st1))"
      using ok(1) ps by (auto simp: procs_ok_def st1_def)
    show "\<forall>k \<in> set (ob_starting st1 @ map fst (ob_draining st1)). k < ob_next_pid st1"
      using ok(1) ps by (auto simp: procs_ok_def st1_def)
  qed
  then have inv1: "obj_inv D st1"
    using ctx bal inv by (simp add: obj_inv_def frame_ok_def counts_ok_def st1_def)
  have pid: "(pid, c) \<in> set (ob_draining st1)" by (simp add: st1_def)
  have "m_forked_drain_guard 0 st = (if ob_drain_time st (cx_obj c) = None then end_drain pid c st1 else (st1, []))"
    using Cons ps put by (simp add: m_forked_drain_guard_def Let_def st1_def)
  with inv_end_drain [OF D inv1 pid] inv1 show ?thesis by auto
qed

lemma inv_elapsed:
  assumes "design D" "obj_inv D st"
  shows "\<exists>st'. drain_elapsed pid st = (st', []) \<and> obj_inv D st'"
proof (cases "map_of (ob_draining st) pid")
  case (Some c)
  then have "(pid, c) \<in> set (ob_draining st)" by (rule map_of_SomeD)
  from inv_end_drain [OF assms this] Some show ?thesis by (auto simp: drain_elapsed_def)
qed (use assms in \<open>simp add: drain_elapsed_def\<close>)

lemma inv_empty:
  assumes "design D" "ob_source st = Map.empty" "ob_total st = Map.empty" "ob_scheduled st = []" "ob_forked st = []"
    "ob_forked_contexts st = []" "ob_starting st = []" "ob_draining st = []" "ob_hier_mode st"
  shows "obj_inv D st"
  using assms by (simp add: obj_inv_def frame_ok_def ctx_ok_def procs_ok_def counts_ok_def balanced_def all_ctx_def
      contrib_def pending_def count_of_def)

lemma inv_clear:
  assumes D: "design D" and inv: "obj_inv D st" and "ob_starting st = []" "length (ob_forked_contexts st) \<le> 1"
    and res: "clear st = Some (st', ms)"
  shows "obj_inv D st'"
proof -
  have ok: "procs_ok st" "ob_hier_mode st" using inv by (auto simp: obj_inv_def frame_ok_def)
  show ?thesis
  proof (cases "ob_forked_contexts st")
    case Nil
    then have "ob_draining st = []" using ok(1) by (auto simp: procs_ok_def) (metis list.set_intros(1) neq_Nil_conv old.prod.exhaust)
    with Nil res assms(3) ok(2) show ?thesis by (intro inv_empty [OF D]) (auto simp: clear_def Let_def)
  next
    case (Cons x xs)
    obtain p c where x: "x = (p, c)" by fastforce
    have fc: "ob_forked_contexts st = [(p, c)]" using Cons assms(4) x by simp
    obtain pid where pid: "ob_drain_proc st p = Some pid" using ok(1) fc by (auto simp: procs_ok_def)
    have "fst y = pid" if "y \<in> set (ob_draining st)" for y
      using that ok(1) fc pid by (cases y) (auto simp: procs_ok_def)
    then have "filter (\<lambda>(q, _). q \<noteq> pid) (ob_draining st) = []" by (auto simp: filter_empty_conv)
    with fc pid res assms(3) ok(2) show ?thesis
      by (intro inv_empty [OF D]) (auto simp: clear_def Let_def kill_drain_def)
  qed
qed

lemma frame_hier: "frame_ok D st \<Longrightarrow> ob_hier_mode st"
  by (simp add: frame_ok_def)

lemma obj_step_inv: "design D \<Longrightarrow> obj_inv D st \<Longrightarrow> obj_ok D e st \<Longrightarrow> obj_inv D (obj_step e st)"
proof (cases e)
  case (ORaise p n)
  then show "design D \<Longrightarrow> obj_inv D st \<Longrightarrow> obj_ok D e st \<Longrightarrow> ?thesis" using inv_raise by fastforce
next
  case (ODrop p n)
  then show "design D \<Longrightarrow> obj_inv D st \<Longrightarrow> obj_ok D e st \<Longrightarrow> ?thesis"
    using inv_drop [of D st p n] by (auto split: if_splits)
next
  case (OStart k)
  then show "design D \<Longrightarrow> obj_inv D st \<Longrightarrow> obj_ok D e st \<Longrightarrow> ?thesis" using inv_start by fastforce
next
  case (OElapsed pid)
  then show "design D \<Longrightarrow> obj_inv D st \<Longrightarrow> obj_ok D e st \<Longrightarrow> ?thesis" using inv_elapsed [of D st pid] by fastforce
next
  case OClear
  then show "design D \<Longrightarrow> obj_inv D st \<Longrightarrow> obj_ok D e st \<Longrightarrow> ?thesis"
    using inv_clear [of D st] by (auto split: option.split)
next
  case (ODrainTime p t)
  then show "design D \<Longrightarrow> obj_inv D st \<Longrightarrow> obj_ok D e st \<Longrightarrow> ?thesis"
    by (auto simp: set_drain_time_def m_set_hier_mode_def obj_inv_def dest: frame_hier)
qed (simp add: inv_fork)


interpretation obj_machine: guarded_machine obj_step "obj_ok D" "\<lambda>st. design D \<and> obj_inv D st"
  by unfold_locales (simp add: obj_step_inv)

section \<open>Properties\<close>

lemma obj_inv_init: "design D \<Longrightarrow> obj_inv D m_objection_init"
  by (rule inv_empty) (simp_all add: m_objection_init_def)

lemma total_zero_below:
  assumes "design D" "obj_inv D st" "q \<in> D" "count_of (ob_total st) q = 0"
  shows "xs @ q \<in> D \<Longrightarrow> count_of (ob_total st) (xs @ q) = 0 \<and> count_of (ob_source st) (xs @ q) = 0"
proof (induction xs)
  have fr: "ctx_ok D st" "counts_ok st" using assms(2) by (auto simp: obj_inv_def frame_ok_def)
  have zero: "count_of (ob_source st) p = 0 \<and> (\<forall>c \<in> kids D p. count_of (ob_total st) c = 0)"
    if "p \<in> D" "count_of (ob_total st) p = 0" for p
  proof -
    have "count_of (ob_total st) p = count_of (ob_source st) p + (\<Sum>c \<in> kids D p. contrib st c)"
      using assms(2) that(1) by (auto simp: obj_inv_def balanced_def)
    moreover have "0 \<le> (\<Sum>c \<in> kids D p. contrib st c)" using contrib_nonneg [OF fr] by (intro sum_nonneg) auto
    moreover have "0 \<le> count_of (ob_source st) p" using fr(2) by (simp add: counts_ok_def)
    ultimately have s: "count_of (ob_source st) p = 0" "(\<Sum>c \<in> kids D p. contrib st c) = 0" using that(2) by auto
    have "contrib st c = 0" if "c \<in> kids D p" for c
      using s(2) sum_nonneg_0 [of "kids D p" "contrib st"] finite_kids [of D p] assms(1) contrib_nonneg [OF fr] that
      by (simp add: design_def sum_nonneg_eq_0_iff)
    then have "count_of (ob_total st) c = 0" if "c \<in> kids D p" for c
      using that pending_nonneg [OF fr(1), of c] fr(2)
      by (force simp: contrib_def counts_ok_def intro: antisym)
    with s(1) show ?thesis by blast
  qed
  {
    case Nil
    then show ?case using zero [OF assms(3,4)] assms(4) by simp
  next
    case (Cons x xs)
    have D: "xs @ q \<in> D" using Cons.prems assms(1) by (auto simp: design_def)
    then have "count_of (ob_total st) (xs @ q) = 0" using Cons.IH by blast
    moreover have "(x # xs) @ q \<in> kids D (xs @ q)" using Cons.prems by (simp add: kids_def)
    ultimately have "count_of (ob_total st) ((x # xs) @ q) = 0" using zero [OF D] by blast
    with zero [OF Cons.prems] show ?case by blast
  }
qed

subsection \<open>The totals of the ancestors\<close>

text \<open>An object and those above it; of these, the ones that a drop reaches: up to the first whose
  total becomes 0.\<close>

primrec upwards :: "obj \<Rightarrow> obj list" where
  "upwards [] = [[]]"
| "upwards (x # p) = (x # p) # upwards p"

primrec drop_path :: "(obj \<Rightarrow> int) \<Rightarrow> int \<Rightarrow> obj \<Rightarrow> obj list" where
  "drop_path tot n [] = [[]]"
| "drop_path tot n (x # p) = (x # p) # (if tot (x # p) = n then [] else drop_path tot n p)"

lemma upwards_length: "q \<in> set (upwards p) \<Longrightarrow> length q \<le> length p"
  by (induction p) auto

lemma upwards_self: "p \<in> set (upwards p)"
  by (cases p) simp_all

lemma drop_path_upwards: "set (drop_path tot n p) \<subseteq> set (upwards p)"
  by (induction p) auto

lemma drop_path_ne [simp]: "drop_path tot n p \<noteq> []"
  by (cases p) simp_all

lemma drop_path_cong: "(\<And>q. q \<in> set (upwards p) \<Longrightarrow> tot q = tot' q) \<Longrightarrow> drop_path tot n p = drop_path tot' n p"
  by (induction p) auto

lemma not_above: "x # p \<notin> set (upwards p)"
  using upwards_length [of "x # p" p] by auto

lemma drop_level_scheduled:
  "ob_scheduled (drop_level p src n st) =
     ob_scheduled st @ (if count_of (ob_total st) p = n then [\<lparr>cx_obj = p, cx_source = src, cx_count = n\<rparr>] else [])"
  by (simp add: drop_level_def dropped_def add_log_def Let_def)

lemma m_drop_path:
  assumes "ob_hier_mode st" "0 < n" "\<forall>q \<in> set (upwards p). n \<le> count_of (ob_total st) q"
    and "p = src \<longrightarrow> n \<le> count_of (ob_source st) p" "length p \<le> length src"
  shows "let st' = fst (m_drop p src n st); path = drop_path (count_of (ob_total st)) n p
    in (\<forall>q. count_of (ob_total st') q = count_of (ob_total st) q - (if q \<in> set path then n else 0)) \<and>
       ob_scheduled st' = ob_scheduled st @ (if count_of (ob_total st) (last path) = n
         then [\<lparr>cx_obj = last path, cx_source = src, cx_count = n\<rparr>] else [])"
  using assms
proof (induction p arbitrary: st)
  case Nil
  then show ?case using m_drop_level [of n st "[]" src] by (auto simp: Let_def drop_level_scheduled)
next
  case (Cons x p)
  let ?st = "drop_level (x # p) src n st"
  have lvl: "m_drop (x # p) src n st =
      (if count_of (ob_total st) (x # p) \<noteq> n then m_drop p src n ?st else (?st, []))"
    using m_drop_level [of n st "x # p" src] Cons.prems by simp
  show ?case
  proof (cases "count_of (ob_total st) (x # p) = n")
    case True
    then show ?thesis by (simp add: lvl Let_def drop_level_scheduled)
  next
    case False
    have same: "drop_path (count_of (ob_total ?st)) n p = drop_path (count_of (ob_total st)) n p"
      by (rule drop_path_cong) (use not_above [of x p] in auto)
    have new: "x # p \<notin> set (drop_path (count_of (ob_total st)) n p)"
      using not_above [of x p] drop_path_upwards by blast
    have l: "last (drop_path (count_of (ob_total st)) n p) \<noteq> x # p"
      using new last_in_set [OF drop_path_ne] by metis
    have "p \<noteq> src" "length p \<le> length src" using Cons.prems(5) by auto
    then have "let st' = fst (m_drop p src n ?st); path = drop_path (count_of (ob_total ?st)) n p
      in (\<forall>q. count_of (ob_total st') q = count_of (ob_total ?st) q - (if q \<in> set path then n else 0)) \<and>
         ob_scheduled st' = ob_scheduled ?st @ (if count_of (ob_total ?st) (last path) = n
           then [\<lparr>cx_obj = last path, cx_source = src, cx_count = n\<rparr>] else [])"
      by (intro Cons.IH) (use Cons.prems not_above [of x p] in auto)
    then show ?thesis
      using False new l by (auto simp: lvl Let_def same drop_level_scheduled)
  qed
qed

lemma take_context_absent:
  assumes "p \<notin> cx_obj ` set (all_ctx st)" "procs_ok st"
  shows "take_context p st = (None, st)"
proof -
  have no: "remove_ctx p cs = (None, cs)" if "p \<notin> cx_obj ` set cs" for cs
    using that by (induction cs) auto
  have "cx_obj c = q" if "(q, c) \<in> set (ob_forked_contexts st)" for q c
    using assms(2) that by (auto simp: procs_ok_def)
  then have "map_of (ob_forked_contexts st) p = None"
    using assms(1) by (force simp: all_ctx_def map_of_eq_None_iff)
  moreover have "p \<notin> cx_obj ` set (ob_scheduled st)" "p \<notin> cx_obj ` set (ob_forked st)"
    using assms(1) by (auto simp: all_ctx_def)
  ultimately show ?thesis using no by (simp add: take_context_def)
qed

lemma raise_level_absent:
  assumes "procs_ok st" "p \<notin> cx_obj ` set (all_ctx st)"
  obtains st1 where "raise_level p src n st = (None, st1)" "all_ctx st1 = all_ctx st" "procs_ok st1"
    "ob_hier_mode st1 = ob_hier_mode st"
    "\<And>q. count_of (ob_total st1) q = count_of (ob_total st) q + (if q = p then n else 0)"
proof -
  define st1 where "st1 = raised p src n (if src = p then st\<lparr>ob_total := add_count p n (ob_total st), ob_source := add_count p n (ob_source st)\<rparr>
      else st\<lparr>ob_total := add_count p n (ob_total st)\<rparr>)"
  have s1: "all_ctx st1 = all_ctx st" "procs_ok st1 = procs_ok st" "ob_hier_mode st1 = ob_hier_mode st"
    "\<And>q. count_of (ob_total st1) q = count_of (ob_total st) q + (if q = p then n else 0)"
    by (auto simp: st1_def raised_def add_log_def all_ctx_def procs_ok_def)
  have "raise_level p src n st = take_context p st1" by (simp add: raise_level_def st1_def Let_def)
  with take_context_absent [of p st1] s1 assms that show thesis by auto
qed

text \<open>Where no context waits, a raise goes up to the top.\<close>

lemma m_raise_path:
  assumes "ob_hier_mode st" "procs_ok st" "\<forall>q \<in> set (upwards p). q \<notin> cx_obj ` set (all_ctx st)" "0 < n"
  shows "(\<forall>q. count_of (ob_total (fst (m_raise p src n st))) q =
      count_of (ob_total st) q + (if q \<in> set (upwards p) then n else 0)) \<and>
    all_ctx (fst (m_raise p src n st)) = all_ctx st"
  using assms
proof (induction p arbitrary: st)
  case Nil
  obtain st1 where lvl: "raise_level [] src n st = (None, st1)" and s: "all_ctx st1 = all_ctx st"
    "ob_hier_mode st1 = ob_hier_mode st"
    "\<And>q. count_of (ob_total st1) q = count_of (ob_total st) q + (if q = [] then n else 0)"
    by (rule raise_level_absent [OF Nil(2), of "[]" src n]) (use Nil(3) in auto)
  then show ?case using m_raise_level [OF lvl] Nil(1) by (simp add: Let_def)
next
  case (Cons x p)
  obtain st1 where lvl: "raise_level (x # p) src n st = (None, st1)" and s: "all_ctx st1 = all_ctx st"
    "procs_ok st1" "ob_hier_mode st1 = ob_hier_mode st"
    "\<And>q. count_of (ob_total st1) q = count_of (ob_total st) q + (if q = x # p then n else 0)"
    by (rule raise_level_absent [OF Cons.prems(2), of "x # p" src n]) (use Cons.prems(3) in auto)
  have e: "m_raise (x # p) src n st = m_raise p src n st1"
    using m_raise_level [OF lvl] s(3) Cons.prems(1) by (simp add: Let_def ctx_count_def)
  have "(\<forall>q. count_of (ob_total (fst (m_raise p src n st1))) q =
      count_of (ob_total st1) q + (if q \<in> set (upwards p) then n else 0)) \<and>
    all_ctx (fst (m_raise p src n st1)) = all_ctx st1"
    by (rule Cons.IH) (use s Cons.prems in auto)
  then show ?case using s not_above [of x p] by (auto simp: e)
qed


lemma ancestors_total:
  assumes "design D" "obj_inv D st"
  shows "p \<in> D \<Longrightarrow> q \<in> set (upwards p) \<Longrightarrow> count_of (ob_total st) p \<le> count_of (ob_total st) q"
proof (induction p)
  case (Cons x p)
  have fr: "ctx_ok D st" "counts_ok st" using assms(2) by (auto simp: obj_inv_def frame_ok_def)
  have D: "p \<in> D" "finite (kids D p)" using Cons.prems(1) assms(1) finite_kids by (auto simp: design_def)
  have "contrib st (x # p) \<le> (\<Sum>c \<in> kids D p. contrib st c)"
    using Cons.prems(1) contrib_nonneg [OF fr] D(2) by (intro member_le_sum) (auto simp: kids_def)
  moreover have "count_of (ob_total st) p = count_of (ob_source st) p + (\<Sum>c \<in> kids D p. contrib st c)"
    using assms(2) D(1) by (auto simp: obj_inv_def balanced_def)
  moreover have "0 \<le> count_of (ob_source st) p" using fr(2) by (simp add: counts_ok_def)
  ultimately have "count_of (ob_total st) (x # p) \<le> count_of (ob_total st) p"
    using pending_nonneg [OF fr(1), of "x # p"] by (simp add: contrib_def)
  then show ?case using Cons.IH [OF D(1)] Cons.prems(2) by auto
qed simp

lemma raise_totals:
  assumes "obj_inv D st" "0 < n" "\<forall>c \<in> set (all_ctx st). cx_obj c \<notin> set (upwards p)"
    and "raise_objection p n st = (st', ms)"
  shows "get_objection_total q st' = get_objection_total q st + (if q \<in> set (upwards p) then n else 0)"
    and "all_ctx st' = all_ctx st"
proof -
  let ?st = "st\<lparr>ob_cleared := False, ob_top_all_dropped := False\<rparr>"
  have "ob_hier_mode ?st" "procs_ok ?st" "\<forall>q \<in> set (upwards p). q \<notin> cx_obj ` set (all_ctx ?st)"
    using assms(1,3) by (auto simp: obj_inv_def frame_ok_def procs_ok_def all_ctx_def)
  from m_raise_path [OF this assms(2), of p] assms(4)
  show "get_objection_total q st' = get_objection_total q st + (if q \<in> set (upwards p) then n else 0)"
    and "all_ctx st' = all_ctx st"
    by (auto simp: raise_objection_def get_objection_total_def all_ctx_def)
qed

lemma drop_totals:
  assumes "design D" "obj_inv D st" "p \<in> D" "0 < n" "n \<le> get_objection_count p st"
    and "drop_objection p n st = (st', ms)"
    and "path = drop_path (\<lambda>q. get_objection_total q st) n p"
  shows "get_objection_total q st' = get_objection_total q st - (if q \<in> set path then n else 0)"
    and "ob_scheduled st' = ob_scheduled st @ (if get_objection_total (last path) st = n
       then [\<lparr>cx_obj = last path, cx_source = p, cx_count = n\<rparr>] else [])"
proof -
  have fr: "frame_ok D st" "balanced D p (if p = p then 0 else - n) st"
    using assms(2) balanced_zero [of D p st "[]"] by (simp_all add: obj_inv_def)
  have "n \<le> count_of (ob_total st) p"
    using m_drop_enough [OF fr assms(3,4)] assms(5) by (simp add: get_objection_count_def)
  then have "\<forall>q \<in> set (upwards p). n \<le> count_of (ob_total st) q"
    using ancestors_total [OF assms(1,2,3)] by force
  from m_drop_path [OF frame_hier [OF fr(1)] assms(4) this, of p] assms(5-7)
  show "get_objection_total q st' = get_objection_total q st - (if q \<in> set path then n else 0)"
    and "ob_scheduled st' = ob_scheduled st @ (if get_objection_total (last path) st = n
       then [\<lparr>cx_obj = last path, cx_source = p, cx_count = n\<rparr>] else [])"
    by (simp_all add: drop_objection_def get_objection_total_def get_objection_count_def Let_def)
qed

lemma quiet_below:
  assumes "design D" "obj_inv D st" "q \<in> D" "get_objection_total q st = 0" "xs @ q \<in> D" "xs \<noteq> []"
  shows "cx_obj c \<noteq> xs @ q \<or> c \<notin> set (all_ctx st)"
proof -
  have fr: "ctx_ok D st" "counts_ok st" using assms(2) by (auto simp: obj_inv_def frame_ok_def)
  obtain x ys where xs: "xs = x # ys" using assms(6) by (cases xs) auto
  have p: "ys @ q \<in> D" using assms(1,5) xs by (auto simp: design_def)
  have z: "count_of (ob_total st) (ys @ q) = 0"
    using total_zero_below [OF assms(1-3) _ p] assms(4) by (simp add: get_objection_total_def)
  have "count_of (ob_total st) (ys @ q) = count_of (ob_source st) (ys @ q) + (\<Sum>c \<in> kids D (ys @ q). contrib st c)"
    using assms(2) p by (auto simp: obj_inv_def balanced_def)
  moreover have "contrib st (xs @ q) \<le> (\<Sum>c \<in> kids D (ys @ q). contrib st c)"
    using assms(5) contrib_nonneg [OF fr] finite_kids [of D] assms(1) xs
    by (intro member_le_sum) (auto simp: kids_def design_def)
  moreover have "0 \<le> count_of (ob_source st) (ys @ q)" "0 \<le> count_of (ob_total st) (xs @ q)"
    using fr(2) by (simp_all add: counts_ok_def)
  ultimately have "pending st (xs @ q) \<le> 0" using z by (simp add: contrib_def)
  moreover have "0 < pending st (xs @ q)" if "c \<in> set (all_ctx st)" "cx_obj c = xs @ q"
  proof -
    have "cx_count c \<le> sum_list (map cx_count (filter (\<lambda>c. cx_obj c = xs @ q) (all_ctx st)))"
      using that fr(1) by (intro member_le_sum_list) (auto simp: ctx_ok_def less_imp_le)
    moreover have "0 < cx_count c" using that fr(1) by (simp add: ctx_ok_def)
    ultimately show ?thesis by (simp add: pending_def)
  qed
  ultimately show ?thesis by fastforce
qed

text \<open>C11. A phase cannot end while an object objects. In every run from a new objection in which the
  counts raised and dropped are positive, the drain processes start in the order of spawning, no
  object is raised between the spawning and the start of a drain process, and \<open>clear\<close> finds at most
  one object draining and none about to (\<open>obj_ok\<close>; lemma \<open>raise_during_spawn_lost\<close> shows that these
  conditions are needed): a total of 0 at an object means that it and every object below it have
  no objection of their own and a total of 0, and that below it no drop is scheduled or drained.\<close>

theorem no_objection_below_zero_total:
  assumes "design D" and "\<forall>k < length es. obj_ok D (es ! k) (fold obj_step (take k es) m_objection_init)"
    and "st = fold obj_step es m_objection_init"
    and "q \<in> D" "xs @ q \<in> D" "get_objection_total q st = 0"
  shows "get_objection_count (xs @ q) st = 0 \<and> get_objection_total (xs @ q) st = 0 \<and>
    (xs \<noteq> [] \<longrightarrow> (\<forall>c \<in> set (all_ctx st). cx_obj c \<noteq> xs @ q))"
proof -
  have inv: "obj_inv D st"
    unfolding assms(3) using obj_machine.run_inv_nth [of D m_objection_init es] assms(1,2) obj_inv_init by blast
  from total_zero_below [OF assms(1) inv assms(4) _ assms(5)] quiet_below [OF assms(1) inv assms(4,6,5)] assms(6)
  show ?thesis by (auto simp: get_objection_total_def get_objection_count_def)
qed

definition sample_design :: "obj set" where
  "sample_design = {[], [''env''], [''a'', ''env''], [''b'', ''env'']}"

lemma sample_design: "design sample_design"
  by (simp add: design_def sample_design_def)

definition sample_run :: "obj_op list" where
  "sample_run = [ORaise [''a'', ''env''] 2, ORaise [''b'', ''env''] 1, ODrop [''b'', ''env''] 1, OFork, OStart 0,
     ODrop [''a'', ''env''] 2, OFork, OStart 0, OFork, OStart 0, OFork, OStart 0]"

theorem no_objection_below_zero_total_witness:
  "get_objection_total [] (fold obj_step sample_run m_objection_init) = 0
   \<and> get_objection_count [''a'', ''env''] (fold obj_step sample_run m_objection_init) = 0
   \<and> get_objection_total [''a'', ''env''] (fold obj_step sample_run m_objection_init) = 0"
proof -
  have ok: "\<forall>k < length sample_run. obj_ok sample_design (sample_run ! k) (fold obj_step (take k sample_run) m_objection_init)"
    by code_simp
  have z: "get_objection_total [] (fold obj_step sample_run m_objection_init) = 0" by code_simp
  have d: "[] \<in> sample_design" "[''a'', ''env''] @ [] \<in> sample_design" by (simp_all add: sample_design_def)
  from no_objection_below_zero_total [OF sample_design ok refl d z] z show ?thesis by simp
qed

text \<open>C13. Raising and dropping are exact, for the object and for its ancestors. In a state with balanced
  books, a raise while no drain process waits to start adds its count to the object's own count
  and to no other; when neither the object nor an ancestor has a drop waiting or being drained, it
  adds the count to the totals of the object and of all its ancestors and to no other total. A
  drop of at most the object's own count subtracts it there, and from the totals of the object and
  of its ancestors up to the first whose total becomes 0, for which the rest of the drop is
  scheduled; no other total changes. A larger drop changes nothing and is fatal, or ignored after
  \<open>clear\<close>. The books stay balanced, so no drop that is passed on to the parents can fail.\<close>

theorem raise_drop_exact:
  assumes "design D" "obj_inv D st" "p \<in> D" "0 < n"
    and "path = drop_path (\<lambda>q. get_objection_total q st) n p"
  shows "(ob_forked st = [] \<longrightarrow> (\<exists>st'. raise_objection p n st = (st', []) \<and> obj_inv D st'
      \<and> (\<forall>q. get_objection_count q st' = get_objection_count q st + (if q = p then n else 0))
      \<and> ((\<forall>c \<in> set (all_ctx st). cx_obj c \<notin> set (upwards p)) \<longrightarrow> all_ctx st' = all_ctx st \<and>
           (\<forall>q. get_objection_total q st' =
              get_objection_total q st + (if q \<in> set (upwards p) then n else 0)))))
    \<and> (n \<le> get_objection_count p st \<longrightarrow> (\<exists>st'. drop_objection p n st = (st', []) \<and> obj_inv D st'
      \<and> (\<forall>q. get_objection_count q st' = get_objection_count q st - (if q = p then n else 0))
      \<and> (\<forall>q. get_objection_total q st' = get_objection_total q st - (if q \<in> set path then n else 0))
      \<and> ob_scheduled st' = ob_scheduled st @ (if get_objection_total (last path) st = n
           then [\<lparr>cx_obj = last path, cx_source = p, cx_count = n\<rparr>] else [])))
    \<and> (n > get_objection_count p st \<longrightarrow>
      drop_objection p n st = (st, if ob_cleared st then [] else [(UVM_FATAL, ''OBJTN_ZERO'')]))"
proof (intro conjI impI)
  assume "ob_forked st = []"
  from inv_raise [OF assms(1-4) this] raise_totals [OF assms(2,4)]
  show "\<exists>st'. raise_objection p n st = (st', []) \<and> obj_inv D st'
      \<and> (\<forall>q. get_objection_count q st' = get_objection_count q st + (if q = p then n else 0))
      \<and> ((\<forall>c \<in> set (all_ctx st). cx_obj c \<notin> set (upwards p)) \<longrightarrow> all_ctx st' = all_ctx st \<and>
           (\<forall>q. get_objection_total q st' =
              get_objection_total q st + (if q \<in> set (upwards p) then n else 0)))"
    by metis
next
  assume le: "n \<le> get_objection_count p st"
  with inv_drop [OF assms(1-4)] obtain st' where st': "drop_objection p n st = (st', [])" "obj_inv D st'"
    "\<forall>q. get_objection_count q st' = get_objection_count q st - (if q = p then n else 0)" by auto
  with drop_totals [OF assms(1-4) le st'(1) assms(5)]
  show "\<exists>st'. drop_objection p n st = (st', []) \<and> obj_inv D st'
      \<and> (\<forall>q. get_objection_count q st' = get_objection_count q st - (if q = p then n else 0))
      \<and> (\<forall>q. get_objection_total q st' = get_objection_total q st - (if q \<in> set path then n else 0))
      \<and> ob_scheduled st' = ob_scheduled st @ (if get_objection_total (last path) st = n
           then [\<lparr>cx_obj = last path, cx_source = p, cx_count = n\<rparr>] else [])"
    by blast
qed (use inv_drop [OF assms(1-4)] in simp)

definition raised_once :: objection where
  "raised_once = fst (raise_objection [''a'', ''env''] 3 m_objection_init)"

theorem raise_drop_exact_witness:
  "drop_objection [''env''] 3 m_objection_init = (m_objection_init, [(UVM_FATAL, ''OBJTN_ZERO'')])
   \<and> (\<exists>st'. raise_objection [''a'', ''env''] 3 m_objection_init = (st', [])
        \<and> get_objection_count [''a'', ''env''] st' = 3 \<and> get_objection_total [] st' = 3)
   \<and> (\<exists>st'. drop_objection [''a'', ''env''] 2 raised_once = (st', [])
        \<and> get_objection_count [''a'', ''env''] st' = 1 \<and> get_objection_total [] st' = 1
        \<and> get_objection_total [''b'', ''env''] st' = 0)"
proof -
  have d: "[''env''] \<in> sample_design" "[''a'', ''env''] \<in> sample_design" "(0::int) < 3" "(0::int) < 2"
    by (simp_all add: sample_design_def)
  note init = obj_inv_init [OF sample_design]
  have z: "get_objection_total q m_objection_init = 0" "get_objection_count q m_objection_init = 0"
    "all_ctx m_objection_init = []" "ob_forked m_objection_init = []" for q
    by (simp_all add: m_objection_init_def get_objection_count_def get_objection_total_def count_of_def all_ctx_def)
  note R = raise_drop_exact [OF sample_design init d(2,3) refl, THEN conjunct1, THEN mp, OF z(4)]
  obtain st1 where r0: "raise_objection [''a'', ''env''] 3 m_objection_init = (st1, [])"
    and r1: "obj_inv sample_design st1"
    "\<forall>q. get_objection_count q st1 = (if q = [''a'', ''env''] then 3 else 0)"
    "\<forall>q. get_objection_total q st1 = (if q \<in> set (upwards [''a'', ''env'']) then 3 else 0)"
    using R unfolding z by (elim exE conjE) simp
  have once: "raised_once = st1" by (simp add: raised_once_def r0)
  note r = r1 [folded once]
  have "drop_objection [''env''] 3 m_objection_init = (m_objection_init, [(UVM_FATAL, ''OBJTN_ZERO'')])"
    using raise_drop_exact [OF sample_design init d(1,3) refl] by (simp add: z) (simp add: m_objection_init_def)
  moreover have "\<exists>st'. drop_objection [''a'', ''env''] 2 raised_once = (st', [])
        \<and> get_objection_count [''a'', ''env''] st' = 1 \<and> get_objection_total [] st' = 1
        \<and> get_objection_total [''b'', ''env''] st' = 0"
    using raise_drop_exact [OF sample_design r(1) d(2,4) refl] r(2,3) by auto
  ultimately show ?thesis using r0 r1(2,3) by auto
qed

definition lost_raise_run :: "obj_op list" where
  "lost_raise_run =
     [ORaise [''a''] 1, ORaise [''b''] 1, ODrainTime [''b''] 10, ODrop [''a''] 1, ODrop [''b''] 1,
      OFork, OFork, ORaise [''a''] 1, OStart 0, OStart 0, ORaise [''b''] 1, OElapsed 0,
      ODrop [''a''] 1, OFork, OStart 0, OFork, OStart 0]"

text \<open>The conditions on the order matter: when an object is raised between the spawning and the
  start of its drain process, that process takes the context of another object, which a later
  raise then cannot cancel. In this run the root is all dropped although \<open>b\<close> still objects.\<close>

theorem raise_during_spawn_lost:
  "let st = fold obj_step lost_raise_run m_objection_init
   in get_objection_count [''b''] st = 1 \<and> get_objection_total [] st = 0 \<and> ob_top_all_dropped st"
  by code_simp

end
