(* ===== verification/Sequencer.thy ===== *)
theory Sequencer
  imports UVM_Prelude "HOL-Library.Multiset"
begin

text \<open>
  \<open>src/uvmsc/seq/uvm_sequencer_base.cpp\<close>: arbitration between sequences and locks. A sequence is
  the list of the instance ids of itself and its ancestors, itself first: \<open>get_inst_id\<close> is the
  head, \<open>get_parent_sequence\<close> the tail. What the code asks of a sequence is an argument
  (\<open>is_relevant\<close>, \<open>get_priority\<close>, whether its state is \<open>UVM_FINISHED\<close>), and so are the value of
  \<open>rand()\<close> and the user's arbitration function. A call that waits is split into the part up to
  the wait and the test that ends it. Priorities are integers (C \<open>int\<close>s whose sums do not overflow).
  Default phase sequences, execution of items, \<open>stop_sequences\<close> (it ends by reading the first
  element of an empty map) and printing are left out.
\<close>

type_synonym seqn = "nat list"

record seq_env =
  se_relevant :: "seqn \<Rightarrow> bool"
  se_priority :: "seqn \<Rightarrow> int"
  se_finished :: "seqn \<Rightarrow> bool"
  se_user :: "nat list \<Rightarrow> int"

datatype seq_arb_mode =
  SEQ_ARB_FIFO | SEQ_ARB_WEIGHTED | SEQ_ARB_RANDOM | SEQ_ARB_STRICT_FIFO | SEQ_ARB_STRICT_RANDOM | SEQ_ARB_USER

datatype seq_req_t = SEQ_TYPE_REQ | SEQ_TYPE_LOCK | SEQ_TYPE_GRAB

record seq_request =
  rq_sequence_id :: int
  rq_request_id :: int
  rq_priority :: int
  rq_kind :: seq_req_t
  rq_seq :: seqn

record sequencer =
  sq_sqr_ids :: "seqn \<rightharpoonup> int"
  sq_seq_id :: "seqn \<Rightarrow> int"
  sq_reg :: "(int \<times> seqn) list"
  sq_arb_q :: "seq_request list"
  sq_lock_list :: "seqn list"
  sq_completed :: "int set"
  sq_lock_arb_size :: int
  sq_arb_size :: int
  sq_next_sequence :: int
  sq_next_request :: int
  sq_arbitration :: seq_arb_mode

definition new_sequencer :: sequencer where
  "new_sequencer =
     \<lparr>sq_sqr_ids = Map.empty, sq_seq_id = (\<lambda>_. - 1), sq_reg = [], sq_arb_q = [], sq_lock_list = [],
      sq_completed = {}, sq_lock_arb_size = - 1, sq_arb_size = - 1, sq_next_sequence = 1,
      sq_next_request = 0, sq_arbitration = SEQ_ARB_FIFO\<rparr>"

section \<open>Sequences, locks and registration\<close>

definition is_child :: "seqn \<Rightarrow> seqn \<Rightarrow> bool" where
  "is_child parent child \<longleftrightarrow> hd parent \<in> set (tl child)"

primrec blocked_by :: "seqn list \<Rightarrow> seqn \<Rightarrow> bool" where
  "blocked_by [] s = False"
| "blocked_by (l # ls) s = (if hd l \<noteq> hd s \<and> \<not> is_child l s then True else blocked_by ls s)"

definition is_blocked :: "sequencer \<Rightarrow> seqn \<Rightarrow> bool" where
  "is_blocked q s = blocked_by (sq_lock_list q) s"

definition is_grabbed :: "sequencer \<Rightarrow> bool" where
  "is_grabbed q \<longleftrightarrow> length (sq_lock_list q) \<noteq> 0"

definition current_grabber :: "sequencer \<Rightarrow> seqn option" where
  "current_grabber q = (if sq_lock_list q = [] then None else Some (last (sq_lock_list q)))"

definition has_do_available :: "seq_env \<Rightarrow> sequencer \<Rightarrow> bool" where
  "has_do_available env q \<longleftrightarrow>
     list_ex (\<lambda>r. se_relevant env (rq_seq r) \<and> \<not> is_blocked q (rq_seq r)) (sq_arb_q q)"

definition set_arbitration :: "seq_arb_mode \<Rightarrow> sequencer \<Rightarrow> sequencer" where
  "set_arbitration m q = q\<lparr>sq_arbitration := m\<rparr>"

definition m_update_lists :: "sequencer \<Rightarrow> sequencer" where
  "m_update_lists q = q\<lparr>sq_lock_arb_size := sq_lock_arb_size q + 1\<rparr>"

text \<open>The id a sequence has at this sequencer; the second result is the sequence's own \<open>m_sequence_id\<close>.\<close>

definition m_get_sqr_sequence_id :: "seqn \<Rightarrow> bool \<Rightarrow> sequencer \<Rightarrow> int \<times> sequencer" where
  "m_get_sqr_sequence_id s update q =
     (let i = (case sq_sqr_ids q s of None \<Rightarrow> - 1 | Some i \<Rightarrow> i)
      in (i, if update then q\<lparr>sq_seq_id := (sq_seq_id q)(s := i)\<rparr> else q))"

definition put_reg :: "int \<Rightarrow> seqn \<Rightarrow> (int \<times> seqn) list \<Rightarrow> (int \<times> seqn) list" where
  "put_reg i s xs = filter (\<lambda>(j, _). j < i) xs @ (i, s) # filter (\<lambda>(j, _). j > i) xs"

definition m_register_sequence :: "seqn \<Rightarrow> sequencer \<Rightarrow> int \<times> sequencer" where
  "m_register_sequence s q =
     (let (i, q) = m_get_sqr_sequence_id s True q
      in if i > 0 then (sq_seq_id q s, q)
         else
           (let i = sq_next_sequence q;
                q = q\<lparr>sq_next_sequence := i + 1, sq_sqr_ids := (sq_sqr_ids q)(s \<mapsto> i),
                      sq_seq_id := (sq_seq_id q)(s := i), sq_reg := put_reg i s (sq_reg q)\<rparr>
            in (i, q)))"

text \<open>\<open>uvm_sequence_base::start\<close>: the sequence forgets its ids and is registered anew.\<close>

definition start_register :: "seqn \<Rightarrow> sequencer \<Rightarrow> sequencer" where
  "start_register s q =
     snd (m_register_sequence s (q\<lparr>sq_seq_id := (sq_seq_id q)(s := - 1), sq_sqr_ids := (sq_sqr_ids q)(s := None)\<rparr>))"

definition m_unregister_sequence :: "int \<Rightarrow> sequencer \<Rightarrow> sequencer" where
  "m_unregister_sequence i q = q\<lparr>sq_reg := filter (\<lambda>(j, _). j \<noteq> i) (sq_reg q)\<rparr>"

definition has_lock :: "seqn \<Rightarrow> sequencer \<Rightarrow> bool \<times> sequencer" where
  "has_lock s q =
     (let q = snd (m_register_sequence s q) in (list_ex (\<lambda>l. hd l = hd s) (sq_lock_list q), q))"

definition m_set_arbitration_completed :: "int \<Rightarrow> sequencer \<Rightarrow> sequencer" where
  "m_set_arbitration_completed i q = q\<lparr>sq_completed := insert i (sq_completed q)\<rparr>"

text \<open>The wait of \<open>m_wait_for_arbitration_completed\<close> is over when the request is completed.\<close>

definition m_wait_for_arbitration_completed :: "int \<Rightarrow> sequencer \<Rightarrow> sequencer option" where
  "m_wait_for_arbitration_completed i q =
     (if i \<in> sq_completed q then Some (q\<lparr>sq_completed := sq_completed q - {i}\<rparr>) else None)"

section \<open>Locks\<close>

text \<open>
  \<open>grant_queued_locks\<close>: \<open>seen\<close> is the part of the queue before the index. The loop visits the
  requests from there on; a granted lock leaves the queue and the index stays.
\<close>

fun grant_loop :: "seq_request list \<Rightarrow> seq_request list \<Rightarrow> sequencer \<Rightarrow> sequencer" where
  "grant_loop seen [] q = q\<lparr>sq_arb_q := rev seen\<rparr>"
| "grant_loop seen (r # rs) q =
     (if rq_kind r = SEQ_TYPE_LOCK \<and> \<not> is_blocked q (rq_seq r)
      then grant_loop seen rs (m_update_lists (m_set_arbitration_completed (rq_request_id r)
             (q\<lparr>sq_lock_list := sq_lock_list q @ [rq_seq r]\<rparr>)))
      else grant_loop (r # seen) rs q)"

definition grant_queued_locks :: "sequencer \<Rightarrow> sequencer" where
  "grant_queued_locks q = grant_loop [] (sq_arb_q q) q"

text \<open>\<open>m_lock_req\<close> up to its wait; it returns the id of the request. \<open>grab\<close> is \<open>lock = False\<close>.\<close>

definition m_lock_req :: "seqn \<Rightarrow> bool \<Rightarrow> sequencer \<Rightarrow> int \<times> sequencer" where
  "m_lock_req s lock q =
     (let q = snd (m_register_sequence s q); i = sq_next_request q;
          r = \<lparr>rq_sequence_id = sq_seq_id q s, rq_request_id = i, rq_priority = 0,
               rq_kind = SEQ_TYPE_LOCK, rq_seq = s\<rparr>;
          q = q\<lparr>sq_next_request := i + 1\<rparr>;
          q = (if lock then q\<lparr>sq_arb_q := sq_arb_q q @ [r]\<rparr>
               else m_update_lists (q\<lparr>sq_arb_q := r # sq_arb_q q\<rparr>))
      in (i, grant_queued_locks q))"

primrec remove_lock :: "seqn \<Rightarrow> seqn list \<Rightarrow> seqn list option" where
  "remove_lock s [] = None"
| "remove_lock s (l # ls) = (if hd l = hd s then Some ls else map_option (\<lambda>ls'. l # ls') (remove_lock s ls))"

definition m_unlock_req :: "seqn \<Rightarrow> sequencer \<Rightarrow> sequencer \<times> msg list" where
  "m_unlock_req s q =
     (let q = snd (m_register_sequence s q)
      in case remove_lock s (sq_lock_list q) of
           Some ls \<Rightarrow> (m_update_lists (q\<lparr>sq_lock_list := ls\<rparr>), [])
         | None \<Rightarrow> (q, [(UVM_WARNING, ''SQRUNL'')]))"

section \<open>Requests\<close>

text \<open>
  \<open>wait_for_grant\<close> up to its wait, without \<open>lock_request\<close> (with it, the code puts the address of a
  request in the queue that it frees in the next statement). When the wait is over the
  sequence's semaphore is incremented.
\<close>

definition wait_for_grant :: "seqn \<Rightarrow> int \<Rightarrow> sequencer \<Rightarrow> int \<times> sequencer" where
  "wait_for_grant s item_priority q =
     (let (sid, q) = m_register_sequence s q; i = sq_next_request q;
          r = \<lparr>rq_sequence_id = sid, rq_request_id = i, rq_priority = item_priority,
               rq_kind = SEQ_TYPE_REQ, rq_seq = s\<rparr>
      in (i, m_update_lists (q\<lparr>sq_next_request := i + 1, sq_arb_q := sq_arb_q q @ [r]\<rparr>)))"

definition m_get_seq_item_priority :: "seq_env \<Rightarrow> seq_request \<Rightarrow> int \<times> msg list" where
  "m_get_seq_item_priority env r =
     (if rq_priority r \<noteq> - 1 then
        (rq_priority r, if rq_priority r \<le> 0 then [(UVM_FATAL, ''SEQITEMPRI'')] else [])
      else
        (se_priority env (rq_seq r),
         if se_priority env (rq_seq r) < 0 then [(UVM_FATAL, ''SEQDEFPRI'')] else []))"

definition urandom_range :: "uint \<Rightarrow> uint \<Rightarrow> uint \<Rightarrow> uint" where
  "urandom_range rnd mx mn = (if mn = mx then mn else rnd mod (mx - mn) + mn + 1)"

definition eligible :: "seq_env \<Rightarrow> sequencer \<Rightarrow> seq_request \<Rightarrow> bool" where
  "eligible env q r \<longleftrightarrow>
     rq_kind r = SEQ_TYPE_REQ \<and> \<not> is_blocked q (rq_seq r) \<and> se_relevant env (rq_seq r)"

text \<open>The scan of the queue: in FIFO mode it returns at the first eligible request.\<close>

primrec avail_loop :: "seq_env \<Rightarrow> sequencer \<Rightarrow> nat \<Rightarrow> seq_request list \<Rightarrow> nat list" where
  "avail_loop env q i [] = []"
| "avail_loop env q i (r # rs) =
     (if eligible env q r then i # avail_loop env q (Suc i) rs else avail_loop env q (Suc i) rs)"

primrec weighted_loop :: "(nat \<Rightarrow> int) \<Rightarrow> int \<Rightarrow> int \<Rightarrow> nat list \<Rightarrow> nat option" where
  "weighted_loop pri temp acc [] = None"
| "weighted_loop pri temp acc (i # js) =
     (if pri i + acc > temp then Some i else weighted_loop pri temp (acc + pri i) js)"

primrec highest_loop :: "(nat \<Rightarrow> int) \<Rightarrow> nat list \<Rightarrow> int \<Rightarrow> nat list \<Rightarrow> nat list" where
  "highest_loop pri hs hp [] = hs"
| "highest_loop pri hs hp (i # js) =
     (if pri i > hp then highest_loop pri [i] (pri i) js
      else if pri i = hp then highest_loop pri (hs @ [i]) hp js
      else highest_loop pri hs hp js)"

text \<open>
  The choice among at least two available requests; \<open>pms\<close> are the messages of reading their
  priorities, each once. \<open>None\<close> is the result \<open>-1\<close>. An index into an empty vector of highest
  priorities, which only a fatal negative priority can cause, is unspecified here as in C++.
\<close>

definition choose_among ::
  "seq_env \<Rightarrow> seq_arb_mode \<Rightarrow> uint \<Rightarrow> (nat \<Rightarrow> int) \<Rightarrow> msg list \<Rightarrow> nat list \<Rightarrow> nat option \<times> msg list" where
  "choose_among env mode rnd pri pms avail =
     (case mode of
        SEQ_ARB_WEIGHTED \<Rightarrow>
          (let total = sum_list (map pri avail);
               temp = sint (urandom_range rnd (word_of_int (total - 1)) 0)
           in case weighted_loop pri temp 0 avail of
                Some i \<Rightarrow> (Some i, pms)
              | None \<Rightarrow> (None, pms @ [(UVM_FATAL, ''Sequencer''), (UVM_FATAL, ''Sequencer'')]))
      | SEQ_ARB_RANDOM \<Rightarrow> (Some (avail ! unat (urandom_range rnd (of_nat (length avail) - 1) 0)), [])
      | SEQ_ARB_STRICT_FIFO \<Rightarrow> (Some (highest_loop pri [] 0 avail ! 0), pms)
      | SEQ_ARB_STRICT_RANDOM \<Rightarrow>
          (let hs = highest_loop pri [] 0 avail
           in (Some (hs ! unat (urandom_range rnd (of_nat (length hs) - 1) 0)), pms))
      | SEQ_ARB_USER \<Rightarrow>
          (let i = se_user env avail
           in (Some (nat i), if i \<in> int ` set avail then [] else [(UVM_FATAL, ''Sequencer'')]))
      | SEQ_ARB_FIFO \<Rightarrow> (None, [(UVM_FATAL, ''Sequencer'')]))"

text \<open>The requests that are available after the second look at the locks.\<close>

definition still_free :: "sequencer \<Rightarrow> nat list \<Rightarrow> nat list" where
  "still_free q avail =
     (if length (sq_lock_list q) > 0 then filter (\<lambda>i. \<not> is_blocked q (rq_seq (sq_arb_q q ! i))) avail else avail)"

definition m_choose_next_request :: "seq_env \<Rightarrow> uint \<Rightarrow> sequencer \<Rightarrow> nat option \<times> sequencer \<times> msg list" where
  "m_choose_next_request env rnd q =
     (let q = grant_queued_locks q; avail = avail_loop env q 0 (sq_arb_q q)
      in if sq_arbitration q = SEQ_ARB_FIFO then
           (case avail of [] \<Rightarrow> (None, q, []) | i # _ \<Rightarrow> (Some i, q, []))
         else if length avail < 1 then (None, q, [])
         else if length avail = 1 then (Some (avail ! 0), q, [])
         else
           (let avail = still_free q avail
            in if length (sq_lock_list q) > 0 \<and> length avail < 1 then (None, q, [])
               else if length (sq_lock_list q) > 0 \<and> length avail = 1 then (Some (avail ! 0), q, [])
               else
                 (let prio = (\<lambda>i. m_get_seq_item_priority env (sq_arb_q q ! i));
                      (i, ms) = choose_among env (sq_arbitration q) rnd (\<lambda>i. fst (prio i))
                        (concat (map (\<lambda>i. snd (prio i)) avail)) avail
                  in (i, q, ms))))"

text \<open>
  One turn of \<open>m_select_sequence\<close>: either a request is granted or the caller waits for a change
  of the queues. The wait for a relevant sequence is not implemented in the code, which then
  ends the program: \<open>None\<close>.
\<close>

definition m_wait_for_available_sequence :: "seq_env \<Rightarrow> sequencer \<Rightarrow> sequencer option" where
  "m_wait_for_available_sequence env q =
     (let q = q\<lparr>sq_arb_size := sq_lock_arb_size q\<rparr>
      in if list_ex (\<lambda>r. rq_kind r = SEQ_TYPE_REQ \<and> \<not> is_blocked q (rq_seq r) \<and> \<not> se_relevant env (rq_seq r))
              (sq_arb_q q)
         then None else Some q)"

definition m_select_sequence :: "seq_env \<Rightarrow> uint \<Rightarrow> sequencer \<Rightarrow> (seq_request option \<times> sequencer \<times> msg list) option"
where
  "m_select_sequence env rnd q =
     (let (i, q, ms) = m_choose_next_request env rnd q
      in case i of
           None \<Rightarrow> map_option (\<lambda>q. (None, q, ms)) (m_wait_for_available_sequence env q)
         | Some i \<Rightarrow>
             (let r = sq_arb_q q ! i; q = m_set_arbitration_completed (rq_request_id r) q;
                  q = m_update_lists (q\<lparr>sq_arb_q := take i (sq_arb_q q) @ drop (Suc i) (sq_arb_q q)\<rparr>)
              in Some (Some r, q, ms)))"

section \<open>Sequences that end\<close>

definition remove_sequence_from_queues :: "seq_env \<Rightarrow> seqn \<Rightarrow> sequencer \<Rightarrow> sequencer \<times> msg list" where
  "remove_sequence_from_queues env s q =
     (let sid = fst (m_get_sqr_sequence_id s False q);
          gone = (\<lambda>r. rq_sequence_id r = sid \<or> is_child s (rq_seq r));
          lost = (\<lambda>l. hd l = hd s \<or> is_child s l);
          n = length (filter gone (sq_arb_q q)) + length (filter lost (sq_lock_list q));
          ms = (if se_finished env s then replicate n (UVM_ERROR, ''SEQFINERR'') else []);
          q = q\<lparr>sq_arb_q := filter (\<lambda>r. \<not> gone r) (sq_arb_q q),
                sq_lock_list := filter (\<lambda>l. \<not> lost l) (sq_lock_list q),
                sq_lock_arb_size := sq_lock_arb_size q + int n\<rparr>;
          (sid, q) = m_get_sqr_sequence_id s True q
      in (m_unregister_sequence sid q, ms))"

definition m_sequence_exiting :: "seq_env \<Rightarrow> seqn \<Rightarrow> sequencer \<Rightarrow> sequencer \<times> msg list" where
  "m_sequence_exiting env s q = remove_sequence_from_queues env s q"

section \<open>Locks nest\<close>

text \<open>A sequence may pass a lock when it is the holder or one of its descendants.\<close>

definition within :: "seqn \<Rightarrow> seqn \<Rightarrow> bool" where
  "within l s \<longleftrightarrow> hd l \<in> set s"

lemma is_child_within: "s \<noteq> [] \<Longrightarrow> hd l = hd s \<or> is_child l s \<longleftrightarrow> within l s"
  by (cases s) (auto simp: is_child_def within_def)

lemma blocked_by_iff: "s \<noteq> [] \<Longrightarrow> blocked_by ls s \<longleftrightarrow> (\<exists>l \<in> set ls. \<not> within l s)"
  by (induction ls) (auto simp flip: is_child_within)

lemma is_blocked_iff: "s \<noteq> [] \<Longrightarrow> is_blocked q s \<longleftrightarrow> (\<exists>l \<in> set (sq_lock_list q). \<not> within l s)"
  by (simp add: is_blocked_def blocked_by_iff)

lemma is_blocked_cong [simp]:
  "is_blocked (q\<lparr>sq_arb_q := a\<rparr>) s = is_blocked q s"
  "is_blocked (q\<lparr>sq_completed := c\<rparr>) s = is_blocked q s"
  "is_blocked (q\<lparr>sq_arb_size := k\<rparr>) s = is_blocked q s"
  "is_blocked (q\<lparr>sq_lock_arb_size := k\<rparr>) s = is_blocked q s"
  "is_blocked (m_update_lists q) s = is_blocked q s"
  "is_blocked (m_set_arbitration_completed i q) s = is_blocked q s"
  by (simp_all add: is_blocked_def m_update_lists_def m_set_arbitration_completed_def)

definition locks_chain :: "sequencer \<Rightarrow> bool" where
  "locks_chain q \<longleftrightarrow> sorted_wrt within (sq_lock_list q)"

text \<open>
  The queue: request ids are given out once, no queued request is completed, and every request
  carries the id under which its sequence is registered.
\<close>

definition queue_ok :: "sequencer \<Rightarrow> bool" where
  "queue_ok q \<longleftrightarrow> distinct (map rq_request_id (sq_arb_q q))
     \<and> (\<forall>r \<in> set (sq_arb_q q). rq_seq r \<noteq> [] \<and> rq_request_id r < sq_next_request q
          \<and> rq_request_id r \<notin> sq_completed q \<and> sq_sqr_ids q (rq_seq r) = Some (rq_sequence_id r))
     \<and> (\<forall>i \<in> sq_completed q. i < sq_next_request q)"

text \<open>Registration: ids are positive and given out once.\<close>

definition ids_ok :: "sequencer \<Rightarrow> bool" where
  "ids_ok q \<longleftrightarrow> 0 < sq_next_sequence q
     \<and> (\<forall>s i. sq_sqr_ids q s = Some i \<longrightarrow> 0 < i \<and> i < sq_next_sequence q)
     \<and> (\<forall>s t i. sq_sqr_ids q s = Some i \<longrightarrow> sq_sqr_ids q t = Some i \<longrightarrow> s = t)
     \<and> (\<forall>(i, s) \<in> set (sq_reg q). sq_sqr_ids q s = Some i)
     \<and> distinct (map fst (sq_reg q))"

definition locks_ok :: "sequencer \<Rightarrow> bool" where
  "locks_ok q \<longleftrightarrow> locks_chain q \<and> (\<forall>l \<in> set (sq_lock_list q). l \<noteq> [])"

definition sqr_inv :: "sequencer \<Rightarrow> bool" where
  "sqr_inv q \<longleftrightarrow> locks_ok q \<and> queue_ok q \<and> ids_ok q"

lemma sqr_inv_new: "sqr_inv new_sequencer"
  by (simp add: sqr_inv_def locks_ok_def locks_chain_def queue_ok_def ids_ok_def new_sequencer_def)

lemma set_put_reg: "set (put_reg i s xs) = insert (i, s) {(j, t) \<in> set xs. j \<noteq> i}"
  by (auto simp: put_reg_def)

lemma distinct_put_reg: "distinct (map fst xs) \<Longrightarrow> distinct (map fst (put_reg i s xs))"
  by (induction xs) (auto simp: put_reg_def)

text \<open>Registration touches the ids only, and leaves a registered sequence as it is.\<close>

lemma register_frame [simp]:
  "sq_arb_q (snd (m_register_sequence s q)) = sq_arb_q q"
  "sq_lock_list (snd (m_register_sequence s q)) = sq_lock_list q"
  "sq_completed (snd (m_register_sequence s q)) = sq_completed q"
  "sq_next_request (snd (m_register_sequence s q)) = sq_next_request q"
  "sq_arbitration (snd (m_register_sequence s q)) = sq_arbitration q"
  "is_blocked (snd (m_register_sequence s q)) t = is_blocked q t"
  by (simp_all add: m_register_sequence_def m_get_sqr_sequence_id_def is_blocked_def Let_def split: option.splits)

lemma register_ids:
  assumes "ids_ok q"
  shows "ids_ok (snd (m_register_sequence s q))"
    and "sq_sqr_ids (snd (m_register_sequence s q)) s = Some (fst (m_register_sequence s q))"
    and "sq_seq_id (snd (m_register_sequence s q)) s = fst (m_register_sequence s q)"
    and "sq_sqr_ids q t = Some i \<Longrightarrow> sq_sqr_ids (snd (m_register_sequence s q)) t = Some i"
proof -
  show "ids_ok (snd (m_register_sequence s q))"
  proof (cases "sq_sqr_ids q s")
    case None
    let ?q = "snd (m_register_sequence s q)" and ?n = "sq_next_sequence q"
    have q: "sq_sqr_ids ?q = (sq_sqr_ids q)(s \<mapsto> ?n)" "sq_next_sequence ?q = ?n + 1"
        "sq_reg ?q = put_reg ?n s (sq_reg q)"
      using None by (simp_all add: m_register_sequence_def m_get_sqr_sequence_id_def Let_def)
    have lt: "sq_sqr_ids q t = Some i \<Longrightarrow> 0 < i \<and> i < ?n" for t i using assms by (auto simp: ids_ok_def)
    have "sq_sqr_ids ?q t = Some i \<Longrightarrow> sq_sqr_ids ?q u = Some i \<Longrightarrow> t = u" for t u i
      using assms lt [of t i] lt [of u i] by (auto simp: ids_ok_def q split: if_splits)
    moreover have "sq_sqr_ids ?q t = Some i" if "(i, t) \<in> set (sq_reg ?q)" for i t
      using that assms None by (auto simp: ids_ok_def q set_put_reg)
    moreover have "0 < i \<and> i < ?n + 1" if "sq_sqr_ids ?q t = Some i" for t i
    proof (cases "t = s")
      case True
      with that assms show ?thesis by (simp add: q ids_ok_def)
    next
      case False
      with that lt [of t i] show ?thesis by (simp add: q)
    qed
    moreover have "0 < sq_next_sequence ?q" "distinct (map fst (sq_reg ?q))"
      using assms distinct_put_reg [of "sq_reg q" ?n s] by (simp_all add: ids_ok_def q)
    ultimately show ?thesis unfolding ids_ok_def q(2) by blast
  next
    case (Some i)
    then show ?thesis using assms
      by (auto simp: m_register_sequence_def m_get_sqr_sequence_id_def ids_ok_def)
  qed
qed (use assms in \<open>auto simp: m_register_sequence_def m_get_sqr_sequence_id_def ids_ok_def Let_def split: option.splits\<close>)

lemma register_inv: "sqr_inv q \<Longrightarrow> sqr_inv (snd (m_register_sequence s q))"
  using register_ids(1) [of q s] register_ids(4) [of q _ _ s]
  by (simp add: sqr_inv_def locks_ok_def locks_chain_def queue_ok_def)

section \<open>Granting locks\<close>

lemma is_blocked_mono:
  "sq_lock_list q' = sq_lock_list q @ ls \<Longrightarrow> is_blocked q s \<Longrightarrow> is_blocked q' s"
proof -
  have "blocked_by xs s \<Longrightarrow> blocked_by (xs @ ls) s" for xs by (induction xs) auto
  then show "sq_lock_list q' = sq_lock_list q @ ls \<Longrightarrow> is_blocked q s \<Longrightarrow> is_blocked q' s"
    by (simp add: is_blocked_def)
qed

text \<open>What a grant pass does: it splits the queue into the locks it grants and the rest.\<close>

definition grants :: "seq_request list \<Rightarrow> seq_request list \<Rightarrow> seq_request list \<Rightarrow> sequencer \<Rightarrow> sequencer \<Rightarrow> bool" where
  "grants rs gs rest q q' \<longleftrightarrow> rs \<in> shuffles gs rest
     \<and> sq_lock_list q' = sq_lock_list q @ map rq_seq gs
     \<and> sq_completed q' = sq_completed q \<union> rq_request_id ` set gs
     \<and> (\<forall>r \<in> set gs. rq_kind r = SEQ_TYPE_LOCK)
     \<and> (\<forall>r \<in> set rest. rq_kind r = SEQ_TYPE_LOCK \<longrightarrow> is_blocked q' (rq_seq r))"

lemma grant_loop_frame [simp]:
  "sq_sqr_ids (grant_loop seen rs q) = sq_sqr_ids q"
  "sq_seq_id (grant_loop seen rs q) = sq_seq_id q"
  "sq_reg (grant_loop seen rs q) = sq_reg q"
  "sq_next_sequence (grant_loop seen rs q) = sq_next_sequence q"
  "sq_next_request (grant_loop seen rs q) = sq_next_request q"
  "sq_arbitration (grant_loop seen rs q) = sq_arbitration q"
  by (induction seen rs q rule: grant_loop.induct)
    (simp_all add: m_update_lists_def m_set_arbitration_completed_def)

lemma grant_loop_grants:
  "\<exists>gs rest. grants rs gs rest q (grant_loop seen rs q) \<and> sq_arb_q (grant_loop seen rs q) = rev seen @ rest"
proof (induction rs arbitrary: seen q)
  case Nil
  show ?case by (rule exI [of _ "[]"], rule exI [of _ "[]"]) (simp add: grants_def)
next
  case (Cons r rs)
  show ?case
  proof (cases "rq_kind r = SEQ_TYPE_LOCK \<and> \<not> is_blocked q (rq_seq r)")
    case True
    let ?q = "m_update_lists (m_set_arbitration_completed (rq_request_id r) (q\<lparr>sq_lock_list := sq_lock_list q @ [rq_seq r]\<rparr>))"
    from Cons.IH [of ?q seen] obtain gs rest where *: "grants rs gs rest ?q (grant_loop seen rs ?q)"
        "sq_arb_q (grant_loop seen rs ?q) = rev seen @ rest" by blast
    then have "grants (r # rs) (r # gs) rest q (grant_loop seen rs ?q)"
      using True by (auto simp: grants_def m_update_lists_def m_set_arbitration_completed_def intro: Cons_in_shuffles_leftI)
    with * True show ?thesis by auto
  next
    case False
    from Cons.IH [of q "r # seen"] obtain gs rest where *: "grants rs gs rest q (grant_loop (r # seen) rs q)"
        "sq_arb_q (grant_loop (r # seen) rs q) = rev (r # seen) @ rest" by blast
    then have "grants (r # rs) gs (r # rest) q (grant_loop (r # seen) rs q)"
      using False is_blocked_mono [of "grant_loop (r # seen) rs q" q]
      by (auto simp: grants_def intro: Cons_in_shuffles_rightI)
    with * False show ?thesis by auto
  qed
qed

lemma locks_ok_grant:
  "locks_ok q \<Longrightarrow> s \<noteq> [] \<Longrightarrow> \<not> is_blocked q s \<Longrightarrow> sq_lock_list q' = sq_lock_list q @ [s] \<Longrightarrow> locks_ok q'"
  by (auto simp: locks_ok_def locks_chain_def sorted_wrt_append is_blocked_iff)

lemma grant_loop_chain:
  "locks_ok q \<Longrightarrow> \<forall>r \<in> set rs. rq_seq r \<noteq> [] \<Longrightarrow> locks_ok (grant_loop seen rs q)"
proof (induction seen rs q rule: grant_loop.induct)
  case (1 seen q)
  then show ?case by (simp add: locks_ok_def locks_chain_def)
next
  case (2 seen r rs q)
  then show ?case
  proof (cases "rq_kind r = SEQ_TYPE_LOCK \<and> \<not> is_blocked q (rq_seq r)")
    case True
    then have "locks_ok (m_update_lists (m_set_arbitration_completed (rq_request_id r) (q\<lparr>sq_lock_list := sq_lock_list q @ [rq_seq r]\<rparr>)))"
      using 2(3,4) by - (rule locks_ok_grant [of q "rq_seq r"], simp_all add: m_update_lists_def m_set_arbitration_completed_def)
    with True 2(1) 2(4) show ?thesis by simp
  next
    case False
    with 2(2-4) show ?thesis by auto
  qed
qed

lemma grant_queued_locks_frame [simp]:
  "sq_sqr_ids (grant_queued_locks q) = sq_sqr_ids q" "sq_seq_id (grant_queued_locks q) = sq_seq_id q"
  "sq_reg (grant_queued_locks q) = sq_reg q" "sq_next_sequence (grant_queued_locks q) = sq_next_sequence q"
  "sq_next_request (grant_queued_locks q) = sq_next_request q" "sq_arbitration (grant_queued_locks q) = sq_arbitration q"
  by (simp_all add: grant_queued_locks_def)

lemma grant_queued_locks_grants:
  "\<exists>gs. grants (sq_arb_q q) gs (sq_arb_q (grant_queued_locks q)) q (grant_queued_locks q)"
  using grant_loop_grants [of "sq_arb_q q" q "[]"] by (auto simp: grant_queued_locks_def)

lemma distinct_shuffle:
  assumes "xs \<in> shuffles ys zs" "distinct (map f xs)"
  shows "distinct (map f zs)" "f ` set ys \<inter> f ` set zs = {}"
proof -
  have "distinct (map f zs) \<and> f ` set ys \<inter> f ` set zs = {}"
    using assms
  proof (induction xs arbitrary: ys zs)
    case (Cons x xs)
    from Cons.prems(1) consider ys' where "ys = x # ys'" "xs \<in> shuffles ys' zs" | zs' where "zs = x # zs'" "xs \<in> shuffles ys zs'"
      by (auto simp: Cons_in_shuffles_iff neq_Nil_conv)
    then show ?case
    proof cases
      case 1
      with Cons.IH [of ys' zs] Cons.prems(2) set_shuffles [OF 1(2)] show ?thesis by auto
    next
      case 2
      with Cons.IH [of ys zs'] Cons.prems(2) set_shuffles [OF 2(2)] show ?thesis by auto
    qed
  qed simp
  then show "distinct (map f zs)" "f ` set ys \<inter> f ` set zs = {}" by simp_all
qed

lemma queue_ok_split:
  assumes "queue_ok q" "sq_arb_q q \<in> shuffles gs rest" "sq_arb_q q' = rest"
    "sq_completed q' = sq_completed q \<union> rq_request_id ` set gs"
    "sq_next_request q' = sq_next_request q" "sq_sqr_ids q' = sq_sqr_ids q"
  shows "queue_ok q'"
proof -
  have set: "set (sq_arb_q q) = set gs \<union> set rest" using set_shuffles [OF assms(2)] .
  have d: "distinct (map rq_request_id rest)" "rq_request_id ` set gs \<inter> rq_request_id ` set rest = {}"
    using assms(1) distinct_shuffle [OF assms(2), of rq_request_id] by (simp_all add: queue_ok_def)
  show ?thesis unfolding queue_ok_def assms(3-6)
  proof (intro conjI ballI)
    show "distinct (map rq_request_id rest)" by (rule d(1))
  next
    fix r assume r: "r \<in> set rest"
    with set assms(1) have "rq_seq r \<noteq> [] \<and> rq_request_id r < sq_next_request q
        \<and> rq_request_id r \<notin> sq_completed q \<and> sq_sqr_ids q (rq_seq r) = Some (rq_sequence_id r)"
      by (simp add: queue_ok_def)
    with r d(2) show "rq_seq r \<noteq> []" "rq_request_id r < sq_next_request q"
        "rq_request_id r \<notin> sq_completed q \<union> rq_request_id ` set gs"
        "sq_sqr_ids q (rq_seq r) = Some (rq_sequence_id r)" by auto
  next
    fix i assume "i \<in> sq_completed q \<union> rq_request_id ` set gs"
    with set assms(1) show "i < sq_next_request q" by (auto simp: queue_ok_def)
  qed
qed

lemma ids_ok_cong: "sq_next_sequence q' = sq_next_sequence q \<Longrightarrow> sq_sqr_ids q' = sq_sqr_ids q
    \<Longrightarrow> sq_reg q' = sq_reg q \<Longrightarrow> ids_ok q' = ids_ok q"
  by (simp add: ids_ok_def)

lemma grant_inv: "sqr_inv q \<Longrightarrow> sqr_inv (grant_queued_locks q)"
proof -
  assume inv: "sqr_inv q"
  obtain gs where "grants (sq_arb_q q) gs (sq_arb_q (grant_queued_locks q)) q (grant_queued_locks q)"
    using grant_queued_locks_grants by blast
  then have "queue_ok (grant_queued_locks q)"
    using inv by - (rule queue_ok_split [of q gs], simp_all add: grants_def sqr_inv_def)
  moreover have "locks_ok (grant_queued_locks q)"
    using inv grant_loop_chain [of q "sq_arb_q q" "[]"] by (simp add: sqr_inv_def queue_ok_def grant_queued_locks_def)
  moreover have "ids_ok (grant_queued_locks q)"
    using inv ids_ok_cong [of "grant_queued_locks q" q] by (simp add: sqr_inv_def)
  ultimately show ?thesis by (simp add: sqr_inv_def)
qed

section \<open>Choosing a request\<close>

text \<open>The positions of the eligible requests in the order of the queue.\<close>

definition available :: "seq_env \<Rightarrow> sequencer \<Rightarrow> nat list" where
  "available env q = filter (\<lambda>i. eligible env q (sq_arb_q q ! i)) [0..<length (sq_arb_q q)]"

lemma avail_loop_filter:
  "avail_loop env q k rs = filter (\<lambda>i. eligible env q (rs ! (i - k))) [k..<k + length rs]"
proof (induction rs arbitrary: k)
  case (Cons r rs)
  have "[k..<k + length (r # rs)] = k # [Suc k..<Suc k + length rs]" by (subst upt_conv_Cons) simp_all
  moreover have "filter (\<lambda>i. eligible env q ((r # rs) ! (i - k))) [Suc k..<Suc k + length rs]
      = filter (\<lambda>i. eligible env q (rs ! (i - Suc k))) [Suc k..<Suc k + length rs]"
    by (rule filter_cong) (auto simp: nth_Cons')
  ultimately show ?case using Cons.IH [of "Suc k"] by simp
qed simp

lemma avail_loop_available: "avail_loop env q 0 (sq_arb_q q) = available env q"
  by (simp add: avail_loop_filter available_def)

lemma set_available: "i \<in> set (available env q) \<longleftrightarrow> i < length (sq_arb_q q) \<and> eligible env q (sq_arb_q q ! i)"
  by (auto simp: available_def)

lemma available_Cons:
  assumes "available env q = i # js"
  shows "i < length (sq_arb_q q)" "eligible env q (sq_arb_q q ! i)" "j < i \<Longrightarrow> \<not> eligible env q (sq_arb_q q ! j)"
proof -
  have s: "sorted_wrt (<) (i # js)" using assms sorted_wrt_upt [of 0 "length (sq_arb_q q)"]
    by (metis available_def sorted_wrt_filter)
  show i: "i < length (sq_arb_q q)" "eligible env q (sq_arb_q q ! i)"
    using set_available [of i env q] assms by auto
  show "\<not> eligible env q (sq_arb_q q ! j)" if "j < i" 
    using that i(1) s set_available [of j env q] assms by auto
qed

lemma available_Nil: "available env q = [] \<longleftrightarrow> (\<forall>r \<in> set (sq_arb_q q). \<not> eligible env q r)"
  by (auto simp: available_def filter_empty_conv all_set_conv_all_nth)

lemma available_sorted: "sorted (available env q)" "distinct (available env q)"
  by (simp_all add: available_def sorted_wrt_filter)

lemma still_free_available: "still_free q (available env q) = available env q"
  by (auto simp: still_free_def filter_id_conv set_available eligible_def)

lemma urandom_range_zero:
  assumes "n < 2 ^ 32"
  shows "unat (urandom_range rnd (of_nat n) 0) = (if n = 0 then 0 else unat rnd mod n + 1)"
proof (cases "n = 0")
  case False
  with assms have n: "unat (of_nat n :: uint) = n" "(of_nat n :: uint) \<noteq> 0"
    by (simp_all add: word_unat_eq_iff unsigned_of_nat take_bit_nat_eq_self)
  have "unat rnd mod n + 1 \<le> n" using False by (simp add: Suc_leI)
  then show ?thesis using assms False n
    by (simp add: urandom_range_def unat_word_ariths unat_mod_distrib)
qed (simp add: urandom_range_def)

lemma highest_loop_filter:
  "\<forall>i \<in> set pre. pri i \<le> hp \<Longrightarrow>
   highest_loop pri (filter (\<lambda>i. pri i = hp) pre) hp js
     = filter (\<lambda>i. pri i = fold (\<lambda>i. max (pri i)) js hp) (pre @ js)"
proof (induction js arbitrary: pre hp)
  case (Cons i js)
  consider "pri i > hp" | "pri i = hp" | "pri i < hp" by linarith
  then show ?case
  proof cases
    case 1
    then have "filter (\<lambda>j. pri j = pri i) pre = []" using Cons.prems by (force simp: filter_empty_conv)
    moreover have "\<forall>j \<in> set (pre @ [i]). pri j \<le> pri i" using 1 Cons.prems by auto
    ultimately show ?thesis using 1 Cons.IH [of "pre @ [i]" "pri i"] by (simp add: max_def)
  next
    case 2
    with Cons.IH [of "pre @ [i]" hp] Cons.prems show ?thesis by simp
  next
    case 3
    with Cons.IH [of "pre @ [i]" hp] Cons.prems show ?thesis by (simp add: max_def)
  qed
qed simp

lemma fold_max: "fold (\<lambda>i. max (pri i)) js hp = Max (insert (hp::int) (pri ` set js))"
proof (induction js arbitrary: hp)
  case (Cons i js)
  have "Max (insert (max (pri i) hp) (pri ` set js)) = max (max (pri i) hp) (Max (insert hp (pri ` set js)))"
    by (cases "set js = {}") (auto simp: Max_insert max.assoc max.left_commute max.commute)
  then show ?case using Cons.IH [of "max (pri i) hp"]
    by (cases "set js = {}") (auto simp: Max_insert max.assoc max.left_commute max.commute)
qed simp

lemma highest_loop_max:
  assumes "\<forall>i \<in> set js. 0 < pri i" "js \<noteq> []"
  shows "highest_loop pri [] 0 js = filter (\<lambda>i. pri i = Max (pri ` set js)) js"
    and "highest_loop pri [] 0 js \<noteq> []"
proof -
  have m: "Max (insert 0 (pri ` set js)) = Max (pri ` set js)"
  proof -
    have "0 < pri (hd js)" "pri (hd js) \<le> Max (pri ` set js)" using assms by (simp_all add: Max_ge)
    then have "0 \<le> Max (pri ` set js)" by linarith
    then show ?thesis using assms(2) by (simp add: Max_insert max_absorb2)
  qed
  show eq: "highest_loop pri [] 0 js = filter (\<lambda>i. pri i = Max (pri ` set js)) js"
    using highest_loop_filter [of "[]" pri 0 js] by (simp add: fold_max m)
  have "Max (pri ` set js) \<in> pri ` set js" using assms(2) by (intro Max_in) auto
  then show "highest_loop pri [] 0 js \<noteq> []" by (auto simp: eq filter_empty_conv)
qed

lemma weighted_loop_some:
  "0 \<le> temp - acc \<Longrightarrow> temp < acc + sum_list (map pri js) \<Longrightarrow>
   \<exists>xs i ys. js = xs @ i # ys \<and> weighted_loop pri temp acc js = Some i
     \<and> acc + sum_list (map pri xs) \<le> temp \<and> temp < acc + sum_list (map pri xs) + pri i"
proof (induction js arbitrary: acc)
  case (Cons j js)
  show ?case
  proof (cases "pri j + acc > temp")
    case True
    with Cons.prems show ?thesis by (intro exI [of _ "[]"] exI [of _ j] exI [of _ js]) simp
  next
    case False
    with Cons.IH [of "acc + pri j"] Cons.prems obtain xs i ys where "js = xs @ i # ys"
        "weighted_loop pri temp (acc + pri j) js = Some i" "acc + pri j + sum_list (map pri xs) \<le> temp"
        "temp < acc + pri j + sum_list (map pri xs) + pri i" by auto
    with False show ?thesis by (intro exI [of _ "j # xs"] exI [of _ i] exI [of _ ys]) simp
  qed
qed simp

lemma weighted_temp:
  assumes "2 \<le> tot" "tot < 2 ^ 31"
  shows "sint (urandom_range rnd (word_of_int (tot - 1)) 0) = int (unat rnd mod nat (tot - 1)) + 1"
    and "int (unat rnd mod nat (tot - 1)) + 1 < tot"
proof -
  define n where "n = nat (tot - 1)"
  have n: "word_of_int (tot - 1) = (of_nat n :: uint)" "0 < n" "n < 2 ^ 31" "tot = int n + 1"
    using assms by (simp_all add: n_def)
  let ?u = "urandom_range rnd (of_nat n) 0"
  have lt: "unat rnd mod n + 1 \<le> n" using n(2) by (simp add: Suc_leI)
  have u: "unat ?u = unat rnd mod n + 1" using urandom_range_zero [of n rnd] n by simp
  then have ui: "uint ?u = int (unat rnd mod n + 1)" by (simp only: uint_nat)
  have "unat rnd mod n + 1 < 2 ^ 31" using lt n(3) by (rule le_less_trans)
  then have "int (unat rnd mod n + 1) < 2 ^ 31" by (metis of_nat_less_iff of_nat_numeral of_nat_power)
  then have "signed_take_bit 31 (int (unat rnd mod n + 1)) = int (unat rnd mod n + 1)"
    by (intro signed_take_bit_int_eq_self) simp_all
  then have "sint ?u = int (unat rnd mod n + 1)" unfolding sint_uint ui by simp
  then show "sint (urandom_range rnd (word_of_int (tot - 1)) 0) = int (unat rnd mod nat (tot - 1)) + 1"
    unfolding n(1) n_def by simp
  show "int (unat rnd mod nat (tot - 1)) + 1 < tot"
    unfolding n_def [symmetric] using lt n(4) by linarith
qed

abbreviation "item_prio env q i \<equiv> fst (m_get_seq_item_priority env (sq_arb_q q ! i))"

lemma m_choose_eq:
  "m_choose_next_request env rnd q =
     (let q' = grant_queued_locks q; av = available env q'
      in if sq_arbitration q = SEQ_ARB_FIFO then (if av = [] then None else Some (hd av), q', [])
         else if av = [] then (None, q', [])
         else if length av = 1 then (Some (hd av), q', [])
         else (let (i, ms) = choose_among env (sq_arbitration q) rnd (item_prio env q')
                     (concat (map (\<lambda>i. snd (m_get_seq_item_priority env (sq_arb_q q' ! i))) av)) av
               in (i, q', ms)))"
  unfolding m_choose_next_request_def Let_def avail_loop_available still_free_available
  by (cases "available env (grant_queued_locks q)") simp_all

text \<open>Every strategy but the user's returns an available request when there are at least two.\<close>

lemma choose_among_ok:
  assumes "mode \<noteq> SEQ_ARB_USER" "mode \<noteq> SEQ_ARB_FIFO" "2 \<le> length av" "length av < 2 ^ 31"
    "\<forall>i \<in> set av. 0 < pri i" "sum_list (map pri av) < 2 ^ 31" "sorted av" "distinct av"
  shows "\<exists>i \<in> set av. fst (choose_among env mode rnd pri pms av) = Some i
    \<and> (mode \<in> {SEQ_ARB_STRICT_FIFO, SEQ_ARB_STRICT_RANDOM} \<longrightarrow> (\<forall>j \<in> set av. pri j \<le> pri i))
    \<and> (mode = SEQ_ARB_STRICT_FIFO \<longrightarrow> (\<forall>j \<in> set av. j < i \<longrightarrow> pri j < pri i))"
proof -
  have ne: "av \<noteq> []" using assms(3) by auto
  let ?hs = "highest_loop pri [] 0 av"
  have hs: "?hs = filter (\<lambda>i. pri i = Max (pri ` set av)) av" "?hs \<noteq> []"
    using highest_loop_max [OF assms(5) ne] by simp_all
  have top: "i \<in> set av \<and> (\<forall>j \<in> set av. pri j \<le> pri i)" if "i \<in> set ?hs" for i
    using that hs(1) by auto
  have idx: "unat (urandom_range rnd (of_nat (length xs) - 1) 0) < length xs" if "xs \<noteq> []" "length xs \<le> length av" for xs :: "nat list"
  proof -
    obtain k where k: "length xs = Suc k" using \<open>xs \<noteq> []\<close> by (cases xs) auto
    then have "unat (urandom_range rnd (of_nat (length xs) - 1) 0) = (if k = 0 then 0 else unat rnd mod k + 1)"
      using urandom_range_zero [of k rnd] that(2) assms(4) by simp
    moreover have "unat rnd mod k < k" if "k \<noteq> 0" using that by simp
    ultimately show ?thesis using k by (cases "k = 0") simp_all
  qed
  show ?thesis
  proof (cases mode)
    case SEQ_ARB_WEIGHTED
    have "int (length av) \<le> sum_list (map pri av)" using assms(5) by (induction av) fastforce+
    then have tot: "2 \<le> sum_list (map pri av)" using assms(3) by linarith
    let ?temp = "sint (urandom_range rnd (word_of_int (sum_list (map pri av) - 1)) 0)"
    have "0 \<le> ?temp - 0" "?temp < 0 + sum_list (map pri av)"
      using weighted_temp [OF tot assms(6), of rnd] by simp_all
    from weighted_loop_some [OF this] SEQ_ARB_WEIGHTED show ?thesis
      by (auto simp: choose_among_def Let_def)
  next
    case SEQ_ARB_RANDOM
    with idx [OF ne] show ?thesis by (auto simp: choose_among_def)
  next
    case SEQ_ARB_STRICT_FIFO
    have first: "?hs ! 0 \<in> set ?hs" using hs(2) by (intro nth_mem) simp
    have "sorted ?hs" using assms(7) by (simp add: hs(1) sorted_wrt_filter)
    then have "?hs ! 0 \<le> j" if "j \<in> set ?hs" for j
      using that by (cases ?hs) auto
    then have "pri j < pri (?hs ! 0)" if "j \<in> set av" "j < ?hs ! 0" for j
      using that top [OF first] hs(1) first by (force simp: order.strict_iff_order)
    with top [OF first] SEQ_ARB_STRICT_FIFO show ?thesis by (simp add: choose_among_def)
  next
    case SEQ_ARB_STRICT_RANDOM
    have "length ?hs \<le> length av" by (simp add: hs(1))
    from nth_mem [OF idx [OF hs(2) this]] SEQ_ARB_STRICT_RANDOM top show ?thesis
      by (simp add: choose_among_def Let_def)
  qed (use assms in simp_all)
qed

lemma sum_list_filter_le: "\<forall>x \<in> set xs. 0 \<le> f x \<Longrightarrow> sum_list (map f (filter P xs)) \<le> sum_list (map (f :: _ \<Rightarrow> int) xs)"
  by (induction xs) fastforce+

text \<open>The requests for an item; the others in the queue wait for a lock and have no priority of their own.\<close>

abbreviation "item_requests q \<equiv> filter (\<lambda>r. rq_kind r = SEQ_TYPE_REQ) (sq_arb_q q)"

lemma available_prios:
  "map (item_prio env q) (available env q)
    = map (\<lambda>r. fst (m_get_seq_item_priority env r)) (filter (eligible env q) (item_requests q))"
proof -
  have "filter (eligible env q) (item_requests q) = filter (eligible env q) (map ((!) (sq_arb_q q)) [0..<length (sq_arb_q q)])"
    unfolding map_nth filter_filter by (intro filter_cong) (auto simp: eligible_def)
  then show ?thesis by (simp add: available_def filter_map comp_def)
qed

lemma grants_item_requests:
  assumes "grants rs gs rest q q'"
  shows "filter (\<lambda>r. rq_kind r = SEQ_TYPE_REQ) rest = filter (\<lambda>r. rq_kind r = SEQ_TYPE_REQ) rs"
proof -
  let ?P = "\<lambda>r. rq_kind r = SEQ_TYPE_REQ"
  have "filter ?P gs = []" using assms by (auto simp: grants_def filter_empty_conv)
  moreover have "filter ?P rs \<in> shuffles (filter ?P gs) (filter ?P rest)"
    using assms filter_shuffles [of ?P gs rest] by (auto simp: grants_def)
  ultimately show ?thesis by simp
qed

text \<open>Granting locks leaves the requests for items alone, so the bounds on them hold for what is available.\<close>

lemma available_bounds:
  assumes "length (sq_arb_q q) < 2 ^ 31"
    and pos: "\<forall>r \<in> set (item_requests q). 0 < fst (m_get_seq_item_priority env r)"
    and "sum_list (map (\<lambda>r. fst (m_get_seq_item_priority env r)) (item_requests q)) < 2 ^ 31"
  shows "length (available env (grant_queued_locks q)) < 2 ^ 31"
    and "\<forall>i \<in> set (available env (grant_queued_locks q)). 0 < item_prio env (grant_queued_locks q) i"
    and "sum_list (map (item_prio env (grant_queued_locks q)) (available env (grant_queued_locks q))) < 2 ^ 31"
proof -
  define g where "g = grant_queued_locks q"
  let ?av = "available env g" and ?p = "\<lambda>r. fst (m_get_seq_item_priority env r)"
  have same: "item_requests g = item_requests q"
    using grant_queued_locks_grants [of q] grants_item_requests unfolding g_def by blast
  have prios: "map (item_prio env g) ?av = map ?p (filter (eligible env g) (item_requests q))"
    by (simp add: available_prios same)
  have "\<forall>x \<in> set (map (item_prio env g) ?av). 0 < x" using pos unfolding prios by auto
  then show "\<forall>i \<in> set (available env (grant_queued_locks q)). 0 < item_prio env (grant_queued_locks q) i"
    by (simp add: g_def)
  have "length (map (item_prio env g) ?av) \<le> length (sq_arb_q q)"
    unfolding prios length_map by (intro order.trans [OF length_filter_le] length_filter_le)
  then show "length (available env (grant_queued_locks q)) < 2 ^ 31" using assms(1) by (simp add: g_def)
  have "\<forall>r \<in> set (item_requests q). 0 \<le> ?p r" using pos by (auto intro: less_imp_le)
  from sum_list_filter_le [OF this, of "eligible env g"]
  have "sum_list (map (item_prio env g) ?av) < 2 ^ 31" unfolding prios using assms(3) by (rule le_less_trans)
  then show "sum_list (map (item_prio env (grant_queued_locks q)) (available env (grant_queued_locks q))) < 2 ^ 31"
    by (simp add: g_def)
qed

lemma eligible_available:
  "r \<in> set (sq_arb_q q) \<Longrightarrow> eligible env q r \<Longrightarrow> \<exists>j \<in> set (available env q). r = sq_arb_q q ! j"
  by (metis in_set_conv_nth set_available)

text \<open>C17. The arbitration is sound and complete. The conditions: the user's own arbitration is not
  set, fewer than \<open>2\<^sup>3\<^sup>1\<close> requests are queued, every queued request for an item has a positive priority
  and these priorities sum to less than \<open>2\<^sup>3\<^sup>1\<close> (the code adds them up in a C \<open>int\<close>). Lock requests may
  be queued too, with any priority. Then the sequencer finds no request only when no queued
  request is eligible (a request of a relevant sequence that no lock blocks, after the
  queued locks were granted); otherwise it returns an eligible one. The FIFO strategy returns
  the first; the strict strategies one of highest priority, \<open>SEQ_ARB_STRICT_FIFO\<close> the first of those.\<close>

theorem choose_next_correct:
  assumes "sq_arbitration q \<noteq> SEQ_ARB_USER" "length (sq_arb_q q) < 2 ^ 31"
    and "\<forall>r \<in> set (item_requests q). 0 < fst (m_get_seq_item_priority env r)"
    and "sum_list (map (\<lambda>r. fst (m_get_seq_item_priority env r)) (item_requests q)) < 2 ^ 31"
    and "m_choose_next_request env rnd q = (choice, q', ms)"
  shows "q' = grant_queued_locks q \<and>
    (case choice of
       None \<Rightarrow> \<forall>r \<in> set (sq_arb_q q'). \<not> eligible env q' r
     | Some i \<Rightarrow> i < length (sq_arb_q q') \<and> eligible env q' (sq_arb_q q' ! i)
         \<and> (sq_arbitration q = SEQ_ARB_FIFO \<longrightarrow> (\<forall>j < i. \<not> eligible env q' (sq_arb_q q' ! j)))
         \<and> (sq_arbitration q \<in> {SEQ_ARB_STRICT_FIFO, SEQ_ARB_STRICT_RANDOM} \<longrightarrow>
             (\<forall>r \<in> set (sq_arb_q q'). eligible env q' r \<longrightarrow>
               fst (m_get_seq_item_priority env r) \<le> item_prio env q' i))
         \<and> (sq_arbitration q = SEQ_ARB_STRICT_FIFO \<longrightarrow>
             (\<forall>j < i. eligible env q' (sq_arb_q q' ! j) \<longrightarrow> item_prio env q' j < item_prio env q' i)))"
proof -
  define g where "g = grant_queued_locks q"
  let ?av = "available env g"
  have q': "q' = g" using assms(5) by (auto simp: m_choose_eq Let_def g_def split: if_splits prod.splits)
  note bounds = available_bounds [OF assms(2-4), folded g_def]
  have choice: "choice = fst (m_choose_next_request env rnd q)" using assms(5) by simp
  show ?thesis
  proof (cases "?av = []")
    case True
    then have "choice = None" by (simp add: choice m_choose_eq Let_def g_def)
    with True q' show ?thesis by (simp add: available_Nil g_def)
  next
    case False
    then obtain i js where av: "?av = i # js" by (cases ?av) auto
    note first = available_Cons [OF av]
    have only: "r = sq_arb_q g ! i" if "js = []" "r \<in> set (sq_arb_q g)" "eligible env g r" for r
      using eligible_available [OF that(2,3)] that(1) av by simp
    consider "sq_arbitration q = SEQ_ARB_FIFO" | "js = []" "sq_arbitration q \<noteq> SEQ_ARB_FIFO"
      | "js \<noteq> []" "sq_arbitration q \<noteq> SEQ_ARB_FIFO" by blast
    then show ?thesis
    proof cases
      case 1
      then have "choice = Some i" using av by (simp add: choice m_choose_eq Let_def g_def)
      with 1 first q' show ?thesis by (simp add: g_def)
    next
      case 2
      then have "choice = Some i" using av by (simp add: choice m_choose_eq Let_def g_def)
      with 2 first q' only show ?thesis by (auto simp: g_def)
    next
      case 3
      then have "choice = fst (choose_among env (sq_arbitration q) rnd (item_prio env g)
          (concat (map (\<lambda>i. snd (m_get_seq_item_priority env (sq_arb_q g ! i))) ?av)) ?av)"
        using av by (simp add: choice m_choose_eq Let_def g_def split: prod.splits)
      moreover have "2 \<le> length ?av" using 3 av by (cases js) auto
      ultimately obtain k where k: "k \<in> set ?av" "choice = Some k"
          "sq_arbitration q \<in> {SEQ_ARB_STRICT_FIFO, SEQ_ARB_STRICT_RANDOM} \<Longrightarrow> \<forall>j \<in> set ?av. item_prio env g j \<le> item_prio env g k"
          "sq_arbitration q = SEQ_ARB_STRICT_FIFO \<Longrightarrow> \<forall>j \<in> set ?av. j < k \<longrightarrow> item_prio env g j < item_prio env g k"
        using choose_among_ok [OF assms(1) 3(2) _ bounds available_sorted] by metis
      have "j \<in> set ?av" if "j < k" "eligible env g (sq_arb_q g ! j)" for j
        using that k(1) by (simp add: set_available)
      with k 3 q' show ?thesis unfolding q' g_def [symmetric] k(2) option.case
        using eligible_available [of _ g env] by (fastforce simp: set_available)
    qed
  qed
qed

definition sample_seq_env :: seq_env where
  "sample_seq_env = \<lparr>se_relevant = \<lambda>_. True, se_priority = \<lambda>_. 100, se_finished = \<lambda>_. False, se_user = \<lambda>_. 0\<rparr>"

definition sample_queue :: sequencer where
  "sample_queue = set_arbitration SEQ_ARB_STRICT_FIFO
     (snd (wait_for_grant [3] 7 (snd (wait_for_grant [2] 7 (snd (wait_for_grant [1] 5 new_sequencer))))))"

text \<open>Sequence 1 holds the lock, sequence 2 waits for it with a \<open>grab\<close> in front of three requests.\<close>

definition sample_locked_queue :: sequencer where
  "sample_locked_queue =
     (let q = snd (m_lock_req [1] True (set_arbitration SEQ_ARB_STRICT_FIFO new_sequencer));
          q = snd (wait_for_grant [3, 1] 7 (snd (wait_for_grant [3, 1] 7 (snd (wait_for_grant [1] 5 q)))))
      in snd (m_lock_req [2] False q))"

theorem choose_next_correct_witness:
  "map rq_kind (sq_arb_q sample_locked_queue) = [SEQ_TYPE_LOCK, SEQ_TYPE_REQ, SEQ_TYPE_REQ, SEQ_TYPE_REQ]
   \<and> (\<exists>q' ms. m_choose_next_request sample_seq_env 0 sample_locked_queue = (Some 2, q', ms)
     \<and> (\<forall>j < 2. eligible sample_seq_env q' (sq_arb_q q' ! j) \<longrightarrow> item_prio sample_seq_env q' j < item_prio sample_seq_env q' 2))"
proof -
  let ?q = sample_locked_queue
  obtain c q' ms where c: "m_choose_next_request sample_seq_env 0 ?q = (c, q', ms)"
    by (cases "m_choose_next_request sample_seq_env 0 ?q") auto
  have "fst (m_choose_next_request sample_seq_env 0 ?q) = Some 2" by code_simp
  with c have 2: "c = Some 2" by simp
  have m: "sq_arbitration ?q = SEQ_ARB_STRICT_FIFO" by code_simp
  have kinds: "map rq_kind (sq_arb_q ?q) = [SEQ_TYPE_LOCK, SEQ_TYPE_REQ, SEQ_TYPE_REQ, SEQ_TYPE_REQ]" by code_simp
  have "length (sq_arb_q ?q) = 4" by code_simp
  then have "length (sq_arb_q ?q) < 2 ^ 31" by simp
  moreover have "\<forall>r \<in> set (item_requests ?q). 0 < fst (m_get_seq_item_priority sample_seq_env r)"
    "sum_list (map (\<lambda>r. fst (m_get_seq_item_priority sample_seq_env r)) (item_requests ?q)) < 2 ^ 31"
    by code_simp+
  ultimately have "\<forall>j < 2. eligible sample_seq_env q' (sq_arb_q q' ! j) \<longrightarrow> item_prio sample_seq_env q' j < item_prio sample_seq_env q' 2"
    using conjunct2 [OF choose_next_correct [OF _ _ _ _ c]] m unfolding 2 by (simp del: set_filter)
  with kinds c show ?thesis unfolding 2 by blast
qed

lemma available_strict: "sorted_wrt (<) (available env q)"
  by (simp add: available_def sorted_wrt_filter)

lemma later_not_first:
  assumes "available env q = xs @ i # ys" "xs \<noteq> []"
  shows "\<exists>j < i. eligible env q (sq_arb_q q ! j)"
proof -
  have "hd xs < i" "hd xs \<in> set (available env q)"
    using assms available_strict [of env q] by (auto simp: sorted_wrt_append)
  then show ?thesis by (auto simp: set_available)
qed

text \<open>The random strategies are not fair: \<open>urandom_range\<close> never returns its lower bound. With at
  least two available requests, \<open>SEQ_ARB_RANDOM\<close> never grants the one that has waited longest,
  and \<open>SEQ_ARB_WEIGHTED\<close> never grants it when its priority is 1, whatever \<open>rand()\<close> returns.\<close>

theorem random_never_first:
  assumes "2 \<le> length (available env (grant_queued_locks q))"
    and "length (available env (grant_queued_locks q)) < 2 ^ 32"
    and "m_choose_next_request env rnd q = (Some i, q', ms)"
    and "sq_arbitration q = SEQ_ARB_RANDOM \<or>
      sq_arbitration q = SEQ_ARB_WEIGHTED \<and> (\<forall>r \<in> set (sq_arb_q q'). 0 < fst (m_get_seq_item_priority env r))
        \<and> sum_list (map (item_prio env q') (available env q')) < 2 ^ 31
        \<and> item_prio env q' (hd (available env q')) = 1"
  shows "\<exists>j < i. eligible env q' (sq_arb_q q' ! j)"
proof -
  have q': "q' = grant_queued_locks q" using assms(3) by (auto simp: m_choose_eq Let_def split: if_splits prod.splits)
  let ?av = "available env q'"
  have two: "2 \<le> length ?av" and len: "length ?av < 2 ^ 32" using assms(1,2) q' by simp_all
  then have "?av \<noteq> []" "length ?av \<noteq> 1" by auto
  then have i: "fst (choose_among env (sq_arbitration q) rnd (item_prio env q')
        (concat (map (\<lambda>i. snd (m_get_seq_item_priority env (sq_arb_q q' ! i))) ?av)) ?av) = Some i"
    using assms(3,4) by (auto simp: m_choose_eq Let_def q' split: prod.splits)
  show ?thesis
  proof (cases "sq_arbitration q = SEQ_ARB_RANDOM")
    case True
    obtain k where k: "length ?av = Suc k" "k \<noteq> 0" using two by (cases "length ?av") auto
    have "unat rnd mod k + 1 \<le> k" using k(2) by (simp add: Suc_leI)
    moreover have "unat (urandom_range rnd (of_nat (length ?av) - 1) 0) = unat rnd mod k + 1"
      using urandom_range_zero [of k rnd] k len by simp
    ultimately have "i = ?av ! (unat rnd mod k + 1)" "unat rnd mod k + 1 < length ?av"
      using i True k by (simp_all add: choose_among_def)
    then have "?av = take (unat rnd mod k + 1) ?av @ i # drop (Suc (unat rnd mod k + 1)) ?av"
      by (simp add: id_take_nth_drop)
    from later_not_first [OF this] \<open>?av \<noteq> []\<close> show ?thesis by simp
  next
    case False
    with assms(4) have w: "sq_arbitration q = SEQ_ARB_WEIGHTED" and pos: "\<forall>i \<in> set ?av. 0 < item_prio env q' i"
      and sum: "sum_list (map (item_prio env q') ?av) < 2 ^ 31" and one: "item_prio env q' (hd ?av) = 1"
      by (auto simp: set_available)
    have "int (length xs) \<le> sum_list (map f xs)" if "\<forall>i \<in> set xs. 0 < f i" for f :: "nat \<Rightarrow> int" and xs
      using that by (induction xs) fastforce+
    from this [OF pos] two have tot: "2 \<le> sum_list (map (item_prio env q') ?av)" by linarith
    let ?temp = "sint (urandom_range rnd (word_of_int (sum_list (map (item_prio env q') ?av) - 1)) 0)"
    have t: "1 \<le> ?temp" "?temp < sum_list (map (item_prio env q') ?av)"
      using weighted_temp [OF tot sum, of rnd] by simp_all
    then obtain xs k ys where k: "?av = xs @ k # ys" "weighted_loop (item_prio env q') ?temp 0 ?av = Some k"
        "?temp < 0 + sum_list (map (item_prio env q') xs) + item_prio env q' k"
      using weighted_loop_some [of ?temp 0 "item_prio env q'" ?av] by auto
    have "i = k" using i w k(2) by (simp add: choose_among_def Let_def)
    moreover have "xs \<noteq> []" using k t(1) one by auto
    ultimately show ?thesis using later_not_first [OF k(1)] by simp
  qed
qed

theorem random_never_first_witness:
  "\<exists>q' ms. m_choose_next_request sample_seq_env 5 (set_arbitration SEQ_ARB_RANDOM sample_queue) = (Some 2, q', ms)
     \<and> (\<exists>j < 2. eligible sample_seq_env q' (sq_arb_q q' ! j))"
proof -
  let ?q = "set_arbitration SEQ_ARB_RANDOM sample_queue"
  obtain c q' ms where c: "m_choose_next_request sample_seq_env 5 ?q = (c, q', ms)"
    by (cases "m_choose_next_request sample_seq_env 5 ?q") auto
  have "fst (m_choose_next_request sample_seq_env 5 ?q) = Some 2" by code_simp
  with c have c2: "m_choose_next_request sample_seq_env 5 ?q = (Some 2, q', ms)" by simp
  have "length (available sample_seq_env (grant_queued_locks ?q)) = 3" by code_simp
  then have "2 \<le> length (available sample_seq_env (grant_queued_locks ?q))"
    "length (available sample_seq_env (grant_queued_locks ?q)) < 2 ^ 32" by simp_all
  from random_never_first [OF this c2] show ?thesis using c2 by (simp add: set_arbitration_def)
qed

section \<open>Every run of the sequencer\<close>

datatype seq_op =
    QStart seqn | QRequest seqn int | QLock seqn | QGrab seqn | QUnlock seqn | QHasLock seqn
  | QSelect seq_env uint | QWaitDone int | QExit seq_env seqn | QArbitration seq_arb_mode

fun seq_step :: "seq_op \<Rightarrow> sequencer \<Rightarrow> sequencer" where
  "seq_step (QStart s) q = start_register s q"
| "seq_step (QRequest s p) q = snd (wait_for_grant s p q)"
| "seq_step (QLock s) q = snd (m_lock_req s True q)"
| "seq_step (QGrab s) q = snd (m_lock_req s False q)"
| "seq_step (QUnlock s) q = fst (m_unlock_req s q)"
| "seq_step (QHasLock s) q = snd (has_lock s q)"
| "seq_step (QSelect env rnd) q = (case m_select_sequence env rnd q of None \<Rightarrow> q | Some (r, q', ms) \<Rightarrow> q')"
| "seq_step (QWaitDone i) q = (case m_wait_for_arbitration_completed i q of None \<Rightarrow> q | Some q' \<Rightarrow> q')"
| "seq_step (QExit env s) q = fst (m_sequence_exiting env s q)"
| "seq_step (QArbitration m) q = set_arbitration m q"

text \<open>
  \<open>T\<close> is the set of the sequences: instance ids determine a sequence and its ancestors. A sequence
  is started when it is not registered and has no request queued (a sequence that ended was
  removed), and the arbitration function of the user returns a position in the queue.
\<close>

definition seq_family :: "seqn set \<Rightarrow> bool" where
  "seq_family T \<longleftrightarrow> [] \<notin> T \<and> (\<forall>l \<in> T. \<forall>s \<in> T. within l s \<longrightarrow> (\<exists>xs. s = xs @ l))"

fun seq_ok :: "seqn set \<Rightarrow> seq_op \<Rightarrow> sequencer \<Rightarrow> bool" where
  "seq_ok T (QStart s) q = (s \<in> T \<and> s \<notin> snd ` set (sq_reg q) \<and> s \<notin> rq_seq ` set (sq_arb_q q))"
| "seq_ok T (QRequest s p) q = (s \<in> T)"
| "seq_ok T (QLock s) q = (s \<in> T)"
| "seq_ok T (QGrab s) q = (s \<in> T)"
| "seq_ok T (QSelect env rnd) q =
     (case m_choose_next_request env rnd q of (None, _) \<Rightarrow> True | (Some i, q', _) \<Rightarrow> i < length (sq_arb_q q'))"
| "seq_ok T (QUnlock s) q = True"
| "seq_ok T (QHasLock s) q = True"
| "seq_ok T (QWaitDone i) q = True"
| "seq_ok T (QExit env s) q = True"
| "seq_ok T (QArbitration m) q = True"

definition members :: "seqn set \<Rightarrow> sequencer \<Rightarrow> bool" where
  "members T q \<longleftrightarrow> rq_seq ` set (sq_arb_q q) \<subseteq> T \<and> set (sq_lock_list q) \<subseteq> T"

definition seq_inv :: "seqn set \<Rightarrow> sequencer \<Rightarrow> bool" where
  "seq_inv T q \<longleftrightarrow> seq_family T \<and> sqr_inv q \<and> members T q"

text \<open>What the parts of the invariant read.\<close>

lemma sqr_inv_cong:
  assumes "sq_arb_q q' = sq_arb_q q" "sq_lock_list q' = sq_lock_list q" "sq_completed q' = sq_completed q"
    "sq_next_request q' = sq_next_request q" "sq_sqr_ids q' = sq_sqr_ids q" "sq_reg q' = sq_reg q"
    "sq_next_sequence q' = sq_next_sequence q"
  shows "seq_inv T q' = seq_inv T q"
  using assms by (simp add: seq_inv_def sqr_inv_def locks_ok_def locks_chain_def queue_ok_def ids_ok_def members_def)

lemma seq_inv_update [simp]:
  "seq_inv T (m_update_lists q) = seq_inv T q"
  "seq_inv T (q\<lparr>sq_arb_size := k\<rparr>) = seq_inv T q"
  "seq_inv T (q\<lparr>sq_lock_arb_size := k\<rparr>) = seq_inv T q"
  "seq_inv T (q\<lparr>sq_seq_id := f\<rparr>) = seq_inv T q"
  "seq_inv T (set_arbitration m q) = seq_inv T q"
  by (rule sqr_inv_cong; simp add: m_update_lists_def set_arbitration_def)+

lemma inv_register: "seq_inv T q \<Longrightarrow> seq_inv T (snd (m_register_sequence s q))"
  by (simp add: seq_inv_def register_inv members_def)

lemma inv_grant:
  assumes "seq_inv T q"
  shows "seq_inv T (grant_queued_locks q)"
proof -
  obtain gs where "grants (sq_arb_q q) gs (sq_arb_q (grant_queued_locks q)) q (grant_queued_locks q)"
    using grant_queued_locks_grants by blast
  then have "set (sq_arb_q q) = set gs \<union> set (sq_arb_q (grant_queued_locks q))"
      "sq_lock_list (grant_queued_locks q) = sq_lock_list q @ map rq_seq gs"
    by (auto simp: grants_def dest: set_shuffles)
  with assms show ?thesis by (auto simp: seq_inv_def members_def grant_inv)
qed

text \<open>Queueing a request of a registered sequence, taking requests and locks out.\<close>

lemma inv_enqueue:
  assumes "seq_inv T q" "rq_seq r \<in> T" "sq_sqr_ids q (rq_seq r) = Some (rq_sequence_id r)"
    "rq_request_id r = sq_next_request q"
  shows "seq_inv T (q\<lparr>sq_next_request := sq_next_request q + 1, sq_arb_q := sq_arb_q q @ [r]\<rparr>)"
    and "seq_inv T (q\<lparr>sq_next_request := sq_next_request q + 1, sq_arb_q := r # sq_arb_q q\<rparr>)"
proof -
  have r: "rq_seq r \<noteq> []" using assms(1,2) by (auto simp: seq_inv_def seq_family_def)
  have q: "\<forall>x \<in> set (sq_arb_q q). rq_request_id x < sq_next_request q" "\<forall>i \<in> sq_completed q. i < sq_next_request q"
      "distinct (map rq_request_id (sq_arb_q q))"
    using assms(1) by (auto simp: seq_inv_def sqr_inv_def queue_ok_def)
  have n: "sq_next_request q \<notin> rq_request_id ` set (sq_arb_q q)" "sq_next_request q \<notin> sq_completed q" using q by auto
  have "queue_ok (q\<lparr>sq_next_request := sq_next_request q + 1, sq_arb_q := sq_arb_q q @ [r]\<rparr>)
      \<and> queue_ok (q\<lparr>sq_next_request := sq_next_request q + 1, sq_arb_q := r # sq_arb_q q\<rparr>)"
    using assms r q n by (auto simp: queue_ok_def seq_inv_def sqr_inv_def intro: less_le_trans)
  then show "seq_inv T (q\<lparr>sq_next_request := sq_next_request q + 1, sq_arb_q := sq_arb_q q @ [r]\<rparr>)"
    "seq_inv T (q\<lparr>sq_next_request := sq_next_request q + 1, sq_arb_q := r # sq_arb_q q\<rparr>)"
    using assms by (auto simp: seq_inv_def sqr_inv_def locks_ok_def locks_chain_def ids_ok_def members_def)
qed

lemma inv_lock_list:
  assumes "seq_inv T q" "sq_lock_list q = xs @ ys @ zs"
  shows "seq_inv T (q\<lparr>sq_lock_list := xs @ zs\<rparr>)"
  using assms
  by (auto simp: seq_inv_def sqr_inv_def locks_ok_def locks_chain_def queue_ok_def ids_ok_def members_def sorted_wrt_append)

lemma shuffles_single: "xs @ r # ys \<in> shuffles [r] (xs @ ys)"
  by (induction xs) (auto intro: Cons_in_shuffles_leftI Cons_in_shuffles_rightI)

lemma inv_complete:
  assumes "seq_inv T q" "i < length (sq_arb_q q)"
  shows "seq_inv T (q\<lparr>sq_arb_q := take i (sq_arb_q q) @ drop (Suc i) (sq_arb_q q),
                      sq_completed := insert (rq_request_id (sq_arb_q q ! i)) (sq_completed q)\<rparr>)"
proof -
  let ?r = "sq_arb_q q ! i" and ?rest = "take i (sq_arb_q q) @ drop (Suc i) (sq_arb_q q)"
  have a: "sq_arb_q q = take i (sq_arb_q q) @ ?r # drop (Suc i) (sq_arb_q q)" using assms(2) by (rule id_take_nth_drop)
  have "sq_arb_q q \<in> shuffles [?r] ?rest" by (subst a) (rule shuffles_single)
  from queue_ok_split [OF _ this, of "q\<lparr>sq_arb_q := ?rest, sq_completed := insert (rq_request_id ?r) (sq_completed q)\<rparr>"]
  have "queue_ok (q\<lparr>sq_arb_q := ?rest, sq_completed := insert (rq_request_id ?r) (sq_completed q)\<rparr>)"
    using assms(1) by (simp add: seq_inv_def sqr_inv_def)
  moreover have "set ?rest \<subseteq> set (sq_arb_q q)" by (subst a) auto
  then have "rq_seq ` set ?rest \<subseteq> T" using assms(1) by (fastforce simp: seq_inv_def members_def)
  ultimately show ?thesis
    using assms(1) by (simp add: seq_inv_def sqr_inv_def locks_ok_def locks_chain_def ids_ok_def members_def)
qed

lemma inv_filter:
  assumes "seq_inv T q"
  shows "seq_inv T (q\<lparr>sq_arb_q := filter P (sq_arb_q q), sq_lock_list := filter Q (sq_lock_list q),
                      sq_reg := filter R (sq_reg q)\<rparr>)"
  using assms
  by (auto simp: seq_inv_def sqr_inv_def locks_ok_def locks_chain_def queue_ok_def ids_ok_def members_def
      sorted_wrt_filter distinct_map_filter)

lemma inv_uncomplete:
  "seq_inv T q \<Longrightarrow> seq_inv T (q\<lparr>sq_completed := sq_completed q - {i}\<rparr>)"
  by (auto simp: seq_inv_def sqr_inv_def locks_ok_def locks_chain_def queue_ok_def ids_ok_def members_def)

text \<open>What the end of a sequence does to the sequencer.\<close>

lemma exit_state:
  "fst (m_sequence_exiting env s q) = q\<lparr>sq_arb_q := filter (\<lambda>r. \<not> (rq_sequence_id r = fst (m_get_sqr_sequence_id s False q)
        \<or> is_child s (rq_seq r))) (sq_arb_q q),
      sq_lock_list := filter (\<lambda>l. \<not> (hd l = hd s \<or> is_child s l)) (sq_lock_list q),
      sq_reg := filter (\<lambda>(j, _). j \<noteq> fst (m_get_sqr_sequence_id s False q)) (sq_reg q),
      sq_seq_id := (sq_seq_id q)(s := fst (m_get_sqr_sequence_id s False q)),
      sq_lock_arb_size := sq_lock_arb_size q + int (length (filter (\<lambda>r. rq_sequence_id r = fst (m_get_sqr_sequence_id s False q)
        \<or> is_child s (rq_seq r)) (sq_arb_q q)) + length (filter (\<lambda>l. hd l = hd s \<or> is_child s l) (sq_lock_list q)))\<rparr>"
  by (simp add: m_sequence_exiting_def remove_sequence_from_queues_def m_get_sqr_sequence_id_def Let_def
      m_unregister_sequence_def)

lemma inv_exit: "seq_inv T q \<Longrightarrow> seq_inv T (fst (m_sequence_exiting env s q))"
  unfolding exit_state by (rule sqr_inv_cong [THEN iffD2, OF _ _ _ _ _ _ _ inv_filter]) simp_all

lemma inv_start_seq:
  assumes "seq_inv T q" "s \<notin> snd ` set (sq_reg q)" "s \<notin> rq_seq ` set (sq_arb_q q)"
  shows "seq_inv T (start_register s q)"
proof -
  let ?q = "q\<lparr>sq_seq_id := (sq_seq_id q)(s := - 1), sq_sqr_ids := (sq_sqr_ids q)(s := None)\<rparr>"
  have "queue_ok ?q" using assms(1,3) by (auto simp: seq_inv_def sqr_inv_def queue_ok_def)
  moreover have "ids_ok ?q" using assms(1,2)
    by (auto simp: seq_inv_def sqr_inv_def ids_ok_def image_iff split: if_splits)
  ultimately have "seq_inv T ?q" using assms(1)
    by (simp add: seq_inv_def sqr_inv_def locks_ok_def locks_chain_def members_def)
  then show ?thesis unfolding start_register_def by (rule inv_register)
qed

lemma inv_request:
  assumes "seq_inv T q" "s \<in> T"
  shows "seq_inv T (snd (wait_for_grant s p q))"
proof -
  let ?q = "snd (m_register_sequence s q)"
  have "ids_ok q" using assms(1) by (simp add: seq_inv_def sqr_inv_def)
  with inv_enqueue(1) [OF inv_register [OF assms(1), of s],
      of "\<lparr>rq_sequence_id = fst (m_register_sequence s q), rq_request_id = sq_next_request q, rq_priority = p,
           rq_kind = SEQ_TYPE_REQ, rq_seq = s\<rparr>"] assms(2) register_ids(2) [of q s]
  show ?thesis by (simp add: wait_for_grant_def Let_def split_beta)
qed

lemma inv_lock_req:
  assumes "seq_inv T q" "s \<in> T"
  shows "seq_inv T (snd (m_lock_req s lock q))"
proof -
  let ?q = "snd (m_register_sequence s q)"
  have ids: "ids_ok q" using assms(1) by (simp add: seq_inv_def sqr_inv_def)
  let ?r = "\<lparr>rq_sequence_id = sq_seq_id ?q s, rq_request_id = sq_next_request q, rq_priority = 0,
           rq_kind = SEQ_TYPE_LOCK, rq_seq = s\<rparr>"
  have "sq_sqr_ids ?q (rq_seq ?r) = Some (rq_sequence_id ?r)"
    using register_ids(2,3) [OF ids, of s] by simp
  with inv_enqueue [OF inv_register [OF assms(1), of s], of ?r] assms(2)
  have "seq_inv T (if lock then ?q\<lparr>sq_next_request := sq_next_request ?q + 1, sq_arb_q := sq_arb_q ?q @ [?r]\<rparr>
      else m_update_lists (?q\<lparr>sq_next_request := sq_next_request ?q + 1, sq_arb_q := ?r # sq_arb_q ?q\<rparr>))" by simp
  from inv_grant [OF this] show ?thesis by (cases lock) (simp_all add: m_lock_req_def Let_def)
qed

lemma remove_lock_split: "remove_lock s ls = Some ls' \<Longrightarrow> \<exists>xs l zs. ls = xs @ [l] @ zs \<and> ls' = xs @ zs \<and> hd l = hd s"
proof (induction ls arbitrary: ls')
  case (Cons l ls)
  show ?case
  proof (cases "hd l = hd s")
    case True
    with Cons.prems show ?thesis by (intro exI [of _ "[]"] exI [of _ l] exI [of _ ls]) auto
  next
    case False
    with Cons.prems obtain ks where "remove_lock s ls = Some ks" "ls' = l # ks" by auto
    with Cons.IH obtain xs m zs where "ls = xs @ [m] @ zs" "ks = xs @ zs" "hd m = hd s" by blast
    then show ?thesis using \<open>ls' = l # ks\<close> by (intro exI [of _ "l # xs"]) auto
  qed
qed simp

lemma inv_unlock: "seq_inv T q \<Longrightarrow> seq_inv T (fst (m_unlock_req s q))"
proof -
  assume "seq_inv T q"
  then have inv: "seq_inv T (snd (m_register_sequence s q))" by (rule inv_register)
  show ?thesis
  proof (cases "remove_lock s (sq_lock_list q)")
    case None
    with inv show ?thesis by (simp add: m_unlock_req_def Let_def)
  next
    case (Some ls)
    then obtain xs l zs where "sq_lock_list q = xs @ [l] @ zs" "ls = xs @ zs" using remove_lock_split by blast
    with inv_lock_list [OF inv, of xs "[l]" zs] Some show ?thesis by (simp add: m_unlock_req_def Let_def)
  qed
qed

lemma m_choose_state: "fst (snd (m_choose_next_request env rnd q)) = grant_queued_locks q"
  by (simp add: m_choose_eq Let_def split: prod.splits)

lemma inv_select:
  assumes "seq_inv T q" "seq_ok T (QSelect env rnd) q"
  shows "seq_inv T (seq_step (QSelect env rnd) q)"
proof -
  obtain c q' ms where c: "m_choose_next_request env rnd q = (c, q', ms)"
    by (cases "m_choose_next_request env rnd q") auto
  then have inv: "seq_inv T q'" using inv_grant [OF assms(1)] m_choose_state [of env rnd q] by simp
  show ?thesis
  proof (cases c)
    case None
    then show ?thesis using inv assms(1) c
      by (simp add: m_select_sequence_def m_wait_for_available_sequence_def Let_def)
  next
    case (Some i)
    then have "i < length (sq_arb_q q')" using assms(2) c by simp
    from inv_complete [OF inv this]
    have "seq_inv T (q'\<lparr>sq_completed := insert (rq_request_id (sq_arb_q q' ! i)) (sq_completed q'),
        sq_arb_q := take i (sq_arb_q q') @ drop (Suc i) (sq_arb_q q')\<rparr>)"
      by (rule sqr_inv_cong [THEN iffD2, rotated -1]) simp_all
    then show ?thesis using Some c
      by (simp add: m_select_sequence_def m_set_arbitration_completed_def Let_def)
  qed
qed

lemma seq_step_inv: "seq_inv T q \<Longrightarrow> seq_ok T e q \<Longrightarrow> seq_inv T (seq_step e q)"
proof (cases e)
  case (QSelect env rnd)
  assume "seq_inv T q" "seq_ok T e q"
  then show ?thesis unfolding QSelect by (rule inv_select)
next
  case (QWaitDone i)
  assume "seq_inv T q"
  then show ?thesis using QWaitDone inv_uncomplete [of T q i] by (simp add: m_wait_for_arbitration_completed_def)
next
  case (QHasLock s)
  assume "seq_inv T q"
  then show ?thesis using QHasLock inv_register [of T q s] by (simp add: has_lock_def Let_def)
qed (use inv_start_seq inv_request inv_lock_req inv_unlock inv_exit in \<open>simp_all\<close>)

interpretation sqr_machine: guarded_machine seq_step "seq_ok T" "seq_inv T"
  by unfold_locales (rule seq_step_inv)

lemma chain_last:
  assumes "seq_inv T q" "sq_lock_list q \<noteq> []" "s \<in> T"
  shows "is_blocked q s \<longleftrightarrow> \<not> within (last (sq_lock_list q)) s"
proof -
  let ?g = "last (sq_lock_list q)"
  have s: "s \<noteq> []" using assms(1,3) by (auto simp: seq_inv_def seq_family_def)
  have T: "l \<in> T" if "l \<in> set (sq_lock_list q)" for l using that assms(1) by (auto simp: seq_inv_def members_def)
  have fam: "within l t \<Longrightarrow> l \<in> T \<Longrightarrow> t \<in> T \<Longrightarrow> \<exists>xs. t = xs @ l" for l t
    using assms(1) by (auto simp: seq_inv_def seq_family_def)
  have g: "?g \<in> set (sq_lock_list q)" using assms(2) by simp
  have ne: "l \<noteq> []" if "l \<in> T" for l using that assms(1) by (auto simp: seq_inv_def seq_family_def)
  have up: "within l s" if "l \<in> set (sq_lock_list q)" "within ?g s" for l
  proof -
    obtain xs where xs: "sq_lock_list q = xs @ [?g]" using assms(2) by (metis append_butlast_last_id)
    have "sorted_wrt within (xs @ [?g])" unfolding xs [symmetric]
      using assms(1) by (simp add: seq_inv_def sqr_inv_def locks_ok_def locks_chain_def)
    moreover have "l \<in> set (xs @ [?g])" unfolding xs [symmetric] by (rule that(1))
    ultimately have "l = ?g \<or> within l ?g" by (auto simp: sorted_wrt_append)
    moreover from fam [OF that(2) T [OF g] assms(3)] obtain ys where "s = ys @ ?g" by blast
    ultimately show ?thesis using ne [OF T [OF that(1)]] by (auto simp: within_def)
  qed
  show ?thesis using up g by (auto simp: is_blocked_iff [OF s])
qed

text \<open>C15. Locks nest. In every run of the sequencer (starts, requests, locks, grabs, unlocks, grants and
  ends in any order) the locks held form a chain from ancestors to descendants, so the current
  grabber alone decides: a sequence is blocked exactly when it is neither the current grabber
  nor one of its descendants. Request ids are unique in the queue, and no queued request is
  already granted.\<close>

theorem locks_nest:
  assumes "seq_family T"
    and "\<forall>k < length es. seq_ok T (es ! k) (fold seq_step (take k es) new_sequencer)"
    and "q = fold seq_step es new_sequencer"
  shows "sorted_wrt within (sq_lock_list q)
    \<and> (\<forall>s \<in> T. is_blocked q s \<longleftrightarrow> (case current_grabber q of None \<Rightarrow> False | Some g \<Rightarrow> \<not> within g s))
    \<and> distinct (map rq_request_id (sq_arb_q q))
    \<and> (\<forall>r \<in> set (sq_arb_q q). rq_request_id r \<notin> sq_completed q)"
proof -
  have "seq_inv T new_sequencer" using assms(1) sqr_inv_new by (simp add: seq_inv_def members_def new_sequencer_def)
  then have inv: "seq_inv T q"
    unfolding assms(3) using sqr_machine.run_inv_nth [of T new_sequencer es] assms(2) by blast
  then have "sorted_wrt within (sq_lock_list q)" "distinct (map rq_request_id (sq_arb_q q))"
      "\<forall>r \<in> set (sq_arb_q q). rq_request_id r \<notin> sq_completed q"
    by (auto simp: seq_inv_def sqr_inv_def locks_ok_def locks_chain_def queue_ok_def)
  moreover have "is_blocked q s \<longleftrightarrow> (case current_grabber q of None \<Rightarrow> False | Some g \<Rightarrow> \<not> within g s)" if "s \<in> T" for s
    using chain_last [OF inv _ that] by (auto simp: current_grabber_def is_blocked_def)
  ultimately show ?thesis by blast
qed

definition sample_family :: "seqn set" where
  "sample_family = {[1], [2], [3, 1], [4, 3, 1]}"

definition sample_seq_run :: "seq_op list" where
  "sample_seq_run = [QStart [1], QStart [2], QLock [1], QRequest [2] 100, QLock [2], QStart [3, 1], QGrab [3, 1],
     QArbitration SEQ_ARB_RANDOM, QRequest [3, 1] 100, QSelect sample_seq_env 3]"

theorem locks_nest_witness:
  "let q = fold seq_step sample_seq_run new_sequencer
   in sq_lock_list q = [[1], [3, 1]] \<and> sorted_wrt within (sq_lock_list q) \<and> is_blocked q [2] \<and> \<not> is_blocked q [4, 3, 1]"
proof -
  let ?q = "fold seq_step sample_seq_run new_sequencer"
  have fam: "seq_family sample_family" by (auto simp: seq_family_def sample_family_def within_def)
  have ok: "\<forall>k < length sample_seq_run. seq_ok sample_family (sample_seq_run ! k) (fold seq_step (take k sample_seq_run) new_sequencer)"
    by code_simp
  have "sq_lock_list ?q = [[1], [3, 1]]" by code_simp
  then have "current_grabber ?q = Some [3, 1]" by (simp add: current_grabber_def)
  with locks_nest [OF fam ok refl] \<open>sq_lock_list ?q = [[1], [3, 1]]\<close> show ?thesis
    by (auto simp: sample_family_def within_def Let_def)
qed

lemma grant_loop_first:
  assumes "sq_lock_list q = []" "find (\<lambda>r. rq_kind r = SEQ_TYPE_LOCK) rs = Some r"
  shows "\<exists>ls. sq_lock_list (grant_loop seen rs q) = rq_seq r # ls \<and> rq_request_id r \<in> sq_completed (grant_loop seen rs q)"
  using assms
proof (induction rs arbitrary: seen)
  case (Cons x rs)
  show ?case
  proof (cases "rq_kind x = SEQ_TYPE_LOCK")
    case True
    let ?q = "m_update_lists (m_set_arbitration_completed (rq_request_id x) (q\<lparr>sq_lock_list := sq_lock_list q @ [rq_seq x]\<rparr>))"
    obtain gs rest where "grants rs gs rest ?q (grant_loop seen rs ?q)" using grant_loop_grants by blast
    then have "sq_lock_list (grant_loop seen rs ?q) = rq_seq x # map rq_seq gs"
        "rq_request_id x \<in> sq_completed (grant_loop seen rs ?q)"
      using Cons.prems by (simp_all add: grants_def m_update_lists_def m_set_arbitration_completed_def)
    with True Cons.prems show ?thesis by (simp add: is_blocked_def)
  next
    case False
    with Cons.IH [of "x # seen"] Cons.prems show ?thesis by simp
  qed
qed simp

text \<open>C40. Locks are handed over. A pass over the queue takes out exactly the lock requests it grants, in
  their order, and leaves the others in theirs; every lock request that stays is blocked by a
  lock. When no lock is held, the first lock request in the queue is granted, also when requests
  for items queued before it are still waiting: that is what the code does, while the comments of
  \<open>uvm_sequencer_base::lock\<close> and \<open>uvm_sequence_base::lock\<close> promise a lock only after all earlier requests
  are completed (a finding). The witness is such a queue.\<close>

theorem grant_pass:
  "\<exists>gs. sq_arb_q q \<in> shuffles gs (sq_arb_q (grant_queued_locks q))
     \<and> (\<forall>r \<in> set gs. rq_kind r = SEQ_TYPE_LOCK)
     \<and> sq_lock_list (grant_queued_locks q) = sq_lock_list q @ map rq_seq gs
     \<and> sq_completed (grant_queued_locks q) = sq_completed q \<union> rq_request_id ` set gs
     \<and> \<not> (\<exists>r \<in> set (sq_arb_q (grant_queued_locks q)). rq_kind r = SEQ_TYPE_LOCK \<and> \<not> is_blocked (grant_queued_locks q) (rq_seq r))
     \<and> (sq_lock_list q = [] \<longrightarrow> (\<forall>r. find (\<lambda>r. rq_kind r = SEQ_TYPE_LOCK) (sq_arb_q q) = Some r \<longrightarrow>
          hd (sq_lock_list (grant_queued_locks q)) = rq_seq r \<and> rq_request_id r \<in> sq_completed (grant_queued_locks q)))"
proof -
  obtain gs where g: "grants (sq_arb_q q) gs (sq_arb_q (grant_queued_locks q)) q (grant_queued_locks q)"
    using grant_queued_locks_grants by blast
  have "hd (sq_lock_list (grant_queued_locks q)) = rq_seq r \<and> rq_request_id r \<in> sq_completed (grant_queued_locks q)"
    if "sq_lock_list q = []" "find (\<lambda>r. rq_kind r = SEQ_TYPE_LOCK) (sq_arb_q q) = Some r" for r
    using grant_loop_first [OF that, of "[]"] by (auto simp: grant_queued_locks_def)
  with g show ?thesis by (intro exI [of _ gs]) (auto simp: grants_def)
qed

theorem grant_pass_witness:
  "let q = fold seq_step [QRequest [2] 1, QLock [1], QLock [2], QUnlock [1]] new_sequencer
   in sq_lock_list q = [] \<and> hd (sq_lock_list (grant_queued_locks q)) = [2]
      \<and> map rq_kind (sq_arb_q q) = [SEQ_TYPE_REQ, SEQ_TYPE_LOCK]
      \<and> map rq_kind (sq_arb_q (grant_queued_locks q)) = [SEQ_TYPE_REQ]"
proof -
  define q where "q = fold seq_step [QRequest [2] 1, QLock [1], QLock [2], QUnlock [1]] new_sequencer"
  have e: "sq_lock_list q = []" unfolding q_def by code_simp
  have f: "find (\<lambda>r. rq_kind r = SEQ_TYPE_LOCK) (sq_arb_q q) = Some (sq_arb_q q ! 1)" unfolding q_def by code_simp
  have r: "rq_seq (sq_arb_q q ! 1) = [2]" unfolding q_def by code_simp
  have k: "map rq_kind (sq_arb_q q) = [SEQ_TYPE_REQ, SEQ_TYPE_LOCK]"
    "map rq_kind (sq_arb_q (grant_queued_locks q)) = [SEQ_TYPE_REQ]" unfolding q_def by code_simp+
  have "hd (sq_lock_list (grant_queued_locks q)) = rq_seq (sq_arb_q q ! 1)"
    using grant_pass [of q] e f by auto
  with e r k show ?thesis unfolding q_def [symmetric] Let_def by simp
qed

text \<open>The end of a sequence removes the requests and locks of the sequence and of its descendants,
  and nothing else; it is not registered any more. Each removal of a finished sequence is an error.\<close>

theorem exit_removes:
  assumes "seq_inv T q" "s \<in> T" "sq_sqr_ids q s = Some i"
  shows "\<exists>q'. m_sequence_exiting env s q = (q', if se_finished env s
      then replicate (length (sq_arb_q q) - length (sq_arb_q q') + (length (sq_lock_list q) - length (sq_lock_list q')))
             (UVM_ERROR, ''SEQFINERR'') else [])
    \<and> sq_arb_q q' = filter (\<lambda>r. \<not> within s (rq_seq r)) (sq_arb_q q)
    \<and> sq_lock_list q' = filter (\<lambda>l. \<not> within s l) (sq_lock_list q)
    \<and> sq_reg q' = filter (\<lambda>(j, t). t \<noteq> s) (sq_reg q)"
proof -
  let ?q = "fst (m_sequence_exiting env s q)"
  have fam: "within s t \<Longrightarrow> t \<in> T \<Longrightarrow> \<exists>xs. t = xs @ s" for t
    using assms(1,2) by (auto simp: seq_inv_def seq_family_def)
  have ne: "t \<noteq> []" if "t \<in> T" for t using that assms(1) by (auto simp: seq_inv_def seq_family_def)
  have id: "fst (m_get_sqr_sequence_id s False q) = i" using assms(3) by (simp add: m_get_sqr_sequence_id_def)
  have gone: "rq_sequence_id r = i \<or> is_child s (rq_seq r) \<longleftrightarrow> within s (rq_seq r)" if "r \<in> set (sq_arb_q q)" for r
  proof -
    have r: "rq_seq r \<in> T" "sq_sqr_ids q (rq_seq r) = Some (rq_sequence_id r)"
      using that assms(1) by (auto simp: seq_inv_def members_def sqr_inv_def queue_ok_def)
    have "rq_sequence_id r = i \<longleftrightarrow> rq_seq r = s"
      using r(2) assms(1,3) by (auto simp: seq_inv_def sqr_inv_def ids_ok_def)
    moreover have "hd s = hd (rq_seq r) \<longleftrightarrow> rq_seq r = s"
    proof
      assume h: "hd s = hd (rq_seq r)"
      then have "within s (rq_seq r)" "within (rq_seq r) s" using ne [OF r(1)] ne [OF assms(2)] unfolding within_def by (metis list.set_sel(1))+
      then obtain xs ys where "rq_seq r = xs @ s" "s = ys @ rq_seq r"
        using assms(1,2) r(1) unfolding seq_inv_def seq_family_def by metis
      then show "rq_seq r = s" by (metis append_eq_append_conv append_self_conv2 length_append le_add2 le_antisym)
    qed simp
    ultimately show ?thesis using is_child_within [OF ne [OF r(1)], of s] by auto
  qed
  have lost: "hd l = hd s \<or> is_child s l \<longleftrightarrow> within s l" if "l \<in> set (sq_lock_list q)" for l
    using that assms(1) ne is_child_within [of l s] by (force simp: seq_inv_def members_def)
  have reg: "j = i \<longleftrightarrow> t = s" if "(j, t) \<in> set (sq_reg q)" for j t
    using that assms(1,3) by (auto simp: seq_inv_def sqr_inv_def ids_ok_def)
  have q: "sq_arb_q ?q = filter (\<lambda>r. \<not> within s (rq_seq r)) (sq_arb_q q)"
      "sq_lock_list ?q = filter (\<lambda>l. \<not> within s l) (sq_lock_list q)"
      "sq_reg ?q = filter (\<lambda>(j, t). t \<noteq> s) (sq_reg q)"
    unfolding exit_state id
    by (simp, intro filter_cong refl, use gone in blast)
      (simp, intro filter_cong refl, use lost in blast, simp, intro filter_cong refl, use reg in auto)
  have "snd (m_sequence_exiting env s q) = (if se_finished env s
      then replicate (length (sq_arb_q q) - length (sq_arb_q ?q) + (length (sq_lock_list q) - length (sq_lock_list ?q)))
             (UVM_ERROR, ''SEQFINERR'') else [])"
    unfolding exit_state
    using sum_length_filter_compl [of "\<lambda>r. rq_sequence_id r = fst (m_get_sqr_sequence_id s False q) \<or> is_child s (rq_seq r)" "sq_arb_q q"]
      sum_length_filter_compl [of "\<lambda>l. hd l = hd s \<or> is_child s l" "sq_lock_list q"]
    by (simp add: m_sequence_exiting_def remove_sequence_from_queues_def Let_def split_beta) linarith
  then show ?thesis using q by (intro exI [of _ ?q]) (simp add: prod_eq_iff)
qed

theorem exit_removes_witness:
  "\<exists>q'. m_sequence_exiting sample_seq_env [1] (fold seq_step sample_seq_run new_sequencer) = (q', [])
     \<and> sq_lock_list q' = [] \<and> map rq_seq (sq_arb_q q') = [[2], [2]]"
proof -
  let ?q = "fold seq_step sample_seq_run new_sequencer"
  have fam: "seq_family sample_family" by (auto simp: seq_family_def sample_family_def within_def)
  have ok: "\<forall>k < length sample_seq_run. seq_ok sample_family (sample_seq_run ! k) (fold seq_step (take k sample_seq_run) new_sequencer)"
    by code_simp
  have "seq_inv sample_family new_sequencer" using fam sqr_inv_new by (simp add: seq_inv_def members_def new_sequencer_def)
  then have inv: "seq_inv sample_family ?q" using sqr_machine.run_inv_nth [of sample_family new_sequencer sample_seq_run] ok by blast
  have i: "sq_sqr_ids ?q [1] = Some 1" "[1] \<in> sample_family" by (code_simp, simp add: sample_family_def)
  have l: "sq_lock_list ?q = [[1], [3, 1]]" "map rq_seq (sq_arb_q ?q) = [[2], [2]]" by code_simp+
  have "filter (\<lambda>l. \<not> within [1] l) (sq_lock_list ?q) = []" by (simp add: l(1) within_def)
  moreover have "map rq_seq (filter (\<lambda>r. \<not> within [1] (rq_seq r)) (sq_arb_q ?q)) = filter (\<lambda>t. \<not> within [1] t) (map rq_seq (sq_arb_q ?q))"
    by (simp add: filter_map comp_def)
  then have "map rq_seq (filter (\<lambda>r. \<not> within [1] (rq_seq r)) (sq_arb_q ?q)) = [[2], [2]]" by (simp add: l(2) within_def)
  ultimately show ?thesis using exit_removes [OF inv i(2,1), of sample_seq_env] by (auto simp: sample_seq_env_def)
qed

end
