(* ===== verification/Phase_Graph.thy ===== *)
theory Phase_Graph
  imports UVM_Prelude "HOL-Library.Multiset"
begin

text \<open>
  Model of the graph of phases: \<open>uvm_phase\<close> and \<open>uvm_domain\<close> (src/uvmsc/phasing) without the
  execution of phases, which is theory Phase_Exec.

  A phase object is identified by its address, a natural; the graph is the store of all phase
  objects. The maps \<open>m_predecessors\<close> and \<open>m_successors\<close>, whose values are always true, are the
  sorted lists of their keys, in the order in which the iterators of \<open>std::map\<close> visit them. The
  address of an object a function creates is its argument: the choice of the allocator. A fatal
  error ends the simulation and is \<open>None\<close>, as is following a null pointer. Debug traces are left
  out.

  The searches recurse along the edges without marking visited nodes; \<open>d\<close> bounds the depth of the
  recursion. In an acyclic graph the number of nodes is enough.
\<close>

section \<open>Phase objects\<close>

datatype phase_type =
  UVM_PHASE_IMP | UVM_PHASE_NODE | UVM_PHASE_TERMINAL | UVM_PHASE_SCHEDULE | UVM_PHASE_DOMAIN
  | UVM_PHASE_GLOBAL

datatype phase_state =
  UVM_PHASE_DORMANT | UVM_PHASE_SCHEDULED | UVM_PHASE_SYNCING | UVM_PHASE_STARTED
  | UVM_PHASE_EXECUTING | UVM_PHASE_READY_TO_END | UVM_PHASE_ENDED | UVM_PHASE_CLEANUP
  | UVM_PHASE_DONE | UVM_PHASE_JUMPING

fun state_num :: "phase_state \<Rightarrow> nat" where
  "state_num UVM_PHASE_DORMANT = 0"
| "state_num UVM_PHASE_SCHEDULED = 1"
| "state_num UVM_PHASE_SYNCING = 2"
| "state_num UVM_PHASE_STARTED = 3"
| "state_num UVM_PHASE_EXECUTING = 4"
| "state_num UVM_PHASE_READY_TO_END = 5"
| "state_num UVM_PHASE_ENDED = 6"
| "state_num UVM_PHASE_CLEANUP = 7"
| "state_num UVM_PHASE_DONE = 8"
| "state_num UVM_PHASE_JUMPING = 9"

record phase_node =
  pn_name :: string
  pn_type :: phase_type
  pn_parent :: "nat option"
  pn_imp :: "nat option"
  pn_end :: "nat option"
  pn_pred :: "nat list"
  pn_succ :: "nat list"
  pn_sync :: "nat list"
  pn_state :: phase_state
  pn_run_count :: nat
  pn_jump_fwd :: bool
  pn_jump_bkwd :: bool
  pn_jump_phase :: "nat option"

type_synonym graph = "nat \<Rightarrow> phase_node"

definition upd :: "nat \<Rightarrow> (phase_node \<Rightarrow> phase_node) \<Rightarrow> graph \<Rightarrow> graph" where
  "upd a f g = g(a := f (g a))"

definition fresh_node :: "string \<Rightarrow> phase_type \<Rightarrow> nat option \<Rightarrow> phase_node" where
  "fresh_node nm ty parent =
     \<lparr>pn_name = nm, pn_type = ty, pn_parent = parent, pn_imp = None, pn_end = None,
      pn_pred = [], pn_succ = [], pn_sync = [], pn_state = UVM_PHASE_DORMANT, pn_run_count = 0,
      pn_jump_fwd = False, pn_jump_bkwd = False, pn_jump_phase = None\<rparr>"

text \<open>The constructor, at address \<open>a\<close>; \<open>e\<close> is the address of the end node, if there is one.\<close>

definition new_phase :: "nat \<Rightarrow> nat \<Rightarrow> string \<Rightarrow> phase_type \<Rightarrow> nat option \<Rightarrow> graph \<Rightarrow> graph" where
  "new_phase a e nm ty parent g =
     (if parent = None \<and> (ty = UVM_PHASE_SCHEDULE \<or> ty = UVM_PHASE_DOMAIN)
      then g(a := (fresh_node nm ty parent)\<lparr>pn_end := Some e, pn_succ := [e]\<rparr>,
             e := (fresh_node (nm @ ''_end'') UVM_PHASE_TERMINAL (Some a))\<lparr>pn_pred := [a]\<rparr>)
      else g(a := fresh_node nm ty parent))"

section \<open>Parents\<close>

fun get_domain :: "nat \<Rightarrow> graph \<Rightarrow> nat \<Rightarrow> nat option" where
  "get_domain 0 g n = None"
| "get_domain (Suc d) g n =
     (if pn_type (g n) = UVM_PHASE_DOMAIN then Some n
      else case pn_parent (g n) of None \<Rightarrow> None | Some p \<Rightarrow> get_domain d g p)"

fun up_schedule :: "nat \<Rightarrow> graph \<Rightarrow> nat \<Rightarrow> nat" where
  "up_schedule 0 g n = n"
| "up_schedule (Suc d) g n =
     (case pn_parent (g n) of
        Some p \<Rightarrow> if pn_type (g p) = UVM_PHASE_SCHEDULE then up_schedule d g p else n
      | None \<Rightarrow> n)"

definition get_schedule :: "nat \<Rightarrow> bool \<Rightarrow> graph \<Rightarrow> nat \<Rightarrow> nat option" where
  "get_schedule d hier g n =
     (let sched = (if hier then up_schedule d g n else n)
      in if pn_type (g sched) = UVM_PHASE_SCHEDULE then Some sched
         else if pn_type (g sched) = UVM_PHASE_NODE
         then (case pn_parent (g n) of
                 Some p \<Rightarrow> if pn_type (g p) \<noteq> UVM_PHASE_DOMAIN then Some p else None
               | None \<Rightarrow> None)
         else None)"

definition get_domain_name :: "nat \<Rightarrow> graph \<Rightarrow> nat \<Rightarrow> string" where
  "get_domain_name d g n =
     (case get_domain d g n of None \<Rightarrow> ''unknown'' | Some m \<Rightarrow> pn_name (g m))"

fun schedule_path :: "nat \<Rightarrow> graph \<Rightarrow> nat \<Rightarrow> string \<Rightarrow> string" where
  "schedule_path 0 g n s = s"
| "schedule_path (Suc d) g n s =
     (case pn_parent (g n) of
        Some p \<Rightarrow>
          if p \<noteq> n \<and> pn_type (g p) = UVM_PHASE_SCHEDULE
          then schedule_path d g p (pn_name (g p) @ (if length s > 0 then ''.'' else []) @ s)
          else s
      | None \<Rightarrow> s)"

definition get_schedule_name :: "nat \<Rightarrow> bool \<Rightarrow> graph \<Rightarrow> nat \<Rightarrow> string" where
  "get_schedule_name d hier g n =
     (case get_schedule d hier g n of
        None \<Rightarrow> []
      | Some s \<Rightarrow> schedule_path d g s (pn_name (g s)))"

definition get_full_name :: "nat \<Rightarrow> graph \<Rightarrow> nat \<Rightarrow> string" where
  "get_full_name d g n =
     (if pn_type (g n) = UVM_PHASE_IMP then pn_name (g n)
      else let full = get_domain_name d g n;
               sch = get_schedule_name d False g n;
               full1 = (if sch \<noteq> [] then full @ ''.'' @ sch else full)
           in if pn_type (g n) \<noteq> UVM_PHASE_DOMAIN \<and> pn_type (g n) \<noteq> UVM_PHASE_SCHEDULE
              then full1 @ ''.'' @ pn_name (g n) else full1)"

section \<open>Searches\<close>

text \<open>The first result in a list of calls; the outer \<open>None\<close> means that the depth was exceeded.\<close>

fun first_found :: "('a \<Rightarrow> 'b option option) \<Rightarrow> 'a list \<Rightarrow> 'b option option" where
  "first_found f [] = Some None"
| "first_found f (x # xs) =
     (case f x of
        None \<Rightarrow> None
      | Some (Some r) \<Rightarrow> Some (Some r)
      | Some None \<Rightarrow> first_found f xs)"

definition in_scope :: "nat \<Rightarrow> bool \<Rightarrow> nat \<Rightarrow> graph \<Rightarrow> nat \<Rightarrow> bool" where
  "in_scope d stay orig g n \<longleftrightarrow> \<not> stay \<or> get_schedule d False g n = get_schedule d False g orig \<or>
     get_domain d g n = get_domain d g orig"

text \<open>
  The four searches of the class are instances: along predecessors or successors, for a phase
  (the node itself or its imp) or a name.
\<close>

primrec find_along ::
    "nat \<Rightarrow> (phase_node \<Rightarrow> nat list) \<Rightarrow> (nat \<Rightarrow> bool) \<Rightarrow> bool \<Rightarrow> nat \<Rightarrow> graph \<Rightarrow> nat \<Rightarrow> nat option option" where
  "find_along 0 nb hit stay orig g n = None"
| "find_along (Suc d) nb hit stay orig g n =
     (if hit n then Some (Some n)
      else first_found (find_along d nb hit stay orig g)
             (filter (in_scope (Suc d) stay orig g) (nb (g n))))"

definition hits :: "graph \<Rightarrow> nat \<Rightarrow> nat \<Rightarrow> bool" where
  "hits g phase n \<longleftrightarrow> pn_imp (g n) = Some phase \<or> n = phase"

definition m_find_predecessor :: "nat \<Rightarrow> nat \<Rightarrow> bool \<Rightarrow> nat \<Rightarrow> graph \<Rightarrow> nat \<Rightarrow> nat option option" where
  "m_find_predecessor d phase stay orig g n = find_along d pn_pred (hits g phase) stay orig g n"

definition m_find_successor :: "nat \<Rightarrow> nat \<Rightarrow> bool \<Rightarrow> nat \<Rightarrow> graph \<Rightarrow> nat \<Rightarrow> nat option option" where
  "m_find_successor d phase stay orig g n = find_along d pn_succ (hits g phase) stay orig g n"

definition m_find_predecessor_by_name ::
    "nat \<Rightarrow> string \<Rightarrow> bool \<Rightarrow> nat \<Rightarrow> graph \<Rightarrow> nat \<Rightarrow> nat option option" where
  "m_find_predecessor_by_name d nm stay orig g n =
     find_along d pn_pred (\<lambda>m. pn_name (g m) = nm) stay orig g n"

definition m_find_successor_by_name ::
    "nat \<Rightarrow> string \<Rightarrow> bool \<Rightarrow> nat \<Rightarrow> graph \<Rightarrow> nat \<Rightarrow> nat option option" where
  "m_find_successor_by_name d nm stay orig g n =
     find_along d pn_succ (\<lambda>m. pn_name (g m) = nm) stay orig g n"

definition or_else :: "'a option option \<Rightarrow> 'a option option \<Rightarrow> 'a option option" where
  "or_else a b = (case a of None \<Rightarrow> None | Some (Some r) \<Rightarrow> Some (Some r) | Some None \<Rightarrow> b)"

definition find_by_name :: "nat \<Rightarrow> string \<Rightarrow> bool \<Rightarrow> graph \<Rightarrow> nat \<Rightarrow> nat option option" where
  "find_by_name d nm stay g n =
     (if pn_name (g n) = nm then Some (Some n)
      else or_else (m_find_predecessor_by_name d nm stay n g n)
                   (m_find_successor_by_name d nm stay n g n))"

definition phase_find :: "nat \<Rightarrow> nat \<Rightarrow> bool \<Rightarrow> graph \<Rightarrow> nat \<Rightarrow> nat option option" where
  "phase_find d phase stay g n =
     (if pn_imp (g n) = Some phase \<or> phase = n then Some (Some phase)
      else or_else (m_find_predecessor d phase stay n g n) (m_find_successor d phase stay n g n))"

definition phase_is :: "graph \<Rightarrow> nat \<Rightarrow> nat \<Rightarrow> bool" where
  "phase_is g n phase \<longleftrightarrow> pn_imp (g n) = Some phase \<or> n = phase"

definition is_before :: "nat \<Rightarrow> graph \<Rightarrow> nat \<Rightarrow> nat \<Rightarrow> bool option" where
  "is_before d g n phase =
     (if phase_is g n phase then Some False
      else map_option (\<lambda>r. r \<noteq> None) (m_find_successor d phase False n g n))"

definition is_after :: "nat \<Rightarrow> graph \<Rightarrow> nat \<Rightarrow> nat \<Rightarrow> bool option" where
  "is_after d g n phase =
     (if phase_is g n phase then Some False
      else map_option (\<lambda>r. r \<noteq> None) (m_find_predecessor d phase False n g n))"

section \<open>Adding a phase\<close>

definition add_succ :: "nat \<Rightarrow> phase_node \<Rightarrow> phase_node" where
  "add_succ a nd = nd\<lparr>pn_succ := put_key a (pn_succ nd)\<rparr>"

definition add_pred :: "nat \<Rightarrow> phase_node \<Rightarrow> phase_node" where
  "add_pred a nd = nd\<lparr>pn_pred := put_key a (pn_pred nd)\<rparr>"

definition del_succ :: "nat \<Rightarrow> phase_node \<Rightarrow> phase_node" where
  "del_succ a nd = nd\<lparr>pn_succ := erase_key a (pn_succ nd)\<rparr>"

definition del_pred :: "nat \<Rightarrow> phase_node \<Rightarrow> phase_node" where
  "del_pred a nd = nd\<lparr>pn_pred := erase_key a (pn_pred nd)\<rparr>"

definition upd_all :: "nat list \<Rightarrow> (phase_node \<Rightarrow> phase_node) \<Rightarrow> graph \<Rightarrow> graph" where
  "upd_all xs f g = fold (\<lambda>a. upd a f) xs g"

definition add_with :: "nat \<Rightarrow> nat \<Rightarrow> nat \<Rightarrow> graph \<Rightarrow> graph" where
  "add_with b e w g =
     (let g1 = upd b (\<lambda>nd. nd\<lparr>pn_pred := pn_pred (g w)\<rparr>) g;
          g2 = upd e (\<lambda>nd. nd\<lparr>pn_succ := pn_succ (g1 w)\<rparr>) g1;
          g3 = upd_all (pn_pred (g2 w)) (add_succ b) g2
      in upd_all (pn_succ (g3 w)) (add_pred e) g3)"

definition add_before :: "nat \<Rightarrow> nat \<Rightarrow> nat \<Rightarrow> graph \<Rightarrow> graph" where
  "add_before b e x g =
     (let g1 = upd b (\<lambda>nd. nd\<lparr>pn_pred := pn_pred (g x)\<rparr>) g;
          g2 = upd e (add_succ x) g1;
          g3 = upd_all (pn_pred (g2 x)) (\<lambda>nd. add_succ b (del_succ x nd)) g2
      in upd x (\<lambda>nd. add_pred e (nd\<lparr>pn_pred := []\<rparr>)) g3)"

definition add_after :: "nat \<Rightarrow> nat \<Rightarrow> nat \<Rightarrow> graph \<Rightarrow> graph" where
  "add_after b e x g =
     (let g1 = upd e (\<lambda>nd. nd\<lparr>pn_succ := pn_succ (g x)\<rparr>) g;
          g2 = upd b (add_pred x) g1;
          g3 = upd_all (pn_succ (g2 x)) (\<lambda>nd. add_pred e (del_pred x nd)) g2
      in upd x (\<lambda>nd. add_succ b (nd\<lparr>pn_succ := []\<rparr>)) g3)"

text \<open>
  Between two phases. The last statement erases \<open>after_phase\<close> from the successors of
  \<open>before_phase\<close>, not from its predecessors.
\<close>

definition add_between :: "nat \<Rightarrow> nat \<Rightarrow> nat \<Rightarrow> nat \<Rightarrow> graph \<Rightarrow> graph" where
  "add_between b e af be g =
     (let g1 = upd b (add_pred af) g;
          g2 = upd e (add_succ be) g1;
          g3 = upd af (add_succ b) g2;
          g4 = upd be (add_pred e) g3
      in if be \<in> set (pn_succ (g4 af)) then upd be (del_succ af) (upd af (del_succ be) g4) else g4)"

text \<open>
  A position given by an imp must be found, but the node found is not used. \<open>new\<close> is the address
  of the node created for an imp.
\<close>

definition bad_position :: "nat \<Rightarrow> graph \<Rightarrow> nat \<Rightarrow> nat option \<Rightarrow> bool" where
  "bad_position d g this p =
     (case p of
        None \<Rightarrow> False
      | Some q \<Rightarrow> pn_type (g q) = UVM_PHASE_IMP \<and>
          (case phase_find d q True g this of Some (Some r) \<Rightarrow> False | _ \<Rightarrow> True))"

text \<open>What is added: a new node for an imp, otherwise the phase itself; its first and last phase.\<close>

definition add_target :: "nat \<Rightarrow> nat \<Rightarrow> nat \<Rightarrow> graph \<Rightarrow> graph" where
  "add_target this phase new g =
     (if pn_type (g phase) = UVM_PHASE_IMP
      then g(new := (fresh_node (pn_name (g phase)) UVM_PHASE_NODE (Some this))\<lparr>pn_imp := Some phase\<rparr>)
      else upd phase (\<lambda>nd. nd\<lparr>pn_parent := Some this\<rparr>) g)"

definition add_ends :: "nat \<Rightarrow> nat \<Rightarrow> graph \<Rightarrow> nat \<times> nat option" where
  "add_ends phase new g =
     (if pn_type (g phase) = UVM_PHASE_IMP then (new, Some new) else (phase, pn_end (g phase)))"

definition add_refused :: "nat \<Rightarrow> nat \<Rightarrow> nat option \<Rightarrow> nat option \<Rightarrow> nat option \<Rightarrow> graph \<Rightarrow> bool" where
  "add_refused d this with_ph after_ph before_ph g \<longleftrightarrow>
     bad_position d g this with_ph \<or> bad_position d g this before_ph \<or> bad_position d g this after_ph \<or>
     with_ph \<noteq> None \<and> (after_ph \<noteq> None \<or> before_ph \<noteq> None) \<or>
     before_ph = Some this \<or> after_ph = pn_end (g this) \<or> with_ph = pn_end (g this)"

fun add_connect ::
    "nat \<Rightarrow> nat \<Rightarrow> nat \<Rightarrow> nat option \<Rightarrow> nat option \<Rightarrow> nat option \<Rightarrow> graph \<Rightarrow> graph option" where
  "add_connect d b e (Some w) after_ph before_ph g = Some (add_with b e w g)"
| "add_connect d b e None None (Some x) g = Some (add_before b e x g)"
| "add_connect d b e None (Some x) None g = Some (add_after b e x g)"
| "add_connect d b e None (Some af) (Some be) g =
     (if is_before d g af be = Some True then Some (add_between b e af be g) else None)"
| "add_connect d b e None None None g = Some g"

definition phase_add ::
    "nat \<Rightarrow> nat \<Rightarrow> nat \<Rightarrow> nat option \<Rightarrow> nat option \<Rightarrow> nat option \<Rightarrow> nat \<Rightarrow> graph \<Rightarrow> graph option" where
  "phase_add d this phase with_ph after_ph before_ph new g =
     (if add_refused d this with_ph after_ph before_ph g then None
      else
        let g1 = add_target this phase new g;
            (begin_n, end_o) = add_ends phase new g;
            after1 = (if with_ph = Some this then Some this else after_ph);
            before1 = (if with_ph = Some this then pn_end (g this) else before_ph);
            before2 = (if with_ph = None \<and> after1 = None \<and> before1 = None
                       then pn_end (g this) else before1)
        in case end_o of
             None \<Rightarrow> None
           | Some end_n \<Rightarrow> add_connect d begin_n end_n with_ph after1 before2 g1)"

section \<open>Synchronisation between domains\<close>

definition m_is_domain :: "graph \<Rightarrow> nat \<Rightarrow> bool" where
  "m_is_domain g n \<longleftrightarrow> pn_type (g n) = UVM_PHASE_DOMAIN"

definition push_sync :: "nat \<Rightarrow> phase_node \<Rightarrow> phase_node" where
  "push_sync a nd = (if a \<in> set (pn_sync nd) then nd else nd\<lparr>pn_sync := pn_sync nd @ [a]\<rparr>)"

definition pop_sync :: "nat \<Rightarrow> phase_node \<Rightarrow> phase_node" where
  "pop_sync a nd = nd\<lparr>pn_sync := remove1 a (pn_sync nd)\<rparr>"

text \<open>\<open>change\<close> is the update of \<open>sync\<close> or of \<open>unsync\<close> for one pair.\<close>

definition sync_pair ::
    "(nat \<Rightarrow> phase_node \<Rightarrow> phase_node) \<Rightarrow> nat \<Rightarrow> nat \<Rightarrow> nat \<Rightarrow> nat \<Rightarrow> nat option \<Rightarrow> graph \<Rightarrow> graph option" where
  "sync_pair change d this target phase with_ph g =
     (let w = (case with_ph of None \<Rightarrow> phase | Some w \<Rightarrow> w)
      in case phase_find d phase True g this of
           None \<Rightarrow> None
         | Some from_n \<Rightarrow>
             (case phase_find d w True g target of
                None \<Rightarrow> None
              | Some to_n \<Rightarrow>
                  (case (from_n, to_n) of
                     (Some f, Some t) \<Rightarrow> Some (upd t (change f) (upd f (change t) g))
                   | _ \<Rightarrow> Some g)))"

text \<open>The loop over all nodes reachable from the domain, in order of their distance.\<close>

fun sync_queue ::
    "(nat \<Rightarrow> graph \<Rightarrow> graph option) \<Rightarrow> nat \<Rightarrow> nat list \<Rightarrow> nat list \<Rightarrow> graph \<Rightarrow> graph option" where
  "sync_queue f 0 queue visited g = None"
| "sync_queue f (Suc d) [] visited g = Some g"
| "sync_queue f (Suc d) (n # queue) visited g =
     (case (case pn_imp (g n) of None \<Rightarrow> Some g | Some i \<Rightarrow> f i g) of
        None \<Rightarrow> None
      | Some g1 \<Rightarrow>
          let new = filter (\<lambda>s. s \<notin> set visited) (pn_succ (g1 n))
          in sync_queue f d (queue @ new) (visited @ new) g1)"

definition sync_with ::
    "(nat \<Rightarrow> phase_node \<Rightarrow> phase_node) \<Rightarrow> nat \<Rightarrow> nat \<Rightarrow> nat \<Rightarrow> nat option \<Rightarrow> nat option \<Rightarrow> graph \<Rightarrow> graph option" where
  "sync_with change d this target phase with_ph g =
     (if \<not> m_is_domain g this then None
      else if \<not> m_is_domain g target then None
      else if phase = None \<and> with_ph \<noteq> None then None
      else case phase of
        None \<Rightarrow> sync_queue (\<lambda>i. sync_pair change d this target i None) d [this] [this] g
      | Some p \<Rightarrow> sync_pair change d this target p with_ph g)"

definition phase_sync :: "nat \<Rightarrow> nat \<Rightarrow> nat \<Rightarrow> nat option \<Rightarrow> nat option \<Rightarrow> graph \<Rightarrow> graph option" where
  "phase_sync = sync_with push_sync"

definition phase_unsync :: "nat \<Rightarrow> nat \<Rightarrow> nat \<Rightarrow> nat option \<Rightarrow> nat option \<Rightarrow> graph \<Rightarrow> graph option" where
  "phase_unsync = sync_with pop_sync"

section \<open>States and jumps\<close>

datatype wait_op = UVM_EQ | UVM_NE | UVM_LT | UVM_LTE | UVM_GT | UVM_GTE

text \<open>
  The condition on which \<open>wait_for_state\<close> returns. The first two test common bits, which fits
  states numbered by powers of two; the states are numbered 0 to 9.
\<close>

fun state_reached :: "wait_op \<Rightarrow> phase_state \<Rightarrow> phase_state \<Rightarrow> bool" where
  "state_reached UVM_EQ s cur = (state_num s AND state_num cur \<noteq> 0)"
| "state_reached UVM_NE s cur = (state_num s AND state_num cur = 0)"
| "state_reached UVM_LT s cur = (state_num cur < state_num s)"
| "state_reached UVM_LTE s cur = (state_num cur \<le> state_num s)"
| "state_reached UVM_GT s cur = (state_num cur > state_num s)"
| "state_reached UVM_GTE s cur = (state_num cur \<ge> state_num s)"

definition set_state :: "phase_state \<Rightarrow> phase_node \<Rightarrow> phase_node" where
  "set_state s nd = nd\<lparr>pn_state := s\<rparr>"

definition phase_jump :: "nat \<Rightarrow> nat \<Rightarrow> graph \<Rightarrow> nat \<Rightarrow> (graph \<times> msg list) option" where
  "phase_jump d phase g this =
     (let ms = (if state_num (pn_state (g this)) < state_num UVM_PHASE_STARTED \<or>
                   state_num (pn_state (g this)) > state_num UVM_PHASE_READY_TO_END
                then [(UVM_ERROR, ''JMPPHIDL'')] else [])
      in case m_find_predecessor d phase False this g this of
           None \<Rightarrow> None
         | Some (Some p) \<Rightarrow>
             Some (upd this (\<lambda>nd. nd\<lparr>pn_jump_bkwd := True, pn_jump_phase := Some p\<rparr>) g, ms)
         | Some None \<Rightarrow>
             (case m_find_successor d phase False this g this of
                None \<Rightarrow> None
              | Some None \<Rightarrow> None
              | Some (Some s) \<Rightarrow>
                  Some (upd this (\<lambda>nd. nd\<lparr>pn_jump_fwd := True, pn_jump_phase := Some s\<rparr>) g, ms)))"

primrec clear_successors :: "nat \<Rightarrow> phase_state \<Rightarrow> nat option \<Rightarrow> nat \<Rightarrow> graph \<Rightarrow> graph option" where
  "clear_successors 0 s stop n g = None"
| "clear_successors (Suc d) s stop n g =
     (if stop = Some n then Some g
      else let g1 = upd n (set_state s) g
           in seq_all (clear_successors d s stop) (pn_succ (g1 n)) g1)"

primrec m_get_transitive_children :: "nat \<Rightarrow> graph \<Rightarrow> nat \<Rightarrow> nat list option" where
  "m_get_transitive_children 0 g n = None"
| "m_get_transitive_children (Suc d) g n =
     fold (\<lambda>s acc. case acc of None \<Rightarrow> None
        | Some xs \<Rightarrow> map_option (\<lambda>ys. xs @ s # ys) (m_get_transitive_children d g s))
       (pn_succ (g n)) (Some [])"

text \<open>\<open>uvm_domain::jump\<close>: the second loop counts the active phases but indexes all phases.\<close>

fun jump_each :: "nat \<Rightarrow> nat \<Rightarrow> nat list \<Rightarrow> graph \<Rightarrow> (graph \<times> msg list) option" where
  "jump_each d phase [] g = Some (g, [])"
| "jump_each d phase (p # ps) g =
     (case (is_before d g p phase, is_after d g p phase) of
        (Some b, Some a) \<Rightarrow>
          (case (if b \<or> a then phase_jump d phase g p else Some (g, [])) of
             None \<Rightarrow> None
           | Some (g1, ms) \<Rightarrow> map_option (\<lambda>(g2, ms2). (g2, ms @ ms2)) (jump_each d phase ps g1))
      | _ \<Rightarrow> None)"

definition active :: "graph \<Rightarrow> nat \<Rightarrow> bool" where
  "active g n \<longleftrightarrow> state_num (pn_state (g n)) \<ge> state_num UVM_PHASE_STARTED \<and>
     state_num (pn_state (g n)) \<le> state_num UVM_PHASE_CLEANUP"

definition domain_jump :: "nat \<Rightarrow> nat \<Rightarrow> graph \<Rightarrow> nat \<Rightarrow> (graph \<times> msg list) option" where
  "domain_jump d phase g this =
     (case m_get_transitive_children d g this of
        None \<Rightarrow> None
      | Some phases \<Rightarrow> jump_each d phase (take (length (filter (active g) phases)) phases) g)"

section \<open>Siblings\<close>

text \<open>
  The two loops of \<open>get_predecessors_for_successors\<close> replace, in a set of phases, each one that is
  not a node by its neighbours, the first in the order of the addresses each time. The loop
  need not end in a graph with cycles.
\<close>

definition first_inner :: "graph \<Rightarrow> nat list \<Rightarrow> nat option" where
  "first_inner g xs = find (\<lambda>n. pn_type (g n) \<noteq> UVM_PHASE_NODE) xs"

partial_function (option) to_nodes :: "(phase_node \<Rightarrow> nat list) \<Rightarrow> graph \<Rightarrow> nat list \<Rightarrow> nat list option" where
  [code]: "to_nodes nb g xs =
     (case first_inner g xs of
        None \<Rightarrow> Some xs
      | Some n \<Rightarrow> to_nodes nb g (erase_key n (fold put_key (nb (g n)) xs)))"

definition get_predecessors_for_successors :: "graph \<Rightarrow> nat \<Rightarrow> nat list option" where
  "get_predecessors_for_successors g this =
     (case to_nodes pn_succ g (fold put_key (pn_succ (g this)) []) of
        None \<Rightarrow> None
      | Some succs \<Rightarrow>
          map_option (erase_key this)
            (to_nodes pn_pred g (fold (\<lambda>s. fold put_key (pn_pred (g s))) succs [])))"

section \<open>The common domain\<close>

definition common_names :: "string list" where
  "common_names = [''build'', ''connect'', ''end_of_elaboration'', ''start_of_simulation'', ''run'',
     ''extract'', ''check'', ''report'', ''final'']"

definition runtime_names :: "string list" where
  "runtime_names = [''pre_reset'', ''reset'', ''post_reset'', ''pre_configure'', ''configure'',
     ''post_configure'', ''pre_main'', ''main'', ''post_main'', ''pre_shutdown'', ''shutdown'',
     ''post_shutdown'']"

text \<open>The singletons of the predefined phases, and \<open>add\<close> for each of them.\<close>

fun make_imps :: "(nat \<Rightarrow> nat) \<Rightarrow> nat \<Rightarrow> string list \<Rightarrow> graph \<Rightarrow> graph" where
  "make_imps al k [] g = g"
| "make_imps al k (nm # nms) g = make_imps al (Suc k) nms (new_phase (al k) 0 nm UVM_PHASE_IMP None g)"

fun add_imps :: "nat \<Rightarrow> (nat \<Rightarrow> nat) \<Rightarrow> nat \<Rightarrow> nat \<Rightarrow> nat \<Rightarrow> nat \<Rightarrow> graph \<Rightarrow> graph option" where
  "add_imps d al this i k 0 g = Some g"
| "add_imps d al this i k (Suc n) g =
     (case phase_add d this (al i) None None None (al k) g of
        None \<Rightarrow> None
      | Some g1 \<Rightarrow> add_imps d al this (Suc i) (Suc k) n g1)"

definition add_uvm_phases :: "nat \<Rightarrow> (nat \<Rightarrow> nat) \<Rightarrow> nat \<Rightarrow> graph \<Rightarrow> graph option" where
  "add_uvm_phases d al sched g = add_imps d al sched 24 36 12 (make_imps al 24 runtime_names g)"

text \<open>Object number \<open>k\<close> has address \<open>al k\<close>: 20 and 21 the domain, 22 and 23 the schedule.\<close>

definition get_uvm_domain :: "nat \<Rightarrow> (nat \<Rightarrow> nat) \<Rightarrow> graph \<Rightarrow> graph option" where
  "get_uvm_domain d al g =
     (let g1 = new_phase (al 20) (al 21) ''uvm'' UVM_PHASE_DOMAIN None g;
          g2 = new_phase (al 22) (al 23) ''uvm_sched'' UVM_PHASE_SCHEDULE None g1
      in case add_uvm_phases d al (al 22) g2 of
           None \<Rightarrow> None
         | Some g3 \<Rightarrow> phase_add d (al 20) (al 22) None None None 0 g3)"

definition get_common_domain :: "nat \<Rightarrow> (nat \<Rightarrow> nat) \<Rightarrow> graph \<Rightarrow> graph option" where
  "get_common_domain d al g =
     (let g1 = new_phase (al 0) (al 1) ''common'' UVM_PHASE_DOMAIN None g
      in case add_imps d al (al 0) 2 11 9 (make_imps al 2 common_names g1) of
           None \<Rightarrow> None
         | Some g2 \<Rightarrow>
             (case get_uvm_domain d al g2 of
                None \<Rightarrow> None
              | Some g3 \<Rightarrow>
                  (case phase_find d (al 6) True g3 (al 0) of
                     Some w \<Rightarrow> phase_add d (al 0) (al 20) w None None 0 g3
                   | None \<Rightarrow> None)))"

definition empty_graph :: graph where
  "empty_graph = (\<lambda>_. fresh_node [] UVM_PHASE_IMP None)"

section \<open>Consistent acyclic graphs\<close>

definition edges :: "graph \<Rightarrow> (nat \<times> nat) set" where
  "edges g = {(a, b). b \<in> set (pn_succ (g a))}"

definition consistent :: "graph \<Rightarrow> bool" where
  "consistent g \<longleftrightarrow> (\<forall>a b. b \<in> set (pn_succ (g a)) \<longleftrightarrow> a \<in> set (pn_pred (g b)))"

definition keys_ok :: "graph \<Rightarrow> bool" where
  "keys_ok g \<longleftrightarrow> (\<forall>n. sorted (pn_succ (g n)) \<and> distinct (pn_succ (g n)) \<and>
     sorted (pn_pred (g n)) \<and> distinct (pn_pred (g n)))"

definition graph_ok :: "graph \<Rightarrow> bool" where
  "graph_ok g \<longleftrightarrow> consistent g \<and> keys_ok g \<and> finite (edges g) \<and> acyclic (edges g)"

lemma in_edges [simp]: "(a, b) \<in> edges g \<longleftrightarrow> b \<in> set (pn_succ (g a))"
  by (simp add: edges_def)

lemma consistent_pred: "consistent g \<Longrightarrow> a \<in> set (pn_pred (g b)) \<longleftrightarrow> (a, b) \<in> edges g"
  by (simp add: consistent_def)

lemma upd_apply: "upd a f g n = (if n = a then f (g a) else g n)"
  by (simp add: upd_def)

lemma upd_all_apply: "distinct xs \<Longrightarrow> upd_all xs f g n = (if n \<in> set xs then f (g n) else g n)"
  by (induction xs arbitrary: g) (auto simp: upd_all_def upd_apply)

text \<open>Joining a part between nodes \<open>P\<close> and \<open>S\<close> makes no cycle when nothing leads back.\<close>

lemma trancl_into_target:
  assumes "\<forall>p \<in> P. (b, p) \<notin> r\<^sup>*"
  shows "(x, y) \<in> (r \<union> P \<times> {b})\<^sup>+ \<Longrightarrow> (x, y) \<in> r\<^sup>+ \<or> (\<exists>p \<in> P. (x, p) \<in> r\<^sup>* \<and> (b, y) \<in> r\<^sup>*)"
proof (induction rule: trancl_induct)
  case (base y)
  then show ?case by auto
next
  case (step y z)
  show ?case
  proof (cases "(y, z) \<in> r")
    case True
    with step.IH show ?thesis by (auto intro: trancl_into_trancl rtrancl_into_rtrancl)
  next
    case False
    with step.hyps(2) have "y \<in> P" "z = b" by auto
    with step.IH assms show ?thesis by (auto intro: trancl_into_rtrancl)
  qed
qed

lemma acyclic_into_target:
  assumes "acyclic r" "\<forall>p \<in> P. (b, p) \<notin> r\<^sup>*"
  shows "acyclic (r \<union> P \<times> {b})"
proof (rule acyclicI, intro allI notI)
  fix x assume "(x, x) \<in> (r \<union> P \<times> {b})\<^sup>+"
  from trancl_into_target [OF assms(2) this] show False
    using assms by (auto simp: acyclic_def dest: rtrancl_trans)
qed

lemma acyclic_from_source:
  assumes "acyclic r" "\<forall>s \<in> S. (s, e) \<notin> r\<^sup>*"
  shows "acyclic (r \<union> {e} \<times> S)"
proof -
  have "acyclic (r\<inverse> \<union> S \<times> {e})"
    by (rule acyclic_into_target) (use assms in \<open>simp_all add: acyclic_converse rtrancl_converse\<close>)
  moreover have "r\<inverse> \<union> S \<times> {e} = (r \<union> {e} \<times> S)\<inverse>" by auto
  ultimately show ?thesis by (simp only: acyclic_converse)
qed

lemma acyclic_bridge:
  assumes "acyclic r" "\<forall>p \<in> P. (b, p) \<notin> r\<^sup>*" "\<forall>s \<in> S. (s, e) \<notin> r\<^sup>*" "\<forall>s \<in> S. \<forall>p \<in> P. (s, p) \<notin> r\<^sup>*"
  shows "acyclic (r \<union> P \<times> {b} \<union> {e} \<times> S)"
proof (rule acyclic_from_source [OF acyclic_into_target [OF assms(1,2)]], intro ballI notI)
  fix s assume s: "s \<in> S" and p: "(s, e) \<in> (r \<union> P \<times> {b})\<^sup>*"
  then have "s \<noteq> e" using assms(3) by auto
  with p have "(s, e) \<in> (r \<union> P \<times> {b})\<^sup>+" by (auto simp: rtrancl_eq_or_trancl)
  from trancl_into_target [OF assms(2) this] show False
    using assms(3,4) s by (auto intro: trancl_into_rtrancl)
qed

text \<open>
  The part from \<open>b\<close> to \<open>e\<close> to be added at the positions \<open>xs\<close>: no edge enters or leaves it, and
  no phase can be reached both from it and from a position.
\<close>

definition part_ok :: "graph \<Rightarrow> nat \<Rightarrow> nat \<Rightarrow> nat set \<Rightarrow> bool" where
  "part_ok g b e xs \<longleftrightarrow> pn_pred (g b) = [] \<and> pn_succ (g e) = [] \<and> (b, e) \<in> (edges g)\<^sup>* \<and>
     (\<forall>x \<in> xs. \<forall>y. (b, y) \<in> (edges g)\<^sup>* \<longrightarrow> (x, y) \<notin> (edges g)\<^sup>* \<and> (y, x) \<notin> (edges g)\<^sup>*)"

lemma part_ok_facts:
  assumes "part_ok g b e xs" "x \<in> xs"
  shows "x \<noteq> b" "x \<noteq> e" "(b, x) \<notin> (edges g)\<^sup>*" "(x, b) \<notin> (edges g)\<^sup>*" "(x, e) \<notin> (edges g)\<^sup>*"
    "(e, x) \<notin> (edges g)\<^sup>*"
  using assms by (auto simp: part_ok_def)

lemma no_pred: "consistent g \<Longrightarrow> pn_pred (g b) = [] \<Longrightarrow> b \<notin> set (pn_succ (g a))"
  by (simp add: consistent_def)

lemma no_succ: "consistent g \<Longrightarrow> pn_succ (g e) = [] \<Longrightarrow> e \<notin> set (pn_pred (g a))"
  by (metis consistent_def empty_iff list.set(1))

lemma no_self_edge: "acyclic r \<Longrightarrow> (x, x) \<notin> r"
  by (meson acyclic_def r_into_trancl)

lemma preds_before:
  assumes "graph_ok g" "p \<in> set (pn_pred (g x))"
  shows "(p, x) \<in> edges g" "p \<noteq> x"
proof -
  show "(p, x) \<in> edges g" using assms by (simp add: graph_ok_def consistent_def)
  then show "p \<noteq> x" using assms(1) no_self_edge [of "edges g" x] by (auto simp: graph_ok_def)
qed

lemma succs_after:
  assumes "graph_ok g" "s \<in> set (pn_succ (g x))"
  shows "(x, s) \<in> edges g" "s \<noteq> x"
  using assms no_self_edge [of "edges g" x] by (auto simp: graph_ok_def)

lemma part_preds:
  assumes "graph_ok g" "part_ok g b e xs" "x \<in> xs" "p \<in> set (pn_pred (g x))"
  shows "(b, p) \<notin> (edges g)\<^sup>*"
  using part_ok_facts(3) [OF assms(2,3)] preds_before(1) [OF assms(1,4)]
  by (blast intro: rtrancl_into_rtrancl)

lemma part_succs:
  assumes "graph_ok g" "part_ok g b e xs" "x \<in> xs" "s \<in> set (pn_succ (g x))"
  shows "(s, e) \<notin> (edges g)\<^sup>*"
  using part_ok_facts(5) [OF assms(2,3)] succs_after(1) [OF assms(1,4)]
  by (blast intro: converse_rtrancl_into_rtrancl)

lemma around_no_cycle:
  assumes "graph_ok g" "p \<in> set (pn_pred (g x))" "s \<in> set (pn_succ (g x))"
  shows "(s, p) \<notin> (edges g)\<^sup>*"
proof
  assume "(s, p) \<in> (edges g)\<^sup>*"
  then have "(x, x) \<in> (edges g)\<^sup>+"
    using preds_before(1) [OF assms(1,2)] succs_after(1) [OF assms(1,3)]
    by (meson rtrancl_into_trancl1 rtrancl_into_trancl2 trancl_trans r_into_trancl)
  then show False using assms(1) by (auto simp: graph_ok_def acyclic_def)
qed

subsection \<open>The four ways to add\<close>

lemma add_with_apply:
  assumes "graph_ok g" "part_ok g b e {w}"
  shows "pn_succ (add_with b e w g n) =
      (let s = (if n = e then pn_succ (g w) else pn_succ (g n))
       in if n \<in> set (pn_pred (g w)) then put_key b s else s)"
    and "pn_pred (add_with b e w g n) =
      (let s = (if n = b then pn_pred (g w) else pn_pred (g n))
       in if n \<in> set (pn_succ (g w)) then put_key e s else s)"
proof -
  have c: "consistent g" "keys_ok g" using assms(1) by (simp_all add: graph_ok_def)
  have d: "distinct (pn_pred (g w))" "distinct (pn_succ (g w))" using c(2) by (auto simp: keys_ok_def)
  note f = part_ok_facts [OF assms(2), of w, simplified]
  have n: "e \<notin> set (pn_pred (g w))" "b \<notin> set (pn_succ (g w))"
    using assms(2) no_succ [OF c(1)] no_pred [OF c(1)] by (simp_all add: part_ok_def)
  have w: "w \<notin> set (pn_pred (g w))" "w \<notin> set (pn_succ (g w))"
    using preds_before [OF assms(1), of w w] succs_after [OF assms(1), of w w] by auto
  show "pn_succ (add_with b e w g n) =
      (let s = (if n = e then pn_succ (g w) else pn_succ (g n))
       in if n \<in> set (pn_pred (g w)) then put_key b s else s)"
    "pn_pred (add_with b e w g n) =
      (let s = (if n = b then pn_pred (g w) else pn_pred (g n))
       in if n \<in> set (pn_succ (g w)) then put_key e s else s)"
    using f n d w
    by (auto simp: add_with_def Let_def upd_all_apply upd_apply add_succ_def add_pred_def)
qed

lemma add_before_apply:
  assumes "graph_ok g" "part_ok g b e {x}"
  shows "pn_succ (add_before b e x g n) =
      (if n = e then put_key x (pn_succ (g n))
       else if n \<in> set (pn_pred (g x)) then put_key b (erase_key x (pn_succ (g n))) else pn_succ (g n))"
    and "pn_pred (add_before b e x g n) =
      (if n = b then pn_pred (g x) else if n = x then put_key e [] else pn_pred (g n))"
proof -
  have c: "consistent g" "keys_ok g" using assms(1) by (simp_all add: graph_ok_def)
  have d: "distinct (pn_pred (g x))" using c(2) by (auto simp: keys_ok_def)
  note f = part_ok_facts [OF assms(2), of x, simplified]
  have n: "e \<notin> set (pn_pred (g x))"
    using assms(2) no_succ [OF c(1)] by (simp add: part_ok_def)
  have w: "x \<notin> set (pn_pred (g x))" using preds_before [OF assms(1), of x x] by auto
  show "pn_succ (add_before b e x g n) =
      (if n = e then put_key x (pn_succ (g n))
       else if n \<in> set (pn_pred (g x)) then put_key b (erase_key x (pn_succ (g n))) else pn_succ (g n))"
    "pn_pred (add_before b e x g n) =
      (if n = b then pn_pred (g x) else if n = x then put_key e [] else pn_pred (g n))"
    using f n d w
    by (auto simp: add_before_def Let_def upd_all_apply upd_apply add_succ_def add_pred_def del_succ_def)
qed

lemma add_after_apply:
  assumes "graph_ok g" "part_ok g b e {x}"
  shows "pn_succ (add_after b e x g n) =
      (if n = e then pn_succ (g x) else if n = x then put_key b [] else pn_succ (g n))"
    and "pn_pred (add_after b e x g n) =
      (if n = b then put_key x (pn_pred (g n))
       else if n \<in> set (pn_succ (g x)) then put_key e (erase_key x (pn_pred (g n))) else pn_pred (g n))"
proof -
  have c: "consistent g" "keys_ok g" using assms(1) by (simp_all add: graph_ok_def)
  have d: "distinct (pn_succ (g x))" using c(2) by (auto simp: keys_ok_def)
  note f = part_ok_facts [OF assms(2), of x, simplified]
  have n: "b \<notin> set (pn_succ (g x))"
    using assms(2) no_pred [OF c(1)] by (simp add: part_ok_def)
  have w: "x \<notin> set (pn_succ (g x))" using succs_after [OF assms(1), of x x] by auto
  show "pn_succ (add_after b e x g n) =
      (if n = e then pn_succ (g x) else if n = x then put_key b [] else pn_succ (g n))"
    "pn_pred (add_after b e x g n) =
      (if n = b then put_key x (pn_pred (g n))
       else if n \<in> set (pn_succ (g x)) then put_key e (erase_key x (pn_pred (g n))) else pn_pred (g n))"
    using f n d w
    by (auto simp: add_after_def Let_def upd_all_apply upd_apply add_succ_def add_pred_def del_pred_def)
qed

lemma add_between_apply:
  assumes "part_ok g b e {af, be}" "af \<noteq> be" "be \<notin> set (pn_succ (g af))"
  shows "pn_succ (add_between b e af be g n) =
      (if n = e then put_key be (pn_succ (g n)) else if n = af then put_key b (pn_succ (g n))
       else pn_succ (g n))"
    and "pn_pred (add_between b e af be g n) =
      (if n = b then put_key af (pn_pred (g n)) else if n = be then put_key e (pn_pred (g n))
       else pn_pred (g n))"
proof -
  note f = part_ok_facts [OF assms(1), of af, simplified] part_ok_facts [OF assms(1), of be, simplified]
  show "pn_succ (add_between b e af be g n) =
      (if n = e then put_key be (pn_succ (g n)) else if n = af then put_key b (pn_succ (g n))
       else pn_succ (g n))"
    "pn_pred (add_between b e af be g n) =
      (if n = b then put_key af (pn_pred (g n)) else if n = be then put_key e (pn_pred (g n))
       else pn_pred (g n))"
    using f assms(2,3)
    by (auto simp: add_between_def Let_def upd_apply add_succ_def add_pred_def)
qed

lemma graph_okI:
  assumes "\<And>a b. b \<in> set (pn_succ (g a)) \<longleftrightarrow> a \<in> set (pn_pred (g b))"
    and "\<And>n. sorted (pn_succ (g n)) \<and> distinct (pn_succ (g n)) \<and>
      sorted (pn_pred (g n)) \<and> distinct (pn_pred (g n))"
    and "edges g \<subseteq> E" "finite E" "acyclic E"
  shows "graph_ok g"
  using assms acyclic_subset finite_subset by (auto simp: graph_ok_def consistent_def keys_ok_def)

lemma add_with_ok:
  assumes "graph_ok g" "part_ok g b e {w}"
  shows "graph_ok (add_with b e w g)"
proof -
  let ?P = "set (pn_pred (g w))" and ?S = "set (pn_succ (g w))"
  have c: "consistent g" "keys_ok g" "finite (edges g)" "acyclic (edges g)"
    using assms(1) by (simp_all add: graph_ok_def)
  have p: "pn_pred (g b) = []" "pn_succ (g e) = []" using assms(2) by (simp_all add: part_ok_def)
  show ?thesis
  proof (rule graph_okI)
    show "edges (add_with b e w g) \<subseteq> edges g \<union> ?P \<times> {b} \<union> {e} \<times> ?S"
      by (auto simp: add_with_apply [OF assms] Let_def split: if_splits)
    show "acyclic (edges g \<union> ?P \<times> {b} \<union> {e} \<times> ?S)"
      using c(4) part_preds [OF assms] part_succs [OF assms] around_no_cycle [OF assms(1)]
      by (intro acyclic_bridge) auto
    show "y \<in> set (pn_succ (add_with b e w g x)) \<longleftrightarrow> x \<in> set (pn_pred (add_with b e w g y))" for x y
      using no_pred [OF c(1) p(1)] no_succ [OF c(1) p(2)] c(1) p
      by (auto simp: add_with_apply [OF assms] Let_def consistent_def)
  qed (use c(2,3) in \<open>auto simp: add_with_apply [OF assms] Let_def keys_ok_def put_key_ok\<close>)
qed

lemma add_before_ok:
  assumes "graph_ok g" "part_ok g b e {x}"
  shows "graph_ok (add_before b e x g)"
proof -
  let ?P = "set (pn_pred (g x))"
  have c: "consistent g" "keys_ok g" "finite (edges g)" "acyclic (edges g)"
    using assms(1) by (simp_all add: graph_ok_def)
  have p: "pn_pred (g b) = []" "pn_succ (g e) = []" using assms(2) by (simp_all add: part_ok_def)
  note f = part_ok_facts [OF assms(2), of x, simplified]
  show ?thesis
  proof (rule graph_okI)
    show "edges (add_before b e x g) \<subseteq> edges g \<union> ?P \<times> {b} \<union> {e} \<times> {x}"
      by (auto simp: add_before_apply [OF assms] p split: if_splits)
    have "(x, p) \<notin> (edges g)\<^sup>*" if "p \<in> ?P" for p
      using preds_before(1) [OF assms(1) that] c(4)
      by (meson acyclic_def rtrancl_into_trancl1)
    then show "acyclic (edges g \<union> ?P \<times> {b} \<union> {e} \<times> {x})"
      using c(4) part_preds [OF assms] f by (intro acyclic_bridge) auto
    show "y \<in> set (pn_succ (add_before b e x g z)) \<longleftrightarrow> z \<in> set (pn_pred (add_before b e x g y))" for z y
      using no_pred [OF c(1) p(1)] no_succ [OF c(1) p(2)] c(1) p f
      by (auto simp: add_before_apply [OF assms] consistent_def)
  qed (use c(2,3) in \<open>auto simp: add_before_apply [OF assms] keys_ok_def put_key_ok erase_key_ok\<close>)
qed

lemma add_after_ok:
  assumes "graph_ok g" "part_ok g b e {x}"
  shows "graph_ok (add_after b e x g)"
proof -
  let ?S = "set (pn_succ (g x))"
  have c: "consistent g" "keys_ok g" "finite (edges g)" "acyclic (edges g)"
    using assms(1) by (simp_all add: graph_ok_def)
  have p: "pn_pred (g b) = []" "pn_succ (g e) = []" using assms(2) by (simp_all add: part_ok_def)
  note f = part_ok_facts [OF assms(2), of x, simplified]
  show ?thesis
  proof (rule graph_okI)
    show "edges (add_after b e x g) \<subseteq> edges g \<union> {x} \<times> {b} \<union> {e} \<times> ?S"
      by (auto simp: add_after_apply [OF assms] p split: if_splits)
    have "(s, x) \<notin> (edges g)\<^sup>*" if "s \<in> ?S" for s
      using succs_after(1) [OF assms(1) that] c(4)
      by (meson acyclic_def rtrancl_into_trancl2)
    then show "acyclic (edges g \<union> {x} \<times> {b} \<union> {e} \<times> ?S)"
      using c(4) part_succs [OF assms] f by (intro acyclic_bridge) auto
    show "y \<in> set (pn_succ (add_after b e x g z)) \<longleftrightarrow> z \<in> set (pn_pred (add_after b e x g y))" for z y
      using no_pred [OF c(1) p(1)] no_succ [OF c(1) p(2)] c(1) p f
      by (auto simp: add_after_apply [OF assms] consistent_def)
  qed (use c(2,3) in \<open>auto simp: add_after_apply [OF assms] keys_ok_def put_key_ok erase_key_ok\<close>)
qed

lemma add_between_ok:
  assumes "graph_ok g" "part_ok g b e {af, be}" "(af, be) \<in> (edges g)\<^sup>+" "be \<notin> set (pn_succ (g af))"
  shows "graph_ok (add_between b e af be g)"
proof -
  have c: "consistent g" "keys_ok g" "finite (edges g)" "acyclic (edges g)"
    using assms(1) by (simp_all add: graph_ok_def)
  have ne: "af \<noteq> be" using assms(3) c(4) by (auto simp: acyclic_def)
  have p: "pn_pred (g b) = []" "pn_succ (g e) = []" using assms(2) by (simp_all add: part_ok_def)
  note f = part_ok_facts [OF assms(2), of af, simplified] part_ok_facts [OF assms(2), of be, simplified]
  note ap = add_between_apply [OF assms(2) ne assms(4)]
  show ?thesis
  proof (rule graph_okI)
    show "edges (add_between b e af be g) \<subseteq> edges g \<union> {af} \<times> {b} \<union> {e} \<times> {be}"
      by (auto simp: ap p split: if_splits)
    have "(be, af) \<notin> (edges g)\<^sup>*"
      using assms(3) c(4) by (meson acyclic_def rtrancl_trancl_trancl)
    then show "acyclic (edges g \<union> {af} \<times> {b} \<union> {e} \<times> {be})"
      using c(4) f by (intro acyclic_bridge) auto
    show "y \<in> set (pn_succ (add_between b e af be g z)) \<longleftrightarrow> z \<in> set (pn_pred (add_between b e af be g y))" for z y
      using no_pred [OF c(1) p(1)] no_succ [OF c(1) p(2)] c(1) p f ne
      by (auto simp: ap consistent_def)
  qed (use c(2,3) in \<open>auto simp: ap keys_ok_def put_key_ok\<close>)
qed

section \<open>Examples\<close>

text \<open>A schedule \<open>0\<close> with its end \<open>1\<close> and the imp \<open>2\<close>; then the phase \<open>3\<close> for the imp is added.\<close>

definition small_schedule :: graph where
  "small_schedule = new_phase 2 0 ''main'' UVM_PHASE_IMP None (new_phase 0 1 ''s'' UVM_PHASE_SCHEDULE None empty_graph)"

lemma small_edges: "edges small_schedule = {(0, 1)}"
  by (auto simp: small_schedule_def new_phase_def fresh_node_def empty_graph_def split: if_splits)

lemma small_ok: "graph_ok small_schedule"
proof -
  have "acyclic {(0::nat, 1::nat)}" by (rule acyclicI) (auto dest: tranclD tranclD2)
  moreover have "consistent small_schedule" "keys_ok small_schedule"
    by (auto simp: small_schedule_def new_phase_def fresh_node_def empty_graph_def consistent_def keys_ok_def)
  ultimately show ?thesis by (simp add: graph_ok_def small_edges)
qed


section \<open>The searches are reachability\<close>

definition along :: "(phase_node \<Rightarrow> nat list) \<Rightarrow> graph \<Rightarrow> (nat \<times> nat) set" where
  "along nb g = {(a, b). b \<in> set (nb (g a))}"

lemma in_along [simp]: "(a, b) \<in> along nb g \<longleftrightarrow> b \<in> set (nb (g a))"
  by (simp add: along_def)

lemma along_succ: "along pn_succ g = edges g"
  by auto

lemma along_pred: "consistent g \<Longrightarrow> along pn_pred g = (edges g)\<inverse>"
  by (auto simp: consistent_def)

lemma first_found_Some: "first_found f xs = Some (Some r) \<Longrightarrow> \<exists>x \<in> set xs. f x = Some (Some r)"
  by (induction xs) (auto split: option.splits)

lemma first_found_none: "first_found f xs = Some None \<Longrightarrow> x \<in> set xs \<Longrightarrow> f x = Some None"
  by (induction xs) (auto split: option.splits)

lemma first_found_total: "\<forall>x \<in> set xs. f x \<noteq> None \<Longrightarrow> first_found f xs \<noteq> None"
  by (induction xs) (auto split: option.splits)

lemma find_along_sound:
  "find_along d nb hit stay orig g n = Some (Some m) \<Longrightarrow> hit m \<and> (n, m) \<in> (along nb g)\<^sup>*"
proof (induction d arbitrary: n)
  case (Suc d)
  show ?case
  proof (cases "hit n")
    case False
    with Suc.prems obtain x where x: "x \<in> set (nb (g n))" "find_along d nb hit stay orig g x = Some (Some m)"
      by (auto dest!: first_found_Some)
    from Suc.IH [OF x(2)] x(1) show ?thesis by (auto intro: converse_rtrancl_into_rtrancl)
  qed (use Suc.prems in simp)
qed simp

lemma find_along_none:
  "find_along d nb hit False orig g n = Some None \<Longrightarrow> (n, m) \<in> (along nb g)\<^sup>* \<Longrightarrow> \<not> hit m"
proof (induction d arbitrary: n)
  case (Suc d)
  have h: "\<not> hit n" "first_found (find_along d nb hit False orig g) (nb (g n)) = Some None"
    using Suc.prems(1) by (auto simp: in_scope_def split: if_splits)
  from Suc.prems(2) show ?case
  proof (cases rule: converse_rtranclE)
    case base
    then show ?thesis using h(1) by simp
  next
    case (step y)
    have "find_along d nb hit False orig g y = Some None"
      using first_found_none [OF h(2)] step(1) by simp
    then show ?thesis using Suc.IH step(2) by blast
  qed
qed simp

text \<open>The depth needed is bounded by the number of phases that can be reached.\<close>

lemma find_along_returns:
  assumes "finite (along nb g)" "acyclic (along nb g)"
  shows "card ((along nb g)\<^sup>+ `` {n}) < d \<Longrightarrow> find_along d nb hit stay orig g n \<noteq> None"
proof (induction d arbitrary: n)
  case (Suc d)
  have "find_along d nb hit stay orig g x \<noteq> None" if "x \<in> set (nb (g n))" for x
    using below_smaller [OF assms, of n x] that Suc by simp
  then have "first_found (find_along d nb hit stay orig g)
      (filter (in_scope (Suc d) stay orig g) (nb (g n))) \<noteq> None"
    by (intro first_found_total) auto
  then show ?case by (simp del: not_None_eq)
qed simp

lemma find_along_iff:
  assumes "finite (along nb g)" "acyclic (along nb g)" "card ((along nb g)\<^sup>+ `` {n}) < d"
  shows "(\<exists>r. find_along d nb hit False orig g n = Some (Some r)) \<longleftrightarrow> (\<exists>m. (n, m) \<in> (along nb g)\<^sup>* \<and> hit m)"
    and "\<exists>r. find_along d nb hit False orig g n = Some r"
proof -
  have t: "find_along d nb hit False orig g n \<noteq> None" by (rule find_along_returns [OF assms])
  then show "\<exists>r. find_along d nb hit False orig g n = Some r" by auto
  show "(\<exists>r. find_along d nb hit False orig g n = Some (Some r)) \<longleftrightarrow> (\<exists>m. (n, m) \<in> (along nb g)\<^sup>* \<and> hit m)"
  proof
    assume "\<exists>m. (n, m) \<in> (along nb g)\<^sup>* \<and> hit m"
    then have "find_along d nb hit False orig g n \<noteq> Some None" using find_along_none by blast
    with t show "\<exists>r. find_along d nb hit False orig g n = Some (Some r)" by auto
  qed (auto dest: find_along_sound)
qed

lemma hits_phase_is [simp]: "hits g p = (\<lambda>n. phase_is g n p)"
  by (auto simp: hits_def phase_is_def)

lemma map_option_some_iff:
  assumes "\<exists>r. x = Some r" "(\<exists>r. x = Some (Some r)) \<longleftrightarrow> P"
  shows "map_option (\<lambda>r. r \<noteq> None) x = Some P"
  using assms by auto

lemma order_exact:
  assumes "graph_ok g"
  shows "card ((edges g)\<^sup>+ `` {n}) < d \<Longrightarrow> is_before d g n p =
      Some (\<not> phase_is g n p \<and> (\<exists>m. (n, m) \<in> (edges g)\<^sup>+ \<and> phase_is g m p))"
    and "card (((edges g)\<inverse>)\<^sup>+ `` {n}) < d \<Longrightarrow> is_after d g n p =
      Some (\<not> phase_is g n p \<and> (\<exists>m. (m, n) \<in> (edges g)\<^sup>+ \<and> phase_is g m p))"
proof -
  have r: "finite (edges g)" "acyclic (edges g)" and c: "consistent g"
    using assms by (simp_all add: graph_ok_def)
  note s = along_succ [of g] and q = along_pred [OF c]
  have star: "(\<exists>m. (n, m) \<in> R\<^sup>* \<and> phase_is g m p) \<longleftrightarrow> (\<exists>m. (n, m) \<in> R\<^sup>+ \<and> phase_is g m p)"
    if "\<not> phase_is g n p" for R :: "(nat \<times> nat) set"
    using that by (auto simp: rtrancl_eq_or_trancl)
  show "is_before d g n p = Some (\<not> phase_is g n p \<and> (\<exists>m. (n, m) \<in> (edges g)\<^sup>+ \<and> phase_is g m p))"
    if d: "card ((edges g)\<^sup>+ `` {n}) < d"
  proof (cases "phase_is g n p")
    case False
    note i = find_along_iff [of pn_succ g n d "\<lambda>m. phase_is g m p" n, unfolded s, OF r d]
    show ?thesis
      using False map_option_some_iff [OF i(2) i(1)] unfolding is_before_def m_find_successor_def hits_phase_is
      by (simp only: if_False star simp_thms)
  qed (simp add: is_before_def)
  show "is_after d g n p = Some (\<not> phase_is g n p \<and> (\<exists>m. (m, n) \<in> (edges g)\<^sup>+ \<and> phase_is g m p))"
    if d: "card (((edges g)\<inverse>)\<^sup>+ `` {n}) < d"
  proof (cases "phase_is g n p")
    case False
    have r': "finite ((edges g)\<inverse>)" "acyclic ((edges g)\<inverse>)" using r by (simp_all add: acyclic_converse)
    note i = find_along_iff [of pn_pred g n d "\<lambda>m. phase_is g m p" n, unfolded q, OF r' d]
    show ?thesis
      using False map_option_some_iff [OF i(2) i(1)] unfolding is_after_def m_find_predecessor_def hits_phase_is
      by (simp only: if_False star simp_thms trancl_converse converse_iff)
  qed (simp add: is_after_def)
qed

section \<open>Adding keeps the graph consistent and acyclic\<close>

lemma is_before_sound:
  assumes "is_before d g n p = Some True" "\<forall>m. pn_imp (g m) \<noteq> Some p"
  shows "(n, p) \<in> (edges g)\<^sup>+"
proof -
  from assms(1) have n: "\<not> phase_is g n p"
    by (auto simp: is_before_def split: if_splits)
  with assms(1) obtain r where "m_find_successor d p False n g n = Some (Some r)"
    by (auto simp: is_before_def)
  then have "phase_is g r p" "(n, r) \<in> (edges g)\<^sup>*"
    unfolding m_find_successor_def along_succ [symmetric] by (auto dest: find_along_sound)
  with n assms(2) show ?thesis by (auto simp: phase_is_def rtrancl_eq_or_trancl)
qed

text \<open>
  The phases to which \<open>add\<close> may connect the new one; what is added is a new node (for an imp) or a
  part that is not connected to any of them. The case in which the two given positions are direct
  neighbours is excluded: there the graph becomes inconsistent.
\<close>

definition positions :: "graph \<Rightarrow> nat \<Rightarrow> nat option \<Rightarrow> nat option \<Rightarrow> nat option \<Rightarrow> nat set" where
  "positions g this w a b = insert this (set_option (pn_end (g this)) \<union> set_option w \<union> set_option a \<union> set_option b)"

definition addable :: "graph \<Rightarrow> nat \<Rightarrow> nat \<Rightarrow> nat set \<Rightarrow> bool" where
  "addable g phase new xs \<longleftrightarrow>
     (if pn_type (g phase) = UVM_PHASE_IMP
      then pn_pred (g new) = [] \<and> pn_succ (g new) = [] \<and> new \<notin> xs \<and> (\<forall>m. pn_imp (g m) \<noteq> Some new)
      else \<exists>e. pn_end (g phase) = Some e \<and> part_ok g phase e xs)"

lemma graph_ok_cong:
  assumes "\<And>n. pn_succ (g' n) = pn_succ (g n)" "\<And>n. pn_pred (g' n) = pn_pred (g n)"
  shows "graph_ok g' \<longleftrightarrow> graph_ok g" "edges g' = edges g" "part_ok g' b e xs \<longleftrightarrow> part_ok g b e xs"
proof -
  show e: "edges g' = edges g" by (auto simp: assms)
  show "graph_ok g' \<longleftrightarrow> graph_ok g" by (simp only: graph_ok_def consistent_def keys_ok_def e assms)
  show "part_ok g' b e xs \<longleftrightarrow> part_ok g b e xs" by (simp only: part_ok_def e assms)
qed

lemma isolated_only:
  assumes "consistent g" "pn_pred (g n) = []" "pn_succ (g n) = []"
  shows "(n, y) \<in> (edges g)\<^sup>* \<longleftrightarrow> y = n" "(y, n) \<in> (edges g)\<^sup>* \<longleftrightarrow> y = n"
proof -
  have e: "(n, y) \<notin> edges g" "(y, n) \<notin> edges g" for y using assms by (simp_all add: consistent_def)
  show "(n, y) \<in> (edges g)\<^sup>* \<longleftrightarrow> y = n" using e(1) by (auto elim: converse_rtranclE simp del: in_edges)
  show "(y, n) \<in> (edges g)\<^sup>* \<longleftrightarrow> y = n" using e(2) by (auto elim: rtranclE simp del: in_edges)
qed

lemma part_ok_mono: "part_ok g b e xs \<Longrightarrow> ys \<subseteq> xs \<Longrightarrow> part_ok g b e ys"
  by (auto simp: part_ok_def)

lemma add_target_edges:
  assumes "addable g phase new xs"
  shows "pn_succ (add_target this phase new g n) = pn_succ (g n)"
    and "pn_pred (add_target this phase new g n) = pn_pred (g n)"
  using assms by (auto simp: addable_def add_target_def upd_apply fresh_node_def split: if_splits)

lemma addable_part:
  assumes "graph_ok g" "addable g phase new xs" "add_ends phase new g = (b, Some e)"
  shows "part_ok (add_target this phase new g) b e xs"
proof -
  have c: "consistent g" using assms(1) by (simp add: graph_ok_def)
  have "part_ok g b e xs"
    using assms(2,3) isolated_only [OF c]
    by (auto simp: addable_def add_ends_def part_ok_def split: if_splits)
  then show ?thesis
    using graph_ok_cong(3) [of "add_target this phase new g" g b e xs] add_target_edges [OF assms(2)] by blast
qed

lemma add_connect_cases:
  assumes "add_connect d bn e w a b g1 = Some g'"
  shows "(\<exists>x. w = Some x \<and> g' = add_with bn e x g1) \<or>
    w = None \<and> ((\<exists>x. b = Some x \<and> g' = add_before bn e x g1) \<or>
      (\<exists>x. a = Some x \<and> g' = add_after bn e x g1) \<or>
      (\<exists>x y. a = Some x \<and> b = Some y \<and> is_before d g1 x y = Some True \<and> g' = add_between bn e x y g1) \<or>
      g' = g1)"
  using assms by (cases "(d, bn, e, w, a, b, g1)" rule: add_connect.cases) (auto split: if_splits)

lemma phase_add_connects:
  assumes "phase_add d this phase w a b new g = Some g'"
  obtains bn e where "add_ends phase new g = (bn, Some e)"
    and "add_connect d bn e w (if w = Some this then Some this else a)
      (if w = Some this then pn_end (g this)
       else if w = None \<and> a = None \<and> b = None then pn_end (g this) else b) (add_target this phase new g) = Some g'"
proof -
  obtain bn eo where e: "add_ends phase new g = (bn, eo)" by fastforce
  with assms obtain en where "eo = Some en"
    by (cases eo) (simp_all add: phase_add_def Let_def split: if_splits)
  with e assms show ?thesis
    by (intro that [of bn en]) (auto simp: phase_add_def Let_def split: if_splits)
qed

text \<open>C14. \<open>add\<close> of an addable phase (a new node for a predefined phase, or a part not connected to
  the positions) keeps the graph of phases consistent, sorted and acyclic. When both positions,
  after and before, are given, they must not be direct neighbours, where the graph becomes
  inconsistent (lemma \<open>add_between_inconsistent\<close>), and the second must not be a predefined
  phase.\<close>

theorem phase_add_keeps_graph:
  assumes g: "graph_ok g" and add: "phase_add d this phase w a b new g = Some g'"
    and ok: "addable g phase new (positions g this w a b)"
    and between: "\<forall>x y. a = Some x \<and> b = Some y \<longrightarrow> y \<notin> set (pn_succ (g x)) \<and>
      pn_type (g y) \<noteq> UVM_PHASE_IMP \<and> (\<forall>m. pn_imp (g m) \<noteq> Some y)"
  shows "graph_ok g'"
proof -
  let ?g1 = "add_target this phase new g" and ?X = "positions g this w a b"
  from phase_add_connects [OF add] obtain bn e where e: "add_ends phase new g = (bn, Some e)"
    and c: "add_connect d bn e w (if w = Some this then Some this else a)
      (if w = Some this then pn_end (g this)
       else if w = None \<and> a = None \<and> b = None then pn_end (g this) else b) ?g1 = Some g'" by blast
  note ed = add_target_edges [OF ok, of this]
  have g1: "graph_ok ?g1" "edges ?g1 = edges g" using graph_ok_cong(1,2) [of ?g1 g] ed g by simp_all
  have p: "part_ok ?g1 bn e ys" if "ys \<subseteq> ?X" for ys
    using addable_part [OF g ok e] that by (rule part_ok_mono)
  from add_connect_cases [OF c] show ?thesis
  proof (elim disjE exE conjE)
    fix x y
    assume xy: "w = None" "(if w = Some this then Some this else a) = Some x"
      "(if w = Some this then pn_end (g this)
        else if w = None \<and> a = None \<and> b = None then pn_end (g this) else b) = Some y"
      "is_before d ?g1 x y = Some True" "g' = add_between bn e x y ?g1"
    then have ab: "a = Some x" "b = Some y" by (auto split: if_splits)
    have "pn_imp (?g1 m) \<noteq> Some y" for m
      using between ab by (auto simp: add_target_def upd_apply)
    then have "(x, y) \<in> (edges ?g1)\<^sup>+" using is_before_sound [OF xy(4)] by simp
    then show ?thesis
      unfolding xy(5) using between ab ed
      by (intro add_between_ok [OF g1(1) p]) (auto simp: positions_def)
  qed (use g1(1) add_with_ok [OF g1(1) p] add_before_ok [OF g1(1) p] add_after_ok [OF g1(1) p]
    in \<open>auto simp: positions_def split: if_splits\<close>)
qed

lemma small_add: "phase_add 9 0 2 None None None 3 small_schedule =
    Some (add_before 3 3 1 (add_target 0 2 3 small_schedule))"
  by (simp add: phase_add_def add_refused_def bad_position_def add_ends_def small_schedule_def
      new_phase_def fresh_node_def)

lemma small_addable: "xs \<subseteq> {0, 1} \<Longrightarrow> addable small_schedule 2 3 xs"
  by (auto simp: addable_def small_schedule_def new_phase_def fresh_node_def empty_graph_def)

theorem phase_add_keeps_graph_witness:
  "\<exists>g'. phase_add 9 0 2 None None None 3 small_schedule = Some g' \<and> graph_ok g'"
proof (intro exI conjI)
  have "pn_end (small_schedule 0) = Some 1"
    by (simp add: small_schedule_def new_phase_def fresh_node_def)
  then show "graph_ok (add_before 3 3 1 (add_target 0 2 3 small_schedule))"
    by (intro phase_add_keeps_graph [OF small_ok small_add])
      (auto intro!: small_addable simp: positions_def)
qed (rule small_add)

section \<open>The order after adding\<close>

lemma insert_before_edges:
  assumes "graph_ok g" "part_ok g n n {x}"
  shows "(u, v) \<in> edges (add_before n n x g) \<longleftrightarrow>
    (if u = n then v = x else if v = n then (u, x) \<in> edges g else (u, v) \<in> edges g \<and> v \<noteq> x)"
proof -
  have c: "consistent g" using assms(1) by (simp add: graph_ok_def)
  have e: "pn_pred (g n) = []" "pn_succ (g n) = []" using assms(2) by (simp_all add: part_ok_def)
  have "n \<notin> set (pn_succ (g u))" using no_pred [OF c e(1)] .
  moreover have "u \<in> set (pn_pred (g x)) \<longleftrightarrow> x \<in> set (pn_succ (g u))" using c by (simp add: consistent_def)
  ultimately show ?thesis using e by (auto simp: add_before_apply(1) [OF assms])
qed

lemma insert_before_order:
  assumes "\<And>u v. (u, v) \<in> E' \<longleftrightarrow>
      (if u = n then v = x else if v = n then (u, x) \<in> E else (u, v) \<in> E \<and> v \<noteq> x)"
    and "x \<noteq> n" "\<And>u. (u, n) \<notin> E" "\<And>u. (n, u) \<notin> E"
  shows "u \<noteq> n \<Longrightarrow> (u, v) \<in> E'\<^sup>+ \<longleftrightarrow> (if v = n then (u, x) \<in> E\<^sup>+ else (u, v) \<in> E\<^sup>+)"
    and "(n, v) \<in> E'\<^sup>+ \<longleftrightarrow> v \<noteq> n \<and> (x, v) \<in> E\<^sup>* \<or> v = n \<and> (x, x) \<in> E\<^sup>+"
proof -
  have fwd: "(u, y) \<in> E'\<^sup>+ \<Longrightarrow> u \<noteq> n \<Longrightarrow> (if y = n then (u, x) \<in> E\<^sup>+ else (u, y) \<in> E\<^sup>+)" for u y
  proof (induction rule: trancl_induct)
    case (base y)
    then show ?case using assms(1) by (auto split: if_splits)
  next
    case (step y z)
    then show ?case
      using assms(1) [of y z] assms(2) by (auto split: if_splits intro: trancl_into_trancl)
  qed
  have sub: "E \<subseteq> E'\<^sup>+"
  proof (rule subrelI)
    fix a b assume ab: "(a, b) \<in> E"
    with assms(3,4) have "a \<noteq> n" "b \<noteq> n" by auto
    with ab have "b \<noteq> x \<Longrightarrow> (a, b) \<in> E'" "b = x \<Longrightarrow> (a, n) \<in> E'" using assms(1) by auto
    moreover have "(n, x) \<in> E'" using assms(1) by auto
    ultimately show "(a, b) \<in> E'\<^sup>+" by (cases "b = x") (auto intro: trancl_into_trancl)
  qed
  have "(a, b) \<in> E\<^sup>+ \<Longrightarrow> (a, b) \<in> E'\<^sup>+" for a b
    by (induction rule: trancl_induct) (use sub in \<open>auto intro: trancl_trans\<close>)
  then have up: "E\<^sup>+ \<subseteq> E'\<^sup>+" by auto
  have fromn: "(u, n) \<in> E'\<^sup>+" if "(u, x) \<in> E\<^sup>+" for u
  proof -
    from that obtain y where y: "(u, y) \<in> E\<^sup>*" "(y, x) \<in> E" by (meson tranclD2)
    then have "(y, n) \<in> E'" using assms(1,4) by auto
    with y(1) up show ?thesis by (auto simp: rtrancl_eq_or_trancl intro: trancl_into_trancl)
  qed
  show 1: "u \<noteq> n \<Longrightarrow> (u, v) \<in> E'\<^sup>+ \<longleftrightarrow> (if v = n then (u, x) \<in> E\<^sup>+ else (u, v) \<in> E\<^sup>+)" for u v
    using fwd [of u v] up fromn by auto
  have "(n, v) \<in> E'\<^sup>+ \<longleftrightarrow> (x, v) \<in> E'\<^sup>*"
  proof
    assume "(n, v) \<in> E'\<^sup>+"
    then obtain y where "(n, y) \<in> E'" "(y, v) \<in> E'\<^sup>*" by (meson tranclD)
    then show "(x, v) \<in> E'\<^sup>*" using assms(1) by auto
  qed (use assms(1) in \<open>auto intro: rtrancl_into_trancl2\<close>)
  then show "(n, v) \<in> E'\<^sup>+ \<longleftrightarrow> v \<noteq> n \<and> (x, v) \<in> E\<^sup>* \<or> v = n \<and> (x, x) \<in> E\<^sup>+"
    using 1 [of x v] assms(2) by (auto simp: rtrancl_eq_or_trancl)
qed

text \<open>C29. A phase added at the end, or before another one, follows exactly the phases before that
  position and precedes exactly those from it on; the order of the other phases does not change.\<close>

theorem added_before_position:
  assumes g: "graph_ok g" and add: "phase_add d this phase None None b new g = Some g'"
    and imp: "pn_type (g phase) = UVM_PHASE_IMP"
    and x: "(case b of None \<Rightarrow> pn_end (g this) | Some y \<Rightarrow> Some y) = Some x"
    and ok: "addable g phase new {x}"
  shows "\<forall>u v. u \<noteq> new \<and> v \<noteq> new \<longrightarrow>
      ((u, v) \<in> (edges g')\<^sup>+ \<longleftrightarrow> (u, v) \<in> (edges g)\<^sup>+) \<and>
      ((u, new) \<in> (edges g')\<^sup>+ \<longleftrightarrow> (u, x) \<in> (edges g)\<^sup>+) \<and>
      ((new, v) \<in> (edges g')\<^sup>+ \<longleftrightarrow> (x, v) \<in> (edges g)\<^sup>*)"
proof -
  let ?g1 = "add_target this phase new g"
  have e: "add_ends phase new g = (new, Some new)" using imp by (simp add: add_ends_def)
  have g': "g' = add_before new new x ?g1"
    using phase_add_connects [OF add] e x by (force split: option.splits if_splits)
  have ed: "edges ?g1 = edges g" "graph_ok ?g1"
    using graph_ok_cong(1,2) [of ?g1 g] add_target_edges [OF ok, of this] g by simp_all
  have p: "part_ok ?g1 new new {x}" by (rule addable_part [OF g ok e])
  have n: "x \<noteq> new" "pn_pred (g new) = []" "pn_succ (g new) = []"
    using ok imp by (auto simp: addable_def)
  then have i: "(u, new) \<notin> edges g" "(new, u) \<notin> edges g" for u
    using g by (auto simp: graph_ok_def consistent_def)
  note o = insert_before_order [OF insert_before_edges [OF ed(2) p], unfolded ed(1), OF n(1) i]
  show ?thesis unfolding g' using o by simp
qed

theorem added_before_position_witness:
  "\<exists>g'. phase_add 9 0 2 None None None 3 small_schedule = Some g' \<and>
    (0, 3) \<in> (edges g')\<^sup>+ \<and> (3, 1) \<in> (edges g')\<^sup>+ \<and> (1, 3) \<notin> (edges g')\<^sup>+"
proof -
  let ?g = "add_before 3 3 1 (add_target 0 2 3 small_schedule)"
  have c: "pn_type (small_schedule 2) = UVM_PHASE_IMP"
    "(case None of None \<Rightarrow> pn_end (small_schedule 0) | Some y \<Rightarrow> Some y) = Some 1"
    by (simp_all add: small_schedule_def new_phase_def fresh_node_def)
  have "\<forall>u v. u \<noteq> 3 \<and> v \<noteq> 3 \<longrightarrow>
      ((u, v) \<in> (edges ?g)\<^sup>+ \<longleftrightarrow> (u, v) \<in> (edges small_schedule)\<^sup>+) \<and>
      ((u, 3) \<in> (edges ?g)\<^sup>+ \<longleftrightarrow> (u, 1) \<in> (edges small_schedule)\<^sup>+) \<and>
      ((3, v) \<in> (edges ?g)\<^sup>+ \<longleftrightarrow> (1, v) \<in> (edges small_schedule)\<^sup>*)"
    by (rule added_before_position [OF small_ok small_add c small_addable]) simp
  note h = this [rule_format, of 0 1] this [rule_format, of 1 1]
  have "(0, 1) \<in> (edges small_schedule)\<^sup>+" "(1, 1) \<notin> (edges small_schedule)\<^sup>+"
    using small_ok by (auto simp: small_edges graph_ok_def acyclic_def simp del: in_edges)
  then show ?thesis using h small_add by auto
qed

section \<open>Siblings are found on every acyclic graph\<close>

definition inner :: "(phase_node \<Rightarrow> nat list) \<Rightarrow> graph \<Rightarrow> (nat \<times> nat) set" where
  "inner nb g = {(a, b). pn_type (g a) \<noteq> UVM_PHASE_NODE \<and> b \<in> set (nb (g a))}"

definition nodes_from :: "(phase_node \<Rightarrow> nat list) \<Rightarrow> graph \<Rightarrow> nat set \<Rightarrow> nat set" where
  "nodes_from nb g S = {m \<in> (inner nb g)\<^sup>* `` S. pn_type (g m) = UVM_PHASE_NODE}"

lemma nodes_from_Un: "nodes_from nb g (S \<union> T) = nodes_from nb g S \<union> nodes_from nb g T"
  by (auto simp: nodes_from_def)

lemma nodes_from_UN: "nodes_from nb g (\<Union>x \<in> S. F x) = (\<Union>x \<in> S. nodes_from nb g (F x))"
  by (auto simp: nodes_from_def)

lemma nodes_from_node: "\<forall>x \<in> S. pn_type (g x) = UVM_PHASE_NODE \<Longrightarrow> nodes_from nb g S = S"
  by (auto simp: nodes_from_def inner_def elim: converse_rtranclE)

lemma nodes_from_inner:
  "pn_type (g n) \<noteq> UVM_PHASE_NODE \<Longrightarrow> nodes_from nb g {n} = nodes_from nb g (set (nb (g n)))"
  by (auto simp: nodes_from_def inner_def elim: converse_rtranclE intro: converse_rtrancl_into_rtrancl)

lemma step_decreases:
  assumes "distinct xs" "distinct zs" "n \<in> set xs" "set zs \<subseteq> set xs - {n} \<union> set (nb (g n))"
  shows "(mset zs, mset xs) \<in> mult ((along nb g)\<inverse>)"
proof -
  let ?I = "mset_set (set zs \<inter> (set xs - {n}))" and ?K = "mset_set (set zs - (set xs - {n}))"
  let ?J = "mset_set (set xs - (set zs \<inter> (set xs - {n})))"
  have split: "distinct ws \<Longrightarrow> A \<subseteq> set ws \<Longrightarrow> mset ws = mset_set A + mset_set (set ws - A)" for ws A
    by (metis List.finite_set finite_Diff finite_subset mset_set_set mset_set_Union Diff_disjoint
        Diff_partition)
  have "set zs - set zs \<inter> (set xs - {n}) = set zs - (set xs - {n})" by auto
  then have z: "mset zs = ?I + ?K"
    using split [OF assms(2), of "set zs \<inter> (set xs - {n})"] by simp
  have x: "mset xs = ?I + ?J"
    using split [OF assms(1), of "set zs \<inter> (set xs - {n})"] by auto
  have "n \<in># ?J" using assms(3) by auto
  moreover have "\<forall>k \<in># ?K. (k, n) \<in> (along nb g)\<inverse>" using assms(4) by auto
  moreover from \<open>n \<in># ?J\<close> have "?J \<noteq> {#}" by (metis empty_iff set_mset_empty)
  ultimately show ?thesis unfolding z x by (intro one_step_implies_mult) blast+
qed

lemma to_nodes_exact:
  assumes "finite (along nb g)" "acyclic (along nb g)"
  shows "sorted xs \<Longrightarrow> distinct xs \<Longrightarrow> \<exists>ys. to_nodes nb g xs = Some ys \<and>
    set ys = nodes_from nb g (set xs) \<and> sorted ys \<and> distinct ys"
proof (induction xs rule: wf_induct_rule [OF wf_inv_image [OF wf_mult
        [OF finite_acyclic_wf_converse [OF assms]], where f = mset]])
  case (1 xs)
  show ?case
  proof (cases "first_inner g xs")
    case None
    then have "\<forall>x \<in> set xs. pn_type (g x) = UVM_PHASE_NODE"
      by (auto simp: first_inner_def find_None_iff)
    with None "1.prems" show ?thesis
      by (simp add: to_nodes.simps [of nb g xs] nodes_from_node)
  next
    case (Some n)
    then have n: "n \<in> set xs" "pn_type (g n) \<noteq> UVM_PHASE_NODE"
      by (auto simp: first_inner_def find_Some_iff)
    let ?zs = "erase_key n (fold put_key (nb (g n)) xs)"
    have "n \<notin> set (nb (g n))" using no_self_edge [OF assms(2), of n] by simp
    then have s: "set ?zs = set xs - {n} \<union> set (nb (g n))" by auto
    have o: "sorted ?zs" "distinct ?zs"
      using fold_put_ok [OF "1.prems"] erase_key_ok by blast+
    have "(?zs, xs) \<in> inv_image (mult ((along nb g)\<inverse>)) mset"
      using step_decreases [OF "1.prems"(2) o(2) n(1)] s by simp
    from "1.IH" [OF this o] obtain ys where y: "to_nodes nb g ?zs = Some ys"
      "set ys = nodes_from nb g (set ?zs)" "sorted ys" "distinct ys" by blast
    have "set xs = (set xs - {n}) \<union> {n}" using n(1) by auto
    then have "nodes_from nb g (set xs) = nodes_from nb g (set ?zs)"
      using nodes_from_inner [of g n nb, OF n(2)] unfolding s by (metis nodes_from_Un)
    with y Some show ?thesis by (simp add: to_nodes.simps [of nb g xs])
  qed
qed

text \<open>C31. On an acyclic graph \<open>get_predecessors_for_successors\<close> returns, and what it returns are the
  node phases that come directly, passing only over schedules and domains, before a phase that
  comes directly after this one.\<close>

theorem siblings_exact:
  assumes "graph_ok g"
  shows "\<exists>xs. get_predecessors_for_successors g n = Some xs \<and> set xs =
    (\<Union>s \<in> nodes_from pn_succ g (set (pn_succ (g n))). nodes_from pn_pred g (set (pn_pred (g s)))) - {n}"
proof -
  have r: "finite (edges g)" "acyclic (edges g)" and c: "consistent g"
    using assms by (simp_all add: graph_ok_def)
  have s: "finite (along pn_succ g)" "acyclic (along pn_succ g)" using r by (simp_all add: along_succ)
  have p: "finite (along pn_pred g)" "acyclic (along pn_pred g)"
    using r by (simp_all add: along_pred [OF c] acyclic_converse)
  obtain ss where ss: "to_nodes pn_succ g (fold put_key (pn_succ (g n)) []) = Some ss"
    "set ss = nodes_from pn_succ g (set (pn_succ (g n)))"
    using to_nodes_exact [OF s, of "fold put_key (pn_succ (g n)) []"] fold_put_ok [of "[]"] by auto
  let ?ps = "fold (\<lambda>s. fold put_key (pn_pred (g s))) ss []"
  have set_ps: "set (fold (\<lambda>s. fold put_key (pn_pred (g s))) ts xs) = (\<Union>s \<in> set ts. set (pn_pred (g s))) \<union> set xs"
    for ts xs by (induction ts arbitrary: xs) auto
  have "sorted (fold (\<lambda>s. fold put_key (pn_pred (g s))) ts xs) \<and>
      distinct (fold (\<lambda>s. fold put_key (pn_pred (g s))) ts xs)" if "sorted xs" "distinct xs" for ts xs
    using that by (induction ts arbitrary: xs) (auto simp: fold_put_ok)
  then obtain ys where ys: "to_nodes pn_pred g ?ps = Some ys" "set ys = nodes_from pn_pred g (set ?ps)"
    using to_nodes_exact [OF p, of ?ps] by auto
  show ?thesis
    using ss ys by (simp add: get_predecessors_for_successors_def set_ps nodes_from_UN)
qed

text \<open>Two phases \<open>3\<close> and \<open>4\<close> in parallel, and phase \<open>5\<close> after both.\<close>

definition parallel_schedule :: graph where
  "parallel_schedule = add_with 4 4 3 (add_target 0 2 4 (add_before 5 5 1 (add_target 0 2 5
     (add_before 3 3 1 (add_target 0 2 3 small_schedule)))))"

lemma parallel_maps:
  "pn_succ (parallel_schedule n) = (if n = 0 then [3, 4] else if n = 3 \<or> n = 4 then [5] else if n = 5 then [1] else [])"
  "pn_pred (parallel_schedule n) = (if n = 1 then [5] else if n = 3 \<or> n = 4 then [0] else if n = 5 then [3, 4] else [])"
  by (auto simp: parallel_schedule_def add_with_def add_before_def add_target_def small_schedule_def
      new_phase_def fresh_node_def empty_graph_def upd_apply upd_all_def add_succ_def add_pred_def
      del_succ_def put_key_def erase_key_def insort_insert_key_def Let_def)

lemma parallel_ok: "graph_ok parallel_schedule"
proof (rule graph_okI)
  show "edges parallel_schedule \<subseteq> {(0, 3), (0, 4), (3, 5), (4, 5), (5, 1)}"
    by (auto simp: parallel_maps split: if_splits)
  show "acyclic {(0::nat, 3::nat), (0, 4), (3, 5), (4, 5), (5, 1)}"
    by (rule acyclicI_order [where f = "\<lambda>n::nat. if n = 0 then 3 else if n = 1 then 0 else if n = 5 then 1 else 2 :: nat"]) auto
qed (auto simp: parallel_maps)

theorem siblings_exact_witness:
  "get_predecessors_for_successors parallel_schedule 3 = Some [4] \<and>
   (\<Union>s \<in> nodes_from pn_succ parallel_schedule (set (pn_succ (parallel_schedule 3))).
      nodes_from pn_pred parallel_schedule (set (pn_pred (parallel_schedule s)))) - {3} = {4}"
proof -
  have v: "get_predecessors_for_successors parallel_schedule 3 = Some [4]" by code_simp
  obtain xs where xs: "get_predecessors_for_successors parallel_schedule 3 = Some xs"
    "set xs = (\<Union>s \<in> nodes_from pn_succ parallel_schedule (set (pn_succ (parallel_schedule 3))).
      nodes_from pn_pred parallel_schedule (set (pn_pred (parallel_schedule s)))) - {3}"
    using siblings_exact [OF parallel_ok, of 3] by blast
  from v xs(1) have "set xs = {4}" by simp
  with v xs(2) show ?thesis by (simp only:)
qed

section \<open>What the code does not do\<close>

text \<open>
  Adding between direct neighbours does not remove the first from the predecessors of the second:
  the two maps disagree.
\<close>

lemma add_between_inconsistent:
  assumes "graph_ok g" "part_ok g b e {af, be}" "be \<in> set (pn_succ (g af))"
  shows "\<not> consistent (add_between b e af be g)"
proof -
  note f = part_ok_facts [OF assms(2), of af, simplified] part_ok_facts [OF assms(2), of be, simplified]
  have n: "af \<noteq> be" using succs_after(2) [OF assms(1,3)] by simp
  have "af \<in> set (pn_pred (g be))" using assms(1,3) by (simp add: graph_ok_def consistent_def)
  then have "af \<in> set (pn_pred (add_between b e af be g be))" "be \<notin> set (pn_succ (add_between b e af be g af))"
    using f n assms(3) by (auto simp: add_between_def Let_def upd_apply add_succ_def add_pred_def del_succ_def)
  then show ?thesis by (auto simp: consistent_def)
qed

lemma wait_for_equal_state: "state_reached UVM_EQ UVM_PHASE_STARTED UVM_PHASE_SCHEDULED"
  "\<not> state_reached UVM_EQ UVM_PHASE_DORMANT c"
  "\<not> state_reached UVM_NE UVM_PHASE_STARTED UVM_PHASE_SCHEDULED"
  by (simp_all add: and_nat_unfold)

section \<open>The standard schedule\<close>

definition listing :: "graph \<Rightarrow> nat list \<Rightarrow> (string \<times> string list) list" where
  "listing g ns = map (\<lambda>n. (pn_name (g n), map (\<lambda>s. pn_name (g s)) (pn_succ (g n)))) ns"

text \<open>The common domain runs its phases one after the other, with the domain of the twelve
  run-time phases, again one after the other, beside \<open>run\<close>.\<close>

theorem common_domain_schedule:
  "map_option (\<lambda>g. listing g ([0, 11, 12, 13, 14, 15, 20, 22] @ [36..<48] @ [23, 21, 16, 17, 18, 19, 1]))
     (get_common_domain 60 id empty_graph) =
   Some [(''common'', [''build'']), (''build'', [''connect'']), (''connect'', [''end_of_elaboration'']),
     (''end_of_elaboration'', [''start_of_simulation'']), (''start_of_simulation'', [''run'', ''uvm'']),
     (''run'', [''extract'']), (''uvm'', [''uvm_sched'']), (''uvm_sched'', [''pre_reset'']),
     (''pre_reset'', [''reset'']), (''reset'', [''post_reset'']), (''post_reset'', [''pre_configure'']),
     (''pre_configure'', [''configure'']), (''configure'', [''post_configure'']),
     (''post_configure'', [''pre_main'']), (''pre_main'', [''main'']), (''main'', [''post_main'']),
     (''post_main'', [''pre_shutdown'']), (''pre_shutdown'', [''shutdown'']),
     (''shutdown'', [''post_shutdown'']), (''post_shutdown'', [''uvm_sched_end'']),
     (''uvm_sched_end'', [''uvm_end'']), (''uvm_end'', [''extract'']), (''extract'', [''check'']),
     (''check'', [''report'']), (''report'', [''final'']), (''final'', [''common_end'']),
     (''common_end'', [])]"
  by code_simp

end
