(* ===== verification/Phase_Exec.thy ===== *)
theory Phase_Exec
  imports Phase_Graph
begin

text \<open>
  Model of the execution of phases: \<open>uvm_phase::execute_phase\<close>, \<open>m_run_phases\<close> and what they call
  (src/uvmsc/phasing/uvm_phase.cpp), the queue \<open>uvm_phase_queue\<close>, and the traversals of the
  component tree (uvm_topdown_phase.cpp, uvm_bottomup_phase.cpp, uvm_process_phase.cpp).

  Each call of \<open>execute_phase\<close> is a thread with a program counter; a step of a thread runs from one
  \<open>wait\<close>, or call of user code, to the next. A step that waits for something which does not hold is
  \<open>None\<close>. The waits of zero time are made only by threads of process phases, but the model ends a
  step there for all threads: it has more interleavings than the code. User code, whatever it does in
  the traversals, acts by its own steps: objections are raised and dropped, jumps are requested,
  phases are constructed. That \<open>wait_for(UVM_ALL_DROPPED)\<close> returns is the choice \<open>ev\<close>. The timeout
  of the run phase, which ends the simulation, is left out. The first three phases are called
  directly, before the simulation starts (\<open>phasing_start\<close>).
\<close>

section \<open>Traversals of the component tree\<close>

datatype comp =
  Comp (comp_id: nat) (comp_domain: nat) (comp_built: bool) (comp_seqr: bool) (comp_children: "comp list")

datatype call =
  Phase_started nat | Start_phase_sequence nat | Phase_execute nat | Phase_ready_to_end nat
  | Phase_ended nat

definition in_phase_domain :: "nat \<Rightarrow> nat \<Rightarrow> comp \<Rightarrow> bool" where
  "in_phase_domain common pd c \<longleftrightarrow> pd = common \<or> pd = comp_domain c"

text \<open>The calls for one component; states other than these four are fatal.\<close>

fun own_call :: "phase_state \<Rightarrow> nat \<Rightarrow> call list option" where
  "own_call UVM_PHASE_STARTED c = Some [Phase_started c]"
| "own_call UVM_PHASE_EXECUTING c = Some [Phase_execute c]"
| "own_call UVM_PHASE_READY_TO_END c = Some [Phase_ready_to_end c]"
| "own_call UVM_PHASE_ENDED c = Some [Phase_ended c]"
| "own_call _ c = None"

definition topdown_call :: "nat \<Rightarrow> nat \<Rightarrow> string \<Rightarrow> phase_state \<Rightarrow> comp \<Rightarrow> call list option" where
  "topdown_call common pd nm st c =
     (if in_phase_domain common pd c
      then if st = UVM_PHASE_EXECUTING \<and> nm = ''build'' \<and> comp_built c then Some []
           else own_call st (comp_id c)
      else Some [])"

definition bottomup_call :: "nat \<Rightarrow> nat \<Rightarrow> phase_state \<Rightarrow> comp \<Rightarrow> call list option" where
  "bottomup_call common pd st c =
     (if in_phase_domain common pd c then own_call st (comp_id c) else Some [])"

definition cat :: "'a list option \<Rightarrow> 'a list option \<Rightarrow> 'a list option" where
  "cat a b = (case a of None \<Rightarrow> None | Some xs \<Rightarrow> map_option (\<lambda>ys. xs @ ys) b)"

fun topdown_tree :: "(comp \<Rightarrow> call list option) \<Rightarrow> comp \<Rightarrow> call list option"
  and topdown_all :: "(comp \<Rightarrow> call list option) \<Rightarrow> comp list \<Rightarrow> call list option" where
  "topdown_tree f (Comp i d b q cs) = cat (f (Comp i d b q cs)) (topdown_all f cs)"
| "topdown_all f [] = Some []"
| "topdown_all f (c # cs) = cat (topdown_tree f c) (topdown_all f cs)"

definition topdown_traverse :: "nat \<Rightarrow> nat \<Rightarrow> string \<Rightarrow> phase_state \<Rightarrow> comp \<Rightarrow> call list option" where
  "topdown_traverse common pd nm st = topdown_tree (topdown_call common pd nm st)"

fun bottomup_tree :: "(comp \<Rightarrow> call list option) \<Rightarrow> comp \<Rightarrow> call list option"
  and bottomup_all :: "(comp \<Rightarrow> call list option) \<Rightarrow> comp list \<Rightarrow> call list option" where
  "bottomup_tree f (Comp i d b q cs) = cat (bottomup_all f cs) (f (Comp i d b q cs))"
| "bottomup_all f [] = Some []"
| "bottomup_all f (c # cs) = cat (bottomup_tree f c) (bottomup_all f cs)"

definition bottomup_traverse :: "nat \<Rightarrow> nat \<Rightarrow> phase_state \<Rightarrow> comp \<Rightarrow> call list option" where
  "bottomup_traverse common pd st = bottomup_tree (bottomup_call common pd st)"

text \<open>
  A process phase keeps the handle of the process it has spawned for a component, whether it has
  terminated or not. A component that has one cannot execute.
\<close>

type_synonym handles = "nat \<Rightarrow> bool option"

definition process_call ::
    "nat \<Rightarrow> nat \<Rightarrow> phase_state \<Rightarrow> comp \<Rightarrow> handles \<Rightarrow> (call list \<times> handles) option" where
  "process_call common pd st c hs =
     (if in_phase_domain common pd c
      then (case st of
              UVM_PHASE_STARTED \<Rightarrow>
                Some (Phase_started (comp_id c) # (if comp_seqr c then [Start_phase_sequence (comp_id c)] else []), hs)
            | UVM_PHASE_EXECUTING \<Rightarrow>
                if hs (comp_id c) \<noteq> None then None
                else Some ([Phase_execute (comp_id c)], hs(comp_id c := Some True))
            | UVM_PHASE_READY_TO_END \<Rightarrow> Some ([Phase_ready_to_end (comp_id c)], hs)
            | UVM_PHASE_ENDED \<Rightarrow> Some ([Phase_ended (comp_id c)], hs(comp_id c := None))
            | _ \<Rightarrow> None)
      else Some ([], hs))"

fun process_tree :: "(comp \<Rightarrow> handles \<Rightarrow> (call list \<times> handles) option) \<Rightarrow> comp \<Rightarrow> handles \<Rightarrow> (call list \<times> handles) option"
  and process_all :: "(comp \<Rightarrow> handles \<Rightarrow> (call list \<times> handles) option) \<Rightarrow> comp list \<Rightarrow> handles \<Rightarrow> (call list \<times> handles) option" where
  "process_tree f (Comp i d b q cs) hs =
     (case process_all f cs hs of
        None \<Rightarrow> None
      | Some (xs, hs1) \<Rightarrow> map_option (\<lambda>(ys, hs2). (xs @ ys, hs2)) (f (Comp i d b q cs) hs1))"
| "process_all f [] hs = Some ([], hs)"
| "process_all f (c # cs) hs =
     (case process_tree f c hs of
        None \<Rightarrow> None
      | Some (xs, hs1) \<Rightarrow> map_option (\<lambda>(ys, hs2). (xs @ ys, hs2)) (process_all f cs hs1))"

definition process_traverse ::
    "nat \<Rightarrow> nat \<Rightarrow> phase_state \<Rightarrow> comp \<Rightarrow> handles \<Rightarrow> (call list \<times> handles) option" where
  "process_traverse common pd st = process_tree (process_call common pd st)"

section \<open>Threads\<close>

datatype xpc =
  Wait_preds "nat list" | Wait_sync "nat list" | Begin | Started
  | First_drop | Self_check bool | Self_drop bool | Sib_check bool bool "nat list" | Sib_drop bool "nat list"
  | To_ready | After | Wait_siblings "nat list" | Ending | Cleaning | Completing
  | Scheduling "nat list" | Putting nat "nat list" | Jump_end | Jump_mark | Jump_go | Finished

record xthread =
  xt_phase :: nat
  xt_proc :: bool
  xt_pc :: xpc

text \<open>
  The loop of \<open>m_run_phases\<close>: about to get the next phase, waiting in the call of a function phase by
  thread \<open>i\<close>, ended, or waiting on the event of a queue that is no longer the hopper.
\<close>

datatype xloop = Getting | Calling nat | Stopped | Lost

record xstate =
  xs_g :: graph
  xs_hopper :: "nat list"
  xs_threads :: "xthread list"
  xs_loop :: xloop
  xs_objs :: "nat \<Rightarrow> nat"
  xs_ready_count :: "nat \<Rightarrow> nat"
  xs_all_done :: bool

definition st_of :: "xstate \<Rightarrow> nat \<Rightarrow> phase_state" where
  "st_of x n = pn_state (xs_g x n)"

definition set_st :: "nat \<Rightarrow> phase_state \<Rightarrow> xstate \<Rightarrow> xstate" where
  "set_st n s x = x\<lparr>xs_g := upd n (set_state s) (xs_g x)\<rparr>"

definition at_least :: "phase_state \<Rightarrow> phase_state \<Rightarrow> bool" where
  "at_least s t \<longleftrightarrow> state_num s \<ge> state_num t"

definition max_ready_to_end_iter :: nat where
  "max_ready_to_end_iter = 20"

text \<open>The siblings are those of the graph and the phases with which this one is synchronised.\<close>

definition self_and_siblings :: "graph \<Rightarrow> nat \<Rightarrow> nat list option" where
  "self_and_siblings g n =
     map_option (\<lambda>xs. fold put_key (pn_sync (g n)) xs) (get_predecessors_for_successors g n)"

definition jumping :: "graph \<Rightarrow> nat \<Rightarrow> bool" where
  "jumping g n \<longleftrightarrow> pn_jump_fwd (g n) \<or> pn_jump_bkwd (g n)"

text \<open>\<open>wait_for_self_and_siblings_to_drop\<close>; \<open>again\<close> tells the second call from the first.\<close>

fun siblings_step :: "bool \<Rightarrow> nat \<Rightarrow> xpc \<Rightarrow> xstate \<Rightarrow> (xpc \<times> xstate) option" where
  "siblings_step ev n (Self_check again) x =
     (if xs_objs x n \<noteq> 0 then Some (Self_drop again, set_st n UVM_PHASE_EXECUTING x)
      else map_option (\<lambda>ss. (Sib_check again False ss, x)) (self_and_siblings (xs_g x) n))"
| "siblings_step ev n (Self_drop again) x =
     (if ev then map_option (\<lambda>ss. (Sib_check again True ss, x)) (self_and_siblings (xs_g x) n) else None)"
| "siblings_step ev n (Sib_check again need (s # ss)) x =
     (if \<not> at_least (st_of x s) UVM_PHASE_EXECUTING then None
      else if xs_objs x s \<noteq> 0 then Some (Sib_drop again ss, set_st n UVM_PHASE_EXECUTING x)
      else Some (Sib_check again need ss, x))"
| "siblings_step ev n (Sib_drop again ss) x = (if ev then Some (Sib_check again True ss, x) else None)"
| "siblings_step ev n pc x = None"

text \<open>\<open>m_wait_for_all_dropped\<close>, which calls it.\<close>

fun drop_step :: "bool \<Rightarrow> nat \<Rightarrow> xpc \<Rightarrow> xstate \<Rightarrow> (xpc \<times> xstate) option" where
  "drop_step ev n First_drop x =
     (if xs_objs x n = 0 \<or> ev then Some (Self_check False, x) else None)"
| "drop_step ev n (Sib_check again need []) x =
     Some (if need then Self_check again
           else if \<not> again then To_ready
           else if st_of x n = UVM_PHASE_EXECUTING \<and> xs_ready_count x n < max_ready_to_end_iter
           then To_ready else After, x)"
| "drop_step ev n To_ready x =
     Some (Self_check True,
       set_st n UVM_PHASE_READY_TO_END (x\<lparr>xs_ready_count := (xs_ready_count x)(n := xs_ready_count x n + 1)\<rparr>))"
| "drop_step ev n pc x = siblings_step ev n pc x"

definition begin_phase :: "nat \<Rightarrow> xstate \<Rightarrow> xstate" where
  "begin_phase n x =
     (let x1 = x\<lparr>xs_g := upd n (\<lambda>nd. nd\<lparr>pn_run_count := pn_run_count nd + 1, pn_state := UVM_PHASE_STARTED\<rparr>) (xs_g x)\<rparr>
      in if pn_type (xs_g x n) = UVM_PHASE_NODE then x1\<lparr>xs_ready_count := (xs_ready_count x)(n := 0)\<rparr> else x1)"

definition clear_objs :: "nat \<Rightarrow> xstate \<Rightarrow> xstate" where
  "clear_objs n x = x\<lparr>xs_objs := (xs_objs x)(n := 0)\<rparr>"

text \<open>The end of a phase that jumps. \<open>clear_phase\<close> drops the objections of the phases it clears,
  which \<open>xs_objs\<close> shows only for the phase itself.\<close>

definition jump_go :: "nat \<Rightarrow> nat \<Rightarrow> xstate \<Rightarrow> xstate option" where
  "jump_go d n x =
     (case pn_jump_phase (xs_g x n) of
        None \<Rightarrow> None
      | Some p \<Rightarrow>
          (case (if pn_jump_fwd (xs_g x n) then clear_successors d UVM_PHASE_DONE (Some p) n (xs_g x)
                 else Some (xs_g x)) of
             None \<Rightarrow> None
           | Some g1 \<Rightarrow>
               (case clear_successors d UVM_PHASE_DORMANT None p g1 of
                  None \<Rightarrow> None
                | Some g2 \<Rightarrow>
                    Some (clear_objs n (x\<lparr>xs_g := upd n (\<lambda>nd. nd\<lparr>pn_jump_fwd := False, pn_jump_bkwd := False,
                        pn_jump_phase := None\<rparr>) g2, xs_hopper := xs_hopper x @ [p]\<rparr>)))))"

fun thread_step :: "nat \<Rightarrow> bool \<Rightarrow> nat \<Rightarrow> bool \<Rightarrow> xpc \<Rightarrow> xstate \<Rightarrow> (xpc \<times> xstate) option" where
  "thread_step d ev n proc (Wait_preds (p # ps)) x =
     (if st_of x p = UVM_PHASE_DONE then Some (Wait_preds ps, x) else None)"
| "thread_step d ev n proc (Wait_preds []) x =
     (if st_of x n = UVM_PHASE_DONE then Some (Finished, x)
      else if pn_sync (xs_g x n) \<noteq> [] \<and> proc
      then Some (Wait_sync (pn_sync (xs_g x n)), set_st n UVM_PHASE_SYNCING x)
      else Some (Begin, x))"
| "thread_step d ev n proc (Wait_sync (p # ps)) x =
     (if at_least (st_of x p) UVM_PHASE_SYNCING then Some (Wait_sync ps, x) else None)"
| "thread_step d ev n proc (Wait_sync []) x = Some (Begin, x)"
| "thread_step d ev n proc Begin x = Some (Started, begin_phase n x)"
| "thread_step d ev n proc Started x =
     Some (if pn_type (xs_g x n) = UVM_PHASE_NODE \<and> proc then First_drop else After,
       set_st n UVM_PHASE_EXECUTING x)"
| "thread_step d ev n proc After x =
     (if pn_type (xs_g x n) \<noteq> UVM_PHASE_NODE then Some (Completing, x)
      else if jumping (xs_g x) n then Some (Jump_end, x)
      else if proc then Some (Ending, x)
      else map_option (\<lambda>ss. (Wait_siblings ss, x)) (get_predecessors_for_successors (xs_g x) n))"
| "thread_step d ev n proc (Wait_siblings (p # ps)) x =
     (if at_least (st_of x p) UVM_PHASE_READY_TO_END then Some (Wait_siblings ps, x) else None)"
| "thread_step d ev n proc (Wait_siblings []) x = Some (Ending, x)"
| "thread_step d ev n proc Ending x = Some (Cleaning, set_st n UVM_PHASE_ENDED x)"
| "thread_step d ev n proc Cleaning x = Some (Completing, clear_objs n (set_st n UVM_PHASE_CLEANUP x))"
| "thread_step d ev n proc Completing x =
     (let x1 = set_st n UVM_PHASE_DONE x
      in if pn_succ (xs_g x n) = [] then Some (Finished, x1\<lparr>xs_all_done := True\<rparr>)
         else Some (Scheduling (pn_succ (xs_g x n)), x1))"
| "thread_step d ev n proc (Scheduling (s # ss)) x =
     (if state_num (st_of x s) < state_num UVM_PHASE_SCHEDULED
      then Some (Putting s ss, set_st s UVM_PHASE_SCHEDULED x) else Some (Scheduling ss, x))"
| "thread_step d ev n proc (Scheduling []) x = Some (Finished, x)"
| "thread_step d ev n proc (Putting s ss) x = Some (Scheduling ss, x\<lparr>xs_hopper := xs_hopper x @ [s]\<rparr>)"
| "thread_step d ev n proc Jump_end x = Some (Jump_mark, set_st n UVM_PHASE_ENDED x)"
| "thread_step d ev n proc Jump_mark x = Some (Jump_go, set_st n UVM_PHASE_JUMPING x)"
| "thread_step d ev n proc Jump_go x = map_option (\<lambda>y. (Finished, y)) (jump_go d n x)"
| "thread_step d ev n proc Finished x = None"
| "thread_step d ev n proc pc x = drop_step ev n pc x"

section \<open>The scheduler\<close>

text \<open>
  The steps: a step of thread \<open>i\<close>, leaving the wait for dropped objections on a jump request, the loop
  of the scheduler taking a phase or returning from one, and what user code does. \<open>isp\<close> tells which imps
  are process phases. Constructing a phase makes a new hopper, whatever the old one holds; the loop
  waits on the event of the old one when it was empty.
\<close>

datatype xlabel =
  Thread nat bool | Jump_out nat | Take | Return | Objections nat nat | Request_jump nat nat | Construct

definition executes_process :: "(nat \<Rightarrow> bool) \<Rightarrow> graph \<Rightarrow> nat \<Rightarrow> bool" where
  "executes_process isp g n \<longleftrightarrow>
     pn_type (g n) \<noteq> UVM_PHASE_NODE \<or> (case pn_imp (g n) of None \<Rightarrow> False | Some i \<Rightarrow> isp i)"

definition dropping :: "xpc \<Rightarrow> bool" where
  "dropping pc \<longleftrightarrow> (case pc of First_drop \<Rightarrow> True | Self_check _ \<Rightarrow> True | Self_drop _ \<Rightarrow> True
     | Sib_check _ _ _ \<Rightarrow> True | Sib_drop _ _ \<Rightarrow> True | To_ready \<Rightarrow> True | _ \<Rightarrow> False)"

definition after_phase :: "xstate \<Rightarrow> nat \<Rightarrow> xloop" where
  "after_phase x n = (if pn_succ (xs_g x n) \<noteq> [] then Getting else Stopped)"

fun xexec :: "nat \<Rightarrow> (nat \<Rightarrow> bool) \<Rightarrow> xlabel \<Rightarrow> xstate \<Rightarrow> xstate option" where
  "xexec d isp (Thread i ev) x =
     (if i < length (xs_threads x)
      then let t = xs_threads x ! i
           in map_option (\<lambda>(pc, y). y\<lparr>xs_threads := (xs_threads x)[i := t\<lparr>xt_pc := pc\<rparr>]\<rparr>)
                (thread_step d ev (xt_phase t) (xt_proc t) (xt_pc t) x)
      else None)"
| "xexec d isp (Jump_out i) x =
     (if i < length (xs_threads x) \<and> dropping (xt_pc (xs_threads x ! i)) \<and>
         jumping (xs_g x) (xt_phase (xs_threads x ! i))
      then Some (x\<lparr>xs_threads := (xs_threads x)[i := (xs_threads x ! i)\<lparr>xt_pc := After\<rparr>]\<rparr>)
      else None)"
| "xexec d isp Take x =
     (case (xs_loop x, xs_hopper x) of
        (Getting, n # rest) \<Rightarrow>
          let proc = executes_process isp (xs_g x) n;
              pc = Wait_preds (if proc then pn_pred (xs_g x n) else []);
              t = \<lparr>xt_phase = n, xt_proc = proc, xt_pc = pc\<rparr>
          in Some (x\<lparr>xs_hopper := rest, xs_threads := xs_threads x @ [t],
               xs_loop := (if proc then after_phase x n else Calling (length (xs_threads x)))\<rparr>)
      | _ \<Rightarrow> None)"
| "xexec d isp Return x =
     (case xs_loop x of
        Calling i \<Rightarrow>
          if i < length (xs_threads x) \<and> xt_pc (xs_threads x ! i) = Finished
          then Some (x\<lparr>xs_loop := after_phase x (xt_phase (xs_threads x ! i))\<rparr>) else None
      | _ \<Rightarrow> None)"
| "xexec d isp (Objections n k) x = Some (x\<lparr>xs_objs := (xs_objs x)(n := k)\<rparr>)"
| "xexec d isp (Request_jump n p) x = map_option (\<lambda>(g, ms). x\<lparr>xs_g := g\<rparr>) (phase_jump d p (xs_g x) n)"
| "xexec d isp Construct x =
     Some (x\<lparr>xs_hopper := [], xs_loop := (if xs_loop x = Getting \<and> xs_hopper x = [] then Lost else xs_loop x)\<rparr>)"

text \<open>A step that is not possible changes nothing.\<close>

definition xstep :: "nat \<Rightarrow> (nat \<Rightarrow> bool) \<Rightarrow> xlabel \<Rightarrow> xstate \<Rightarrow> xstate" where
  "xstep d isp l x = (case xexec d isp l x of None \<Rightarrow> x | Some y \<Rightarrow> y)"

section \<open>What a step of a thread changes\<close>

definition same_struct :: "graph \<Rightarrow> graph \<Rightarrow> bool" where
  "same_struct g h \<longleftrightarrow> (\<forall>n. pn_pred (g n) = pn_pred (h n) \<and> pn_succ (g n) = pn_succ (h n) \<and>
     pn_type (g n) = pn_type (h n) \<and> pn_imp (g n) = pn_imp (h n) \<and>
     pn_jump_fwd (g n) = pn_jump_fwd (h n) \<and> pn_jump_bkwd (g n) = pn_jump_bkwd (h n))"

lemma same_struct_refl [simp]: "same_struct g g"
  by (simp add: same_struct_def)

lemma set_st_simps [simp]:
  "same_struct (xs_g (set_st n s x)) g \<longleftrightarrow> same_struct (xs_g x) g"
  "st_of (set_st n s x) m = (if m = n then s else st_of x m)"
  "xs_hopper (set_st n s x) = xs_hopper x" "xs_threads (set_st n s x) = xs_threads x"
  "xs_loop (set_st n s x) = xs_loop x"
  by (auto simp: set_st_def same_struct_def st_of_def upd_apply set_state_def)

lemma begin_phase_simps [simp]:
  "same_struct (xs_g (begin_phase n x)) g \<longleftrightarrow> same_struct (xs_g x) g"
  "st_of (begin_phase n x) m = (if m = n then UVM_PHASE_STARTED else st_of x m)"
  "xs_hopper (begin_phase n x) = xs_hopper x" "xs_threads (begin_phase n x) = xs_threads x"
  "xs_loop (begin_phase n x) = xs_loop x"
  by (auto simp: begin_phase_def Let_def same_struct_def st_of_def upd_apply)

lemma clear_objs_simps [simp]:
  "xs_g (clear_objs n x) = xs_g x" "xs_hopper (clear_objs n x) = xs_hopper x"
  "xs_threads (clear_objs n x) = xs_threads x" "xs_loop (clear_objs n x) = xs_loop x"
  "st_of (clear_objs n x) m = st_of x m"
  by (simp_all add: clear_objs_def st_of_def)

lemma st_of_more [simp]:
  "st_of (x\<lparr>xs_hopper := h\<rparr>) m = st_of x m" "st_of (x\<lparr>xs_threads := ts\<rparr>) m = st_of x m"
  "st_of (x\<lparr>xs_loop := l\<rparr>) m = st_of x m" "st_of (x\<lparr>xs_all_done := b\<rparr>) m = st_of x m"
  "st_of (x\<lparr>xs_objs := ob\<rparr>) m = st_of x m" "st_of (x\<lparr>xs_ready_count := c\<rparr>) m = st_of x m"
  by (simp_all add: st_of_def)

text \<open>A thread waits for its predecessors, then it is active, then its phase is done.\<close>

fun stage :: "xpc \<Rightarrow> nat" where
  "stage (Wait_preds _) = 0"
| "stage (Scheduling _) = 2"
| "stage (Putting _ _) = 2"
| "stage Finished = 2"
| "stage _ = 1"

definition to_schedule :: "xpc \<Rightarrow> nat list" where
  "to_schedule pc = (case pc of Scheduling ss \<Rightarrow> ss | Putting s ss \<Rightarrow> s # ss | _ \<Rightarrow> [])"

definition awaited :: "xpc \<Rightarrow> nat list" where
  "awaited pc = (case pc of Wait_preds ps \<Rightarrow> ps | _ \<Rightarrow> [])"

definition in_jump :: "xpc \<Rightarrow> bool" where
  "in_jump pc \<longleftrightarrow> pc = Jump_end \<or> pc = Jump_mark \<or> pc = Jump_go"

text \<open>Without a jump, a step of the thread of phase \<open>n\<close> from \<open>pc\<close> to \<open>pc'\<close>.\<close>

definition moves :: "nat \<Rightarrow> xpc \<Rightarrow> xstate \<Rightarrow> xpc \<Rightarrow> xstate \<Rightarrow> bool" where
  "moves n pc x pc' y \<longleftrightarrow>
     same_struct (xs_g y) (xs_g x) \<and> xs_threads y = xs_threads x \<and> xs_loop y = xs_loop x \<and>
     \<not> in_jump pc' \<and>
     xs_hopper y = xs_hopper x @ (case pc of Putting s ss \<Rightarrow> [s] | _ \<Rightarrow> []) \<and>
     (case pc' of Putting s ss \<Rightarrow> pc = Scheduling (s # ss) \<and> st_of x s = UVM_PHASE_DORMANT \<and>
          st_of y = (st_of x)(s := UVM_PHASE_SCHEDULED)
      | _ \<Rightarrow> (\<forall>m. m \<noteq> n \<longrightarrow> st_of y m = st_of x m) \<and>
          (stage pc \<noteq> 1 \<and> stage pc' \<noteq> 1 \<longrightarrow> st_of y n = st_of x n) \<and>
          (st_of y n = UVM_PHASE_DORMANT \<longrightarrow> st_of x n = UVM_PHASE_DORMANT)) \<and>
     (case stage pc of
        0 \<Rightarrow> (\<exists>p ps. pc = Wait_preds (p # ps) \<and> pc' = Wait_preds ps \<and> st_of x p = UVM_PHASE_DONE) \<or>
             pc = Wait_preds [] \<and> (pc' = Finished \<and> st_of x n = UVM_PHASE_DONE \<or>
               stage pc' = 1 \<and> st_of x n \<noteq> UVM_PHASE_DONE \<and> st_of y n \<noteq> UVM_PHASE_DONE)
      | Suc 0 \<Rightarrow> stage pc' = 1 \<and> (st_of x n \<noteq> UVM_PHASE_DONE \<longrightarrow> st_of y n \<noteq> UVM_PHASE_DONE) \<or>
             stage pc' = 2 \<and> st_of y n = UVM_PHASE_DONE \<and> set (to_schedule pc') \<subseteq> set (pn_succ (xs_g x n))
      | _ \<Rightarrow> stage pc' = 2 \<and> set (to_schedule pc') \<subseteq> set (to_schedule pc))"

lemma siblings_moves: "siblings_step ev n pc x = Some (pc', y) \<Longrightarrow> moves n pc x pc' y"
  by (cases "(ev, n, pc, x)" rule: siblings_step.cases)
    (auto simp: moves_def in_jump_def split: if_splits)

lemma drop_moves: "drop_step ev n pc x = Some (pc', y) \<Longrightarrow> moves n pc x pc' y"
  by (cases "(ev, n, pc, x)" rule: drop_step.cases)
    (auto simp: moves_def in_jump_def simp del: siblings_step.simps dest!: siblings_moves split: if_splits)

lemma dormant_num: "state_num s < state_num UVM_PHASE_SCHEDULED \<longleftrightarrow> s = UVM_PHASE_DORMANT"
  by (cases s) simp_all

lemma thread_moves:
  assumes "thread_step d ev n proc pc x = Some (pc', y)" "\<not> jumping (xs_g x) n" "\<not> in_jump pc"
  shows "moves n pc x pc' y"
proof -
  note dormant_num [simplified, simp]
  show ?thesis
    using assms drop_moves [of ev n pc x pc' y]
    by (cases "(d, ev, n, proc, pc, x)" rule: thread_step.cases)
      (auto simp: moves_def in_jump_def to_schedule_def Let_def fun_eq_iff simp del: drop_step.simps split: if_splits)
qed

section \<open>Invariant of the runs without jumps\<close>

definition running :: "phase_state \<Rightarrow> bool" where
  "running s \<longleftrightarrow> s \<noteq> UVM_PHASE_DORMANT \<and> s \<noteq> UVM_PHASE_SCHEDULED"

definition started :: "xstate \<Rightarrow> nat \<Rightarrow> bool" where
  "started x n \<longleftrightarrow> running (st_of x n)"

text \<open>
  For the phases that have not run when the scheduler begins, in the states \<open>s0\<close>: a phase that runs
  as a process waits for all predecessors; any phase is scheduled by a predecessor that is done.
\<close>

definition in_order :: "(nat \<Rightarrow> bool) \<Rightarrow> graph \<Rightarrow> (nat \<Rightarrow> phase_state) \<Rightarrow> xstate \<Rightarrow> bool" where
  "in_order isp g s0 x \<longleftrightarrow>
     (\<forall>n. started x n \<and> \<not> running (s0 n) \<and> executes_process isp g n \<longrightarrow>
        (\<forall>p \<in> set (pn_pred (g n)). st_of x p = UVM_PHASE_DONE)) \<and>
     (\<forall>n. st_of x n \<noteq> UVM_PHASE_DORMANT \<and> s0 n = UVM_PHASE_DORMANT \<longrightarrow>
        (\<exists>p \<in> set (pn_pred (g n)). st_of x p = UVM_PHASE_DONE))"

definition putting :: "xthread \<Rightarrow> nat list" where
  "putting t = (case xt_pc t of Putting s ss \<Rightarrow> [s] | _ \<Rightarrow> [])"

definition thread_ok :: "(nat \<Rightarrow> bool) \<Rightarrow> graph \<Rightarrow> xstate \<Rightarrow> xthread \<Rightarrow> bool" where
  "thread_ok isp g x t \<longleftrightarrow>
     (let n = xt_phase t; pc = xt_pc t
      in xt_proc t = executes_process isp g n \<and> \<not> in_jump pc \<and> st_of x n \<noteq> UVM_PHASE_DORMANT \<and>
         (xt_proc t \<longrightarrow> (\<forall>p \<in> set (pn_pred (g n)). p \<in> set (awaited pc) \<or> st_of x p = UVM_PHASE_DONE)) \<and>
         (stage pc = 1 \<longrightarrow> st_of x n \<noteq> UVM_PHASE_DONE) \<and> (stage pc = 2 \<longrightarrow> st_of x n = UVM_PHASE_DONE) \<and>
         set (to_schedule pc) \<subseteq> set (pn_succ (g n)) \<and>
         (\<forall>s \<in> set (putting t). st_of x s \<noteq> UVM_PHASE_DORMANT))"

text \<open>The phases that are executed, wait in the hopper or are about to be put there.\<close>

definition tokens :: "xstate \<Rightarrow> nat list" where
  "tokens x = xs_hopper x @ concat (map (\<lambda>t. xt_phase t # putting t) (xs_threads x))"

definition xinv :: "(nat \<Rightarrow> bool) \<Rightarrow> graph \<Rightarrow> (nat \<Rightarrow> phase_state) \<Rightarrow> xstate \<Rightarrow> bool" where
  "xinv isp g s0 x \<longleftrightarrow> consistent g \<and> same_struct (xs_g x) g \<and> (\<forall>n. \<not> jumping g n) \<and>
     (\<forall>t \<in> set (xs_threads x). thread_ok isp g x t) \<and> distinct (tokens x) \<and>
     (\<forall>n \<in> set (xs_hopper x). st_of x n \<noteq> UVM_PHASE_DORMANT) \<and> in_order isp g s0 x"

lemma same_struct_trans: "same_struct a b \<Longrightarrow> same_struct b c \<Longrightarrow> same_struct a c"
  by (simp add: same_struct_def)

lemma same_struct_jumping: "same_struct a b \<Longrightarrow> jumping a n \<longleftrightarrow> jumping b n"
  by (simp add: same_struct_def jumping_def)

lemma same_struct_process: "same_struct a b \<Longrightarrow> executes_process isp a n \<longleftrightarrow> executes_process isp b n"
  by (simp add: same_struct_def executes_process_def)

lemma stage_range: "stage pc = 0 \<or> stage pc = 1 \<or> stage pc = 2"
  by (cases pc) simp_all

lemma moves_mono:
  assumes "moves n pc x pc' y" "stage pc = 1 \<longrightarrow> st_of x n \<noteq> UVM_PHASE_DONE"
  shows "st_of x m = UVM_PHASE_DONE \<Longrightarrow> st_of y m = UVM_PHASE_DONE"
    and "st_of x m \<noteq> UVM_PHASE_DORMANT \<Longrightarrow> st_of y m \<noteq> UVM_PHASE_DORMANT"
    and "m \<noteq> n \<Longrightarrow> st_of x m \<noteq> UVM_PHASE_DORMANT \<Longrightarrow> st_of y m = st_of x m"
proof -
  show "st_of x m = UVM_PHASE_DONE \<Longrightarrow> st_of y m = UVM_PHASE_DONE"
    using assms stage_range [of pc]
    by (cases "m = n"; cases pc') (auto simp: moves_def split: nat.splits)
  show "st_of x m \<noteq> UVM_PHASE_DORMANT \<Longrightarrow> st_of y m \<noteq> UVM_PHASE_DORMANT"
    using assms by (cases "m = n"; cases pc') (auto simp: moves_def)
  show "m \<noteq> n \<Longrightarrow> st_of x m \<noteq> UVM_PHASE_DORMANT \<Longrightarrow> st_of y m = st_of x m"
    using assms by (cases pc') (auto simp: moves_def)
qed

lemma tokens_more [simp]:
  "tokens (x\<lparr>xs_loop := l\<rparr>) = tokens x" "tokens (x\<lparr>xs_objs := ob\<rparr>) = tokens x"
  by (simp_all add: tokens_def)

lemma same_states:
  assumes "st_of y = st_of x"
  shows "thread_ok isp g y t = thread_ok isp g x t" "in_order isp g s0 y = in_order isp g s0 x"
  by (simp_all only: thread_ok_def in_order_def started_def assms)

lemma thread_ok_cong:
  assumes "\<And>m. st_of x m = UVM_PHASE_DONE \<Longrightarrow> st_of y m = UVM_PHASE_DONE"
    and "\<And>m. st_of x m \<noteq> UVM_PHASE_DORMANT \<Longrightarrow> st_of y m \<noteq> UVM_PHASE_DORMANT"
    and "st_of y (xt_phase t) = st_of x (xt_phase t)"
    and "thread_ok isp g x t"
  shows "thread_ok isp g y t"
  using assms(4) unfolding thread_ok_def Let_def assms(3)
  by (elim conjE, intro conjI) (use assms(1,2) in blast)+

lemma in_orderI:
  assumes "in_order isp g s0 x"
    and "\<And>m. st_of x m = UVM_PHASE_DONE \<Longrightarrow> st_of y m = UVM_PHASE_DONE"
    and "\<And>m. started y m \<Longrightarrow> executes_process isp g m \<Longrightarrow> started x m \<or>
      (\<forall>p \<in> set (pn_pred (g m)). st_of y p = UVM_PHASE_DONE)"
    and "\<And>m. st_of y m \<noteq> UVM_PHASE_DORMANT \<Longrightarrow> st_of x m \<noteq> UVM_PHASE_DORMANT \<or>
      (\<exists>p \<in> set (pn_pred (g m)). st_of y p = UVM_PHASE_DONE)"
  shows "in_order isp g s0 y"
  using assms unfolding in_order_def by metis

text \<open>The own thread after its step.\<close>

lemma own_thread_ok:
  assumes ok: "thread_ok isp g x t" and s: "same_struct (xs_g x) g"
    and m: "moves (xt_phase t) (xt_pc t) x pc' y"
  shows "thread_ok isp g y (t\<lparr>xt_pc := pc'\<rparr>)"
proof -
  let ?n = "xt_phase t" and ?pc = "xt_pc t"
  have st1: "stage ?pc = 1 \<longrightarrow> st_of x ?n \<noteq> UVM_PHASE_DONE" and st2: "stage ?pc = 2 \<longrightarrow> st_of x ?n = UVM_PHASE_DONE"
    using ok by (simp_all add: thread_ok_def Let_def)
  note mono = moves_mono [OF m st1]
  have nd: "st_of x ?n \<noteq> UVM_PHASE_DORMANT" using ok by (simp add: thread_ok_def Let_def)
  have aw: "\<forall>p \<in> set (awaited ?pc). p \<in> set (awaited pc') \<or> st_of x p = UVM_PHASE_DONE"
    using m by (cases ?pc) (auto simp: moves_def awaited_def)
  have preds: "xt_proc t \<longrightarrow> (\<forall>p \<in> set (pn_pred (g ?n)). p \<in> set (awaited pc') \<or> st_of y p = UVM_PHASE_DONE)"
    using ok aw mono(1) unfolding thread_ok_def Let_def by blast
  have s1: "stage pc' = 1 \<longrightarrow> st_of y ?n \<noteq> UVM_PHASE_DONE"
    using m st1 stage_range [of ?pc] by (auto simp: moves_def split: nat.splits)
  have s2: "stage pc' = 2 \<longrightarrow> st_of y ?n = UVM_PHASE_DONE"
    using m st1 st2 stage_range [of ?pc] mono(1) [of ?n] by (auto simp: moves_def split: nat.splits)
  have "pn_succ (xs_g x ?n) = pn_succ (g ?n)" using s by (simp add: same_struct_def)
  moreover have "set (to_schedule ?pc) \<subseteq> set (pn_succ (g ?n))" using ok by (simp add: thread_ok_def Let_def)
  moreover have "stage pc' \<noteq> 2 \<Longrightarrow> to_schedule pc' = []" by (cases pc') (simp_all add: to_schedule_def)
  ultimately have succ: "set (to_schedule pc') \<subseteq> set (pn_succ (g ?n))"
    using m stage_range [of ?pc] by (auto simp: moves_def to_schedule_def split: nat.splits)
  have put: "\<forall>s \<in> set (putting (t\<lparr>xt_pc := pc'\<rparr>)). st_of y s \<noteq> UVM_PHASE_DORMANT"
    using m by (cases pc') (auto simp: moves_def putting_def)
  show ?thesis
    using ok m preds s1 s2 succ put mono(2) [OF nd] by (simp add: thread_ok_def Let_def moves_def)
qed


lemma token_states:
  assumes "xinv isp g s0 x" "s \<in> set (tokens x)"
  shows "st_of x s \<noteq> UVM_PHASE_DORMANT"
  using assms unfolding xinv_def tokens_def
  by (auto simp: thread_ok_def Let_def)

lemma list_split_update:
  assumes "i < length xs" "xs ! i = t"
  obtains us vs where "xs = us @ t # vs" "\<And>a. xs[i := a] = us @ a # vs"
  using assms id_take_nth_drop [of i xs] upd_conv_take_nth_drop [of i xs] by metis

lemma thread_keeps_inv:
  assumes inv: "xinv isp g s0 x" and i: "i < length (xs_threads x)" and t: "xs_threads x ! i = t"
    and st: "thread_step d ev (xt_phase t) (xt_proc t) (xt_pc t) x = Some (pc', y)"
  shows "xinv isp g s0 (y\<lparr>xs_threads := (xs_threads x)[i := t\<lparr>xt_pc := pc'\<rparr>]\<rparr>)"
proof -
  let ?n = "xt_phase t" and ?pc = "xt_pc t" and ?t' = "t\<lparr>xt_pc := pc'\<rparr>"
  have I: "consistent g" "same_struct (xs_g x) g" "\<And>n. \<not> jumping g n" "distinct (tokens x)" "in_order isp g s0 x"
    "\<And>u. u \<in> set (xs_threads x) \<Longrightarrow> thread_ok isp g x u"
    "\<And>m. m \<in> set (xs_hopper x) \<Longrightarrow> st_of x m \<noteq> UVM_PHASE_DORMANT"
    using inv by (simp_all add: xinv_def)
  obtain us vs where ts: "xs_threads x = us @ t # vs" "\<And>a. (xs_threads x)[i := a] = us @ a # vs"
    using list_split_update [OF i t] by metis
  have ok: "thread_ok isp g x t" using I(6) ts(1) by simp
  then have m: "moves ?n ?pc x pc' y"
    using thread_moves [OF st] I(2,3) same_struct_jumping by (auto simp: thread_ok_def Let_def)
  have st1: "stage ?pc = 1 \<longrightarrow> st_of x ?n \<noteq> UVM_PHASE_DONE" using ok by (simp add: thread_ok_def Let_def)
  note mono = moves_mono [OF m st1]
  have own: "thread_ok isp g y ?t'" by (rule own_thread_ok [OF ok I(2) m])
  have other: "thread_ok isp g y u" if "u \<in> set us \<union> set vs" for u
  proof -
    have u: "thread_ok isp g x u" using I(6) that ts(1) by auto
    have "xt_phase u \<noteq> ?n" using I(4) that unfolding tokens_def ts(1) by auto
    moreover have "st_of x (xt_phase u) \<noteq> UVM_PHASE_DORMANT" using u by (simp add: thread_ok_def Let_def)
    ultimately show ?thesis using thread_ok_cong [OF mono(1,2) mono(3) u] by blast
  qed
  have new: "s \<notin> set (tokens x)" if "pc' = Putting s ss" for s ss
    using m that token_states [OF inv] by (auto simp: moves_def)
  have hop: "xs_hopper y = xs_hopper x @ putting t" using m by (simp add: moves_def putting_def)
  have "putting ?t' = [] \<or> putting t = [] \<and> (\<exists>s. putting ?t' = [s] \<and> s \<notin> set (tokens x))"
    using m new by (cases pc') (auto simp: moves_def putting_def)
  then have "distinct (tokens (y\<lparr>xs_threads := us @ ?t' # vs\<rparr>))"
    using I(4) unfolding tokens_def ts(1) by (auto simp: hop)
  moreover have "st_of y s \<noteq> UVM_PHASE_DORMANT" if "s \<in> set (xs_hopper y)" for s
    using that ok I(7) mono(2) unfolding hop by (auto simp: thread_ok_def Let_def)
  moreover have "in_order isp g s0 y"
  proof (rule in_orderI [OF I(5) mono(1)])
    fix p assume p: "started y p" "executes_process isp g p"
    show "started x p \<or> (\<forall>q \<in> set (pn_pred (g p)). st_of y q = UVM_PHASE_DONE)"
    proof (cases "p = ?n \<and> stage pc' \<noteq> 0")
      case True
      then have "awaited pc' = []" by (cases pc') (simp_all add: awaited_def)
      with True own p(2) show ?thesis by (simp add: thread_ok_def Let_def)
    next
      case False
      have "st_of y ?n = st_of x ?n" if "stage pc' = 0"
        using that m stage_range [of ?pc] by (cases pc') (auto simp: moves_def split: nat.splits)
      moreover have "st_of y p = st_of x p \<or> st_of y p = UVM_PHASE_SCHEDULED" if "p \<noteq> ?n"
        using that m by (cases pc') (auto simp: moves_def)
      ultimately have "st_of y p = st_of x p \<or> st_of y p = UVM_PHASE_SCHEDULED" using False by blast
      then show ?thesis using p(1) by (auto simp: started_def running_def)
    qed
  next
    fix p assume p: "st_of y p \<noteq> UVM_PHASE_DORMANT"
    show "st_of x p \<noteq> UVM_PHASE_DORMANT \<or> (\<exists>q \<in> set (pn_pred (g p)). st_of y q = UVM_PHASE_DONE)"
    proof (rule disjCI)
      assume "\<not> (\<exists>q \<in> set (pn_pred (g p)). st_of y q = UVM_PHASE_DONE)"
      moreover have "?n \<in> set (pn_pred (g p)) \<and> st_of x ?n = UVM_PHASE_DONE"
        if d: "st_of x p = UVM_PHASE_DORMANT"
      proof -
        have "p \<noteq> ?n" using ok d by (auto simp: thread_ok_def Let_def)
        then obtain ss where "?pc = Scheduling (p # ss)"
          using m p d by (cases pc') (auto simp: moves_def split: if_splits)
        then show ?thesis
          using ok I(1) by (auto simp: thread_ok_def Let_def to_schedule_def consistent_def)
      qed
      ultimately show "st_of x p \<noteq> UVM_PHASE_DORMANT" using mono(1) by blast
    qed
  qed
  moreover have "same_struct (xs_g y) g" using m I(2) same_struct_trans by (auto simp: moves_def)
  moreover have "\<forall>u \<in> set (us @ ?t' # vs). thread_ok isp g y u" using own other by auto
  ultimately show ?thesis
    using I(1,3) same_states [of "y\<lparr>xs_threads := us @ ?t' # vs\<rparr>" y, OF ext]
    unfolding ts(2) by (simp add: xinv_def)
qed

lemma take_keeps_inv:
  assumes inv: "xinv isp g s0 x" and l: "xs_loop x = Getting" "xs_hopper x = n # rest"
    and y: "xexec d isp Take x = Some y"
  shows "xinv isp g s0 y"
proof -
  let ?p = "executes_process isp (xs_g x) n"
  let ?t = "\<lparr>xt_phase = n, xt_proc = ?p, xt_pc = Wait_preds (if ?p then pn_pred (xs_g x n) else [])\<rparr>"
  have I: "same_struct (xs_g x) g" "\<And>m. m \<in> set (xs_hopper x) \<Longrightarrow> st_of x m \<noteq> UVM_PHASE_DORMANT"
    using inv by (simp_all add: xinv_def)
  have "thread_ok isp g x ?t"
    using I l(2) same_struct_process [OF I(1)]
    by (auto simp: thread_ok_def Let_def in_jump_def awaited_def to_schedule_def putting_def same_struct_def)
  moreover have y: "y = x\<lparr>xs_hopper := rest, xs_threads := xs_threads x @ [?t],
      xs_loop := (if ?p then after_phase x n else Calling (length (xs_threads x)))\<rparr>"
    using l y by (simp add: Let_def)
  moreover have "distinct (tokens y)"
    using inv l(2) unfolding y by (auto simp: xinv_def tokens_def putting_def)
  moreover have "st_of y = st_of x" unfolding y by (rule ext) simp
  ultimately show ?thesis
    using inv l(2) same_states [of y x] by (simp add: xinv_def)
qed

lemma xstep_keeps_inv:
  assumes inv: "xinv isp g s0 x" and l: "\<forall>n p. l \<noteq> Request_jump n p"
  shows "xinv isp g s0 (xstep d isp l x)"
proof (cases "xexec d isp l x")
  case None
  then show ?thesis using inv by (simp add: xstep_def)
next
  case (Some y)
  have "xinv isp g s0 y"
  proof (cases l)
    case (Thread i ev)
    let ?t = "xs_threads x ! i"
    from Some Thread obtain pc y0 where i: "i < length (xs_threads x)"
      and st: "thread_step d ev (xt_phase ?t) (xt_proc ?t) (xt_pc ?t) x = Some (pc, y0)"
      and y: "y = y0\<lparr>xs_threads := (xs_threads x)[i := ?t\<lparr>xt_pc := pc\<rparr>]\<rparr>"
      by (auto simp: Let_def split: if_splits)
    show ?thesis unfolding y by (rule thread_keeps_inv [OF inv i refl st])
  next
    case (Jump_out i)
    with Some inv same_struct_jumping show ?thesis by (force simp: xinv_def split: if_splits)
  next
    case Take
    with Some obtain n rest where "xs_loop x = Getting" "xs_hopper x = n # rest"
      by (auto split: xloop.splits list.splits)
    with Some Take take_keeps_inv [OF inv] show ?thesis by blast
  next
    case Return
    with Some obtain i where y: "y = x\<lparr>xs_loop := after_phase x (xt_phase (xs_threads x ! i))\<rparr>"
      by (auto split: xloop.splits if_splits)
    have "st_of y = st_of x" unfolding y by (rule ext) simp
    with inv same_states [of y x] show ?thesis unfolding y by (simp add: xinv_def)
  next
    case (Objections n k)
    with Some have y: "y = x\<lparr>xs_objs := (xs_objs x)(n := k)\<rparr>" by simp
    have "st_of y = st_of x" unfolding y by (rule ext) simp
    with inv same_states [of y x] show ?thesis unfolding y by (simp add: xinv_def)
  next
    case Construct
    with Some have y: "y = x\<lparr>xs_hopper := [],
        xs_loop := (if xs_loop x = Getting \<and> xs_hopper x = [] then Lost else xs_loop x)\<rparr>" by simp
    have "st_of y = st_of x" unfolding y by (rule ext) simp
    with inv same_states [of y x] show ?thesis unfolding y by (simp add: xinv_def tokens_def)
  qed (use l in simp)
  then show ?thesis using Some by (simp add: xstep_def)
qed

interpretation sched_machine: guarded_machine "xstep d isp" "\<lambda>l _. \<forall>n p. l \<noteq> Request_jump n p" "xinv isp g s0"
  by unfold_locales (rule xstep_keeps_inv)

section \<open>Before the simulation\<close>

text \<open>
  \<open>m_register_phases\<close> follows the last successor of each phase from the common domain on and
  remembers the nodes it meets by their names.
\<close>

partial_function (option) m_register_phases ::
    "graph \<Rightarrow> nat \<Rightarrow> (string \<Rightarrow> nat option) \<Rightarrow> (string \<Rightarrow> nat option) option" where
  [code]: "m_register_phases g ph nodes =
     (let nodes1 = fold (\<lambda>s m. m(pn_name (g s) := Some s)) (pn_succ (g ph)) nodes
      in if pn_succ (g ph) \<noteq> [] \<and> pn_succ (g (last (pn_succ (g ph)))) \<noteq> []
         then m_register_phases g (last (pn_succ (g ph))) nodes1 else Some nodes1)"

text \<open>A direct call of \<open>execute_phase(false)\<close>, which must not wait; a phase not found is skipped.\<close>

partial_function (option) execute_function :: "nat \<Rightarrow> nat \<Rightarrow> xpc \<Rightarrow> xstate \<Rightarrow> xstate option" where
  [code]: "execute_function d n pc x =
     (if pc = Finished then Some x
      else case thread_step d False n False pc x of
             None \<Rightarrow> None
           | Some (pc1, x1) \<Rightarrow> execute_function d n pc1 x1)"

definition m_run_single_phase ::
    "nat \<Rightarrow> (string \<Rightarrow> nat option) \<Rightarrow> string \<Rightarrow> xstate \<Rightarrow> xstate option" where
  "m_run_single_phase d nodes nm x =
     (case nodes nm of None \<Rightarrow> Some x | Some n \<Rightarrow> execute_function d n (Wait_preds []) x)"

definition m_prerun_phases :: "nat \<Rightarrow> (string \<Rightarrow> nat option) \<Rightarrow> xstate \<Rightarrow> xstate option" where
  "m_prerun_phases d nodes x =
     Option.bind (m_run_single_phase d nodes ''build'' x) (m_run_single_phase d nodes ''connect'')"

text \<open>\<open>m_run_phases\<close> empties the hopper before its loop and puts the first phase there.\<close>

definition run_start :: "xstate \<Rightarrow> nat \<Rightarrow> xstate" where
  "run_start x sos = x\<lparr>xs_hopper := [sos], xs_threads := [], xs_loop := Getting\<rparr>"

definition before_phasing :: "graph \<Rightarrow> xstate" where
  "before_phasing g = \<lparr>xs_g = g, xs_hopper = [], xs_threads = [], xs_loop = Getting,
     xs_objs = (\<lambda>_. 0), xs_ready_count = (\<lambda>_. 0), xs_all_done = False\<rparr>"

text \<open>
  From \<open>run_test\<close> to the loop of \<open>m_run_phases\<close>, for the common domain at address \<open>common\<close>; the
  user code of the three phases does nothing to the phases.
\<close>

definition phasing_start :: "nat \<Rightarrow> nat \<Rightarrow> graph \<Rightarrow> xstate option" where
  "phasing_start d common g =
     Option.bind (m_register_phases g common (\<lambda>_. None))
       (\<lambda>nodes. Option.bind (m_prerun_phases d nodes (before_phasing g))
       (\<lambda>x. Option.bind (m_run_single_phase d nodes ''end_of_elaboration'' x)
       (\<lambda>y. map_option (run_start y) (nodes ''start_of_simulation''))))"

section \<open>Order of execution\<close>

text \<open>
  C4. Let the scheduler begin with any phase that is not dormant, in any states \<open>st_of x\<close> of the
  phases: the first ones have been run directly and are done, without those before them in the
  graph (the node of the common domain itself is never run). Until a jump is requested, whatever
  the interleaving: no phase that runs as a process and has not run before starts before all its
  predecessors are done, no dormant phase is scheduled before one of its predecessors is done,
  and no phase is executed twice.
\<close>

theorem phases_in_order:
  assumes "consistent (xs_g x)" "\<forall>n. \<not> jumping (xs_g x) n" "st_of x sos \<noteq> UVM_PHASE_DORMANT"
    and "\<forall>l \<in> set ls. \<forall>n p. l \<noteq> Request_jump n p"
  shows "in_order isp (xs_g x) (st_of x) (fold (xstep d isp) ls (run_start x sos)) \<and>
    distinct (map xt_phase (xs_threads (fold (xstep d isp) ls (run_start x sos))))"
proof -
  have st: "st_of (run_start x sos) = st_of x" by (rule ext) (simp add: run_start_def)
  have "in_order isp (xs_g x) (st_of x) (run_start x sos)"
    by (auto simp: in_order_def started_def st)
  then have "xinv isp (xs_g x) (st_of x) (run_start x sos)"
    using assms(1-3) by (simp add: xinv_def st) (simp add: run_start_def tokens_def)
  moreover have "sched_machine.run_ok d isp ls y" for y
    using assms(4) by (induction ls arbitrary: y) auto
  ultimately have inv: "xinv isp (xs_g x) (st_of x) (fold (xstep d isp) ls (run_start x sos))"
    by (rule sched_machine.run_inv)
  have "distinct (map xt_phase ts)" if "distinct (concat (map (\<lambda>t. xt_phase t # putting t) ts))" for ts
    using that by (induction ts) auto
  with inv show ?thesis by (auto simp: xinv_def tokens_def)
qed

definition run_graph :: graph where
  "run_graph = upd 0 (set_state UVM_PHASE_SCHEDULED) (add_before 3 3 1 (add_target 0 2 3 small_schedule))"

definition run_labels :: "xlabel list" where
  "run_labels = Take # replicate 8 (Thread 0 False) @ Take # replicate 18 (Thread 1 False) @
     Take # replicate 7 (Thread 2 False)"

lemma run_completes:
  "let x = fold (xstep 9 (\<lambda>i. i = 2)) run_labels (run_start (before_phasing run_graph) 0)
   in map (st_of x) [0, 3, 1] = [UVM_PHASE_DONE, UVM_PHASE_DONE, UVM_PHASE_DONE] \<and>
      map xt_phase (xs_threads x) = [0, 3, 1] \<and> xs_all_done x \<and> xs_loop x = Stopped"
  by code_simp

section \<open>The addresses in use\<close>

text \<open>The objects have addresses below \<open>N\<close>, and no jump is requested.\<close>

definition node_within :: "nat \<Rightarrow> phase_node \<Rightarrow> bool" where
  "node_within N nd \<longleftrightarrow> set (pn_pred nd) \<subseteq> {..<N} \<and> set (pn_succ nd) \<subseteq> {..<N} \<and>
     (\<forall>e. pn_end nd = Some e \<longrightarrow> e < N) \<and> \<not> pn_jump_fwd nd \<and> \<not> pn_jump_bkwd nd"

definition graph_within :: "nat \<Rightarrow> graph \<Rightarrow> bool" where
  "graph_within N g \<longleftrightarrow> (\<forall>n. node_within N (g n)) \<and> (\<forall>n \<ge> N. g n = empty_graph n)"

lemma within_node: "graph_within N g \<Longrightarrow> node_within N (g n)"
  by (simp add: graph_within_def)

lemma within_lists:
  "graph_within N g \<Longrightarrow> set (pn_pred (g n)) \<subseteq> {..<N}" "graph_within N g \<Longrightarrow> set (pn_succ (g n)) \<subseteq> {..<N}"
  using within_node by (simp_all add: node_within_def)

lemma within_end: "graph_within N g \<Longrightarrow> pn_end (g n) = Some e \<Longrightarrow> e < N"
  using within_node [of N g n] by (simp add: node_within_def)

lemma within_put: "graph_within N g \<Longrightarrow> a < N \<Longrightarrow> node_within N nd \<Longrightarrow> graph_within N (g(a := nd))"
  by (simp add: graph_within_def)

lemma within_upd: "graph_within N g \<Longrightarrow> a < N \<Longrightarrow> node_within N (f (g a)) \<Longrightarrow> graph_within N (upd a f g)"
  by (simp add: upd_def within_put)

lemma node_within_edges:
  assumes "node_within N nd"
  shows "a < N \<Longrightarrow> node_within N (add_succ a nd)" "a < N \<Longrightarrow> node_within N (add_pred a nd)"
    "node_within N (del_succ a nd)" "node_within N (del_pred a nd)"
    "set xs \<subseteq> {..<N} \<Longrightarrow> node_within N (nd\<lparr>pn_pred := xs\<rparr>)"
    "set xs \<subseteq> {..<N} \<Longrightarrow> node_within N (nd\<lparr>pn_succ := xs\<rparr>)"
  using assms
  by (auto simp: node_within_def add_succ_def add_pred_def del_succ_def del_pred_def erase_key_def)

lemma within_upd_all:
  assumes "graph_within N g" "set xs \<subseteq> {..<N}" "\<And>nd. node_within N nd \<Longrightarrow> node_within N (f nd)"
  shows "graph_within N (upd_all xs f g)"
  using assms
proof (induction xs arbitrary: g)
  case (Cons a xs)
  have "graph_within N (upd a f g)" using Cons.prems within_node by (intro within_upd) auto
  with Cons.IH [OF this] Cons.prems show ?case by (simp add: upd_all_def)
qed (simp add: upd_all_def)

lemma within_new_phase:
  assumes "graph_within N g" "a < N" "e < N"
  shows "graph_within N (new_phase a e nm ty p g)"
  using assms
  by (auto simp: new_phase_def node_within_def fresh_node_def intro!: within_put)

lemma within_add_target:
  assumes "graph_within N g" "phase < N" "new < N"
  shows "graph_within N (add_target this phase new g)"
  using assms within_node [OF assms(1), of phase]
  by (auto simp: add_target_def node_within_def fresh_node_def intro!: within_put within_upd)

lemma within_add_with:
  assumes g: "graph_within N g" and be: "b < N" "e < N"
  shows "graph_within N (add_with b e w g)"
proof -
  let ?g1 = "upd b (\<lambda>nd. nd\<lparr>pn_pred := pn_pred (g w)\<rparr>) g"
  have 1: "graph_within N ?g1"
    by (intro within_upd node_within_edges within_node [OF g] within_lists [OF g] g be)
  let ?g2 = "upd e (\<lambda>nd. nd\<lparr>pn_succ := pn_succ (?g1 w)\<rparr>) ?g1"
  have 2: "graph_within N ?g2"
    by (rule within_upd [OF 1 be(2)], rule node_within_edges(6) [OF within_node [OF 1] within_lists(2) [OF 1]])
  let ?g3 = "upd_all (pn_pred (?g2 w)) (add_succ b) ?g2"
  have 3: "graph_within N ?g3"
    by (rule within_upd_all [OF 2 within_lists(1) [OF 2]]) (rule node_within_edges(1) [OF _ be(1)])
  have "graph_within N (upd_all (pn_succ (?g3 w)) (add_pred e) ?g3)"
    by (rule within_upd_all [OF 3 within_lists(2) [OF 3]]) (rule node_within_edges(2) [OF _ be(2)])
  then show ?thesis by (simp add: add_with_def Let_def)
qed

lemma within_add_before:
  assumes g: "graph_within N g" and be: "b < N" "e < N" "x < N"
  shows "graph_within N (add_before b e x g)"
proof -
  let ?g1 = "upd b (\<lambda>nd. nd\<lparr>pn_pred := pn_pred (g x)\<rparr>) g"
  have 1: "graph_within N ?g1"
    by (rule within_upd [OF g be(1)], rule node_within_edges(5) [OF within_node [OF g] within_lists(1) [OF g]])
  let ?g2 = "upd e (add_succ x) ?g1"
  have 2: "graph_within N ?g2"
    by (rule within_upd [OF 1 be(2)], rule node_within_edges(1) [OF within_node [OF 1] be(3)])
  let ?g3 = "upd_all (pn_pred (?g2 x)) (\<lambda>nd. add_succ b (del_succ x nd)) ?g2"
  have 3: "graph_within N ?g3"
    by (rule within_upd_all [OF 2 within_lists(1) [OF 2]])
      (rule node_within_edges(1) [OF node_within_edges(3) be(1)])
  have "graph_within N (upd x (\<lambda>nd. add_pred e (nd\<lparr>pn_pred := []\<rparr>)) ?g3)"
    by (rule within_upd [OF 3 be(3)],
        rule node_within_edges(2) [OF node_within_edges(5) [OF within_node [OF 3]] be(2)]) simp
  then show ?thesis by (simp add: add_before_def Let_def)
qed

lemma within_phase_add:
  assumes g: "graph_within N g" and n: "phase < N" "new < N" and p: "after_ph = None" "before_ph = None"
    and a: "phase_add d this phase with_ph after_ph before_ph new g = Some g'"
  shows "graph_within N g'"
proof -
  let ?b = "fst (add_ends phase new g)"
  obtain e where e: "snd (add_ends phase new g) = Some e" "e < N" "?b < N"
    using a n within_end [OF g] by (auto simp: phase_add_def add_ends_def Let_def split: if_splits option.splits)
  note t = within_add_target [OF g n]
  show ?thesis
  proof (cases with_ph)
    case (Some w)
    then show ?thesis
      using a e p within_add_with [OF t e(3,2)]
      by (auto simp: phase_add_def Let_def split: if_splits prod.splits)
  next
    case None
    show ?thesis
    proof (cases "pn_end (g this)")
      case None
      then show ?thesis
        using a e p t \<open>with_ph = None\<close> by (auto simp: phase_add_def Let_def split: if_splits prod.splits)
    next
      case (Some x)
      then show ?thesis
        using a e p within_add_before [OF t e(3,2), of x] within_end [OF g Some] \<open>with_ph = None\<close>
        by (auto simp: phase_add_def Let_def split: if_splits prod.splits)
    qed
  qed
qed

lemma within_make_imps:
  "graph_within N g \<Longrightarrow> k + length nms \<le> N \<Longrightarrow> 0 < N \<Longrightarrow> graph_within N (make_imps id k nms g)"
proof (induction nms arbitrary: k g)
  case (Cons nm nms)
  have "graph_within N (new_phase k 0 nm UVM_PHASE_IMP None g)"
    by (rule within_new_phase) (use Cons.prems in auto)
  with Cons.IH [of _ "Suc k"] Cons.prems show ?case by simp
qed simp

lemma within_add_imps:
  "graph_within N g \<Longrightarrow> i + n \<le> N \<Longrightarrow> k + n \<le> N \<Longrightarrow> add_imps d id this i k n g = Some g' \<Longrightarrow> graph_within N g'"
proof (induction n arbitrary: i k g)
  case (Suc n)
  then obtain g1 where g1: "phase_add d this i None None None k g = Some g1"
    and r: "add_imps d id this (Suc i) (Suc k) n g1 = Some g'"
    by (auto simp del: id_apply simp: id_apply [of i] id_apply [of k] split: option.splits)
  have "graph_within N g1" by (rule within_phase_add [OF Suc.prems(1) _ _ _ _ g1]) (use Suc.prems in auto)
  with Suc.IH [OF _ _ _ r] Suc.prems show ?case by simp
qed simp

lemma common_domain_within:
  assumes "get_common_domain d id empty_graph = Some g"
  shows "graph_within 48 g"
proof -
  have 0: "graph_within 48 empty_graph" by (simp add: graph_within_def node_within_def empty_graph_def fresh_node_def)
  let ?g1 = "make_imps id 2 common_names (new_phase 0 1 ''common'' UVM_PHASE_DOMAIN None empty_graph)"
  obtain g2 g3 w where g2: "add_imps d id 0 2 11 9 ?g1 = Some g2" and g3: "get_uvm_domain d id g2 = Some g3"
    and g: "phase_add d 0 20 w None None 0 g3 = Some g" and w: "phase_find d 6 True g3 0 = Some w"
    using assms by (auto simp: get_common_domain_def Let_def split: option.splits)
  have "graph_within 48 ?g1" by (intro within_make_imps within_new_phase 0) (simp_all add: common_names_def)
  from within_add_imps [OF this _ _ g2] have 2: "graph_within 48 g2" by simp
  let ?h = "new_phase 22 23 ''uvm_sched'' UVM_PHASE_SCHEDULE None
    (new_phase 20 21 ''uvm'' UVM_PHASE_DOMAIN None g2)"
  obtain h where h: "add_imps d id 22 24 36 12 (make_imps id 24 runtime_names ?h) = Some h"
    and h3: "phase_add d 20 22 None None None 0 h = Some g3"
    using g3 by (auto simp: get_uvm_domain_def add_uvm_phases_def Let_def split: option.splits)
  have "graph_within 48 (make_imps id 24 runtime_names ?h)"
    by (intro within_make_imps within_new_phase 2) (simp_all add: runtime_names_def)
  from within_add_imps [OF this _ _ h] have "graph_within 48 h" by simp
  from within_phase_add [OF this _ _ _ _ h3] have 3: "graph_within 48 g3" by simp
  from within_phase_add [OF 3 _ _ _ _ g] show ?thesis by simp
qed

text \<open>A graph as a table of its objects, for evaluation.\<close>

definition tab_graph :: "phase_node list \<Rightarrow> graph" where
  "tab_graph tbl n = (if n < length tbl then tbl ! n else empty_graph n)"

lemma tab_graph_id: "graph_within N g \<Longrightarrow> tab_graph (map g [0..<N]) = g"
  by (auto simp: tab_graph_def graph_within_def fun_eq_iff)

definition pnode ::
    "string \<Rightarrow> phase_type \<Rightarrow> nat option \<Rightarrow> nat option \<Rightarrow> nat option \<Rightarrow> nat list \<Rightarrow> nat list \<Rightarrow> phase_node" where
  "pnode nm ty parent imp end_n pred succ = (fresh_node nm ty parent)\<lparr>pn_imp := imp, pn_end := end_n,
     pn_pred := pred, pn_succ := succ\<rparr>"

text \<open>The objects of the common domain; 2 to 10 and 24 to 35 are the predefined phases.\<close>

definition common_nodes :: "phase_node list" where
  "common_nodes =
    [pnode ''common'' UVM_PHASE_DOMAIN None None (Some 1) [] [11],
     pnode ''common_end'' UVM_PHASE_TERMINAL (Some 0) None None [19] [],
     pnode ''build'' UVM_PHASE_IMP None None None [] [],
     pnode ''connect'' UVM_PHASE_IMP None None None [] [],
     pnode ''end_of_elaboration'' UVM_PHASE_IMP None None None [] [],
     pnode ''start_of_simulation'' UVM_PHASE_IMP None None None [] [],
     pnode ''run'' UVM_PHASE_IMP None None None [] [],
     pnode ''extract'' UVM_PHASE_IMP None None None [] [],
     pnode ''check'' UVM_PHASE_IMP None None None [] [],
     pnode ''report'' UVM_PHASE_IMP None None None [] [],
     pnode ''final'' UVM_PHASE_IMP None None None [] [],
     pnode ''build'' UVM_PHASE_NODE (Some 0) (Some 2) None [0] [12],
     pnode ''connect'' UVM_PHASE_NODE (Some 0) (Some 3) None [11] [13],
     pnode ''end_of_elaboration'' UVM_PHASE_NODE (Some 0) (Some 4) None [12] [14],
     pnode ''start_of_simulation'' UVM_PHASE_NODE (Some 0) (Some 5) None [13] [15,20],
     pnode ''run'' UVM_PHASE_NODE (Some 0) (Some 6) None [14] [16],
     pnode ''extract'' UVM_PHASE_NODE (Some 0) (Some 7) None [15,21] [17],
     pnode ''check'' UVM_PHASE_NODE (Some 0) (Some 8) None [16] [18],
     pnode ''report'' UVM_PHASE_NODE (Some 0) (Some 9) None [17] [19],
     pnode ''final'' UVM_PHASE_NODE (Some 0) (Some 10) None [18] [1],
     pnode ''uvm'' UVM_PHASE_DOMAIN (Some 0) None (Some 21) [14] [22],
     pnode ''uvm_end'' UVM_PHASE_TERMINAL (Some 20) None None [23] [16],
     pnode ''uvm_sched'' UVM_PHASE_SCHEDULE (Some 20) None (Some 23) [20] [36],
     pnode ''uvm_sched_end'' UVM_PHASE_TERMINAL (Some 22) None None [47] [21],
     pnode ''pre_reset'' UVM_PHASE_IMP None None None [] [],
     pnode ''reset'' UVM_PHASE_IMP None None None [] [],
     pnode ''post_reset'' UVM_PHASE_IMP None None None [] [],
     pnode ''pre_configure'' UVM_PHASE_IMP None None None [] [],
     pnode ''configure'' UVM_PHASE_IMP None None None [] [],
     pnode ''post_configure'' UVM_PHASE_IMP None None None [] [],
     pnode ''pre_main'' UVM_PHASE_IMP None None None [] [],
     pnode ''main'' UVM_PHASE_IMP None None None [] [],
     pnode ''post_main'' UVM_PHASE_IMP None None None [] [],
     pnode ''pre_shutdown'' UVM_PHASE_IMP None None None [] [],
     pnode ''shutdown'' UVM_PHASE_IMP None None None [] [],
     pnode ''post_shutdown'' UVM_PHASE_IMP None None None [] [],
     pnode ''pre_reset'' UVM_PHASE_NODE (Some 22) (Some 24) None [22] [37],
     pnode ''reset'' UVM_PHASE_NODE (Some 22) (Some 25) None [36] [38],
     pnode ''post_reset'' UVM_PHASE_NODE (Some 22) (Some 26) None [37] [39],
     pnode ''pre_configure'' UVM_PHASE_NODE (Some 22) (Some 27) None [38] [40],
     pnode ''configure'' UVM_PHASE_NODE (Some 22) (Some 28) None [39] [41],
     pnode ''post_configure'' UVM_PHASE_NODE (Some 22) (Some 29) None [40] [42],
     pnode ''pre_main'' UVM_PHASE_NODE (Some 22) (Some 30) None [41] [43],
     pnode ''main'' UVM_PHASE_NODE (Some 22) (Some 31) None [42] [44],
     pnode ''post_main'' UVM_PHASE_NODE (Some 22) (Some 32) None [43] [45],
     pnode ''pre_shutdown'' UVM_PHASE_NODE (Some 22) (Some 33) None [44] [46],
     pnode ''shutdown'' UVM_PHASE_NODE (Some 22) (Some 34) None [45] [47],
     pnode ''post_shutdown'' UVM_PHASE_NODE (Some 22) (Some 35) None [46] [23]]"

lemma common_nodes_eq:
  "map_option (\<lambda>g. map g [0..<48]) (get_common_domain 60 id empty_graph) = Some common_nodes"
  by code_simp

lemma common_domain_table: "get_common_domain 60 id empty_graph = Some (tab_graph common_nodes)"
proof -
  obtain g where g: "get_common_domain 60 id empty_graph = Some g" and t: "map g [0..<48] = common_nodes"
    using common_nodes_eq by (cases "get_common_domain 60 id empty_graph") auto
  have "tab_graph (map g [0..<48]) = g" by (rule tab_graph_id [OF common_domain_within [OF g]])
  with g t show ?thesis by simp
qed


subsection \<open>The common domain\<close>

definition edges_match :: "nat \<Rightarrow> graph \<Rightarrow> bool" where
  "edges_match N g \<longleftrightarrow>
     list_all (\<lambda>a. list_all (\<lambda>b. a \<in> set (pn_pred (g b))) (pn_succ (g a)) \<and>
       list_all (\<lambda>b. a \<in> set (pn_succ (g b))) (pn_pred (g a))) [0..<N]"

lemma consistent_within:
  assumes "graph_within N g" "edges_match N g"
  shows "consistent g"
proof -
  have "pn_succ (g a) = [] \<and> pn_pred (g a) = []" if "\<not> a < N" for a
    using assms(1) that by (simp add: graph_within_def empty_graph_def fresh_node_def)
  then show ?thesis
    using assms(2) unfolding consistent_def edges_match_def list_all_iff
    by (metis (no_types, lifting) atLeastLessThan_iff empty_iff empty_set le0 set_upt)
qed

lemma execute_function_struct:
  assumes "execute_function d n pc x = Some y" "\<forall>m. \<not> jumping (xs_g x) m" "\<not> in_jump pc"
  shows "same_struct (xs_g y) (xs_g x)"
proof -
  let ?P = "\<lambda>(d :: nat) (n :: nat) pc x y. (\<forall>m. \<not> jumping (xs_g x) m) \<longrightarrow> \<not> in_jump pc \<longrightarrow> same_struct (xs_g y) (xs_g x)"
  have "?P d n pc x y"
  proof (rule execute_function.raw_induct [of ?P "(((d, n), pc), x)" y, simplified prod.case])
    fix ef d n pc x y
    assume ih: "\<And>d n pc x y. ef d n pc x = Some y \<Longrightarrow> ?P d n pc x y"
      and e: "(if pc = Finished then Some x
        else case thread_step d False n False pc x of None \<Rightarrow> None | Some (pc1, x1) \<Rightarrow> ef d n pc1 x1) = Some y"
    show "?P d n pc x y"
    proof (cases "pc = Finished")
      case False
      show ?thesis
      proof (intro impI)
        assume j: "\<forall>m. \<not> jumping (xs_g x) m" "\<not> in_jump pc"
        obtain pc1 x1 where s: "thread_step d False n False pc x = Some (pc1, x1)"
          and e1: "ef d n pc1 x1 = Some y"
          using e False by (auto split: option.splits)
        have "moves n pc x pc1 x1" using thread_moves [OF s] j by blast
        then have m: "same_struct (xs_g x1) (xs_g x)" "\<not> in_jump pc1" by (simp_all add: moves_def)
        then have "same_struct (xs_g y) (xs_g x1)" using ih [OF e1] j(1) same_struct_jumping by blast
        with m(1) show "same_struct (xs_g y) (xs_g x)" by (rule same_struct_trans [rotated])
      qed
    qed (use e in simp)
  qed (use assms(1) in simp)
  with assms(2,3) show ?thesis by blast
qed

lemma single_phase_struct:
  "m_run_single_phase d nodes nm x = Some y \<Longrightarrow> (\<forall>m. \<not> jumping (xs_g x) m) \<Longrightarrow>
   same_struct (xs_g y) (xs_g x)"
  by (auto simp: m_run_single_phase_def in_jump_def split: option.splits dest: execute_function_struct)

lemma phasing_start_struct:
  assumes "phasing_start d common g = Some x" "\<forall>m. \<not> jumping g m"
  shows "same_struct (xs_g x) g"
proof -
  obtain nodes x1 x2 x3 sos where
    1: "m_run_single_phase d nodes ''build'' (before_phasing g) = Some x1" and
    2: "m_run_single_phase d nodes ''connect'' x1 = Some x2" and
    3: "m_run_single_phase d nodes ''end_of_elaboration'' x2 = Some x3" and x: "x = run_start x3 sos"
    using assms(1) by (auto simp: phasing_start_def m_prerun_phases_def bind_eq_Some_conv)
  have b: "xs_g (before_phasing g) = g" by (simp add: before_phasing_def)
  have s1: "same_struct (xs_g x1) g" using single_phase_struct [OF 1] assms(2) by (simp add: b)
  have s2: "same_struct (xs_g x2) g"
    using single_phase_struct [OF 2] assms(2) same_struct_jumping [OF s1] same_struct_trans [OF _ s1] by simp
  have s3: "same_struct (xs_g x3) g"
    using single_phase_struct [OF 3] assms(2) same_struct_jumping [OF s2] same_struct_trans [OF _ s2] by simp
  then show ?thesis by (simp add: x run_start_def)
qed

text \<open>The start of the phases of the common domain: its own node has not been run.\<close>

lemma common_edges: "edges_match 48 (tab_graph common_nodes)"
  by code_simp

lemma common_start_states:
  "map_option (\<lambda>x. (map (st_of x) [0, 11, 14], xs_hopper x)) (phasing_start 60 0 (tab_graph common_nodes)) =
   Some ([UVM_PHASE_DORMANT, UVM_PHASE_DONE, UVM_PHASE_SCHEDULED], [14])"
  by code_simp

definition common_labels :: "xlabel list" where
  "common_labels = Take # replicate 11 (Thread 0 False) @ [Return, Take, Take] @ replicate 9 (Thread 1 False)"

theorem phases_in_order_witness:
  "\<exists>g x. get_common_domain 60 id empty_graph = Some g \<and> phasing_start 60 0 g = Some x \<and>
     map (st_of x) [0, 11, 14] = [UVM_PHASE_DORMANT, UVM_PHASE_DONE, UVM_PHASE_SCHEDULED] \<and>
     in_order (\<lambda>i. i = 6 \<or> 24 \<le> i) (xs_g x) (st_of x)
       (fold (xstep 60 (\<lambda>i. i = 6 \<or> 24 \<le> i)) common_labels (run_start x 14)) \<and>
     distinct (map xt_phase (xs_threads
       (fold (xstep 60 (\<lambda>i. i = 6 \<or> 24 \<le> i)) common_labels (run_start x 14))))"
proof -
  let ?g = "tab_graph common_nodes"
  obtain x where x: "phasing_start 60 0 ?g = Some x"
    and s: "map (st_of x) [0, 11, 14] = [UVM_PHASE_DORMANT, UVM_PHASE_DONE, UVM_PHASE_SCHEDULED]"
    using common_start_states by (auto simp: map_option_case split: option.splits)
  note g = common_domain_table
  note w = common_domain_within [OF g]
  have j: "\<forall>m. \<not> jumping ?g m" using within_node [OF w] by (simp add: node_within_def jumping_def)
  note ss = phasing_start_struct [OF x j]
  have "consistent (xs_g x)"
    using consistent_within [OF w common_edges] ss by (simp add: consistent_def same_struct_def)
  moreover have "\<forall>m. \<not> jumping (xs_g x) m" using j same_struct_jumping [OF ss] by simp
  moreover have "st_of x 14 \<noteq> UVM_PHASE_DORMANT" using s by simp
  moreover have "\<forall>l \<in> set common_labels. \<forall>n p. l \<noteq> Request_jump n p" by (simp add: common_labels_def)
  ultimately have "in_order (\<lambda>i. i = 6 \<or> 24 \<le> i) (xs_g x) (st_of x)
       (fold (xstep 60 (\<lambda>i. i = 6 \<or> 24 \<le> i)) common_labels (run_start x 14)) \<and>
     distinct (map xt_phase (xs_threads
       (fold (xstep 60 (\<lambda>i. i = 6 \<or> 24 \<le> i)) common_labels (run_start x 14))))"
    by (rule phases_in_order)
  with g x s show ?thesis by (intro exI [of _ ?g] exI [of _ x] conjI) simp_all
qed

section \<open>A phase constructed during the run\<close>

text \<open>
  Every constructor of a phase makes a new hopper. When the loop waits for the old one, nothing that
  is put into the new one is ever taken.
\<close>

lemma lost_stays: "xs_loop x = Lost \<Longrightarrow> xs_loop (xstep d isp l x) = Lost \<and>
    map xt_phase (xs_threads (xstep d isp l x)) = map xt_phase (xs_threads x)"
proof -
  assume l: "xs_loop x = Lost"
  have "xs_loop y = xs_loop x" if "drop_step ev n pc x = Some (pc', y)" for ev n pc pc' y
    using drop_moves [OF that] by (simp add: moves_def)
  then have t: "xs_loop y = xs_loop x" if "thread_step d ev n proc pc x = Some (pc', y)" for ev n proc pc pc' y
    using that by (cases "(d, ev, n, proc, pc, x)" rule: thread_step.cases)
      (auto simp: Let_def jump_go_def simp del: drop_step.simps split: if_splits option.splits)
  have "(map xt_phase ts)[i := xt_phase (ts ! i)] = map xt_phase ts" if "i < length ts" for i and ts :: "xthread list"
    using that by (metis list_update_id nth_map)
  then show ?thesis
    using l t by (cases l) (auto simp: xstep_def Let_def map_update split: option.splits)
qed

text \<open>When a phase is constructed while the scheduler waits for the next phase, no phase is
  executed any more, whatever happens afterwards.\<close>

theorem constructing_stops_scheduler:
  assumes "xs_loop x = Getting" "xs_hopper x = []"
  shows "map xt_phase (xs_threads (fold (xstep d isp) ls (xstep d isp Construct x))) = map xt_phase (xs_threads x)"
proof -
  have "map xt_phase (xs_threads (fold (xstep d isp) ls y)) = map xt_phase (xs_threads y)"
    if "xs_loop y = Lost" for y
    using that by (induction ls arbitrary: y) (simp_all add: lost_stays)
  then show ?thesis using assms by (simp add: xstep_def)
qed

theorem constructing_stops_scheduler_witness:
  "let x = fold (xstep 9 (\<lambda>i. i = 2)) (Take # replicate 3 (Thread 0 False)) (run_start (before_phasing run_graph) 0);
       y = fold (xstep 9 (\<lambda>i. i = 2)) (drop 4 run_labels) (xstep 9 (\<lambda>i. i = 2) Construct x)
   in map xt_phase (xs_threads y) = [0] \<and> xs_hopper y = [3]"
proof -
  let ?x = "fold (xstep 9 (\<lambda>i. i = 2)) (Take # replicate 3 (Thread 0 False)) (run_start (before_phasing run_graph) 0)"
  have "xs_loop ?x = Getting" "xs_hopper ?x = []" "map xt_phase (xs_threads ?x) = [0]" by code_simp+
  moreover have "xs_hopper (fold (xstep 9 (\<lambda>i. i = 2)) (drop 4 run_labels) (xstep 9 (\<lambda>i. i = 2) Construct ?x)) = [3]"
    by code_simp
  ultimately show ?thesis
    using constructing_stops_scheduler [of ?x 9 "\<lambda>i. i = 2" "drop 4 run_labels"] by (simp only: Let_def)
qed

section \<open>Order of the traversals\<close>

fun preorder :: "comp \<Rightarrow> comp list" where
  "preorder (Comp i d b q cs) = Comp i d b q cs # concat (map preorder cs)"

fun postorder :: "comp \<Rightarrow> comp list" where
  "postorder (Comp i d b q cs) = concat (map postorder cs) @ [Comp i d b q cs]"

fun cat_all :: "'a list option list \<Rightarrow> 'a list option" where
  "cat_all [] = Some []"
| "cat_all (x # xs) = cat x (cat_all xs)"

lemma cat_assoc: "cat (cat a b) c = cat a (cat b c)"
  by (cases a; cases b; cases c) (auto simp: cat_def)

lemma cat_nil [simp]: "cat (Some []) a = a" "cat a (Some []) = a"
  by (cases a; simp add: cat_def)+

lemma cat_all_append: "cat_all (xs @ ys) = cat (cat_all xs) (cat_all ys)"
  by (induction xs) (simp_all add: cat_assoc)

lemma topdown_is_preorder:
  "topdown_tree f c = cat_all (map f (preorder c))"
  "topdown_all f cs = cat_all (map f (concat (map preorder cs)))"
  by (induction f c and f cs rule: topdown_tree_topdown_all.induct) (simp_all add: cat_all_append)

lemma bottomup_is_postorder:
  "bottomup_tree f c = cat_all (map f (postorder c))"
  "bottomup_all f cs = cat_all (map f (concat (map postorder cs)))"
  by (induction f c and f cs rule: bottomup_tree_bottomup_all.induct) (simp_all add: cat_all_append)

fun process_list ::
    "(comp \<Rightarrow> handles \<Rightarrow> (call list \<times> handles) option) \<Rightarrow> comp list \<Rightarrow> handles \<Rightarrow> (call list \<times> handles) option" where
  "process_list f [] hs = Some ([], hs)"
| "process_list f (c # cs) hs =
     (case f c hs of
        None \<Rightarrow> None
      | Some (xs, hs1) \<Rightarrow> map_option (\<lambda>(ys, hs2). (xs @ ys, hs2)) (process_list f cs hs1))"

lemma process_list_append:
  "process_list f (cs @ ds) hs =
     (case process_list f cs hs of
        None \<Rightarrow> None
      | Some (xs, hs1) \<Rightarrow> map_option (\<lambda>(ys, hs2). (xs @ ys, hs2)) (process_list f ds hs1))"
  by (induction cs arbitrary: hs)
    (auto split: option.splits prod.splits simp: map_option_case)

lemma process_is_postorder:
  "process_tree f c hs = process_list f (postorder c) hs"
  "process_all f cs hs = process_list f (concat (map postorder cs)) hs"
  by (induction f c hs and f cs hs rule: process_tree_process_all.induct)
    (auto simp: process_list_append map_option_case split: option.splits prod.splits)

definition phase_ids :: "nat \<Rightarrow> nat \<Rightarrow> comp list \<Rightarrow> nat list" where
  "phase_ids common pd cs = map comp_id (filter (in_phase_domain common pd) cs)"

lemma process_ended:
  "process_list (process_call common pd UVM_PHASE_ENDED) cs hs =
     Some (map Phase_ended (phase_ids common pd cs), \<lambda>i. if i \<in> set (phase_ids common pd cs) then None else hs i)"
  by (induction cs arbitrary: hs) (auto simp: process_call_def phase_ids_def fun_eq_iff)

lemma process_executing:
  "process_list (process_call common pd UVM_PHASE_EXECUTING) cs hs =
     (if distinct (phase_ids common pd cs) \<and> (\<forall>i \<in> set (phase_ids common pd cs). hs i = None)
      then Some (map Phase_execute (phase_ids common pd cs),
        \<lambda>i. if i \<in> set (phase_ids common pd cs) then Some True else hs i)
      else None)"
proof (induction cs arbitrary: hs)
  case (Cons c cs)
  show ?case
  proof (cases "in_phase_domain common pd c")
    case True
    have call: "process_call common pd UVM_PHASE_EXECUTING c hs =
        (if hs (comp_id c) \<noteq> None then None else Some ([Phase_execute (comp_id c)], hs(comp_id c := Some True)))"
      using True by (simp add: process_call_def)
    have ids: "phase_ids common pd (c # cs) = comp_id c # phase_ids common pd cs"
      using True by (simp add: phase_ids_def)
    have split: "(\<forall>i \<in> S. (hs(k := Some True)) i = None) \<longleftrightarrow> k \<notin> S \<and> (\<forall>i \<in> S. hs i = None)" for S k
      by auto
    show ?thesis
      unfolding process_list.simps(2) call ids
      using split by (cases "hs (comp_id c)") (simp_all add: Cons.IH fun_eq_iff)
  next
    case False
    then have "process_call common pd UVM_PHASE_EXECUTING c hs = Some ([], hs)"
      "phase_ids common pd (c # cs) = phase_ids common pd cs"
      by (simp_all add: process_call_def phase_ids_def)
    then show ?thesis by (simp add: Cons.IH)
  qed
qed (simp add: phase_ids_def)

text \<open>A process phase executes the components of its domain, children first; it can do so again
  exactly when it has ended for all of them in between, whatever became of the processes.\<close>

theorem process_phase_round:
  assumes "process_traverse common pd UVM_PHASE_EXECUTING c hs = Some (calls, hs1)"
  shows "calls = map Phase_execute (phase_ids common pd (postorder c)) \<and>
    (phase_ids common pd (postorder c) \<noteq> [] \<longrightarrow>
       process_traverse common pd UVM_PHASE_EXECUTING c hs1 = None) \<and>
    (\<exists>ended hs2. process_traverse common pd UVM_PHASE_ENDED c hs1 = Some (ended, hs2) \<and> hs2 = hs)"
proof -
  let ?ids = "phase_ids common pd (postorder c)"
  from assms have n: "\<forall>i \<in> set ?ids. hs i = None" and c: "calls = map Phase_execute ?ids"
    and h: "hs1 = (\<lambda>i. if i \<in> set ?ids then Some True else hs i)"
    by (auto simp: process_traverse_def process_is_postorder process_executing split: if_splits)
  have e: "(\<lambda>i. if i \<in> set ?ids then None else hs1 i) = hs" using n by (auto simp: h)
  have "(\<forall>i \<in> set ?ids. hs1 i = None) \<longrightarrow> ?ids = []" by (cases ?ids) (auto simp: h)
  then show ?thesis
    using c e by (auto simp: process_traverse_def process_is_postorder process_executing process_ended)
qed

theorem process_phase_round_witness:
  "\<exists>calls hs1 ended. process_traverse 9 9 UVM_PHASE_EXECUTING (Comp 0 1 False False [Comp 1 2 False False [], Comp 2 1 False True []]) (\<lambda>_. None) =
     Some (calls, hs1) \<and> calls = [Phase_execute 1, Phase_execute 2, Phase_execute 0] \<and>
   process_traverse 9 9 UVM_PHASE_ENDED (Comp 0 1 False False [Comp 1 2 False False [], Comp 2 1 False True []]) hs1 =
     Some (ended, \<lambda>_. None)"
proof -
  let ?c = "Comp 0 1 False False [Comp 1 2 False False [], Comp 2 1 False True []]"
  obtain calls hs1 where e: "process_traverse 9 9 UVM_PHASE_EXECUTING ?c (\<lambda>_. None) = Some (calls, hs1)"
    by (simp add: process_traverse_def process_call_def in_phase_domain_def)
  from process_phase_round [OF e] show ?thesis
    using e by (auto simp: phase_ids_def in_phase_domain_def)
qed

end
