(* ===== verification/Spec2Isabelle.thy ===== *)
theory Spec2Isabelle
  imports UVM_Prelude Reg_Model Reg_Field Bit_Layout Reg_Register Reg_Access Reg_Map Reg_Bus Mem_Mam HDL_Backdoor Reg_Memory
    Reg_Block Reg_Vreg Vreg_Access Vreg_Memory Glob Callbacks Factory Resource_Pool Packer Report Objection Sequencer Phase_Graph Phase_Exec
begin

text \<open>
  Verification library of UVM-SystemC, the Universal Verification Methodology class library for
  SystemC (src/uvmsc). The library is C++ on top of the SystemC simulation kernel. Its own logic is
  the register layer, which mirrors the registers of a design and turns accesses into bus
  cycles; the configuration and factory databases; the sequencer; objections and phases; reporting;
  and the packer. This development models that logic and leaves out text output, the SystemC
  kernel, and the class templates that only forward calls.

  \<^bold>\<open>Theories and sources.\<close>

  UVM_Prelude holds what all share: the machine types (\<open>uvm_reg_data_t\<close> and \<open>uvm_reg_addr_t\<close> are
  64-bit words, as in the default configuration), reported messages, masks and bit slices, and
  invariant arguments for state machines.

  The register layer (src/uvmsc/reg). Reg_Model: enumerations, the transaction item, HDL path slices
  (uvm_reg_model, uvm_reg_item, uvm_hdl_path_concat). Reg_Field: \<open>uvm_reg_field\<close>, its record of
  mirrored, desired and reset values, the access policies and their prediction. Bit_Layout: disjoint
  bit ranges as a set of occupied positions. Reg_Register: \<open>uvm_reg\<close> as a list of fields with a lock.
  Reg_Access: write, read, poke, peek, update and mirror of registers and fields; the bus, the
  backdoor and the callbacks are an environment record of functions. Reg_Map: \<open>uvm_reg_map\<close>, the tree
  of maps, physical addresses and the address tables. Reg_Bus: \<open>do_bus_write\<close> and \<open>do_bus_read\<close>, the
  split of a transfer into cycles; adapter and driver are functions. HDL_Backdoor: HDL paths and the
  default backdoor of memories. Reg_Memory: \<open>uvm_mem\<close>, with the world behind it as an environment record. Reg_Block:
  \<open>uvm_reg_block\<close>, the containment of blocks, registers and memories and what is done through it.
  Mem_Mam: \<open>uvm_mem_mam\<close> and
  \<open>uvm_mem_region\<close>. Reg_Vreg: \<open>uvm_vreg\<close>, arrays of registers in a memory, their allocation and their fields.
  Vreg_Access: \<open>write\<close>, \<open>read\<close>, \<open>poke\<close> and \<open>peek\<close> of virtual registers and fields as loops over memory
  locations. Vreg_Memory: these loops on the memories of Reg_Memory.

  Databases. Glob: the glob matching of uvm_globals.cpp. Factory: \<open>uvm_default_factory\<close>.
  Resource_Pool: \<open>uvm_resource_pool\<close>, \<open>uvm_resource_db\<close>, \<open>uvm_config_db\<close> (src/uvmsc/conf).

  Execution. Objection: \<open>uvm_objection\<close> (src/uvmsc/phasing), with its drain processes as explicit
  pending work. Callbacks: the queues of callbacks of types and objects (src/uvmsc/cb) and \<open>uvm_queue\<close>. Sequencer: the arbitration of \<open>uvm_sequencer_base\<close> (src/uvmsc/seq). Report: handler,
  server and catchers (src/uvmsc/report). Packer: \<open>uvm_packer\<close> (src/uvmsc/policy). Phase_Graph:
  \<open>uvm_phase\<close> and \<open>uvm_domain\<close> as a graph (src/uvmsc/phasing). Phase_Exec: the execution of phases
  as threads with program counters, the scheduler, and the traversals of the component tree.

  \<^bold>\<open>How the state corresponds.\<close> A class is a record whose fields name its members; pointers to
  other objects are numbers that index a store or list in an enclosing record. Member functions are
  state-passing functions; \<open>const\<close> ones return a value only. A reported error is a value: functions
  return the messages they report with their state, or \<open>None\<close> where the source would use an
  invalid handle, index or iterator, divide by zero, write behind a fixed buffer, overflow a signed size,
  or throw. A blocking call is split where it waits: what may happen in
  between is a step of a transition system (Objection, Sequencer) or an argument of the
  definition.

  \<^bold>\<open>What is shown.\<close> For fields and registers: prediction follows the table of access policies,
  values stay within their bits, the mirror tracks hardware that follows the policy through writes
  and reads, and field accesses leave or change their neighbours exactly as stated. For maps:
  the tables decode an address to the register mapped there; physical addresses of an element cover
  it; every map operation returns when the widths are positive. For bus transfers: a value written in cycles is read back, and
  exactly the bytes of a field change. For memories:
  bursts are read back over the bus and by the backdoor, and the computed addresses are those of the maps.
  For blocks: locking returns and reaches exactly the blocks, registers and memories below (virtual registers are never
  locked), these keep their structure once locked, and
  enumerations, searches and resets cover exactly what lies below. For the memory manager: allocated regions are disjoint and
  within bounds, and reservation succeeds exactly when the range is free, as long as no request wraps around
  the end of the offsets. For virtual registers: an allocated
  array lies in its region, its elements apart; accesses to registers and fields, over the bus and by the backdoor,
  act on memory locations as on an array of bits. For the factory: the
  resolution of overrides ends and yields the last override of the chain. For the configuration
  database: a lookup gives the latest setting of highest precedence. For globs: the matcher accepts
  the language of the pattern, as long as its expression fits the static buffer. For objections: the totals
  of ancestors are sums, no count is negative, raise and drop cancel. For the sequencer: locks nest, arbitration picks an eligible
  request
  by its mode when the requested priorities are positive, grants make progress. For the packer: streams of items
  survive packing and transfer exactly as far as the 32-bit size reaches. For reporting: the quit limit is exact and counts are consistent. For phases: adding a phase
  keeps the graph acyclic and puts the phase exactly where asked; in every interleaving that starts as the
  code starts it (the function phases before the run phases executed directly) a process phase starts only after its predecessors; the siblings of a phase are found on every acyclic
  graph. For callbacks: iteration visits exactly the enabled ones of the object's queue in order, and type-wide ones
  reach and leave exactly the objects of the type. Where the code
  does something other than its documentation says, a theorem states what it does.

  \<^bold>\<open>Interfaces.\<close> Locales state the contracts between parts; each is interpreted on the definitions
  that provide it. \<open>guarded_machine\<close> and \<open>total_machine\<close> (UVM_Prelude) are state machines with an
  invariant, used by fields, maps, blocks, the memory manager, factory, callbacks, objections, sequencer and phase
  scheduler. \<open>iterator\<close> (Callbacks) is the contract of a step that moves along a queue, interpreted forwards and
  backwards. \<open>bit_parts\<close> (Bit_Layout) is the contract of values that occupy disjoint bits, used by
  Reg_Register for mirrored, desired and reset values. \<open>locations\<close> (Vreg_Access) is the contract of memory locations that hold
  a number of bits each, interpreted on a memory on the bus and on a memory behind the backdoor. \<open>codec\<close> (Packer) is the contract of a pair of
  pack and unpack operators, with vectors and item streams derived from it.

  \<^bold>\<open>Bounds and fuel.\<close> Structural recursion is used where the data allows it. Walking up the tree
  of maps uses as fuel a bound on the depth of the hierarchy of blocks, enough because the block of a parent map
  is the parent of the block of the map. Resolving overrides uses twice the number of overrides
  plus one, enough because an override is not used again on the path to itself. Reading a string
  from a packer uses one more than the packed bits, each round consuming eight. Theorems on
  termination state that the fuel suffices. Searches in the graph of phases are bounded in depth; the
  number of phases that can be reached is enough when there is no cycle. The sizes of the packer
  are naturals up to the greatest multiple of its growth that an \<open>int\<close> holds. Counters that the source keeps in 32 bits are
  integers or naturals where only an absurd number of calls would make them wrap; values that do wrap
  (addresses, data, masks, priorities, sizes) are words.

  \<^bold>\<open>Not modelled.\<close> Printing, comparing and recording of objects; the component tree beyond names and
  depth; TLM ports and channels (bindings of SystemC ports); events, barriers and mutexes (SystemC
  primitives); derived callback types, whose registration cannot be compiled; FIFO and indirect registers; sequences (user code in SystemC processes); the timeout and the
  traces of phases; what \<open>die\<close> runs when a report ends the simulation; examples and tests.
\<close>

end
